(* ===== verification/Prelude.thy ===== *)
theory Prelude
  imports Main "HOL-Library.Word" "HOL-Library.Multiset" "HOL-Library.AList"
begin

text \<open>
  What every component of the development shares: the names of the machine integer types of Go,
  the collections of rewrite rules the component proofs draw on, and the generic facts on words,
  lists and association lists.

  A Go map that the code only reads and writes by key is a HOL map. A Go map that the code ranges
  over (\<^verbatim>\<open>for k, v := range m\<close>) is an association list with distinct keys: the list is the order
  in which the run visits the entries, which Go leaves open, so a theorem about all lists is a theorem
  about all visiting orders.
\<close>

unbundle bit_operations_syntax

named_theorems go_defs \<open>unfolding rules of the modelled operations\<close>
named_theorems inv_intros \<open>an operation keeps its component's invariant\<close>

type_synonym u8 = "8 word"
type_synonym u16 = "16 word"
type_synonym u32 = "32 word"
type_synonym u64 = "64 word"

subsection \<open>Words\<close>

lemma unat_u64_less: "unat (w :: u64) < 2 ^ 64"
  using unsigned_less [of w, where ?'a = nat] by simp

lemma unat_minus_one_word: "unat (- 1 :: 'a::len word) = 2 ^ LENGTH('a) - 1"
  by (simp add: unsigned_minus_1_eq_mask mask_eq_exp_minus_1)

lemma unat_minus_1_minus: "unat (- 1 - b :: 'a::len word) = 2 ^ LENGTH('a) - 1 - unat b"
proof -
  have "unat (- 1 - b :: 'a word) = unat (- 1 :: 'a word) - unat b"
    by (rule unat_sub) simp
  then show ?thesis by (simp add: unat_minus_one_word)
qed

lemma unat_plus_if_fits:
  "unat a + unat b < 2 ^ LENGTH('a) \<Longrightarrow> unat (a + b :: 'a::len word) = unat a + unat b"
  by (simp add: unat_word_ariths)

lemma unat_mult_if_fits:
  "unat a * unat b < 2 ^ LENGTH('a) \<Longrightarrow> unat (a * b :: 'a::len word) = unat a * unat b"
  by (simp add: unat_word_ariths)

subsection \<open>Association lists as Go maps\<close>

type_synonym ('k, 'v) gomap = "('k \<times> 'v) list"

abbreviation wf_gomap :: "('k, 'v) gomap \<Rightarrow> bool" where
  "wf_gomap m \<equiv> distinct (map fst m)"

lemma wf_gomap_update [inv_intros]: "wf_gomap m \<Longrightarrow> wf_gomap (AList.update k v m)"
  by (rule distinct_update)

lemma wf_gomap_delete [inv_intros]: "wf_gomap m \<Longrightarrow> wf_gomap (AList.delete k m)"
  by (rule distinct_delete)

lemma wf_gomap_filter [inv_intros]: "wf_gomap m \<Longrightarrow> wf_gomap (filter P m)"
  by (rule distinct_map_filter)

lemma map_of_filter_fst:
  "map_of (filter (\<lambda>(k, v). P k) m) x = (if P x then map_of m x else None)"
  by (induction m) auto

text \<open>The total of a weight function over the entries, and how an update or a deletion moves it.\<close>

definition gomap_sum :: "('k \<Rightarrow> 'v \<Rightarrow> int) \<Rightarrow> ('k, 'v) gomap \<Rightarrow> int" where
  "gomap_sum w m = sum_list (map (\<lambda>(k, v). w k v) m)"

lemma gomap_sum_Nil [simp]: "gomap_sum w [] = 0"
  by (simp add: gomap_sum_def)

lemma gomap_sum_Cons [simp]: "gomap_sum w ((k, v) # m) = w k v + gomap_sum w m"
  by (simp add: gomap_sum_def)

lemma gomap_sum_append [simp]: "gomap_sum w (m @ m') = gomap_sum w m + gomap_sum w m'"
  by (simp add: gomap_sum_def)

abbreviation weight_at :: "('k \<Rightarrow> 'v \<Rightarrow> int) \<Rightarrow> 'k \<Rightarrow> 'v option \<Rightarrow> int" where
  "weight_at w k ov \<equiv> (case ov of None \<Rightarrow> 0 | Some v \<Rightarrow> w k v)"

lemma gomap_sum_update:
  "wf_gomap m \<Longrightarrow> gomap_sum w (AList.update k v m) = gomap_sum w m - weight_at w k (map_of m k) + w k v"
proof (induction m)
  case (Cons e m)
  then show ?case by (cases e) (auto split: option.splits)
qed simp

lemma delete_absent: "k \<notin> fst ` set m \<Longrightarrow> AList.delete k m = m"
  by (induction m) (auto simp: AList.delete_eq)

lemma gomap_sum_delete:
  "wf_gomap m \<Longrightarrow> gomap_sum w (AList.delete k m) = gomap_sum w m - weight_at w k (map_of m k)"
proof (induction m)
  case (Cons e m)
  obtain k' v' where e: "e = (k', v')" by fastforce
  show ?case
  proof (cases "k' = k")
    case True
    with Cons.prems e show ?thesis by (simp add: delete_absent)
  next
    case False
    with Cons e show ?thesis by simp
  qed
qed simp

lemma gomap_sum_nonneg: "(\<And>k v. (k, v) \<in> set m \<Longrightarrow> 0 \<le> w k v) \<Longrightarrow> 0 \<le> gomap_sum w m"
  by (induction m) (auto simp: add_nonneg_nonneg)

lemma gomap_sum_ge_entry:
  assumes "\<And>k v. (k, v) \<in> set m \<Longrightarrow> 0 \<le> w k v" and "map_of m k = Some v"
  shows "w k v \<le> gomap_sum w m"
  using assms
proof (induction m)
  case (Cons e m)
  obtain k' v' where e: "e = (k', v')" by fastforce
  have nn: "0 \<le> gomap_sum w m" "0 \<le> w k' v'"
    using Cons.prems(1) e by (auto intro: gomap_sum_nonneg)
  show ?case
  proof (cases "k' = k")
    case True
    then show ?thesis using Cons.prems(2) e nn by simp
  next
    case False
    then have "w k v \<le> gomap_sum w m" using Cons e by simp
    then show ?thesis using e nn by simp
  qed
qed simp

lemma gomap_sum_filter_split:
  "gomap_sum w m = gomap_sum w (filter (\<lambda>(k, v). P k) m) + gomap_sum w (filter (\<lambda>(k, v). \<not> P k) m)"
  by (induction m) auto

lemma gomap_sum_filter_le:
  assumes "\<And>k v. (k, v) \<in> set m \<Longrightarrow> 0 \<le> w k v"
  shows "gomap_sum w (filter (\<lambda>(k, v). P k) m) \<le> gomap_sum w m"
proof -
  have "0 \<le> gomap_sum w (filter (\<lambda>(k, v). \<not> P k) m)"
    using assms by (intro gomap_sum_nonneg) auto
  then show ?thesis using gomap_sum_filter_split [of w m P] by simp
qed

lemma map_of_update [simp]: "map_of (AList.update k v m) = (map_of m)(k \<mapsto> v)"
  by (rule update_conv')

lemma map_of_delete [simp]: "map_of (AList.delete k m) = (map_of m)(k := None)"
  by (rule delete_conv')

lemma length_delete_less: "map_of m k = Some v \<Longrightarrow> length (AList.delete k m) < length m"
  unfolding AList.delete_eq by (rule length_filter_less [of "(k, v)"]) (auto dest: map_of_SomeD)

lemma dom_map_of_keys: "map_of m k = Some v \<Longrightarrow> k \<in> fst ` set m"
  by (force dest: map_of_SomeD)

subsection \<open>Results that may be errors\<close>

text \<open>A call that returns an error is a value \<open>Inl e\<close>; \<open>res_bind\<close> is the early return after a failed call.\<close>

definition res_bind :: "'e + 'a \<Rightarrow> ('a \<Rightarrow> 'e + 'b) \<Rightarrow> 'e + 'b" where
  "res_bind r f = (case r of Inl e \<Rightarrow> Inl e | Inr x \<Rightarrow> f x)"

lemma res_bind_simps [simp]: "res_bind (Inl e) f = Inl e" "res_bind (Inr x) f = f x"
  by (simp_all add: res_bind_def)

lemma res_bind_Inr_iff: "res_bind r f = Inr y \<longleftrightarrow> (\<exists>x. r = Inr x \<and> f x = Inr y)"
  by (cases r) auto

lemma res_bind_InrE: "res_bind r f = Inr y \<Longrightarrow> (\<And>x. r = Inr x \<Longrightarrow> f x = Inr y \<Longrightarrow> P) \<Longrightarrow> P"
  by (auto simp: res_bind_Inr_iff)

lemma res_bind_Inl_iff: "res_bind r f = Inl e \<longleftrightarrow> r = Inl e \<or> (\<exists>x. r = Inr x \<and> f x = Inl e)"
  by (cases r) auto

lemma res_bind_cong [fundef_cong]:
  "r = r' \<Longrightarrow> (\<And>x. r' = Inr x \<Longrightarrow> f x = f' x) \<Longrightarrow> res_bind r f = res_bind r' f'"
  by (cases r') auto

subsection \<open>Comparison of bytes\<close>

text \<open>\<^verbatim>\<open>bytes.Compare\<close> gives -1.\<close>

fun bytes_less :: "u8 list \<Rightarrow> u8 list \<Rightarrow> bool" where
  "bytes_less _ [] = False"
| "bytes_less [] (_ # _) = True"
| "bytes_less (a # as) (b # bs) = (if a < b then True else if b < a then False else bytes_less as bs)"

lemma bytes_less_irrefl: "\<not> bytes_less x x"
  by (induction x) auto

lemma bytes_less_trans: "bytes_less x y \<Longrightarrow> bytes_less y z \<Longrightarrow> bytes_less x z"
proof (induction x y arbitrary: z rule: bytes_less.induct)
  case (2 b bs)
  then show ?case by (cases z) auto
next
  case (3 a as b bs)
  then show ?case by (cases z) (auto split: if_splits)
qed simp

lemma bytes_less_linear: "bytes_less x y \<or> x = y \<or> bytes_less y x"
  by (induction x y rule: bytes_less.induct) (auto simp: neq_Nil_conv, metis bytes_less.simps(2) neq_Nil_conv)

end
