(* ===== verification/SafeMath.thy ===== *)
theory SafeMath
  imports Prelude
begin

text \<open>
  Checked arithmetic on unsigned integers: \<^verbatim>\<open>utils/math/safe_math.go\<close>. Every operation either
  reports an error or returns the exact mathematical result; the components that keep weights, stakes
  and sizes rely on that.
\<close>

datatype math_error = ErrOverflow | ErrUnderflow

definition MaxUint64 :: u64 where
  "MaxUint64 = - 1"

text \<open>The variadic \<^verbatim>\<open>Max\<close> and \<^verbatim>\<open>Min\<close>: the first argument and the loop over the rest.\<close>

fun Max_nums :: "'a::linorder \<Rightarrow> 'a list \<Rightarrow> 'a" where
  "Max_nums mx [] = mx"
| "Max_nums mx (num # nums) = Max_nums (if mx < num then num else mx) nums"

fun Min_nums :: "'a::linorder \<Rightarrow> 'a list \<Rightarrow> 'a" where
  "Min_nums mn [] = mn"
| "Min_nums mn (num # nums) = Min_nums (if num < mn then num else mn) nums"

definition Add64 :: "u64 \<Rightarrow> u64 \<Rightarrow> math_error + u64" where
  "Add64 a b = (if a > MaxUint64 - b then Inl ErrOverflow else Inr (a + b))"

definition Sub :: "'a::len word \<Rightarrow> 'a word \<Rightarrow> math_error + 'a word" where
  "Sub a b = (if a < b then Inl ErrUnderflow else Inr (a - b))"

definition Mul64 :: "u64 \<Rightarrow> u64 \<Rightarrow> math_error + u64" where
  "Mul64 a b = (if b \<noteq> 0 \<and> a > MaxUint64 div b then Inl ErrOverflow else Inr (a * b))"

definition AbsDiff :: "'a::len word \<Rightarrow> 'a word \<Rightarrow> 'a word" where
  "AbsDiff a b = Max_nums a [b] - Min_nums a [b]"

lemma Add64_Inr_iff: "Add64 a b = Inr c \<longleftrightarrow> unat a + unat b < 2 ^ 64 \<and> c = a + b"
proof -
  have "a > MaxUint64 - b \<longleftrightarrow> \<not> unat a + unat b < 2 ^ 64"
    using unat_u64_less [of b]
    by (auto simp: MaxUint64_def word_less_nat_alt unat_minus_1_minus)
  then show ?thesis by (auto simp: Add64_def)
qed

lemma Add64_cases:
  obtains (ok) c where "Add64 a b = Inr c" "c = a + b" "unat c = unat a + unat b" "unat a + unat b < 2 ^ 64"
  | (overflow) "Add64 a b = Inl ErrOverflow" "2 ^ 64 \<le> unat a + unat b"
proof (cases "unat a + unat b < 2 ^ 64")
  case True
  then have "Add64 a b = Inr (a + b)" by (simp add: Add64_Inr_iff)
  with True ok show ?thesis by (simp add: unat_plus_if_fits)
next
  case False
  then have "Add64 a b = Inl ErrOverflow"
    using Add64_Inr_iff [of a b "a + b"] by (auto simp: Add64_def split: if_splits)
  with False overflow show ?thesis by simp
qed

lemma Sub_Inr_iff: "Sub a b = Inr c \<longleftrightarrow> b \<le> a \<and> c = a - b"
  by (auto simp: Sub_def)

lemma unat_Sub: "Sub a b = Inr c \<Longrightarrow> unat b \<le> unat a \<and> unat c = unat a - unat b"
  by (auto simp: Sub_Inr_iff word_le_nat_alt unat_sub)

lemma Mul64_overflow_iff:
  "(b \<noteq> 0 \<and> a > MaxUint64 div b) \<longleftrightarrow> 2 ^ 64 \<le> unat a * unat b"
proof (cases "b = 0")
  case False
  then have pos: "0 < unat b" by (simp add: unat_gt_0)
  have "a > MaxUint64 div b \<longleftrightarrow> (2 ^ 64 - 1) div unat b < unat a"
    by (simp add: MaxUint64_def word_less_nat_alt unat_div unat_minus_one_word)
  also have "\<dots> \<longleftrightarrow> 2 ^ 64 - 1 < unat a * unat b"
    using pos by (simp add: div_less_iff_less_mult)
  also have "\<dots> \<longleftrightarrow> 2 ^ 64 \<le> unat a * unat b"
    by auto
  finally show ?thesis using False by simp
qed simp

lemma Mul64_Inr_iff: "Mul64 a b = Inr c \<longleftrightarrow> unat a * unat b < 2 ^ 64 \<and> c = a * b"
  unfolding Mul64_def Mul64_overflow_iff by auto

lemma Max_nums_eq_Max: "Max_nums mx nums = Max (insert mx (set nums))"
proof (induction nums arbitrary: mx)
  case (Cons num nums)
  have step: "(if mx < num then num else mx) = max mx num"
    by (auto simp: max_def not_less)
  show ?case
    by (cases "nums = []") (simp_all add: step Cons.IH max.assoc)
qed simp

lemma Min_nums_eq_Min: "Min_nums mn nums = Min (insert mn (set nums))"
proof (induction nums arbitrary: mn)
  case (Cons num nums)
  have step: "(if num < mn then num else mn) = min mn num"
    by (auto simp: min_def not_less)
  show ?case
    by (cases "nums = []") (simp_all add: step Cons.IH min.assoc)
qed simp

lemma unat_AbsDiff: "int (unat (AbsDiff a b)) = \<bar>int (unat a) - int (unat b)\<bar>"
proof (cases "a < b")
  case True
  then have "uint a < uint b" and "AbsDiff a b = b - a"
    by (simp_all add: word_less_def AbsDiff_def)
  then show ?thesis using uint_sub_lem [of a b] by simp
next
  case False
  then have "uint b \<le> uint a" and "AbsDiff a b = a - b"
    by (simp add: word_less_def, cases "b < a") (use False in \<open>simp_all add: AbsDiff_def\<close>)
  then show ?thesis using uint_sub_lem [of b a] by simp
qed

text \<open>(C28) Checked arithmetic is exact: \<^verbatim>\<open>Add64\<close>, \<^verbatim>\<open>Sub\<close> and \<^verbatim>\<open>Mul64\<close> report an error precisely
  when the mathematical result leaves the range of the type, and otherwise the returned word denotes
  that result; \<^verbatim>\<open>AbsDiff\<close> is the distance of its arguments and never wraps.\<close>

theorem safe_math_exact:
  fixes a b :: u64
  shows "(case Add64 a b of Inr c \<Rightarrow> unat c = unat a + unat b
          | Inl e \<Rightarrow> e = ErrOverflow \<and> 2 ^ 64 \<le> unat a + unat b)
    \<and> (case Sub a b of Inr c \<Rightarrow> int (unat c) = int (unat a) - int (unat b)
          | Inl e \<Rightarrow> e = ErrUnderflow \<and> unat a < unat b)
    \<and> (case Mul64 a b of Inr c \<Rightarrow> unat c = unat a * unat b
          | Inl e \<Rightarrow> e = ErrOverflow \<and> 2 ^ 64 \<le> unat a * unat b)
    \<and> int (unat (AbsDiff a b)) = \<bar>int (unat a) - int (unat b)\<bar>"
proof (intro conjI)
  show "case Add64 a b of Inr c \<Rightarrow> unat c = unat a + unat b
          | Inl e \<Rightarrow> e = ErrOverflow \<and> 2 ^ 64 \<le> unat a + unat b"
    by (cases rule: Add64_cases [of a b]) simp_all
  show "case Sub a b of Inr c \<Rightarrow> int (unat c) = int (unat a) - int (unat b)
          | Inl e \<Rightarrow> e = ErrUnderflow \<and> unat a < unat b"
  proof (cases "a < b")
    case True
    then show ?thesis by (simp add: Sub_def word_less_nat_alt)
  next
    case False
    then have "uint b \<le> uint a" by (simp add: word_less_def)
    then show ?thesis using False uint_sub_lem [of b a] by (simp add: Sub_def)
  qed
  show "case Mul64 a b of Inr c \<Rightarrow> unat c = unat a * unat b
          | Inl e \<Rightarrow> e = ErrOverflow \<and> 2 ^ 64 \<le> unat a * unat b"
    unfolding Mul64_def Mul64_overflow_iff by (auto intro: unat_mult_if_fits)
qed (rule unat_AbsDiff)

end
