(* ===== verification/Bits64.thy ===== *)
theory Bits64
  imports Prelude
begin

text \<open>
  Sets of small integers in one machine word: \<^verbatim>\<open>utils/set/bits_64.go\<close>. The abstraction is the set
  of positions of the one bits; every operation is shown to be the set operation it is named after. A
  shift by 64 or more gives zero in Go, as \<open>push_bit\<close> on a 64-bit word does.
\<close>

type_synonym Bits64 = u64

definition Bits64_Add :: "Bits64 \<Rightarrow> nat \<Rightarrow> Bits64" where
  "Bits64_Add b i = b OR push_bit i 1"

definition Bits64_Union :: "Bits64 \<Rightarrow> Bits64 \<Rightarrow> Bits64" where
  "Bits64_Union b s = b OR s"

definition Bits64_Intersection :: "Bits64 \<Rightarrow> Bits64 \<Rightarrow> Bits64" where
  "Bits64_Intersection b s = b AND s"

definition Bits64_Difference :: "Bits64 \<Rightarrow> Bits64 \<Rightarrow> Bits64" where
  "Bits64_Difference b s = b AND NOT s"

definition Bits64_Remove :: "Bits64 \<Rightarrow> nat \<Rightarrow> Bits64" where
  "Bits64_Remove b i = b AND NOT (push_bit i 1)"

definition Bits64_Clear :: "Bits64 \<Rightarrow> Bits64" where
  "Bits64_Clear b = 0"

definition Bits64_Contains :: "Bits64 \<Rightarrow> nat \<Rightarrow> bool" where
  "Bits64_Contains b i \<longleftrightarrow> b AND push_bit i 1 \<noteq> 0"

text \<open>\<^verbatim>\<open>bits.OnesCount64\<close> of Go's standard library: the number of one bits.\<close>

definition OnesCount64 :: "u64 \<Rightarrow> nat" where
  "OnesCount64 b = length (filter (\<lambda>n. bit b n) [0..<64])"

definition Bits64_Len :: "Bits64 \<Rightarrow> nat" where
  "Bits64_Len b = OnesCount64 b"

definition elems64 :: "Bits64 \<Rightarrow> nat set" where
  "elems64 b = {i. bit b i}"

lemma bit_u64_less: "bit (b :: u64) i \<Longrightarrow> i < 64"
  by (drule bit_imp_le_length) simp

lemma elems64_bounded: "elems64 b \<subseteq> {..<64}"
  by (auto simp: elems64_def dest: bit_u64_less)

lemma finite_elems64 [simp]: "finite (elems64 b)"
  using elems64_bounded by (rule finite_subset) simp

lemma elems64_Add: "elems64 (Bits64_Add b i) = elems64 b \<union> ({i} \<inter> {..<64})"
  by (auto simp: elems64_def Bits64_Add_def bit_simps)

lemma elems64_Union: "elems64 (Bits64_Union b s) = elems64 b \<union> elems64 s"
  by (auto simp: elems64_def Bits64_Union_def bit_simps)

lemma elems64_Intersection: "elems64 (Bits64_Intersection b s) = elems64 b \<inter> elems64 s"
  by (auto simp: elems64_def Bits64_Intersection_def bit_simps)

lemma elems64_Difference: "elems64 (Bits64_Difference b s) = elems64 b - elems64 s"
  by (auto simp: elems64_def Bits64_Difference_def bit_simps dest: bit_u64_less)

lemma elems64_Remove: "elems64 (Bits64_Remove b i) = elems64 b - {i}"
  by (auto simp: elems64_def Bits64_Remove_def bit_simps dest: bit_u64_less)

lemma elems64_Clear: "elems64 (Bits64_Clear b) = {}"
  by (simp add: elems64_def Bits64_Clear_def)

lemma elems64_zero [simp]: "elems64 0 = {}"
  by (simp add: elems64_def)

lemma Contains_iff: "Bits64_Contains b i \<longleftrightarrow> i \<in> elems64 b"
proof -
  have "bit (b AND push_bit i 1) n \<longleftrightarrow> n = i \<and> bit b i" for n
    by (auto simp: bit_simps dest: bit_u64_less)
  then show ?thesis
    by (auto simp: Bits64_Contains_def elems64_def bit_eq_iff [of _ "0 :: u64"] dest: bit_u64_less)
qed

lemma Len_eq_card: "Bits64_Len b = card (elems64 b)"
proof -
  have "elems64 b = set (filter (\<lambda>n. bit b n) [0..<64])"
    by (auto simp: elems64_def dest: bit_u64_less)
  then show ?thesis
    by (simp add: Bits64_Len_def OnesCount64_def distinct_card flip: distinct_card)
qed

lemmas elems64_simps = elems64_Add elems64_Union elems64_Intersection elems64_Difference
  elems64_Remove elems64_Clear Contains_iff Len_eq_card

text \<open>The contract a client of a finite set of small integers relies on, and the word that meets it.\<close>

locale small_set =
  fixes elems :: "'s \<Rightarrow> nat set" and union :: "'s \<Rightarrow> 's \<Rightarrow> 's" and diff :: "'s \<Rightarrow> 's \<Rightarrow> 's"
    and size_of :: "'s \<Rightarrow> nat"
  assumes union_elems: "elems (union a b) = elems a \<union> elems b"
    and diff_elems: "elems (diff a b) = elems a - elems b"
    and size_elems: "size_of a = card (elems a)"
    and finite_elems: "finite (elems a)"
begin

lemma size_split: "size_of (diff a b) + card (elems a \<inter> elems b) = size_of a"
  using card_Diff_subset_Int [of "elems a" "elems b"] card_mono [of "elems a" "elems a \<inter> elems b"] finite_elems
  by (simp add: size_elems diff_elems)

lemma union_size_le: "size_of (union a b) \<le> size_of a + size_of b"
  by (simp add: size_elems union_elems card_Un_le)

lemma diff_union_cancel: "elems (diff (union a b) b) = elems a - elems b"
  by (auto simp: diff_elems union_elems)

end

interpretation b64: small_set elems64 Bits64_Union Bits64_Difference Bits64_Len
  by unfold_locales (simp_all add: elems64_simps)

text \<open>The word operations implement finite sets over [0, 64): membership, insertion, removal,
  union, intersection, difference and size of \<^verbatim>\<open>Bits64\<close> are those of the set of its elements, and an
  element outside the range is never stored.\<close>

theorem bits64_refines_sets:
  "elems64 (Bits64_Add b i) = elems64 b \<union> ({i} \<inter> {..<64})
   \<and> elems64 (Bits64_Remove b i) = elems64 b - {i}
   \<and> elems64 (Bits64_Union b s) = elems64 b \<union> elems64 s
   \<and> elems64 (Bits64_Intersection b s) = elems64 b \<inter> elems64 s
   \<and> elems64 (Bits64_Difference b s) = elems64 b - elems64 s
   \<and> Bits64_Contains b i = (i \<in> elems64 b)
   \<and> Bits64_Len b = card (elems64 b)
   \<and> Bits64_Len (Bits64_Difference b s) + card (elems64 b \<inter> elems64 s) = Bits64_Len b"
  using b64.size_split [of b s] by (simp add: elems64_simps)

end
