(* ===== verification/Bags.thy ===== *)
theory Bags
  imports Bits64
begin

text \<open>
  Multisets of votes: \<^verbatim>\<open>utils/bag/bag.go\<close> and \<^verbatim>\<open>utils/bag/unique_bag.go\<close>. A bag keeps a count
  per element, the total, and the set of elements that met a threshold. The abstraction
  \<open>bag_mset\<close> is the multiset; \<open>bag_inv\<close> says that the counts are positive and add up to the
  size. The counts are Go ints, here unbounded integers: they count votes of a poll.
\<close>

record 'a Bag =
  counts :: "('a, int) gomap"
  bsize :: int
  threshold :: int
  metThreshold :: "'a set"

text \<open>The zero value \<^verbatim>\<open>Bag[T]{}\<close>.\<close>

definition empty_Bag :: "'a Bag" where
  "empty_Bag = \<lparr>counts = [], bsize = 0, threshold = 0, metThreshold = {}\<rparr>"

definition Count :: "'a Bag \<Rightarrow> 'a \<Rightarrow> int" where
  "Count b elt = (case map_of (counts b) elt of Some c \<Rightarrow> c | None \<Rightarrow> 0)"

definition Len :: "'a Bag \<Rightarrow> int" where
  "Len b = bsize b"

definition SetThreshold :: "int \<Rightarrow> 'a Bag \<Rightarrow> 'a Bag" where
  "SetThreshold t b =
     (if threshold b = t then b
      else b\<lparr>threshold := t, metThreshold := set (map fst (filter (\<lambda>(vote, cnt). cnt \<ge> t) (counts b)))\<rparr>)"

definition AddCount :: "'a \<Rightarrow> int \<Rightarrow> 'a Bag \<Rightarrow> 'a Bag" where
  "AddCount elt cnt b =
     (if cnt \<le> 0 then b
      else let totalCount = Count b elt + cnt
           in b\<lparr>counts := AList.update elt totalCount (counts b),
                bsize := bsize b + cnt,
                metThreshold := (if totalCount \<ge> threshold b then insert elt (metThreshold b)
                                 else metThreshold b)\<rparr>)"

fun Add :: "'a list \<Rightarrow> 'a Bag \<Rightarrow> 'a Bag" where
  "Add [] b = b"
| "Add (elt # elts) b = Add elts (AddCount elt 1 b)"

definition Of :: "'a list \<Rightarrow> 'a Bag" where
  "Of elts = Add elts empty_Bag"

definition Bag_List :: "'a Bag \<Rightarrow> 'a list" where
  "Bag_List b = map fst (counts b)"

definition Equals :: "'a Bag \<Rightarrow> 'a Bag \<Rightarrow> bool" where
  "Equals b other \<longleftrightarrow> bsize b = bsize other \<and> map_of (counts b) = map_of (counts other)"

text \<open>\<^verbatim>\<open>Mode\<close> starts from the zero value of the element type, which is a parameter here.\<close>

fun mode_loop :: "('a, int) gomap \<Rightarrow> 'a \<Rightarrow> int \<Rightarrow> 'a \<times> int" where
  "mode_loop [] mode modeFreq = (mode, modeFreq)"
| "mode_loop ((elt, cnt) # rest) mode modeFreq =
     (if cnt > modeFreq then mode_loop rest elt cnt else mode_loop rest mode modeFreq)"

definition Mode :: "'a \<Rightarrow> 'a Bag \<Rightarrow> 'a \<times> int" where
  "Mode zero b = mode_loop (counts b) zero 0"

definition Threshold :: "'a Bag \<Rightarrow> 'a set" where
  "Threshold b = metThreshold b"

fun filter_loop :: "('a \<Rightarrow> bool) \<Rightarrow> ('a, int) gomap \<Rightarrow> 'a Bag \<Rightarrow> 'a Bag" where
  "filter_loop f [] newBag = newBag"
| "filter_loop f ((vote, cnt) # rest) newBag =
     filter_loop f rest (if f vote then AddCount vote cnt newBag else newBag)"

definition Filter :: "('a \<Rightarrow> bool) \<Rightarrow> 'a Bag \<Rightarrow> 'a Bag" where
  "Filter f b = filter_loop f (counts b) empty_Bag"

fun split_loop :: "('a \<Rightarrow> bool) \<Rightarrow> ('a, int) gomap \<Rightarrow> 'a Bag \<times> 'a Bag \<Rightarrow> 'a Bag \<times> 'a Bag" where
  "split_loop f [] bs = bs"
| "split_loop f ((vote, cnt) # rest) (b0, b1) =
     split_loop f rest (if f vote then (b0, AddCount vote cnt b1) else (AddCount vote cnt b0, b1))"

definition Split :: "('a \<Rightarrow> bool) \<Rightarrow> 'a Bag \<Rightarrow> 'a Bag \<times> 'a Bag" where
  "Split f b = split_loop f (counts b) (empty_Bag, empty_Bag)"

definition Remove :: "'a \<Rightarrow> 'a Bag \<Rightarrow> 'a Bag" where
  "Remove elt b =
     (let cnt = Count b elt
      in b\<lparr>counts := AList.delete elt (counts b), bsize := bsize b - cnt\<rparr>)"

subsection \<open>Unique bags: a set of voters per element\<close>

type_synonym 'a UniqueBag = "('a, Bits64) gomap"

definition GetSet :: "'a UniqueBag \<Rightarrow> 'a \<Rightarrow> Bits64" where
  "GetSet b key = (case map_of b key of Some s \<Rightarrow> s | None \<Rightarrow> 0)"

definition UnionSet :: "'a \<Rightarrow> Bits64 \<Rightarrow> 'a UniqueBag \<Rightarrow> 'a UniqueBag" where
  "UnionSet key s b = AList.update key (Bits64_Union (GetSet b key) s) b"

definition DifferenceSet :: "'a \<Rightarrow> Bits64 \<Rightarrow> 'a UniqueBag \<Rightarrow> 'a UniqueBag" where
  "DifferenceSet key s b = AList.update key (Bits64_Difference (GetSet b key) s) b"

fun UniqueBag_Add_loop :: "Bits64 \<Rightarrow> 'a list \<Rightarrow> 'a UniqueBag \<Rightarrow> 'a UniqueBag" where
  "UniqueBag_Add_loop bs [] b = b"
| "UniqueBag_Add_loop bs (key # keys) b = UniqueBag_Add_loop bs keys (UnionSet key bs b)"

definition UniqueBag_Add :: "nat \<Rightarrow> 'a list \<Rightarrow> 'a UniqueBag \<Rightarrow> 'a UniqueBag" where
  "UniqueBag_Add n keys b = UniqueBag_Add_loop (Bits64_Add 0 n) keys b"

definition UniqueBag_Difference :: "'a UniqueBag \<Rightarrow> 'a UniqueBag \<Rightarrow> 'a UniqueBag" where
  "UniqueBag_Difference diff b =
     map (\<lambda>(key, previousSet).
            (key, case map_of diff key of
                    Some previousSetDiff \<Rightarrow> Bits64_Difference previousSet previousSetDiff
                  | None \<Rightarrow> previousSet)) b"

definition RemoveSet :: "'a \<Rightarrow> 'a UniqueBag \<Rightarrow> 'a UniqueBag" where
  "RemoveSet key b = AList.delete key b"

definition UniqueBag_List :: "'a UniqueBag \<Rightarrow> 'a list" where
  "UniqueBag_List b = map fst b"

fun to_bag_loop :: "'a UniqueBag \<Rightarrow> 'a Bag \<Rightarrow> 'a Bag" where
  "to_bag_loop [] bag = bag"
| "to_bag_loop ((key, bs) # rest) bag = to_bag_loop rest (AddCount key (int (Bits64_Len bs)) bag)"

definition UniqueBag_Bag :: "int \<Rightarrow> 'a UniqueBag \<Rightarrow> 'a Bag" where
  "UniqueBag_Bag t b = to_bag_loop b (SetThreshold t empty_Bag)"

definition UniqueBag_Clear :: "'a UniqueBag \<Rightarrow> 'a UniqueBag" where
  "UniqueBag_Clear b = []"

subsection \<open>The invariant and the multiset a bag stands for\<close>

definition bag_inv :: "'a Bag \<Rightarrow> bool" where
  "bag_inv b \<longleftrightarrow> wf_gomap (counts b) \<and> (\<forall>(x, c) \<in> set (counts b). 0 < c)
     \<and> bsize b = gomap_sum (\<lambda>_ c. c) (counts b)"

text \<open>The threshold set has the elements that have enough votes, and those of \<open>R\<close>, which were removed after they had met it.\<close>

definition met_inv :: "'a set \<Rightarrow> 'a Bag \<Rightarrow> bool" where
  "met_inv R b \<longleftrightarrow> metThreshold b = {x. \<exists>c. map_of (counts b) x = Some c \<and> threshold b \<le> c} \<union> R"

definition bag_mset :: "'a Bag \<Rightarrow> 'a multiset" where
  "bag_mset b = (\<Sum>(x, c) \<leftarrow> counts b. replicate_mset (nat c) x)"

lemma bag_inv_empty [simp, inv_intros]: "bag_inv empty_Bag"
  by (simp add: bag_inv_def empty_Bag_def)

lemma Count_pos:
  "bag_inv b \<Longrightarrow> (x, c) \<in> set (counts b) \<Longrightarrow> 0 < c"
  by (auto simp: bag_inv_def)

lemma Count_nonneg: "bag_inv b \<Longrightarrow> 0 \<le> Count b x"
  by (auto simp: Count_def split: option.splits dest!: map_of_SomeD Count_pos)

lemma Len_nonneg: "bag_inv b \<Longrightarrow> 0 \<le> Len b"
  by (auto simp: Len_def bag_inv_def intro!: gomap_sum_nonneg)

lemma Count_le_Len:
  assumes "bag_inv b"
  shows "Count b x \<le> Len b"
proof (cases "map_of (counts b) x")
  case None
  then show ?thesis using Len_nonneg [OF assms] by (simp add: Count_def)
next
  case (Some c)
  have "c \<le> gomap_sum (\<lambda>_ c. c) (counts b)"
    by (rule gomap_sum_ge_entry [where k = x]) (use Some Count_pos [OF assms] in \<open>auto simp: less_imp_le\<close>)
  then show ?thesis using assms Some by (simp add: Count_def Len_def bag_inv_def)
qed

lemma bag_inv_AddCount [inv_intros]:
  assumes "bag_inv b"
  shows "bag_inv (AddCount elt n b)"
proof -
  have "0 < c" if "(x, c) \<in> set (AList.update elt (Count b elt + n) (counts b))" "\<not> n \<le> 0" for x c
  proof -
    have "map_of (AList.update elt (Count b elt + n) (counts b)) x = Some c"
      using that assms by (simp add: bag_inv_def distinct_update del: map_of_update)
    then show ?thesis
      using that(2) assms Count_nonneg [OF assms, of elt]
      by (auto simp: update_conv' bag_inv_def split: if_splits dest!: map_of_SomeD)
  qed
  then show ?thesis
    using assms by (auto simp: bag_inv_def AddCount_def Let_def distinct_update gomap_sum_update Count_def split: option.splits)
qed

lemma Count_AddCount: "Count (AddCount elt n b) x = Count b x + (if x = elt then max 0 n else 0)"
  by (auto simp: Count_def AddCount_def Let_def update_conv' split: option.splits)

lemma Len_AddCount [simp]: "Len (AddCount elt n b) = Len b + max 0 n"
  by (simp add: Len_def AddCount_def Let_def)

subsection \<open>Filtering and splitting\<close>

lemma bag_inv_filter_loop [inv_intros]: "bag_inv nb \<Longrightarrow> bag_inv (filter_loop f m nb)"
  by (induction f m nb rule: filter_loop.induct) (simp_all add: bag_inv_AddCount)

lemma bag_inv_Filter [inv_intros]: "bag_inv (Filter f b)"
  by (simp add: Filter_def inv_intros)

abbreviation entry :: "('a, int) gomap \<Rightarrow> 'a \<Rightarrow> int" where
  "entry m x \<equiv> weight_at (\<lambda>_ c. c) x (map_of m x)"

lemma Count_filter_loop:
  "wf_gomap m \<Longrightarrow> Count (filter_loop f m nb) x = Count nb x + (if f x then max 0 (entry m x) else 0)"
proof (induction f m nb rule: filter_loop.induct)
  case (2 f vote cnt rest nb)
  then have "map_of rest vote = None" by (simp add: map_of_eq_None_iff)
  with "2" show ?case by (auto simp: Count_AddCount)
qed simp

lemma Len_filter_loop:
  "Len (filter_loop f m nb) = Len nb + gomap_sum (\<lambda>_ c. max 0 c) (filter (\<lambda>(k, v). f k) m)"
  by (induction f m nb rule: filter_loop.induct) auto

lemma Count_Filter:
  assumes "bag_inv b"
  shows "Count (Filter f b) x = (if f x then Count b x else 0)"
proof -
  have "Count empty_Bag x = 0" by (simp add: Count_def empty_Bag_def)
  moreover have "max 0 (entry (counts b) x) = Count b x"
    using Count_nonneg [OF assms, of x] by (simp add: Count_def max_def split: option.splits)
  ultimately show ?thesis
    using assms by (simp add: Filter_def Count_filter_loop bag_inv_def)
qed

lemma gomap_sum_max0:
  "(\<And>k c. (k, c) \<in> set m \<Longrightarrow> 0 < c) \<Longrightarrow> gomap_sum (\<lambda>_ c. max 0 c) m = gomap_sum (\<lambda>_ c. c) m"
proof (induction m)
  case (Cons e m)
  obtain k c where e: "e = (k, c)" by fastforce
  have "0 < c" using Cons.prems e by auto
  moreover have "gomap_sum (\<lambda>_ c. max 0 c) m = gomap_sum (\<lambda>_ c. c) m"
    by (rule Cons.IH) (use Cons.prems in auto)
  ultimately show ?case by (simp add: e)
qed simp

lemma Len_Filter:
  assumes "bag_inv b"
  shows "Len (Filter f b) = gomap_sum (\<lambda>_ c. c) (filter (\<lambda>(k, v). f k) (counts b))"
proof -
  have "Len (empty_Bag :: 'a Bag) = 0" by (simp add: Len_def empty_Bag_def)
  moreover have "gomap_sum (\<lambda>_ c. max 0 c) (filter (\<lambda>(k, v). f k) (counts b))
      = gomap_sum (\<lambda>_ c. c) (filter (\<lambda>(k, v). f k) (counts b))"
    by (rule gomap_sum_max0) (auto dest: Count_pos [OF assms])
  ultimately show ?thesis by (simp add: Filter_def Len_filter_loop)
qed

lemma Len_Filter_compl:
  "bag_inv b \<Longrightarrow> Len (Filter f b) + Len (Filter (\<lambda>x. \<not> f x) b) = Len b"
  using gomap_sum_filter_split [of "\<lambda>_ c. c" "counts b" f]
  by (simp add: Len_Filter) (simp add: Len_def bag_inv_def)

lemma split_loop_eq:
  "split_loop f m (b0, b1) = (filter_loop (\<lambda>x. \<not> f x) m b0, filter_loop f m b1)"
  by (induction f m "(b0, b1)" arbitrary: b0 b1 rule: split_loop.induct) auto

lemma Split_eq: "Split f b = (Filter (\<lambda>x. \<not> f x) b, Filter f b)"
  by (simp add: Split_def Filter_def split_loop_eq)

lemma bag_inv_Remove [inv_intros]:
  assumes "bag_inv b"
  shows "bag_inv (Remove x b)"
proof -
  have "set (AList.delete x (counts b)) \<subseteq> set (counts b)" by (auto simp: AList.delete_eq)
  then show ?thesis
    using assms by (auto simp: bag_inv_def Remove_def Let_def distinct_delete gomap_sum_delete Count_def split: option.splits)
qed

lemma Count_Remove: "Count (Remove elt b) x = (if x = elt then 0 else Count b x)"
  by (auto simp: Count_def Remove_def Let_def delete_conv')

lemma Len_Remove: "Len (Remove elt b) = Len b - Count b elt"
  by (simp add: Len_def Remove_def Let_def)

subsection \<open>The most frequent element\<close>

lemma mode_loop_ge: "modeFreq \<le> snd (mode_loop m mode modeFreq)"
  by (induction m mode modeFreq rule: mode_loop.induct) auto

lemma mode_loop_max: "(x, c) \<in> set m \<Longrightarrow> c \<le> snd (mode_loop m mode modeFreq)"
proof (induction m mode modeFreq rule: mode_loop.induct)
  case (2 elt cnt rest mode modeFreq)
  then show ?case
    using mode_loop_ge [of cnt rest elt] mode_loop_ge [of modeFreq rest mode] by auto
qed simp

lemma mode_loop_in: "mode_loop m mode modeFreq = (mode, modeFreq) \<or> mode_loop m mode modeFreq \<in> set m"
  by (induction m mode modeFreq rule: mode_loop.induct) auto

lemma Mode_max:
  assumes "bag_inv b"
  shows "Count b x \<le> snd (Mode zero b)"
proof (cases "map_of (counts b) x")
  case None
  then show ?thesis using mode_loop_ge [of 0 "counts b" zero] by (simp add: Count_def Mode_def)
next
  case (Some c)
  then show ?thesis using mode_loop_max [of x c "counts b" zero 0] by (simp add: Count_def Mode_def map_of_SomeD)
qed

lemma Mode_Count:
  assumes "bag_inv b" "Mode zero b = (m, f)" "0 < f"
  shows "Count b m = f"
proof -
  have "(m, f) \<in> set (counts b)"
    using mode_loop_in [of "counts b" zero 0] assms(2,3) by (auto simp: Mode_def)
  then have "map_of (counts b) m = Some f" using assms(1) by (simp add: bag_inv_def)
  then show ?thesis by (simp add: Count_def)
qed

subsection \<open>A bag is a multiset\<close>

lemma count_bag_mset_list:
  "wf_gomap m \<Longrightarrow> count (\<Sum>(x, c) \<leftarrow> m. replicate_mset (nat c) x) x = nat (entry m x)"
proof (induction m)
  case (Cons e m)
  obtain k c where e: "e = (k, c)" by fastforce
  have "map_of m k = None" using Cons.prems e by (simp add: map_of_eq_None_iff)
  with Cons e show ?case by auto
qed simp

lemma count_bag_mset: "bag_inv b \<Longrightarrow> count (bag_mset b) x = nat (Count b x)"
  by (simp add: bag_mset_def count_bag_mset_list bag_inv_def Count_def split: option.splits)

lemma size_bag_mset_list:
  "(\<And>x c. (x, c) \<in> set m \<Longrightarrow> 0 < c) \<Longrightarrow>
     int (size (\<Sum>(x, c) \<leftarrow> m. replicate_mset (nat c) x)) = gomap_sum (\<lambda>_ c. c) m"
proof (induction m)
  case (Cons e m)
  obtain k c where e: "e = (k, c)" by fastforce
  have "int (size (\<Sum>(x, c) \<leftarrow> m. replicate_mset (nat c) x)) = gomap_sum (\<lambda>_ c. c) m"
    by (rule Cons.IH) (use Cons.prems in auto)
  moreover have "0 < c" using Cons.prems e by auto
  ultimately show ?case by (simp add: e)
qed simp

lemma size_bag_mset: "bag_inv b \<Longrightarrow> int (size (bag_mset b)) = Len b"
  unfolding bag_mset_def Len_def
  by (subst size_bag_mset_list) (auto simp: bag_inv_def)

lemma bag_mset_AddCount: "bag_inv b \<Longrightarrow> bag_mset (AddCount x n b) = bag_mset b + replicate_mset (nat n) x"
  by (rule multiset_eqI)
    (use Count_nonneg [of b] in \<open>auto simp: count_bag_mset bag_inv_AddCount Count_AddCount nat_add_distrib max_def\<close>)

lemma bag_mset_Remove: "bag_inv b \<Longrightarrow> bag_mset (Remove x b) = filter_mset (\<lambda>y. y \<noteq> x) (bag_mset b)"
  by (rule multiset_eqI) (simp add: count_bag_mset bag_inv_Remove Count_Remove)

lemma bag_mset_Filter: "bag_inv b \<Longrightarrow> bag_mset (Filter f b) = filter_mset f (bag_mset b)"
  by (rule multiset_eqI) (simp add: count_bag_mset bag_inv_Filter Count_Filter)

lemma bag_inv_Add [inv_intros]: "bag_inv b \<Longrightarrow> bag_inv (Add xs b)"
  by (induction xs b rule: Add.induct) (simp_all add: bag_inv_AddCount)

lemma bag_mset_Add: "bag_inv b \<Longrightarrow> bag_mset (Add xs b) = bag_mset b + mset xs"
  by (induction xs b rule: Add.induct) (simp_all add: bag_mset_AddCount bag_inv_AddCount)

lemma bag_mset_Of: "bag_mset (Of xs) = mset xs"
  by (simp add: Of_def bag_mset_Add) (simp add: bag_mset_def empty_Bag_def)

lemma bag_inv_Of [inv_intros]: "bag_inv (Of xs)"
  by (simp add: Of_def bag_inv_Add)

lemma map_of_counts: "bag_inv b \<Longrightarrow> map_of (counts b) x = (if Count b x = 0 then None else Some (Count b x))"
  by (auto simp: Count_def split: option.splits dest: Count_pos map_of_SomeD)

lemma Equals_iff:
  assumes "bag_inv a" "bag_inv b"
  shows "Equals a b \<longleftrightarrow> bag_mset a = bag_mset b"
proof
  assume "Equals a b"
  then show "bag_mset a = bag_mset b"
    using assms by (intro multiset_eqI) (simp add: count_bag_mset Equals_def Count_def)
next
  assume eq: "bag_mset a = bag_mset b"
  have "Count a x = Count b x" for x
    using count_bag_mset [OF assms(1), of x] count_bag_mset [OF assms(2), of x] eq
      Count_nonneg [OF assms(1), of x] Count_nonneg [OF assms(2), of x] by simp
  then have "map_of (counts a) x = map_of (counts b) x" for x
    using assms by (simp add: map_of_counts)
  moreover have "Len a = Len b" using eq size_bag_mset assms by metis
  ultimately show "Equals a b" by (auto simp: Equals_def Len_def)
qed

text \<open>The contract of a bag of votes, on which the consensus components rely.\<close>

locale vote_bag =
  fixes inv :: "'b \<Rightarrow> bool" and size_of :: "'b \<Rightarrow> int" and cnt :: "'b \<Rightarrow> 'a \<Rightarrow> int"
    and filter_of :: "('a \<Rightarrow> bool) \<Rightarrow> 'b \<Rightarrow> 'b"
  assumes inv_filter: "inv b \<Longrightarrow> inv (filter_of f b)"
    and size_nonneg: "inv b \<Longrightarrow> 0 \<le> size_of b"
    and cnt_le_size: "inv b \<Longrightarrow> cnt b x \<le> size_of b"
    and cnt_filter: "inv b \<Longrightarrow> cnt (filter_of f b) x = (if f x then cnt b x else 0)"
    and size_filter_compl: "inv b \<Longrightarrow> size_of (filter_of f b) + size_of (filter_of (\<lambda>x. \<not> f x) b) = size_of b"
begin

lemma size_filter_le: "inv b \<Longrightarrow> size_of (filter_of f b) \<le> size_of b"
  using size_filter_compl [of b f] size_nonneg [OF inv_filter, of b "\<lambda>x. \<not> f x"] by simp

text \<open>An alpha majority of more than half of the votes is reached on one side of a split at most, and
  by one element at most.\<close>

lemma split_majority:
  "inv b \<Longrightarrow> size_of b < 2 * alpha \<Longrightarrow> alpha \<le> size_of (filter_of f b) \<Longrightarrow> size_of (filter_of (\<lambda>x. \<not> f x) b) < alpha"
  using size_filter_compl [of b f] by simp

lemma majority_unique:
  assumes "inv b" "size_of b < 2 * alpha" "alpha \<le> cnt b x" "alpha \<le> cnt b y"
  shows "x = y"
proof (rule ccontr)
  assume "x \<noteq> y"
  have "cnt b x \<le> size_of (filter_of (\<lambda>z. z = x) b)"
    using cnt_le_size [OF inv_filter, of b "\<lambda>z. z = x" x] cnt_filter [of b "\<lambda>z. z = x" x] assms(1) by simp
  moreover have "cnt b y \<le> size_of (filter_of (\<lambda>z. z \<noteq> x) b)"
    using cnt_le_size [OF inv_filter, of b "\<lambda>z. z \<noteq> x" y] cnt_filter [of b "\<lambda>z. z \<noteq> x" y] assms(1) \<open>x \<noteq> y\<close>
    by simp
  ultimately show False
    using size_filter_compl [OF assms(1), of "\<lambda>z. z = x"] assms(2-4) by simp
qed

end

interpretation bag: vote_bag bag_inv Len Count Filter
  by unfold_locales
    (simp_all add: bag_inv_Filter Len_nonneg Count_le_Len Count_Filter Len_Filter_compl)

subsection \<open>The threshold set\<close>

lemma met_inv_empty: "met_inv {} empty_Bag"
  by (simp add: met_inv_def empty_Bag_def)

lemma met_inv_SetThreshold:
  assumes "bag_inv b" "met_inv R b"
  shows "met_inv (if threshold b = t then R else {}) (SetThreshold t b)"
proof (cases "threshold b = t")
  case False
  have "map_of (counts b) x = Some c \<longleftrightarrow> (x, c) \<in> set (counts b)" for x c using assms(1) by (simp add: bag_inv_def)
  with False show ?thesis by (force simp: met_inv_def SetThreshold_def)
qed (use assms in \<open>simp add: SetThreshold_def\<close>)

lemma met_inv_AddCount:
  assumes "bag_inv b" "met_inv R b"
  shows "met_inv R (AddCount x n b)"
proof (cases "n \<le> 0")
  case False
  have "map_of (counts b) x = Some c \<Longrightarrow> c = Count b x" for c by (simp add: Count_def)
  with False assms(2) show ?thesis
    by (fastforce simp: met_inv_def AddCount_def Let_def update_conv' split: if_splits)
qed (use assms in \<open>simp add: AddCount_def\<close>)

lemma met_inv_Add: "bag_inv b \<Longrightarrow> met_inv R b \<Longrightarrow> met_inv R (Add xs b)"
  by (induction xs b rule: Add.induct) (simp_all add: met_inv_AddCount bag_inv_AddCount)

lemma met_inv_Remove:
  "met_inv R b \<Longrightarrow> met_inv (R \<union> {y. y = x \<and> (\<exists>c. map_of (counts b) y = Some c \<and> threshold b \<le> c)}) (Remove x b)"
  by (auto simp: met_inv_def Remove_def Let_def delete_conv')

lemma met_inv_filter_loop: "bag_inv nb \<Longrightarrow> met_inv R nb \<Longrightarrow> met_inv R (filter_loop f m nb)"
  by (induction f m nb rule: filter_loop.induct) (simp_all add: bag_inv_AddCount met_inv_AddCount)

lemma met_inv_Filter: "met_inv {} (Filter f b)"
  unfolding Filter_def by (intro met_inv_filter_loop bag_inv_empty met_inv_empty)

lemma threshold_AddCount [simp]: "threshold (AddCount x n b) = threshold b"
  by (simp add: AddCount_def Let_def)

lemma threshold_Add [simp]: "threshold (Add xs b) = threshold b"
  by (induction xs b rule: Add.induct) simp_all

lemma threshold_Filter [simp]: "threshold (Filter f b) = 0"
proof -
  have "threshold (filter_loop f m nb) = threshold nb" for m and nb :: "'a Bag" by (induction f m nb rule: filter_loop.induct) simp_all
  then show ?thesis by (simp add: Filter_def empty_Bag_def)
qed

subsection \<open>Runs of calls\<close>

text \<open>The calls that make a bag of a bag. Splitting gives two bags, and a run goes on with one of them.\<close>

datatype 'a bag_op = B_Add "'a list" | B_AddCount 'a int | B_SetThreshold int | B_Remove 'a | B_Filter "'a \<Rightarrow> bool" | B_Split bool "'a \<Rightarrow> bool"

fun bag_call :: "'a bag_op \<Rightarrow> 'a Bag \<Rightarrow> 'a Bag" where
  "bag_call (B_Add elts) b = Add elts b"
| "bag_call (B_AddCount elt cnt) b = AddCount elt cnt b"
| "bag_call (B_SetThreshold t) b = SetThreshold t b"
| "bag_call (B_Remove elt) b = Remove elt b"
| "bag_call (B_Filter f) b = Filter f b"
| "bag_call (B_Split side f) b = (if side then snd (Split f b) else fst (Split f b))"

text \<open>What they mean: a multiset, the threshold, and the elements that were removed after they had met the threshold.\<close>

fun mset_call :: "'a bag_op \<Rightarrow> 'a multiset \<times> int \<times> 'a set \<Rightarrow> 'a multiset \<times> int \<times> 'a set" where
  "mset_call (B_Add elts) (M, t, R) = (M + mset elts, t, R)"
| "mset_call (B_AddCount elt n) (M, t, R) = (M + replicate_mset (nat n) elt, t, R)"
| "mset_call (B_SetThreshold t') (M, t, R) = (M, t', if t' = t then R else {})"
| "mset_call (B_Remove elt) (M, t, R) =
     (filter_mset (\<lambda>x. x \<noteq> elt) M, t, R \<union> {x. x = elt \<and> x \<in># M \<and> t \<le> int (count M x)})"
| "mset_call (B_Filter f) (M, t, R) = (filter_mset f M, 0, {})"
| "mset_call (B_Split side f) (M, t, R) = (filter_mset (\<lambda>x. f x = side) M, 0, {})"

definition stands_for :: "'a Bag \<Rightarrow> 'a multiset \<times> int \<times> 'a set \<Rightarrow> bool" where
  "stands_for b A \<longleftrightarrow> bag_inv b \<and> bag_mset b = fst A \<and> threshold b = fst (snd A) \<and> met_inv (snd (snd A)) b"

lemma in_bag_mset: "bag_inv b \<Longrightarrow> (x \<in># bag_mset b \<and> t \<le> int (count (bag_mset b) x)) \<longleftrightarrow> (\<exists>c. map_of (counts b) x = Some c \<and> t \<le> c)"
  using Count_nonneg [of b x] map_of_counts [of b x] by (auto simp: count_bag_mset count_greater_zero_iff [symmetric] simp del: count_greater_zero_iff)

lemma bag_call_stands_for:
  assumes "stands_for b (M, t, R)"
  shows "stands_for (bag_call c b) (mset_call c (M, t, R))"
proof (cases c)
  case (B_SetThreshold t')
  have "bag_inv (SetThreshold t' b)" "bag_mset (SetThreshold t' b) = bag_mset b" "threshold (SetThreshold t' b) = t'"
    using assms by (simp_all add: stands_for_def SetThreshold_def bag_inv_def bag_mset_def)
  with assms B_SetThreshold met_inv_SetThreshold [of b R t'] show ?thesis by (auto simp: stands_for_def)
next
  case (B_Remove x)
  have inv: "bag_inv b" "bag_mset b = M" "threshold b = t" "met_inv R b" using assms by (simp_all add: stands_for_def)
  have "threshold (Remove x b) = t" using inv by (simp add: Remove_def Let_def)
  with B_Remove met_inv_Remove [OF inv(4), of x] inv bag_inv_Remove [OF inv(1)] bag_mset_Remove [OF inv(1)]
    in_bag_mset [OF inv(1), of _ t] show ?thesis by (simp add: stands_for_def)
qed (use assms in \<open>auto simp: stands_for_def bag_inv_Add bag_mset_Add met_inv_Add bag_inv_AddCount bag_mset_AddCount met_inv_AddCount
      bag_inv_Filter bag_mset_Filter met_inv_Filter Split_eq\<close>)

lemma bag_run_stands_for: "stands_for b A \<Longrightarrow> stands_for (fold bag_call cs b) (fold mset_call cs A)"
proof (induction cs arbitrary: b A)
  case (Cons c cs)
  then show ?case by (cases A) (simp only: fold_simps comp_apply bag_call_stands_for)
qed simp

lemma empty_stands_for: "stands_for empty_Bag ({#}, 0, {})"
  by (simp add: stands_for_def met_inv_empty) (simp add: bag_mset_def empty_Bag_def)

lemma set_Bag_List: "bag_inv b \<Longrightarrow> distinct (Bag_List b) \<and> set (Bag_List b) = set_mset (bag_mset b)"
proof -
  assume inv: "bag_inv b"
  have "x \<in># bag_mset b \<longleftrightarrow> x \<in> fst ` set (counts b)" for x
    using in_bag_mset [OF inv, of x 0] Count_nonneg [OF inv, of x] Count_pos [OF inv]
    by (auto simp: dom_map_of_conv_image_fst [symmetric] dom_def map_of_counts [OF inv] count_bag_mset [OF inv])
  then show ?thesis using inv by (auto simp: Bag_List_def bag_inv_def)
qed

lemma Mode_mset:
  assumes "bag_inv b"
  shows "if bag_mset b = {#} then Mode zero b = (zero, 0)
    else fst (Mode zero b) \<in># bag_mset b \<and> snd (Mode zero b) = int (count (bag_mset b) (fst (Mode zero b)))
      \<and> (\<forall>x. int (count (bag_mset b) x) \<le> snd (Mode zero b))"
proof (cases "bag_mset b = {#}")
  case True
  then have "counts b = []" using set_Bag_List [OF assms] by (simp add: Bag_List_def)
  with True show ?thesis by (simp add: Mode_def)
next
  case False
  then obtain y where y: "y \<in># bag_mset b" by blast
  have "0 < Count b y" using y Count_nonneg [OF assms, of y] by (simp add: count_bag_mset [OF assms] flip: count_greater_zero_iff)
  then have pos: "0 < snd (Mode zero b)" using Mode_max [OF assms, of y zero] by simp
  then have "Count b (fst (Mode zero b)) = snd (Mode zero b)" by (intro Mode_Count [OF assms, of zero]) simp_all
  with pos False Mode_max [OF assms, of _ zero] Count_nonneg [OF assms] show ?thesis
    by (simp add: count_bag_mset [OF assms] flip: count_greater_zero_iff)
qed

subsection \<open>Unique bags\<close>

lemma to_bag_loop_inv: "bag_inv b \<Longrightarrow> bag_inv (to_bag_loop m b)"
  by (induction m b rule: to_bag_loop.induct) (simp_all add: bag_inv_AddCount)

lemma Count_to_bag_loop:
  "wf_gomap m \<Longrightarrow> Count (to_bag_loop m b) x
     = Count b x + (case map_of m x of Some bs \<Rightarrow> int (Bits64_Len bs) | None \<Rightarrow> 0)"
proof (induction m b rule: to_bag_loop.induct)
  case (2 key bs rest b)
  then have "map_of rest key = None" by (simp add: map_of_eq_None_iff)
  with "2" show ?case by (auto simp: Count_AddCount)
qed simp

lemma elems_GetSet_UnionSet:
  "elems64 (GetSet (UnionSet key s b) x) = elems64 (GetSet b x) \<union> (if x = key then elems64 s else {})"
  by (simp add: GetSet_def UnionSet_def update_conv' elems64_simps)

lemma elems_UniqueBag_Add_loop:
  "elems64 (GetSet (UniqueBag_Add_loop bs keys b) x) = elems64 (GetSet b x) \<union> (if x \<in> set keys then elems64 bs else {})"
  by (induction bs keys b rule: UniqueBag_Add_loop.induct) (auto simp: elems_GetSet_UnionSet)

lemma elems_UniqueBag_Difference:
  "elems64 (GetSet (UniqueBag_Difference d b) x) = elems64 (GetSet b x) - elems64 (GetSet d x)"
proof -
  have "map_of (UniqueBag_Difference d b) x = map_option (\<lambda>s. case map_of d x of
      Some s' \<Rightarrow> Bits64_Difference s s' | None \<Rightarrow> s) (map_of b x)"
    unfolding UniqueBag_Difference_def by (induction b) (auto split: option.splits)
  then show ?thesis by (auto simp: GetSet_def elems64_simps split: option.splits)
qed

subsection \<open>Properties\<close>


text \<open>The mode of a bag is a most frequent element, and when the bag has fewer than twice
  \<open>alpha\<close> votes, an element that reaches \<open>alpha\<close> is unique: it is the mode, whatever order the
  counts are visited in.\<close>

theorem bag_mode_majority:
  assumes "bag_inv b" "0 < alpha"
  shows "Count b x \<le> snd (Mode zero b)
    \<and> (snd (Mode zero b) \<ge> alpha \<longrightarrow> Count b (fst (Mode zero b)) = snd (Mode zero b))
    \<and> (Len b < 2 * alpha \<and> alpha \<le> Count b x \<longrightarrow> fst (Mode zero b) = x)"
proof -
  have mode: "Count b (fst (Mode zero b)) = snd (Mode zero b)" if "snd (Mode zero b) \<ge> alpha"
    by (rule Mode_Count [OF assms(1), of zero]) (use that assms(2) in auto)
  have max: "Count b x \<le> snd (Mode zero b)" by (rule Mode_max [OF assms(1)])
  moreover have "fst (Mode zero b) = x" if "Len b < 2 * alpha" "alpha \<le> Count b x"
    by (rule bag.majority_unique [OF assms(1) that(1)]) (use that max mode in auto)
  ultimately show ?thesis using mode by blast
qed

theorem bag_mode_majority_witness:
  "bag_inv (Of [7, 7, 9 :: nat]) \<and> Mode 0 (Of [7, 7, 9 :: nat]) = (7, 2) \<and> Count (Of [7, 7, 9]) (7 :: nat) = 2"
proof -
  have i: "bag_inv (Of [7, 7, 9 :: nat])" by (rule bag_inv_Of)
  have eval: "Mode 0 (Of [7, 7, 9 :: nat]) = (7, 2)" "Count (Of [7, 7, 9]) (7 :: nat) = 2"
    by code_simp+
  show ?thesis using i eval bag_mode_majority [OF i, of 2 7 0] by simp
qed

text \<open>A unique bag counts voters, not votes: its bag has every element as often as it has
  distinct voters, adding a voter to a list of elements is the union of voter sets, and a difference
  removes exactly the voters of the other bag.\<close>

theorem unique_bag_counts_voters:
  fixes b d :: "'a UniqueBag"
  assumes "wf_gomap b"
  shows "bag_inv (UniqueBag_Bag t b) \<and> Count (UniqueBag_Bag t b) x = int (card (elems64 (GetSet b x)))
    \<and> elems64 (GetSet (UniqueBag_Add n keys b) x)
        = elems64 (GetSet b x) \<union> (if x \<in> set keys \<and> n < 64 then {n} else {})
    \<and> elems64 (GetSet (UniqueBag_Difference d b) x) = elems64 (GetSet b x) - elems64 (GetSet d x)"
proof -
  have e: "bag_inv (SetThreshold t (empty_Bag :: 'a Bag))" "Count (SetThreshold t empty_Bag) x = 0"
    by (simp_all add: SetThreshold_def bag_inv_def empty_Bag_def Count_def)
  have "Count (UniqueBag_Bag t b) x = int (card (elems64 (GetSet b x)))"
    using assms e(2) by (simp add: UniqueBag_Bag_def Count_to_bag_loop GetSet_def Len_eq_card split: option.splits)
  moreover have "elems64 (GetSet (UniqueBag_Add n keys b) x)
      = elems64 (GetSet b x) \<union> (if x \<in> set keys \<and> n < 64 then {n} else {})"
    by (simp add: UniqueBag_Add_def elems_UniqueBag_Add_loop elems64_Add)
  ultimately show ?thesis
    using e(1) by (simp add: UniqueBag_Bag_def to_bag_loop_inv elems_UniqueBag_Difference)
qed

theorem unique_bag_counts_voters_witness:
  "wf_gomap [(1 :: nat, 5 :: Bits64)] \<and> Count (UniqueBag_Bag 0 [(1 :: nat, 5 :: Bits64)]) 1 = 2"
proof -
  have w: "wf_gomap [(1 :: nat, 5 :: Bits64)]" by simp
  have "card (elems64 5) = 2"
    by (simp flip: Len_eq_card add: Bits64_Len_def OnesCount64_def upt_rec)
  then show ?thesis
    using w unique_bag_counts_voters [OF w, of 0 1] by (simp add: GetSet_def)
qed

end
