(* ===== verification/Id_Bits.thy ===== *)
theory Id_Bits
  imports Prelude
begin

text \<open>
  Identifiers and the bit-range comparisons the snowball tree branches on: \<^verbatim>\<open>ids/id.go\<close> and
  \<^verbatim>\<open>ids/bits.go\<close>. An \<^verbatim>\<open>ID\<close> is an array of 32 bytes, here the list of its bytes
  (\<open>valid_ID\<close> says there are 32 of them). Bit indices are Go ints that every caller keeps
  non-negative, here naturals. The masks are the Go ints of the code, as unbounded integers: they are
  shifted by at most eight positions, so no 64-bit operation overflows.
\<close>

type_synonym ID = "u8 list"

definition IDLen :: nat where
  "IDLen = 32"

definition NumBits :: nat where
  "NumBits = 256"

definition BitsPerByte :: nat where
  "BitsPerByte = 8"

lemmas id_consts = IDLen_def NumBits_def BitsPerByte_def

definition valid_ID :: "ID \<Rightarrow> bool" where
  "valid_ID x \<longleftrightarrow> length x = IDLen"

text \<open>\<^verbatim>\<open>ids.Empty\<close>, the zero value of the type.\<close>

definition Empty_ID :: ID where
  "Empty_ID = replicate IDLen 0"

definition Bit :: "ID \<Rightarrow> nat \<Rightarrow> int" where
  "Bit x i =
     (let byteIndex = i div BitsPerByte; bitIndex = i mod BitsPerByte;
          b = drop_bit bitIndex (x ! byteIndex)
      in uint (b AND 1))"

text \<open>The slice \<open>x[lo:hi]\<close> of an identifier.\<close>

definition id_slice :: "nat \<Rightarrow> nat \<Rightarrow> ID \<Rightarrow> u8 list" where
  "id_slice lo hi x = map (\<lambda>i. x ! i) [lo..<hi]"

text \<open>\<open>-1 << startBit\<close> and \<open>(1 << (stopBit + 1)) - 1\<close>.\<close>

definition start_mask :: "nat \<Rightarrow> int" where
  "start_mask startBit = push_bit startBit (- 1)"

definition stop_mask :: "nat \<Rightarrow> int" where
  "stop_mask stopBit = push_bit (stopBit + 1) 1 - 1"

definition EqualSubset :: "nat \<Rightarrow> nat \<Rightarrow> ID \<Rightarrow> ID \<Rightarrow> bool" where
  "EqualSubset start stop id1 id2 =
     (if stop = 0 \<or> start > stop - 1 then True
      else let stop = stop - 1 in
      if stop \<ge> NumBits then False
      else let
        startIndex = start div BitsPerByte;
        stopIndex = stop div BitsPerByte
      in if startIndex + 1 < stopIndex
            \<and> id_slice (startIndex + 1) stopIndex id1 \<noteq> id_slice (startIndex + 1) stopIndex id2
      then False
      else let
        startMask = start_mask (start mod BitsPerByte);
        stopMask = stop_mask (stop mod BitsPerByte)
      in if startIndex = stopIndex
      then let mask = startMask AND stopMask
           in mask AND uint (id1 ! startIndex) = mask AND uint (id2 ! startIndex)
      else startMask AND uint (id1 ! startIndex) = startMask AND uint (id2 ! startIndex)
         \<and> stopMask AND uint (id1 ! stopIndex) = stopMask AND uint (id2 ! stopIndex))"

text \<open>\<^verbatim>\<open>bits.TrailingZeros8\<close> of Go's standard library: 8 for the zero byte.\<close>

definition TrailingZeros8 :: "u8 \<Rightarrow> nat" where
  "TrailingZeros8 b = (case find (\<lambda>n. bit b n) [0..<8] of Some n \<Rightarrow> n | None \<Rightarrow> 8)"

text \<open>The pair \<open>(index, found)\<close> of the code is an option here.\<close>

definition FirstDifferenceSubset :: "nat \<Rightarrow> nat \<Rightarrow> ID \<Rightarrow> ID \<Rightarrow> nat option" where
  "FirstDifferenceSubset start stop id1 id2 =
     (if stop = 0 \<or> start > stop - 1 \<or> stop - 1 \<ge> NumBits then None
      else let
        stop = stop - 1;
        startIndex = start div BitsPerByte;
        stopIndex = stop div BitsPerByte;
        startMask = start_mask (start mod BitsPerByte);
        stopMask = stop_mask (stop mod BitsPerByte);
        diffAt = (\<lambda>bd i. TrailingZeros8 (word_of_int bd) + i * BitsPerByte)
      in if startIndex = stopIndex
      then let
          mask = startMask AND stopMask;
          b1 = mask AND uint (id1 ! startIndex);
          b2 = mask AND uint (id2 ! startIndex)
        in if b1 = b2 then None else Some (diffAt (b1 XOR b2) startIndex)
      else let
          start1 = startMask AND uint (id1 ! startIndex);
          start2 = startMask AND uint (id2 ! startIndex)
        in if start1 \<noteq> start2 then Some (diffAt (start1 XOR start2) startIndex)
      else (case find (\<lambda>i. uint (id1 ! i) \<noteq> uint (id2 ! i)) [startIndex + 1..<stopIndex] of
        Some i \<Rightarrow> Some (diffAt (uint (id1 ! i) XOR uint (id2 ! i)) i)
      | None \<Rightarrow> let
          stop1 = stopMask AND uint (id1 ! stopIndex);
          stop2 = stopMask AND uint (id2 ! stopIndex)
        in if stop1 \<noteq> stop2 then Some (diffAt (stop1 XOR stop2) stopIndex) else None))"

subsection \<open>The bits of an identifier\<close>

abbreviation id_bit :: "ID \<Rightarrow> nat \<Rightarrow> bool" where
  "id_bit x i \<equiv> bit (x ! (i div 8)) (i mod 8)"

lemma Bit_eq: "Bit x i = of_bool (id_bit x i)"
proof -
  have "drop_bit (i mod 8) (x ! (i div 8)) AND 1 = of_bool (id_bit x i)"
    by (rule bit_word_eqI) (auto simp: bit_and_iff bit_drop_bit_eq bit_1_iff bit_of_bool_iff)
  then show ?thesis
    by (simp add: Bit_def BitsPerByte_def)
qed

lemma Bit_eq_iff [simp]: "Bit x i = Bit y i \<longleftrightarrow> id_bit x i = id_bit y i"
  by (simp add: Bit_eq)

lemma Bit_le_1: "Bit x i = 0 \<or> Bit x i = 1"
  by (simp add: Bit_eq)

lemma bit_start_mask: "bit (start_mask s AND uint (w :: u8)) n \<longleftrightarrow> s \<le> n \<and> bit w n"
  by (auto simp: start_mask_def bit_simps)

lemma stop_mask_eq: "stop_mask s = mask (Suc s)"
  by (simp add: stop_mask_def mask_eq_exp_minus_1 push_bit_eq_mult)

lemma bit_stop_mask: "bit (stop_mask s AND uint (w :: u8)) n \<longleftrightarrow> n \<le> s \<and> bit w n"
  by (auto simp: stop_mask_eq bit_simps less_Suc_eq_le)

lemma bit_both_mask:
  "bit ((start_mask s AND stop_mask t) AND uint (w :: u8)) n \<longleftrightarrow> (s \<le> n \<and> n \<le> t) \<and> bit w n"
  by (auto simp: start_mask_def stop_mask_eq bit_simps less_Suc_eq_le)

lemma u8_eq_iff: "(x :: u8) = y \<longleftrightarrow> (\<forall>n<8. bit x n = bit y n)"
  by (auto simp: bit_eq_iff dest: bit_imp_le_length)

lemma bit_u8_less: "bit (x :: u8) n \<Longrightarrow> n < 8"
  by (drule bit_imp_le_length) simp

lemmas bit_masks = bit_start_mask bit_stop_mask bit_both_mask

lemma masked_bits_iff:
  "(\<forall>n. (Q n \<and> bit (x :: u8) n) = (Q n \<and> bit (y :: u8) n)) \<longleftrightarrow> (\<forall>n<8. Q n \<longrightarrow> bit x n = bit y n)"
  by (meson bit_u8_less)

lemma masked_eq_iff:
  fixes x y :: u8
  shows "start_mask s AND uint x = start_mask s AND uint y \<longleftrightarrow> (\<forall>n<8. s \<le> n \<longrightarrow> bit x n = bit y n)"
    and "stop_mask t AND uint x = stop_mask t AND uint y \<longleftrightarrow> (\<forall>n<8. n \<le> t \<longrightarrow> bit x n = bit y n)"
    and "(start_mask s AND stop_mask t) AND uint x = (start_mask s AND stop_mask t) AND uint y
     \<longleftrightarrow> (\<forall>n<8. s \<le> n \<and> n \<le> t \<longrightarrow> bit x n = bit y n)"
  by (simp_all only: bit_eq_iff bit_masks possible_bit_int simp_thms masked_bits_iff)

text \<open>A range of bit indices, seen as bytes and offsets within a byte.\<close>

lemma bit_range_by_bytes:
  fixes lo hi :: nat
  shows "(\<forall>i. lo \<le> i \<and> i < hi \<longrightarrow> P (i div 8) (i mod 8))
     \<longleftrightarrow> (\<forall>k n. n < 8 \<and> lo \<le> 8 * k + n \<and> 8 * k + n < hi \<longrightarrow> P k n)" (is "?L \<longleftrightarrow> ?R")
proof
  assume L: ?L
  show ?R
  proof (intro allI impI)
    fix k n :: nat
    assume "n < 8 \<and> lo \<le> 8 * k + n \<and> 8 * k + n < hi"
    then show "P k n" using L [rule_format, of "8 * k + n"] by simp
  qed
next
  assume R: ?R
  show ?L
  proof (intro allI impI)
    fix i assume i: "lo \<le> i \<and> i < hi"
    have "8 * (i div 8) + i mod 8 = i" by simp
    with i show "P (i div 8) (i mod 8)" using R [rule_format, of "i mod 8" "i div 8"] by simp
  qed
qed

definition same_bits :: "nat \<Rightarrow> nat \<Rightarrow> ID \<Rightarrow> ID \<Rightarrow> bool" where
  "same_bits lo hi x y \<longleftrightarrow> (\<forall>i. lo \<le> i \<and> i < hi \<longrightarrow> id_bit x i = id_bit y i)"

lemma same_bits_by_bytes:
  "same_bits lo hi x y \<longleftrightarrow>
     (\<forall>k n. n < 8 \<and> lo \<le> 8 * k + n \<and> 8 * k + n < hi \<longrightarrow> bit (x ! k) n = bit (y ! k) n)"
  unfolding same_bits_def by (rule bit_range_by_bytes)

lemma same_bits_refl [simp]: "same_bits lo hi x x"
  by (simp add: same_bits_def)

lemma same_bits_empty [simp]: "hi \<le> lo \<Longrightarrow> same_bits lo hi x y"
  unfolding same_bits_def by linarith

lemma same_bits_sym: "same_bits lo hi x y \<Longrightarrow> same_bits lo hi y x"
  by (simp add: same_bits_def)

lemma same_bits_trans: "same_bits lo hi x y \<Longrightarrow> same_bits lo hi y z \<Longrightarrow> same_bits lo hi x z"
  by (simp add: same_bits_def)

lemma same_bits_mono: "same_bits lo hi x y \<Longrightarrow> lo \<le> lo' \<Longrightarrow> hi' \<le> hi \<Longrightarrow> same_bits lo' hi' x y"
  by (auto simp: same_bits_def)

lemma same_bits_join:
  "same_bits lo mid x y \<Longrightarrow> same_bits mid hi x y \<Longrightarrow> same_bits lo hi x y"
  unfolding same_bits_def using not_less by blast

lemma same_bits_Suc:
  "lo \<le> hi \<Longrightarrow> same_bits lo (Suc hi) x y \<longleftrightarrow> same_bits lo hi x y \<and> id_bit x hi = id_bit y hi"
  by (auto simp: same_bits_def less_Suc_eq)

lemma same_bits_all_iff_eq:
  assumes "valid_ID x" "valid_ID y"
  shows "same_bits 0 NumBits x y \<longleftrightarrow> x = y"
proof
  assume "same_bits 0 NumBits x y"
  then have bits: "bit (x ! k) n = bit (y ! k) n" if "n < 8" "k < 32" for k n
    using that by (auto simp: same_bits_by_bytes NumBits_def)
  show "x = y"
  proof (rule nth_equalityI)
    show "length x = length y" using assms by (simp add: valid_ID_def)
    fix k assume "k < length x"
    then show "x ! k = y ! k" using assms bits by (simp add: valid_ID_def IDLen_def u8_eq_iff)
  qed
qed simp

lemma id_slice_eq_iff: "id_slice lo hi x = id_slice lo hi y \<longleftrightarrow> (\<forall>k. lo \<le> k \<and> k < hi \<longrightarrow> x ! k = y ! k)"
  by (auto simp: id_slice_def)

subsection \<open>EqualSubset decides equality on a bit range\<close>

lemma byte_split:
  obtains a b where "(i::nat) = 8 * a + b" "b < 8" "i div 8 = a" "i mod 8 = b"
  by (metis mod_less_divisor mult_div_mod_eq zero_less_numeral)

lemma byte_order:
  fixes a b k n :: nat
  assumes "b < 8" "n < 8"
  shows "8 * a + b \<le> 8 * k + n \<longleftrightarrow> a < k \<or> a = k \<and> b \<le> n"
  using assms by (cases a k rule: linorder_cases) auto

lemma same_bits_one_byte:
  assumes "lo div 8 = hi div 8" "lo \<le> hi"
  shows "same_bits lo (Suc hi) x y \<longleftrightarrow>
    (\<forall>n<8. lo mod 8 \<le> n \<and> n \<le> hi mod 8 \<longrightarrow> bit (x ! (lo div 8)) n = bit (y ! (lo div 8)) n)"
proof -
  obtain a b where lo: "lo = 8 * a + b" "b < 8" "lo div 8 = a" "lo mod 8 = b" by (rule byte_split)
  obtain a' c where hi: "hi = 8 * a' + c" "c < 8" "hi div 8 = a'" "hi mod 8 = c" by (rule byte_split)
  have "a' = a" using assms(1) lo(3) hi(3) by simp
  then have range: "n < 8 \<and> lo \<le> 8 * k + n \<and> 8 * k + n < Suc hi \<longleftrightarrow> n < 8 \<and> k = a \<and> b \<le> n \<and> n \<le> c" for k n
    unfolding lo(1) hi(1) less_Suc_eq_le using lo(2) hi(2) by (auto simp: byte_order)
  show ?thesis unfolding same_bits_by_bytes lo(3,4) hi(4) range by auto
qed

lemma same_bits_many_bytes:
  assumes "lo div 8 < hi div 8"
  shows "same_bits lo (Suc hi) x y \<longleftrightarrow>
    (\<forall>n<8. lo mod 8 \<le> n \<longrightarrow> bit (x ! (lo div 8)) n = bit (y ! (lo div 8)) n) \<and>
    (\<forall>k. lo div 8 + 1 \<le> k \<and> k < hi div 8 \<longrightarrow> x ! k = y ! k) \<and>
    (\<forall>n<8. n \<le> hi mod 8 \<longrightarrow> bit (x ! (hi div 8)) n = bit (y ! (hi div 8)) n)"
proof -
  obtain a b where lo: "lo = 8 * a + b" "b < 8" "lo div 8 = a" "lo mod 8 = b" by (rule byte_split)
  obtain a' c where hi: "hi = 8 * a' + c" "c < 8" "hi div 8 = a'" "hi mod 8 = c" by (rule byte_split)
  have "a < a'" using assms lo(3) hi(3) by simp
  then have range: "n < 8 \<and> lo \<le> 8 * k + n \<and> 8 * k + n < Suc hi \<longleftrightarrow>
      n < 8 \<and> (k = a \<and> b \<le> n \<or> a + 1 \<le> k \<and> k < a' \<or> k = a' \<and> n \<le> c)" for k n
    unfolding lo(1) hi(1) less_Suc_eq_le using lo(2) hi(2) by (auto simp: byte_order)
  show ?thesis unfolding same_bits_by_bytes u8_eq_iff lo(3,4) hi(3,4) range by auto
qed

lemma EqualSubset_iff:
  assumes "stop \<le> NumBits"
  shows "EqualSubset start stop x y \<longleftrightarrow> same_bits start stop x y"
proof (cases "stop = 0 \<or> start > stop - 1")
  case True
  then show ?thesis by (auto simp: EqualSubset_def)
next
  case False
  then obtain hi where hi: "stop = Suc hi" "start \<le> hi" by (cases stop) auto
  have small: "\<not> hi \<ge> NumBits" using assms hi by simp
  show ?thesis
  proof (cases "start div 8 = hi div 8")
    case True
    with hi small same_bits_one_byte [OF this \<open>start \<le> hi\<close>] show ?thesis
      by (simp add: EqualSubset_def Let_def BitsPerByte_def masked_eq_iff)
  next
    case False
    with \<open>start \<le> hi\<close> have lt: "start div 8 < hi div 8"
      by (simp add: div_le_mono order_le_neq_trans)
    with hi small same_bits_many_bytes [OF lt] show ?thesis
      by (auto simp: EqualSubset_def Let_def BitsPerByte_def masked_eq_iff id_slice_eq_iff)
  qed
qed

lemma EqualSubset_beyond: "NumBits < stop \<Longrightarrow> start < stop \<Longrightarrow> \<not> EqualSubset start stop x y"
  by (auto simp: EqualSubset_def Let_def NumBits_def)

subsection \<open>FirstDifferenceSubset finds the first differing bit\<close>

lemma find_upt_Some_iff:
  "find P [lo..<hi] = Some i \<longleftrightarrow> lo \<le> i \<and> i < hi \<and> P i \<and> (\<forall>j. lo \<le> j \<and> j < i \<longrightarrow> \<not> P j)"
proof
  assume "find P [lo..<hi] = Some i"
  then obtain k where k: "k < hi - lo" "P (lo + k)" "i = lo + k" "\<forall>j<k. \<not> P (lo + j)"
    by (auto simp: find_Some_iff)
  have "\<not> P j" if "lo \<le> j" "j < i" for j
    using k(3,4) that by (metis add_less_cancel_left le_Suc_ex)
  with k show "lo \<le> i \<and> i < hi \<and> P i \<and> (\<forall>j. lo \<le> j \<and> j < i \<longrightarrow> \<not> P j)" by simp
next
  assume "lo \<le> i \<and> i < hi \<and> P i \<and> (\<forall>j. lo \<le> j \<and> j < i \<longrightarrow> \<not> P j)"
  then show "find P [lo..<hi] = Some i"
    unfolding find_Some_iff by (intro exI [of _ "i - lo"]) auto
qed

lemma find_upt_None_iff: "find P [lo..<hi] = None \<longleftrightarrow> (\<forall>i. lo \<le> i \<and> i < hi \<longrightarrow> \<not> P i)"
  by (auto simp: find_None_iff)

lemma TrailingZeros8_least:
  assumes "bit (b :: u8) n" "\<And>j. j < n \<Longrightarrow> \<not> bit b j"
  shows "TrailingZeros8 b = n"
proof -
  have "find (\<lambda>n. bit b n) [0..<8] = Some n"
    using assms bit_u8_less [of b n] by (simp add: find_upt_Some_iff)
  then show ?thesis by (simp add: TrailingZeros8_def)
qed

text \<open>Two masked bytes that differ: the trailing zeros of their exclusive or give the first masked
  offset at which the bytes differ.\<close>

lemma TrailingZeros8_xor:
  assumes bits: "\<And>n. bit d1 n \<longleftrightarrow> Q n \<and> bit (x :: u8) n" "\<And>n. bit d2 n \<longleftrightarrow> Q n \<and> bit (y :: u8) n"
    and neq: "d1 \<noteq> (d2 :: int)"
  obtains n where "TrailingZeros8 (word_of_int (d1 XOR d2)) = n" "n < 8" "Q n" "bit x n \<noteq> bit y n"
    "\<And>j. j < n \<Longrightarrow> Q j \<Longrightarrow> bit x j = bit y j"
proof -
  have ex: "\<exists>n. Q n \<and> bit x n \<noteq> bit y n"
    using neq bits unfolding bit_eq_iff by auto
  define n where "n = (LEAST n. Q n \<and> bit x n \<noteq> bit y n)"
  have n: "Q n \<and> bit x n \<noteq> bit y n"
    unfolding n_def by (rule LeastI_ex [OF ex])
  have least: "Q j \<Longrightarrow> bit x j = bit y j" if "j < n" for j
    using not_less_Least that unfolding n_def by blast
  have "n < 8" using n bit_u8_less by metis
  moreover have "TrailingZeros8 (word_of_int (d1 XOR d2)) = n"
    by (rule TrailingZeros8_least) (use n least bits \<open>n < 8\<close> in \<open>auto simp: bit_simps\<close>)
  ultimately show ?thesis using that n least by blast
qed

definition first_diff :: "nat \<Rightarrow> nat \<Rightarrow> ID \<Rightarrow> ID \<Rightarrow> nat \<Rightarrow> bool" where
  "first_diff lo hi x y i \<longleftrightarrow> lo \<le> i \<and> i < hi \<and> id_bit x i \<noteq> id_bit y i \<and> same_bits lo i x y"

lemma first_diff_byteI:
  assumes "n < 8" "b < 8" "a < k \<or> a = k \<and> b \<le> n" "k < a' \<or> k = a' \<and> n \<le> c" "c < 8"
    and "bit (x ! k) n \<noteq> bit (y ! k) n"
    and "\<And>k' n'. n' < 8 \<Longrightarrow> a < k' \<or> a = k' \<and> b \<le> n' \<Longrightarrow> k' < k \<or> k' = k \<and> n' < n \<Longrightarrow>
           bit (x ! k') n' = bit (y ! k') n'"
  shows "first_diff (8 * a + b) (Suc (8 * a' + c)) x y (n + k * 8)"
proof -
  have "same_bits (8 * a + b) (n + k * 8) x y"
    unfolding same_bits_by_bytes
  proof (intro allI impI)
    fix k' n' :: nat
    assume *: "n' < 8 \<and> 8 * a + b \<le> 8 * k' + n' \<and> 8 * k' + n' < n + k * 8"
    then have "\<not> 8 * k + n \<le> 8 * k' + n'" by simp
    with * assms(1,2) have "a < k' \<or> a = k' \<and> b \<le> n'" "k' < k \<or> k' = k \<and> n' < n"
      by (auto simp: byte_order)
    with * assms(7) show "bit (x ! k') n' = bit (y ! k') n'" by blast
  qed
  moreover have "8 * a + b \<le> 8 * k + n" "8 * k + n \<le> 8 * a' + c"
    using assms by (simp_all add: byte_order)
  ultimately show ?thesis using assms(1,6) by (simp add: first_diff_def mult.commute)
qed

lemma first_diff_masked:
  assumes "b < 8" "c < 8" "a \<le> k" "k \<le> a'"
    and "\<And>n. bit d1 n \<longleftrightarrow> Q n \<and> bit (x ! k) n" "\<And>n. bit d2 n \<longleftrightarrow> Q n \<and> bit (y ! k) n" "d1 \<noteq> (d2 :: int)"
    and lo: "\<And>n. Q n \<Longrightarrow> a = k \<Longrightarrow> b \<le> n" and hi: "\<And>n. Q n \<Longrightarrow> k = a' \<Longrightarrow> n \<le> c"
    and mid: "\<And>n n'. Q n \<Longrightarrow> n' < n \<Longrightarrow> a < k \<or> b \<le> n' \<Longrightarrow> Q n'"
    and before: "\<And>k' n'. n' < 8 \<Longrightarrow> a < k' \<or> a = k' \<and> b \<le> n' \<Longrightarrow> k' < k \<Longrightarrow> bit (x ! k') n' = bit (y ! k') n'"
  shows "first_diff (8 * a + b) (Suc (8 * a' + c)) x y (TrailingZeros8 (word_of_int (d1 XOR d2)) + k * 8)"
proof -
  obtain n where n: "TrailingZeros8 (word_of_int (d1 XOR d2)) = n" "n < 8" "Q n" "bit (x ! k) n \<noteq> bit (y ! k) n"
    "\<And>j. j < n \<Longrightarrow> Q j \<Longrightarrow> bit (x ! k) j = bit (y ! k) j"
    using TrailingZeros8_xor [OF assms(5-7)] by blast
  show ?thesis
    unfolding n(1)
  proof (rule first_diff_byteI)
    show "a < k \<or> a = k \<and> b \<le> n" using assms(3) lo n(3) by auto
    show "k < a' \<or> k = a' \<and> n \<le> c" using assms(4) hi n(3) by auto
    fix k' n' :: nat
    assume "n' < 8" "a < k' \<or> a = k' \<and> b \<le> n'" "k' < k \<or> k' = k \<and> n' < n"
    then show "bit (x ! k') n' = bit (y ! k') n'"
      using before mid n(3,5) by blast
  qed (fact n(2,4) assms(1,2))+
qed

lemmas first_difference_defs = FirstDifferenceSubset_def Let_def BitsPerByte_def

lemma FirstDifferenceSubset_one_byte:
  assumes "b \<le> c" "c < 8" "8 * a + c < NumBits"
  shows "case FirstDifferenceSubset (8 * a + b) (Suc (8 * a + c)) x y of
      None \<Rightarrow> same_bits (8 * a + b) (Suc (8 * a + c)) x y
    | Some i \<Rightarrow> first_diff (8 * a + b) (Suc (8 * a + c)) x y i"
proof -
  let ?m = "start_mask b AND stop_mask c"
  have same: "same_bits (8 * a + b) (Suc (8 * a + c)) x y \<longleftrightarrow> ?m AND uint (x ! a) = ?m AND uint (y ! a)"
    using same_bits_one_byte [of "8 * a + b" "8 * a + c" x y] assms by (simp add: masked_eq_iff)
  show ?thesis
  proof (cases "?m AND uint (x ! a) = ?m AND uint (y ! a)")
    case True
    then show ?thesis using assms same by (simp add: first_difference_defs)
  next
    case False
    have "first_diff (8 * a + b) (Suc (8 * a + c)) x y
        (TrailingZeros8 (word_of_int ((?m AND uint (x ! a)) XOR (?m AND uint (y ! a)))) + a * 8)"
      by (rule first_diff_masked [OF _ assms(2) le_refl le_refl bit_both_mask bit_both_mask False])
        (use assms in auto)
    then show ?thesis using assms False by (simp add: first_difference_defs)
  qed
qed

lemma uint_eq_iff_u8: "uint (x :: u8) = uint (y :: u8) \<longleftrightarrow> x = y"
  by (simp add: word_uint_eq_iff)

lemma FirstDifferenceSubset_many_bytes:
  assumes "a < a'" "b < 8" "c < 8" "8 * a' + c < NumBits"
  shows "case FirstDifferenceSubset (8 * a + b) (Suc (8 * a' + c)) x y of
      None \<Rightarrow> same_bits (8 * a + b) (Suc (8 * a' + c)) x y
    | Some i \<Rightarrow> first_diff (8 * a + b) (Suc (8 * a' + c)) x y i" (is "?spec")
proof -
  let ?s = "\<lambda>z. start_mask b AND uint (z ! a)" and ?t = "\<lambda>z. stop_mask c AND uint (z ! a')"
  let ?inner = "find (\<lambda>i. uint (x ! i) \<noteq> uint (y ! i)) [a + 1..<a']"
  have le: "a \<le> a'" and guard: "\<not> 8 * a' + c < 8 * a + b" "\<not> NumBits \<le> 8 * a' + c"
    using assms by auto
  note fd = first_diff_masked [where a = a and b = b and a' = a' and c = c and x = x and y = y, OF assms(2,3)]
  have first_same: "bit (x ! a) n = bit (y ! a) n" if "?s x = ?s y" "n < 8" "b \<le> n" for n
    using that by (simp add: masked_eq_iff)
  consider (start) "?s x \<noteq> ?s y" | (inner) i where "?s x = ?s y" "?inner = Some i"
    | (stop) "?s x = ?s y" "?inner = None" "?t x \<noteq> ?t y" | (none) "?s x = ?s y" "?inner = None" "?t x = ?t y"
    by (cases ?inner) auto
  then show ?spec
  proof cases
    case start
    have "first_diff (8 * a + b) (Suc (8 * a' + c)) x y (TrailingZeros8 (word_of_int (?s x XOR ?s y)) + a * 8)"
      by (rule fd [OF le_refl le bit_start_mask bit_start_mask start]) (use assms in auto)
    then show ?thesis using assms guard start by (simp add: first_difference_defs)
  next
    case inner
    then have i: "a < i" "i < a'" "x ! i \<noteq> y ! i" "\<And>k. a < k \<Longrightarrow> k < i \<Longrightarrow> x ! k = y ! k"
      by (auto simp: find_upt_Some_iff Suc_le_eq uint_eq_iff_u8)
    have "first_diff (8 * a + b) (Suc (8 * a' + c)) x y (TrailingZeros8 (word_of_int (uint (x ! i) XOR uint (y ! i))) + i * 8)"
      by (rule fd [where Q = "\<lambda>_. True"]) (use i first_same [OF inner(1)] in \<open>auto simp: bit_uint_iff uint_eq_iff_u8 dest: bit_u8_less\<close>)
    then show ?thesis using assms guard inner by (simp add: first_difference_defs)
  next
    case stop
    then have eq: "\<And>k. a < k \<Longrightarrow> k < a' \<Longrightarrow> x ! k = y ! k"
      by (auto simp: find_upt_None_iff Suc_le_eq uint_eq_iff_u8)
    have "first_diff (8 * a + b) (Suc (8 * a' + c)) x y (TrailingZeros8 (word_of_int (?t x XOR ?t y)) + a' * 8)"
      by (rule fd [OF le le_refl bit_stop_mask bit_stop_mask stop(3)]) (use assms eq first_same [OF stop(1)] in auto)
    then show ?thesis using assms guard stop by (simp add: first_difference_defs)
  next
    case none
    then have "same_bits (8 * a + b) (Suc (8 * a' + c)) x y"
      using same_bits_many_bytes [of "8 * a + b" "8 * a' + c" x y] assms
      by (auto simp: masked_eq_iff find_upt_None_iff uint_eq_iff_u8)
    then show ?thesis using assms guard none by (simp add: first_difference_defs)
  qed
qed

lemma FirstDifferenceSubset_spec:
  assumes "start < stop" "stop \<le> NumBits"
  shows "case FirstDifferenceSubset start stop x y of
      None \<Rightarrow> same_bits start stop x y | Some i \<Rightarrow> first_diff start stop x y i"
proof -
  obtain h where h: "stop = Suc h" "start \<le> h" using assms by (cases stop) auto
  obtain a b where lo: "start = 8 * a + b" "b < 8" by (rule byte_split)
  obtain a' c where hi: "h = 8 * a' + c" "c < 8" by (rule byte_split)
  have "a < a' \<or> a = a' \<and> b \<le> c" using h(2) lo hi by (simp add: byte_order)
  then show ?thesis
    using FirstDifferenceSubset_one_byte [of b c a x y] FirstDifferenceSubset_many_bytes [of a a' b c x y] assms lo hi h
    by auto
qed

lemma first_diff_find:
  "first_diff lo hi x y i \<longleftrightarrow> find (\<lambda>i. Bit x i \<noteq> Bit y i) [lo..<hi] = Some i"
  by (auto simp: first_diff_def find_upt_Some_iff same_bits_def)

lemma FirstDifferenceSubset_eq_find:
  assumes "stop \<le> NumBits"
  shows "FirstDifferenceSubset start stop x y = find (\<lambda>i. Bit x i \<noteq> Bit y i) [start..<stop]"
proof (cases "start < stop")
  case True
  from FirstDifferenceSubset_spec [OF True assms, of x y] show ?thesis
    by (cases "FirstDifferenceSubset start stop x y")
      (auto simp: first_diff_find same_bits_def find_upt_None_iff [THEN iffD2])
next
  case False
  then show ?thesis by (auto simp: FirstDifferenceSubset_def)
qed

text \<open>(C27) The byte-and-mask routines agree with their bit-by-bit reference: \<^verbatim>\<open>EqualSubset\<close> holds
  exactly when the identifiers agree on every bit of the range, and \<^verbatim>\<open>FirstDifferenceSubset\<close> is the
  linear search for the first bit of the range on which they differ.\<close>

theorem bit_ranges_correct:
  assumes "stop \<le> NumBits"
  shows "EqualSubset start stop x y = list_all (\<lambda>i. Bit x i = Bit y i) [start..<stop]
    \<and> FirstDifferenceSubset start stop x y = find (\<lambda>i. Bit x i \<noteq> Bit y i) [start..<stop]"
  using assms
  by (auto simp: EqualSubset_iff FirstDifferenceSubset_eq_find same_bits_def list_all_iff)

theorem bit_ranges_correct_witness:
  "(13 :: nat) \<le> NumBits
    \<and> EqualSubset 2 13 [4, 0] [4, 16] = False \<and> FirstDifferenceSubset 2 13 [4, 0] [4, 16] = Some 12"
proof -
  have h: "(13 :: nat) \<le> NumBits" by (simp add: NumBits_def)
  have l: "[2..<13] = [2, 3, 4, 5, 6, 7, 8, 9, 10, 11, 12 :: nat]" by (simp add: upt_rec)
  show ?thesis
    using h bit_ranges_correct [OF h, of 2 "[4, 0]" "[4, 16]"] unfolding l by (simp add: Bit_eq)
qed

end
