(* ===== verification/Snowball.thy ===== *)
theory Snowball
  imports Bags Id_Bits "HOL-Library.Signed_Division" "HOL-Library.Sublist"
begin

text \<open>
  The counters a consensus decision is made of: \<^verbatim>\<open>snow/consensus/snowball\<close> without the tree. A
  slush instance keeps the last successful choice, a snowflake adds the number of consecutive successful
  polls for it and finalizes at \<open>beta\<close> of them, a snowball adds the totals per choice. Go embeds the
  smaller struct in the larger one; here the larger record extends the smaller. A choice between two
  values indexes an array of two entries in the code; it is a bool here, True for 1. Counters are Go
  ints, here unbounded: they count polls.
\<close>

subsection \<open>Parameters\<close>

record Parameters =
  K :: int
  Alpha :: int
  BetaVirtuous :: int
  BetaRogue :: int
  ConcurrentRepolls :: int
  OptimalProcessing :: int
  MaxOutstandingItems :: int
  MaxItemProcessingTime :: int

definition DefaultParameters :: Parameters where
  "DefaultParameters = \<lparr>K = 20, Alpha = 15, BetaVirtuous = 15, BetaRogue = 20, ConcurrentRepolls = 4,
     OptimalProcessing = 10, MaxOutstandingItems = 256, MaxItemProcessingTime = 30 * 1000000000\<rparr>"

text \<open>Small parameters, for concrete runs.\<close>

definition sample_params :: Parameters where
  "sample_params = \<lparr>K = 2, Alpha = 2, BetaVirtuous = 1, BetaRogue = 2, ConcurrentRepolls = 1,
     OptimalProcessing = 1, MaxOutstandingItems = 1, MaxItemProcessingTime = 1\<rparr>"

text \<open>Every failure wraps \<^verbatim>\<open>ErrParametersInvalid\<close>; the constructors name the condition that failed.\<close>

datatype ErrParametersInvalid =
    AlphaNotMajority | AlphaAboveK | BetaVirtuousNotPositive | BetaRogueReadyPlayerOne
  | BetaRogueBelowVirtuous | ConcurrentRepollsNotPositive | ConcurrentRepollsAboveBetaRogue
  | OptimalProcessingNotPositive | MaxOutstandingItemsNotPositive | MaxItemProcessingTimeNotPositive

definition Verify :: "Parameters \<Rightarrow> ErrParametersInvalid option" where
  "Verify p =
     (if Alpha p \<le> K p sdiv 2 then Some AlphaNotMajority
      else if K p < Alpha p then Some AlphaAboveK
      else if BetaVirtuous p \<le> 0 then Some BetaVirtuousNotPositive
      else if BetaRogue p = 3 \<and> BetaVirtuous p = 28 then Some BetaRogueReadyPlayerOne
      else if BetaRogue p < BetaVirtuous p then Some BetaRogueBelowVirtuous
      else if ConcurrentRepolls p \<le> 0 then Some ConcurrentRepollsNotPositive
      else if ConcurrentRepolls p > BetaRogue p then Some ConcurrentRepollsAboveBetaRogue
      else if OptimalProcessing p \<le> 0 then Some OptimalProcessingNotPositive
      else if MaxOutstandingItems p \<le> 0 then Some MaxOutstandingItemsNotPositive
      else if MaxItemProcessingTime p \<le> 0 then Some MaxItemProcessingTimeNotPositive
      else None)"

subsection \<open>Unary instances\<close>

record unarySnowflake =
  u_beta :: int
  u_confidence :: int
  u_finalized :: bool

definition unarySnowflake_Initialize :: "int \<Rightarrow> 'a unarySnowflake_scheme \<Rightarrow> 'a unarySnowflake_scheme" where
  "unarySnowflake_Initialize beta sf = sf\<lparr>u_beta := beta\<rparr>"

definition unarySnowflake_RecordSuccessfulPoll :: "'a unarySnowflake_scheme \<Rightarrow> 'a unarySnowflake_scheme" where
  "unarySnowflake_RecordSuccessfulPoll sf =
     (let sf = sf\<lparr>u_confidence := u_confidence sf + 1\<rparr>
      in sf\<lparr>u_finalized := u_finalized sf \<or> u_confidence sf \<ge> u_beta sf\<rparr>)"

definition unarySnowflake_RecordUnsuccessfulPoll :: "'a unarySnowflake_scheme \<Rightarrow> 'a unarySnowflake_scheme" where
  "unarySnowflake_RecordUnsuccessfulPoll sf = sf\<lparr>u_confidence := 0\<rparr>"

definition unarySnowflake_Finalized :: "'a unarySnowflake_scheme \<Rightarrow> bool" where
  "unarySnowflake_Finalized sf = u_finalized sf"

record unarySnowball = unarySnowflake +
  u_numSuccessfulPolls :: int

definition zero_unarySnowball :: unarySnowball where
  "zero_unarySnowball = \<lparr>u_beta = 0, u_confidence = 0, u_finalized = False, u_numSuccessfulPolls = 0\<rparr>"

definition unarySnowball_RecordSuccessfulPoll :: "unarySnowball \<Rightarrow> unarySnowball" where
  "unarySnowball_RecordSuccessfulPoll sb =
     unarySnowflake_RecordSuccessfulPoll (sb\<lparr>u_numSuccessfulPolls := u_numSuccessfulPolls sb + 1\<rparr>)"

definition unarySnowball_Clone :: "unarySnowball \<Rightarrow> unarySnowball" where
  "unarySnowball_Clone sb = sb"

subsection \<open>Binary instances\<close>

text \<open>Arrays of two entries, indexed by a choice.\<close>

definition sel2 :: "bool \<Rightarrow> 'a \<times> 'a \<Rightarrow> 'a" where
  "sel2 b p = (if b then snd p else fst p)"

definition upd2 :: "bool \<Rightarrow> 'a \<Rightarrow> 'a \<times> 'a \<Rightarrow> 'a \<times> 'a" where
  "upd2 b v p = (if b then (fst p, v) else (v, snd p))"

lemma sel2_upd2 [simp]: "sel2 b (upd2 c v p) = (if b = c then v else sel2 b p)"
  by (simp add: sel2_def upd2_def)

lemma sel2_pair [simp]: "sel2 True (x, y) = y" "sel2 False (x, y) = x" "sel2 b (x, x) = x"
  by (simp_all add: sel2_def)

lemma sel2_eqI: "(\<And>b. sel2 b p = sel2 b q) \<Longrightarrow> p = q"
  by (metis prod.expand sel2_def)

record binarySlush =
  bsl_preference :: bool

definition binarySlush_Initialize :: "bool \<Rightarrow> 'a binarySlush_scheme \<Rightarrow> 'a binarySlush_scheme" where
  "binarySlush_Initialize choice sl = sl\<lparr>bsl_preference := choice\<rparr>"

definition binarySlush_Preference :: "'a binarySlush_scheme \<Rightarrow> bool" where
  "binarySlush_Preference sl = bsl_preference sl"

definition binarySlush_RecordSuccessfulPoll :: "bool \<Rightarrow> 'a binarySlush_scheme \<Rightarrow> 'a binarySlush_scheme" where
  "binarySlush_RecordSuccessfulPoll choice sl = sl\<lparr>bsl_preference := choice\<rparr>"

record binarySnowflake = binarySlush +
  b_confidence :: int
  b_beta :: int
  b_finalized :: bool

definition binarySnowflake_Initialize :: "int \<Rightarrow> bool \<Rightarrow> 'a binarySnowflake_scheme \<Rightarrow> 'a binarySnowflake_scheme" where
  "binarySnowflake_Initialize beta choice sf = (binarySlush_Initialize choice sf)\<lparr>b_beta := beta\<rparr>"

definition binarySnowflake_RecordSuccessfulPoll :: "bool \<Rightarrow> 'a binarySnowflake_scheme \<Rightarrow> 'a binarySnowflake_scheme" where
  "binarySnowflake_RecordSuccessfulPoll choice sf =
     (if b_finalized sf then sf
      else let
        sf = (if binarySlush_Preference sf = choice then sf\<lparr>b_confidence := b_confidence sf + 1\<rparr>
              else sf\<lparr>b_confidence := 1\<rparr>);
        sf = sf\<lparr>b_finalized := (b_confidence sf \<ge> b_beta sf)\<rparr>
      in binarySlush_RecordSuccessfulPoll choice sf)"

definition binarySnowflake_RecordUnsuccessfulPoll :: "'a binarySnowflake_scheme \<Rightarrow> 'a binarySnowflake_scheme" where
  "binarySnowflake_RecordUnsuccessfulPoll sf = sf\<lparr>b_confidence := 0\<rparr>"

definition binarySnowflake_Finalized :: "'a binarySnowflake_scheme \<Rightarrow> bool" where
  "binarySnowflake_Finalized sf = b_finalized sf"

definition unarySnowflake_Extend :: "int \<Rightarrow> bool \<Rightarrow> 'a unarySnowflake_scheme \<Rightarrow> binarySnowflake" where
  "unarySnowflake_Extend beta choice sf =
     \<lparr>bsl_preference = choice, b_confidence = u_confidence sf, b_beta = beta, b_finalized = u_finalized sf\<rparr>"

record binarySnowball = binarySnowflake +
  b_preference :: bool
  b_numSuccessfulPolls :: "int \<times> int"

definition zero_binarySnowball :: binarySnowball where
  "zero_binarySnowball = \<lparr>bsl_preference = False, b_confidence = 0, b_beta = 0, b_finalized = False,
     b_preference = False, b_numSuccessfulPolls = (0, 0)\<rparr>"

definition binarySnowball_Initialize :: "int \<Rightarrow> bool \<Rightarrow> binarySnowball \<Rightarrow> binarySnowball" where
  "binarySnowball_Initialize beta choice sb = (binarySnowflake_Initialize beta choice sb)\<lparr>b_preference := choice\<rparr>"

definition binarySnowball_Preference :: "binarySnowball \<Rightarrow> bool" where
  "binarySnowball_Preference sb =
     (if binarySnowflake_Finalized sb then binarySlush_Preference sb else b_preference sb)"

definition binarySnowball_RecordSuccessfulPoll :: "bool \<Rightarrow> binarySnowball \<Rightarrow> binarySnowball" where
  "binarySnowball_RecordSuccessfulPoll choice sb =
     (let
        sb = sb\<lparr>b_numSuccessfulPolls := upd2 choice (sel2 choice (b_numSuccessfulPolls sb) + 1) (b_numSuccessfulPolls sb)\<rparr>;
        sb = (if sel2 choice (b_numSuccessfulPolls sb) > sel2 (\<not> choice) (b_numSuccessfulPolls sb)
              then sb\<lparr>b_preference := choice\<rparr> else sb)
      in binarySnowflake_RecordSuccessfulPoll choice sb)"

definition unarySnowball_Extend :: "int \<Rightarrow> bool \<Rightarrow> unarySnowball \<Rightarrow> binarySnowball" where
  "unarySnowball_Extend beta choice sb =
     \<lparr>bsl_preference = choice, b_confidence = u_confidence sb, b_beta = beta,
      b_finalized = unarySnowflake_Finalized sb, b_preference = choice,
      b_numSuccessfulPolls = upd2 choice (u_numSuccessfulPolls sb) (0, 0)\<rparr>"

subsection \<open>Instances with any number of choices\<close>

record nnarySlush =
  nsl_preference :: ID

definition nnarySlush_Initialize :: "ID \<Rightarrow> 'a nnarySlush_scheme \<Rightarrow> 'a nnarySlush_scheme" where
  "nnarySlush_Initialize choice sl = sl\<lparr>nsl_preference := choice\<rparr>"

definition nnarySlush_Preference :: "'a nnarySlush_scheme \<Rightarrow> ID" where
  "nnarySlush_Preference sl = nsl_preference sl"

definition nnarySlush_RecordSuccessfulPoll :: "ID \<Rightarrow> 'a nnarySlush_scheme \<Rightarrow> 'a nnarySlush_scheme" where
  "nnarySlush_RecordSuccessfulPoll choice sl = sl\<lparr>nsl_preference := choice\<rparr>"

record nnarySnowflake = nnarySlush +
  n_betaVirtuous :: int
  n_betaRogue :: int
  n_confidence :: int
  n_rogue :: bool
  n_finalized :: bool

definition nnarySnowflake_Initialize :: "int \<Rightarrow> int \<Rightarrow> ID \<Rightarrow> 'a nnarySnowflake_scheme \<Rightarrow> 'a nnarySnowflake_scheme" where
  "nnarySnowflake_Initialize betaVirtuous betaRogue choice sf =
     (nnarySlush_Initialize choice sf)\<lparr>n_betaVirtuous := betaVirtuous, n_betaRogue := betaRogue\<rparr>"

definition nnarySnowflake_Add :: "ID \<Rightarrow> 'a nnarySnowflake_scheme \<Rightarrow> 'a nnarySnowflake_scheme" where
  "nnarySnowflake_Add choice sf = sf\<lparr>n_rogue := n_rogue sf \<or> choice \<noteq> nsl_preference sf\<rparr>"

definition nnarySnowflake_RecordSuccessfulPoll :: "ID \<Rightarrow> 'a nnarySnowflake_scheme \<Rightarrow> 'a nnarySnowflake_scheme" where
  "nnarySnowflake_RecordSuccessfulPoll choice sf =
     (if n_finalized sf then sf
      else let
        sf = (if nnarySlush_Preference sf = choice then sf\<lparr>n_confidence := n_confidence sf + 1\<rparr>
              else sf\<lparr>n_confidence := 1\<rparr>);
        sf = sf\<lparr>n_finalized := ((\<not> n_rogue sf \<and> n_confidence sf \<ge> n_betaVirtuous sf)
                               \<or> n_confidence sf \<ge> n_betaRogue sf)\<rparr>
      in nnarySlush_RecordSuccessfulPoll choice sf)"

definition nnarySnowflake_RecordUnsuccessfulPoll :: "'a nnarySnowflake_scheme \<Rightarrow> 'a nnarySnowflake_scheme" where
  "nnarySnowflake_RecordUnsuccessfulPoll sf = sf\<lparr>n_confidence := 0\<rparr>"

definition nnarySnowflake_Finalized :: "'a nnarySnowflake_scheme \<Rightarrow> bool" where
  "nnarySnowflake_Finalized sf = n_finalized sf"

record nnarySnowball = nnarySnowflake +
  n_preference :: ID
  n_maxSuccessfulPolls :: int
  n_numSuccessfulPolls :: "(ID, int) gomap"

definition nnarySnowball_Initialize :: "int \<Rightarrow> int \<Rightarrow> ID \<Rightarrow> 'a nnarySnowball_scheme \<Rightarrow> 'a nnarySnowball_scheme" where
  "nnarySnowball_Initialize betaVirtuous betaRogue choice sb =
     (nnarySnowflake_Initialize betaVirtuous betaRogue choice sb)\<lparr>n_preference := choice, n_numSuccessfulPolls := []\<rparr>"

definition nnarySnowball_Preference :: "'a nnarySnowball_scheme \<Rightarrow> ID" where
  "nnarySnowball_Preference sb =
     (if nnarySnowflake_Finalized sb then nnarySlush_Preference sb else n_preference sb)"

definition nnary_polls :: "'a nnarySnowball_scheme \<Rightarrow> ID \<Rightarrow> int" where
  "nnary_polls sb c = (case map_of (n_numSuccessfulPolls sb) c of Some n \<Rightarrow> n | None \<Rightarrow> 0)"

definition nnarySnowball_RecordSuccessfulPoll :: "ID \<Rightarrow> 'a nnarySnowball_scheme \<Rightarrow> 'a nnarySnowball_scheme" where
  "nnarySnowball_RecordSuccessfulPoll choice sb =
     (let
        numSuccessfulPolls = nnary_polls sb choice + 1;
        sb = sb\<lparr>n_numSuccessfulPolls := AList.update choice numSuccessfulPolls (n_numSuccessfulPolls sb)\<rparr>;
        sb = (if numSuccessfulPolls > n_maxSuccessfulPolls sb
              then sb\<lparr>n_preference := choice, n_maxSuccessfulPolls := numSuccessfulPolls\<rparr> else sb)
      in nnarySnowflake_RecordSuccessfulPoll choice sb)"

subsection \<open>The flat consensus instance\<close>

record Flat = nnarySnowball +
  f_params :: Parameters

definition zero_Parameters :: Parameters where
  "zero_Parameters = \<lparr>K = 0, Alpha = 0, BetaVirtuous = 0, BetaRogue = 0, ConcurrentRepolls = 0,
     OptimalProcessing = 0, MaxOutstandingItems = 0, MaxItemProcessingTime = 0\<rparr>"

definition zero_Flat :: Flat where
  "zero_Flat = \<lparr>nsl_preference = Empty_ID, n_betaVirtuous = 0, n_betaRogue = 0, n_confidence = 0,
     n_rogue = False, n_finalized = False, n_preference = Empty_ID, n_maxSuccessfulPolls = 0,
     n_numSuccessfulPolls = [], f_params = zero_Parameters\<rparr>"

definition Flat_Initialize :: "Parameters \<Rightarrow> ID \<Rightarrow> Flat \<Rightarrow> Flat" where
  "Flat_Initialize params choice f =
     (nnarySnowball_Initialize (BetaVirtuous params) (BetaRogue params) choice f)\<lparr>f_params := params\<rparr>"

definition Flat_RecordPoll :: "ID Bag \<Rightarrow> Flat \<Rightarrow> Flat \<times> bool" where
  "Flat_RecordPoll votes f =
     (let (pollMode, numVotes) = Mode Empty_ID votes
      in if numVotes \<ge> Alpha (f_params f)
         then (nnarySnowball_RecordSuccessfulPoll pollMode f, True)
         else (nnarySnowflake_RecordUnsuccessfulPoll f, False))"

subsection \<open>Valid parameters\<close>

lemma sdiv_2_less_iff: "(k::int) sdiv 2 < a \<and> a \<le> k \<longleftrightarrow> 0 < a \<and> a \<le> k \<and> k < 2 * a"
  by (auto simp: signed_divide_int_def sgn_if abs_if split: if_splits)

lemma Verify_betas: "Verify p = None \<Longrightarrow> 0 < Alpha p \<and> K p < 2 * Alpha p \<and> 0 < BetaVirtuous p \<and> BetaVirtuous p \<le> BetaRogue p"
  using sdiv_2_less_iff [of "K p" "Alpha p"] by (auto simp: Verify_def not_le not_less split: if_splits)

lemma Verify_sample_params [simp]: "Verify sample_params = None"
  by (simp add: Verify_def sample_params_def signed_divide_int_def)

text \<open>\<^verbatim>\<open>Parameters.Verify\<close> accepts exactly the parameters with a positive alpha that is a strict
  majority of the sample size, ordered positive betas, and positive limits, of which the number of
  concurrent repolls is at most the rogue beta.\<close>

theorem Verify_accepts:
  "Verify p = None \<longleftrightarrow>
     0 < Alpha p \<and> Alpha p \<le> K p \<and> K p < 2 * Alpha p
     \<and> 0 < BetaVirtuous p \<and> BetaVirtuous p \<le> BetaRogue p
     \<and> 0 < ConcurrentRepolls p \<and> ConcurrentRepolls p \<le> BetaRogue p
     \<and> 0 < OptimalProcessing p \<and> 0 < MaxOutstandingItems p \<and> 0 < MaxItemProcessingTime p"
  using sdiv_2_less_iff [of "K p" "Alpha p"]
  by (auto simp: Verify_def not_le not_less split: if_splits)

subsection \<open>Poll histories\<close>

text \<open>A poll is successful for a choice (\<open>Some c\<close>) or unsuccessful (\<open>None\<close>). The contract of a
  snowflake instance: it counts consecutive successes of its preference, and finalizes when the count
  reaches beta.\<close>

fun poll_run :: "('c \<Rightarrow> 's \<Rightarrow> 's) \<Rightarrow> ('s \<Rightarrow> 's) \<Rightarrow> 's \<Rightarrow> 'c option list \<Rightarrow> 's" where
  "poll_run success failure s [] = s"
| "poll_run success failure s (None # es) = poll_run success failure (failure s) es"
| "poll_run success failure s (Some c # es) = poll_run success failure (success c s) es"

lemma poll_run_append:
  "poll_run success failure s (es @ es') = poll_run success failure (poll_run success failure s es) es'"
  by (induction success failure s es rule: poll_run.induct) auto

lemma suffix_replicate_snoc:
  "0 < k \<Longrightarrow> suffix (replicate k x) (es @ [y]) \<longleftrightarrow> x = y \<and> suffix (replicate (k - 1) x) es"
  by (cases k) (auto simp: replicate_append_same [symmetric] simp del: replicate_append_same)

declare suffix_snoc [simp del]

locale snowflake =
  fixes pref :: "'s \<Rightarrow> 'c" and conf :: "'s \<Rightarrow> int" and fin :: "'s \<Rightarrow> bool" and beta :: "'s \<Rightarrow> int"
    and success :: "'c \<Rightarrow> 's \<Rightarrow> 's" and failure :: "'s \<Rightarrow> 's"
  assumes success_final: "fin s \<Longrightarrow> fin (success c s) \<and> pref (success c s) = pref s"
    and success_pref: "\<not> fin s \<Longrightarrow> pref (success c s) = c"
    and success_conf: "\<not> fin s \<Longrightarrow> conf (success c s) = (if pref s = c then conf s + 1 else 1)"
    and success_fin: "\<not> fin s \<Longrightarrow> fin (success c s) \<longleftrightarrow> beta s \<le> conf (success c s)"
    and failure_keeps: "fin (failure s) = fin s" "pref (failure s) = pref s"
    and failure_conf: "conf (failure s) = 0"
    and beta_const: "beta (success c s) = beta s" "beta (failure s) = beta s"
begin

abbreviation run :: "'s \<Rightarrow> 'c option list \<Rightarrow> 's" where
  "run \<equiv> poll_run success failure"

lemma run_final: "fin s \<Longrightarrow> fin (run s es) \<and> pref (run s es) = pref s"
proof (induction es arbitrary: s)
  case (Cons e es)
  then show ?case by (cases e) (auto simp: success_final failure_keeps)
qed simp

lemma run_beta: "beta (run s es) = beta s"
proof (induction es arbitrary: s)
  case (Cons e es)
  then show ?case by (cases e) (auto simp: beta_const)
qed simp

text \<open>Before finalization the confidence is the length of the streak of successes for the preference
  at the end of the history, and that streak is shorter than beta.\<close>

definition streak :: "'s \<Rightarrow> 'c option list \<Rightarrow> bool" where
  "streak s es \<longleftrightarrow> 0 \<le> conf s \<and> conf s < beta s
     \<and> (\<forall>c k. 0 < k \<longrightarrow> suffix (replicate k (Some c)) es \<longleftrightarrow> c = pref s \<and> int k \<le> conf s)"

lemma streak_success:
  assumes "\<not> fin s" "streak s es" "\<not> fin (success c s)"
  shows "streak (success c s) (es @ [Some c])"
proof -
  let ?t = "success c s"
  have t: "pref ?t = c" "conf ?t = (if pref s = c then conf s + 1 else 1)" "conf ?t < beta ?t"
    using assms success_fin by (auto simp: success_pref success_conf beta_const not_le)
  have "suffix (replicate k (Some d)) (es @ [Some c]) \<longleftrightarrow> d = pref ?t \<and> int k \<le> conf ?t" if "0 < k" for k d
  proof (cases "k = 1")
    case True
    then show ?thesis using t assms(2) by (auto simp: suffix_snoc streak_def)
  next
    case False
    with that have "suffix (replicate (k - 1) (Some c)) es \<longleftrightarrow> c = pref s \<and> int (k - 1) \<le> conf s"
      using assms(2) unfolding streak_def by simp
    with that False t show ?thesis by (auto simp: suffix_replicate_snoc)
  qed
  with t assms(2) show ?thesis by (auto simp: streak_def)
qed

lemma streak_failure: "streak s es \<Longrightarrow> streak (failure s) (es @ [None])"
  by (auto simp: streak_def failure_conf beta_const suffix_replicate_snoc)

text \<open>A success finalizes a streak exactly when the history now ends with beta successes.\<close>

lemma streak_fin:
  assumes "\<not> fin s" "streak s es"
  shows "fin (success c s) \<longleftrightarrow> (\<exists>d. suffix (replicate (nat (beta s)) (Some d)) (es @ [Some c]))"
proof -
  let ?m = "nat (beta s)"
  have m: "0 < ?m" "0 \<le> conf s" "conf s < beta s" using assms(2) by (auto simp: streak_def)
  have "suffix (replicate (?m - 1) (Some c)) es \<longleftrightarrow> ?m = 1 \<or> c = pref s \<and> beta s - 1 \<le> conf s"
  proof (cases "?m = 1")
    case False
    with m have "0 < ?m - 1" "int (?m - 1) = beta s - 1" by auto
    with assms(2) False show ?thesis unfolding streak_def by simp
  qed simp
  with m show ?thesis
    using assms(1) by (auto simp: success_fin success_conf suffix_replicate_snoc)
qed

theorem run_streak:
  assumes "\<not> fin s" "conf s = 0" "0 < beta s"
  shows "(fin (run s es) \<longleftrightarrow> (\<exists>c. sublist (replicate (nat (beta s)) (Some c)) es))
    \<and> (\<not> fin (run s es) \<longrightarrow> streak (run s es) es)"
proof (induction es rule: rev_induct)
  case Nil
  from assms show ?case by (auto simp: streak_def)
next
  case (snoc e es)
  let ?r = "run s es" and ?m = "nat (beta s)"
  show ?case
  proof (cases "fin ?r")
    case True
    then have "fin (run s (es @ [e]))" using run_final by (simp add: poll_run_append)
    moreover have "\<exists>c. sublist (replicate ?m (Some c)) (es @ [e])" using snoc True by (auto simp: sublist_snoc)
    ultimately show ?thesis by simp
  next
    case False
    with snoc have st: "streak ?r es" and none: "\<not> sublist (replicate ?m (Some c)) es" for c by auto
    show ?thesis
    proof (cases e)
      case None
      have "\<not> suffix (replicate ?m (Some c)) (es @ [None])" for c
        using assms(3) by (simp add: suffix_replicate_snoc)
      with False None none show ?thesis
        using streak_failure [OF st] by (auto simp: poll_run_append failure_keeps sublist_snoc)
    next
      case (Some c)
      with False none show ?thesis
        using streak_success [OF False st, of c] streak_fin [OF False st, of c]
        by (auto simp: poll_run_append sublist_snoc run_beta)
    qed
  qed
qed

text \<open>The decision is the choice of a streak of beta successes.\<close>

lemma run_decision:
  assumes "\<not> fin s" "conf s = 0" "0 < beta s" "fin (run s es)"
  shows "sublist (replicate (nat (beta s)) (Some (pref (run s es)))) es"
  using assms(4)
proof (induction es rule: rev_induct)
  case Nil
  with assms show ?case by simp
next
  case (snoc e es)
  show ?case
  proof (cases "fin (run s es)")
    case True
    then have "pref (run s (es @ [e])) = pref (run s es)" using run_final by (simp add: poll_run_append)
    with snoc True show ?thesis by (simp add: sublist_snoc)
  next
    case False
    with snoc.prems obtain c where e: "e = Some c" by (cases e) (auto simp: poll_run_append failure_keeps)
    have st: "streak (run s es) es" using run_streak [OF assms(1-3), of es] False by simp
    from snoc.prems e have "fin (success c (run s es))" by (simp add: poll_run_append)
    then obtain d where "suffix (replicate (nat (beta s)) (Some d)) (es @ [Some c])"
      using streak_fin [OF False st] by (auto simp: run_beta)
    with assms(3) have "suffix (replicate (nat (beta s)) (Some c)) (es @ [Some c])"
      by (auto simp: suffix_replicate_snoc)
    with e False show ?thesis by (simp add: poll_run_append success_pref sublist_snoc)
  qed
qed

end

lemmas snowflake_defs =
  unarySnowflake_RecordSuccessfulPoll_def unarySnowflake_RecordUnsuccessfulPoll_def
  unarySnowball_RecordSuccessfulPoll_def unarySnowflake_Initialize_def unarySnowflake_Finalized_def
  binarySlush_Initialize_def binarySlush_Preference_def binarySlush_RecordSuccessfulPoll_def
  binarySnowflake_Initialize_def binarySnowflake_RecordSuccessfulPoll_def
  binarySnowflake_RecordUnsuccessfulPoll_def binarySnowflake_Finalized_def
  binarySnowball_Initialize_def binarySnowball_RecordSuccessfulPoll_def
  nnarySlush_Initialize_def nnarySlush_Preference_def nnarySlush_RecordSuccessfulPoll_def
  nnarySnowflake_Initialize_def nnarySnowflake_RecordSuccessfulPoll_def
  nnarySnowflake_RecordUnsuccessfulPoll_def nnarySnowflake_Finalized_def
  nnarySnowball_Initialize_def nnarySnowball_RecordSuccessfulPoll_def

interpretation usb: snowflake "\<lambda>_. ()" u_confidence u_finalized u_beta
  "\<lambda>_. unarySnowball_RecordSuccessfulPoll" "unarySnowflake_RecordUnsuccessfulPoll :: unarySnowball \<Rightarrow> _"
  by unfold_locales (auto simp: snowflake_defs Let_def)

interpretation bsb: snowflake binarySlush_Preference b_confidence b_finalized b_beta
  binarySnowball_RecordSuccessfulPoll "binarySnowflake_RecordUnsuccessfulPoll :: binarySnowball \<Rightarrow> _"
  by unfold_locales (auto simp: snowflake_defs Let_def)

text \<open>An instance with many choices uses the smaller beta until a second choice is added.\<close>

definition nnary_beta :: "'a nnarySnowflake_scheme \<Rightarrow> int" where
  "nnary_beta sf = (if n_rogue sf then n_betaRogue sf else min (n_betaVirtuous sf) (n_betaRogue sf))"

interpretation nsb: snowflake nnarySlush_Preference n_confidence n_finalized nnary_beta
  nnarySnowball_RecordSuccessfulPoll "nnarySnowflake_RecordUnsuccessfulPoll :: 'a nnarySnowball_scheme \<Rightarrow> _"
  by unfold_locales (auto simp: snowflake_defs Let_def nnary_beta_def)

subsection \<open>Totals and preferences\<close>

lemma bsb_totals:
  "sel2 c (b_numSuccessfulPolls (bsb.run s es)) = sel2 c (b_numSuccessfulPolls s) + int (count_list es (Some c))"
proof (induction es arbitrary: s)
  case (Cons e es)
  then show ?case by (cases e) (auto simp: snowflake_defs Let_def)
qed simp

lemma bsb_prefers_most:
  assumes "sel2 (\<not> b_preference s) (b_numSuccessfulPolls s) \<le> sel2 (b_preference s) (b_numSuccessfulPolls s)"
  shows "sel2 (\<not> b_preference (bsb.run s es)) (b_numSuccessfulPolls (bsb.run s es))
    \<le> sel2 (b_preference (bsb.run s es)) (b_numSuccessfulPolls (bsb.run s es))"
  using assms
proof (induction es arbitrary: s)
  case (Cons e es)
  show ?case
  proof (cases e)
    case None
    with Cons show ?thesis by (simp add: snowflake_defs)
  next
    case (Some c)
    have "sel2 (\<not> b_preference t) (b_numSuccessfulPolls t) \<le> sel2 (b_preference t) (b_numSuccessfulPolls t)"
      if "t = binarySnowball_RecordSuccessfulPoll c s" for t
      using Cons.prems that by (cases c; cases "b_preference s") (auto simp: snowflake_defs Let_def)
    with Cons.IH Some show ?thesis by simp
  qed
qed simp

lemma nsb_totals: "nnary_polls (nsb.run s es) c = nnary_polls s c + int (count_list es (Some c))"
proof (induction es arbitrary: s)
  case (Cons e es)
  then show ?case by (cases e) (auto simp: snowflake_defs Let_def nnary_polls_def update_conv' split: option.splits)
qed simp

definition nnary_prefers_most :: "'a nnarySnowball_scheme \<Rightarrow> bool" where
  "nnary_prefers_most sb \<longleftrightarrow> (\<forall>c. nnary_polls sb c \<le> n_maxSuccessfulPolls sb)
     \<and> nnary_polls sb (n_preference sb) = n_maxSuccessfulPolls sb"

lemma nsb_prefers_most: "nnary_prefers_most s \<Longrightarrow> nnary_prefers_most (nsb.run s es)"
proof (induction es arbitrary: s)
  case (Cons e es)
  show ?case
  proof (cases e)
    case None
    with Cons show ?thesis by (simp add: snowflake_defs nnary_prefers_most_def nnary_polls_def)
  next
    case (Some c)
    have polls: "nnary_polls (nnarySnowball_RecordSuccessfulPoll c s) d = nnary_polls s d + (if d = c then 1 else 0)" for d
      using nsb_totals [of s "[Some c]" d] by simp
    have "n_maxSuccessfulPolls (nnarySnowball_RecordSuccessfulPoll c s) = max (n_maxSuccessfulPolls s) (nnary_polls s c + 1)"
      "n_preference (nnarySnowball_RecordSuccessfulPoll c s)
        = (if n_maxSuccessfulPolls s < nnary_polls s c + 1 then c else n_preference s)"
      by (auto simp: snowflake_defs Let_def)
    then have "nnary_prefers_most (nnarySnowball_RecordSuccessfulPoll c s)"
      using Cons.prems unfolding nnary_prefers_most_def polls by (auto simp: le_max_iff_disj)
    with Cons.IH Some show ?thesis by simp
  qed
qed simp

subsection \<open>Properties\<close>

text \<open>A unary instance finalizes exactly when the history has had beta successful polls in a row,
  however it went before and after.\<close>

theorem unary_finalizes_iff:
  assumes "0 < beta"
  shows "unarySnowflake_Finalized (poll_run (\<lambda>_. unarySnowball_RecordSuccessfulPoll)
      unarySnowflake_RecordUnsuccessfulPoll (unarySnowflake_Initialize beta zero_unarySnowball) es)
    \<longleftrightarrow> sublist (replicate (nat beta) (Some ())) es"
  using usb.run_streak [of "unarySnowflake_Initialize beta zero_unarySnowball" es] assms
  by (simp add: snowflake_defs zero_unarySnowball_def)

theorem unary_finalizes_iff_witness:
  "(0::int) < 2 \<and> unarySnowflake_Finalized (poll_run (\<lambda>_. unarySnowball_RecordSuccessfulPoll)
      unarySnowflake_RecordUnsuccessfulPoll (unarySnowflake_Initialize 2 zero_unarySnowball)
      [Some (), None, Some (), Some (), None])"
proof -
  have "sublist (replicate 2 (Some ())) [Some (), None, Some (), Some (), None]"
    by (simp add: sublist_Cons_right numeral_2_eq_2)
  then show ?thesis
    using unary_finalizes_iff [of 2 "[Some (), None, Some (), Some (), None]"] by simp
qed

text \<open>(C25) A binary snowball decides on a streak: it is finalized exactly when some choice has had beta
  successful polls in a row; the choice it then prefers is one that had such a streak, and no later poll
  changes it. Until then it prefers a choice with the most successful polls.\<close>

theorem binary_snowball_decides:
  fixes es es' :: "bool option list"
  assumes "0 < beta"
    and "s = poll_run binarySnowball_RecordSuccessfulPoll binarySnowflake_RecordUnsuccessfulPoll
           (binarySnowball_Initialize beta choice zero_binarySnowball) es"
    and "s' = poll_run binarySnowball_RecordSuccessfulPoll binarySnowflake_RecordUnsuccessfulPoll s es'"
  shows "(binarySnowflake_Finalized s \<longleftrightarrow> (\<exists>c. sublist (replicate (nat beta) (Some c)) es))
    \<and> (binarySnowflake_Finalized s \<longrightarrow>
         sublist (replicate (nat beta) (Some (binarySnowball_Preference s))) es
         \<and> binarySnowflake_Finalized s' \<and> binarySnowball_Preference s' = binarySnowball_Preference s)
    \<and> (\<not> binarySnowflake_Finalized s \<longrightarrow>
         count_list es (Some c) \<le> count_list es (Some (binarySnowball_Preference s)))"
proof -
  let ?i = "binarySnowball_Initialize beta choice zero_binarySnowball"
  have i: "\<not> b_finalized ?i" "b_confidence ?i = 0" "b_beta ?i = beta" "sel2 c (b_numSuccessfulPolls ?i) = 0" for c
    by (simp_all add: snowflake_defs zero_binarySnowball_def)
  have i0: "0 < b_beta ?i" using assms(1) i(3) by simp
  have fin: "b_finalized s \<longleftrightarrow> (\<exists>c. sublist (replicate (nat beta) (Some c)) es)"
    using bsb.run_streak [OF i(1,2) i0, of es] assms(2) i(3) by simp
  have dec: "sublist (replicate (nat beta) (Some (bsl_preference s))) es"
    "b_finalized s' \<and> bsl_preference s' = bsl_preference s" if "b_finalized s"
    using bsb.run_decision [OF i(1,2) i0, of es] bsb.run_final [of s es'] that assms(2,3) i(3)
    by (simp_all add: snowflake_defs)
  have "sel2 (\<not> b_preference s) (b_numSuccessfulPolls s) \<le> sel2 (b_preference s) (b_numSuccessfulPolls s)"
    unfolding assms(2) by (rule bsb_prefers_most) (simp add: i(4))
  then have "count_list es (Some c) \<le> count_list es (Some (b_preference s))"
    using bsb_totals [of c ?i es] bsb_totals [of "b_preference s" ?i es] i(4) assms(2)
    by (cases "c = b_preference s") auto
  with fin dec show ?thesis
    by (simp add: binarySnowball_Preference_def binarySnowflake_Finalized_def binarySlush_Preference_def)
qed

theorem binary_snowball_decides_witness:
  "(0::int) < 2 \<and> binarySnowflake_Finalized (poll_run binarySnowball_RecordSuccessfulPoll
     binarySnowflake_RecordUnsuccessfulPoll (binarySnowball_Initialize 2 False zero_binarySnowball)
     [Some True, Some True]) \<and> binarySnowball_Preference (poll_run binarySnowball_RecordSuccessfulPoll
     binarySnowflake_RecordUnsuccessfulPoll (binarySnowball_Initialize 2 False zero_binarySnowball)
     [Some True, Some True, Some False, Some False]) = True"
  (is "_ \<and> binarySnowflake_Finalized ?s \<and> binarySnowball_Preference ?s' = True")
proof -
  have "binarySnowflake_Finalized ?s" "binarySnowball_Preference ?s = True"
    by (simp_all add: snowflake_defs binarySnowball_Preference_def zero_binarySnowball_def Let_def upd2_def sel2_def)
  then show ?thesis
    using binary_snowball_decides [of 2 ?s False "[Some True, Some True]" ?s' "[Some False, Some False]" True] by simp
qed

text \<open>The outcome of a poll of the flat instance, and a flat instance as a run over outcomes.\<close>

definition flat_outcome :: "Parameters \<Rightarrow> ID Bag \<Rightarrow> ID option" where
  "flat_outcome p votes = (if snd (Mode Empty_ID votes) \<ge> Alpha p then Some (fst (Mode Empty_ID votes)) else None)"

fun Flat_polls :: "Flat \<Rightarrow> ID Bag list \<Rightarrow> Flat" where
  "Flat_polls f [] = f"
| "Flat_polls f (votes # rest) = Flat_polls (fst (Flat_RecordPoll votes f)) rest"

lemma f_params_step [simp]:
  "f_params (nnarySnowball_RecordSuccessfulPoll c f) = f_params f"
  "f_params (nnarySnowflake_RecordUnsuccessfulPoll f) = f_params f"
  "f_params (nnarySnowflake_Add c f) = f_params f"
  by (simp_all add: snowflake_defs nnarySnowflake_Add_def Let_def)

lemma Flat_polls_run: "Flat_polls f vs = nsb.run f (map (flat_outcome (f_params f)) vs)"
proof (induction vs arbitrary: f)
  case (Cons v vs)
  then show ?case
    by (simp add: Flat_RecordPoll_def flat_outcome_def case_prod_beta)
qed simp

lemma Flat_Adds:
  fixes c0 :: ID
  assumes "f = fold nnarySnowflake_Add cs (Flat_Initialize p c0 zero_Flat)"
  shows "\<not> n_finalized f" "n_confidence f = 0" "f_params f = p" "n_preference f = c0" "n_maxSuccessfulPolls f = 0"
    "nnary_polls f c = 0" "n_betaVirtuous f = BetaVirtuous p" "n_betaRogue f = BetaRogue p"
    "n_rogue f \<longleftrightarrow> (\<exists>c \<in> set cs. c \<noteq> c0)"
proof -
  define ok where "ok f r \<longleftrightarrow> \<not> n_finalized f \<and> n_confidence f = 0 \<and> f_params f = p \<and> n_preference f = c0
    \<and> n_maxSuccessfulPolls f = 0 \<and> (\<forall>c. nnary_polls f c = 0) \<and> n_betaVirtuous f = BetaVirtuous p
    \<and> n_betaRogue f = BetaRogue p \<and> nsl_preference f = c0 \<and> n_rogue f = r" for f :: Flat and r
  have "ok (fold nnarySnowflake_Add cs g) (r \<or> (\<exists>c \<in> set cs. c \<noteq> c0))" if "ok g r" for g r
    using that
  proof (induction cs arbitrary: g r)
    case (Cons c cs)
    then have "ok (nnarySnowflake_Add c g) (r \<or> c \<noteq> c0)"
      by (simp add: ok_def nnarySnowflake_Add_def nnary_polls_def)
    from Cons.IH [OF this] show ?case by (simp add: disj_assoc)
  qed simp
  moreover have "ok (Flat_Initialize p c0 zero_Flat) False"
    by (simp add: ok_def Flat_Initialize_def zero_Flat_def snowflake_defs nnary_polls_def)
  ultimately have "ok f (\<exists>c \<in> set cs. c \<noteq> c0)" using assms by fastforce
  then show "\<not> n_finalized f" "n_confidence f = 0" "f_params f = p" "n_preference f = c0" "n_maxSuccessfulPolls f = 0"
    "nnary_polls f c = 0" "n_betaVirtuous f = BetaVirtuous p" "n_betaRogue f = BetaRogue p"
    "n_rogue f \<longleftrightarrow> (\<exists>c \<in> set cs. c \<noteq> c0)"
    by (auto simp: ok_def)
qed

text \<open>(C24) The flat instance decides on a streak of alpha majorities: with valid parameters, after any
  added choices and any sequence of polls it is finalized exactly when some choice won the required
  number of polls in a row, the virtuous beta if every added choice was the initial one and the rogue
  beta otherwise. The decision is such a choice and no later poll changes it; until then the preference
  is a choice that won the most polls.\<close>

theorem flat_decides:
  assumes "Verify p = None"
    and "f = fold nnarySnowflake_Add cs (Flat_Initialize p c0 zero_Flat)"
    and "beta = (if \<exists>c \<in> set cs. c \<noteq> c0 then BetaRogue p else BetaVirtuous p)"
    and "es = map (flat_outcome p) vs"
  shows "(nnarySnowflake_Finalized (Flat_polls f vs) \<longleftrightarrow> (\<exists>c. sublist (replicate (nat beta) (Some c)) es))
    \<and> (nnarySnowflake_Finalized (Flat_polls f vs) \<longrightarrow>
         sublist (replicate (nat beta) (Some (nnarySnowball_Preference (Flat_polls f vs)))) es
         \<and> nnarySnowball_Preference (Flat_polls (Flat_polls f vs) vs') = nnarySnowball_Preference (Flat_polls f vs))
    \<and> (\<not> nnarySnowflake_Finalized (Flat_polls f vs) \<longrightarrow>
         count_list es (Some c) \<le> count_list es (Some (nnarySnowball_Preference (Flat_polls f vs))))"
proof -
  note f = Flat_Adds [OF assms(2)]
  let ?r = "Flat_polls f vs"
  have r: "?r = nsb.run f es" by (simp add: Flat_polls_run f(3) assms(4))
  have b: "nnary_beta f = beta" "0 < nnary_beta f"
    using assms(1) f(7-9) by (auto simp: nnary_beta_def assms(3) dest!: Verify_betas)
  have fin: "n_finalized ?r \<longleftrightarrow> (\<exists>c. sublist (replicate (nat beta) (Some c)) es)"
    using nsb.run_streak [OF f(1,2) b(2), of es] r b(1) by simp
  have dec: "sublist (replicate (nat beta) (Some (nsl_preference ?r))) es"
    "n_finalized (Flat_polls ?r vs') \<and> nsl_preference (Flat_polls ?r vs') = nsl_preference ?r" if "n_finalized ?r"
    using nsb.run_decision [OF f(1,2) b(2), of es] nsb.run_final [of ?r] that r b(1)
    by (simp_all add: Flat_polls_run nnarySlush_Preference_def)
  have "nnary_prefers_most ?r"
    unfolding r by (rule nsb_prefers_most) (simp add: nnary_prefers_most_def f)
  then have "nnary_polls ?r c \<le> nnary_polls ?r (n_preference ?r)" by (simp add: nnary_prefers_most_def)
  then have "count_list es (Some c) \<le> count_list es (Some (n_preference ?r))"
    using nsb_totals [of f es c] nsb_totals [of f es "n_preference ?r"] r by (simp add: f)
  with fin dec show ?thesis
    by (simp add: nnarySnowball_Preference_def nnarySnowflake_Finalized_def nnarySlush_Preference_def)
qed

theorem flat_decides_witness:
  "Verify sample_params = None
   \<and> nnarySnowflake_Finalized (Flat_polls (fold nnarySnowflake_Add [[2]] (Flat_Initialize sample_params [1] zero_Flat))
        [Of [[2], [2]], Of [[2], [2]]])"
proof -
  note v = Verify_sample_params
  have "map (flat_outcome sample_params) [Of [[2], [2]], Of [[2], [2]]] = [Some [2], Some [2]]"
    by code_simp
  then show ?thesis
    using v flat_decides [OF v refl refl refl, of "[[2]]" "[1]" "[Of [[2], [2]], Of [[2], [2]]]"]
    by (simp add: sample_params_def numeral_2_eq_2) blast
qed

end
