(* ===== verification/Snowball_Tree.thy ===== *)
theory Snowball_Tree
  imports Snowball
begin

text \<open>
  The consensus tree of \<^verbatim>\<open>snow/consensus/snowball/tree.go\<close>: a modified patricia tree over the 256 bits of
  the choices whose nodes are snowball instances. A unary node runs one instance for a range of bits all
  added choices share, a binary node one instance for a bit two of them differ in. The nodes of the code
  point to the tree only to read its parameters; they are an argument here. An index of a bit, and of an
  array of two entries, is as in the theories below: a nat and a bool.

  A node that gets no alpha majority resets, and so should its subtree. The code marks the subtree with
  \<^verbatim>\<open>shouldReset\<close> and resets it when it is next visited; this theory shows that to be the same as
  resetting at once.
\<close>

subsection \<open>Nodes\<close>

datatype node =
    is_unary: unaryNode (un_preference: ID) (un_decidedPrefix: nat) (un_commonPrefix: nat)
      (un_snowball: unarySnowball) (un_shouldReset: bool) (un_child: "node option")
  | binaryNode (bn_preferences: "ID \<times> ID") (bn_bit: nat) (bn_snowball: binarySnowball)
      (bn_shouldReset: "bool \<times> bool") (bn_children: "node option \<times> node option")

fun node_Preference :: "node \<Rightarrow> ID" where
  "node_Preference (unaryNode preference _ _ _ _ _) = preference"
| "node_Preference (binaryNode preferences _ snowball _ _) = sel2 (binarySnowball_Preference snowball) preferences"

fun node_DecidedPrefix :: "node \<Rightarrow> nat" where
  "node_DecidedPrefix (unaryNode _ decidedPrefix _ _ _ _) = decidedPrefix"
| "node_DecidedPrefix (binaryNode _ bitIndex _ _ _) = bitIndex"

fun node_Finalized :: "node \<Rightarrow> bool" where
  "node_Finalized (unaryNode _ _ _ snowball _ _) = unarySnowflake_Finalized snowball"
| "node_Finalized (binaryNode _ _ snowball _ _) = binarySnowflake_Finalized snowball"

lemma size_children [termination_simp]:
  "sel2 b (x, y) = Some child \<Longrightarrow> size child < Suc (Suc (size_option size x + size_option size y))"
  by (auto simp: sel2_def split: if_splits)

fun node_Add :: "Parameters \<Rightarrow> ID \<Rightarrow> node \<Rightarrow> node" where
  "node_Add params newChoice (unaryNode preference decidedPrefix commonPrefix snowball shouldReset child) =
     (if unarySnowflake_Finalized snowball
      then unaryNode preference decidedPrefix commonPrefix snowball shouldReset child
      else case FirstDifferenceSubset decidedPrefix commonPrefix preference newChoice of
        None \<Rightarrow> unaryNode preference decidedPrefix commonPrefix snowball shouldReset
                  (map_option (node_Add params newChoice) child)
      | Some index \<Rightarrow>
          (let bit' = (Bit preference index = 1);
               preferences = upd2 (\<not> bit') newChoice (upd2 bit' preference (Empty_ID, Empty_ID));
               b = binaryNode preferences index (unarySnowball_Extend (BetaRogue params) bit' snowball)
                     (shouldReset, shouldReset);
               newChildSnowball = unarySnowflake_Initialize (BetaVirtuous params) zero_unarySnowball;
               newChild = unaryNode newChoice (index + 1) NumBits newChildSnowball False None
           in if decidedPrefix + 1 = commonPrefix
              then b (upd2 (\<not> bit') (if child \<noteq> None then Some newChild else None) (upd2 bit' child (None, None)))
              else if index = decidedPrefix
              then b (upd2 (\<not> bit') (Some newChild) (upd2 bit'
                     (Some (unaryNode preference (decidedPrefix + 1) commonPrefix snowball shouldReset child))
                     (None, None)))
              else if index + 1 = commonPrefix
              then unaryNode preference decidedPrefix (commonPrefix - 1) snowball shouldReset
                     (Some (b (upd2 (\<not> bit') (if child \<noteq> None then Some newChild else None)
                       (upd2 bit' child (None, None)))))
              else unaryNode preference decidedPrefix index (unarySnowball_Clone snowball) False
                     (Some (b (upd2 (\<not> bit') (Some newChild) (upd2 bit'
                       (Some (unaryNode preference (index + 1) commonPrefix snowball shouldReset child))
                       (None, None)))))))"
| "node_Add params newChoice (binaryNode preferences bitIndex snowball shouldReset children) =
     (let bit' = (Bit newChoice bitIndex = 1)
      in binaryNode preferences bitIndex snowball shouldReset
           (case sel2 bit' children of
              None \<Rightarrow> children
            | Some child \<Rightarrow>
                if EqualSubset (bitIndex + 1) (node_DecidedPrefix child) (sel2 bit' preferences) newChoice
                then upd2 bit' (Some (node_Add params newChoice child)) children
                else children))"

fun node_RecordPoll :: "Parameters \<Rightarrow> ID Bag \<Rightarrow> bool \<Rightarrow> node \<Rightarrow> node \<times> bool" where
  "node_RecordPoll params votes reset (unaryNode preference decidedPrefix commonPrefix snowball shouldReset child) =
     (let snowball = (if reset then unarySnowflake_RecordUnsuccessfulPoll snowball else snowball);
          shouldReset = (reset \<or> shouldReset)
      in if Len votes < Alpha params
         then (unaryNode preference decidedPrefix commonPrefix
                 (unarySnowflake_RecordUnsuccessfulPoll snowball) True child, False)
         else let snowball = unarySnowball_RecordSuccessfulPoll snowball
           in case child of
                Some c \<Rightarrow>
                  (let newChild = fst (node_RecordPoll params votes shouldReset c)
                   in if unarySnowflake_Finalized snowball then (newChild, True)
                      else (unaryNode (node_Preference newChild) decidedPrefix commonPrefix snowball False
                              (Some newChild), True))
              | None \<Rightarrow> (unaryNode preference decidedPrefix commonPrefix snowball False None, True))"
| "node_RecordPoll params votes reset (binaryNode preferences bitIndex snowball shouldReset children) =
     (let splitVotes = Split (\<lambda>id. Bit id bitIndex = 1) votes;
          bit' = (Len (snd splitVotes) \<ge> Alpha params);
          snowball = (if reset then binarySnowflake_RecordUnsuccessfulPoll snowball else snowball);
          shouldReset = (if reset then upd2 bit' True shouldReset else shouldReset);
          shouldReset = upd2 (\<not> bit') True shouldReset;
          prunedVotes = sel2 bit' splitVotes
      in if Len prunedVotes < Alpha params
         then (binaryNode preferences bitIndex (binarySnowflake_RecordUnsuccessfulPoll snowball)
                 (upd2 bit' True shouldReset) children, False)
         else let snowball = binarySnowball_RecordSuccessfulPoll bit' snowball
           in case sel2 bit' children of
                Some child \<Rightarrow>
                  (let decidedPrefix = node_DecidedPrefix child;
                       filteredVotes = Filter (EqualSubset (bitIndex + 1) decidedPrefix (sel2 bit' preferences)) prunedVotes;
                       newChild = fst (node_RecordPoll params filteredVotes (sel2 bit' shouldReset) child)
                   in if binarySnowflake_Finalized snowball then (newChild, True)
                      else (binaryNode (upd2 bit' (node_Preference newChild) preferences) bitIndex snowball
                              (upd2 bit' False shouldReset) (upd2 bit' (Some newChild) children), True))
              | None \<Rightarrow> (binaryNode preferences bitIndex snowball (upd2 bit' False shouldReset) children, True))"

subsection \<open>The tree\<close>

record Tree =
  tr_node :: node
  tr_params :: Parameters
  tr_shouldReset :: bool

text \<open>\<^verbatim>\<open>TreeFactory.New\<close> followed by \<^verbatim>\<open>Initialize\<close>, which sets the root of the empty struct.\<close>

definition Tree_Initialize :: "Parameters \<Rightarrow> ID \<Rightarrow> Tree" where
  "Tree_Initialize params choice =
     (let snowball = unarySnowflake_Initialize (BetaVirtuous params) zero_unarySnowball
      in \<lparr>tr_node = unaryNode choice 0 NumBits snowball False None, tr_params = params, tr_shouldReset = False\<rparr>)"

definition Tree_Preference :: "Tree \<Rightarrow> ID" where
  "Tree_Preference t = node_Preference (tr_node t)"

definition Tree_Finalized :: "Tree \<Rightarrow> bool" where
  "Tree_Finalized t = node_Finalized (tr_node t)"

definition Tree_Add :: "ID \<Rightarrow> Tree \<Rightarrow> Tree" where
  "Tree_Add choice t =
     (let prefix = node_DecidedPrefix (tr_node t)
      in if EqualSubset 0 prefix (Tree_Preference t) choice
         then t\<lparr>tr_node := node_Add (tr_params t) choice (tr_node t)\<rparr> else t)"

definition Tree_RecordPoll :: "ID Bag \<Rightarrow> Tree \<Rightarrow> Tree \<times> bool" where
  "Tree_RecordPoll votes t =
     (let decidedPrefix = node_DecidedPrefix (tr_node t);
          preference = Tree_Preference t;
          filteredVotes = Filter (EqualSubset 0 decidedPrefix preference) votes;
          (node, successful) = node_RecordPoll (tr_params t) filteredVotes (tr_shouldReset t) (tr_node t)
      in (t\<lparr>tr_node := node, tr_shouldReset := False\<rparr>, successful))"

definition Tree_RecordUnsuccessfulPoll :: "Tree \<Rightarrow> Tree" where
  "Tree_RecordUnsuccessfulPoll t = t\<lparr>tr_shouldReset := True\<rparr>"

subsection \<open>Resetting at once\<close>

text \<open>The tree without \<^verbatim>\<open>shouldReset\<close>: a node that gets no alpha majority resets its whole subtree.\<close>

fun reset_all :: "node \<Rightarrow> node" where
  "reset_all (unaryNode preference decidedPrefix commonPrefix snowball shouldReset child) =
     unaryNode preference decidedPrefix commonPrefix (unarySnowflake_RecordUnsuccessfulPoll snowball) False
       (map_option reset_all child)"
| "reset_all (binaryNode preferences bitIndex snowball shouldReset (child0, child1)) =
     binaryNode preferences bitIndex (binarySnowflake_RecordUnsuccessfulPoll snowball) (False, False)
       (map_option reset_all child0, map_option reset_all child1)"

fun eager_RecordPoll :: "Parameters \<Rightarrow> ID Bag \<Rightarrow> node \<Rightarrow> node \<times> bool" where
  "eager_RecordPoll params votes (unaryNode preference decidedPrefix commonPrefix snowball shouldReset child) =
     (if Len votes < Alpha params
      then (reset_all (unaryNode preference decidedPrefix commonPrefix snowball shouldReset child), False)
      else let snowball = unarySnowball_RecordSuccessfulPoll snowball
        in case child of
             None \<Rightarrow> (unaryNode preference decidedPrefix commonPrefix snowball False None, True)
           | Some c \<Rightarrow>
               (let newChild = fst (eager_RecordPoll params votes c)
                in (if unarySnowflake_Finalized snowball then newChild
                    else unaryNode (node_Preference newChild) decidedPrefix commonPrefix snowball False (Some newChild),
                    True)))"
| "eager_RecordPoll params votes (binaryNode preferences bitIndex snowball shouldReset children) =
     (let votesFor = (\<lambda>bit'. Filter (\<lambda>id. (Bit id bitIndex = 1) = bit') votes);
          bit' = (Len (votesFor True) \<ge> Alpha params)
      in if Len (votesFor bit') < Alpha params
         then (reset_all (binaryNode preferences bitIndex snowball shouldReset children), False)
         else let snowball = binarySnowball_RecordSuccessfulPoll bit' snowball;
                  others = upd2 (\<not> bit') (map_option reset_all (sel2 (\<not> bit') children)) children
           in case sel2 bit' children of
                None \<Rightarrow> (binaryNode preferences bitIndex snowball (False, False) others, True)
              | Some child \<Rightarrow>
                  (let newChild = fst (eager_RecordPoll params
                         (Filter (EqualSubset (bitIndex + 1) (node_DecidedPrefix child) (sel2 bit' preferences)) (votesFor bit')) child)
                   in (if binarySnowflake_Finalized snowball then newChild
                       else binaryNode (upd2 bit' (node_Preference newChild) preferences) bitIndex snowball (False, False)
                              (upd2 bit' (Some newChild) others),
                       True)))"

text \<open>What a tree with pending resets stands for: \<open>flush r n\<close> is \<open>n\<close> with the resets recorded in it, and
  a reset of all of it if \<open>r\<close>, carried out.\<close>

fun flush :: "bool \<Rightarrow> node \<Rightarrow> node" where
  "flush r (unaryNode preference decidedPrefix commonPrefix snowball shouldReset child) =
     unaryNode preference decidedPrefix commonPrefix
       (if r then unarySnowflake_RecordUnsuccessfulPoll snowball else snowball) False
       (map_option (flush (r \<or> shouldReset)) child)"
| "flush r (binaryNode preferences bitIndex snowball shouldReset (child0, child1)) =
     binaryNode preferences bitIndex
       (if r then binarySnowflake_RecordUnsuccessfulPoll snowball else snowball) (False, False)
       (map_option (flush (r \<or> fst shouldReset)) child0, map_option (flush (r \<or> snd shouldReset)) child1)"

text \<open>A unary node whose subtree awaits a reset has itself been reset.\<close>

fun lazy_ok :: "node \<Rightarrow> bool" where
  "lazy_ok (unaryNode _ _ _ snowball shouldReset child) \<longleftrightarrow>
     (shouldReset \<longrightarrow> u_confidence snowball = 0) \<and> pred_option lazy_ok child"
| "lazy_ok (binaryNode _ _ _ _ (child0, child1)) \<longleftrightarrow> pred_option lazy_ok child0 \<and> pred_option lazy_ok child1"

lemma node_induct [case_names unary binary]:
  assumes "\<And>preference decidedPrefix commonPrefix snowball shouldReset child. (\<And>c. child = Some c \<Longrightarrow> P c)
      \<Longrightarrow> P (unaryNode preference decidedPrefix commonPrefix snowball shouldReset child)"
    and "\<And>preferences bitIndex snowball shouldReset children. (\<And>b c. sel2 b children = Some c \<Longrightarrow> P c)
      \<Longrightarrow> P (binaryNode preferences bitIndex snowball shouldReset children)"
  shows "P n"
proof (induction n)
  case (unaryNode preference decidedPrefix commonPrefix snowball shouldReset child)
  then show ?case by (intro assms(1)) auto
next
  case (binaryNode preferences bitIndex snowball shouldReset children)
  then show ?case by (intro assms(2)) (cases children, auto simp: sel2_def split: if_splits)
qed

text \<open>The equations for a binary node, child by child.\<close>

lemma reset_all_binary:
  "reset_all (binaryNode ps i s r cs) = binaryNode ps i (binarySnowflake_RecordUnsuccessfulPoll s) (False, False)
     (map_prod (map_option reset_all) (map_option reset_all) cs)"
  by (cases cs) simp

lemma flush_binary:
  "flush r (binaryNode ps i s rs cs) = binaryNode ps i (if r then binarySnowflake_RecordUnsuccessfulPoll s else s)
     (False, False) (map_option (flush (r \<or> fst rs)) (fst cs), map_option (flush (r \<or> snd rs)) (snd cs))"
  by (cases cs) simp

lemma lazy_ok_binary: "lazy_ok (binaryNode ps i s rs cs) \<longleftrightarrow> (\<forall>b c. sel2 b cs = Some c \<longrightarrow> lazy_ok c)"
  by (cases cs) (auto simp: all_bool_eq pred_option_def)

lemma sel2_map_prod [simp]: "sel2 b (map_prod f f p) = f (sel2 b p)"
  by (simp add: sel2_def)

lemma sel2_Split: "sel2 b (Split f votes) = Filter (\<lambda>x. f x = b) votes"
  by (simp add: Split_eq sel2_def)

lemma unsuccessful_twice [simp]:
  "unarySnowflake_RecordUnsuccessfulPoll (unarySnowflake_RecordUnsuccessfulPoll u) = unarySnowflake_RecordUnsuccessfulPoll u"
  "binarySnowflake_RecordUnsuccessfulPoll (binarySnowflake_RecordUnsuccessfulPoll s) = binarySnowflake_RecordUnsuccessfulPoll s"
  by (simp_all add: snowflake_defs)

lemma unsuccessful_observe [simp]:
  "unarySnowflake_Finalized (unarySnowflake_RecordUnsuccessfulPoll u) = unarySnowflake_Finalized u"
  "binarySnowflake_Finalized (binarySnowflake_RecordUnsuccessfulPoll s) = binarySnowflake_Finalized s"
  "binarySnowball_Preference (binarySnowflake_RecordUnsuccessfulPoll s) = binarySnowball_Preference s"
  by (simp_all add: snowflake_defs binarySnowball_Preference_def)

lemma unsuccessful_noop: "u_confidence u = 0 \<Longrightarrow> unarySnowflake_RecordUnsuccessfulPoll u = u"
  by (simp add: snowflake_defs)

subsection \<open>Delayed resets are resets\<close>

lemma flush_observe [simp]:
  "node_Preference (flush r n) = node_Preference n"
  "node_DecidedPrefix (flush r n) = node_DecidedPrefix n"
  "node_Finalized (flush r n) = node_Finalized n"
  by (cases n; simp add: flush_binary)+

lemma reset_all_flush [simp]: "reset_all (flush r n) = flush True n"
proof (induction n arbitrary: r rule: node_induct)
  case (unary preference decidedPrefix commonPrefix snowball shouldReset child)
  then show ?case by (cases child) auto
next
  case (binary preferences bitIndex snowball shouldReset children)
  have "map_option (reset_all \<circ> flush r') (sel2 b children) = map_option (flush True) (sel2 b children)" for b r'
    using binary by (cases "sel2 b children") auto
  from this [of _ False] this [of _ True] show ?case
    by (cases children) (simp add: option.map_comp sel2_def split: if_splits)
qed

text \<open>A poll of a binary node, for the bit \<open>b\<close> that may have an alpha majority.\<close>

definition votes_for :: "nat \<Rightarrow> bool \<Rightarrow> ID Bag \<Rightarrow> ID Bag" where
  "votes_for i b votes = Filter (\<lambda>id. (Bit id i = 1) = b) votes"

definition winner :: "Parameters \<Rightarrow> nat \<Rightarrow> ID Bag \<Rightarrow> bool" where
  "winner params i votes \<longleftrightarrow> Alpha params \<le> Len (votes_for i True votes)"

lemma RecordPoll_binary:
  assumes "winner params i votes = b"
  shows "node_RecordPoll params votes reset (binaryNode ps i s rs cs) =
    (if Len (votes_for i b votes) < Alpha params
     then (binaryNode ps i (binarySnowflake_RecordUnsuccessfulPoll s) (True, True) cs, False)
     else let s' = binarySnowball_RecordSuccessfulPoll b (if reset then binarySnowflake_RecordUnsuccessfulPoll s else s);
              rs' = (if b then (True, False) else (False, True))
       in case sel2 b cs of
            None \<Rightarrow> (binaryNode ps i s' rs' cs, True)
          | Some c \<Rightarrow>
              let c' = fst (node_RecordPoll params (Filter (EqualSubset (i + 1) (node_DecidedPrefix c) (sel2 b ps)) (votes_for i b votes))
                         (reset \<or> sel2 b rs) c)
              in if binarySnowflake_Finalized s' then (c', True)
                 else (binaryNode (upd2 b (node_Preference c') ps) i s' rs' (upd2 b (Some c') cs), True))"
proof -
  have w: "(Len (snd (Split (\<lambda>id. Bit id i = 1) votes)) \<ge> Alpha params) = b"
    using assms by (simp add: winner_def votes_for_def Split_eq)
  have v: "sel2 b (Split (\<lambda>id. Bit id i = 1) votes) = votes_for i b votes"
    by (simp add: sel2_Split votes_for_def)
  have r: "upd2 b x (upd2 (\<not> b) True (if reset then upd2 b True rs else rs)) = (if b then (True, x) else (x, True))"
    "sel2 b (upd2 (\<not> b) True (if reset then upd2 b True rs else rs)) = (reset \<or> sel2 b rs)" for x
    by (auto simp: upd2_def sel2_def)
  show ?thesis
    unfolding node_RecordPoll.simps Let_def w v r by (auto split: option.splits)
qed

lemma eager_binary:
  assumes "winner params i votes = b"
  shows "eager_RecordPoll params votes (binaryNode ps i s rs cs) =
    (if Len (votes_for i b votes) < Alpha params then (reset_all (binaryNode ps i s rs cs), False)
     else let s' = binarySnowball_RecordSuccessfulPoll b s;
              cs' = upd2 (\<not> b) (map_option reset_all (sel2 (\<not> b) cs)) cs
       in case sel2 b cs of
            None \<Rightarrow> (binaryNode ps i s' (False, False) cs', True)
          | Some c \<Rightarrow>
              let c' = fst (eager_RecordPoll params (Filter (EqualSubset (i + 1) (node_DecidedPrefix c) (sel2 b ps)) (votes_for i b votes)) c)
              in (if binarySnowflake_Finalized s' then c'
                  else binaryNode (upd2 b (node_Preference c') ps) i s' (False, False) (upd2 b (Some c') cs'), True))"
proof -
  have w: "(Alpha params \<le> Len (votes_for i True votes)) = b"
    using assms by (simp add: winner_def)
  show ?thesis unfolding eager_RecordPoll.simps Let_def votes_for_def [symmetric] w ..
qed

declare node_RecordPoll.simps(2) [simp del] eager_RecordPoll.simps(2) [simp del]

lemma flush_RecordPoll:
  "flush False (fst (node_RecordPoll params votes r n)) = fst (eager_RecordPoll params votes (flush r n))
   \<and> snd (node_RecordPoll params votes r n) = snd (eager_RecordPoll params votes (flush r n))"
proof (induction n arbitrary: votes r rule: node_induct)
  case (unary preference decidedPrefix commonPrefix snowball shouldReset child)
  show ?case
  proof (cases child)
    case None
    then show ?thesis by (simp add: Let_def)
  next
    case (Some c)
    from unary [OF Some] show ?thesis
      by (simp add: Some Let_def option.map_comp comp_def)
        (metis flush_observe(1) option.map_comp)
  qed
next
  case (binary preferences bitIndex snowball shouldReset children)
  obtain b where w: "winner params bitIndex votes = b" by blast
  note [simp] = flush_binary reset_all_binary option.map_comp comp_def Let_def RecordPoll_binary [OF w] eager_binary [OF w]
  show ?case
  proof (cases "sel2 b children")
    case None
    then show ?thesis by (cases b) (simp_all add: upd2_def sel2_def)
  next
    case (Some c)
    have "node_Preference (fst (node_RecordPoll params v r c)) = node_Preference (fst (eager_RecordPoll params v (flush r c)))" for v r
      using binary [OF Some] by (metis flush_observe(1))
    with binary [OF Some] Some show ?thesis by (cases b) (auto simp: upd2_def sel2_def)
  qed
qed

lemma lazy_ok_RecordPoll: "lazy_ok n \<Longrightarrow> lazy_ok (fst (node_RecordPoll params votes r n))"
proof (induction n arbitrary: votes r rule: node_induct)
  case (unary preference decidedPrefix commonPrefix snowball shouldReset child)
  then show ?case by (cases child) (auto simp: Let_def snowflake_defs)
next
  case (binary preferences bitIndex snowball shouldReset children)
  obtain b where w: "winner params bitIndex votes = b" by blast
  show ?case
  proof (cases "sel2 b children")
    case None
    with binary show ?thesis by (simp add: RecordPoll_binary [OF w] lazy_ok_binary Let_def)
  next
    case (Some c)
    with binary.prems have "lazy_ok c" by (auto simp: lazy_ok_binary)
    with binary.IH [OF Some] binary.prems Some show ?thesis
      by (auto simp: RecordPoll_binary [OF w] lazy_ok_binary Let_def split: if_splits)
  qed
qed

lemma lazy_ok_fresh [simp]: "lazy_ok (unaryNode c d NumBits (unarySnowflake_Initialize beta zero_unarySnowball) False None)"
  by simp

lemma lazy_ok_Add: "lazy_ok n \<Longrightarrow> lazy_ok (node_Add params c n)"
proof (induction n rule: node_induct)
  case (unary preference decidedPrefix commonPrefix snowball shouldReset child)
  then show ?case
    by (cases child) (auto simp: Let_def lazy_ok_binary unarySnowball_Clone_def simp del: Bit_eq_iff
        split: option.splits if_splits)
next
  case (binary preferences bitIndex snowball shouldReset children)
  then show ?case by (auto simp: Let_def lazy_ok_binary split: option.splits if_splits)
qed

lemma unsuccessful_Extend:
  "unarySnowball_Extend beta b (unarySnowflake_RecordUnsuccessfulPoll u)
     = binarySnowflake_RecordUnsuccessfulPoll (unarySnowball_Extend beta b u)"
  by (simp add: unarySnowball_Extend_def snowflake_defs)

lemma unsuccessful_fresh [simp]:
  "unarySnowflake_RecordUnsuccessfulPoll (unarySnowflake_Initialize beta zero_unarySnowball)
     = unarySnowflake_Initialize beta zero_unarySnowball"
  by (simp add: snowflake_defs zero_unarySnowball_def)

lemma flush_Add: "lazy_ok n \<Longrightarrow> flush r (node_Add params c n) = node_Add params c (flush r n)"
proof (induction n arbitrary: r rule: node_induct)
  case (unary preference decidedPrefix commonPrefix snowball shouldReset child)
  show ?case
  proof (cases "FirstDifferenceSubset decidedPrefix commonPrefix preference c")
    case None
    with unary show ?thesis by (cases child) auto
  next
    case (Some i)
    define b where "b = (Bit preference i = 1)"
    have reset: "shouldReset \<Longrightarrow> unarySnowflake_RecordUnsuccessfulPoll snowball = snowball"
      using unary.prems by (simp add: unsuccessful_noop)
    then have reset_Extend: "shouldReset \<Longrightarrow> binarySnowflake_RecordUnsuccessfulPoll (unarySnowball_Extend beta d snowball)
        = unarySnowball_Extend beta d snowball" for beta d
      by (simp flip: unsuccessful_Extend)
    note eqs = Some Let_def b_def [symmetric] flush_binary unsuccessful_Extend unarySnowball_Clone_def upd2_def
    show ?thesis
    proof (cases "unarySnowflake_Finalized snowball")
      case True
      then show ?thesis by simp
    next
      case False
      then show ?thesis
        by (cases b; cases r; cases shouldReset; simp add: eqs reset reset_Extend)
    qed
  qed
next
  case (binary preferences bitIndex snowball shouldReset children)
  define b where "b = (Bit c bitIndex = 1)"
  show ?case
  proof (cases "sel2 b children")
    case None
    then show ?thesis by (cases b) (auto simp: flush_binary Let_def b_def [symmetric] sel2_def)
  next
    case (Some d)
    with binary.prems have "lazy_ok d" by (auto simp: lazy_ok_binary)
    with binary.IH [OF Some] Some show ?thesis
      by (cases b) (auto simp: flush_binary Let_def b_def [symmetric] sel2_def upd2_def)
  qed
qed

end
