(* ===== verification/Tree_Correct.thy ===== *)
theory Tree_Correct
  imports Snowball_Tree
begin

text \<open>
  The correctness of the consensus tree, on top of the equivalence of delayed and immediate resets: the
  shape of reachable trees, with the relation between a unary node and its child that the code relies
  on; that a decision is final; that the tree prefers only choices it was given; and that it decides.
\<close>

subsection \<open>Well-formed trees\<close>

definition valid_params :: "Parameters \<Rightarrow> bool" where
  "valid_params p \<longleftrightarrow> 0 < BetaVirtuous p \<and> BetaVirtuous p \<le> BetaRogue p \<and> 0 < Alpha p \<and> K p < 2 * Alpha p"

lemma valid_params_Verify: "Verify p = None \<Longrightarrow> valid_params p"
  using Verify_betas by (simp add: valid_params_def)

text \<open>A unary node covers a non-empty range of bits. It has no child if the range ends at the last bit;
  otherwise it is undecided and its child is a binary node for the bit where the range ends, undecided
  and at most as confident. A binary node holds two choices that agree before its bit and differ in it;
  a node that has children is undecided.\<close>

fun wf_node :: "Parameters \<Rightarrow> node \<Rightarrow> bool" where
  "wf_node params (unaryNode preference decidedPrefix commonPrefix snowball _ child) \<longleftrightarrow>
     valid_ID preference \<and> decidedPrefix < commonPrefix \<and> commonPrefix \<le> NumBits
     \<and> u_beta snowball = BetaVirtuous params \<and> 0 \<le> u_confidence snowball
     \<and> (u_finalized snowball \<or> u_confidence snowball < BetaVirtuous params)
     \<and> (child = None \<longrightarrow> commonPrefix = NumBits)
     \<and> pred_option (\<lambda>c. \<not> u_finalized snowball \<and> \<not> is_unary c \<and> node_DecidedPrefix c = commonPrefix
         \<and> \<not> node_Finalized c \<and> node_Preference c = preference
         \<and> b_confidence (bn_snowball c) \<le> u_confidence snowball \<and> wf_node params c) child"
| "wf_node params (binaryNode preferences bitIndex snowball _ (child0, child1)) \<longleftrightarrow>
     bitIndex < NumBits \<and> valid_ID (fst preferences) \<and> valid_ID (snd preferences)
     \<and> \<not> id_bit (fst preferences) bitIndex \<and> id_bit (snd preferences) bitIndex
     \<and> same_bits 0 bitIndex (fst preferences) (snd preferences)
     \<and> b_beta snowball = BetaRogue params \<and> 0 \<le> b_confidence snowball
     \<and> (b_finalized snowball \<or> b_confidence snowball < BetaRogue params)
     \<and> (child0 = None \<longleftrightarrow> bitIndex + 1 = NumBits) \<and> (child1 = None \<longleftrightarrow> bitIndex + 1 = NumBits)
     \<and> pred_option (\<lambda>c. \<not> b_finalized snowball \<and> bitIndex < node_DecidedPrefix c
         \<and> node_Preference c = fst preferences \<and> wf_node params c) child0
     \<and> pred_option (\<lambda>c. \<not> b_finalized snowball \<and> bitIndex < node_DecidedPrefix c
         \<and> node_Preference c = snd preferences \<and> wf_node params c) child1"

lemma wf_binary:
  "wf_node params (binaryNode ps i s rs cs) \<longleftrightarrow>
     i < NumBits \<and> b_beta s = BetaRogue params \<and> 0 \<le> b_confidence s
     \<and> (b_finalized s \<or> b_confidence s < BetaRogue params)
     \<and> (\<forall>b. valid_ID (sel2 b ps) \<and> id_bit (sel2 b ps) i = b \<and> same_bits 0 i (sel2 b ps) (sel2 (\<not> b) ps)
         \<and> (sel2 b cs = None \<longleftrightarrow> i + 1 = NumBits)
         \<and> (\<forall>c. sel2 b cs = Some c \<longrightarrow> \<not> b_finalized s \<and> i < node_DecidedPrefix c
              \<and> node_Preference c = sel2 b ps \<and> wf_node params c))"
  by (cases cs; cases ps) (auto simp: all_bool_eq pred_option_def intro: same_bits_sym)

declare wf_node.simps(2) [simp del]

lemma wf_decided_less: "wf_node params n \<Longrightarrow> node_DecidedPrefix n < NumBits"
  by (cases n) (auto simp: wf_binary)

lemma wf_valid_Preference: "wf_node params n \<Longrightarrow> valid_ID (node_Preference n)"
  by (cases n) (auto simp: wf_binary)

lemma reset_all_observe [simp]:
  "node_Preference (reset_all n) = node_Preference n"
  "node_DecidedPrefix (reset_all n) = node_DecidedPrefix n"
  "node_Finalized (reset_all n) = node_Finalized n"
  "is_unary (reset_all n) = is_unary n"
  "\<not> is_unary n \<Longrightarrow> bn_snowball (reset_all n) = binarySnowflake_RecordUnsuccessfulPoll (bn_snowball n)"
  by (cases n; simp add: reset_all_binary)+

lemma unsuccessful_fields [simp]:
  "u_confidence (unarySnowflake_RecordUnsuccessfulPoll u) = 0"
  "u_beta (unarySnowflake_RecordUnsuccessfulPoll u) = u_beta u"
  "u_finalized (unarySnowflake_RecordUnsuccessfulPoll u) = u_finalized u"
  "b_confidence (binarySnowflake_RecordUnsuccessfulPoll s) = 0"
  "b_beta (binarySnowflake_RecordUnsuccessfulPoll s) = b_beta s"
  "b_finalized (binarySnowflake_RecordUnsuccessfulPoll s) = b_finalized s"
  "bsl_preference (binarySnowflake_RecordUnsuccessfulPoll s) = bsl_preference s"
  by (simp_all add: snowflake_defs)

lemma wf_reset_all:
  assumes "valid_params params"
  shows "wf_node params n \<Longrightarrow> wf_node params (reset_all n)"
proof (induction n rule: node_induct)
  case (unary preference decidedPrefix commonPrefix snowball shouldReset child)
  with assms show ?case by (cases child) (auto simp: valid_params_def)
next
  case (binary preferences bitIndex snowball shouldReset children)
  then have "wf_node params (reset_all c)" if "sel2 b children = Some c" for b c
    using that by (auto simp: wf_binary)
  with binary.prems assms show ?case by (auto simp: wf_binary reset_all_binary valid_params_def)
qed

lemma unary_success [simp]:
  "u_beta (unarySnowball_RecordSuccessfulPoll u) = u_beta u"
  "u_confidence (unarySnowball_RecordSuccessfulPoll u) = u_confidence u + 1"
  "u_finalized (unarySnowball_RecordSuccessfulPoll u) \<longleftrightarrow> u_finalized u \<or> u_beta u \<le> u_confidence u + 1"
  by (simp_all add: snowflake_defs Let_def)

lemma binary_success [simp]:
  "b_beta (binarySnowball_RecordSuccessfulPoll b s) = b_beta s"
  "b_confidence (binarySnowball_RecordSuccessfulPoll b s)
     = (if b_finalized s then b_confidence s else if bsl_preference s = b then b_confidence s + 1 else 1)"
  "b_finalized (binarySnowball_RecordSuccessfulPoll b s)
     \<longleftrightarrow> b_finalized s \<or> b_beta s \<le> (if bsl_preference s = b then b_confidence s + 1 else 1)"
  "bsl_preference (binarySnowball_RecordSuccessfulPoll b s) = (if b_finalized s then bsl_preference s else b)"
  by (auto simp: snowflake_defs Let_def)

lemmas finalized_defs = unarySnowflake_Finalized_def binarySnowflake_Finalized_def

lemma same_bits_sides:
  assumes "\<And>b. same_bits 0 i (sel2 b ps) (sel2 (\<not> b) ps)"
  shows "same_bits 0 i (sel2 b ps) (sel2 b' ps)"
  using assms [of b] by (cases "b = b'") auto

text \<open>What a poll does to a subtree: it keeps the shape, moves the decided prefix forward and changes the
  preference only after it. An undecided binary node that is far enough from a decision stays as it is.\<close>

definition poll_keeps :: "Parameters \<Rightarrow> node \<Rightarrow> node \<Rightarrow> bool" where
  "poll_keeps params n n' \<longleftrightarrow> wf_node params n' \<and> node_DecidedPrefix n \<le> node_DecidedPrefix n'
    \<and> same_bits 0 (node_DecidedPrefix n) (node_Preference n) (node_Preference n')
    \<and> (\<not> is_unary n \<and> \<not> node_Finalized n \<and> b_confidence (bn_snowball n) + 1 < BetaRogue params \<longrightarrow>
         \<not> is_unary n' \<and> \<not> node_Finalized n' \<and> node_DecidedPrefix n' = node_DecidedPrefix n
         \<and> b_confidence (bn_snowball n') \<le> b_confidence (bn_snowball n) + 1)"

lemma poll_keepsD:
  assumes "poll_keeps params n n'"
  shows "wf_node params n'" "node_DecidedPrefix n \<le> node_DecidedPrefix n'"
    "j \<le> node_DecidedPrefix n \<Longrightarrow> same_bits 0 j (node_Preference n) (node_Preference n')"
  using assms same_bits_mono unfolding poll_keeps_def by blast+

lemma keeps_reset_all: "valid_params params \<Longrightarrow> wf_node params n \<Longrightarrow> poll_keeps params n (reset_all n)"
  by (cases n) (simp_all add: poll_keeps_def wf_reset_all wf_binary del: reset_all.simps)

lemma keeps_unary_child:
  assumes "valid_params params" "wf_node params (unaryNode p d e s r (Some c))" "poll_keeps params c c'"
  shows "poll_keeps params (unaryNode p d e s r (Some c))
    (if BetaVirtuous params \<le> u_confidence s + 1 then c'
     else unaryNode (node_Preference c') d e (unarySnowball_RecordSuccessfulPoll s) False (Some c'))"
proof -
  have W: "d < e" "e \<le> NumBits" "u_beta s = BetaVirtuous params" "0 \<le> u_confidence s" "\<not> u_finalized s"
    "\<not> is_unary c" "node_DecidedPrefix c = e" "\<not> node_Finalized c" "node_Preference c = p"
    "b_confidence (bn_snowball c) \<le> u_confidence s"
    using assms(2) by auto
  have pre: "same_bits 0 d p (node_Preference c')" "d \<le> node_DecidedPrefix c'" "wf_node params c'"
    using poll_keepsD(1,2) [OF assms(3)] poll_keepsD(3) [OF assms(3), of d] W by auto
  show ?thesis
  proof (cases "BetaVirtuous params \<le> u_confidence s + 1")
    case True
    with pre show ?thesis by (simp add: poll_keeps_def)
  next
    case late: False
    then have "b_confidence (bn_snowball c) + 1 < BetaRogue params"
      using W assms(1) by (simp add: valid_params_def)
    with assms(3) W have "\<not> is_unary c'" "\<not> node_Finalized c'" "node_DecidedPrefix c' = e"
      "b_confidence (bn_snowball c') \<le> u_confidence s + 1"
      unfolding poll_keeps_def by auto
    with late W pre wf_valid_Preference [OF pre(3)] show ?thesis by (simp add: poll_keeps_def)
  qed
qed

text \<open>The other side of a successful binary node is reset; neither side's choice changes before the bit.\<close>

lemma binary_success_bounds:
  assumes "wf_node params (binaryNode ps i s rs cs)"
  shows "b_beta (binarySnowball_RecordSuccessfulPoll b s) = BetaRogue params"
    "0 \<le> b_confidence (binarySnowball_RecordSuccessfulPoll b s)"
    "b_finalized (binarySnowball_RecordSuccessfulPoll b s)
       \<or> b_confidence (binarySnowball_RecordSuccessfulPoll b s) < BetaRogue params"
    "\<not> b_finalized s \<Longrightarrow> b_confidence s + 1 < BetaRogue params \<Longrightarrow>
       \<not> b_finalized (binarySnowball_RecordSuccessfulPoll b s)
       \<and> b_confidence (binarySnowball_RecordSuccessfulPoll b s) \<le> b_confidence s + 1"
  using assms by (auto simp: wf_binary)

lemma wf_sides: "wf_node params (binaryNode ps i s rs cs) \<Longrightarrow> same_bits 0 i (sel2 d ps) (sel2 d' ps)"
  by (rule same_bits_sides) (simp add: wf_binary)

lemma keeps_binary_leaf:
  assumes "wf_node params (binaryNode ps i s rs cs)" "sel2 b cs = None"
  shows "poll_keeps params (binaryNode ps i s rs cs) (binaryNode ps i (binarySnowball_RecordSuccessfulPoll b s)
    (False, False) (upd2 (\<not> b) (map_option reset_all (sel2 (\<not> b) cs)) cs))"
proof -
  note W = assms(1) [unfolded wf_binary]
  have last: "i + 1 = NumBits" using W assms(2) by blast
  then have none: "sel2 d cs = None" for d using W by blast
  with W last none wf_sides [OF assms(1)] binary_success_bounds [OF assms(1), of b] show ?thesis
    by (simp add: poll_keeps_def wf_binary finalized_defs del: binary_success)
qed

lemma wf_binary_step:
  assumes "valid_params params" "wf_node params (binaryNode ps i s rs cs)" "sel2 b cs = Some c"
    and "poll_keeps params c c'" "\<not> b_finalized s'"
    and s': "b_beta s' = BetaRogue params" "0 \<le> b_confidence s'" "b_confidence s' < BetaRogue params"
  shows "wf_node params (binaryNode (upd2 b (node_Preference c') ps) i s' (False, False)
    (upd2 b (Some c') (upd2 (\<not> b) (map_option reset_all (sel2 (\<not> b) cs)) cs)))" (is "wf_node _ (binaryNode ?ps _ _ _ ?cs)")
proof -
  note W = assms(2) [unfolded wf_binary]
  have c: "i < node_DecidedPrefix c" "node_Preference c = sel2 b ps" "i + 1 \<noteq> NumBits"
    using W assms(3) by (metis option.distinct(1))+
  have c': "wf_node params c'" "i < node_DecidedPrefix c'" "same_bits 0 (i + 1) (sel2 b ps) (node_Preference c')"
    using poll_keepsD(1,2) [OF assms(4)] poll_keepsD(3) [OF assms(4), of "i + 1"] c by auto
  have pref: "same_bits 0 i (sel2 d ps) (node_Preference c')" for d
    by (rule same_bits_trans [OF wf_sides [OF assms(2), of d b] same_bits_mono [OF c'(3)]]) simp_all
  have pref_bit: "id_bit (node_Preference c') i = b" using c'(3) W by (auto simp: same_bits_def)
  have "valid_ID (sel2 d ?ps) \<and> id_bit (sel2 d ?ps) i = d \<and> same_bits 0 i (sel2 d ?ps) (sel2 (\<not> d) ?ps)
    \<and> (sel2 d ?cs = None \<longleftrightarrow> i + 1 = NumBits)
    \<and> (\<forall>x. sel2 d ?cs = Some x \<longrightarrow> \<not> b_finalized s' \<and> i < node_DecidedPrefix x
         \<and> node_Preference x = sel2 d ?ps \<and> wf_node params x)" for d
  proof (cases "d = b")
    case True
    then show ?thesis
      using assms(5) c' c(3) pref_bit same_bits_sym [OF pref] wf_valid_Preference [OF c'(1)] by simp
  next
    case d: False
    have "wf_node params (reset_all x) \<and> i < node_DecidedPrefix x \<and> node_Preference x = sel2 d ps"
      if "sel2 d cs = Some x" for x
      using W that wf_reset_all [OF assms(1)] by blast
    moreover have "d = (\<not> b)" "sel2 d cs = None \<longleftrightarrow> i + 1 = NumBits" "valid_ID (sel2 d ps)" "id_bit (sel2 d ps) i = d"
      using W d by auto
    ultimately show ?thesis using d assms(5) pref by auto
  qed
  then show ?thesis unfolding wf_binary using W s' by blast
qed

lemma keeps_binary_child:
  assumes "valid_params params" "wf_node params (binaryNode ps i s rs cs)" "sel2 b cs = Some c" "poll_keeps params c c'"
  shows "poll_keeps params (binaryNode ps i s rs cs)
    (if b_finalized (binarySnowball_RecordSuccessfulPoll b s) then c'
     else binaryNode (upd2 b (node_Preference c') ps) i (binarySnowball_RecordSuccessfulPoll b s) (False, False)
       (upd2 b (Some c') (upd2 (\<not> b) (map_option reset_all (sel2 (\<not> b) cs)) cs)))"
proof -
  note W = assms(2) [unfolded wf_binary]
  note s' = binary_success_bounds [OF assms(2), of b]
  have c: "i < node_DecidedPrefix c" "node_Preference c = sel2 b ps" "\<not> b_finalized s" using W assms(3) by blast+
  have c': "wf_node params c'" "i \<le> node_DecidedPrefix c'" "same_bits 0 i (sel2 b ps) (node_Preference c')"
    using poll_keepsD(1,2) [OF assms(4)] poll_keepsD(3) [OF assms(4), of i] c by auto
  have pref: "same_bits 0 i (sel2 d ps) (node_Preference c')" for d
    by (rule same_bits_trans [OF wf_sides [OF assms(2)] c'(3)])
  show ?thesis
  proof (cases "b_finalized (binarySnowball_RecordSuccessfulPoll b s)")
    case True
    with c' pref c(3) s'(4) show ?thesis
      by (auto simp: poll_keeps_def finalized_defs simp del: binary_success)
  next
    case False
    with wf_binary_step [OF assms(1-4) False s'(1,2)] s' c(3) pref wf_sides [OF assms(2)] show ?thesis
      by (simp add: poll_keeps_def finalized_defs del: binary_success)
  qed
qed

lemma poll_keeps_RecordPoll:
  assumes "valid_params params"
  shows "wf_node params n \<Longrightarrow> poll_keeps params n (fst (eager_RecordPoll params votes n))"
proof (induction n arbitrary: votes rule: node_induct)
  case (unary preference decidedPrefix commonPrefix snowball shouldReset child)
  show ?case
  proof (cases "Len votes < Alpha params \<or> child = None")
    case True
    with unary.prems keeps_reset_all [OF assms unary.prems] show ?thesis by (auto simp: Let_def poll_keeps_def)
  next
    case False
    then obtain c where c: "child = Some c" "\<not> Len votes < Alpha params" by auto
    with unary have "poll_keeps params c (fst (eager_RecordPoll params votes c))" by simp
    from keeps_unary_child [OF assms unary.prems [unfolded c(1)] this] c unary.prems show ?thesis
      by (auto simp: Let_def finalized_defs)
  qed
next
  case (binary preferences bitIndex snowball shouldReset children)
  obtain b where w: "winner params bitIndex votes = b" by blast
  show ?case
  proof (cases "sel2 b children")
    case None
    with keeps_reset_all [OF assms binary.prems] keeps_binary_leaf [OF binary.prems None] show ?thesis
      by (simp add: eager_binary [OF w] Let_def)
  next
    case (Some c)
    with binary.prems have "wf_node params c" by (simp add: wf_binary)
    with Some keeps_reset_all [OF assms binary.prems] keeps_binary_child [OF assms binary.prems Some]
      binary.IH [OF Some] show ?thesis
      by (simp add: eager_binary [OF w] Let_def finalized_defs del: binary_success)
  qed
qed

subsection \<open>Adding a choice\<close>

lemma Bit_1_iff [simp]: "Bit x i = 1 \<longleftrightarrow> id_bit x i"
  by (simp add: Bit_eq)

text \<open>The binary node a unary node is split into at the first difference with the new choice; \<open>child\<close> is
  the subtree of the choices it already had.\<close>

definition split_node :: "Parameters \<Rightarrow> ID \<Rightarrow> ID \<Rightarrow> nat \<Rightarrow> unarySnowball \<Rightarrow> bool \<Rightarrow> node option \<Rightarrow> node" where
  "split_node params preference newChoice i snowball r child =
     (let b = id_bit preference i in
      binaryNode (upd2 (\<not> b) newChoice (upd2 b preference (Empty_ID, Empty_ID))) i
        (unarySnowball_Extend (BetaRogue params) b snowball) (r, r)
        (upd2 (\<not> b) (if child \<noteq> None then Some (unaryNode newChoice (i + 1) NumBits
            (unarySnowflake_Initialize (BetaVirtuous params) zero_unarySnowball) False None) else None)
          (upd2 b child (None, None))))"

lemma node_Add_split:
  assumes "FirstDifferenceSubset d e p c = Some i" "\<not> u_finalized s"
  shows "node_Add params c (unaryNode p d e s r ch) =
    (if d + 1 = e then split_node params p c i s r ch
     else if i = d then split_node params p c i s r (Some (unaryNode p (d + 1) e s r ch))
     else if i + 1 = e then unaryNode p d (e - 1) s r (Some (split_node params p c i s r ch))
     else unaryNode p d i s False (Some (split_node params p c i s r (Some (unaryNode p (i + 1) e s r ch)))))"
  using assms by (simp add: split_node_def Let_def finalized_defs unarySnowball_Clone_def)

lemma wf_split_node:
  assumes "valid_params params" "u_beta s = BetaVirtuous params" "0 \<le> u_confidence s"
    "u_confidence s < BetaVirtuous params" "\<not> u_finalized s"
    and ids: "valid_ID p" "valid_ID c" "i < NumBits" "same_bits 0 i p c" "id_bit p i \<noteq> id_bit c i"
    and child: "child = None \<longleftrightarrow> i + 1 = NumBits"
      "\<And>x. child = Some x \<Longrightarrow> i < node_DecidedPrefix x \<and> node_Preference x = p \<and> wf_node params x"
  shows "wf_node params (split_node params p c i s r child)"
proof -
  have "wf_node params (unaryNode c (i + 1) NumBits (unarySnowflake_Initialize (BetaVirtuous params) zero_unarySnowball) False None)"
    if "i + 1 \<noteq> NumBits"
    using that assms by (auto simp: valid_params_def snowflake_defs zero_unarySnowball_def)
  with assms same_bits_sym [OF ids(4)] show ?thesis
    by (cases "id_bit p i")
      (auto simp: split_node_def Let_def wf_binary all_bool_eq valid_params_def unarySnowball_Extend_def finalized_defs
        simp del: wf_node.simps)
qed

lemma split_node_observe [simp]:
  assumes "\<not> u_finalized s"
  shows "node_DecidedPrefix (split_node params p c i s r child) = i"
    "node_Preference (split_node params p c i s r child) = p"
    "\<not> node_Finalized (split_node params p c i s r child)" "\<not> is_unary (split_node params p c i s r child)"
    "b_confidence (bn_snowball (split_node params p c i s r child)) = u_confidence s"
  using assms by (simp_all add: split_node_def Let_def binarySnowball_Preference_def unarySnowball_Extend_def finalized_defs)

definition add_keeps :: "Parameters \<Rightarrow> node \<Rightarrow> node \<Rightarrow> bool" where
  "add_keeps params n n' \<longleftrightarrow> wf_node params n' \<and> node_Preference n' = node_Preference n
    \<and> node_DecidedPrefix n' = node_DecidedPrefix n \<and> node_Finalized n' = node_Finalized n
    \<and> (\<not> is_unary n \<longrightarrow> \<not> is_unary n' \<and> bn_snowball n' = bn_snowball n)"

lemma add_keeps_split:
  assumes "valid_params params" "wf_node params (unaryNode p d e s r ch)" "\<not> u_finalized s"
    and "valid_ID c" "same_bits 0 d p c" "FirstDifferenceSubset d e p c = Some i"
  shows "add_keeps params (unaryNode p d e s r ch) (node_Add params c (unaryNode p d e s r ch))"
proof -
  have W: "valid_ID p" "d < e" "e \<le> NumBits" "u_beta s = BetaVirtuous params" "0 \<le> u_confidence s"
    "u_confidence s < BetaVirtuous params" "ch = None \<Longrightarrow> e = NumBits"
    "\<And>x. ch = Some x \<Longrightarrow> \<not> is_unary x \<and> node_DecidedPrefix x = e \<and> \<not> node_Finalized x \<and> node_Preference x = p
      \<and> b_confidence (bn_snowball x) \<le> u_confidence s \<and> wf_node params x"
    using assms(2,3) by auto
  have i: "d \<le> i" "i < e" "id_bit p i \<noteq> id_bit c i" "same_bits 0 i p c"
    using FirstDifferenceSubset_spec [OF W(2,3), of p c] assms(5,6) same_bits_join [OF assms(5)]
    by (auto simp: first_diff_def)
  have "i < NumBits" using i W by simp
  note wf_split = wf_split_node [OF assms(1) W(4-6) assms(3) W(1) assms(4) this i(4,3)]
  have last: "ch = None \<longleftrightarrow> e = NumBits" using W(7,8) wf_decided_less by (cases ch) fastforce+
  have upper: "wf_node params (unaryNode p (i + 1) e s r ch)" if "i + 1 < e"
    using that assms(2) by simp
  have split: "wf_node params (split_node params p c i s r ch)" if "i + 1 = e"
    by (rule wf_split) (use that last W(8) in auto)
  have split': "wf_node params (split_node params p c i s r (Some (unaryNode p (i + 1) e s r ch)))" if "i + 1 < e"
    by (rule wf_split) (use that upper W(3) in auto)
  show ?thesis
    using W(1-6) i split split' assms(3)
    by (auto simp: add_keeps_def node_Add_split [OF assms(6,3)] finalized_defs simp del: node_Add.simps)
qed

lemma wf_binary_replace:
  assumes "wf_node params (binaryNode ps i s rs cs)" "sel2 b cs = Some x"
    and "wf_node params x'" "i < node_DecidedPrefix x'" "node_Preference x' = sel2 b ps"
  shows "wf_node params (binaryNode ps i s rs (upd2 b (Some x') cs))"
  using assms by (cases b; cases cs) (simp_all add: wf_binary all_bool_eq upd2_def)

lemma add_keeps_Add:
  assumes "valid_params params" "valid_ID c"
  shows "wf_node params n \<Longrightarrow> same_bits 0 (node_DecidedPrefix n) (node_Preference n) c
    \<Longrightarrow> add_keeps params n (node_Add params c n)"
proof (induction n rule: node_induct)
  case (unary p d e s r ch)
  show ?case
  proof (cases "FirstDifferenceSubset d e p c")
    case None
    then have "same_bits d e p c" using FirstDifferenceSubset_spec [of d e p c] unary.prems by simp
    then have "same_bits 0 e p c" using unary.prems(2) same_bits_join [of 0 d p c e] by simp
    show ?thesis
    proof (cases ch)
      case None
      with \<open>FirstDifferenceSubset d e p c = None\<close> unary.prems(1) show ?thesis by (simp add: add_keeps_def)
    next
      case (Some x)
      with unary.prems(1) \<open>same_bits 0 e p c\<close> have "add_keeps params x (node_Add params c x)"
        by (intro unary.IH) simp_all
      with \<open>FirstDifferenceSubset d e p c = None\<close> Some unary.prems(1) show ?thesis
        by (auto simp: add_keeps_def finalized_defs)
    qed
  next
    case (Some i)
    show ?thesis
    proof (cases "u_finalized s")
      case True
      with unary.prems show ?thesis by (simp add: add_keeps_def finalized_defs)
    next
      case False
      with add_keeps_split [OF assms(1) unary.prems(1) False assms(2) _ Some] unary.prems(2) show ?thesis by simp
    qed
  qed
next
  case (binary ps i s rs cs)
  let ?b = "id_bit c i"
  note W = binary.prems(1) [unfolded wf_binary]
  show ?case
  proof (cases "sel2 ?b cs")
    case None
    with binary.prems(1) show ?thesis by (simp add: add_keeps_def)
  next
    case (Some x)
    with W have x: "i < node_DecidedPrefix x" "node_Preference x = sel2 ?b ps" "wf_node params x" by blast+
    have "same_bits 0 i (sel2 ?b ps) c"
      using same_bits_trans [OF wf_sides [OF binary.prems(1)] binary.prems(2) [simplified]] .
    then have "same_bits 0 (i + 1) (sel2 ?b ps) c" using W by (simp add: same_bits_Suc)
    then have "same_bits 0 (node_DecidedPrefix x) (node_Preference x) c"
      if "EqualSubset (i + 1) (node_DecidedPrefix x) (sel2 ?b ps) c"
      using that same_bits_join [of 0 "i + 1" _ _ "node_DecidedPrefix x"] x wf_decided_less [OF x(3)]
      by (simp add: EqualSubset_iff)
    with binary.IH [OF Some x(3)] have keeps: "add_keeps params x (node_Add params c x)"
      if "EqualSubset (i + 1) (node_DecidedPrefix x) (sel2 ?b ps) c" using that by blast
    show ?thesis
    proof (cases "EqualSubset (i + 1) (node_DecidedPrefix x) (sel2 ?b ps) c")
      case True
      have "wf_node params (binaryNode ps i s rs (upd2 ?b (Some (node_Add params c x)) cs))"
        by (rule wf_binary_replace [OF binary.prems(1) Some])
          (use x(1,2) keeps [OF True] in \<open>simp_all add: add_keeps_def\<close>)
      with True Some show ?thesis by (simp add: add_keeps_def)
    next
      case False
      with binary.prems(1) Some show ?thesis by (simp add: add_keeps_def)
    qed
  qed
qed

subsection \<open>Keeping votes for a choice\<close>

text \<open>\<open>backed c k n\<close>: the choice \<open>c\<close> is in the subtree and has not been decided against, and every
  instance on the path to it has had at least \<open>k\<close> successful polls in a row for it.\<close>

fun backed :: "ID \<Rightarrow> int \<Rightarrow> node \<Rightarrow> bool" where
  "backed c k (unaryNode preference decidedPrefix commonPrefix snowball _ child) \<longleftrightarrow>
     same_bits decidedPrefix commonPrefix preference c \<and> k \<le> u_confidence snowball
     \<and> pred_option (backed c k) child"
| "backed c k (binaryNode preferences bitIndex snowball _ (child0, child1)) \<longleftrightarrow>
     (if b_finalized snowball then bsl_preference snowball = id_bit c bitIndex
      else k \<le> b_confidence snowball \<and> (0 < k \<longrightarrow> bsl_preference snowball = id_bit c bitIndex))
     \<and> (if id_bit c bitIndex
        then pred_option (\<lambda>x. same_bits (bitIndex + 1) (node_DecidedPrefix x) (snd preferences) c \<and> backed c k x) child1
        else pred_option (\<lambda>x. same_bits (bitIndex + 1) (node_DecidedPrefix x) (fst preferences) c \<and> backed c k x) child0)"

lemma backed_binary:
  "backed c k (binaryNode ps i s rs cs) \<longleftrightarrow>
     (if b_finalized s then bsl_preference s = id_bit c i
      else k \<le> b_confidence s \<and> (0 < k \<longrightarrow> bsl_preference s = id_bit c i))
     \<and> (\<forall>x. sel2 (id_bit c i) cs = Some x \<longrightarrow>
          same_bits (i + 1) (node_DecidedPrefix x) (sel2 (id_bit c i) ps) c \<and> backed c k x)"
  by (cases cs) (auto simp: sel2_def pred_option_def)

declare backed.simps(2) [simp del]

lemma backed_flush: "backed c 0 n \<Longrightarrow> backed c 0 (flush r n)"
proof (induction n arbitrary: r rule: node_induct)
  case (unary preference decidedPrefix commonPrefix snowball shouldReset child)
  then show ?case by (cases child) auto
next
  case (binary preferences bitIndex snowball shouldReset children)
  let ?b = "id_bit c bitIndex"
  have "backed c 0 (flush r' x)" if "sel2 ?b children = Some x" for x r'
    using binary that by (simp add: backed_binary)
  with binary.prems show ?case
    by (auto simp: backed_binary flush_binary sel2_def split: if_splits)
qed

definition supports :: "Parameters \<Rightarrow> ID \<Rightarrow> ID Bag \<Rightarrow> bool" where
  "supports params c votes \<longleftrightarrow> bag_inv votes \<and> Len votes \<le> K params \<and> Alpha params \<le> Count votes c"

lemma supports_Filter: "supports params c votes \<Longrightarrow> f c \<Longrightarrow> supports params c (Filter f votes)"
  using bag.size_filter_le [of votes f]
  by (auto simp: supports_def bag_inv_Filter Count_Filter)

lemma supports_Len: "supports params c votes \<Longrightarrow> Alpha params \<le> Len votes"
  using Count_le_Len [of votes c] by (auto simp: supports_def)

lemma supports_winner:
  assumes "valid_params params" "supports params c votes"
  shows "winner params i votes = id_bit c i" "supports params c (votes_for i (id_bit c i) votes)"
proof -
  let ?f = "\<lambda>b id. (Bit id i = 1) = b"
  show s: "supports params c (votes_for i (id_bit c i) votes)"
    unfolding votes_for_def by (rule supports_Filter [OF assms(2)]) simp
  have "\<not> winner params i votes" if "\<not> id_bit c i"
    using bag.split_majority [of votes "Alpha params" "?f False"] supports_Len [OF s] that assms
    by (simp add: winner_def votes_for_def supports_def valid_params_def)
  then show "winner params i votes = id_bit c i"
    using supports_Len [OF s] by (auto simp: winner_def)
qed

lemma backed_poll:
  assumes "valid_params params" "0 \<le> k"
  shows "wf_node params n \<Longrightarrow> same_bits 0 (node_DecidedPrefix n) (node_Preference n) c \<Longrightarrow> backed c k n
    \<Longrightarrow> supports params c votes \<Longrightarrow> n' = fst (eager_RecordPoll params votes n)
    \<Longrightarrow> backed c (k + 1) n' \<and> same_bits 0 (node_DecidedPrefix n') (node_Preference n') c"
proof (induction n arbitrary: votes n' rule: node_induct)
  case (unary p d e s r ch)
  have len: "\<not> Len votes < Alpha params" using supports_Len [OF unary.prems(4)] by simp
  have de: "same_bits d e p c" "k \<le> u_confidence s" using unary.prems(3) by auto
  show ?case
  proof (cases ch)
    case None
    with unary.prems de len show ?thesis by (simp add: Let_def)
  next
    case (Some x)
    define x' where "x' = fst (eager_RecordPoll params votes x)"
    have x: "wf_node params x" "node_DecidedPrefix x = e" "node_Preference x = p" "d < e" "backed c k x"
      using unary.prems(1,3) Some by auto
    have "same_bits 0 e p c" using same_bits_join [of 0 d p c e] unary.prems(2) de by simp
    with unary.IH [OF Some x(1) _ x(5) unary.prems(4) x'_def] x
    have x': "backed c (k + 1) x'" "same_bits 0 (node_DecidedPrefix x') (node_Preference x') c" by auto
    have "e \<le> node_DecidedPrefix x'"
      using poll_keepsD(2) [OF poll_keeps_RecordPoll [OF assms(1) x(1), of votes]] x(2) by (simp add: x'_def)
    then have "same_bits 0 e (node_Preference x') c" using same_bits_mono [OF x'(2), of 0 e] by simp
    then have "same_bits d e (node_Preference x') c" "same_bits 0 d (node_Preference x') c"
      using same_bits_mono [of 0 e "node_Preference x'" c] x(4) by auto
    with unary.prems(5) Some len x' de show ?thesis by (simp add: Let_def flip: x'_def)
  qed
next
  case (binary ps i s rs cs)
  let ?b = "id_bit c i" and ?s = "binarySnowball_RecordSuccessfulPoll (id_bit c i) s"
  note w = supports_winner [OF assms(1) binary.prems(4), of i]
  have len: "\<not> Len (votes_for i ?b votes) < Alpha params" using supports_Len [OF w(2)] by simp
  have pre: "same_bits 0 i (sel2 d ps) c" for d
    using same_bits_trans [OF wf_sides [OF binary.prems(1)] binary.prems(2) [simplified]] .
  have conf: "if b_finalized ?s then bsl_preference ?s = ?b else k + 1 \<le> b_confidence ?s \<and> bsl_preference ?s = ?b"
    using binary.prems(3) assms(2) by (auto simp: backed_binary split: if_splits)
  show ?case
  proof (cases "sel2 ?b cs")
    case None
    with binary.prems(5) len conf pre show ?thesis
      by (simp add: eager_binary [OF w(1)] Let_def backed_binary del: binary_success)
  next
    case (Some x)
    define v where "v = Filter (EqualSubset (i + 1) (node_DecidedPrefix x) (sel2 ?b ps)) (votes_for i ?b votes)"
    define x' where "x' = fst (eager_RecordPoll params v x)"
    have x: "wf_node params x" "i < node_DecidedPrefix x" "node_Preference x = sel2 ?b ps"
      "same_bits (i + 1) (node_DecidedPrefix x) (sel2 ?b ps) c" "backed c k x" "id_bit (sel2 ?b ps) i = ?b"
      using binary.prems(1,3) Some by (auto simp: wf_binary backed_binary)
    have "same_bits 0 (node_DecidedPrefix x) (node_Preference x) c"
      using same_bits_join [of 0 "i + 1" _ _ "node_DecidedPrefix x"] pre [of ?b] x by (simp add: same_bits_Suc)
    moreover have "supports params c v"
      unfolding v_def by (rule supports_Filter [OF w(2)]) (use x(4) wf_decided_less [OF x(1)] in \<open>simp add: EqualSubset_iff\<close>)
    ultimately have x': "backed c (k + 1) x'" "same_bits 0 (node_DecidedPrefix x') (node_Preference x') c"
      using binary.IH [OF Some x(1) _ x(5) _ x'_def] by auto
    have "i < node_DecidedPrefix x'"
      using poll_keepsD(2) [OF poll_keeps_RecordPoll [OF assms(1) x(1), of v]] x(2) by (simp add: x'_def)
    then have "same_bits (i + 1) (node_DecidedPrefix x') (node_Preference x') c" "same_bits 0 i (node_Preference x') c"
      using same_bits_mono [OF x'(2)] by auto
    moreover have "n' = (if b_finalized ?s then x' else binaryNode (upd2 ?b (node_Preference x') ps) i ?s (False, False)
        (upd2 ?b (Some x') (upd2 (\<not> ?b) (map_option reset_all (sel2 (\<not> ?b) cs)) cs)))"
      using binary.prems(5) Some len by (simp add: eager_binary [OF w(1)] Let_def finalized_defs x'_def v_def del: binary_success)
    ultimately show ?thesis using x' conf pre by (auto simp: backed_binary simp del: binary_success)
  qed
qed

subsection \<open>Consensus instances\<close>

text \<open>The calls of the \<^verbatim>\<open>Consensus\<close> interface that change an instance. Its contract: a decision is final,
  and adding a choice does not change the preference.\<close>

datatype consensus_call = AddChoice ID | Poll "ID Bag" | UnsuccessfulPoll

fun valid_call :: "consensus_call \<Rightarrow> bool" where
  "valid_call (AddChoice c) = valid_ID c"
| "valid_call _ = True"

locale consensus_instance =
  fixes inv :: "'s \<Rightarrow> bool" and preference :: "'s \<Rightarrow> ID" and finalized :: "'s \<Rightarrow> bool"
    and add :: "ID \<Rightarrow> 's \<Rightarrow> 's" and poll :: "ID Bag \<Rightarrow> 's \<Rightarrow> 's" and unsuccessful :: "'s \<Rightarrow> 's"
  assumes add_law: "inv s \<Longrightarrow> valid_ID c \<Longrightarrow> inv (add c s) \<and> preference (add c s) = preference s
        \<and> finalized (add c s) = finalized s"
    and poll_inv: "inv s \<Longrightarrow> inv (poll votes s)"
    and poll_final: "inv s \<Longrightarrow> finalized s \<Longrightarrow> finalized (poll votes s) \<and> preference (poll votes s) = preference s"
    and unsuccessful_law: "inv s \<Longrightarrow> inv (unsuccessful s) \<and> finalized (unsuccessful s) = finalized s
        \<and> preference (unsuccessful s) = preference s"
begin

fun call :: "consensus_call \<Rightarrow> 's \<Rightarrow> 's" where
  "call (AddChoice c) = add c"
| "call (Poll votes) = poll votes"
| "call UnsuccessfulPoll = unsuccessful"

lemma calls_inv: "inv s \<Longrightarrow> list_all valid_call calls \<Longrightarrow> inv (fold call calls s)"
proof (induction calls arbitrary: s)
  case (Cons x calls)
  then show ?case by (cases x) (auto simp: add_law poll_inv unsuccessful_law)
qed simp

lemma calls_final:
  "inv s \<Longrightarrow> finalized s \<Longrightarrow> list_all valid_call calls
   \<Longrightarrow> finalized (fold call calls s) \<and> preference (fold call calls s) = preference s"
proof (induction calls arbitrary: s)
  case (Cons x calls)
  then show ?case by (cases x) (auto simp: add_law poll_inv poll_final unsuccessful_law)
qed simp

end

interpretation flat: consensus_instance "\<lambda>_. True" nnarySnowball_Preference nnarySnowflake_Finalized
  nnarySnowflake_Add "\<lambda>votes f. fst (Flat_RecordPoll votes f)" nnarySnowflake_RecordUnsuccessfulPoll
  by unfold_locales
    (auto simp: nnarySnowball_Preference_def Flat_RecordPoll_def snowflake_defs nnarySnowflake_Add_def Let_def
      split: prod.splits)

subsection \<open>Runs of the tree\<close>

definition tree_abs :: "Tree \<Rightarrow> node" where
  "tree_abs t = flush (tr_shouldReset t) (tr_node t)"

definition tree_inv :: "Tree \<Rightarrow> bool" where
  "tree_inv t \<longleftrightarrow> valid_params (tr_params t) \<and> lazy_ok (tr_node t) \<and> wf_node (tr_params t) (tree_abs t)"

fun tree_call :: "consensus_call \<Rightarrow> Tree \<Rightarrow> Tree" where
  "tree_call (AddChoice c) t = Tree_Add c t"
| "tree_call (Poll votes) t = fst (Tree_RecordPoll votes t)"
| "tree_call UnsuccessfulPoll t = Tree_RecordUnsuccessfulPoll t"

text \<open>The same calls on a tree that resets at once.\<close>

fun eager_call :: "Parameters \<Rightarrow> consensus_call \<Rightarrow> node \<Rightarrow> node" where
  "eager_call params (AddChoice c) n =
     (if EqualSubset 0 (node_DecidedPrefix n) (node_Preference n) c then node_Add params c n else n)"
| "eager_call params (Poll votes) n =
     fst (eager_RecordPoll params (Filter (EqualSubset 0 (node_DecidedPrefix n) (node_Preference n)) votes) n)"
| "eager_call params UnsuccessfulPoll n = reset_all n"

lemma tree_abs_observe [simp]:
  "node_Preference (tree_abs t) = Tree_Preference t" "node_Finalized (tree_abs t) = Tree_Finalized t"
  "node_DecidedPrefix (tree_abs t) = node_DecidedPrefix (tr_node t)"
  by (simp_all add: tree_abs_def Tree_Preference_def Tree_Finalized_def)

lemma tree_call_params [simp]: "tr_params (tree_call x t) = tr_params t"
  by (cases x) (simp_all add: Tree_Add_def Tree_RecordPoll_def Tree_RecordUnsuccessfulPoll_def case_prod_beta Let_def)

lemma lazy_ok_call: "lazy_ok (tr_node t) \<Longrightarrow> lazy_ok (tr_node (tree_call x t))"
  by (cases x) (simp_all add: Tree_Add_def Tree_RecordPoll_def Tree_RecordUnsuccessfulPoll_def case_prod_beta Let_def
      lazy_ok_Add lazy_ok_RecordPoll)

lemma tree_abs_call: "lazy_ok (tr_node t) \<Longrightarrow> tree_abs (tree_call x t) = eager_call (tr_params t) x (tree_abs t)"
  using flush_RecordPoll
  by (cases x) (simp_all add: Tree_Add_def Tree_RecordPoll_def Tree_RecordUnsuccessfulPoll_def case_prod_beta Let_def
      tree_abs_def Tree_Preference_def flush_Add)

lemma tree_abs_calls:
  "lazy_ok (tr_node t) \<Longrightarrow> lazy_ok (tr_node (fold tree_call calls t)) \<and> tr_params (fold tree_call calls t) = tr_params t
   \<and> tree_abs (fold tree_call calls t) = fold (eager_call (tr_params t)) calls (tree_abs t)"
  by (induction calls arbitrary: t) (simp_all add: lazy_ok_call tree_abs_call)

lemma eager_poll_final:
  assumes "wf_node params n" "node_Finalized n"
  shows "node_Finalized (fst (eager_RecordPoll params votes n))
    \<and> node_Preference (fst (eager_RecordPoll params votes n)) = node_Preference n"
proof (cases n)
  case (unaryNode p d e s r ch)
  with assms show ?thesis by (cases ch) (auto simp: Let_def finalized_defs)
next
  case (binaryNode ps i s rs cs)
  obtain b where w: "winner params i votes = b" by blast
  from assms binaryNode have "sel2 b cs = None" "b_finalized s"
    by (cases "sel2 b cs"; auto simp: wf_binary finalized_defs)+
  with binaryNode show ?thesis
    by (simp add: eager_binary [OF w] Let_def binarySnowball_Preference_def finalized_defs
        binarySlush_Preference_def reset_all_binary)
qed

lemma wf_call:
  assumes "valid_params params" "wf_node params n" "valid_call x"
  shows "wf_node params (eager_call params x n)"
proof (cases x)
  case (AddChoice c)
  with assms add_keeps_Add [OF assms(1) _ assms(2), of c] wf_decided_less [OF assms(2)] show ?thesis
    by (simp add: add_keeps_def EqualSubset_iff)
next
  case (Poll votes)
  with assms(2) poll_keepsD(1) [OF poll_keeps_RecordPoll [OF assms(1,2)]] show ?thesis by simp
next
  case UnsuccessfulPoll
  with assms wf_reset_all show ?thesis by simp
qed

lemma tree_inv_call: "tree_inv t \<Longrightarrow> valid_call x \<Longrightarrow> tree_inv (tree_call x t)"
  by (simp add: tree_inv_def tree_abs_call lazy_ok_call wf_call)

lemma tree_observe_call:
  assumes "lazy_ok (tr_node t)"
  shows "Tree_Preference (tree_call x t) = node_Preference (eager_call (tr_params t) x (tree_abs t))"
    "Tree_Finalized (tree_call x t) = node_Finalized (eager_call (tr_params t) x (tree_abs t))"
  by (simp_all flip: tree_abs_call [OF assms])

lemma tree_Add_law:
  assumes "tree_inv t" "valid_ID c"
  shows "Tree_Preference (Tree_Add c t) = Tree_Preference t \<and> Tree_Finalized (Tree_Add c t) = Tree_Finalized t"
proof -
  have t: "valid_params (tr_params t)" "wf_node (tr_params t) (tree_abs t)" "lazy_ok (tr_node t)"
    using assms(1) by (auto simp: tree_inv_def)
  have "add_keeps (tr_params t) (tree_abs t) (node_Add (tr_params t) c (tree_abs t))"
    if "EqualSubset 0 (node_DecidedPrefix (tr_node t)) (Tree_Preference t) c"
    using add_keeps_Add [OF t(1) assms(2) t(2)] that wf_decided_less [OF t(2)] by (simp add: EqualSubset_iff)
  then show ?thesis
    using tree_observe_call [OF t(3), of "AddChoice c"] by (auto simp: add_keeps_def split: if_splits)
qed

interpretation tree: consensus_instance tree_inv Tree_Preference Tree_Finalized Tree_Add
  "\<lambda>votes t. fst (Tree_RecordPoll votes t)" Tree_RecordUnsuccessfulPoll
proof unfold_locales
  fix t c assume "tree_inv t" "valid_ID c"
  then show "tree_inv (Tree_Add c t) \<and> Tree_Preference (Tree_Add c t) = Tree_Preference t
      \<and> Tree_Finalized (Tree_Add c t) = Tree_Finalized t"
    using tree_inv_call [of t "AddChoice c"] tree_Add_law by simp
next
  fix t votes assume t: "tree_inv t"
  then show "tree_inv (fst (Tree_RecordPoll votes t))" using tree_inv_call [of t "Poll votes"] by simp
  assume "Tree_Finalized t"
  with t show "Tree_Finalized (fst (Tree_RecordPoll votes t))
      \<and> Tree_Preference (fst (Tree_RecordPoll votes t)) = Tree_Preference t"
    using tree_observe_call [of t "Poll votes"] eager_poll_final [of "tr_params t" "tree_abs t"]
    by (simp add: tree_inv_def)
next
  fix t assume "tree_inv t"
  then show "tree_inv (Tree_RecordUnsuccessfulPoll t) \<and> Tree_Finalized (Tree_RecordUnsuccessfulPoll t) = Tree_Finalized t
      \<and> Tree_Preference (Tree_RecordUnsuccessfulPoll t) = Tree_Preference t"
    using tree_inv_call [of t UnsuccessfulPoll] by (simp add: Tree_RecordUnsuccessfulPoll_def Tree_Preference_def Tree_Finalized_def)
qed

lemma tree_call_eq: "tree.call = tree_call"
proof (rule ext)+
  show "tree.call x t = tree_call x t" for x t by (cases x) simp_all
qed

subsection \<open>Preferences are choices that were added\<close>

fun held :: "node \<Rightarrow> ID set" where
  "held (unaryNode preference _ _ _ _ child) = insert preference (\<Union> (held ` set_option child))"
| "held (binaryNode preferences _ _ _ (child0, child1)) =
     {fst preferences, snd preferences} \<union> \<Union> (held ` set_option child0) \<union> \<Union> (held ` set_option child1)"

lemma held_binary:
  "c \<in> held (binaryNode ps i s rs cs) \<longleftrightarrow> (\<exists>b. c = sel2 b ps \<or> (\<exists>x. sel2 b cs = Some x \<and> c \<in> held x))"
  by (cases cs) (auto simp: ex_bool_eq sel2_def)

declare held.simps(2) [simp del]

lemma Preference_held: "node_Preference n \<in> held n"
  by (cases n) (auto simp: held_binary)

lemma held_reset_all [simp]: "held (reset_all n) = held n"
proof (induction n rule: node_induct)
  case (unary preference decidedPrefix commonPrefix snowball shouldReset child)
  then show ?case by (cases child) auto
next
  case (binary ps i s rs cs)
  then have "(\<exists>x. map_option reset_all (sel2 b cs) = Some x \<and> c \<in> held x) \<longleftrightarrow> (\<exists>x. sel2 b cs = Some x \<and> c \<in> held x)" for b c
    by (cases "sel2 b cs") auto
  then show ?case by (auto simp: held_binary reset_all_binary)
qed

lemma held_binaryI:
  "(\<And>d. sel2 d ps \<in> H) \<Longrightarrow> (\<And>d x. sel2 d cs = Some x \<Longrightarrow> held x \<subseteq> H) \<Longrightarrow> held (binaryNode ps i s rs cs) \<subseteq> H"
  unfolding subset_iff held_binary by blast

lemma held_binaryD:
  "sel2 d ps \<in> held (binaryNode ps i s rs cs)" "sel2 d cs = Some x \<Longrightarrow> held x \<subseteq> held (binaryNode ps i s rs cs)"
  unfolding subset_iff held_binary by blast+

lemma held_poll: "held (fst (eager_RecordPoll params votes n)) \<subseteq> held n"
proof (induction n arbitrary: votes rule: node_induct)
  case (unary p d e s r ch)
  show ?case
  proof (cases ch)
    case None
    then show ?thesis by (simp add: Let_def)
  next
    case (Some x)
    with unary.IH [OF Some, of votes] Preference_held [of "fst (eager_RecordPoll params votes x)"] show ?thesis
      by (auto simp: Let_def)
  qed
next
  case (binary ps i s rs cs)
  obtain b where w: "winner params i votes = b" by blast
  let ?cs = "upd2 (\<not> b) (map_option reset_all (sel2 (\<not> b) cs)) cs" and ?H = "held (binaryNode ps i s rs cs)"
  have other: "held x \<subseteq> ?H" if "sel2 d ?cs = Some x" for d x
  proof -
    have "\<exists>y. sel2 d cs = Some y \<and> held x = held y" using that by (cases "d = (\<not> b)") auto
    then show ?thesis using held_binaryD(2) by metis
  qed
  show ?case
  proof (cases "sel2 b cs")
    case None
    have "held (binaryNode ps i s' rs' ?cs) \<subseteq> ?H" for s' rs'
      by (rule held_binaryI [OF held_binaryD(1) other])
    with None show ?thesis by (simp add: eager_binary [OF w] Let_def)
  next
    case (Some x)
    define x' where "x' = fst (eager_RecordPoll params (Filter (EqualSubset (i + 1) (node_DecidedPrefix x) (sel2 b ps)) (votes_for i b votes)) x)"
    have x': "held x' \<subseteq> ?H" using binary.IH [OF Some] held_binaryD(2) [OF Some] unfolding x'_def by blast
    then have "held (binaryNode (upd2 b (node_Preference x') ps) i s' rs' (upd2 b (Some x') ?cs)) \<subseteq> ?H" for s' rs'
      using Preference_held [of x']
      by (intro held_binaryI) (auto split: if_splits intro: held_binaryD(1) held_binaryD(2) [THEN subsetD])
    with x' Some show ?thesis by (simp add: eager_binary [OF w] Let_def x'_def)
  qed
qed

lemma held_Add: "held (node_Add params c n) \<subseteq> insert c (held n)"
proof (induction n rule: node_induct)
  case (unary p d e s r ch)
  show ?case
  proof (cases "FirstDifferenceSubset d e p c")
    case None
    with unary show ?thesis by (cases ch) auto
  next
    case (Some i)
    have split: "held (split_node params p c i s r x) \<subseteq> insert c (insert p (\<Union> (held ` set_option x)))" for x
      unfolding split_node_def Let_def by (intro held_binaryI) (auto split: if_splits)
    show ?thesis
    proof (cases "u_finalized s")
      case True
      then show ?thesis by (auto simp: finalized_defs)
    next
      case False
      with split [of ch] split [of "Some (unaryNode p (d + 1) e s r ch)"] split [of "Some (unaryNode p (i + 1) e s r ch)"]
      show ?thesis by (simp add: node_Add_split [OF Some] del: node_Add.simps) auto
    qed
  qed
next
  case (binary ps i s rs cs)
  show ?case
  proof (cases "sel2 (id_bit c i) cs")
    case None
    then show ?thesis by auto
  next
    case (Some x)
    with binary.IH [OF Some] have "held (node_Add params c x) \<subseteq> insert c (held (binaryNode ps i s rs cs))"
      using held_binaryD(2) [OF Some] by blast
    then have "held (binaryNode ps i s rs (upd2 (id_bit c i) (Some (node_Add params c x)) cs)) \<subseteq> insert c (held (binaryNode ps i s rs cs))"
      by (intro held_binaryI) (auto split: if_splits intro: held_binaryD(1) held_binaryD(2) [THEN subsetD])
    with Some show ?thesis by (auto simp: Let_def)
  qed
qed

lemma held_calls: "held (fold (eager_call params) calls n) \<subseteq> held n \<union> {c. AddChoice c \<in> set calls}"
proof (induction calls arbitrary: n)
  case (Cons x calls)
  have "held (eager_call params x n) \<subseteq> held n \<union> {c. AddChoice c = x}"
    using held_poll held_Add by (cases x) auto
  with Cons.IH [of "eager_call params x n"] show ?case by auto
qed simp

subsection \<open>Properties\<close>

lemma Initialize_node [simp]:
  "tr_params (Tree_Initialize p c) = p" "tree_abs (Tree_Initialize p c) = tr_node (Tree_Initialize p c)"
  "lazy_ok (tr_node (Tree_Initialize p c))" "held (tr_node (Tree_Initialize p c)) = {c}"
  by (simp_all add: Tree_Initialize_def Let_def tree_abs_def)

lemma tree_inv_Initialize: "valid_params p \<Longrightarrow> valid_ID c \<Longrightarrow> tree_inv (Tree_Initialize p c)"
  by (simp add: tree_inv_def) (simp add: Tree_Initialize_def Let_def valid_params_def snowflake_defs zero_unarySnowball_def NumBits_def)

lemma tree_inv_calls:
  assumes "Verify p = None" "valid_ID c0" "list_all valid_call calls"
  shows "tree_inv (fold tree_call calls (Tree_Initialize p c0))"
  using tree.calls_inv [OF tree_inv_Initialize [OF valid_params_Verify [OF assms(1)] assms(2)] assms(3)] by (simp add: tree_call_eq)

text \<open>Two choices that differ in the first bit, for concrete runs.\<close>

definition sample_id :: "u8 \<Rightarrow> ID" where
  "sample_id x = x # replicate 31 0"

definition sample_tree :: Tree where
  "sample_tree = fold tree_call [AddChoice (sample_id 1), Poll (Of [sample_id 0, sample_id 0])]
     (Tree_Initialize sample_params (sample_id 0))"

lemma valid_sample_id [simp]: "valid_ID (sample_id x)"
  by (simp add: valid_ID_def sample_id_def IDLen_def)

lemma same_bits_code [code]:
  "same_bits lo hi x y \<longleftrightarrow>
     (if hi \<le> NumBits then EqualSubset lo hi x y else list_all (\<lambda>i. id_bit x i = id_bit y i) [lo..<hi])"
  by (simp add: EqualSubset_iff) (auto simp: same_bits_def list_all_iff)

lemma pred_option_code [code]: "pred_option P None \<longleftrightarrow> True" "pred_option P (Some x) \<longleftrightarrow> P x"
  by simp_all

lemma valid_sample_calls [simp]:
  "list_all valid_call [AddChoice (sample_id 1), Poll (Of [sample_id 0, sample_id 0])]"
  by simp

text \<open>(C6) Delayed resets are invisible: after any calls, the tree with \<^verbatim>\<open>shouldReset\<close> flags has the preference
  and the decision of the tree that resets a subtree as soon as its root gets no alpha majority, and
  reports the same outcome for the next poll.\<close>

theorem tree_lazy_reset:
  "let t = fold tree_call calls (Tree_Initialize p c0);
       n = fold (eager_call p) calls (tr_node (Tree_Initialize p c0))
   in Tree_Preference t = node_Preference n \<and> Tree_Finalized t = node_Finalized n
     \<and> snd (Tree_RecordPoll votes t) =
         snd (eager_RecordPoll p (Filter (EqualSubset 0 (node_DecidedPrefix n) (node_Preference n)) votes) n)"
proof -
  define t where "t = fold tree_call calls (Tree_Initialize p c0)"
  define n where "n = fold (eager_call p) calls (tr_node (Tree_Initialize p c0))"
  have a: "tree_abs t = n" "tr_params t = p"
    using tree_abs_calls [of "Tree_Initialize p c0" calls] by (simp_all add: t_def n_def)
  have "snd (Tree_RecordPoll votes t)
      = snd (node_RecordPoll p (Filter (EqualSubset 0 (node_DecidedPrefix n) (node_Preference n)) votes) (tr_shouldReset t) (tr_node t))"
    using a by (auto simp: Tree_RecordPoll_def Let_def case_prod_beta)
  also have "\<dots> = snd (eager_RecordPoll p (Filter (EqualSubset 0 (node_DecidedPrefix n) (node_Preference n)) votes) n)"
    using flush_RecordPoll [of p _ "tr_shouldReset t" "tr_node t"] a(1) by (simp add: tree_abs_def)
  finally show ?thesis
    unfolding Let_def t_def [symmetric] n_def [symmetric] by (simp flip: a(1))
qed

text \<open>Reachable trees are well formed: with valid parameters, after any calls with 32 byte choices,
  every unary node with a child is undecided, ends at the bit of its child and is at least as confident
  as it, once the pending resets are carried out. This is the guarantee
  \<^verbatim>\<open>unaryNode.RecordPoll\<close> relies on when it passes all its votes to the child.\<close>

theorem tree_well_formed:
  assumes "Verify p = None" "valid_ID c0" "list_all valid_call calls"
    and "t = fold tree_call calls (Tree_Initialize p c0)"
  shows "wf_node p (flush (tr_shouldReset t) (tr_node t)) \<and> lazy_ok (tr_node t)"
  using tree_inv_calls [OF assms(1-3)] tree_abs_calls [of "Tree_Initialize p c0" calls] assms(4)
  by (simp add: tree_inv_def) (simp add: tree_abs_def)

theorem tree_well_formed_witness:
  "Verify sample_params = None \<and> wf_node sample_params (flush (tr_shouldReset sample_tree) (tr_node sample_tree))"
  using tree_well_formed [OF Verify_sample_params valid_sample_id valid_sample_calls sample_tree_def] by simp

text \<open>(C18) A decision is final: once the tree, or the flat instance, is finalized, no sequence of later calls
  changes that or the preference.\<close>

theorem consensus_decision_final:
  assumes "Verify p = None" "valid_ID c0" "list_all valid_call calls" "list_all valid_call later"
    and "t = fold tree_call calls (Tree_Initialize p c0)" "Tree_Finalized t"
    and "nnarySnowflake_Finalized f"
  shows "Tree_Finalized (fold tree_call later t) \<and> Tree_Preference (fold tree_call later t) = Tree_Preference t
    \<and> nnarySnowflake_Finalized (fold flat.call later f)
    \<and> nnarySnowball_Preference (fold flat.call later f) = nnarySnowball_Preference f"
proof -
  have "tree_inv t" using tree_inv_calls [OF assms(1-3)] assms(5) by simp
  from tree.calls_final [OF this assms(6,4)] flat.calls_final [OF TrueI assms(7,4)] show ?thesis
    by (simp add: tree_call_eq)
qed

theorem consensus_decision_final_witness:
  "Tree_Finalized (fold tree_call [Poll (Of [sample_id 0, sample_id 0])] sample_tree)
   \<and> Tree_Preference (fold tree_call [AddChoice (sample_id 2), UnsuccessfulPoll]
       (fold tree_call [Poll (Of [sample_id 0, sample_id 0])] sample_tree)) = sample_id 0"
proof -
  let ?calls = "[AddChoice (sample_id 1), Poll (Of [sample_id 0, sample_id 0]), Poll (Of [sample_id 0, sample_id 0])]"
  let ?t = "fold tree_call [Poll (Of [sample_id 0, sample_id 0])] sample_tree"
  let ?f = "zero_Flat\<lparr>n_finalized := True\<rparr>"
  have t: "?t = fold tree_call ?calls (Tree_Initialize sample_params (sample_id 0))" by (simp add: sample_tree_def)
  have fin: "Tree_Finalized ?t" "Tree_Preference ?t = sample_id 0" by code_simp+
  have "nnarySnowflake_Finalized ?f" by (simp add: nnarySnowflake_Finalized_def)
  from consensus_decision_final [OF Verify_sample_params valid_sample_id _ _ t fin(1) this,
      of "[AddChoice (sample_id 2), UnsuccessfulPoll]"] fin
  show ?thesis by simp
qed

text \<open>(C22) The tree prefers only choices it was given: after any calls the preference is the initial choice
  or one that was added, whatever the votes were for.\<close>

theorem tree_prefers_added:
  "Tree_Preference (fold tree_call calls (Tree_Initialize p c0)) \<in> insert c0 {c. AddChoice c \<in> set calls}"
proof -
  let ?t = "fold tree_call calls (Tree_Initialize p c0)"
  have "Tree_Preference ?t \<in> held (tree_abs ?t)" using Preference_held [of "tree_abs ?t"] by simp
  then show ?thesis
    using tree_abs_calls [of "Tree_Initialize p c0" calls] held_calls [of p calls "tr_node (Tree_Initialize p c0)"]
    by auto
qed

lemma backed_polls:
  assumes "tree_inv t" "0 \<le> k" "\<forall>v \<in> set vs. supports (tr_params t) c v"
    and "same_bits 0 (node_DecidedPrefix (tr_node t)) (Tree_Preference t) c" "backed c k (tree_abs t)"
    and "t' = fold tree_call (map Poll vs) t"
  shows "tree_inv t' \<and> tr_params t' = tr_params t \<and> same_bits 0 (node_DecidedPrefix (tr_node t')) (Tree_Preference t') c
    \<and> backed c (k + int (length vs)) (tree_abs t')"
  using assms
proof (induction vs arbitrary: t k)
  case (Cons v vs)
  let ?u = "tree_call (Poll v) t" and ?f = "EqualSubset 0 (node_DecidedPrefix (tr_node t)) (Tree_Preference t)"
  have t: "valid_params (tr_params t)" "wf_node (tr_params t) (tree_abs t)" "lazy_ok (tr_node t)"
    using Cons.prems(1) by (auto simp: tree_inv_def)
  have "?f c" using Cons.prems(4) wf_decided_less [OF t(2)] by (simp add: EqualSubset_iff)
  then have "supports (tr_params t) c (Filter ?f v)" using Cons.prems(3) by (simp add: supports_Filter)
  from backed_poll [OF t(1) Cons.prems(2) t(2) _ Cons.prems(5) this refl] Cons.prems(4) tree_abs_call [OF t(3), of "Poll v"]
  have u: "backed c (k + 1) (tree_abs ?u)"
    "same_bits 0 (node_DecidedPrefix (tr_node ?u)) (Tree_Preference ?u) c"
    unfolding tree_abs_observe(1,3) [symmetric] by auto
  have "tree_inv ?u" using tree_inv_call [OF Cons.prems(1), of "Poll v"] by simp
  from Cons.IH [OF this _ _ u(2,1)] Cons.prems(2,3,6) tree_call_params [of "Poll v" t] show ?case
    by (simp add: add.assoc)
qed simp

lemma backed_decided:
  assumes "valid_params params" "wf_node params n" "backed c k n" "BetaRogue params \<le> k" "valid_ID c"
    and "same_bits 0 (node_DecidedPrefix n) (node_Preference n) c"
  shows "node_Finalized n \<and> node_Preference n = c"
proof (cases n)
  case (unaryNode p d e s r ch)
  with assms have "ch = None" "u_finalized s" by (cases ch; auto simp: valid_params_def)+
  moreover have "same_bits 0 NumBits p c"
    using same_bits_join [of 0 d p c NumBits] assms(2,3,6) unaryNode \<open>ch = None\<close> by simp
  ultimately show ?thesis
    using assms(2,5) unaryNode same_bits_all_iff_eq by (auto simp: finalized_defs)
next
  case (binaryNode ps i s rs cs)
  let ?b = "id_bit c i"
  have W: "b_finalized s \<or> b_confidence s < BetaRogue params" "valid_ID (sel2 ?b ps)" "id_bit (sel2 ?b ps) i = ?b"
    "\<And>x. sel2 ?b cs = Some x \<Longrightarrow> \<not> b_finalized s" "sel2 ?b cs = None \<longleftrightarrow> i + 1 = NumBits"
    using assms(2) unfolding binaryNode wf_binary by blast+
  have b: "if b_finalized s then bsl_preference s = ?b else k \<le> b_confidence s"
    using assms(3) unfolding binaryNode backed_binary by (auto split: if_splits)
  with W(1) assms(4) have f: "b_finalized s" "bsl_preference s = ?b" by (auto split: if_splits)
  with W(4,5) have "i + 1 = NumBits" by (cases "sel2 ?b cs") auto
  moreover have pref: "node_Preference n = sel2 ?b ps"
    using f binaryNode by (simp add: binarySnowball_Preference_def finalized_defs binarySlush_Preference_def)
  moreover have "same_bits 0 (i + 1) (sel2 ?b ps) c"
    using assms(6) pref W(3) binaryNode by (simp add: same_bits_Suc)
  ultimately show ?thesis
    using W(2) assms(5) f binaryNode same_bits_all_iff_eq by (auto simp: finalized_defs)
qed

text \<open>(C4) The tree decides: if a choice is in the tree and not decided against, then as many consecutive
  polls as the rogue beta, each of at most \<open>k\<close> votes with at least alpha for that choice, finalize the
  tree on it, whatever happened before and however the other votes are spread.\<close>

theorem tree_decides:
  assumes "Verify p = None" "valid_ID c0" "list_all valid_call calls"
    and "t = fold tree_call calls (Tree_Initialize p c0)"
    and "valid_ID c" "EqualSubset 0 (node_DecidedPrefix (tr_node t)) (Tree_Preference t) c" "backed c 0 (tr_node t)"
    and "length vs = nat (BetaRogue p)" "\<forall>v \<in> set vs. supports p c v"
  shows "Tree_Finalized (fold tree_call (map Poll vs) t) \<and> Tree_Preference (fold tree_call (map Poll vs) t) = c"
proof -
  have t: "tree_inv t" "tr_params t = p"
    using tree_inv_calls [OF assms(1-3)] tree_abs_calls [of "Tree_Initialize p c0" calls] assms(4) by simp_all
  have p: "valid_params p" by (rule valid_params_Verify [OF assms(1)])
  have "same_bits 0 (node_DecidedPrefix (tr_node t)) (Tree_Preference t) c"
    using assms(6) t wf_decided_less [of p "tree_abs t"] by (simp add: tree_inv_def EqualSubset_iff)
  from backed_polls [OF t(1) _ _ this _ refl, of 0 vs] assms(9) backed_flush [OF assms(7)] t(2)
  have "tree_inv (fold tree_call (map Poll vs) t)" "tr_params (fold tree_call (map Poll vs) t) = p"
    "same_bits 0 (node_DecidedPrefix (tr_node (fold tree_call (map Poll vs) t))) (Tree_Preference (fold tree_call (map Poll vs) t)) c"
    "backed c (int (length vs)) (tree_abs (fold tree_call (map Poll vs) t))"
    by (auto simp: tree_abs_def)
  with backed_decided [OF p, of "tree_abs (fold tree_call (map Poll vs) t)" c "int (length vs)"] assms(5,8) p show ?thesis
    by (simp add: tree_inv_def valid_params_def)
qed

theorem tree_decides_witness:
  "Tree_Preference sample_tree = sample_id 0 \<and>
   Tree_Preference (fold tree_call (map Poll [Of [sample_id 1, sample_id 1], Of [sample_id 1, sample_id 1]]) sample_tree)
     = sample_id 1"
proof -
  have pref: "Tree_Preference sample_tree = sample_id 0" by code_simp
  have eq: "EqualSubset 0 (node_DecidedPrefix (tr_node sample_tree)) (Tree_Preference sample_tree) (sample_id 1)" by code_simp
  have bk: "backed (sample_id 1) 0 (tr_node sample_tree)" by code_simp
  have sup: "supports sample_params (sample_id 1) (Of [sample_id 1, sample_id 1])"
    unfolding supports_def using bag_inv_Of by (intro conjI) (auto, code_simp+)
  show ?thesis
    using pref tree_decides [OF Verify_sample_params valid_sample_id _ sample_tree_def valid_sample_id eq bk,
        of "[Of [sample_id 1, sample_id 1], Of [sample_id 1, sample_id 1]]"] sup
    by (simp add: sample_params_def)
qed

end
