(* ===== verification/Topological.thy ===== *)
theory Topological
  imports Tree_Correct
begin

text \<open>
  Chain consensus: \<^verbatim>\<open>snow/consensus/snowman/topological.go\<close> and \<^verbatim>\<open>snowman_block.go\<close>. The undecided blocks form a
  tree below the last accepted block (the head); each block with children has a consensus tree that
  decides between them. A poll pushes the votes for blocks towards the head, records a poll at every
  block with alpha votes below it, accepts the decided child of the head, and rejects its siblings with
  all their descendants.

  A block is an interface the VM implements: its identity, parent and height do not change, and are a
  record here; its status changes only by \<^verbatim>\<open>Accept\<close> and \<^verbatim>\<open>Reject\<close>, and is kept per block identifier next to
  the fields of the struct. \<^verbatim>\<open>Accept\<close>, \<^verbatim>\<open>Reject\<close> and the block acceptor may return an error; which calls do is
  a parameter, as is the element \<^verbatim>\<open>Set.Pop\<close> takes. The calls out of the component are recorded as
  events, in order. Metrics and logs are left out. The children of a block are visited in the order in which they were
  added; Go visits them in any order, on which what is shown of the blocks does not depend.

  A nil dereference is an error value. The loops over the ancestors and down the preferred branch get as
  much fuel as there are blocks: a loop that takes more steps has met a block twice and does not end,
  which is the error \<open>Diverges\<close>.
\<close>

subsection \<open>Blocks\<close>

datatype Status = Unknown | Processing | Rejected | Accepted

fun Status_Decided :: "Status \<Rightarrow> bool" where
  "Status_Decided Rejected = True"
| "Status_Decided Accepted = True"
| "Status_Decided _ = False"

fun Status_Fetched :: "Status \<Rightarrow> bool" where
  "Status_Fetched Processing = True"
| "Status_Fetched s = Status_Decided s"

record Block =
  blk_ID :: ID
  blk_Parent :: ID
  blk_Height :: u64

record snowmanBlock =
  sn_params :: Parameters
  sn_blk :: "Block option"
  sn_shouldFalter :: bool
  sn_sb :: "Tree option"
  sn_children :: "(ID, Block) gomap"

definition AddChild :: "Block \<Rightarrow> snowmanBlock \<Rightarrow> snowmanBlock" where
  "AddChild child n =
     (let childID = blk_ID child;
          n = (case sn_sb n of
                 None \<Rightarrow> n\<lparr>sn_sb := Some (Tree_Initialize (sn_params n) childID), sn_children := []\<rparr>
               | Some sb \<Rightarrow> n\<lparr>sn_sb := Some (Tree_Add childID sb)\<rparr>)
      in n\<lparr>sn_children := AList.update childID child (sn_children n)\<rparr>)"

definition sn_Accepted :: "(ID \<Rightarrow> Status) \<Rightarrow> snowmanBlock \<Rightarrow> bool" where
  "sn_Accepted statuses n = (case sn_blk n of None \<Rightarrow> True | Some blk \<Rightarrow> statuses (blk_ID blk) = Accepted)"

text \<open>The block of a node that is not accepted.\<close>

definition pending :: "(ID \<Rightarrow> Status) \<Rightarrow> snowmanBlock \<Rightarrow> Block option" where
  "pending statuses n = (if sn_Accepted statuses n then None else sn_blk n)"

subsection \<open>The state\<close>

record kahnNode =
  inDegree :: int
  kn_votes :: "ID Bag"

definition zero_kahnNode :: kahnNode where
  "zero_kahnNode = \<lparr>inDegree = 0, kn_votes = empty_Bag\<rparr>"

datatype ts_event = NotifiedAcceptor Block | AcceptedBlock Block | RejectedBlock Block

record Topological =
  pollNumber :: u64
  ts_params :: Parameters
  ts_head :: ID
  ts_height :: u64
  ts_blocks :: "(ID, snowmanBlock) gomap"
  preferredIDs :: "ID set"
  ts_tail :: ID
  leaves :: "ID list"
  kahnNodes :: "(ID, kahnNode) gomap"
  statuses :: "ID \<Rightarrow> Status"
  events :: "ts_event list"

datatype ts_error =
    ParametersError ErrParametersInvalid | errDuplicateAdd | AcceptorError Block | AcceptError Block
  | RejectError Block | NilDereference | Diverges

record VM =
  acceptor_fails :: "Block \<Rightarrow> bool"
  accept_fails :: "Block \<Rightarrow> bool"
  reject_fails :: "Block \<Rightarrow> bool"

definition ts_Initialize :: "Parameters \<Rightarrow> ID \<Rightarrow> u64 \<Rightarrow> (ID \<Rightarrow> Status) \<Rightarrow> ts_error + Topological" where
  "ts_Initialize params rootID rootHeight vmStatuses =
     (case Verify params of
        Some e \<Rightarrow> Inl (ParametersError e)
      | None \<Rightarrow> Inr \<lparr>pollNumber = 0, ts_params = params, ts_head = rootID, ts_height = rootHeight,
          ts_blocks = [(rootID, \<lparr>sn_params = params, sn_blk = None, sn_shouldFalter = False, sn_sb = None, sn_children = []\<rparr>)],
          preferredIDs = {}, ts_tail = rootID, leaves = [], kahnNodes = [],
          statuses = vmStatuses, events = []\<rparr>)"

definition NumProcessing :: "Topological \<Rightarrow> int" where
  "NumProcessing ts = int (length (ts_blocks ts)) - 1"

definition ts_Decided :: "Topological \<Rightarrow> Block \<Rightarrow> bool" where
  "ts_Decided ts blk \<longleftrightarrow>
     Status_Decided (statuses ts (blk_ID blk))
     \<or> statuses ts (blk_ID blk) = Processing \<and> blk_Height blk \<le> ts_height ts"

definition ts_Processing :: "Topological \<Rightarrow> ID \<Rightarrow> bool" where
  "ts_Processing ts blkID \<longleftrightarrow> blkID \<noteq> ts_head ts \<and> map_of (ts_blocks ts) blkID \<noteq> None"

definition IsPreferred :: "Topological \<Rightarrow> Block \<Rightarrow> bool" where
  "IsPreferred ts blk \<longleftrightarrow> statuses ts (blk_ID blk) = Accepted \<or> blk_ID blk \<in> preferredIDs ts"

definition LastAccepted :: "Topological \<Rightarrow> ID" where
  "LastAccepted ts = ts_head ts"

definition ts_Preference :: "Topological \<Rightarrow> ID" where
  "ts_Preference ts = ts_tail ts"

definition ts_Finalized :: "Topological \<Rightarrow> bool" where
  "ts_Finalized ts \<longleftrightarrow> length (ts_blocks ts) = 1"

text \<open>The calls to the VM.\<close>

definition Reject_blk :: "VM \<Rightarrow> Block \<Rightarrow> Topological \<Rightarrow> ts_error + Topological" where
  "Reject_blk vm blk ts =
     (if reject_fails vm blk then Inl (RejectError blk)
      else Inr (ts\<lparr>statuses := (statuses ts)(blk_ID blk := Rejected), events := events ts @ [RejectedBlock blk]\<rparr>))"

definition Accept_blk :: "VM \<Rightarrow> Block \<Rightarrow> Topological \<Rightarrow> ts_error + Topological" where
  "Accept_blk vm blk ts =
     (if acceptor_fails vm blk then Inl (AcceptorError blk)
      else if accept_fails vm blk then Inl (AcceptError blk)
      else Inr (ts\<lparr>statuses := (statuses ts)(blk_ID blk := Accepted),
                 events := events ts @ [NotifiedAcceptor blk, AcceptedBlock blk]\<rparr>))"

subsection \<open>Adding a block\<close>

definition ts_Add :: "VM \<Rightarrow> Block \<Rightarrow> Topological \<Rightarrow> ts_error + Topological" where
  "ts_Add vm blk ts =
     (let blkID = blk_ID blk in
      if ts_Decided ts blk \<or> ts_Processing ts blkID then Inl errDuplicateAdd
      else let parentID = blk_Parent blk in
        case map_of (ts_blocks ts) parentID of
          None \<Rightarrow> Reject_blk vm blk ts
        | Some parentNode \<Rightarrow>
            let ts = ts\<lparr>ts_blocks := AList.update parentID (AddChild blk parentNode) (ts_blocks ts)\<rparr>;
                ts = ts\<lparr>ts_blocks := AList.update blkID
                  \<lparr>sn_params = ts_params ts, sn_blk = Some blk, sn_shouldFalter = False, sn_sb = None, sn_children = []\<rparr> (ts_blocks ts)\<rparr>
            in Inr (if ts_tail ts = parentID then ts\<lparr>ts_tail := blkID, preferredIDs := insert blkID (preferredIDs ts)\<rparr> else ts))"

subsection \<open>Collecting the votes\<close>

definition kahn_at :: "Topological \<Rightarrow> ID \<Rightarrow> kahnNode" where
  "kahn_at ts b = (case map_of (kahnNodes ts) b of Some k \<Rightarrow> k | None \<Rightarrow> zero_kahnNode)"

definition set_kahn :: "ID \<Rightarrow> kahnNode \<Rightarrow> Topological \<Rightarrow> Topological" where
  "set_kahn b k ts = ts\<lparr>kahnNodes := AList.update b k (kahnNodes ts)\<rparr>"

fun ancestors_loop :: "nat \<Rightarrow> ID \<Rightarrow> Topological \<Rightarrow> ts_error + Topological" where
  "ancestors_loop 0 parentID ts = Inl Diverges"
| "ancestors_loop (Suc fuel) parentID ts =
     (case map_of (ts_blocks ts) parentID of
        None \<Rightarrow> Inl NilDereference
      | Some n \<Rightarrow>
          (case pending (statuses ts) n of
             None \<Rightarrow> Inr ts
           | Some blk \<Rightarrow>
               (let parentID = blk_Parent blk;
                    kahn = (kahn_at ts parentID)\<lparr>inDegree := inDegree (kahn_at ts parentID) + 1\<rparr>;
                    ts = set_kahn parentID kahn ts
                in if inDegree kahn \<noteq> 1 then Inr ts
                   else ancestors_loop fuel parentID (ts\<lparr>leaves := removeAll parentID (leaves ts)\<rparr>))))"

text \<open>One vote: it is dropped, added to a parent that has been seen, or starts a walk to the head.\<close>

definition in_degree_step :: "ID Bag \<Rightarrow> ID \<Rightarrow> Topological \<Rightarrow> ts_error + Topological" where
  "in_degree_step votes v ts =
     (case map_of (ts_blocks ts) v of
        None \<Rightarrow> Inr ts
      | Some votedBlock \<Rightarrow>
          (case pending (statuses ts) votedBlock of
             None \<Rightarrow> Inr ts
           | Some blk \<Rightarrow>
               (let parentID = blk_Parent blk;
                    numVotes = Count votes v;
                    previouslySeen = (map_of (kahnNodes ts) parentID \<noteq> None);
                    kahn = (kahn_at ts parentID)\<lparr>kn_votes := AddCount v numVotes (kn_votes (kahn_at ts parentID))\<rparr>;
                    ts = set_kahn parentID kahn ts
                in if previouslySeen then Inr ts
                   else ancestors_loop (Suc (length (ts_blocks ts))) parentID
                          (ts\<lparr>leaves := List.insert parentID (leaves ts)\<rparr>))))"

fun in_degree_loop :: "ID Bag \<Rightarrow> ID list \<Rightarrow> Topological \<Rightarrow> ts_error + Topological" where
  "in_degree_loop votes [] ts = Inr ts"
| "in_degree_loop votes (v # rest) ts = res_bind (in_degree_step votes v ts) (in_degree_loop votes rest)"

definition calculateInDegree :: "ID Bag \<Rightarrow> Topological \<Rightarrow> ts_error + Topological" where
  "calculateInDegree votes ts = in_degree_loop votes (Bag_List votes) (ts\<lparr>kahnNodes := [], leaves := []\<rparr>)"

definition push_step ::
  "(ID list \<Rightarrow> ID) \<Rightarrow> Topological \<Rightarrow> (ID \<times> ID Bag) list \<Rightarrow> ts_error + (Topological \<times> (ID \<times> ID Bag) list)" where
  "push_step pop ts voteStack =
     (let leafID = pop (leaves ts);
          ts = ts\<lparr>leaves := removeAll leafID (leaves ts)\<rparr>;
          kahnNode = kahn_at ts leafID
      in case map_of (ts_blocks ts) leafID of
           None \<Rightarrow> Inl NilDereference
         | Some block \<Rightarrow>
             (let voteStack = (if Len (kn_votes kahnNode) \<ge> Alpha (ts_params ts)
                               then voteStack @ [(leafID, kn_votes kahnNode)] else voteStack)
              in case pending (statuses ts) block of
                   None \<Rightarrow> Inr (ts, voteStack)
                 | Some blk \<Rightarrow>
                     (let parentID = blk_Parent blk;
                          parentKahnNode = kahn_at ts parentID;
                          parentKahnNode = parentKahnNode\<lparr>inDegree := inDegree parentKahnNode - 1,
                            kn_votes := AddCount leafID (Len (kn_votes kahnNode)) (kn_votes parentKahnNode)\<rparr>;
                          ts = set_kahn parentID parentKahnNode ts
                      in Inr (if inDegree parentKahnNode = 0 then ts\<lparr>leaves := List.insert parentID (leaves ts)\<rparr> else ts,
                              voteStack))))"

fun push_loop ::
  "(ID list \<Rightarrow> ID) \<Rightarrow> nat \<Rightarrow> Topological \<Rightarrow> (ID \<times> ID Bag) list \<Rightarrow> ts_error + (Topological \<times> (ID \<times> ID Bag) list)" where
  "push_loop pop 0 ts voteStack = (if leaves ts = [] then Inr (ts, voteStack) else Inl Diverges)"
| "push_loop pop (Suc fuel) ts voteStack =
     (if leaves ts = [] then Inr (ts, voteStack)
      else res_bind (push_step pop ts voteStack) (\<lambda>(ts, voteStack). push_loop pop fuel ts voteStack))"

text \<open>Every node becomes a leaf at most once, so there are at most as many rounds as Kahn nodes.\<close>

definition pushVotes :: "(ID list \<Rightarrow> ID) \<Rightarrow> Topological \<Rightarrow> ts_error + (Topological \<times> (ID \<times> ID Bag) list)" where
  "pushVotes pop ts = push_loop pop (length (kahnNodes ts)) ts []"

subsection \<open>Accepting and rejecting\<close>

text \<open>Rejects the given children, in order, and returns their identifiers.\<close>

fun reject_children :: "VM \<Rightarrow> (ID, Block) gomap \<Rightarrow> Topological \<Rightarrow> ts_error + (Topological \<times> ID list)" where
  "reject_children vm [] ts = Inr (ts, [])"
| "reject_children vm ((childID, child) # rest) ts =
     res_bind (Reject_blk vm child ts) (\<lambda>ts.
       res_bind (reject_children vm rest ts) (\<lambda>(ts, rejects). Inr (ts, childID # rejects)))"

lemma reject_children_blocks:
  "reject_children vm cs ts = Inr (ts', r) \<Longrightarrow> ts_blocks ts' = ts_blocks ts"
proof (induction cs arbitrary: ts r)
  case (Cons c cs)
  then show ?case by (cases c) (auto simp: res_bind_Inr_iff Reject_blk_def split: if_splits)
qed simp

text \<open>The stack of rejected identifiers has its top first here.\<close>

function rejectTransitively :: "VM \<Rightarrow> ID list \<Rightarrow> Topological \<Rightarrow> ts_error + Topological" where
  "rejectTransitively vm [] ts = Inr ts"
| "rejectTransitively vm (rejectedID # rejected) ts =
     (case map_of (ts_blocks ts) rejectedID of
        None \<Rightarrow> Inl NilDereference
      | Some rejectedNode \<Rightarrow>
          (let ts = ts\<lparr>ts_blocks := AList.delete rejectedID (ts_blocks ts)\<rparr>
           in res_bind (reject_children vm (sn_children rejectedNode) ts)
                (\<lambda>(ts, rejects). rejectTransitively vm (rev rejects @ rejected) ts)))"
  by pat_completeness auto
termination
  by (relation "measure (\<lambda>(_, _, ts). length (ts_blocks ts))")
    (auto dest!: reject_children_blocks simp: length_delete_less)

definition acceptPreferredChild :: "VM \<Rightarrow> snowmanBlock \<Rightarrow> Topological \<Rightarrow> ts_error + Topological" where
  "acceptPreferredChild vm n ts =
     (case sn_sb n of
        None \<Rightarrow> Inl NilDereference
      | Some sb \<Rightarrow>
          (let pref = Tree_Preference sb
           in case map_of (sn_children n) pref of
                None \<Rightarrow> Inl NilDereference
              | Some child \<Rightarrow>
                  res_bind (Accept_blk vm child ts) (\<lambda>ts.
                    let ts = ts\<lparr>ts_head := pref, ts_height := blk_Height child, preferredIDs := preferredIDs ts - {pref}\<rparr>
                    in res_bind (reject_children vm (filter (\<lambda>(childID, _). childID \<noteq> pref) (sn_children n)) ts)
                         (\<lambda>(ts, rejects). rejectTransitively vm (rev rejects) ts))))"

subsection \<open>Applying the votes\<close>

definition falter_child :: "bool \<Rightarrow> ID \<Rightarrow> ID \<Rightarrow> Topological \<Rightarrow> Topological" where
  "falter_child shouldTransitivelyFalter nextID childID ts =
     (if \<not> shouldTransitivelyFalter \<and> childID = nextID then ts
      else case map_of (ts_blocks ts) childID of
        None \<Rightarrow> ts
      | Some childBlock \<Rightarrow>
          ts\<lparr>ts_blocks := AList.update childID (childBlock\<lparr>sn_shouldFalter := True\<rparr>) (ts_blocks ts)\<rparr>)"

text \<open>One round of the loop of \<^verbatim>\<open>vote\<close>: the poll of the block on top of the stack; None if the block has
  been rejected, and the loop stops.\<close>

definition vote_round ::
  "VM \<Rightarrow> ID \<Rightarrow> ID Bag \<Rightarrow> ID \<Rightarrow> Topological \<Rightarrow> ts_error + (Topological \<times> ID) option" where
  "vote_round vm parentID votes nextID ts =
     (case map_of (ts_blocks ts) parentID of
        None \<Rightarrow> Inr None
      | Some parentBlock \<Rightarrow>
          (case sn_sb parentBlock of
             None \<Rightarrow> Inl NilDereference
           | Some sb \<Rightarrow>
               (let shouldTransitivelyFalter = sn_shouldFalter parentBlock;
                    sb = (if shouldTransitivelyFalter then Tree_RecordUnsuccessfulPoll sb else sb);
                    sb = fst (Tree_RecordPoll votes sb);
                    parentBlock = parentBlock\<lparr>sn_sb := Some sb, sn_shouldFalter := False\<rparr>;
                    ts = ts\<lparr>ts_blocks := AList.update parentID parentBlock (ts_blocks ts)\<rparr>
                in res_bind
                     (if Tree_Finalized sb \<and> ts_head ts = parentID
                      then res_bind (acceptPreferredChild vm parentBlock ts)
                             (\<lambda>ts. Inr (ts\<lparr>ts_blocks := AList.delete parentID (ts_blocks ts)\<rparr>))
                      else Inr ts)
                     (\<lambda>ts. Inr (Some (fold (falter_child shouldTransitivelyFalter nextID)
                                         (map fst (sn_children parentBlock)) ts,
                                       Tree_Preference sb))))))"

text \<open>The stack has its top first here.\<close>

fun vote_loop ::
  "VM \<Rightarrow> (ID \<times> ID Bag) list \<Rightarrow> ID \<Rightarrow> bool \<Rightarrow> Topological \<Rightarrow> ts_error + (Topological \<times> ID)" where
  "vote_loop vm [] newPreferred onPreferredBranch ts = Inr (ts, newPreferred)"
| "vote_loop vm ((parentID, votes) # voteStack) newPreferred onPreferredBranch ts =
     (let nextID = (case voteStack of [] \<Rightarrow> Empty_ID | (next, _) # _ \<Rightarrow> next)
      in res_bind (vote_round vm parentID votes nextID ts) (\<lambda>r.
           case r of
             None \<Rightarrow> Inr (ts, newPreferred)
           | Some (ts, parentPreference) \<Rightarrow>
               vote_loop vm voteStack (if onPreferredBranch then parentPreference else newPreferred)
                 (onPreferredBranch \<and> nextID = parentPreference) ts))"

definition ts_vote :: "VM \<Rightarrow> (ID \<times> ID Bag) list \<Rightarrow> Topological \<Rightarrow> ts_error + (Topological \<times> ID)" where
  "ts_vote vm voteStack ts =
     (if voteStack = [] then
        (case map_of (ts_blocks ts) (ts_head ts) of
           None \<Rightarrow> Inl NilDereference
         | Some headBlock \<Rightarrow>
             Inr (ts\<lparr>ts_blocks := AList.update (ts_head ts) (headBlock\<lparr>sn_shouldFalter := True\<rparr>) (ts_blocks ts)\<rparr>, ts_tail ts))
      else vote_loop vm (rev voteStack) (ts_head ts) True ts)"

subsection \<open>Recording a poll\<close>

text \<open>The loops that rebuild the preferred branch: up to the last accepted block, and down to a leaf.\<close>

fun prefer_up :: "nat \<Rightarrow> ID \<Rightarrow> Topological \<Rightarrow> ts_error + Topological" where
  "prefer_up 0 b ts = Inl Diverges"
| "prefer_up (Suc fuel) b ts =
     (case map_of (ts_blocks ts) b of
        None \<Rightarrow> Inl NilDereference
      | Some n \<Rightarrow>
          (case pending (statuses ts) n of
             None \<Rightarrow> Inr ts
           | Some blk \<Rightarrow> prefer_up fuel (blk_Parent blk) (ts\<lparr>preferredIDs := insert (blk_ID blk) (preferredIDs ts)\<rparr>)))"

fun prefer_down :: "nat \<Rightarrow> Topological \<Rightarrow> ts_error + Topological" where
  "prefer_down 0 ts = Inl Diverges"
| "prefer_down (Suc fuel) ts =
     (case map_of (ts_blocks ts) (ts_tail ts) of
        None \<Rightarrow> Inl NilDereference
      | Some n \<Rightarrow>
          (case sn_sb n of
             None \<Rightarrow> Inr ts
           | Some sb \<Rightarrow> prefer_down fuel
               (ts\<lparr>ts_tail := Tree_Preference sb, preferredIDs := insert (Tree_Preference sb) (preferredIDs ts)\<rparr>)))"

definition ts_RecordPoll :: "VM \<Rightarrow> (ID list \<Rightarrow> ID) \<Rightarrow> ID Bag \<Rightarrow> Topological \<Rightarrow> ts_error + Topological" where
  "ts_RecordPoll vm pop voteBag ts =
     (let ts = ts\<lparr>pollNumber := pollNumber ts + 1\<rparr>
      in res_bind
           (if Len voteBag \<ge> Alpha (ts_params ts)
            then res_bind (calculateInDegree voteBag ts) (pushVotes pop)
            else Inr (ts, [])) (\<lambda>(ts, voteStack).
         res_bind (ts_vote vm voteStack ts) (\<lambda>(ts, preferred).
           if preferred \<in> preferredIDs ts then Inr ts
           else let fuel = Suc (length (ts_blocks ts));
                    ts = ts\<lparr>preferredIDs := {}, ts_tail := preferred\<rparr>
             in res_bind (prefer_up fuel preferred ts) (prefer_down fuel))))"

subsection \<open>A sample chain\<close>

definition quiet_VM :: VM where
  "quiet_VM = \<lparr>acceptor_fails = (\<lambda>_. False), accept_fails = (\<lambda>_. False), reject_fails = (\<lambda>_. False)\<rparr>"

definition sample_block :: "u8 \<Rightarrow> u8 \<Rightarrow> u64 \<Rightarrow> Block" where
  "sample_block i p h = \<lparr>blk_ID = sample_id i, blk_Parent = sample_id p, blk_Height = h\<rparr>"

definition sample_statuses :: "ID \<Rightarrow> Status" where
  "sample_statuses i = (if i = sample_id 0 then Accepted else Processing)"

subsection \<open>Runs\<close>

datatype ts_call = Issue Block | RecordVotes "ID Bag"

fun ts_step :: "VM \<Rightarrow> (ID list \<Rightarrow> ID) \<Rightarrow> ts_call \<Rightarrow> Topological \<Rightarrow> ts_error + Topological" where
  "ts_step vm pop (Issue blk) ts = ts_Add vm blk ts"
| "ts_step vm pop (RecordVotes votes) ts = ts_RecordPoll vm pop votes ts"

fun ts_run :: "VM \<Rightarrow> (ID list \<Rightarrow> ID) \<Rightarrow> ts_call list \<Rightarrow> Topological \<Rightarrow> ts_error + Topological" where
  "ts_run vm pop [] ts = Inr ts"
| "ts_run vm pop (c # cs) ts = res_bind (ts_step vm pop c ts) (ts_run vm pop cs)"

text \<open>Above block 0, the block 1 and the chain of the blocks 2, 3 and 4.\<close>

definition sample_root :: Topological where
  "sample_root = (case ts_Initialize sample_params (sample_id 0) 0 sample_statuses of Inr ts \<Rightarrow> ts)"

definition sample_issues :: "ts_call list" where
  "sample_issues = map Issue [sample_block 1 0 1, sample_block 2 0 1, sample_block 3 2 2, sample_block 4 3 3]"

text \<open>The preference of the consensus tree of the last accepted block.\<close>

definition head_preference :: "Topological \<Rightarrow> ID option" where
  "head_preference ts = map_option Tree_Preference (Option.bind (map_of (ts_blocks ts) (ts_head ts)) sn_sb)"

end
