(* ===== verification/Topological_Safety.thy ===== *)
theory Topological_Safety
  imports Topological
begin

text \<open>
  Safety of chain consensus: the undecided blocks are always a tree below the last accepted block,
  accepted blocks form a chain, and every block that was issued is accepted, rejected or still in the
  tree, and only one of these. None of this depends on how the votes were collected: it holds for every
  stack of votes.
\<close>

subsection \<open>The tree of blocks\<close>

text \<open>The links of the tree, over its domain \<open>D\<close>, its children \<open>k\<close> and its blocks \<open>bl\<close>: every child names
  its parent and is undecided, every block but the head is a child of its parent. While an acceptance is
  carried out, \<open>X\<close> are the rejected blocks that are still in the map and \<open>old\<close> is the previous head.\<close>

definition links ::
  "ID set \<Rightarrow> (ID \<Rightarrow> ID \<Rightarrow> Block option) \<Rightarrow> (ID \<Rightarrow> Block option) \<Rightarrow> ID \<Rightarrow> (ID \<Rightarrow> Status) \<Rightarrow> ID set \<Rightarrow> ID set \<Rightarrow> bool" where
  "links D k bl head st X old \<longleftrightarrow>
     head \<in> D - X - old \<and> st head = Accepted \<and> (bl head = None \<or> (\<exists>b. bl head = Some b \<and> blk_ID b = head))
     \<and> X \<subseteq> D - old \<and> (\<forall>x \<in> X. Status_Decided (st x))
     \<and> (\<forall>i \<in> D - old. \<forall>c b. k i c = Some b \<longrightarrow>
          c \<in> D - X - old \<and> c \<noteq> head \<and> bl c = Some b \<and> blk_ID b = c \<and> blk_Parent b = i \<and> valid_ID c
          \<and> \<not> Status_Decided (st c))
     \<and> (\<forall>c \<in> D - X - old. c \<noteq> head \<longrightarrow>
          (\<exists>b. bl c = Some b \<and> blk_Parent b \<in> D - old \<and> k (blk_Parent b) c = Some b))"

lemma links_child:
  assumes "links D k bl head st X old" "i \<in> D" "i \<notin> old" "k i c = Some b"
  shows "c \<in> D" "c \<notin> X" "c \<notin> old" "c \<noteq> head" "bl c = Some b" "blk_ID b = c" "blk_Parent b = i" "valid_ID c"
    "\<not> Status_Decided (st c)"
  using assms unfolding links_def by blast+

lemma links_parent:
  assumes "links D k bl head st X old" "c \<in> D" "c \<notin> X" "c \<notin> old" "c \<noteq> head"
  obtains b where "bl c = Some b" "blk_Parent b \<in> D" "blk_Parent b \<notin> old" "k (blk_Parent b) c = Some b"
  using assms unfolding links_def by blast

lemma links_head:
  assumes "links D k bl head st X old"
  shows "head \<in> D" "head \<notin> X" "head \<notin> old" "st head = Accepted" "X \<subseteq> D - old" "x \<in> X \<Longrightarrow> Status_Decided (st x)"
    "bl head = None \<or> (\<exists>b. bl head = Some b \<and> blk_ID b = head)"
  using assms unfolding links_def by blast+

lemma linksI:
  assumes "head \<in> D - X - old" "st head = Accepted" "bl head = None \<or> (\<exists>b. bl head = Some b \<and> blk_ID b = head)"
    and "X \<subseteq> D - old" "\<forall>x \<in> X. Status_Decided (st x)"
    and "\<And>i c b. i \<in> D - old \<Longrightarrow> k i c = Some b \<Longrightarrow> c \<in> D - X - old \<and> c \<noteq> head \<and> bl c = Some b \<and> blk_ID b = c
      \<and> blk_Parent b = i \<and> valid_ID c \<and> \<not> Status_Decided (st c)"
    and "\<And>c. c \<in> D - X - old \<Longrightarrow> c \<noteq> head \<Longrightarrow>
      \<exists>b. bl c = Some b \<and> blk_Parent b \<in> D - old \<and> k (blk_Parent b) c = Some b"
  shows "links D k bl head st X old"
  unfolding links_def using assms by blast

text \<open>The head accepts its child \<open>c\<close>; the siblings \<open>S\<close> are rejected.\<close>

lemma links_accept:
  assumes "links D k bl p st {} {}" "k p c = Some b" "S = dom (k p) - {c}"
    and "st' = (\<lambda>i. if i = c then Accepted else if i \<in> S then Rejected else st i)"
  shows "links D k bl c st' S {p}"
proof -
  note ch = links_child [OF assms(1)] and hd = links_head [OF assms(1)]
  have c: "c \<in> D" "c \<noteq> p" "bl c = Some b" "blk_ID b = c" using ch [OF hd(1) _ assms(2)] by auto
  have S: "d \<in> D \<and> d \<noteq> p \<and> (\<exists>b'. bl d = Some b' \<and> blk_Parent b' = p)" if "d \<in> S" for d
  proof -
    obtain b' where b': "k p d = Some b'" using \<open>d \<in> S\<close> assms(3) by auto
    from ch [OF hd(1) _ b'] show ?thesis by auto
  qed
  have kid: "d \<in> D - S - {p} \<and> d \<noteq> c \<and> bl d = Some b' \<and> blk_ID b' = d \<and> blk_Parent b' = i \<and> valid_ID d
      \<and> \<not> Status_Decided (st' d)" if "i \<in> D - {p}" "k i d = Some b'" for i d b'
  proof -
    have d: "d \<in> D" "d \<noteq> p" "bl d = Some b'" "blk_ID b' = d" "blk_Parent b' = i" "valid_ID d" "\<not> Status_Decided (st d)"
      using ch [of i d b'] that by auto
    moreover have "d \<notin> S" "d \<noteq> c" using S [of d] ch [OF hd(1) _ assms(2)] d(3,5) that(1) by auto
    ultimately show ?thesis using assms(4) by auto
  qed
  have par: "\<exists>b. bl d = Some b \<and> blk_Parent b \<in> D - {p} \<and> k (blk_Parent b) d = Some b"
    if d: "d \<in> D - S - {p}" "d \<noteq> c" for d
  proof -
    obtain b' where b': "bl d = Some b'" "blk_Parent b' \<in> D" "k (blk_Parent b') d = Some b'"
      using links_parent [OF assms(1), of d] d by auto
    moreover have "blk_Parent b' \<noteq> p" using b'(3) d assms(3) by auto
    ultimately show ?thesis by auto
  qed
  have "c \<notin> S" "S \<subseteq> D - {p}" "\<forall>x \<in> S. Status_Decided (st' x)" using assms(3,4) S by auto
  with c assms(4) show ?thesis by (intro linksI kid par) auto
qed

text \<open>A rejected block \<open>x\<close> leaves the tree, and its children \<open>C\<close> are rejected.\<close>

lemma links_reject:
  assumes "links D k bl head st (insert x X) old" "x \<notin> X" "C = dom (k x)"
    and "st' = (\<lambda>i. if i \<in> C then Rejected else st i)"
  shows "links (D - {x}) k bl head st' (X \<union> C) old" "C \<inter> insert x X = {}"
proof -
  note ch = links_child [OF assms(1)] and hd = links_head [OF assms(1)]
  have x: "x \<in> D" "x \<notin> old" "x \<noteq> head" using hd by auto
  have C: "d \<in> D \<and> d \<notin> insert x X \<and> d \<notin> old \<and> d \<noteq> head \<and> (\<exists>b'. bl d = Some b' \<and> blk_Parent b' = x)" if "d \<in> C" for d
  proof -
    obtain b' where b': "k x d = Some b'" using \<open>d \<in> C\<close> assms(3) by auto
    from ch [OF x(1,2) b'] show ?thesis by auto
  qed
  then show "C \<inter> insert x X = {}" by auto
  have kid: "d \<in> D - {x} - (X \<union> C) - old \<and> d \<noteq> head \<and> bl d = Some b' \<and> blk_ID b' = d \<and> blk_Parent b' = i \<and> valid_ID d
      \<and> \<not> Status_Decided (st' d)" if "i \<in> D - {x} - old" "k i d = Some b'" for i d b'
  proof -
    have d: "d \<in> D" "d \<notin> insert x X" "d \<notin> old" "d \<noteq> head" "bl d = Some b'" "blk_ID b' = d" "blk_Parent b' = i" "valid_ID d"
      "\<not> Status_Decided (st d)"
      using ch [of i d b'] that by auto
    moreover have "d \<notin> C" using C [of d] d(5,7) that(1) by auto
    ultimately show ?thesis using assms(4) by auto
  qed
  have par: "\<exists>b. bl d = Some b \<and> blk_Parent b \<in> D - {x} - old \<and> k (blk_Parent b) d = Some b"
    if d: "d \<in> D - {x} - (X \<union> C) - old" "d \<noteq> head" for d
  proof -
    obtain b' where b': "bl d = Some b'" "blk_Parent b' \<in> D" "blk_Parent b' \<notin> old" "k (blk_Parent b') d = Some b'"
      using links_parent [OF assms(1), of d] d by auto
    moreover have "blk_Parent b' \<noteq> x" using b'(4) d assms(3) by auto
    ultimately show ?thesis by auto
  qed
  have "head \<in> D - {x} - (X \<union> C) - old" "st' head = Accepted" "X \<union> C \<subseteq> D - {x} - old"
    "\<forall>y \<in> X \<union> C. Status_Decided (st' y)"
    using hd x C assms(2,4) by auto
  with hd(7) show "links (D - {x}) k bl head st' (X \<union> C) old" by (intro linksI kid par)
qed

lemma links_done: "links D k bl head st {} {p} \<Longrightarrow> links (D - {p}) k bl head st {} {}"
  unfolding links_def by blast

lemma links_add:
  assumes "links D k bl head st {} {}" "p \<in> D" "c \<notin> D" "blk_ID b = c" "blk_Parent b = p" "valid_ID c"
    and "\<not> Status_Decided (st c)"
    and k': "k' = k(p := (k p)(c \<mapsto> b), c := (\<lambda>_. None))" and bl': "bl' = bl(c \<mapsto> b)"
  shows "links (insert c D) k' bl' head st {} {}"
proof -
  note ch = links_child [OF assms(1)] and hd = links_head [OF assms(1)]
  have kid: "d \<in> insert c D \<and> d \<noteq> head \<and> bl' d = Some b' \<and> blk_ID b' = d \<and> blk_Parent b' = i \<and> valid_ID d
      \<and> \<not> Status_Decided (st d)" if "i \<in> insert c D" "k' i d = Some b'" for i d b'
  proof (cases "d = c")
    case True
    with that have "b' = b" "i = p"
      using k' ch(1) [of i c b'] assms(2,3) by (auto split: if_splits)
    with True assms(3-7) hd(1) bl' show ?thesis by auto
  next
    case False
    with that have "k i d = Some b'" "i \<in> D" using k' by (auto split: if_splits)
    with False ch [of i d b'] bl' show ?thesis by auto
  qed
  have par: "\<exists>b. bl' d = Some b \<and> blk_Parent b \<in> insert c D \<and> k' (blk_Parent b) d = Some b"
    if d: "d \<in> insert c D" "d \<noteq> head" for d
  proof (cases "d = c")
    case True
    with assms(2,3,5) k' bl' show ?thesis by auto
  next
    case False
    with d obtain b' where b': "bl d = Some b'" "blk_Parent b' \<in> D" "k (blk_Parent b') d = Some b'"
      using links_parent [OF assms(1), of d] by auto
    moreover have "k' (blk_Parent b') d = Some b'" using b' False assms(3) k' by auto
    ultimately show ?thesis using False bl' by auto
  qed
  have "head \<noteq> c" using hd(1) assms(3) by auto
  then have "bl' head = None \<or> (\<exists>b. bl' head = Some b \<and> blk_ID b = head)" using hd(7) bl' by simp
  then show ?thesis by (rule linksI [rotated 2]) (use hd(1,4) kid par in \<open>simp_all\<close>)
qed

subsection \<open>The invariant of the state\<close>

abbreviation block_at :: "Topological \<Rightarrow> ID \<Rightarrow> snowmanBlock option" where
  "block_at ts \<equiv> map_of (ts_blocks ts)"

definition kids :: "Topological \<Rightarrow> ID \<Rightarrow> ID \<Rightarrow> Block option" where
  "kids ts i c = (case block_at ts i of None \<Rightarrow> None | Some n \<Rightarrow> map_of (sn_children n) c)"

definition blk_of :: "Topological \<Rightarrow> ID \<Rightarrow> Block option" where
  "blk_of ts i = (case block_at ts i of None \<Rightarrow> None | Some n \<Rightarrow> sn_blk n)"

text \<open>A node's consensus tree decides between its children.\<close>

definition node_ok :: "Parameters \<Rightarrow> snowmanBlock \<Rightarrow> bool" where
  "node_ok params n \<longleftrightarrow> sn_params n = params \<and> wf_gomap (sn_children n)
     \<and> (sn_sb n = None \<longleftrightarrow> sn_children n = [])
     \<and> (\<forall>t. sn_sb n = Some t \<longrightarrow> tree_inv t \<and> tr_params t = params \<and> held (tree_abs t) \<subseteq> dom (map_of (sn_children n)))"

fun accepted_of :: "ts_event list \<Rightarrow> Block list" where
  "accepted_of [] = []"
| "accepted_of (AcceptedBlock b # es) = b # accepted_of es"
| "accepted_of (_ # es) = accepted_of es"

fun rejected_of :: "ts_event list \<Rightarrow> Block list" where
  "rejected_of [] = []"
| "rejected_of (RejectedBlock b # es) = b # rejected_of es"
| "rejected_of (_ # es) = rejected_of es"

fun chain_from :: "ID \<Rightarrow> Block list \<Rightarrow> bool" where
  "chain_from r [] = True"
| "chain_from r (b # bs) = (blk_Parent b = r \<and> chain_from (blk_ID b) bs)"

fun chain_end :: "ID \<Rightarrow> Block list \<Rightarrow> ID" where
  "chain_end r [] = r"
| "chain_end r (b # bs) = chain_end (blk_ID b) bs"

lemma events_append [simp]:
  "accepted_of (es @ es') = accepted_of es @ accepted_of es'"
  "rejected_of (es @ es') = rejected_of es @ rejected_of es'"
  "chain_from r (bs @ bs') \<longleftrightarrow> chain_from r bs \<and> chain_from (chain_end r bs) bs'"
  "chain_end r (bs @ bs') = chain_end (chain_end r bs) bs'"
     apply (induction es rule: accepted_of.induct; simp)
    apply (induction es rule: rejected_of.induct; simp)
   apply (induction r bs rule: chain_from.induct; simp)
  by (induction r bs rule: chain_end.induct; simp)

text \<open>The decisions: the accepted blocks are a chain that ends at the head, no block is decided twice, and
  the decisions are the status of the blocks.\<close>

definition history_ok :: "ID \<Rightarrow> (ID \<Rightarrow> Status) \<Rightarrow> ID \<Rightarrow> (ID \<Rightarrow> Status) \<Rightarrow> ts_event list \<Rightarrow> bool" where
  "history_ok root st0 head st es \<longleftrightarrow> chain_from root (accepted_of es) \<and> chain_end root (accepted_of es) = head
     \<and> distinct (map blk_ID (accepted_of es @ rejected_of es))
     \<and> (\<forall>b \<in> set (accepted_of es). st (blk_ID b) = Accepted) \<and> (\<forall>b \<in> set (rejected_of es). st (blk_ID b) = Rejected)
     \<and> (\<forall>c. Status_Decided (st c) \<longrightarrow> Status_Decided (st0 c) \<or> c \<in> blk_ID ` set (accepted_of es @ rejected_of es))"

lemma history_reject:
  assumes "history_ok root st0 head st es" "\<not> Status_Decided (st (blk_ID b))"
  shows "history_ok root st0 head (st(blk_ID b := Rejected)) (es @ [RejectedBlock b])"
  using assms unfolding history_ok_def by (fastforce simp: image_iff)

lemma history_accept:
  assumes "history_ok root st0 head st es" "\<not> Status_Decided (st (blk_ID b))" "blk_Parent b = head"
  shows "history_ok root st0 (blk_ID b) (st(blk_ID b := Accepted)) (es @ [NotifiedAcceptor b, AcceptedBlock b])"
  using assms unfolding history_ok_def by (fastforce simp: image_iff)

definition ts_linked :: "Topological \<Rightarrow> ID set \<Rightarrow> ID set \<Rightarrow> bool" where
  "ts_linked ts X old \<longleftrightarrow> valid_params (ts_params ts) \<and> wf_gomap (ts_blocks ts)
     \<and> (\<forall>i n. block_at ts i = Some n \<longrightarrow> node_ok (ts_params ts) n)
     \<and> links (dom (block_at ts)) (kids ts) (blk_of ts) (ts_head ts) (statuses ts) X old"

lemma ts_linkedD:
  assumes "ts_linked ts X old"
  shows "links (dom (block_at ts)) (kids ts) (blk_of ts) (ts_head ts) (statuses ts) X old"
    "block_at ts i = Some n \<Longrightarrow> node_ok (ts_params ts) n" "wf_gomap (ts_blocks ts)" "valid_params (ts_params ts)"
  using assms unfolding ts_linked_def by blast+

subsection \<open>Operations that do not change the tree\<close>

text \<open>What the invariant reads of the state.\<close>

definition core :: "Topological \<Rightarrow> Parameters \<times> ID \<times> (ID, snowmanBlock) gomap \<times> (ID \<Rightarrow> Status) \<times> ts_event list" where
  "core ts = (ts_params ts, ts_head ts, ts_blocks ts, statuses ts, events ts)"

lemma ts_linked_core: "core ts' = core ts \<Longrightarrow> ts_linked ts' X old = ts_linked ts X old"
  by (simp add: core_def ts_linked_def kids_def [abs_def] blk_of_def [abs_def])

lemma core_set_kahn [simp]: "core (set_kahn b k ts) = core ts"
  by (simp add: core_def set_kahn_def)

lemma core_scratch [simp]:
  "core (ts\<lparr>leaves := l\<rparr>) = core ts" "core (ts\<lparr>kahnNodes := ks\<rparr>) = core ts" "core (ts\<lparr>preferredIDs := ps\<rparr>) = core ts"
  "core (ts\<lparr>ts_tail := t\<rparr>) = core ts" "core (ts\<lparr>pollNumber := n\<rparr>) = core ts"
  by (simp_all add: core_def)

lemma core_ancestors_loop: "ancestors_loop fuel b ts = Inr ts' \<Longrightarrow> core ts' = core ts"
  by (induction fuel b ts rule: ancestors_loop.induct) (auto simp: Let_def split: option.splits if_splits)

lemma core_in_degree_step: "in_degree_step votes v ts = Inr ts' \<Longrightarrow> core ts' = core ts"
  by (auto simp: in_degree_step_def Let_def split: option.splits if_splits dest!: core_ancestors_loop)

lemma core_in_degree_loop: "in_degree_loop votes vs ts = Inr ts' \<Longrightarrow> core ts' = core ts"
  by (induction vs arbitrary: ts) (auto simp: res_bind_Inr_iff dest!: core_in_degree_step)

lemma core_push_step: "push_step pop ts st = Inr (ts', st') \<Longrightarrow> core ts' = core ts"
  by (auto simp: push_step_def Let_def split: option.splits if_splits)

lemma core_push_loop: "push_loop pop fuel ts st = Inr (ts', st') \<Longrightarrow> core ts' = core ts"
  by (induction fuel arbitrary: ts st)
    (auto simp: res_bind_Inr_iff split: if_splits prod.splits dest!: core_push_step)

lemma core_prefer_up: "prefer_up fuel b ts = Inr ts' \<Longrightarrow> core ts' = core ts"
  by (induction fuel b ts rule: prefer_up.induct) (auto split: option.splits)

lemma core_prefer_down: "prefer_down fuel ts = Inr ts' \<Longrightarrow> core ts' = core ts"
  by (induction fuel ts rule: prefer_down.induct) (auto split: option.splits)

lemma core_collect:
  assumes "res_bind (calculateInDegree votes ts) (pushVotes pop) = Inr (ts', st)"
  shows "core ts' = core ts"
  using assms unfolding res_bind_Inr_iff pushVotes_def calculateInDegree_def
  by (auto dest!: core_in_degree_loop core_push_loop)

subsection \<open>Updating a node\<close>

lemma links_cong:
  assumes "links D k bl head st X old" "\<And>i. i \<in> D \<Longrightarrow> k' i = k i" "\<And>i. i \<in> D \<Longrightarrow> bl' i = bl i"
    and "\<And>i. i \<in> D \<Longrightarrow> st' i = st i"
  shows "links D k' bl' head st' X old"
proof (rule linksI)
  note hd = links_head [OF assms(1)]
  show "bl' head = None \<or> (\<exists>b. bl' head = Some b \<and> blk_ID b = head)" using hd(1,7) assms(3) by simp
  show "head \<in> D - X - old" "st' head = Accepted" "X \<subseteq> D - old" using hd assms(4) by auto
  show "\<forall>x \<in> X. Status_Decided (st' x)" using hd(5,6) assms(4) by (metis Diff_iff subsetD)
  show "c \<in> D - X - old \<and> c \<noteq> head \<and> bl' c = Some b \<and> blk_ID b = c \<and> blk_Parent b = i \<and> valid_ID c \<and> \<not> Status_Decided (st' c)"
    if "i \<in> D - old" "k' i c = Some b" for i c b
    using links_child [OF assms(1), of i c b] that assms(2-4) by simp
  show "\<exists>b. bl' c = Some b \<and> blk_Parent b \<in> D - old \<and> k' (blk_Parent b) c = Some b" if "c \<in> D - X - old" "c \<noteq> head" for c
    using links_parent [OF assms(1), of c] that assms(2,3) by (metis Diff_iff)
qed

lemma linked_update:
  assumes "ts_linked ts X old" "block_at ts p = Some n" "node_ok (ts_params ts) n'"
    and "sn_blk n' = sn_blk n" "sn_children n' = sn_children n"
  shows "ts_linked (ts\<lparr>ts_blocks := AList.update p n' (ts_blocks ts)\<rparr>) X old"
proof -
  let ?ts = "ts\<lparr>ts_blocks := AList.update p n' (ts_blocks ts)\<rparr>"
  have "kids ?ts = kids ts" "blk_of ?ts = blk_of ts" "dom (block_at ?ts) = dom (block_at ts)"
    using assms(2,4,5) by (auto simp: kids_def blk_of_def fun_eq_iff)
  with assms(1,3) show ?thesis by (auto simp: ts_linked_def distinct_update)
qed

lemma linked_falter:
  assumes "ts_linked ts X old" "block_at ts p = Some n"
  shows "ts_linked (ts\<lparr>ts_blocks := AList.update p (n\<lparr>sn_shouldFalter := f\<rparr>) (ts_blocks ts)\<rparr>) X old"
  by (rule linked_update [OF assms]) (use assms in \<open>auto simp: ts_linked_def node_ok_def\<close>)

lemma linked_falter_children: "ts_linked ts X old \<Longrightarrow> ts_linked (fold (falter_child f nextID) cs ts) X old"
proof (induction cs arbitrary: ts)
  case (Cons c cs)
  then show ?case by (auto simp: falter_child_def linked_falter split: option.splits)
qed simp

text \<open>A poll of a node's consensus tree.\<close>

lemma node_ok_poll:
  assumes "node_ok params n" "sn_sb n = Some sb" "n' = n\<lparr>sn_sb := Some sb', sn_shouldFalter := f\<rparr>"
    and "sb' = fst (Tree_RecordPoll votes (if g then Tree_RecordUnsuccessfulPoll sb else sb))"
  shows "node_ok params n'" "Tree_Preference sb' \<in> dom (map_of (sn_children n))"
proof -
  define calls where "calls = (if g then [UnsuccessfulPoll] else []) @ [Poll votes]"
  have sb': "sb' = fold tree_call calls sb" by (simp add: assms(4) calls_def)
  have sb: "tree_inv sb" "tr_params sb = params" "held (tree_abs sb) \<subseteq> dom (map_of (sn_children n))"
    using assms(1,2) by (auto simp: node_ok_def)
  have inv: "tree_inv sb'" using tree.calls_inv [OF sb(1), of calls] by (simp add: sb' tree_call_eq calls_def)
  have "lazy_ok (tr_node sb)" using sb(1) by (simp add: tree_inv_def)
  from tree_abs_calls [OF this, of calls] held_calls [of params calls "tree_abs sb"] sb
  have abs: "tr_params sb' = params" "held (tree_abs sb') \<subseteq> dom (map_of (sn_children n))"
    by (auto simp: sb' calls_def)
  with inv assms(1,2,3) show "node_ok params n'" by (auto simp: node_ok_def)
  show "Tree_Preference sb' \<in> dom (map_of (sn_children n))"
    using Preference_held [of "tree_abs sb'"] abs(2) by auto
qed

subsection \<open>Rejecting\<close>

lemma reject_children_Inr:
  "reject_children vm cs ts = Inr (ts', r) \<Longrightarrow> r = map fst cs \<and>
     ts' = ts\<lparr>statuses := (\<lambda>i. if i \<in> blk_ID ` snd ` set cs then Rejected else statuses ts i),
             events := events ts @ map RejectedBlock (map snd cs)\<rparr>"
proof (induction cs arbitrary: ts r)
  case (Cons c cs)
  obtain i b where c: "c = (i, b)" by fastforce
  from Cons.prems obtain r' where r': "r = i # r'"
    "reject_children vm cs (ts\<lparr>statuses := (statuses ts)(blk_ID b := Rejected), events := events ts @ [RejectedBlock b]\<rparr>) = Inr (ts', r')"
    by (auto simp: c res_bind_Inr_iff Reject_blk_def split: if_splits prod.splits)
  from Cons.IH [OF r'(2)] r'(1) show ?case by (auto simp: c fun_eq_iff)
qed simp

lemma reject_children_Inl: "reject_children vm cs ts = Inl e \<Longrightarrow> \<exists>b. e = RejectError b \<and> reject_fails vm b"
proof (induction cs arbitrary: ts)
  case (Cons c cs)
  then show ?case by (cases c) (auto simp: res_bind_Inl_iff Reject_blk_def split: if_splits prod.splits)
qed simp

lemma history_rejects:
  "history_ok root st0 head st es \<Longrightarrow> distinct (map blk_ID bs) \<Longrightarrow> \<forall>b \<in> set bs. \<not> Status_Decided (st (blk_ID b)) \<Longrightarrow>
   history_ok root st0 head (\<lambda>i. if i \<in> blk_ID ` set bs then Rejected else st i) (es @ map RejectedBlock bs)"
proof (induction bs arbitrary: st es)
  case (Cons b bs)
  have h: "history_ok root st0 head (st(blk_ID b := Rejected)) (es @ [RejectedBlock b])"
    by (rule history_reject) (use Cons.prems in auto)
  have d: "\<forall>b' \<in> set bs. \<not> Status_Decided ((st(blk_ID b := Rejected)) (blk_ID b'))"
    using Cons.prems(2,3) by (metis distinct.simps(2) fun_upd_other image_eqI list.set_intros(2) list.set_map list.simps(9))
  from Cons.IH [OF h _ d] Cons.prems(2)
  have "history_ok root st0 head (\<lambda>i. if i \<in> blk_ID ` set bs then Rejected else (st(blk_ID b := Rejected)) i)
      ((es @ [RejectedBlock b]) @ map RejectedBlock bs)" by simp
  moreover have "(\<lambda>i. if i \<in> blk_ID ` set bs then Rejected else (st(blk_ID b := Rejected)) i)
      = (\<lambda>i. if i \<in> blk_ID ` set (b # bs) then Rejected else st i)" by auto
  ultimately show ?case by simp
qed simp

text \<open>The state after some blocks were rejected and removed: what is left is as before.\<close>

definition shrunk :: "Topological \<Rightarrow> Topological \<Rightarrow> bool" where
  "shrunk ts ts' \<longleftrightarrow> ts_params ts' = ts_params ts \<and> ts_head ts' = ts_head ts \<and> preferredIDs ts' = preferredIDs ts
     \<and> ts_tail ts' = ts_tail ts \<and> block_at ts' \<subseteq>\<^sub>m block_at ts
     \<and> (\<forall>c. Status_Decided (statuses ts c) \<longrightarrow> Status_Decided (statuses ts' c))
     \<and> (\<forall>c \<in> dom (block_at ts). Status_Decided (statuses ts' c) \<or> c \<in> dom (block_at ts'))"

lemma shrunk_refl: "shrunk ts ts"
  by (simp add: shrunk_def)

lemma shrunk_trans: "shrunk ts ts' \<Longrightarrow> shrunk ts' ts'' \<Longrightarrow> shrunk ts ts''"
  unfolding shrunk_def by (metis map_le_trans)

lemma reject_step:
  assumes "ts_linked ts (insert x X) old" "x \<notin> X" "history_ok root st0 (ts_head ts) (statuses ts) (events ts)"
    and "block_at ts x = Some n"
    and "reject_children vm (sn_children n) (ts\<lparr>ts_blocks := AList.delete x (ts_blocks ts)\<rparr>) = Inr (ts', r)"
  shows "ts_linked ts' (X \<union> set r) old" "history_ok root st0 (ts_head ts') (statuses ts') (events ts')"
    "shrunk ts ts'" "distinct r" "set r \<inter> X = {}"
proof -
  let ?cs = "sn_children n"
  have l: "links (dom (block_at ts)) (kids ts) (blk_of ts) (ts_head ts) (statuses ts) (insert x X) old"
    and wf: "wf_gomap ?cs" "wf_gomap (ts_blocks ts)"
    using ts_linkedD [OF assms(1)] assms(4) by (simp_all add: node_ok_def)
  have r: "r = map fst ?cs" and ts': "ts' = ts\<lparr>ts_blocks := AList.delete x (ts_blocks ts),
      statuses := (\<lambda>i. if i \<in> blk_ID ` snd ` set ?cs then Rejected else statuses ts i),
      events := events ts @ map RejectedBlock (map snd ?cs)\<rparr>"
    using reject_children_Inr [OF assms(5)] by (auto cong: if_cong)
  have kx: "kids ts x = map_of ?cs" using assms(4) by (simp add: kids_def fun_eq_iff)
  have "x \<in> dom (block_at ts)" "x \<notin> old" using assms(4) links_head(5) [OF l] by auto
  note kid = links_child [OF l this, unfolded kx]
  have entry: "blk_ID b = c \<and> \<not> Status_Decided (statuses ts c)" if "(c, b) \<in> set ?cs" for c b
    using kid(6,9) [of c b] that wf(1) by simp
  have ids: "map blk_ID (map snd ?cs) = map fst ?cs" using entry by auto
  then have C: "blk_ID ` snd ` set ?cs = dom (kids ts x)" "set r = dom (kids ts x)"
    by (metis image_set kx dom_map_of_conv_image_fst) (simp add: kx r dom_map_of_conv_image_fst)
  have "statuses ts' = (\<lambda>i. if i \<in> set r then Rejected else statuses ts i)" by (simp add: ts' C)
  note lr = links_reject [OF l assms(2) C(2) this]
  have "links (dom (block_at ts')) (kids ts') (blk_of ts') (ts_head ts') (statuses ts') (X \<union> set r) old"
  proof -
    have "dom (block_at ts') = dom (block_at ts) - {x}" "ts_head ts' = ts_head ts" by (auto simp: ts')
    moreover have "kids ts' i = kids ts i" "blk_of ts' i = blk_of ts i" if "i \<in> dom (block_at ts) - {x}" for i
      using that by (simp_all add: ts' kids_def [abs_def] blk_of_def)
    ultimately show ?thesis using links_cong [OF lr(1), of "kids ts'" "blk_of ts'"] by simp
  qed
  moreover have "node_ok (ts_params ts') m" if "block_at ts' i = Some m" for i m
    using that ts_linkedD(2) [OF assms(1), of i m] by (simp add: ts' split: if_splits)
  ultimately show "ts_linked ts' (X \<union> set r) old"
    using ts_linkedD(4) [OF assms(1)] wf(2) by (simp add: ts_linked_def ts' distinct_delete)
  show "history_ok root st0 (ts_head ts') (statuses ts') (events ts')"
  proof -
    have d: "distinct (map blk_ID (map snd ?cs))" unfolding ids by (rule wf(1))
    have "\<forall>b \<in> set (map snd ?cs). \<not> Status_Decided (statuses ts (blk_ID b))" using entry by auto
    from history_rejects [OF assms(3) d this] show ?thesis by (simp add: ts')
  qed
  have "Status_Decided (statuses ts x)" using links_head(6) [OF l] by simp
  then show "shrunk ts ts'" by (auto simp: shrunk_def ts' map_le_def)
  show "distinct r" "set r \<inter> X = {}" using wf(1) lr(2) C by (auto simp: r)
qed

lemma rejectTransitively_safe:
  assumes "ts_linked ts (set stack) old" "distinct stack" "history_ok root st0 (ts_head ts) (statuses ts) (events ts)"
  shows "(\<forall>ts'. rejectTransitively vm stack ts = Inr ts' \<longrightarrow> ts_linked ts' {} old
      \<and> history_ok root st0 (ts_head ts') (statuses ts') (events ts') \<and> shrunk ts ts')
    \<and> (\<forall>e. rejectTransitively vm stack ts = Inl e \<longrightarrow> (\<exists>b. e = RejectError b \<and> reject_fails vm b))"
  using assms
proof (induction vm stack ts rule: rejectTransitively.induct)
  case (1 vm ts)
  then show ?case by (simp add: shrunk_refl)
next
  case (2 vm x xs ts)
  have "x \<in> dom (block_at ts)" using links_head(5) [OF ts_linkedD(1) [OF "2.prems"(1)]] by auto
  then obtain n where n: "block_at ts x = Some n" by auto
  let ?ts = "ts\<lparr>ts_blocks := AList.delete x (ts_blocks ts)\<rparr>"
  show ?case
  proof (cases "reject_children vm (sn_children n) ?ts")
    case (Inl e)
    with n reject_children_Inl show ?thesis by fastforce
  next
    case (Inr p)
    obtain ts' r where p: "p = (ts', r)" by fastforce
    note st = reject_step [of ts x "set xs" old root st0 n vm ts' r]
    have st: "ts_linked ts' (set (rev r @ xs)) old" "history_ok root st0 (ts_head ts') (statuses ts') (events ts')" "shrunk ts ts'"
      "distinct (rev r @ xs)"
      using st "2.prems" n Inr p by (auto simp: Un_commute)
    from "2.IH" [OF n refl _ p [symmetric] st(1,4,2)] Inr p n st(3) show ?thesis
      by (auto intro: shrunk_trans)
  qed
qed

subsection \<open>Accepting\<close>

lemma keys_filter_neq: "fst ` set (filter (\<lambda>(k, _). k \<noteq> c) m) = fst ` set m - {c}"
  by (induction m) auto

lemma accept_rejects_siblings:
  assumes "ts_linked ts {} {}" "history_ok root st0 (ts_head ts) (statuses ts) (events ts)"
    and n: "block_at ts (ts_head ts) = Some n" and c: "map_of (sn_children n) c = Some b"
    and ts1: "ts1 = ts\<lparr>statuses := (statuses ts)(c := Accepted), events := events ts @ [NotifiedAcceptor b, AcceptedBlock b],
      ts_head := c, ts_height := h, preferredIDs := pr\<rparr>"
    and "reject_children vm (filter (\<lambda>(i, _). i \<noteq> c) (sn_children n)) ts1 = Inr (ts2, r)"
  shows "ts_linked ts2 (set r) {ts_head ts}" "distinct r" "history_ok root st0 (ts_head ts2) (statuses ts2) (events ts2)"
    "shrunk ts1 ts2" "ts_head ts2 = c"
proof -
  let ?p = "ts_head ts" and ?cs = "filter (\<lambda>(i, _). i \<noteq> c) (sn_children n)"
  note l = ts_linkedD(1) [OF assms(1)]
  have wf: "wf_gomap (sn_children n)" using ts_linkedD(2) [OF assms(1) n] by (simp add: node_ok_def)
  have kp: "kids ts ?p = map_of (sn_children n)" using n by (simp add: kids_def fun_eq_iff)
  note kid = links_child [OF l links_head(1) [OF l], unfolded kp]
  have b: "blk_ID b = c" "blk_Parent b = ?p" "\<not> Status_Decided (statuses ts c)" using kid [OF _ c] by auto
  have r: "r = map fst ?cs" and ts2: "ts2 = ts1\<lparr>statuses := (\<lambda>i. if i \<in> blk_ID ` snd ` set ?cs then Rejected else statuses ts1 i),
      events := events ts1 @ map RejectedBlock (map snd ?cs)\<rparr>"
    using reject_children_Inr [OF assms(6)] by auto
  have entry: "blk_ID d = i \<and> \<not> Status_Decided (statuses ts i) \<and> i \<noteq> c" if "(i, d) \<in> set ?cs" for i d
    using kid(6,9) [of i d] that wf by simp
  have ids: "map blk_ID (map snd ?cs) = map fst ?cs" using entry by auto
  have S: "set r = dom (kids ts ?p) - {c}"
    unfolding kp r dom_map_of_conv_image_fst set_map by (rule keys_filter_neq)
  have st: "statuses ts2 = (\<lambda>i. if i = c then Accepted else if i \<in> set r then Rejected else statuses ts i)"
  proof -
    have "blk_ID ` snd ` set ?cs = set r" using arg_cong [OF ids, of set] unfolding r set_map .
    moreover have "c \<notin> set r" by (auto simp: S)
    ultimately show ?thesis by (auto simp: ts2 ts1 fun_eq_iff)
  qed
  have "links (dom (block_at ts2)) (kids ts2) (blk_of ts2) (ts_head ts2) (statuses ts2) (set r) {?p}"
  proof -
    have "kids ts2 = kids ts" "blk_of ts2 = blk_of ts" "block_at ts2 = block_at ts" "ts_head ts2 = c"
      by (simp_all add: ts2 ts1 kids_def [abs_def] blk_of_def [abs_def])
    moreover have "kids ts ?p c = Some b" using c kp by simp
    ultimately show ?thesis using links_accept [OF l _ S st] by simp
  qed
  then show "ts_linked ts2 (set r) {?p}"
    using ts_linkedD(2-4) [OF assms(1)] by (simp add: ts_linked_def ts2 ts1)
  show "distinct r" using wf by (simp add: r distinct_map_filter)
  show "ts_head ts2 = c" by (simp add: ts2 ts1)
  have h: "history_ok root st0 c (statuses ts1) (events ts1)"
    using history_accept [OF assms(2), of b] b by (simp add: ts1)
  have d: "distinct (map blk_ID (map snd ?cs))" unfolding ids using wf by (simp add: distinct_map_filter)
  have "\<forall>d \<in> set (map snd ?cs). \<not> Status_Decided (statuses ts1 (blk_ID d))" using entry by (auto simp: ts1)
  from history_rejects [OF h d this] show "history_ok root st0 (ts_head ts2) (statuses ts2) (events ts2)"
    by (simp add: ts2 ts1)
  show "shrunk ts1 ts2" by (simp add: shrunk_def ts2)
qed

lemma linked_drop:
  assumes "ts_linked ts {} {p}"
  shows "ts_linked (ts\<lparr>ts_blocks := AList.delete p (ts_blocks ts)\<rparr>) {} {}" (is "ts_linked ?ts {} {}")
proof -
  have "dom (block_at ?ts) = dom (block_at ts) - {p}" by auto
  moreover have "kids ?ts i = kids ts i" "blk_of ?ts i = blk_of ts i" if "i \<in> dom (block_at ts) - {p}" for i
    using that by (simp_all add: kids_def [abs_def] blk_of_def)
  ultimately have "links (dom (block_at ?ts)) (kids ?ts) (blk_of ?ts) (ts_head ?ts) (statuses ?ts) {} {}"
    using links_cong [OF links_done [OF ts_linkedD(1) [OF assms]]] by simp
  moreover have "node_ok (ts_params ts) m" if "block_at ?ts i = Some m" for i m
    using that ts_linkedD(2) [OF assms, of i m] by (simp split: if_splits)
  ultimately show ?thesis
    using ts_linkedD(3,4) [OF assms] by (simp add: ts_linked_def distinct_delete)
qed

text \<open>What a round of voting keeps: decisions are kept, blocks leave the tree only when they are decided,
  and the parameters do not change.\<close>

definition advanced :: "Topological \<Rightarrow> Topological \<Rightarrow> bool" where
  "advanced ts ts' \<longleftrightarrow> ts_params ts' = ts_params ts
     \<and> (\<forall>c. Status_Decided (statuses ts c) \<longrightarrow> Status_Decided (statuses ts' c))
     \<and> (\<forall>c \<in> dom (block_at ts). Status_Decided (statuses ts' c) \<or> c \<in> dom (block_at ts'))"

lemma advanced_refl: "advanced ts ts"
  by (simp add: advanced_def)

lemma advanced_trans: "advanced ts ts' \<Longrightarrow> advanced ts' ts'' \<Longrightarrow> advanced ts ts''"
  unfolding advanced_def by metis

lemma advanced_shrunk: "shrunk ts ts' \<Longrightarrow> advanced ts ts'"
  by (simp add: shrunk_def advanced_def)

definition ts_safe :: "ID \<Rightarrow> (ID \<Rightarrow> Status) \<Rightarrow> Topological \<Rightarrow> bool" where
  "ts_safe root st0 ts \<longleftrightarrow> ts_linked ts {} {} \<and> history_ok root st0 (ts_head ts) (statuses ts) (events ts)"

fun vm_error :: "VM \<Rightarrow> ts_error \<Rightarrow> bool" where
  "vm_error vm (AcceptorError b) = acceptor_fails vm b"
| "vm_error vm (AcceptError b) = accept_fails vm b"
| "vm_error vm (RejectError b) = reject_fails vm b"
| "vm_error vm _ = False"

text \<open>Accepting the preferred child of the head, and dropping the old head. Only the VM can fail.\<close>

lemma accept_safe:
  assumes "ts_safe root st0 ts" "block_at ts (ts_head ts) = Some n" "sn_sb n = Some sb"
    and "map_of (sn_children n) (Tree_Preference sb) = Some b"
    and "res = res_bind (acceptPreferredChild vm n ts) (\<lambda>ts'. Inr (ts'\<lparr>ts_blocks := AList.delete (ts_head ts) (ts_blocks ts')\<rparr>))"
  shows "(\<forall>ts'. res = Inr ts' \<longrightarrow> ts_safe root st0 ts' \<and> advanced ts ts' \<and> ts_head ts' = Tree_Preference sb
      \<and> block_at ts' \<subseteq>\<^sub>m block_at ts \<and> preferredIDs ts' = preferredIDs ts - {Tree_Preference sb} \<and> ts_tail ts' = ts_tail ts)
    \<and> (\<forall>e. res = Inl e \<longrightarrow> vm_error vm e)"
proof -
  let ?c = "Tree_Preference sb" and ?p = "ts_head ts"
  define ts1 where "ts1 = ts\<lparr>statuses := (statuses ts)(?c := Accepted),
    events := events ts @ [NotifiedAcceptor b, AcceptedBlock b], ts_head := ?c, ts_height := blk_Height b,
    preferredIDs := preferredIDs ts - {?c}\<rparr>"
  have s: "ts_linked ts {} {}" "history_ok root st0 ?p (statuses ts) (events ts)" using assms(1) by (auto simp: ts_safe_def)
  note l = ts_linkedD(1) [OF s(1)]
  have id: "blk_ID b = ?c"
    using links_child(6) [OF l links_head(1) [OF l], of ?c b] assms(2,4) by (simp add: kids_def)
  show ?thesis
  proof (cases "acceptor_fails vm b \<or> accept_fails vm b")
    case True
    with assms(3-5) show ?thesis by (auto simp: acceptPreferredChild_def Accept_blk_def)
  next
    case False
    let ?rej = "reject_children vm (filter (\<lambda>(i, _). i \<noteq> ?c) (sn_children n)) ts1"
    have res: "res = res_bind ?rej (\<lambda>(ts2, r). res_bind (rejectTransitively vm (rev r) ts2)
        (\<lambda>ts'. Inr (ts'\<lparr>ts_blocks := AList.delete ?p (ts_blocks ts')\<rparr>)))"
      using False assms(3-5) id
      by (cases ?rej) (auto simp: acceptPreferredChild_def Accept_blk_def Let_def ts1_def split: prod.splits)
    show ?thesis
    proof (cases ?rej)
      case (Inl e)
      with res reject_children_Inl show ?thesis by fastforce
    next
      case (Inr q)
      obtain ts2 r where q: "q = (ts2, r)" by fastforce
      note st = accept_rejects_siblings [OF s assms(2,4) ts1_def Inr [unfolded q]]
      have "ts_linked ts2 (set (rev r)) {?p}" "distinct (rev r)" using st by auto
      note rt = rejectTransitively_safe [OF this st(3), of vm]
      show ?thesis
      proof (cases "rejectTransitively vm (rev r) ts2")
        case (Inl e)
        with rt res Inr q show ?thesis by auto
      next
        case fin: (Inr ts3)
        let ?ts' = "ts3\<lparr>ts_blocks := AList.delete ?p (ts_blocks ts3)\<rparr>"
        have ts3: "ts_linked ts3 {} {?p}" "history_ok root st0 (ts_head ts3) (statuses ts3) (events ts3)" "shrunk ts1 ts3"
          "ts_head ts3 = ?c"
          using rt fin st(4,5) shrunk_trans [OF st(4)] by (auto simp: shrunk_def)
        have "advanced ts ts1" by (auto simp: advanced_def ts1_def)
        with ts3(3) have adv: "advanced ts ts3" using advanced_shrunk advanced_trans by blast
        moreover have "Status_Decided (statuses ts3 ?p)"
          using adv links_head(4) [OF l] by (simp add: advanced_def)
        ultimately have "advanced ts ?ts'" by (auto simp: advanced_def)
        moreover have "block_at ?ts' \<subseteq>\<^sub>m block_at ts" "preferredIDs ?ts' = preferredIDs ts - {?c}" "ts_tail ?ts' = ts_tail ts"
          using ts3(3) by (auto simp: shrunk_def ts1_def map_le_def)
        ultimately show ?thesis using res Inr q fin ts3 linked_drop [OF ts3(1)] by (simp add: ts_safe_def)
      qed
    qed
  qed
qed

subsection \<open>Voting\<close>

lemma advanced_blocks:
  "dom (block_at ts') = dom (block_at ts) \<Longrightarrow> statuses ts' = statuses ts \<Longrightarrow> ts_params ts' = ts_params ts \<Longrightarrow> advanced ts ts'"
  by (simp add: advanced_def)

lemma falter_children_keep:
  "core ((fold (falter_child f nextID) cs ts)\<lparr>ts_blocks := bs\<rparr>) = core (ts\<lparr>ts_blocks := bs\<rparr>)
   \<and> dom (block_at (fold (falter_child f nextID) cs ts)) = dom (block_at ts)
   \<and> preferredIDs (fold (falter_child f nextID) cs ts) = preferredIDs ts \<and> ts_tail (fold (falter_child f nextID) cs ts) = ts_tail ts"
proof (induction cs arbitrary: ts)
  case (Cons c cs)
  have "core ((falter_child f nextID c ts)\<lparr>ts_blocks := bs\<rparr>) = core (ts\<lparr>ts_blocks := bs\<rparr>)"
    "dom (block_at (falter_child f nextID c ts)) = dom (block_at ts)"
    "preferredIDs (falter_child f nextID c ts) = preferredIDs ts" "ts_tail (falter_child f nextID c ts) = ts_tail ts"
    by (auto simp: falter_child_def core_def split: option.splits)
  with Cons.IH [of "falter_child f nextID c ts"] show ?case by simp
qed simp

lemma safe_falter_children:
  assumes "ts_safe root st0 ts"
  shows "ts_safe root st0 (fold (falter_child f nextID) cs ts)" "advanced ts (fold (falter_child f nextID) cs ts)"
  using assms linked_falter_children [of ts "{}" "{}" f nextID cs] falter_children_keep [of "[]" f nextID cs ts]
  by (auto simp: ts_safe_def core_def intro: advanced_blocks)

lemma vote_round_safe:
  assumes "ts_safe root st0 ts"
  shows "(\<forall>ts' pref. vote_round vm p votes nextID ts = Inr (Some (ts', pref)) \<longrightarrow> ts_safe root st0 ts' \<and> advanced ts ts')
    \<and> (\<forall>e. vote_round vm p votes nextID ts = Inl e \<longrightarrow> vm_error vm e \<or> e = NilDereference)"
proof (cases "block_at ts p")
  case None
  then show ?thesis by (simp add: vote_round_def)
next
  case (Some n)
  show ?thesis
  proof (cases "sn_sb n")
    case None
    with Some show ?thesis by (simp add: vote_round_def)
  next
    case sb: (Some sb)
    let ?f = "sn_shouldFalter n"
    define sb' where "sb' = fst (Tree_RecordPoll votes (if ?f then Tree_RecordUnsuccessfulPoll sb else sb))"
    define n' where "n' = n\<lparr>sn_sb := Some sb', sn_shouldFalter := False\<rparr>"
    define ts1 where "ts1 = ts\<lparr>ts_blocks := AList.update p n' (ts_blocks ts)\<rparr>"
    have l: "ts_linked ts {} {}" "history_ok root st0 (ts_head ts) (statuses ts) (events ts)"
      using assms by (auto simp: ts_safe_def)
    note ok = node_ok_poll [OF ts_linkedD(2) [OF l(1) Some] sb n'_def sb'_def]
    have ts1: "ts_safe root st0 ts1" "advanced ts ts1" "ts_head ts1 = ts_head ts" "block_at ts1 p = Some n'"
      using linked_update [OF l(1) Some ok(1)] l(2) Some
      by (auto simp: ts_safe_def ts1_def n'_def advanced_def)
    define res where "res = (if Tree_Finalized sb' \<and> ts_head ts1 = p
      then res_bind (acceptPreferredChild vm n' ts1) (\<lambda>ts. Inr (ts\<lparr>ts_blocks := AList.delete p (ts_blocks ts)\<rparr>)) else Inr ts1)"
    have eq: "vote_round vm p votes nextID ts = res_bind res (\<lambda>ts.
        Inr (Some (fold (falter_child ?f nextID) (map fst (sn_children n')) ts, Tree_Preference sb')))"
      using Some sb by (simp add: vote_round_def Let_def res_def ts1_def n'_def sb'_def)
    have "(\<forall>ts'. res = Inr ts' \<longrightarrow> ts_safe root st0 ts' \<and> advanced ts1 ts') \<and> (\<forall>e. res = Inl e \<longrightarrow> vm_error vm e)"
    proof (cases "Tree_Finalized sb' \<and> ts_head ts1 = p")
      case True
      then obtain b where "map_of (sn_children n') (Tree_Preference sb') = Some b" using ok(2) by (auto simp: n'_def)
      with accept_safe [OF ts1(1) _ _ this, of _ vm] True ts1(4) show ?thesis by (simp add: res_def n'_def)
    next
      case False
      with ts1(1) show ?thesis by (auto simp: res_def advanced_refl)
    qed
    with eq ts1(2) show ?thesis
      by (cases res) (auto intro: advanced_trans safe_falter_children)
  qed
qed

lemma vote_loop_safe:
  "ts_safe root st0 ts \<Longrightarrow> vote_loop vm st pref on ts = Inr (ts', pref') \<Longrightarrow> ts_safe root st0 ts' \<and> advanced ts ts'"
proof (induction st arbitrary: pref on ts)
  case Nil
  then show ?case by (simp add: advanced_refl)
next
  case (Cons v st)
  obtain p votes where v: "v = (p, votes)" by fastforce
  let ?next = "case st of [] \<Rightarrow> Empty_ID | (next, _) # _ \<Rightarrow> next"
  show ?case
  proof (cases "vote_round vm p votes ?next ts")
    case (Inl e)
    with Cons.prems v show ?thesis by simp
  next
    case (Inr r)
    show ?thesis
    proof (cases r)
      case None
      with Inr Cons.prems v show ?thesis by (simp add: advanced_refl)
    next
      case (Some q)
      obtain ts1 pp where q: "q = (ts1, pp)" by fastforce
      have "ts_safe root st0 ts1" "advanced ts ts1" using vote_round_safe [OF Cons.prems(1)] Inr Some q by blast+
      with Cons.IH [of ts1] Cons.prems(2) Inr Some q v show ?thesis by (auto intro: advanced_trans)
    qed
  qed
qed

lemma ts_safe_core: "core ts' = core ts \<Longrightarrow> ts_safe root st0 ts' = ts_safe root st0 ts"
  using ts_linked_core [of ts' ts] by (simp add: ts_safe_def) (simp add: core_def)

lemma advanced_core: "core ts' = core ts \<Longrightarrow> advanced ts ts'"
  by (simp add: core_def advanced_def)

lemma ts_vote_safe:
  assumes "ts_safe root st0 ts" "ts_vote vm st ts = Inr (ts', pref)"
  shows "ts_safe root st0 ts' \<and> advanced ts ts'"
proof (cases "st = []")
  case True
  with assms(2) obtain n where n: "block_at ts (ts_head ts) = Some n"
    and ts': "ts' = ts\<lparr>ts_blocks := AList.update (ts_head ts) (n\<lparr>sn_shouldFalter := True\<rparr>) (ts_blocks ts)\<rparr>"
    by (auto simp: ts_vote_def split: option.splits)
  have "ts_linked ts {} {}" using assms(1) by (simp add: ts_safe_def)
  from linked_falter [OF this n, of True] assms(1) n show ?thesis
    by (auto simp: ts_safe_def ts' advanced_def)
next
  case False
  with assms vote_loop_safe show ?thesis by (auto simp: ts_vote_def)
qed

lemma RecordPoll_safe:
  assumes "ts_safe root st0 ts" "ts_RecordPoll vm pop votes ts = Inr ts'"
  shows "ts_safe root st0 ts' \<and> advanced ts ts'"
proof -
  let ?ts = "ts\<lparr>pollNumber := pollNumber ts + 1\<rparr>"
  obtain ts1 st ts2 pref where ts1: "(if Len votes \<ge> Alpha (ts_params ?ts)
      then res_bind (calculateInDegree votes ?ts) (pushVotes pop) else Inr (?ts, [])) = Inr (ts1, st)"
    and ts2: "ts_vote vm st ts1 = Inr (ts2, pref)"
    and ts': "(if pref \<in> preferredIDs ts2 then Inr ts2
      else res_bind (prefer_up (Suc (length (ts_blocks ts2))) pref (ts2\<lparr>preferredIDs := {}, ts_tail := pref\<rparr>))
             (prefer_down (Suc (length (ts_blocks ts2))))) = Inr ts'"
    using assms(2) unfolding ts_RecordPoll_def Let_def by (auto elim!: res_bind_InrE simp: case_prod_beta)
  have "core ts1 = core ts" using ts1 core_collect by (fastforce split: if_splits)
  then have 1: "ts_safe root st0 ts1" "advanced ts ts1" using assms(1) ts_safe_core advanced_core by blast+
  have 2: "ts_safe root st0 ts2" "advanced ts1 ts2" using ts_vote_safe [OF 1(1) ts2] by auto
  have "core ts' = core ts2"
    using ts' by (auto simp: res_bind_Inr_iff simp del: prefer_up.simps prefer_down.simps
        dest!: core_prefer_up core_prefer_down split: if_splits)
  then have 3: "ts_safe root st0 ts'" "advanced ts2 ts'" using 2(1) ts_safe_core advanced_core by blast+
  with 1(2) 2(2) show ?thesis using advanced_trans by blast
qed

subsection \<open>Adding a block\<close>

lemma node_ok_AddChild:
  assumes "valid_params params" "node_ok params n" "valid_ID (blk_ID b)"
  shows "node_ok params (AddChild b n)"
    "sn_blk (AddChild b n) = sn_blk n" "map_of (sn_children (AddChild b n)) = (map_of (sn_children n))(blk_ID b \<mapsto> b)"
proof -
  let ?c = "blk_ID b"
  show "sn_blk (AddChild b n) = sn_blk n" "map_of (sn_children (AddChild b n)) = (map_of (sn_children n))(blk_ID b \<mapsto> b)"
    using assms(2) by (auto simp: AddChild_def Let_def node_ok_def split: option.splits)
  show "node_ok params (AddChild b n)"
  proof (cases "sn_sb n")
    case None
    with assms show ?thesis
      by (auto simp: node_ok_def AddChild_def Let_def tree_inv_Initialize)
  next
    case (Some sb)
    then have sb: "tree_inv sb" "tr_params sb = params" "held (tree_abs sb) \<subseteq> dom (map_of (sn_children n))"
      using assms(2) by (auto simp: node_ok_def)
    have "lazy_ok (tr_node sb)" using sb(1) by (simp add: tree_inv_def)
    from tree_abs_calls [OF this, of "[AddChoice ?c]"] held_calls [of params "[AddChoice ?c]" "tree_abs sb"] sb
    have "tr_params (Tree_Add ?c sb) = params" "held (tree_abs (Tree_Add ?c sb)) \<subseteq> insert ?c (dom (map_of (sn_children n)))"
      by auto
    moreover have "tree_inv (Tree_Add ?c sb)" using tree.add_law [OF sb(1) assms(3)] by simp
    ultimately show ?thesis
      using Some assms(2) by (auto simp: node_ok_def AddChild_def Let_def distinct_update update_nonempty)
  qed
qed

lemma Add_tree_linked:
  assumes "ts_linked ts {} {}" "block_at ts p = Some n" "blk_Parent b = p" "valid_ID (blk_ID b)"
    and "\<not> Status_Decided (statuses ts (blk_ID b))" "blk_ID b \<notin> dom (block_at ts)"
    and "new = \<lparr>sn_params = ts_params ts, sn_blk = Some b, sn_shouldFalter = False, sn_sb = None, sn_children = []\<rparr>"
  shows "ts_linked (ts\<lparr>ts_blocks := AList.update (blk_ID b) new (AList.update p (AddChild b n) (ts_blocks ts))\<rparr>) {} {}"
    (is "ts_linked ?ts {} {}")
proof -
  let ?c = "blk_ID b"
  note l = ts_linkedD(1) [OF assms(1)]
  note ac = node_ok_AddChild [OF ts_linkedD(4) [OF assms(1)] ts_linkedD(2) [OF assms(1,2)] assms(4)]
  have cp: "?c \<noteq> p" using assms(2,6) by auto
  have "kids ?ts = (kids ts)(p := (kids ts p)(?c \<mapsto> b), ?c := (\<lambda>_. None))" "blk_of ?ts = (blk_of ts)(?c \<mapsto> b)"
    "dom (block_at ?ts) = insert ?c (dom (block_at ts))"
    using assms(2,7) cp ac(2,3) by (auto simp: kids_def blk_of_def fun_eq_iff)
  with links_add [OF l _ assms(6) refl assms(3-5) refl refl] assms(2)
  have "links (dom (block_at ?ts)) (kids ?ts) (blk_of ?ts) (ts_head ?ts) (statuses ?ts) {} {}" by auto
  moreover have "node_ok (ts_params ts) m" if "block_at ?ts i = Some m" for i m
    using that ac(1) assms(7) ts_linkedD(2) [OF assms(1), of i m] by (auto simp: node_ok_def split: if_splits)
  ultimately show ?thesis
    using ts_linkedD(3,4) [OF assms(1)] by (simp add: ts_linked_def distinct_update)
qed

lemma Add_safe:
  assumes "ts_safe root st0 ts" "valid_ID (blk_ID b)" "ts_Add vm b ts = Inr ts'"
  shows "ts_safe root st0 ts' \<and> advanced ts ts' \<and> \<not> Status_Decided (statuses ts (blk_ID b))
    \<and> (Status_Decided (statuses ts' (blk_ID b)) \<or> blk_ID b \<in> dom (block_at ts'))"
proof -
  let ?c = "blk_ID b" and ?p = "blk_Parent b"
  have l: "ts_linked ts {} {}" "history_ok root st0 (ts_head ts) (statuses ts) (events ts)"
    using assms(1) by (auto simp: ts_safe_def)
  have u: "\<not> Status_Decided (statuses ts ?c)" "?c = ts_head ts \<or> ?c \<notin> dom (block_at ts)"
    using assms(3) by (auto simp: ts_Add_def Let_def ts_Decided_def ts_Processing_def split: if_splits)
  moreover have "?c \<noteq> ts_head ts" using links_head(4) [OF ts_linkedD(1) [OF l(1)]] u(1) by auto
  ultimately have u: "\<not> Status_Decided (statuses ts ?c)" "?c \<notin> dom (block_at ts)" by auto
  show ?thesis
  proof (cases "block_at ts ?p")
    case None
    with assms(3) have ts': "ts' = ts\<lparr>statuses := (statuses ts)(?c := Rejected), events := events ts @ [RejectedBlock b]\<rparr>"
      by (auto simp: ts_Add_def Let_def Reject_blk_def split: if_splits)
    have "links (dom (block_at ts)) (kids ts) (blk_of ts) (ts_head ts) ((statuses ts)(?c := Rejected)) {} {}"
      by (rule links_cong [OF ts_linkedD(1) [OF l(1)]]) (use u(2) in auto)
    then have "ts_linked ts' {} {}" using l(1) by (simp add: ts_linked_def ts' kids_def [abs_def] blk_of_def [abs_def])
    with history_reject [OF l(2) u(1)] u show ?thesis by (auto simp: ts_safe_def ts' advanced_def)
  next
    case (Some n)
    let ?new = "\<lparr>sn_params = ts_params ts, sn_blk = Some b, sn_shouldFalter = False, sn_sb = None, sn_children = []\<rparr>"
    let ?ts = "ts\<lparr>ts_blocks := AList.update ?c ?new (AList.update ?p (AddChild b n) (ts_blocks ts))\<rparr>"
    from assms(3) Some have core: "core ts' = core ?ts"
      by (auto simp: ts_Add_def Let_def core_def split: if_splits)
    have "ts_safe root st0 ?ts"
      using Add_tree_linked [OF l(1) Some refl assms(2) u refl] l(2) by (simp add: ts_safe_def)
    with core u(1) show ?thesis
      using ts_safe_core [OF core] by (auto simp: core_def advanced_def)
  qed
qed

subsection \<open>Runs\<close>

lemma safe_Initialize:
  assumes "ts_Initialize params root h st0 = Inr ts" "st0 root = Accepted"
  shows "ts_safe root st0 ts"
proof -
  have v: "valid_params params" and ts: "ts = \<lparr>pollNumber = 0, ts_params = params, ts_head = root, ts_height = h,
      ts_blocks = [(root, \<lparr>sn_params = params, sn_blk = None, sn_shouldFalter = False, sn_sb = None, sn_children = []\<rparr>)],
      preferredIDs = {}, ts_tail = root, leaves = [], kahnNodes = [], statuses = st0, events = []\<rparr>"
    using assms(1) by (auto simp: ts_Initialize_def valid_params_Verify split: option.splits)
  have "links (dom (block_at ts)) (kids ts) (blk_of ts) root st0 {} {}"
    by (rule linksI) (auto simp: ts assms(2) kids_def blk_of_def)
  with v show ?thesis by (simp add: ts_safe_def ts_linked_def history_ok_def ts node_ok_def)
qed

text \<open>\<open>traced ts0 I ts\<close>: the state is safe, decisions since \<open>ts0\<close> are kept, and the blocks of \<open>I\<close> were undecided
  and are decided or in the tree.\<close>

definition traced :: "ID \<Rightarrow> (ID \<Rightarrow> Status) \<Rightarrow> ID set \<Rightarrow> Topological \<Rightarrow> bool" where
  "traced root st0 I ts \<longleftrightarrow> ts_safe root st0 ts
     \<and> (\<forall>c. Status_Decided (st0 c) \<longrightarrow> Status_Decided (statuses ts c))
     \<and> (\<forall>c \<in> I. \<not> Status_Decided (st0 c) \<and> (Status_Decided (statuses ts c) \<or> c \<in> dom (block_at ts)))"

lemma traced_advanced:
  assumes "traced root st0 I ts" "ts_safe root st0 ts'" "advanced ts ts'"
  shows "traced root st0 I ts'"
  using assms unfolding traced_def advanced_def by blast

lemma traced_step:
  assumes "traced root st0 I ts" "\<And>b. c = Issue b \<Longrightarrow> valid_ID (blk_ID b)" "ts_step vm pop c ts = Inr ts'"
  shows "traced root st0 (I \<union> {blk_ID b | b. c = Issue b}) ts'"
proof (cases c)
  case (Issue b)
  have s: "ts_safe root st0 ts" using assms(1) by (simp add: traced_def)
  note a = Add_safe [OF s assms(2) [OF Issue] assms(3) [unfolded Issue ts_step.simps]]
  have "traced root st0 I ts'" using traced_advanced [OF assms(1)] a by blast
  moreover have "\<not> Status_Decided (st0 (blk_ID b))" using assms(1) a unfolding traced_def by blast
  ultimately have "traced root st0 (insert (blk_ID b) I) ts'" using a unfolding traced_def by blast
  moreover have "I \<union> {blk_ID b | b. c = Issue b} = insert (blk_ID b) I" using Issue by auto
  ultimately show ?thesis by simp
next
  case (RecordVotes votes)
  with assms have "ts_safe root st0 ts' \<and> advanced ts ts'"
    using RecordPoll_safe [of root st0 ts vm pop votes ts'] by (simp add: traced_def)
  with traced_advanced [OF assms(1)] RecordVotes show ?thesis by simp
qed

lemma traced_run:
  "traced root st0 I ts \<Longrightarrow> \<forall>b. Issue b \<in> set calls \<longrightarrow> valid_ID (blk_ID b) \<Longrightarrow> ts_run vm pop calls ts = Inr ts'
   \<Longrightarrow> traced root st0 (I \<union> {blk_ID b | b. Issue b \<in> set calls}) ts'"
proof (induction calls arbitrary: I ts)
  case (Cons c calls)
  then obtain ts1 where ts1: "ts_step vm pop c ts = Inr ts1" "ts_run vm pop calls ts1 = Inr ts'"
    by (auto elim: res_bind_InrE)
  from Cons.IH [OF traced_step [OF Cons.prems(1) _ ts1(1)] _ ts1(2)] Cons.prems(2)
  have "traced root st0 (I \<union> {blk_ID b | b. c = Issue b} \<union> {blk_ID b | b. Issue b \<in> set calls}) ts'" by auto
  moreover have "I \<union> {blk_ID b | b. c = Issue b} \<union> {blk_ID b | b. Issue b \<in> set calls}
      = I \<union> {blk_ID b | b. Issue b \<in> set (c # calls)}" by auto
  ultimately show ?case by simp
qed simp

lemma traced_from_Initialize:
  assumes "ts_Initialize params root h st0 = Inr ts0" "st0 root = Accepted"
    and "\<forall>b. Issue b \<in> set calls \<longrightarrow> valid_ID (blk_ID b)" "ts_run vm pop calls ts0 = Inr ts"
  shows "traced root st0 {blk_ID b | b. Issue b \<in> set calls} ts"
proof -
  have "statuses ts0 = st0" using assms(1) by (auto simp: ts_Initialize_def split: option.splits)
  then have "traced root st0 {} ts0" using safe_Initialize [OF assms(1,2)] by (simp add: traced_def)
  from traced_run [OF this assms(3,4)] show ?thesis by simp
qed

text \<open>A block of the tree that is not the head is undecided.\<close>

lemma processing_undecided:
  assumes "ts_safe root st0 ts" "ts_Processing ts c"
  shows "\<not> Status_Decided (statuses ts c)"
proof -
  have l: "links (dom (block_at ts)) (kids ts) (blk_of ts) (ts_head ts) (statuses ts) {} {}"
    using assms(1) ts_linkedD(1) by (simp add: ts_safe_def)
  have "c \<in> dom (block_at ts)" "c \<noteq> ts_head ts" using assms(2) by (auto simp: ts_Processing_def)
  from links_parent [OF l this(1) _ _ this(2)]
  obtain b where "blk_Parent b \<in> dom (block_at ts)" "kids ts (blk_Parent b) c = Some b" by blast
  from links_child(9) [OF l this(1) _ this(2)] show ?thesis by simp
qed

subsection \<open>Properties\<close>

text \<open>(C1) Accepted blocks form a chain. Whatever blocks are issued, whatever the votes are for and whatever
  order the sets are visited in, the blocks accepted so far are, in the order of their acceptance, a
  chain in which each block names its predecessor as its parent, from the initial block to the last
  accepted one; and no block is accepted or rejected twice, or both accepted and rejected.\<close>

theorem ts_accepts_chain:
  assumes "ts_Initialize params root h st0 = Inr ts0" "st0 root = Accepted"
    and "\<forall>b. Issue b \<in> set calls \<longrightarrow> valid_ID (blk_ID b)" "ts_run vm pop calls ts0 = Inr ts"
  shows "chain_from root (accepted_of (events ts)) \<and> chain_end root (accepted_of (events ts)) = LastAccepted ts
    \<and> distinct (map blk_ID (accepted_of (events ts) @ rejected_of (events ts)))"
  using traced_from_Initialize [OF assms] by (simp add: traced_def ts_safe_def history_ok_def LastAccepted_def)

lemma sample_root: "ts_Initialize sample_params (sample_id 0) 0 sample_statuses = Inr sample_root"
  by (simp add: sample_root_def ts_Initialize_def)

lemma valid_sample_issues: "\<forall>b. Issue b \<in> set (sample_issues @ map RecordVotes vs) \<longrightarrow> valid_ID (blk_ID b)"
  by (auto simp: sample_issues_def sample_block_def)

theorem ts_accepts_chain_witness:
  "\<exists>ts. ts_run quiet_VM hd (sample_issues @ map RecordVotes [Of [sample_id 2, sample_id 2], Of [sample_id 2, sample_id 2]]) sample_root
      = Inr ts \<and> accepted_of (events ts) = [sample_block 2 0 1] \<and> LastAccepted ts = sample_id 2"
proof -
  let ?calls = "sample_issues @ map RecordVotes [Of [sample_id 2, sample_id 2], Of [sample_id 2, sample_id 2]]"
  have "case ts_run quiet_VM hd ?calls sample_root of Inr ts \<Rightarrow> accepted_of (events ts) = [sample_block 2 0 1] | Inl e \<Rightarrow> False"
    by code_simp
  then obtain ts where ts: "ts_run quiet_VM hd ?calls sample_root = Inr ts" "accepted_of (events ts) = [sample_block 2 0 1]"
    by (cases "ts_run quiet_VM hd ?calls sample_root") auto
  with ts_accepts_chain [OF sample_root _ valid_sample_issues ts(1)] show ?thesis
    by (auto simp: sample_statuses_def sample_block_def)
qed

text \<open>(C8) Every issued block has one fate: it has been accepted, or rejected, or is still processing, and
  only one of these.\<close>

theorem ts_decides_every_block:
  assumes "ts_Initialize params root h st0 = Inr ts0" "st0 root = Accepted"
    and "\<forall>b. Issue b \<in> set calls \<longrightarrow> valid_ID (blk_ID b)" "ts_run vm pop calls ts0 = Inr ts"
    and "Issue b \<in> set calls"
    and "acc = (blk_ID b \<in> blk_ID ` set (accepted_of (events ts)))"
    and "rej = (blk_ID b \<in> blk_ID ` set (rejected_of (events ts)))"
    and "pro = ts_Processing ts (blk_ID b)"
  shows "(acc \<and> \<not> rej \<and> \<not> pro) \<or> (\<not> acc \<and> rej \<and> \<not> pro) \<or> (\<not> acc \<and> \<not> rej \<and> pro)"
proof -
  let ?c = "blk_ID b"
  have t: "ts_safe root st0 ts" "\<not> Status_Decided (st0 ?c)" "Status_Decided (statuses ts ?c) \<or> ?c \<in> dom (block_at ts)"
    using traced_from_Initialize [OF assms(1-4)] assms(5) by (auto simp: traced_def)
  then have h: "history_ok root st0 (ts_head ts) (statuses ts) (events ts)" "statuses ts (ts_head ts) = Accepted"
    using links_head(4) [OF ts_linkedD(1)] by (auto simp: ts_safe_def)
  have "acc \<Longrightarrow> statuses ts ?c = Accepted" "rej \<Longrightarrow> statuses ts ?c = Rejected"
    using h(1) assms(6,7) by (auto simp: history_ok_def)
  moreover have "Status_Decided (statuses ts ?c) \<Longrightarrow> acc \<or> rej"
    using h(1) t(2) assms(6,7) by (auto simp: history_ok_def)
  moreover have "pro \<Longrightarrow> \<not> Status_Decided (statuses ts ?c)" using processing_undecided [OF t(1)] assms(8) by simp
  moreover have "\<not> Status_Decided (statuses ts ?c) \<Longrightarrow> pro" using t(3) h(2) assms(8) by (auto simp: ts_Processing_def)
  ultimately show ?thesis by auto
qed

theorem ts_decides_every_block_witness:
  "\<exists>ts. ts_run quiet_VM hd (sample_issues @ map RecordVotes [Of [sample_id 1, sample_id 1], Of [sample_id 1, sample_id 1]]) sample_root
      = Inr ts \<and> sample_id 4 \<in> blk_ID ` set (rejected_of (events ts)) \<and> \<not> ts_Processing ts (sample_id 4)"
proof -
  let ?calls = "sample_issues @ map RecordVotes [Of [sample_id 1, sample_id 1], Of [sample_id 1, sample_id 1]]"
  have "case ts_run quiet_VM hd ?calls sample_root of Inr ts \<Rightarrow> sample_id 4 \<in> blk_ID ` set (rejected_of (events ts)) | Inl e \<Rightarrow> False"
    by code_simp
  then obtain ts where ts: "ts_run quiet_VM hd ?calls sample_root = Inr ts" "sample_id 4 \<in> blk_ID ` set (rejected_of (events ts))"
    by (cases "ts_run quiet_VM hd ?calls sample_root") auto
  have "Issue (sample_block 4 3 3) \<in> set ?calls" by (simp add: sample_issues_def)
  from ts_decides_every_block [OF sample_root _ valid_sample_issues ts(1) this refl refl refl] ts show ?thesis
    by (auto simp: sample_statuses_def sample_block_def)
qed

text \<open>(C23) The in-degree of a block is counted twice for some orders of the votes. Above block 0 there are the
  block 1 and the chain of the blocks 2, 3 and 4; block 0 prefers block 1. Two votes, one for block 3 and
  one for block 4, are votes for block 2 as well. If block 4 is visited first, the poll reaches block 0,
  which now prefers block 2. If block 3 is visited first, the poll is not recorded at block 0, which
  still prefers block 1; yet the preferred block of the instance is block 4, on the other branch.\<close>

theorem in_degree_depends_on_order:
  "\<exists>ts ts'. ts_run quiet_VM hd (sample_issues @ map RecordVotes [Of [sample_id 4, sample_id 3]]) sample_root = Inr ts
     \<and> ts_run quiet_VM hd (sample_issues @ map RecordVotes [Of [sample_id 3, sample_id 4]]) sample_root = Inr ts'
     \<and> bag_mset (Of [sample_id 4, sample_id 3]) = bag_mset (Of [sample_id 3, sample_id 4])
     \<and> head_preference ts = Some (sample_id 2) \<and> ts_Preference ts = sample_id 4
     \<and> head_preference ts' = Some (sample_id 1) \<and> ts_Preference ts' = sample_id 4"
proof -
  have "case ts_run quiet_VM hd (sample_issues @ map RecordVotes [Of [sample_id 4, sample_id 3]]) sample_root of
      Inr ts \<Rightarrow> head_preference ts = Some (sample_id 2) \<and> ts_Preference ts = sample_id 4 | Inl e \<Rightarrow> False" by code_simp
  moreover have "case ts_run quiet_VM hd (sample_issues @ map RecordVotes [Of [sample_id 3, sample_id 4]]) sample_root of
      Inr ts \<Rightarrow> head_preference ts = Some (sample_id 1) \<and> ts_Preference ts = sample_id 4 | Inl e \<Rightarrow> False" by code_simp
  ultimately show ?thesis by (auto simp: bag_mset_Of split: sum.splits)
qed

end
