(* ===== verification/Topological_Total.thy ===== *)
theory Topological_Total
  imports Topological_Safety
begin

text \<open>
  Chain consensus never gets stuck: from the initial state, no sequence of issued blocks and polls makes the
  code look up a block that has been removed (a nil dereference in the source), and none of its loops
  runs forever. The fuel of the loops of \<open>Topological\<close> is therefore always enough. On the way, the stack of
  votes is shown to hold the ancestors of a block above the block itself, and the preference of the node
  is shown to be the last accepted block or a block that is processing.
\<close>

subsection \<open>Paths in the tree of blocks\<close>

definition down :: "Topological \<Rightarrow> (ID \<times> ID) set" where
  "down ts = {(i, c). kids ts i c \<noteq> None}"

text \<open>A rank of the blocks that grows from parent to child: there is no cycle.\<close>

definition ranked :: "(ID \<Rightarrow> nat) \<Rightarrow> Topological \<Rightarrow> bool" where
  "ranked f ts \<longleftrightarrow> (\<forall>(i, c) \<in> down ts. f i < f c)"

definition rank_below :: "(ID \<Rightarrow> nat) \<Rightarrow> Topological \<Rightarrow> ID \<Rightarrow> nat" where
  "rank_below f ts c = card {d \<in> dom (block_at ts). f d < f c}"

definition rank_above :: "(ID \<Rightarrow> nat) \<Rightarrow> Topological \<Rightarrow> ID \<Rightarrow> nat" where
  "rank_above f ts c = card {d \<in> dom (block_at ts). f c < f d}"

lemma down_dom: "ts_linked ts {} {} \<Longrightarrow> (i, c) \<in> down ts \<Longrightarrow> i \<in> dom (block_at ts) \<and> c \<in> dom (block_at ts) \<and> c \<noteq> ts_head ts"
  using links_child(1,4) [OF ts_linkedD(1), of ts "{}" "{}" i c]
  by (fastforce simp: down_def kids_def split: option.splits)

lemma down_rtrancl_dom:
  assumes "ts_linked ts {} {}" "(i, c) \<in> (down ts)\<^sup>*" "i \<in> dom (block_at ts)"
  shows "c \<in> dom (block_at ts)"
  using assms(2,3) by (induction rule: rtrancl_induct) (use down_dom [OF assms(1)] in blast)+

lemma length_blocks: "ts_linked ts {} {} \<Longrightarrow> card (dom (block_at ts)) = length (ts_blocks ts)"
  using ts_linkedD(3) [of ts "{}" "{}"] by (simp add: dom_map_of_conv_image_fst distinct_card flip: set_map)

lemma rank_bounds:
  assumes "ts_linked ts {} {}"
  shows "rank_below f ts c \<le> length (ts_blocks ts)" "rank_above f ts c \<le> length (ts_blocks ts)"
  unfolding rank_below_def rank_above_def length_blocks [OF assms, symmetric] by (auto intro!: card_mono finite_dom_map_of)

lemma rank_step:
  assumes "ts_linked ts {} {}" "ranked f ts" "(i, c) \<in> down ts"
  shows "rank_below f ts i < rank_below f ts c" "rank_above f ts c < rank_above f ts i"
proof -
  have "i \<in> dom (block_at ts)" "c \<in> dom (block_at ts)" "f i < f c"
    using down_dom [OF assms(1,3)] assms(2,3) by (auto simp: ranked_def)
  then show "rank_below f ts i < rank_below f ts c" "rank_above f ts c < rank_above f ts i"
    unfolding rank_below_def rank_above_def by (auto intro!: psubset_card_mono finite_dom_map_of)
qed

text \<open>What the loops read of a block: it is the head, or it is pending below its parent.\<close>

lemma pending_cases:
  assumes "ts_linked ts {} {}" "c \<in> dom (block_at ts)"
  obtains n where "c = ts_head ts" "block_at ts c = Some n" "pending (statuses ts) n = None"
  | n b where "c \<noteq> ts_head ts" "block_at ts c = Some n" "pending (statuses ts) n = Some b" "blk_ID b = c"
      "blk_of ts c = Some b" "(blk_Parent b, c) \<in> down ts"
proof -
  note l = ts_linkedD(1) [OF assms(1)]
  obtain n where n: "block_at ts c = Some n" using assms(2) by auto
  then have bl: "blk_of ts c = sn_blk n" by (simp add: blk_of_def)
  show thesis
  proof (cases "c = ts_head ts")
    case True
    with links_head(4,7) [OF l] n bl have "pending (statuses ts) n = None"
      by (auto simp: pending_def sn_Accepted_def split: option.splits)
    with True n that(1) show thesis by blast
  next
    case False
    from links_parent [OF l assms(2) _ _ False] obtain b where b: "blk_of ts c = Some b" "blk_Parent b \<in> dom (block_at ts)"
      "kids ts (blk_Parent b) c = Some b" by blast
    moreover have "blk_ID b = c" "\<not> Status_Decided (statuses ts c)" using links_child(6,9) [OF l b(2) _ b(3)] by auto
    moreover from calculation have "pending (statuses ts) n = Some b"
      using bl by (auto simp: pending_def sn_Accepted_def)
    ultimately show thesis using False n that(2) by (simp add: down_def)
  qed
qed

lemma head_reaches:
  assumes "ts_linked ts {} {}" "ranked f ts" "c \<in> dom (block_at ts)"
  shows "(ts_head ts, c) \<in> (down ts)\<^sup>*"
  using assms(3)
proof (induction "f c" arbitrary: c rule: less_induct)
  case less
  from assms(1) less.prems show ?case
  proof (cases rule: pending_cases)
    case (2 n b)
    then have "f (blk_Parent b) < f c" "blk_Parent b \<in> dom (block_at ts)"
      using assms(2) down_dom [OF assms(1)] by (auto simp: ranked_def)
    from less.hyps [OF this] 2(6) show ?thesis by simp
  qed simp
qed

subsection \<open>Collecting the votes\<close>

text \<open>The Kahn graph, over the nodes \<open>R\<close> that have not been visited: the leaves are the nodes of in-degree 0,
  the nodes are closed under parents, and the in-degree of a node counts its children at least. A walk to
  the head that has reached \<open>H\<close> has not counted the edge above it.\<close>

definition in_edges :: "Topological \<Rightarrow> ID set \<Rightarrow> ID \<Rightarrow> ID set" where
  "in_edges ts R p = {x \<in> R. (p, x) \<in> down ts}"

definition kahn_inv :: "Topological \<Rightarrow> ID set \<Rightarrow> ID set \<Rightarrow> bool" where
  "kahn_inv ts R H \<longleftrightarrow> finite R \<and> R \<subseteq> dom (block_at ts)
     \<and> set (leaves ts) = {p \<in> R. inDegree (kahn_at ts p) = 0}
     \<and> (\<forall>p \<in> R. \<exists>c. (p, c) \<in> down ts)
     \<and> (\<forall>p x. x \<in> R - H \<longrightarrow> (p, x) \<in> down ts \<longrightarrow> p \<in> R)
     \<and> (\<forall>p \<in> R. int (card (in_edges ts (R - H) p)) \<le> inDegree (kahn_at ts p))"

abbreviation kahn_keys :: "Topological \<Rightarrow> ID set" where
  "kahn_keys ts \<equiv> dom (map_of (kahnNodes ts))"

lemma down_core: "core ts' = core ts \<Longrightarrow> down ts' = down ts"
  by (simp add: core_def down_def kids_def)

lemma kahn_set [simp]:
  "kahn_keys (set_kahn q k ts) = insert q (kahn_keys ts)" "kahn_at (set_kahn q k ts) p = (if p = q then k else kahn_at ts p)"
  "leaves (set_kahn q k ts) = leaves ts" "down (set_kahn q k ts) = down ts" "ts_blocks (set_kahn q k ts) = ts_blocks ts"
  "in_edges (set_kahn q k ts) = in_edges ts"
  using down_core [OF core_set_kahn, of q k ts] by (auto simp: set_kahn_def kahn_at_def in_edges_def [abs_def])

lemma kahn_leaves [simp]:
  "kahn_at (ts\<lparr>leaves := l\<rparr>) p = kahn_at ts p" "down (ts\<lparr>leaves := l\<rparr>) = down ts" "in_edges (ts\<lparr>leaves := l\<rparr>) = in_edges ts"
  by (simp_all add: kahn_at_def down_def kids_def in_edges_def [abs_def])

lemma down_unique: "ts_linked ts {} {} \<Longrightarrow> (p, x) \<in> down ts \<Longrightarrow> (q, x) \<in> down ts \<Longrightarrow> p = q"
  using links_child(5,7) [OF ts_linkedD(1), of ts "{}" "{}" p x] links_child(5,7) [OF ts_linkedD(1), of ts "{}" "{}" q x]
    down_dom [of ts p x] down_dom [of ts q x] by (auto simp: down_def)

lemma kahn_invD:
  assumes "kahn_inv ts R H"
  shows "finite R" "R \<subseteq> dom (block_at ts)" "set (leaves ts) = {p \<in> R. inDegree (kahn_at ts p) = 0}"
    "p \<in> R \<Longrightarrow> \<exists>c. (p, c) \<in> down ts" "x \<in> R \<Longrightarrow> x \<notin> H \<Longrightarrow> (p, x) \<in> down ts \<Longrightarrow> p \<in> R"
    "p \<in> R \<Longrightarrow> int (card (in_edges ts (R - H) p)) \<le> inDegree (kahn_at ts p)"
  using assms unfolding kahn_inv_def by blast+

lemma kahn_invI:
  assumes "finite R" "R \<subseteq> dom (block_at ts)" "set (leaves ts) = {p \<in> R. inDegree (kahn_at ts p) = 0}"
    and "\<And>p. p \<in> R \<Longrightarrow> \<exists>c. (p, c) \<in> down ts" "\<And>p x. x \<in> R - H \<Longrightarrow> (p, x) \<in> down ts \<Longrightarrow> p \<in> R"
    and "\<And>p. p \<in> R \<Longrightarrow> int (card (in_edges ts (R - H) p)) \<le> inDegree (kahn_at ts p)"
  shows "kahn_inv ts R H"
  unfolding kahn_inv_def using assms by blast

lemma kahn_closed: "kahn_inv ts R H \<Longrightarrow> p \<notin> R \<Longrightarrow> in_edges ts (R - H) p = {}"
  using kahn_invD(5) [of ts R H _ p] by (auto simp: in_edges_def)

text \<open>A walk counts the edge from \<open>p\<close> to its parent \<open>q\<close>.\<close>

lemma kahn_edge:
  assumes "ts_linked ts {} {}" "kahn_inv ts (kahn_keys ts) {p}" "p \<in> kahn_keys ts" "(q, p) \<in> down ts"
    and ts1: "ts1 = set_kahn q ((kahn_at ts q)\<lparr>inDegree := inDegree (kahn_at ts q) + 1\<rparr>) ts"
  shows "inDegree (kahn_at ts q) \<noteq> 0 \<Longrightarrow> kahn_inv ts1 (kahn_keys ts1) {}"
    "inDegree (kahn_at ts q) = 0 \<Longrightarrow> kahn_inv (ts1\<lparr>leaves := removeAll q (leaves ts1)\<rparr>) (kahn_keys ts1) {q}"
proof -
  let ?K = "kahn_keys ts" and ?E = "\<lambda>i. in_edges ts (kahn_keys ts - {p}) i"
  note k = kahn_invD [OF assms(2)]
  have q: "q \<in> dom (block_at ts)" using down_dom [OF assms(1,4)] by blast
  have deg: "int (card (?E i)) \<le> inDegree (kahn_at ts i)" for i
  proof (cases "i \<in> ?K")
    case False
    then have "inDegree (kahn_at ts i) = 0" by (auto simp: kahn_at_def zero_kahnNode_def split: option.splits)
    with kahn_closed [OF assms(2) False] show ?thesis by simp
  qed (rule k(6))
  have seen: "q \<in> ?K" if "inDegree (kahn_at ts q) \<noteq> 0"
    using that by (auto simp: kahn_at_def zero_kahnNode_def split: option.splits)
  have edges: "int (card (in_edges ts (insert q ?K - H) i)) \<le> inDegree (kahn_at ts1 i)"
    if "H = {q} \<or> q \<in> ?K" for H i
  proof -
    have fin: "finite (?E i)" using k(1) by (simp add: in_edges_def)
    have sub: "in_edges ts (insert q ?K - H) i \<subseteq> (if i = q then insert p (?E i) else ?E i)"
      using that down_unique [OF assms(1,4)] by (auto simp: in_edges_def)
    have "card (in_edges ts (insert q ?K - H) i) \<le> card (?E i) + (if i = q then 1 else 0)"
      using card_mono [OF _ sub] card_insert_le_m1 [of "card (?E i) + 1" "?E i" p] fin by (auto split: if_splits)
    with deg [of i] show ?thesis by (auto simp: ts1)
  qed
  have up: "i \<in> insert q ?K" if "x \<in> insert q ?K - H" "(i, x) \<in> down ts" "H = {q} \<or> q \<in> ?K" for H i x
    using that k(5) [of x i] down_unique [OF assms(1,4), of i] by (cases "x = p") auto
  have sub: "insert q ?K \<subseteq> dom (block_at ts)" "\<And>i. i \<in> insert q ?K \<Longrightarrow> \<exists>c. (i, c) \<in> down ts"
    using k(2,4) q assms(4) by blast+
  show "kahn_inv ts1 (kahn_keys ts1) {}" if d: "inDegree (kahn_at ts q) \<noteq> 0"
  proof -
    have "set (leaves ts1) = {i \<in> insert q ?K. inDegree (kahn_at ts1 i) = 0}"
      using k(3) d deg [of q] by (auto simp: ts1)
    with k(1) sub edges [of "{}"] up [of _ "{}"] seen [OF d] show ?thesis
      by (intro kahn_invI) (simp_all add: ts1)
  qed
  show "kahn_inv (ts1\<lparr>leaves := removeAll q (leaves ts1)\<rparr>) (kahn_keys ts1) {q}" if d: "inDegree (kahn_at ts q) = 0"
  proof -
    have "set (leaves ts1) - {q} = {i \<in> insert q ?K. inDegree (kahn_at ts1 i) = 0}"
      using k(3) d by (auto simp: ts1)
    with k(1) sub edges [of "{q}"] up [of _ "{q}"] show ?thesis
      by (intro kahn_invI) (simp_all add: ts1)
  qed
qed

lemma ancestors_loop_returns:
  assumes "ts_linked ts {} {}" "ranked f ts" "kahn_inv ts (kahn_keys ts) {p}" "p \<in> kahn_keys ts" "rank_below f ts p < fuel"
  shows "\<exists>ts'. ancestors_loop fuel p ts = Inr ts' \<and> kahn_inv ts' (kahn_keys ts') {}"
  using assms
proof (induction fuel arbitrary: p ts)
  case (Suc fuel)
  have "p \<in> dom (block_at ts)" using kahn_invD(2) [OF Suc.prems(3)] Suc.prems(4) by blast
  with Suc.prems(1) show ?case
  proof (cases rule: pending_cases)
    case (1 n)
    have "in_edges ts (R - {p}) i = in_edges ts R i" for R i
      using 1(1) down_dom [OF Suc.prems(1), of i p] by (auto simp: in_edges_def)
    moreover have "i \<in> kahn_keys ts" if "x \<in> kahn_keys ts" "(i, x) \<in> down ts" for i x
      using kahn_invD(5) [OF Suc.prems(3) that(1) _ that(2)] 1(1) down_dom [OF Suc.prems(1) that(2)] by blast
    ultimately have "kahn_inv ts (kahn_keys ts) {}"
      using kahn_invD(1-4,6) [OF Suc.prems(3)] by (intro kahn_invI) simp_all
    with 1 show ?thesis by simp
  next
    case (2 n b)
    let ?q = "blk_Parent b"
    define ts1 where "ts1 = set_kahn ?q ((kahn_at ts ?q)\<lparr>inDegree := inDegree (kahn_at ts ?q) + 1\<rparr>) ts"
    define ts2 where "ts2 = ts1\<lparr>leaves := removeAll ?q (leaves ts1)\<rparr>"
    note e = kahn_edge [OF Suc.prems(1,3,4) 2(6) ts1_def]
    have eq: "ancestors_loop (Suc fuel) p ts = (if inDegree (kahn_at ts ?q) \<noteq> 0 then Inr ts1 else ancestors_loop fuel ?q ts2)"
      using 2 by (simp add: Let_def ts1_def ts2_def)
    show ?thesis
    proof (cases "inDegree (kahn_at ts ?q) = 0")
      case True
      have core: "core ts2 = core ts" by (simp add: ts1_def ts2_def)
      have "rank_below f ts2 ?q < fuel"
        using rank_step(1) [OF Suc.prems(1,2) 2(6)] Suc.prems(5) core by (simp add: rank_below_def core_def)
      with Suc.IH [of ts2 ?q] e(2) [OF True] Suc.prems(1,2) core ts_linked_core [OF core] down_core [OF core] True eq
      show ?thesis by (simp add: ranked_def ts2_def ts1_def)
    next
      case False
      with e(1) eq show ?thesis by simp
    qed
  qed
qed simp

lemma in_degree_step_returns:
  assumes "ts_linked ts {} {}" "ranked f ts" "kahn_inv ts (kahn_keys ts) {}"
  shows "\<exists>ts'. in_degree_step votes v ts = Inr ts' \<and> kahn_inv ts' (kahn_keys ts') {}"
proof (cases "v \<in> dom (block_at ts)")
  case True
  from assms(1) True show ?thesis
  proof (cases rule: pending_cases)
    case (1 n)
    with assms(3) show ?thesis by (simp add: in_degree_step_def)
  next
    case (2 n b)
    let ?q = "blk_Parent b"
    define ts1 where "ts1 = set_kahn ?q ((kahn_at ts ?q)\<lparr>kn_votes := AddCount v (Count votes v) (kn_votes (kahn_at ts ?q))\<rparr>) ts"
    define ts2 where "ts2 = ts1\<lparr>leaves := List.insert ?q (leaves ts1)\<rparr>"
    have eq: "in_degree_step votes v ts = (if ?q \<in> kahn_keys ts then Inr ts1 else ancestors_loop (Suc (length (ts_blocks ts))) ?q ts2)"
      using 2 by (auto simp: in_degree_step_def Let_def ts1_def ts2_def)
    note k = kahn_invD [OF assms(3)]
    show ?thesis
    proof (cases "?q \<in> kahn_keys ts")
      case True
      then have "kahn_inv ts1 (kahn_keys ts1) {}"
        using assms(3) by (auto simp: kahn_inv_def ts1_def insert_absorb)
      with True eq show ?thesis by simp
    next
      case False
      then have q0: "inDegree (kahn_at ts ?q) = 0" by (auto simp: kahn_at_def zero_kahnNode_def split: option.splits)
      have core: "core ts2 = core ts" by (simp add: ts1_def ts2_def)
      have "kahn_inv ts2 (kahn_keys ts2) {?q}"
        using assms(3) kahn_closed [OF assms(3) False] 2(6) down_dom [OF assms(1) 2(6)] q0 False
        unfolding kahn_inv_def by (auto simp: ts2_def ts1_def)
      moreover have "rank_below f ts2 ?q < Suc (length (ts_blocks ts))"
        using rank_bounds(1) [OF assms(1), of f ?q] core by (simp add: rank_below_def core_def)
      moreover have "?q \<in> kahn_keys ts2" by (simp add: ts2_def ts1_def)
      ultimately show ?thesis
        using ancestors_loop_returns [of ts2 f ?q] assms(1,2) ts_linked_core [OF core] down_core [OF core] False eq
        by (simp add: ranked_def del: ancestors_loop.simps)
    qed
  qed
qed (use assms(3) in \<open>auto simp: in_degree_step_def split: option.splits\<close>)

lemma in_degree_loop_returns:
  "ts_linked ts {} {} \<Longrightarrow> ranked f ts \<Longrightarrow> kahn_inv ts (kahn_keys ts) {} \<Longrightarrow>
   \<exists>ts'. in_degree_loop votes vs ts = Inr ts' \<and> kahn_inv ts' (kahn_keys ts') {}"
proof (induction vs arbitrary: ts)
  case (Cons v vs)
  obtain ts1 where ts1: "in_degree_step votes v ts = Inr ts1" "kahn_inv ts1 (kahn_keys ts1) {}"
    using in_degree_step_returns [OF Cons.prems] by blast
  note core = core_in_degree_step [OF ts1(1)]
  from Cons.IH [of ts1] ts1 Cons.prems(1,2) ts_linked_core [OF core] down_core [OF core] show ?case
    by (simp add: ranked_def)
qed simp

lemma calculateInDegree_returns:
  assumes "ts_linked ts {} {}" "ranked f ts"
  shows "\<exists>ts'. calculateInDegree votes ts = Inr ts' \<and> kahn_inv ts' (kahn_keys ts') {} \<and> core ts' = core ts"
proof -
  let ?ts = "ts\<lparr>kahnNodes := [], leaves := []\<rparr>"
  have core: "core ?ts = core ts" by simp
  have "kahn_inv ?ts (kahn_keys ?ts) {}" by (simp add: kahn_inv_def)
  then obtain ts' where "in_degree_loop votes (Bag_List votes) ?ts = Inr ts'" "kahn_inv ts' (kahn_keys ts') {}"
    using in_degree_loop_returns [of ?ts f] assms ts_linked_core [OF core] down_core [OF core] unfolding ranked_def by metis
  with core_in_degree_loop [OF this(1)] show ?thesis by (simp add: calculateInDegree_def)
qed

text \<open>The stack of votes: no block is below one of its ancestors, or twice on the stack.\<close>

definition stack_ordered :: "Topological \<Rightarrow> ID list \<Rightarrow> bool" where
  "stack_ordered ts ids \<longleftrightarrow> sorted_wrt (\<lambda>i j. (i, j) \<notin> (down ts)\<^sup>*) ids \<and> (\<forall>i \<in> set ids. \<exists>c. (i, c) \<in> down ts)"

lemma kahn_up_closed:
  assumes "kahn_inv ts R {}" "(i, j) \<in> (down ts)\<^sup>*" "j \<in> R"
  shows "i \<in> R"
  using assms(2,3) by (induction rule: converse_rtrancl_induct) (use kahn_invD(5) [OF assms(1)] in blast)+

lemma kahn_visit:
  assumes "ts_linked ts {} {}" "kahn_inv ts R {}" "l \<in> set (leaves ts)"
  shows "l \<in> R" "\<And>x. x \<in> R \<Longrightarrow> (l, x) \<notin> down ts" "l \<in> dom (block_at ts)"
proof -
  note k = kahn_invD [OF assms(2)]
  show l: "l \<in> R" "l \<in> dom (block_at ts)" using k(2,3) assms(3) by auto
  have "card (in_edges ts R l) = 0" using k(3) k(6) [OF l(1)] assms(3) by simp
  moreover have "finite (in_edges ts R l)" using k(1) by (simp add: in_edges_def)
  ultimately show "(l, x) \<notin> down ts" if "x \<in> R" for x using that by (auto simp: in_edges_def)
qed

lemma kahn_visit_head:
  assumes "ts_linked ts {} {}" "kahn_inv ts R {}" "ts_head ts \<in> set (leaves ts)"
  shows "kahn_inv (ts\<lparr>leaves := removeAll (ts_head ts) (leaves ts)\<rparr>) (R - {ts_head ts}) {}"
proof -
  let ?h = "ts_head ts"
  note k = kahn_invD [OF assms(2)] and v = kahn_visit [OF assms]
  have "card (in_edges ts (R - {?h}) p) \<le> card (in_edges ts R p)" for p
    using k(1) by (auto intro!: card_mono simp: in_edges_def)
  then have "int (card (in_edges ts (R - {?h}) p)) \<le> inDegree (kahn_at ts p)" if "p \<in> R" for p
    using k(6) [OF that] by (metis Diff_empty nat_int_comparison(3) order_trans)
  with k(1-5) v(2) show ?thesis by (intro kahn_invI) auto
qed

lemma kahn_visit_block:
  assumes "ts_linked ts {} {}" "kahn_inv ts R {}" "l \<in> set (leaves ts)" "(q, l) \<in> down ts"
    and ts1: "ts1 = set_kahn q ((kahn_at ts q)\<lparr>inDegree := inDegree (kahn_at ts q) - 1, kn_votes := vs\<rparr>)
      (ts\<lparr>leaves := removeAll l (leaves ts)\<rparr>)"
    and ts2: "ts2 = (if inDegree (kahn_at ts q) - 1 = 0 then ts1\<lparr>leaves := List.insert q (leaves ts1)\<rparr> else ts1)"
  shows "kahn_inv ts2 (R - {l}) {}"
proof -
  note k = kahn_invD [OF assms(2)] and v = kahn_visit [OF assms(1-3)]
  have q: "q \<in> R" "q \<noteq> l" using k(5) [OF v(1) _ assms(4)] v(1,2) assms(4) by auto
  have fin: "finite (in_edges ts R p)" for p using k(1) by (simp add: in_edges_def)
  have eq: "in_edges ts (R - {l}) p = in_edges ts R p - (if p = q then {l} else {})" for p
    using down_unique [OF assms(1,4)] by (auto simp: in_edges_def)
  have "l \<in> in_edges ts R q" using v(1) assms(4) by (simp add: in_edges_def)
  with fin have pos: "0 < card (in_edges ts R q)" by (auto simp: card_gt_0_iff)
  have kat: "kahn_at ts2 p = (if p = q then (kahn_at ts q)\<lparr>inDegree := inDegree (kahn_at ts q) - 1, kn_votes := vs\<rparr> else kahn_at ts p)"
    "down ts2 = down ts" "in_edges ts2 = in_edges ts" "ts_blocks ts2 = ts_blocks ts" for p
    by (auto simp: ts1 ts2)
  show ?thesis
  proof (rule kahn_invI)
    show "int (card (in_edges ts2 (R - {l} - {}) p)) \<le> inDegree (kahn_at ts2 p)" if "p \<in> R - {l}" for p
      using k(6) [of p] that pos \<open>l \<in> in_edges ts R q\<close> fin unfolding kat Diff_empty eq by (auto simp: card_Diff_singleton)
    show "set (leaves ts2) = {p \<in> R - {l}. inDegree (kahn_at ts2 p) = 0}"
      using k(3) k(6) [OF q(1)] q pos unfolding kat by (auto simp: ts1 ts2)
    show "p \<in> R - {l}" if "x \<in> R - {l} - {}" "(p, x) \<in> down ts2" for p x
      using k(5) [of x p] v(2) [of x] that unfolding kat by auto
    show "\<exists>c. (p, c) \<in> down ts2" if "p \<in> R - {l}" for p using k(4) that unfolding kat by blast
  qed (use k(1,2) in \<open>auto simp: kat\<close>)
qed

lemma push_step_returns:
  assumes "ts_linked ts {} {}" "kahn_inv ts R {}" "pop (leaves ts) \<in> set (leaves ts)"
    and "stack_ordered ts (map fst st)" "fst ` set st \<inter> R = {}"
  shows "\<exists>ts' st'. push_step pop ts st = Inr (ts', st') \<and> kahn_inv ts' (R - {pop (leaves ts)}) {}
    \<and> stack_ordered ts (map fst st') \<and> fst ` set st' \<inter> (R - {pop (leaves ts)}) = {}"
proof -
  let ?l = "pop (leaves ts)"
  let ?ts = "ts\<lparr>leaves := removeAll ?l (leaves ts)\<rparr>"
  define st' where "st' = (if Len (kn_votes (kahn_at ts ?l)) \<ge> Alpha (ts_params ts) then st @ [(?l, kn_votes (kahn_at ts ?l))] else st)"
  note v = kahn_visit [OF assms(1-3)]
  have "(i, ?l) \<notin> (down ts)\<^sup>*" if "i \<in> fst ` set st" for i
    using kahn_up_closed [OF assms(2) _ v(1)] assms(5) that by blast
  then have st': "stack_ordered ts (map fst st')" "fst ` set st' \<inter> (R - {?l}) = {}"
    using assms(4,5) kahn_invD(4) [OF assms(2) v(1)] by (auto simp: stack_ordered_def st'_def sorted_wrt_append)
  from assms(1) v(3) show ?thesis
  proof (cases rule: pending_cases)
    case (1 n)
    then have "push_step pop ts st = Inr (?ts, st')" by (simp add: push_step_def Let_def st'_def)
    with kahn_visit_head [OF assms(1,2)] st' 1(1) assms(3) show ?thesis by auto
  next
    case (2 n b)
    let ?q = "blk_Parent b"
    define ts1 where "ts1 = set_kahn ?q ((kahn_at ts ?q)\<lparr>inDegree := inDegree (kahn_at ts ?q) - 1,
      kn_votes := AddCount ?l (Len (kn_votes (kahn_at ts ?l))) (kn_votes (kahn_at ts ?q))\<rparr>) ?ts"
    have "push_step pop ts st = Inr (if inDegree (kahn_at ts ?q) - 1 = 0 then ts1\<lparr>leaves := List.insert ?q (leaves ts1)\<rparr> else ts1, st')"
      using 2 by (simp add: push_step_def Let_def st'_def ts1_def)
    with kahn_visit_block [OF assms(1-3) 2(6) ts1_def refl] st' show ?thesis by blast
  qed
qed

lemma push_loop_returns:
  assumes "ts_linked ts {} {}" "\<And>xs. xs \<noteq> [] \<Longrightarrow> pop xs \<in> set xs"
    and "kahn_inv ts R {}" "card R \<le> fuel" "stack_ordered ts (map fst st)" "fst ` set st \<inter> R = {}"
  shows "\<exists>ts' st'. push_loop pop fuel ts st = Inr (ts', st') \<and> stack_ordered ts (map fst st')"
  using assms(1,3-6)
proof (induction fuel arbitrary: ts R st)
  case 0
  then have "leaves ts = []" using kahn_invD(1,3) [OF "0.prems"(2)] by auto
  with "0.prems" show ?case by simp
next
  case (Suc fuel)
  show ?case
  proof (cases "leaves ts = []")
    case False
    let ?l = "pop (leaves ts)"
    obtain ts1 st1 where s: "push_step pop ts st = Inr (ts1, st1)" "kahn_inv ts1 (R - {?l}) {}"
      "stack_ordered ts (map fst st1)" "fst ` set st1 \<inter> (R - {?l}) = {}"
      using push_step_returns [of ts R pop st] assms(2) [OF False] Suc.prems(1,2,4,5) by blast
    have c: "card (R - {?l}) \<le> fuel"
      using kahn_visit(1) [OF Suc.prems(1,2) assms(2) [OF False]] Suc.prems(3) kahn_invD(1) [OF Suc.prems(2)] by simp
    note core = core_push_step [OF s(1)]
    from Suc.IH [OF _ s(2) c _ s(4)] s(1,3) Suc.prems(1) ts_linked_core [OF core] down_core [OF core] False
    show ?thesis by (simp add: stack_ordered_def)
  qed (use Suc.prems in simp)
qed

text \<open>Every node becomes a leaf at most once: the number of Kahn nodes bounds the rounds.\<close>

lemma collect_returns:
  assumes "ts_linked ts {} {}" "ranked f ts" "\<And>xs. xs \<noteq> [] \<Longrightarrow> pop xs \<in> set xs"
  shows "\<exists>ts' st. res_bind (calculateInDegree votes ts) (pushVotes pop) = Inr (ts', st) \<and> stack_ordered ts (map fst st)"
proof -
  obtain ts1 where ts1: "calculateInDegree votes ts = Inr ts1" "kahn_inv ts1 (kahn_keys ts1) {}" "core ts1 = core ts"
    using calculateInDegree_returns [OF assms(1,2)] by blast
  have "card (kahn_keys ts1) \<le> length (kahnNodes ts1)"
    unfolding dom_map_of_conv_image_fst by (metis card_length length_map list.set_map)
  from push_loop_returns [OF _ assms(3) ts1(2) this, of "[]"] ts1 assms(1) ts_linked_core [OF ts1(3)] down_core [OF ts1(3)]
  show ?thesis by (simp add: pushVotes_def stack_ordered_def)
qed

subsection \<open>Voting\<close>

text \<open>What is left of the tree after some votes is as before.\<close>

definition kept :: "Topological \<Rightarrow> Topological \<Rightarrow> bool" where
  "kept ts ts' \<longleftrightarrow> dom (block_at ts') \<subseteq> dom (block_at ts) \<and> (\<forall>i \<in> dom (block_at ts'). kids ts' i = kids ts i)
     \<and> ts_tail ts' = ts_tail ts \<and> preferredIDs ts' \<subseteq> preferredIDs ts"

lemma kept_trans: "kept ts ts' \<Longrightarrow> kept ts' ts'' \<Longrightarrow> kept ts ts''"
  unfolding kept_def by (metis order_trans subset_iff)

lemma kept_same:
  "kids ts' = kids ts \<Longrightarrow> dom (block_at ts') = dom (block_at ts) \<Longrightarrow> ts_tail ts' = ts_tail ts
   \<Longrightarrow> preferredIDs ts' = preferredIDs ts \<Longrightarrow> kept ts ts'"
  by (simp add: kept_def)

lemma kept_down: "kept ts ts' \<Longrightarrow> down ts' \<subseteq> down ts"
  by (auto simp: kept_def down_def) (metis domIff kids_def option.case(1) option.distinct(1))

lemma kids_falter_children: "kids (fold (falter_child f nextID) cs ts) = kids ts"
proof (induction cs arbitrary: ts)
  case (Cons c cs)
  have "kids (falter_child f nextID c ts) = kids ts"
    by (auto simp: falter_child_def kids_def fun_eq_iff split: option.splits)
  with Cons.IH show ?case by simp
qed simp

lemma kept_falter_children: "kept ts (fold (falter_child f nextID) cs ts)"
  by (rule kept_same) (use falter_children_keep [of "[]" f nextID cs ts] kids_falter_children in auto)

lemma kept_map_le: "block_at ts' \<subseteq>\<^sub>m block_at ts \<Longrightarrow> ts_tail ts' = ts_tail ts \<Longrightarrow> preferredIDs ts' \<subseteq> preferredIDs ts \<Longrightarrow> kept ts ts'"
  by (force simp: kept_def kids_def map_le_def fun_eq_iff)

text \<open>The poll of a block of the tree that has children: only the VM can fail, the preferred child is in the tree
  that is left, and only the last accepted block can accept a child.\<close>

definition polled :: "Topological \<Rightarrow> ID \<Rightarrow> Topological \<Rightarrow> ID \<Rightarrow> bool" where
  "polled ts p ts' pref \<longleftrightarrow> kept ts ts' \<and> pref \<in> dom (block_at ts')
     \<and> (ts_head ts' = ts_head ts \<and> dom (block_at ts') = dom (block_at ts)
        \<or> ts_head ts = p \<and> ts_head ts' = pref \<and> pref \<notin> preferredIDs ts')"

lemma vote_round_returns:
  assumes "ts_safe root st0 ts" "(p, c) \<in> down ts"
  shows "(\<exists>e. vote_round vm p votes nextID ts = Inl e \<and> vm_error vm e)
    \<or> (\<exists>ts' pref. vote_round vm p votes nextID ts = Inr (Some (ts', pref)) \<and> polled ts p ts' pref)"
proof -
  have l: "ts_linked ts {} {}" "history_ok root st0 (ts_head ts) (statuses ts) (events ts)"
    using assms(1) by (auto simp: ts_safe_def)
  obtain n where n: "block_at ts p = Some n" "sn_children n \<noteq> []"
    using assms(2) by (force simp: down_def kids_def split: option.splits)
  then obtain sb where sb: "sn_sb n = Some sb" using ts_linkedD(2) [OF l(1) n(1)] by (auto simp: node_ok_def)
  let ?f = "sn_shouldFalter n"
  define sb' where "sb' = fst (Tree_RecordPoll votes (if ?f then Tree_RecordUnsuccessfulPoll sb else sb))"
  define n' where "n' = n\<lparr>sn_sb := Some sb', sn_shouldFalter := False\<rparr>"
  define ts1 where "ts1 = ts\<lparr>ts_blocks := AList.update p n' (ts_blocks ts)\<rparr>"
  let ?c = "Tree_Preference sb'" and ?fold = "fold (falter_child ?f nextID) (map fst (sn_children n'))"
  note ok = node_ok_poll [OF ts_linkedD(2) [OF l(1) n(1)] sb n'_def sb'_def]
  have ts1: "ts_safe root st0 ts1" "ts_head ts1 = ts_head ts" "block_at ts1 p = Some n'"
    using linked_update [OF l(1) n(1) ok(1)] l(2) n by (auto simp: ts_safe_def ts1_def n'_def)
  have kd: "kids ts1 = kids ts" "dom (block_at ts1) = dom (block_at ts)"
    using n(1) by (auto simp: kids_def fun_eq_iff ts1_def n'_def)
  have k1: "kept ts ts1" by (rule kept_same) (use kd in \<open>simp_all add: ts1_def\<close>)
  obtain b where b: "map_of (sn_children n') ?c = Some b" using ok(2) by (auto simp: n'_def)
  define res where "res = (if Tree_Finalized sb' \<and> ts_head ts1 = p
    then res_bind (acceptPreferredChild vm n' ts1) (\<lambda>ts. Inr (ts\<lparr>ts_blocks := AList.delete p (ts_blocks ts)\<rparr>)) else Inr ts1)"
  have eq: "vote_round vm p votes nextID ts = res_bind res (\<lambda>ts. Inr (Some (?fold ts, ?c)))"
    using n sb by (simp add: vote_round_def Let_def res_def ts1_def n'_def sb'_def)
  have fold: "polled ts p (?fold ts') ?c" if "polled ts p ts' ?c" for ts'
    using that kept_trans [OF _ kept_falter_children] falter_children_keep [of "[]" ?f nextID "map fst (sn_children n')" ts']
    by (auto simp: polled_def core_def)
  have "(\<exists>e. res = Inl e \<and> vm_error vm e) \<or> (\<exists>ts'. res = Inr ts' \<and> polled ts p ts' ?c)"
  proof (cases "Tree_Finalized sb' \<and> ts_head ts1 = p")
    case True
    note a = accept_safe [OF ts1(1) _ _ b, of res vm]
    show ?thesis
    proof (cases res)
      case (Inl e)
      with a True ts1(3) show ?thesis by (simp add: res_def n'_def)
    next
      case (Inr ts')
      with a True ts1(3) have ts': "ts_safe root st0 ts'" "ts_head ts' = ?c" "block_at ts' \<subseteq>\<^sub>m block_at ts1"
        "preferredIDs ts' = preferredIDs ts1 - {?c}" "ts_tail ts' = ts_tail ts1" by (simp_all add: res_def n'_def)
      then have "kept ts ts'" by (auto intro!: kept_trans [OF k1] kept_map_le)
      moreover have "?c \<in> dom (block_at ts')"
        using ts'(1,2) links_head(1) [OF ts_linkedD(1), of ts' "{}" "{}"] by (simp add: ts_safe_def)
      ultimately show ?thesis using True Inr ts'(2,4) ts1(2) by (simp add: polled_def)
    qed
  next
    case False
    have "ts_linked ts1 {} {}" using ts1(1) by (simp add: ts_safe_def)
    then have "?c \<in> dom (block_at ts1)" using down_dom [of ts1 p ?c] b ts1(3) by (simp add: down_def kids_def)
    then have "polled ts p ts1 ?c" using k1 kd(2) ts1(2) by (simp add: polled_def)
    with False show ?thesis by (auto simp: res_def)
  qed
  with fold eq show ?thesis by auto
qed

text \<open>The stack from its top: when the last accepted block is on it, no other block of the tree comes first.\<close>

lemma head_on_top:
  assumes "ts_linked ts {} {}" "ranked f ts" "kept ts0 ts" "p \<in> dom (block_at ts)" "p \<noteq> ts_head ts"
    and "sorted_wrt (\<lambda>i j. (j, i) \<notin> (down ts0)\<^sup>*) (p # ids)"
  shows "ts_head ts \<notin> set (p # ids)"
proof -
  have "(ts_head ts, p) \<in> (down ts0)\<^sup>*"
    using head_reaches [OF assms(1,2,4)] rtrancl_mono [OF kept_down [OF assms(3)]] by blast
  with assms(5,6) show ?thesis by auto
qed

lemma ranked_kept: "ranked f ts \<Longrightarrow> kept ts ts' \<Longrightarrow> ranked f ts'"
  using kept_down by (auto simp: ranked_def)

text \<open>The loop starts on the preferred branch; off it, no block is accepted any more. The preference it returns
  is therefore in the tree at the end.\<close>

lemma vote_loop_returns:
  assumes "ts_safe root st0 ts" "ranked f ts0" "kept ts0 ts" "pref \<in> dom (block_at ts)" "ts_head ts \<notin> preferredIDs ts"
    and "sorted_wrt (\<lambda>i j. (j, i) \<notin> (down ts0)\<^sup>*) (map fst st)" "\<forall>i \<in> set (map fst st). \<exists>c. (i, c) \<in> down ts0"
    and "on \<or> ts_head ts \<notin> set (map fst st) \<or> fst (hd st) \<notin> dom (block_at ts)"
  shows "(\<exists>e. vote_loop vm st pref on ts = Inl e \<and> vm_error vm e)
    \<or> (\<exists>ts' pref'. vote_loop vm st pref on ts = Inr (ts', pref') \<and> kept ts0 ts' \<and> pref' \<in> dom (block_at ts')
        \<and> ts_head ts' \<notin> preferredIDs ts')"
  using assms(1,3-8)
proof (induction st arbitrary: pref on ts)
  case (Cons v st)
  obtain p votes where v: "v = (p, votes)" by fastforce
  let ?next = "case st of [] \<Rightarrow> Empty_ID | (next, _) # _ \<Rightarrow> next"
  show ?case
  proof (cases "p \<in> dom (block_at ts)")
    case False
    then have "vote_round vm p votes ?next ts = Inr None" by (auto simp: vote_round_def split: option.splits)
    with v Cons.prems show ?thesis by simp
  next
    case True
    have l: "ts_linked ts {} {}" using Cons.prems(1) by (simp add: ts_safe_def)
    obtain c where "(p, c) \<in> down ts0" using Cons.prems(6) v by auto
    with True Cons.prems(2) have c: "(p, c) \<in> down ts" by (simp add: down_def kept_def)
    from vote_round_returns [OF Cons.prems(1) c, of vm votes ?next] show ?thesis
    proof (elim disjE exE conjE)
      fix ts1 pp
      assume r: "vote_round vm p votes ?next ts = Inr (Some (ts1, pp))" and po: "polled ts p ts1 pp"
      have s1: "ts_safe root st0 ts1" using vote_round_safe [OF Cons.prems(1)] r by blast
      have k1: "kept ts0 ts1" using kept_trans [OF Cons.prems(2)] po by (simp add: polled_def)
      let ?pref = "if on then pp else pref" and ?on = "on \<and> ?next = pp"
      have srt: "sorted_wrt (\<lambda>i j. (j, i) \<notin> (down ts0)\<^sup>*) (p # map fst st)" using Cons.prems(5) v by simp
      have off: "ts_head ts \<notin> set (map fst st)"
        using head_on_top [OF l ranked_kept [OF assms(2) Cons.prems(2)] Cons.prems(2) True _ srt] srt by (cases "p = ts_head ts") auto
      have stay: "ts_head ts1 = ts_head ts" "dom (block_at ts1) = dom (block_at ts)" if "\<not> on"
        using that po Cons.prems(7) True v by (auto simp: polled_def)
      have "?pref \<in> dom (block_at ts1)" using po stay Cons.prems(3) by (auto simp: polled_def)
      moreover have "ts_head ts1 \<notin> preferredIDs ts1"
        using po Cons.prems(4) by (auto simp: polled_def kept_def)
      moreover have "?on \<or> ts_head ts1 \<notin> set (map fst st) \<or> fst (hd st) \<notin> dom (block_at ts1)"
      proof (cases "ts_head ts1 = ts_head ts")
        case False
        then have acc: on "ts_head ts1 = pp" using stay po by (auto simp: polled_def)
        have l1: "ts_linked ts1 {} {}" using s1 by (simp add: ts_safe_def)
        show ?thesis
        proof (cases st)
          case (Cons w st')
          have "ts_head ts1 \<notin> set (map fst st)" if "fst w \<noteq> pp" "fst w \<in> dom (block_at ts1)"
            using head_on_top [OF l1 ranked_kept [OF assms(2) k1] k1 that(2), of "map fst st'"] that(1) acc srt Cons by auto
          with acc Cons show ?thesis by (cases w) (simp, blast)
        qed simp
      qed (use off in simp)
      ultimately show ?thesis
        using Cons.IH [OF s1 k1, of ?pref ?on] srt Cons.prems(6) v r by simp
    qed (use v in simp)
  qed
qed simp

subsection \<open>The preferred branch\<close>

definition marks :: "Topological \<Rightarrow> ID set \<times> ID" where
  "marks ts = (preferredIDs ts, ts_tail ts)"

lemma marks_set [simp]: "marks (set_kahn b k ts) = marks ts" "marks (ts\<lparr>leaves := l\<rparr>) = marks ts"
  "marks (ts\<lparr>kahnNodes := ks\<rparr>) = marks ts" "marks (ts\<lparr>pollNumber := m\<rparr>) = marks ts"
  by (simp_all add: marks_def set_kahn_def)

lemma marks_ancestors_loop: "ancestors_loop fuel b ts = Inr ts' \<Longrightarrow> marks ts' = marks ts"
  by (induction fuel b ts rule: ancestors_loop.induct) (auto simp: Let_def split: option.splits if_splits)

lemma marks_in_degree_step: "in_degree_step votes v ts = Inr ts' \<Longrightarrow> marks ts' = marks ts"
  by (auto simp: in_degree_step_def Let_def split: option.splits if_splits dest!: marks_ancestors_loop)

lemma marks_in_degree_loop: "in_degree_loop votes vs ts = Inr ts' \<Longrightarrow> marks ts' = marks ts"
  by (induction vs arbitrary: ts) (auto simp: res_bind_Inr_iff dest!: marks_in_degree_step)

lemma marks_push_step: "push_step pop ts st = Inr (ts', st') \<Longrightarrow> marks ts' = marks ts"
  by (auto simp: push_step_def Let_def split: option.splits if_splits)

lemma marks_push_loop: "push_loop pop fuel ts st = Inr (ts', st') \<Longrightarrow> marks ts' = marks ts"
  by (induction fuel arbitrary: ts st)
    (auto simp: res_bind_Inr_iff split: if_splits prod.splits dest!: marks_push_step)

lemma marks_collect:
  assumes "res_bind (calculateInDegree votes ts) (pushVotes pop) = Inr (ts', st)"
  shows "marks ts' = marks ts"
  using assms unfolding res_bind_Inr_iff pushVotes_def calculateInDegree_def
  by (auto dest!: marks_in_degree_loop marks_push_loop)

text \<open>The preferred blocks lie on a path to the preference, except for those that have been decided.\<close>

definition pref_inv :: "Topological \<Rightarrow> bool" where
  "pref_inv ts \<longleftrightarrow> ts_tail ts \<in> dom (block_at ts) \<and> ts_head ts \<notin> preferredIDs ts
     \<and> (\<forall>x \<in> preferredIDs ts. Status_Decided (statuses ts x) \<or> (x, ts_tail ts) \<in> (down ts)\<^sup>*)"

lemma reach_dom:
  assumes "ts_linked ts {} {}" "(x, y) \<in> (down ts)\<^sup>*" "y \<in> dom (block_at ts)"
  shows "x \<in> dom (block_at ts)"
  using assms(2,3) by (induction rule: converse_rtrancl_induct) (use down_dom [OF assms(1)] in blast)+

lemma reach_kept:
  assumes "ts_linked ts' {} {}" "kept ts ts'" "x \<in> dom (block_at ts')" "(x, y) \<in> (down ts)\<^sup>*"
  shows "(x, y) \<in> (down ts')\<^sup>* \<and> y \<in> dom (block_at ts')"
  using assms(4)
proof (induction rule: rtrancl_induct)
  case (step y z)
  then have "(y, z) \<in> down ts'" using assms(2) by (simp add: kept_def down_def)
  with step.IH down_dom [OF assms(1)] show ?case by (meson rtrancl.rtrancl_into_rtrancl)
qed (use assms(3) in simp)

text \<open>After the votes, the blocks that are still preferred lead to the old preference.\<close>

lemma pref_inv_kept:
  assumes "ts_linked ts {} {}" "ts_safe root st0 ts'" "kept ts ts'" "advanced ts ts'" "pref_inv ts"
    and "ts_head ts' \<notin> preferredIDs ts'" "pref \<in> preferredIDs ts'" "pref \<in> dom (block_at ts')"
  shows "pref_inv ts'"
proof -
  have l': "ts_linked ts' {} {}" using assms(2) by (simp add: ts_safe_def)
  have tail: "ts_tail ts \<in> dom (block_at ts)" "ts_tail ts' = ts_tail ts" using assms(3,5) by (auto simp: pref_inv_def kept_def)
  have reach: "Status_Decided (statuses ts' x) \<or> (x, ts_tail ts) \<in> (down ts')\<^sup>* \<and> ts_tail ts \<in> dom (block_at ts')"
    if x: "x \<in> preferredIDs ts'" for x
  proof -
    have "x \<in> preferredIDs ts" using x assms(3) by (auto simp: kept_def)
    with assms(5) consider "Status_Decided (statuses ts x)" | "(x, ts_tail ts) \<in> (down ts)\<^sup>*"
      unfolding pref_inv_def by blast
    then show ?thesis
    proof cases
      case 2
      then have "x \<in> dom (block_at ts)" using reach_dom [OF assms(1) _ tail(1)] by blast
      with assms(4) reach_kept [OF l' assms(3) _ 2] show ?thesis unfolding advanced_def by blast
    qed (use assms(4) in \<open>simp add: advanced_def\<close>)
  qed
  have "ts_Processing ts' pref" using assms(6-8) by (auto simp: ts_Processing_def)
  with processing_undecided [OF assms(2)] reach [OF assms(7)] have "ts_tail ts \<in> dom (block_at ts')" by blast
  with reach assms(6) tail(2) show ?thesis by (auto simp: pref_inv_def)
qed

lemma prefer_up_returns:
  assumes "ts_linked ts {} {}" "ranked f ts" "b \<in> dom (block_at ts)" "rank_below f ts b < fuel"
  shows "\<exists>ts'. prefer_up fuel b ts = Inr ts' \<and> ts_tail ts' = ts_tail ts
    \<and> preferredIDs ts' \<subseteq> preferredIDs ts \<union> {x. x \<noteq> ts_head ts \<and> (x, b) \<in> (down ts)\<^sup>*}"
  using assms
proof (induction fuel arbitrary: b ts)
  case (Suc fuel)
  from Suc.prems(1,3) show ?case
  proof (cases rule: pending_cases)
    case (2 n blk)
    let ?ts = "ts\<lparr>preferredIDs := insert b (preferredIDs ts)\<rparr>"
    have core: "core ?ts = core ts" by simp
    have d: "down ?ts = down ts" "rank_below f ?ts = rank_below f ts" by (simp_all add: down_core [OF core] rank_below_def [abs_def])
    have IH: "\<exists>ts'. prefer_up fuel (blk_Parent blk) ?ts = Inr ts' \<and> ts_tail ts' = ts_tail ?ts
        \<and> preferredIDs ts' \<subseteq> preferredIDs ?ts \<union> {x. x \<noteq> ts_head ?ts \<and> (x, blk_Parent blk) \<in> (down ?ts)\<^sup>*}"
      using Suc.prems(1,2,4) rank_step(1) [OF Suc.prems(1,2) 2(6)] down_dom [OF Suc.prems(1) 2(6)]
      by (intro Suc.IH) (simp_all add: ts_linked_core [OF core] d ranked_def)
    have "(x, b) \<in> (down ts)\<^sup>*" if "(x, blk_Parent blk) \<in> (down ts)\<^sup>*" for x using that 2(6) by simp
    with IH 2(1) have "\<exists>ts'. prefer_up fuel (blk_Parent blk) ?ts = Inr ts' \<and> ts_tail ts' = ts_tail ts
        \<and> preferredIDs ts' \<subseteq> preferredIDs ts \<union> {x. x \<noteq> ts_head ts \<and> (x, b) \<in> (down ts)\<^sup>*}"
      unfolding d by fastforce
    with 2 show ?thesis by simp
  qed simp
qed simp

lemma prefer_down_returns:
  assumes "ts_linked ts {} {}" "ranked f ts" "ts_tail ts \<in> dom (block_at ts)" "rank_above f ts (ts_tail ts) < fuel"
  shows "\<exists>ts'. prefer_down fuel ts = Inr ts' \<and> (ts_tail ts, ts_tail ts') \<in> (down ts)\<^sup>*
    \<and> preferredIDs ts' \<subseteq> preferredIDs ts \<union> {x. x \<noteq> ts_head ts \<and> (x, ts_tail ts') \<in> (down ts)\<^sup>*}"
  using assms
proof (induction fuel arbitrary: ts)
  case (Suc fuel)
  obtain n where n: "block_at ts (ts_tail ts) = Some n" using Suc.prems(3) by auto
  note ok = ts_linkedD(2) [OF Suc.prems(1) n]
  show ?case
  proof (cases "sn_sb n")
    case None
    with n show ?thesis by simp
  next
    case (Some sb)
    let ?c = "Tree_Preference sb"
    let ?ts = "ts\<lparr>ts_tail := ?c, preferredIDs := insert ?c (preferredIDs ts)\<rparr>"
    have "?c \<in> dom (map_of (sn_children n))" using Preference_held [of "tree_abs sb"] ok Some by (auto simp: node_ok_def)
    then have c: "(ts_tail ts, ?c) \<in> down ts" using n by (auto simp: down_def kids_def)
    have core: "core ?ts = core ts" by simp
    have d: "down ?ts = down ts" "rank_above f ?ts = rank_above f ts" by (simp_all add: down_core [OF core] rank_above_def [abs_def])
    have IH: "\<exists>ts'. prefer_down fuel ?ts = Inr ts' \<and> (ts_tail ?ts, ts_tail ts') \<in> (down ?ts)\<^sup>*
        \<and> preferredIDs ts' \<subseteq> preferredIDs ?ts \<union> {x. x \<noteq> ts_head ?ts \<and> (x, ts_tail ts') \<in> (down ?ts)\<^sup>*}"
      using Suc.prems(1,2,4) rank_step(2) [OF Suc.prems(1,2) c] down_dom [OF Suc.prems(1) c]
      by (intro Suc.IH) (simp_all add: ts_linked_core [OF core] d ranked_def)
    have "(ts_tail ts, x) \<in> (down ts)\<^sup>*" if "(?c, x) \<in> (down ts)\<^sup>*" for x using that c by (simp add: converse_rtrancl_into_rtrancl)
    with IH down_dom [OF Suc.prems(1) c]
    have "\<exists>ts'. prefer_down fuel ?ts = Inr ts' \<and> (ts_tail ts, ts_tail ts') \<in> (down ts)\<^sup>*
        \<and> preferredIDs ts' \<subseteq> preferredIDs ts \<union> {x. x \<noteq> ts_head ts \<and> (x, ts_tail ts') \<in> (down ts)\<^sup>*}"
      unfolding d by fastforce
    with n Some show ?thesis by simp
  qed
qed simp

text \<open>The branch that is rebuilt around a block of the tree.\<close>

lemma rebuild_returns:
  assumes "ts_linked ts {} {}" "ranked f ts" "pref \<in> dom (block_at ts)" "fuel = Suc (length (ts_blocks ts))"
    and ts0: "ts0 = ts\<lparr>preferredIDs := {}, ts_tail := pref\<rparr>"
  shows "\<exists>ts'. res_bind (prefer_up fuel pref ts0) (prefer_down fuel) = Inr ts' \<and> core ts' = core ts \<and> pref_inv ts'"
proof -
  have core0: "core ts0 = core ts" by (simp add: ts0)
  have 0: "ts_linked ts0 {} {}" "ranked f ts0" "pref \<in> dom (block_at ts0)" "rank_below f ts0 pref < fuel"
    using assms(1-4) ts_linked_core [OF core0] down_core [OF core0] rank_bounds(1) [OF assms(1), of f pref]
    by (simp_all add: ts0 ranked_def rank_below_def)
  obtain ts1 where ts1: "prefer_up fuel pref ts0 = Inr ts1" "ts_tail ts1 = pref"
    "preferredIDs ts1 \<subseteq> {x. x \<noteq> ts_head ts0 \<and> (x, pref) \<in> (down ts0)\<^sup>*}"
    using prefer_up_returns [OF 0] by (auto simp: ts0)
  have core1: "core ts1 = core ts0" by (rule core_prefer_up [OF ts1(1)])
  have 1: "ts_linked ts1 {} {}" "ranked f ts1" "ts_tail ts1 \<in> dom (block_at ts1)" "rank_above f ts1 (ts_tail ts1) < fuel"
    using 0 ts1(2) ts_linked_core [OF core1] down_core [OF core1] rank_bounds(2) [of ts1 f] assms(4) core1 core0
    by (auto simp: ranked_def core_def less_Suc_eq_le)
  obtain ts2 where ts2: "prefer_down fuel ts1 = Inr ts2" "(pref, ts_tail ts2) \<in> (down ts1)\<^sup>*"
    "preferredIDs ts2 \<subseteq> preferredIDs ts1 \<union> {x. x \<noteq> ts_head ts1 \<and> (x, ts_tail ts2) \<in> (down ts1)\<^sup>*}"
    using prefer_down_returns [OF 1] ts1(2) by auto
  have core2: "core ts2 = core ts1" by (rule core_prefer_down [OF ts2(1)])
  have "down ts0 = down ts2" "down ts1 = down ts2" "ts_head ts0 = ts_head ts2" "ts_head ts1 = ts_head ts2"
    using down_core [OF core1] down_core [OF core2] core1 core2 by (simp_all add: core_def)
  with ts1(3) ts2(2,3) have "preferredIDs ts2 \<subseteq> {x. x \<noteq> ts_head ts2 \<and> (x, ts_tail ts2) \<in> (down ts2)\<^sup>*}"
    by (auto intro: rtrancl_trans)
  moreover have "ts_tail ts2 \<in> dom (block_at ts2)"
    using down_rtrancl_dom [OF 1(1) ts2(2)] 1(3) ts1(2) core2 by (simp add: core_def)
  ultimately have "pref_inv ts2" by (auto simp: pref_inv_def)
  with ts1(1) ts2(1) core0 core1 core2 show ?thesis by simp
qed

subsection \<open>Every call returns\<close>

definition ts_inv :: "ID \<Rightarrow> (ID \<Rightarrow> Status) \<Rightarrow> Topological \<Rightarrow> bool" where
  "ts_inv root st0 ts \<longleftrightarrow> ts_safe root st0 ts \<and> (\<exists>f. ranked f ts) \<and> pref_inv ts"

text \<open>A call returns a state that satisfies the invariant, or reports an error of the VM or a block that was
  issued before.\<close>

definition returns :: "(Topological \<Rightarrow> bool) \<Rightarrow> VM \<Rightarrow> ts_error + Topological \<Rightarrow> bool" where
  "returns P vm r \<longleftrightarrow> (case r of Inr ts \<Rightarrow> P ts | Inl e \<Rightarrow> e = errDuplicateAdd \<or> vm_error vm e)"

lemma vote_returns:
  assumes "ts_safe root st0 ts" "ranked f ts" "pref_inv ts" "stack_ordered ts (map fst st)"
  shows "(\<exists>e. ts_vote vm st ts = Inl e \<and> vm_error vm e)
    \<or> (\<exists>ts' pref. ts_vote vm st ts = Inr (ts', pref) \<and> kept ts ts' \<and> pref \<in> dom (block_at ts')
        \<and> ts_head ts' \<notin> preferredIDs ts')"
proof (cases "st = []")
  case True
  have h: "ts_head ts \<in> dom (block_at ts)" using assms(1) links_head(1) [OF ts_linkedD(1)] by (auto simp: ts_safe_def)
  then obtain n where n: "block_at ts (ts_head ts) = Some n" by auto
  let ?ts = "ts\<lparr>ts_blocks := AList.update (ts_head ts) (n\<lparr>sn_shouldFalter := True\<rparr>) (ts_blocks ts)\<rparr>"
  have d: "kids ?ts = kids ts" "dom (block_at ?ts) = dom (block_at ts)" using n by (auto simp: kids_def fun_eq_iff)
  then have "kept ts ?ts" by (intro kept_same) simp_all
  moreover have "ts_tail ts \<in> dom (block_at ?ts)" "ts_head ?ts \<notin> preferredIDs ?ts"
    using assms(3) d(2) by (simp_all add: pref_inv_def)
  ultimately show ?thesis using True n by (simp add: ts_vote_def)
next
  case False
  have "ts_head ts \<in> dom (block_at ts)" using assms(1) links_head(1) [OF ts_linkedD(1)] by (auto simp: ts_safe_def)
  moreover have "kept ts ts" "ts_head ts \<notin> preferredIDs ts" using assms(3) by (simp_all add: kept_def pref_inv_def)
  moreover have "sorted_wrt (\<lambda>i j. (j, i) \<notin> (down ts)\<^sup>*) (map fst (rev st))" "\<forall>i \<in> set (map fst (rev st)). \<exists>c. (i, c) \<in> down ts"
    using assms(4) by (simp_all add: stack_ordered_def sorted_wrt_rev flip: rev_map)
  ultimately show ?thesis
    using vote_loop_returns [OF assms(1,2), of "ts_head ts" "rev st" True vm] False by (simp add: ts_vote_def)
qed

lemma ranked_core: "core ts' = core ts \<Longrightarrow> ranked f ts' = ranked f ts"
  using down_core [of ts' ts] by (simp add: ranked_def)

lemma pref_inv_core:
  assumes "core ts' = core ts" "marks ts' = marks ts"
  shows "pref_inv ts' = pref_inv ts"
proof -
  have "ts_blocks ts' = ts_blocks ts" "ts_head ts' = ts_head ts" "statuses ts' = statuses ts"
    "preferredIDs ts' = preferredIDs ts" "ts_tail ts' = ts_tail ts"
    using assms by (simp_all add: core_def marks_def)
  then show ?thesis unfolding pref_inv_def down_core [OF assms(1)] by simp
qed

lemma RecordPoll_returns:
  assumes "ts_inv root st0 ts" "\<And>xs. xs \<noteq> [] \<Longrightarrow> pop xs \<in> set xs"
  shows "returns (ts_inv root st0) vm (ts_RecordPoll vm pop votes ts)"
proof -
  obtain f where inv: "ts_safe root st0 ts" "ranked f ts" "pref_inv ts" using assms(1) by (auto simp: ts_inv_def)
  let ?ts = "ts\<lparr>pollNumber := pollNumber ts + 1\<rparr>"
  let ?col = "if Len votes \<ge> Alpha (ts_params ?ts) then res_bind (calculateInDegree votes ?ts) (pushVotes pop) else Inr (?ts, [])"
  have core: "core ?ts = core ts" by simp
  have "ts_linked ?ts {} {}" "ranked f ?ts"
    using inv ts_linked_core [OF core] ranked_core [OF core] by (simp_all add: ts_safe_def)
  from collect_returns [OF this assms(2)]
  obtain ts1 st where ts1: "?col = Inr (ts1, st)" "stack_ordered ?ts (map fst st)"
    by (cases "Len votes \<ge> Alpha (ts_params ?ts)") (fastforce simp: stack_ordered_def)+
  have core1: "core ts1 = core ts" "marks ts1 = marks ts"
    using ts1(1) core_collect [of votes ?ts pop ts1 st] marks_collect [of votes ?ts pop ts1 st] by (auto split: if_splits)
  have 1: "ts_safe root st0 ts1" "ranked f ts1" "pref_inv ts1" "stack_ordered ts1 (map fst st)"
    using inv ts_safe_core [OF core1(1)] ranked_core [OF core1(1)] pref_inv_core [OF core1] ts1(2)
      down_core [OF core1(1)] down_core [OF core] by (simp_all add: stack_ordered_def)
  then have l1: "ts_linked ts1 {} {}" by (simp add: ts_safe_def)
  from vote_returns [OF 1(1-4), of vm] show ?thesis
  proof (elim disjE exE conjE)
    fix e assume "ts_vote vm st ts1 = Inl e" "vm_error vm e"
    with ts1(1) show ?thesis by (simp add: ts_RecordPoll_def Let_def returns_def)
  next
    fix ts2 pref
    assume v: "ts_vote vm st ts1 = Inr (ts2, pref)" and k: "kept ts1 ts2" "pref \<in> dom (block_at ts2)" "ts_head ts2 \<notin> preferredIDs ts2"
    have 2: "ts_safe root st0 ts2" "advanced ts1 ts2" using ts_vote_safe [OF 1(1) v] by auto
    have r2: "ranked f ts2" by (rule ranked_kept [OF 1(2) k(1)])
    have l2: "ts_linked ts2 {} {}" using 2(1) by (simp add: ts_safe_def)
    let ?fuel = "Suc (length (ts_blocks ts2))"
    obtain ts3 where ts3: "res_bind (prefer_up ?fuel pref (ts2\<lparr>preferredIDs := {}, ts_tail := pref\<rparr>)) (prefer_down ?fuel) = Inr ts3"
      "core ts3 = core ts2" "pref_inv ts3"
      using rebuild_returns [OF l2 r2 k(2) refl refl] by blast
    have "ts_RecordPoll vm pop votes ts = (if pref \<in> preferredIDs ts2 then Inr ts2 else Inr ts3)"
      using ts1(1) v ts3(1) by (simp add: ts_RecordPoll_def Let_def del: prefer_up.simps prefer_down.simps)
    moreover have "ts_inv root st0 ts3"
      using 2(1) r2 ts3 ts_safe_core [OF ts3(2)] ranked_core [OF ts3(2)] by (auto simp: ts_inv_def)
    moreover have "ts_inv root st0 ts2" if "pref \<in> preferredIDs ts2"
      using pref_inv_kept [OF l1 2(1) k(1) 2(2) 1(3) k(3) that k(2)] 2(1) r2 by (auto simp: ts_inv_def)
    ultimately show ?thesis by (simp add: returns_def)
  qed
qed

lemma Add_returns:
  assumes "ts_inv root st0 ts" "valid_ID (blk_ID b)"
  shows "returns (ts_inv root st0) vm (ts_Add vm b ts)"
proof (cases "ts_Add vm b ts")
  case (Inl e)
  then show ?thesis
    by (auto simp: returns_def ts_Add_def Let_def Reject_blk_def split: if_splits option.splits)
next
  case (Inr ts')
  let ?c = "blk_ID b" and ?p = "blk_Parent b"
  obtain f where inv: "ts_safe root st0 ts" "ranked f ts" "pref_inv ts" using assms(1) by (auto simp: ts_inv_def)
  have l: "ts_linked ts {} {}" using inv(1) by (simp add: ts_safe_def)
  have s': "ts_safe root st0 ts'" "advanced ts ts'" "\<not> Status_Decided (statuses ts ?c)"
    using Add_safe [OF inv(1) assms(2) Inr] by auto
  have hd: "ts_head ts \<in> dom (block_at ts)" "statuses ts (ts_head ts) = Accepted"
    using links_head(1,4) [OF ts_linkedD(1) [OF l]] by auto
  then have u: "?c \<noteq> ts_head ts" using s'(3) by auto
  then have c: "?c \<notin> dom (block_at ts)"
    using Inr by (auto simp: ts_Add_def Let_def ts_Processing_def split: if_splits)
  show ?thesis
  proof (cases "block_at ts ?p")
    case None
    with Inr have ts': "ts' = ts\<lparr>statuses := (statuses ts)(?c := Rejected), events := events ts @ [RejectedBlock b]\<rparr>"
      by (auto simp: ts_Add_def Let_def Reject_blk_def split: if_splits)
    have d: "down ts' = down ts" by (simp add: ts' down_def kids_def)
    with inv(3) have "pref_inv ts'" unfolding pref_inv_def d by (auto simp: ts')
    with s'(1) inv(2) d Inr show ?thesis by (auto simp: returns_def ts_inv_def ranked_def)
  next
    case (Some n)
    let ?ts = "ts\<lparr>ts_blocks := AList.update ?c \<lparr>sn_params = ts_params ts, sn_blk = Some b, sn_shouldFalter = False, sn_sb = None,
      sn_children = []\<rparr> (AList.update ?p (AddChild b n) (ts_blocks ts))\<rparr>"
    have ts': "ts' = (if ts_tail ts = ?p then ?ts\<lparr>ts_tail := ?c, preferredIDs := insert ?c (preferredIDs ts)\<rparr> else ?ts)"
      using Inr Some by (auto simp: ts_Add_def Let_def split: if_splits)
    note ac = node_ok_AddChild [OF ts_linkedD(4) [OF l] ts_linkedD(2) [OF l Some] assms(2)]
    have p: "?p \<noteq> ?c" using Some c by auto
    have dm: "dom (block_at ts') = insert ?c (dom (block_at ts))" using Some by (auto simp: ts')
    have d: "down ts' = insert (?p, ?c) (down ts)"
      using c p Some ac(3) by (auto simp: ts' down_def kids_def split: if_splits option.splits)
    have "ranked (f(?c := Suc (f ?p))) ts'"
    proof -
      have "i \<noteq> ?c \<and> k \<noteq> ?c \<and> f i < f k" if "(i, k) \<in> down ts" for i k
        using inv(2) c down_dom [OF l that] that by (auto simp: ranked_def)
      then show ?thesis using p unfolding ranked_def d by auto
    qed
    moreover have "pref_inv ts'"
    proof -
      have mono: "(x, y) \<in> (down ts')\<^sup>*" if "(x, y) \<in> (down ts)\<^sup>*" for x y
        using that rtrancl_mono [of "down ts" "down ts'"] d by auto
      have tail: "(x, ts_tail ts') \<in> (down ts')\<^sup>*" if "(x, ts_tail ts) \<in> (down ts)\<^sup>*" for x
        using mono [OF that] d by (auto simp: ts' intro: rtrancl.rtrancl_into_rtrancl)
      have "ts_tail ts' \<in> dom (block_at ts')" "ts_head ts' \<notin> preferredIDs ts'" "statuses ts' = statuses ts"
        "preferredIDs ts' \<subseteq> preferredIDs ts \<union> {ts_tail ts'}"
        using inv(3) u unfolding dm by (auto simp: ts' pref_inv_def)
      with inv(3) tail show ?thesis unfolding pref_inv_def by auto
    qed
    ultimately show ?thesis using s'(1) Inr by (auto simp: returns_def ts_inv_def)
  qed
qed

lemma run_returns:
  assumes "\<And>xs. xs \<noteq> [] \<Longrightarrow> pop xs \<in> set xs"
  shows "ts_inv root st0 ts \<Longrightarrow> \<forall>b. Issue b \<in> set calls \<longrightarrow> valid_ID (blk_ID b) \<Longrightarrow>
    returns (ts_inv root st0) vm (ts_run vm pop calls ts)"
proof (induction calls arbitrary: ts)
  case (Cons c calls)
  have step: "returns (ts_inv root st0) vm (ts_step vm pop c ts)"
    using Add_returns [OF Cons.prems(1)] RecordPoll_returns [OF Cons.prems(1) assms] Cons.prems(2) by (cases c) auto
  then show ?case
    using Cons.IH Cons.prems(2) by (cases "ts_step vm pop c ts") (auto simp: returns_def)
qed (simp add: returns_def)

lemma inv_Initialize:
  assumes "ts_Initialize params root h st0 = Inr ts" "st0 root = Accepted"
  shows "ts_inv root st0 ts"
proof -
  have "down ts = {}" "pref_inv ts"
    using assms by (auto simp: ts_Initialize_def down_def kids_def pref_inv_def split: option.splits if_splits)
  with safe_Initialize [OF assms] show ?thesis by (auto simp: ts_inv_def ranked_def)
qed

text \<open>(C2) Chain consensus never gets stuck. From the initial state, with any blocks issued and any votes
  recorded, and whatever order the sets are visited in, the run returns: it never dereferences a block
  that has been removed from the tree and none of its loops runs forever, and the only errors it reports
  are a block that is issued twice and failures of the VM. The preference is then the last accepted block or
  a block that is still processing.\<close>

theorem ts_never_stuck:
  assumes "ts_Initialize params root h st0 = Inr ts0" "st0 root = Accepted"
    and "\<forall>b. Issue b \<in> set calls \<longrightarrow> valid_ID (blk_ID b)" "\<And>xs. xs \<noteq> [] \<Longrightarrow> pop xs \<in> set xs"
  shows "case ts_run vm pop calls ts0 of
      Inr ts \<Rightarrow> ts_Preference ts = LastAccepted ts \<or> ts_Processing ts (ts_Preference ts)
    | Inl e \<Rightarrow> e = errDuplicateAdd \<or> (\<exists>b. e = AcceptorError b \<and> acceptor_fails vm b)
        \<or> (\<exists>b. e = AcceptError b \<and> accept_fails vm b) \<or> (\<exists>b. e = RejectError b \<and> reject_fails vm b)"
proof -
  have vm: "vm_error vm e \<longleftrightarrow> (\<exists>b. e = AcceptorError b \<and> acceptor_fails vm b)
      \<or> (\<exists>b. e = AcceptError b \<and> accept_fails vm b) \<or> (\<exists>b. e = RejectError b \<and> reject_fails vm b)" for e
    by (cases e) auto
  from run_returns [where vm = vm and pop = pop, OF assms(4) inv_Initialize [OF assms(1,2)] assms(3)] show ?thesis
    by (auto simp: returns_def vm ts_inv_def pref_inv_def ts_Preference_def LastAccepted_def ts_Processing_def split: sum.splits)
qed

theorem ts_never_stuck_witness:
  "\<exists>ts. ts_run quiet_VM hd (sample_issues @ map RecordVotes [Of [sample_id 4, sample_id 4]]) sample_root = Inr ts
     \<and> ts_Preference ts = sample_id 4 \<and> ts_Processing ts (sample_id 4)"
proof -
  let ?calls = "sample_issues @ map RecordVotes [Of [sample_id 4, sample_id 4]]"
  have "case ts_run quiet_VM hd ?calls sample_root of Inr ts \<Rightarrow> ts_Preference ts = sample_id 4 \<and> LastAccepted ts = sample_id 0 | Inl e \<Rightarrow> False"
    by code_simp
  then obtain ts where ts: "ts_run quiet_VM hd ?calls sample_root = Inr ts" "ts_Preference ts = sample_id 4" "LastAccepted ts = sample_id 0"
    by (cases "ts_run quiet_VM hd ?calls sample_root") auto
  moreover note ts_never_stuck [OF sample_root _ valid_sample_issues [of "[Of [sample_id 4, sample_id 4]]"], where pop = hd and vm = quiet_VM]
  moreover have "sample_id 4 \<noteq> sample_id 0" by code_simp
  ultimately show ?thesis by (simp add: sample_statuses_def)
qed

end
