(* ===== verification/Linked_Hashmap.thy ===== *)
theory Linked_Hashmap
  imports Prelude
begin

text \<open>
  The insertion-ordered map of \<^verbatim>\<open>utils/linkedhashmap\<close>: a Go map from keys to elements of a doubly linked list
  (\<^verbatim>\<open>container/list\<close>), oldest entry first. An element has an identity (its address) apart from its value; a
  list element here is an address with the key and value it holds, and the map leads to addresses. The
  lock is left out. The component promises what the locale \<open>ordered_map\<close> says; its clients use only that.
\<close>

record ('k, 'v) linkedHashmap =
  entryMap :: "('k, nat) gomap"
  entryList :: "(nat \<times> 'k \<times> 'v) list"
  nextElement :: nat

definition lh_New :: "('k, 'v) linkedHashmap" where
  "lh_New = \<lparr>entryMap = [], entryList = [], nextElement = 0\<rparr>"

text \<open>The operations of \<^verbatim>\<open>container/list\<close> the map uses.\<close>

definition list_Remove :: "nat \<Rightarrow> (nat \<times> 'a) list \<Rightarrow> (nat \<times> 'a) list" where
  "list_Remove e l = filter (\<lambda>(a, _). a \<noteq> e) l"

definition list_MoveToBack :: "nat \<Rightarrow> (nat \<times> 'a) list \<Rightarrow> (nat \<times> 'a) list" where
  "list_MoveToBack e l = list_Remove e l @ filter (\<lambda>(a, _). a = e) l"

definition list_SetValue :: "nat \<Rightarrow> 'a \<Rightarrow> (nat \<times> 'a) list \<Rightarrow> (nat \<times> 'a) list" where
  "list_SetValue e x l = map (\<lambda>(a, y). if a = e then (a, x) else (a, y)) l"

definition lh_Put :: "'k \<Rightarrow> 'v \<Rightarrow> ('k, 'v) linkedHashmap \<Rightarrow> ('k, 'v) linkedHashmap" where
  "lh_Put key val lh =
     (case map_of (entryMap lh) key of
        Some e \<Rightarrow> lh\<lparr>entryList := list_SetValue e (key, val) (list_MoveToBack e (entryList lh))\<rparr>
      | None \<Rightarrow> lh\<lparr>entryMap := AList.update key (nextElement lh) (entryMap lh),
                  entryList := entryList lh @ [(nextElement lh, key, val)],
                  nextElement := Suc (nextElement lh)\<rparr>)"

definition lh_Get :: "'k \<Rightarrow> ('k, 'v) linkedHashmap \<Rightarrow> 'v option" where
  "lh_Get key lh = (case map_of (entryMap lh) key of
     Some e \<Rightarrow> map_option snd (map_of (entryList lh) e)
   | None \<Rightarrow> None)"

definition lh_Delete :: "'k \<Rightarrow> ('k, 'v) linkedHashmap \<Rightarrow> ('k, 'v) linkedHashmap" where
  "lh_Delete key lh = (case map_of (entryMap lh) key of
     Some e \<Rightarrow> lh\<lparr>entryList := list_Remove e (entryList lh), entryMap := AList.delete key (entryMap lh)\<rparr>
   | None \<Rightarrow> lh)"

definition lh_Len :: "('k, 'v) linkedHashmap \<Rightarrow> int" where
  "lh_Len lh = int (length (entryMap lh))"

definition lh_Oldest :: "('k, 'v) linkedHashmap \<Rightarrow> ('k \<times> 'v) option" where
  "lh_Oldest lh = (case entryList lh of [] \<Rightarrow> None | e # _ \<Rightarrow> Some (snd e))"

definition lh_Newest :: "('k, 'v) linkedHashmap \<Rightarrow> ('k \<times> 'v) option" where
  "lh_Newest lh = (if entryList lh = [] then None else Some (snd (last (entryList lh))))"

text \<open>A value that is a pointer can change without the map being told: the object at a key is modified in
  place.\<close>

definition lh_modify :: "'k \<Rightarrow> ('v \<Rightarrow> 'v) \<Rightarrow> ('k, 'v) linkedHashmap \<Rightarrow> ('k, 'v) linkedHashmap" where
  "lh_modify key f lh = lh\<lparr>entryList := map (\<lambda>(a, k, v). (a, k, if k = key then f v else v)) (entryList lh)\<rparr>"

subsection \<open>The iterator\<close>

record 'k iterator =
  it_next :: "nat option"
  it_initialized :: bool
  it_exhausted :: bool

definition lh_NewIterator :: "'k iterator" where
  "lh_NewIterator = \<lparr>it_next = None, it_initialized = False, it_exhausted = False\<rparr>"

fun element_from :: "nat \<Rightarrow> (nat \<times> 'a) list \<Rightarrow> (nat \<times> 'a) list" where
  "element_from e [] = []"
| "element_from e ((a, x) # l) = (if a = e then (a, x) # l else element_from e l)"

text \<open>\<^verbatim>\<open>Next\<close>, with the key and value it moves to, if any. The result is None if the element the iterator is to
  return is missing, which comes of deleting it before it was visited.\<close>

definition it_Next :: "('k, 'v) linkedHashmap \<Rightarrow> 'k iterator \<Rightarrow> ('k iterator \<times> ('k \<times> 'v) option) option" where
  "it_Next lh it =
     (if it_exhausted it then Some (it\<lparr>it_next := None\<rparr>, None)
      else let it' = (if it_initialized it then it
                      else it\<lparr>it_initialized := True, it_next := map_option fst (case entryList lh of [] \<Rightarrow> None | e # _ \<Rightarrow> Some e)\<rparr>)
        in case it_next it' of
             None \<Rightarrow> if it_initialized it then None else Some (it'\<lparr>it_exhausted := True\<rparr>, None)
           | Some e \<Rightarrow>
               (case element_from e (entryList lh) of
                  [] \<Rightarrow> None
                | (_, kv) # rest \<Rightarrow>
                    let next = (case rest of [] \<Rightarrow> None | (a, _) # _ \<Rightarrow> Some a)
                    in Some (it'\<lparr>it_next := next, it_exhausted := (next = None)\<rparr>, Some kv)))"

subsection \<open>The interface\<close>

text \<open>What a linked hash map promises: its entries are an association list, oldest first, in which a put
  moves its key to the end.\<close>

locale ordered_map =
  fixes inv :: "'m \<Rightarrow> bool" and entries :: "'m \<Rightarrow> ('k \<times> 'v) list" and empty :: 'm
    and put :: "'k \<Rightarrow> 'v \<Rightarrow> 'm \<Rightarrow> 'm" and get :: "'k \<Rightarrow> 'm \<Rightarrow> 'v option" and delete :: "'k \<Rightarrow> 'm \<Rightarrow> 'm"
    and len :: "'m \<Rightarrow> int" and oldest :: "'m \<Rightarrow> ('k \<times> 'v) option"
  assumes empty_law: "inv empty" "entries empty = []"
    and put_law: "inv m \<Longrightarrow> inv (put k v m) \<and> entries (put k v m) = AList.delete k (entries m) @ [(k, v)]"
    and delete_law: "inv m \<Longrightarrow> inv (delete k m) \<and> entries (delete k m) = AList.delete k (entries m)"
    and get_law: "inv m \<Longrightarrow> get k m = map_of (entries m) k"
    and len_law: "inv m \<Longrightarrow> len m = int (length (entries m))"
    and oldest_law: "inv m \<Longrightarrow> oldest m = (case entries m of [] \<Rightarrow> None | e # _ \<Rightarrow> Some e)"
    and distinct_law: "inv m \<Longrightarrow> wf_gomap (entries m)"
begin

lemma get_put: "inv m \<Longrightarrow> get k' (put k v m) = (if k' = k then Some v else get k' m)"
  by (auto simp: get_law put_law map_of_append map_add_def split: option.splits)

lemma get_delete: "inv m \<Longrightarrow> get k' (delete k m) = (if k' = k then None else get k' m)"
  by (simp add: get_law delete_law)

lemma delete_oldest:
  assumes "inv m" "oldest m = Some (k, v)"
  shows "inv (delete k m)" "entries m = (k, v) # entries (delete k m)"
proof -
  obtain es where es: "entries m = (k, v) # es" using assms by (auto simp: oldest_law split: list.splits)
  with distinct_law [OF assms(1)] have "AList.delete k (entries m) = es" by (simp add: delete_absent)
  with es assms(1) show "inv (delete k m)" "entries m = (k, v) # entries (delete k m)" by (simp_all add: delete_law)
qed

lemma oldest_None: "inv m \<Longrightarrow> oldest m = None \<longleftrightarrow> entries m = []"
  by (simp add: oldest_law split: list.splits)

end

subsection \<open>The representation\<close>

definition lh_entries :: "('k, 'v) linkedHashmap \<Rightarrow> ('k \<times> 'v) list" where
  "lh_entries lh = map snd (entryList lh)"

text \<open>The map leads each key of the list, and no other, to the element that holds it.\<close>

definition lh_inv :: "('k, 'v) linkedHashmap \<Rightarrow> bool" where
  "lh_inv lh \<longleftrightarrow> distinct (map fst (entryList lh)) \<and> distinct (map fst (lh_entries lh)) \<and> wf_gomap (entryMap lh)
     \<and> (\<forall>k e. map_of (entryMap lh) k = Some e \<longleftrightarrow> (\<exists>v. (e, k, v) \<in> set (entryList lh)))
     \<and> (\<forall>(e, kv) \<in> set (entryList lh). e < nextElement lh)"

lemma list_Remove_entries:
  assumes "distinct (map fst l)" "distinct (map (fst \<circ> snd) l)" "(e, k, v) \<in> set l"
  shows "map snd (list_Remove e l) = AList.delete k (map snd l)"
  using assms
proof (induction l)
  case (Cons x l)
  obtain a k' v' where x: "x = (a, k', v')" by (metis prod_cases3)
  show ?case
  proof (cases "a = e")
    case True
    with Cons.prems x have "k' = k" "e \<notin> fst ` set l" "k \<notin> fst ` set (map snd l)" by force+
    moreover from this have "list_Remove e l = l" by (force simp: list_Remove_def filter_id_conv)
    ultimately show ?thesis using True x by (simp add: list_Remove_def delete_absent)
  next
    case False
    with Cons.prems x have "(e, k, v) \<in> set l" "k' \<noteq> k" by force+
    with Cons False x show ?thesis by (simp add: list_Remove_def)
  qed
qed simp

lemma element_unique:
  assumes "distinct (map fst l)" "(e, k, v) \<in> set l"
  shows "filter (\<lambda>(a, _). a = e) l = [(e, k, v)]"
  using assms
proof (induction l)
  case (Cons x l)
  obtain a y where x: "x = (a, y)" by (cases x)
  show ?case
  proof (cases "a = e")
    case True
    with Cons.prems x have "y = (k, v)" "e \<notin> fst ` set l" by force+
    moreover from this have "filter (\<lambda>(a, _). a = e) l = []" by (force simp: filter_empty_conv)
    ultimately show ?thesis using True x by simp
  next
    case False
    with Cons x show ?thesis by auto
  qed
qed simp

lemma lh_invD:
  assumes "lh_inv lh"
  shows "distinct (map fst (entryList lh))" "distinct (map (fst \<circ> snd) (entryList lh))" "wf_gomap (entryMap lh)"
    "map_of (entryMap lh) k = Some e \<longleftrightarrow> (\<exists>v. (e, k, v) \<in> set (entryList lh))"
    "(e, kv) \<in> set (entryList lh) \<Longrightarrow> e < nextElement lh"
  using assms by (auto simp: lh_inv_def lh_entries_def)

lemma lh_keys: "lh_inv lh \<Longrightarrow> map_of (entryMap lh) k = None \<longleftrightarrow> k \<notin> fst ` set (lh_entries lh)"
proof -
  assume inv: "lh_inv lh"
  have "map_of (entryMap lh) k \<noteq> None \<longleftrightarrow> (\<exists>e v. (e, k, v) \<in> set (entryList lh))"
    using lh_invD(4) [OF inv] by auto
  then show ?thesis by (force simp: lh_entries_def)
qed

lemma lh_element_key:
  assumes "lh_inv lh" "(e, k, v) \<in> set (entryList lh)" "(e', k', v') \<in> set (entryList lh)"
  shows "e' = e \<longleftrightarrow> k' = k"
proof
  assume "e' = e"
  with assms show "k' = k" using lh_invD(1) [OF assms(1)] by (metis eq_key_imp_eq_value fst_conv)
next
  assume "k' = k"
  with assms have "map_of (entryMap lh) k = Some e" "map_of (entryMap lh) k = Some e'"
    using lh_invD(4) [OF assms(1)] by blast+
  then show "e' = e" by simp
qed

lemma set_list_Remove:
  assumes "lh_inv lh" "(e, k, v) \<in> set (entryList lh)"
  shows "set (list_Remove e (entryList lh)) = {(e', k', v') \<in> set (entryList lh). k' \<noteq> k}"
  using lh_element_key [OF assms] by (auto simp: list_Remove_def)

lemma distinct_list_Remove: "distinct (map fst l) \<Longrightarrow> distinct (map fst (list_Remove e l))"
  by (simp add: list_Remove_def distinct_map_filter)

lemma lh_Delete_law:
  assumes inv: "lh_inv lh"
  shows "lh_inv (lh_Delete k lh) \<and> lh_entries (lh_Delete k lh) = AList.delete k (lh_entries lh)"
proof (cases "map_of (entryMap lh) k")
  case None
  moreover have "k \<notin> fst ` set (lh_entries lh)" using lh_keys [OF inv] None by blast
  ultimately show ?thesis using inv by (simp add: lh_Delete_def delete_absent)
next
  case (Some e)
  then obtain v where v: "(e, k, v) \<in> set (entryList lh)" using lh_invD(4) [OF inv] by blast
  note ents = list_Remove_entries [OF lh_invD(1,2) [OF inv] v]
  have dist: "distinct (map fst (AList.delete k (map snd (entryList lh))))"
    using lh_invD(2) [OF inv] by (simp add: distinct_delete)
  have "lh_inv (lh_Delete k lh)" unfolding lh_inv_def
    using Some lh_invD [OF inv] dist by (auto simp: lh_Delete_def lh_entries_def ents set_list_Remove [OF inv v]
        distinct_list_Remove distinct_delete)
  then show ?thesis using Some ents by (simp add: lh_Delete_def lh_entries_def)
qed

lemma lh_Put_existing:
  assumes inv: "lh_inv lh" and e: "map_of (entryMap lh) k = Some e"
  shows "entryList (lh_Put k v lh) = list_Remove e (entryList lh) @ [(e, k, v)]"
proof -
  from e obtain v' where v': "(e, k, v') \<in> set (entryList lh)" using lh_invD(4) [OF inv] by blast
  have "list_SetValue e (k, v) (list_Remove e (entryList lh)) = list_Remove e (entryList lh)"
    unfolding list_SetValue_def list_Remove_def by (rule map_idI) auto
  then show ?thesis using e element_unique [OF lh_invD(1) [OF inv] v']
    by (simp add: lh_Put_def list_MoveToBack_def) (simp add: list_SetValue_def)
qed

lemma lh_Put_law:
  assumes inv: "lh_inv lh"
  shows "lh_inv (lh_Put k v lh) \<and> lh_entries (lh_Put k v lh) = AList.delete k (lh_entries lh) @ [(k, v)]"
proof (cases "map_of (entryMap lh) k")
  case None
  have notin: "k \<notin> fst ` set (lh_entries lh)" using lh_keys [OF inv] None by blast
  have "nextElement lh \<notin> fst ` set (entryList lh)" using lh_invD(5) [OF inv] by fastforce
  moreover have "(e, k, v') \<notin> set (entryList lh)" for e v' using notin by (force simp: lh_entries_def)
  ultimately have "lh_inv (lh_Put k v lh)" unfolding lh_inv_def
    using None notin lh_invD [OF inv]
    by (auto simp: lh_Put_def lh_entries_def distinct_update less_Suc_eq)
  then show ?thesis using None notin by (simp add: lh_Put_def lh_entries_def delete_absent)
next
  case (Some e)
  then obtain v' where v': "(e, k, v') \<in> set (entryList lh)" using lh_invD(4) [OF inv] by blast
  note ents = list_Remove_entries [OF lh_invD(1,2) [OF inv] v']
  note put = lh_Put_existing [OF inv Some]
  have same: "entryMap (lh_Put k v lh) = entryMap lh" "nextElement (lh_Put k v lh) = nextElement lh"
    using Some by (simp_all add: lh_Put_def)
  have dist: "distinct (map fst (AList.delete k (map snd (entryList lh))))"
    using lh_invD(2) [OF inv] by (simp add: distinct_delete)
  have key: "e' = e \<longleftrightarrow> k' = k" if "(e', k', w) \<in> set (entryList lh)" for e' k' w
    using lh_element_key [OF inv v' that] .
  have "e \<notin> fst ` set (list_Remove e (entryList lh))" by (auto simp: list_Remove_def)
  then have "lh_inv (lh_Put k v lh)" unfolding lh_inv_def put same
    using Some v' lh_invD [OF inv] dist by (auto simp: lh_entries_def put ents set_list_Remove [OF inv v']
        distinct_list_Remove delete_keys dest: key)
  then show ?thesis using ents by (simp add: lh_entries_def put)
qed

lemma lh_Get_law: "lh_inv lh \<Longrightarrow> lh_Get k lh = map_of (lh_entries lh) k"
proof (cases "map_of (entryMap lh) k")
  case None
  assume "lh_inv lh"
  with None have "map_of (lh_entries lh) k = None" using lh_keys by (metis map_of_eq_None_iff)
  with None show ?thesis by (simp add: lh_Get_def)
next
  case (Some e)
  assume inv: "lh_inv lh"
  with Some obtain v where v: "(e, k, v) \<in> set (entryList lh)" using lh_invD(4) [OF inv] by blast
  then have "map_of (entryList lh) e = Some (k, v)" using lh_invD(1) [OF inv] by simp
  moreover have "map_of (lh_entries lh) k = Some v"
    using v inv by (force simp: lh_inv_def lh_entries_def intro: map_of_is_SomeI)
  ultimately show ?thesis using Some by (simp add: lh_Get_def)
qed

lemma lh_Len_law:
  assumes inv: "lh_inv lh"
  shows "lh_Len lh = int (length (lh_entries lh))"
proof -
  have "fst ` set (entryMap lh) = fst ` set (lh_entries lh)"
    using lh_keys [OF inv] by (auto simp: map_of_eq_None_iff)
  then have "card (set (map fst (entryMap lh))) = card (set (map fst (lh_entries lh)))" by simp
  then have "length (entryMap lh) = length (lh_entries lh)"
    using inv by (simp only: lh_inv_def distinct_card length_map)
  then show ?thesis by (simp add: lh_Len_def)
qed

text \<open>The source's map keeps the contract.\<close>

interpretation lhm: ordered_map lh_inv lh_entries lh_New lh_Put lh_Get lh_Delete lh_Len lh_Oldest
proof
  show "lh_inv lh_New" "lh_entries lh_New = []" by (simp_all add: lh_inv_def lh_entries_def lh_New_def)
  show "lh_Oldest m = (case lh_entries m of [] \<Rightarrow> None | e # _ \<Rightarrow> Some e)" for m :: "('a, 'b) linkedHashmap"
    by (simp add: lh_Oldest_def lh_entries_def split: list.splits)
  show "wf_gomap (lh_entries m)" if "lh_inv m" for m :: "('a, 'b) linkedHashmap"
    using that by (simp add: lh_inv_def)
qed (simp_all add: lh_Put_law lh_Delete_law lh_Get_law lh_Len_law)

lemma lh_Newest_law: "lh_Newest lh = (if lh_entries lh = [] then None else Some (last (lh_entries lh)))"
  by (simp add: lh_Newest_def lh_entries_def last_map)

lemma lh_modify_law:
  assumes inv: "lh_inv lh"
  shows "lh_inv (lh_modify k f lh)"
    "lh_entries (lh_modify k f lh) = map (\<lambda>(k', v). (k', if k' = k then f v else v)) (lh_entries lh)"
proof -
  show ents: "lh_entries (lh_modify k f lh) = map (\<lambda>(k', v). (k', if k' = k then f v else v)) (lh_entries lh)"
    by (simp add: lh_entries_def lh_modify_def case_prod_unfold)
  have elems: "map (\<lambda>(e, k', v). (e, k')) (entryList (lh_modify k f lh)) = map (\<lambda>(e, k', v). (e, k')) (entryList lh)"
    by (simp add: lh_modify_def case_prod_unfold)
  have mem: "(\<exists>v. (e, k', v) \<in> set (entryList m)) \<longleftrightarrow> (e, k') \<in> set (map (\<lambda>(e, k', v). (e, k')) (entryList m))"
    for e k' and m :: "('a, 'b) linkedHashmap" by force
  have "map fst (entryList (lh_modify k f lh)) = map fst (entryList lh)"
    "map fst (lh_entries (lh_modify k f lh)) = map fst (lh_entries lh)"
    by (simp_all add: lh_modify_def lh_entries_def case_prod_unfold)
  moreover have "entryMap (lh_modify k f lh) = entryMap lh" "nextElement (lh_modify k f lh) = nextElement lh"
    by (simp_all add: lh_modify_def)
  moreover have "\<forall>(e, kv) \<in> set (entryList (lh_modify k f lh)). e < nextElement lh"
    using lh_invD(5) [OF inv] by (auto simp: lh_modify_def)
  ultimately show "lh_inv (lh_modify k f lh)" using inv unfolding lh_inv_def mem elems by simp
qed

subsection \<open>Iteration\<close>

text \<open>What an iterator has still to visit, and that it stands at an element of the list.\<close>

definition it_rest :: "('k, 'v) linkedHashmap \<Rightarrow> 'k iterator \<Rightarrow> (nat \<times> 'k \<times> 'v) list" where
  "it_rest lh it =
     (if it_exhausted it then []
      else if \<not> it_initialized it then entryList lh
      else case it_next it of None \<Rightarrow> [] | Some e \<Rightarrow> element_from e (entryList lh))"

definition it_ok :: "('k, 'v) linkedHashmap \<Rightarrow> 'k iterator \<Rightarrow> bool" where
  "it_ok lh it \<longleftrightarrow> (it_initialized it \<longrightarrow> \<not> it_exhausted it \<longrightarrow>
     (case it_next it of None \<Rightarrow> False | Some e \<Rightarrow> e \<in> fst ` set (entryList lh)))"

lemma it_NewIterator [simp]: "it_ok lh lh_NewIterator" "it_rest lh lh_NewIterator = entryList lh"
  by (simp_all add: it_ok_def it_rest_def lh_NewIterator_def)

lemma element_from_suffix: "\<exists>pre. l = pre @ element_from e l \<and> e \<notin> fst ` set pre"
proof (induction l)
  case (Cons x l)
  then obtain pre where "l = pre @ element_from e l" "e \<notin> fst ` set pre" by blast
  then have "x # l = (x # pre) @ element_from e l" "e \<noteq> fst x \<longrightarrow> e \<notin> fst ` set (x # pre)" by auto
  then show ?case by (cases x) (metis append_Nil element_from.simps(2) empty_iff fst_conv image_empty list.set(1))
qed simp

lemma element_from_head: "e \<in> fst ` set l \<Longrightarrow> \<exists>x. element_from e l = (e, x) # tl (element_from e l)"
  by (induction e l rule: element_from.induct) auto

lemma element_from_next:
  assumes "distinct (map fst l)" "element_from e l = x # (a, y) # r"
  shows "element_from a l = (a, y) # r"
proof -
  obtain pre where l: "l = pre @ x # (a, y) # r" using element_from_suffix [of l e] assms by metis
  have "element_from a (pre @ x # (a, y) # r) = (a, y) # r" if "a \<notin> fst ` set pre" "fst x \<noteq> a"
    using that by (induction pre) (cases x, auto)
  moreover have "a \<notin> fst ` set pre" "fst x \<noteq> a" using assms(1) unfolding l by force+
  ultimately show ?thesis unfolding l by blast
qed

lemma element_from_Remove:
  assumes "a \<notin> fst ` set (element_from e l)" "distinct (map fst l)" "e \<in> fst ` set l"
  shows "element_from e (list_Remove a l) = element_from e l" "e \<in> fst ` set (list_Remove a l)"
proof -
  have ne: "a \<noteq> e" using assms(1) element_from_head [OF assms(3)] by (metis fst_conv image_eqI list.set_intros(1))
  show "element_from e (list_Remove a l) = element_from e l"
    using assms(1) ne
  proof (induction e l rule: element_from.induct)
    case (2 e b x l)
    then show ?case by (force simp: list_Remove_def filter_id_conv)
  qed (simp add: list_Remove_def)
  show "e \<in> fst ` set (list_Remove a l)" using assms(3) ne by (force simp: list_Remove_def)
qed

lemma it_Next_law:
  assumes inv: "lh_inv lh" and ok: "it_ok lh it"
  obtains it' where
    "it_Next lh it = Some (it', case it_rest lh it of [] \<Rightarrow> None | x # _ \<Rightarrow> Some (snd x))"
    "it_rest lh it' = tl (it_rest lh it)" "it_ok lh it'" "it_initialized it' \<or> it_exhausted it'"
proof -
  define start where "start = (if it_initialized it then it
    else it\<lparr>it_initialized := True, it_next := map_option fst (case entryList lh of [] \<Rightarrow> None | e # _ \<Rightarrow> Some e)\<rparr>)"
  show thesis
  proof (cases "it_exhausted it")
    case True
    then show ?thesis by (intro that [of "it\<lparr>it_next := None\<rparr>"]) (auto simp: it_Next_def it_rest_def it_ok_def)
  next
    case False
    then have st: "it_initialized start" "\<not> it_exhausted start" by (simp_all add: start_def)
    have rest: "it_rest lh it = (case it_next start of None \<Rightarrow> [] | Some e \<Rightarrow> element_from e (entryList lh))"
      using False by (auto simp: it_rest_def start_def split: list.splits option.splits)
    show ?thesis
    proof (cases "it_next start")
      case None
      moreover from this ok False have "\<not> it_initialized it" by (auto simp: it_ok_def start_def split: option.splits)
      ultimately show ?thesis using False rest st
        by (intro that [of "start\<lparr>it_exhausted := True\<rparr>"]) (auto simp: it_Next_def start_def it_rest_def it_ok_def Let_def)
    next
      case (Some e)
      then have "e \<in> fst ` set (entryList lh)" using ok False
        by (auto simp: it_ok_def start_def split: list.splits if_splits)
      then obtain kv r where el: "element_from e (entryList lh) = (e, kv) # r" using element_from_head by metis
      define nxt where "nxt = (case r of [] \<Rightarrow> None | (a, _) # _ \<Rightarrow> Some a)"
      have "it_Next lh it = Some (start\<lparr>it_next := nxt, it_exhausted := (nxt = None)\<rparr>, Some kv)"
        using False Some el by (simp add: it_Next_def start_def [symmetric] nxt_def Let_def)
      moreover have "a \<in> fst ` set (entryList lh)" "element_from a (entryList lh) = (a, y) # r'" if "r = (a, y) # r'" for a y r'
        using element_from_suffix [of "entryList lh" e] element_from_next [OF lh_invD(1) [OF inv]] el that
        by (metis Un_iff fst_conv image_eqI list.set_intros(1,2) set_append, metis)
      ultimately show ?thesis using rest Some el st
        by (intro that [of "start\<lparr>it_next := nxt, it_exhausted := (nxt = None)\<rparr>"])
          (auto simp: it_rest_def it_ok_def nxt_def split: list.splits)
    qed
  qed
qed

text \<open>Deleting an entry the iterator has passed leaves what it has still to visit.\<close>

lemma it_rest_Delete:
  assumes inv: "lh_inv lh" and ok: "it_ok lh it" and started: "it_initialized it \<or> it_exhausted it"
    and passed: "k \<notin> fst ` set (map snd (it_rest lh it))"
  shows "it_rest (lh_Delete k lh) it = it_rest lh it" "it_ok (lh_Delete k lh) it"
proof -
  have "it_rest (lh_Delete k lh) it = it_rest lh it \<and> it_ok (lh_Delete k lh) it"
  proof (cases "map_of (entryMap lh) k")
    case None
    with ok show ?thesis by (simp add: lh_Delete_def)
  next
    case (Some a)
    then have del: "entryList (lh_Delete k lh) = list_Remove a (entryList lh)" by (simp add: lh_Delete_def)
    obtain v where v: "(a, k, v) \<in> set (entryList lh)" using Some lh_invD(4) [OF inv] by blast
    show ?thesis
    proof (cases "it_exhausted it")
      case False
      with ok started obtain e where e: "it_next it = Some e" "e \<in> fst ` set (entryList lh)"
        by (auto simp: it_ok_def split: option.splits)
      with False started have rest: "it_rest lh it = element_from e (entryList lh)" by (simp add: it_rest_def)
      have "set (element_from e (entryList lh)) \<subseteq> set (entryList lh)"
        using element_from_suffix [of "entryList lh" e] by (metis Un_upper2 set_append)
      then have "a \<notin> fst ` set (element_from e (entryList lh))"
        using passed lh_element_key [OF inv v] unfolding rest by force
      from element_from_Remove [OF this lh_invD(1) [OF inv] e(2)] show ?thesis
        using False started e by (simp add: it_rest_def it_ok_def del)
    qed (simp add: it_rest_def it_ok_def)
  qed
  then show "it_rest (lh_Delete k lh) it = it_rest lh it" "it_ok (lh_Delete k lh) it" by simp_all
qed

text \<open>(C33) The linked hash map is an ordered association list, oldest entry first, with distinct keys: a put
  moves its key to the newest end with the new value, a delete removes exactly its key, a get looks the key
  up, the length counts the entries and the oldest and newest entries are the ends of the list. Every
  operation keeps the links between the Go map and the linked list.\<close>

theorem linked_hashmap_refines:
  assumes "lh_inv lh"
  shows "wf_gomap (lh_entries lh)
    \<and> lh_inv (lh_Put k v lh) \<and> lh_entries (lh_Put k v lh) = AList.delete k (lh_entries lh) @ [(k, v)]
    \<and> lh_inv (lh_Delete k lh) \<and> lh_entries (lh_Delete k lh) = AList.delete k (lh_entries lh)
    \<and> lh_Get k lh = map_of (lh_entries lh) k
    \<and> lh_Len lh = int (length (lh_entries lh))
    \<and> lh_Oldest lh = (case lh_entries lh of [] \<Rightarrow> None | e # _ \<Rightarrow> Some e)
    \<and> lh_Newest lh = (if lh_entries lh = [] then None else Some (last (lh_entries lh)))"
  using assms by (simp add: lhm.distinct_law lhm.put_law lhm.delete_law lhm.get_law lhm.len_law lhm.oldest_law
      lh_Newest_law)

theorem linked_hashmap_refines_witness:
  "lh_inv (lh_New :: (nat, nat) linkedHashmap) \<and> lh_entries (lh_Put (7::nat) (1::nat) lh_New) = [(7, 1)]"
  using linked_hashmap_refines [OF lhm.empty_law(1), of "7 :: nat" "1 :: nat"] by (simp add: lhm.empty_law)

end
