(* ===== verification/LRU_Cache.thy ===== *)
theory LRU_Cache
  imports Linked_Hashmap
begin

text \<open>
  The caches of \<^verbatim>\<open>cache/\<close> that evict the least recently used entry: \<open>LRU\<close>, bounded by a number of entries,
  and \<open>sizedLRU\<close>, bounded by the total size of the entries. Both keep their entries in a linked hash map.
  The source loops that delete the oldest entry until a bound holds are partial functions, so that a loop
  that never ends is None; that every call returns is part of what is proved. The locale \<open>cacher\<close> is the
  interface both implement.
\<close>

subsection \<open>LRU\<close>

record ('k, 'v) LRU =
  elements :: "('k, 'v) linkedHashmap option"
  Size :: int

partial_function (option) trim_elements :: "int \<Rightarrow> ('k, 'v) linkedHashmap \<Rightarrow> ('k, 'v) linkedHashmap option" where
  [code]: "trim_elements sz m =
     (if sz < lh_Len m
      then (case lh_Oldest m of
              None \<Rightarrow> None
            | Some (oldestKey, _) \<Rightarrow> trim_elements sz (lh_Delete oldestKey m))
      else Some m)"

text \<open>\<^verbatim>\<open>resize\<close> makes the map if there is none, the size at least one, and the map no longer than the size. The
  result is the map and the size, which are the cache's fields from then on.\<close>

definition lru_resize :: "('k, 'v) LRU \<Rightarrow> (('k, 'v) linkedHashmap \<times> int) option" where
  "lru_resize c =
     (let m = (case elements c of None \<Rightarrow> lh_New | Some m \<Rightarrow> m);
          sz = (if Size c \<le> 0 then 1 else Size c)
      in map_option (\<lambda>m. (m, sz)) (trim_elements sz m))"

definition lru_put :: "'k \<Rightarrow> 'v \<Rightarrow> ('k, 'v) LRU \<Rightarrow> ('k, 'v) LRU option" where
  "lru_put key val c =
     map_option (\<lambda>(m, sz).
       let m = (if lh_Len m = sz
                then (case lh_Oldest m of None \<Rightarrow> m | Some (oldestKey, _) \<Rightarrow> lh_Delete oldestKey m)
                else m)
       in \<lparr>elements = Some (lh_Put key val m), Size = sz\<rparr>) (lru_resize c)"

definition lru_get :: "'k \<Rightarrow> ('k, 'v) LRU \<Rightarrow> (('k, 'v) LRU \<times> 'v option) option" where
  "lru_get key c =
     map_option (\<lambda>(m, sz).
       case lh_Get key m of
         None \<Rightarrow> (\<lparr>elements = Some m, Size = sz\<rparr>, None)
       | Some val \<Rightarrow> (\<lparr>elements = Some (lh_Put key val m), Size = sz\<rparr>, Some val)) (lru_resize c)"

definition lru_evict :: "'k \<Rightarrow> ('k, 'v) LRU \<Rightarrow> ('k, 'v) LRU option" where
  "lru_evict key c =
     map_option (\<lambda>(m, sz). \<lparr>elements = Some (lh_Delete key m), Size = sz\<rparr>) (lru_resize c)"

definition lru_flush :: "('k, 'v) LRU \<Rightarrow> ('k, 'v) LRU" where
  "lru_flush c = c\<lparr>elements := Some lh_New\<rparr>"

definition lru_len :: "('k, 'v) LRU \<Rightarrow> int" where
  "lru_len c = (case elements c of None \<Rightarrow> 0 | Some m \<Rightarrow> lh_Len m)"

subsection \<open>sizedLRU\<close>

record ('k, 'v) sizedLRU =
  sz_elements :: "('k, 'v) linkedHashmap"
  maxSize :: int
  currentSize :: int
  sz_size :: "'k \<Rightarrow> 'v \<Rightarrow> int"

definition NewSizedLRU :: "int \<Rightarrow> ('k \<Rightarrow> 'v \<Rightarrow> int) \<Rightarrow> ('k, 'v) sizedLRU" where
  "NewSizedLRU mx sz = \<lparr>sz_elements = lh_New, maxSize = mx, currentSize = 0, sz_size = sz\<rparr>"

definition sized_flush :: "('k, 'v) sizedLRU \<Rightarrow> ('k, 'v) sizedLRU" where
  "sized_flush c = c\<lparr>sz_elements := lh_New, currentSize := 0\<rparr>"

text \<open>The loop of \<^verbatim>\<open>put\<close> that evicts until the size is at most the limit. On an empty map the source deletes the
  zero key and goes round again; here that is None, and it does not come about.\<close>

partial_function (option) evict_until :: "int \<Rightarrow> ('k, 'v) sizedLRU \<Rightarrow> ('k, 'v) sizedLRU option" where
  [code]: "evict_until limit c =
     (if limit < currentSize c
      then (case lh_Oldest (sz_elements c) of
              None \<Rightarrow> None
            | Some (oldestKey, oldestValue) \<Rightarrow>
                evict_until limit (c\<lparr>sz_elements := lh_Delete oldestKey (sz_elements c),
                                     currentSize := currentSize c - sz_size c oldestKey oldestValue\<rparr>))
      else Some c)"

definition sized_put :: "'k \<Rightarrow> 'v \<Rightarrow> ('k, 'v) sizedLRU \<Rightarrow> ('k, 'v) sizedLRU option" where
  "sized_put key val c =
     (let newEntrySize = sz_size c key val
      in if maxSize c < newEntrySize then Some (sized_flush c)
         else let c = (case lh_Get key (sz_elements c) of
                         Some oldValue \<Rightarrow> c\<lparr>currentSize := currentSize c - sz_size c key oldValue\<rparr>
                       | None \<Rightarrow> c)
              in map_option (\<lambda>c. c\<lparr>sz_elements := lh_Put key val (sz_elements c),
                                   currentSize := currentSize c + newEntrySize\<rparr>)
                   (evict_until (maxSize c - newEntrySize) c))"

definition sized_get :: "'k \<Rightarrow> ('k, 'v) sizedLRU \<Rightarrow> ('k, 'v) sizedLRU \<times> 'v option" where
  "sized_get key c = (case lh_Get key (sz_elements c) of
     None \<Rightarrow> (c, None)
   | Some val \<Rightarrow> (c\<lparr>sz_elements := lh_Put key val (sz_elements c)\<rparr>, Some val))"

definition sized_evict :: "'k \<Rightarrow> ('k, 'v) sizedLRU \<Rightarrow> ('k, 'v) sizedLRU" where
  "sized_evict key c = (case lh_Get key (sz_elements c) of
     None \<Rightarrow> c
   | Some val \<Rightarrow> c\<lparr>sz_elements := lh_Delete key (sz_elements c), currentSize := currentSize c - sz_size c key val\<rparr>)"

definition sized_len :: "('k, 'v) sizedLRU \<Rightarrow> int" where
  "sized_len c = lh_Len (sz_elements c)"

subsection \<open>The interface of a cache\<close>

datatype ('k, 'v) Cacher = Put 'k 'v | Get 'k | Evict 'k | Flush

text \<open>What a map that never forgets holds after a call. A cache holds part of it.\<close>

fun ideal :: "('k, 'v) Cacher \<Rightarrow> ('k \<rightharpoonup> 'v) \<Rightarrow> 'k \<rightharpoonup> 'v" where
  "ideal (Put k v) m = m(k \<mapsto> v)"
| "ideal (Get k) m = m"
| "ideal (Evict k) m = m(k := None)"
| "ideal Flush m = Map.empty"

text \<open>The answers to a sequence of calls agree with the map: a call other than \<^verbatim>\<open>Get\<close> has none, and a \<^verbatim>\<open>Get\<close> misses or
  finds the value put last.\<close>

fun coherent :: "('k \<rightharpoonup> 'v) \<Rightarrow> ('k, 'v) Cacher list \<Rightarrow> 'v option list \<Rightarrow> bool" where
  "coherent m [] rs = (rs = [])"
| "coherent m (x # xs) [] = False"
| "coherent m (x # xs) (r # rs) = ((case x of Get k \<Rightarrow> r = None \<or> r = m k | _ \<Rightarrow> r = None) \<and> coherent (ideal x m) xs rs)"

fun cache_run :: "('c \<Rightarrow> ('k, 'v) Cacher \<Rightarrow> ('c \<times> 'v option) option) \<Rightarrow> 'c \<Rightarrow> ('k, 'v) Cacher list \<Rightarrow> ('c \<times> 'v option list) option" where
  "cache_run step c [] = Some (c, [])"
| "cache_run step c (x # xs) = (case step c x of
     None \<Rightarrow> None
   | Some (c', r) \<Rightarrow> map_option (map_prod id (Cons r)) (cache_run step c' xs))"

fun lru_call :: "('k, 'v) LRU \<Rightarrow> ('k, 'v) Cacher \<Rightarrow> (('k, 'v) LRU \<times> 'v option) option" where
  "lru_call c (Put k v) = map_option (\<lambda>c. (c, None)) (lru_put k v c)"
| "lru_call c (Get k) = lru_get k c"
| "lru_call c (Evict k) = map_option (\<lambda>c. (c, None)) (lru_evict k c)"
| "lru_call c Flush = Some (lru_flush c, None)"

fun sized_call :: "('k, 'v) sizedLRU \<Rightarrow> ('k, 'v) Cacher \<Rightarrow> (('k, 'v) sizedLRU \<times> 'v option) option" where
  "sized_call c (Put k v) = map_option (\<lambda>c. (c, None)) (sized_put k v c)"
| "sized_call c (Get k) = Some (sized_get k c)"
| "sized_call c (Evict k) = Some (sized_evict k c, None)"
| "sized_call c Flush = Some (sized_flush c, None)"

lemma ideal_mono: "m \<subseteq>\<^sub>m m' \<Longrightarrow> ideal x m \<subseteq>\<^sub>m ideal x m'"
  by (cases x) (auto simp: map_le_def dom_def)

lemma coherent_mono: "coherent m xs rs \<Longrightarrow> m \<subseteq>\<^sub>m m' \<Longrightarrow> coherent m' xs rs"
proof (induction m xs rs arbitrary: m' rule: coherent.induct)
  case (3 m x xs r rs)
  have "m k = None \<or> m k = m' k" for k
    using 3(3) by (auto simp: map_le_def dom_def)
  with 3 ideal_mono [OF 3(3), of x] show ?case by (fastforce split: Cacher.splits)
qed auto

locale cacher =
  fixes inv :: "'c \<Rightarrow> bool" and held :: "'c \<Rightarrow> 'k \<rightharpoonup> 'v"
    and call :: "'c \<Rightarrow> ('k, 'v) Cacher \<Rightarrow> ('c \<times> 'v option) option"
  assumes call_law: "inv c \<Longrightarrow> \<exists>c' r. call c x = Some (c', r) \<and> inv c' \<and> held c' \<subseteq>\<^sub>m ideal x (held c)
      \<and> (case x of Get k \<Rightarrow> r = None \<or> r = held c k | _ \<Rightarrow> r = None)"
begin

lemma run_coherent:
  assumes "inv c"
  shows "\<exists>c' rs. cache_run call c xs = Some (c', rs) \<and> inv c' \<and> coherent (held c) xs rs"
  using assms
proof (induction xs arbitrary: c)
  case (Cons x xs)
  obtain c' r where step: "call c x = Some (c', r)" "inv c'" "held c' \<subseteq>\<^sub>m ideal x (held c)"
    "case x of Get k \<Rightarrow> r = None \<or> r = held c k | _ \<Rightarrow> r = None"
    using call_law [OF Cons.prems] by blast
  from Cons.IH [OF step(2)] obtain c'' rs
    where "cache_run call c' xs = Some (c'', rs)" "inv c''" "coherent (held c') xs rs" by blast
  with step coherent_mono [OF _ step(3)] show ?case by (auto split: Cacher.splits)
qed simp

end

subsection \<open>LRU keeps its bound and its recent entries\<close>

definition lru_inv :: "('k, 'v) LRU \<Rightarrow> bool" where
  "lru_inv c \<longleftrightarrow> (case elements c of None \<Rightarrow> True | Some m \<Rightarrow> lh_inv m)"

definition lru_entries :: "('k, 'v) LRU \<Rightarrow> ('k \<times> 'v) list" where
  "lru_entries c = (case elements c of None \<Rightarrow> [] | Some m \<Rightarrow> lh_entries m)"

definition bound :: "('k, 'v) LRU \<Rightarrow> nat" where
  "bound c = nat (max 1 (Size c))"

lemma trim_elements_law:
  assumes "lh_inv m" "0 \<le> sz"
  shows "\<exists>m'. trim_elements sz m = Some m' \<and> lh_inv m' \<and> lh_entries m' = drop (length (lh_entries m) - nat sz) (lh_entries m)"
  using assms(1)
proof (induction "length (lh_entries m)" arbitrary: m)
  case 0
  with assms(2) show ?case by (subst trim_elements.simps) (simp add: lhm.len_law)
next
  case (Suc n)
  show ?case
  proof (cases "sz < lh_Len m")
    case False
    with Suc.prems show ?thesis by (subst trim_elements.simps) (simp add: lhm.len_law)
  next
    case True
    obtain k v where old: "lh_Oldest m = Some (k, v)" using Suc(2) lhm.oldest_None [OF Suc.prems] by (cases "lh_Oldest m") auto
    note del = lhm.delete_oldest [OF Suc.prems old]
    from Suc.hyps(1) [of "lh_Delete k m"] Suc(2) del obtain m' where
      "trim_elements sz (lh_Delete k m) = Some m'" "lh_inv m'"
      "lh_entries m' = drop (length (lh_entries (lh_Delete k m)) - nat sz) (lh_entries (lh_Delete k m))" by auto
    moreover have "length (lh_entries m) - nat sz = Suc (length (lh_entries (lh_Delete k m)) - nat sz)"
      using True Suc.prems assms(2) arg_cong [OF del(2), of length] by (simp add: lhm.len_law)
    ultimately show ?thesis using True old del(2) by (subst trim_elements.simps) simp
  qed
qed

definition trimmed :: "('k, 'v) LRU \<Rightarrow> ('k \<times> 'v) list" where
  "trimmed c = drop (length (lru_entries c) - bound c) (lru_entries c)"

lemma length_trimmed: "length (trimmed c) \<le> bound c"
  by (simp add: trimmed_def)

lemma trimmed_id: "length (lru_entries c) \<le> bound c \<Longrightarrow> trimmed c = lru_entries c"
  by (simp add: trimmed_def)

lemma bound_pos: "1 \<le> bound c"
  by (simp add: bound_def)

lemma lru_entries_distinct: "lru_inv c \<Longrightarrow> wf_gomap (lru_entries c)"
  by (auto simp: lru_inv_def lru_entries_def lhm.distinct_law split: option.splits)

lemma trimmed_distinct: "lru_inv c \<Longrightarrow> wf_gomap (trimmed c)"
  using lru_entries_distinct [of c] by (simp add: trimmed_def drop_map [symmetric])

lemma lru_resize_law:
  assumes "lru_inv c"
  obtains m where "lru_resize c = Some (m, int (bound c))" "lh_inv m" "lh_entries m = trimmed c"
proof -
  define m0 where "m0 = (case elements c of None \<Rightarrow> lh_New | Some m \<Rightarrow> m)"
  have m0: "lh_inv m0" "lh_entries m0 = lru_entries c"
    using assms by (auto simp: m0_def lru_inv_def lru_entries_def lhm.empty_law split: option.splits)
  have size: "(if Size c \<le> 0 then 1 else Size c) = int (bound c)" by (simp add: bound_def)
  obtain m where "trim_elements (int (bound c)) m0 = Some m" "lh_inv m" "lh_entries m = trimmed c"
    using trim_elements_law [OF m0(1), of "int (bound c)"] m0(2) by (auto simp: trimmed_def)
  with that show thesis by (simp add: lru_resize_def size m0_def [symmetric] Let_def)
qed

lemma bound_int [simp]: "bound \<lparr>elements = e, Size = int (bound c)\<rparr> = bound c"
  using bound_pos [of c] by (simp add: bound_def)

text \<open>The effect of each operation on the entries.\<close>

lemma lru_put_law:
  assumes "lru_inv c"
  shows "\<exists>c'. lru_put k v c = Some c' \<and> lru_inv c' \<and> bound c' = bound c
    \<and> lru_entries c' = AList.delete k (if length (trimmed c) = bound c then tl (trimmed c) else trimmed c) @ [(k, v)]"
proof -
  obtain m where m: "lru_resize c = Some (m, int (bound c))" "lh_inv m" "lh_entries m = trimmed c"
    using lru_resize_law [OF assms] .
  define m' where "m' = (if lh_Len m = int (bound c)
    then (case lh_Oldest m of None \<Rightarrow> m | Some (oldestKey, _) \<Rightarrow> lh_Delete oldestKey m) else m)"
  have len: "lh_Len m = int (length (trimmed c))" using m by (simp add: lhm.len_law)
  have "lh_inv m' \<and> lh_entries m' = (if length (trimmed c) = bound c then tl (trimmed c) else trimmed c)"
  proof (cases "lh_Oldest m")
    case None
    with m lhm.oldest_None [OF m(2)] show ?thesis by (simp add: m'_def)
  next
    case (Some kv)
    with lhm.delete_oldest [OF m(2)] m show ?thesis by (cases kv) (metis (lifting) len case_prod_conv list.sel(3) m'_def of_nat_eq_iff option.simps(5))
  qed
  with m show ?thesis
    by (simp add: lru_put_def m'_def [symmetric] Let_def lru_inv_def lru_entries_def lhm.put_law)
qed

lemma lru_get_law:
  assumes "lru_inv c"
  shows "\<exists>c'. lru_get k c = Some (c', map_of (trimmed c) k) \<and> lru_inv c' \<and> bound c' = bound c
    \<and> lru_entries c' = (case map_of (trimmed c) k of None \<Rightarrow> trimmed c | Some v \<Rightarrow> AList.delete k (trimmed c) @ [(k, v)])"
proof -
  obtain m where "lru_resize c = Some (m, int (bound c))" "lh_inv m" "lh_entries m = trimmed c"
    using lru_resize_law [OF assms] .
  then show ?thesis
    by (auto simp: lru_get_def lru_inv_def lru_entries_def lhm.get_law lhm.put_law split: option.splits)
qed

lemma lru_evict_law:
  assumes "lru_inv c"
  shows "\<exists>c'. lru_evict k c = Some c' \<and> lru_inv c' \<and> bound c' = bound c \<and> lru_entries c' = AList.delete k (trimmed c)"
proof -
  obtain m where "lru_resize c = Some (m, int (bound c))" "lh_inv m" "lh_entries m = trimmed c"
    using lru_resize_law [OF assms] .
  then show ?thesis by (simp add: lru_evict_def lru_inv_def lru_entries_def lhm.delete_law)
qed

lemma lru_flush_law:
  "lru_inv (lru_flush c)" "bound (lru_flush c) = bound c" "lru_entries (lru_flush c) = []"
  by (simp_all add: lru_flush_def lru_inv_def lru_entries_def bound_def lhm.empty_law)

lemma lru_len_law: "lru_inv c \<Longrightarrow> lru_len c = int (length (lru_entries c))"
  by (auto simp: lru_len_def lru_inv_def lru_entries_def lhm.len_law split: option.splits)

text \<open>The entries after a call.\<close>

fun lru_next :: "nat \<Rightarrow> ('k, 'v) Cacher \<Rightarrow> ('k \<times> 'v) list \<Rightarrow> ('k \<times> 'v) list" where
  "lru_next n (Put k v) es = AList.delete k (if length es = n then tl es else es) @ [(k, v)]"
| "lru_next n (Get k) es = (case map_of es k of None \<Rightarrow> es | Some v \<Rightarrow> AList.delete k es @ [(k, v)])"
| "lru_next n (Evict k) es = AList.delete k es"
| "lru_next n Flush es = []"

fun answer :: "('k, 'v) Cacher \<Rightarrow> ('k \<times> 'v) list \<Rightarrow> 'v option" where
  "answer (Get k) es = map_of es k"
| "answer _ es = None"

lemma lru_call_law:
  assumes "lru_inv c"
  shows "\<exists>c'. lru_call c x = Some (c', answer x (trimmed c)) \<and> lru_inv c' \<and> bound c' = bound c
    \<and> lru_entries c' = lru_next (bound c) x (trimmed c)"
proof (cases x)
  case (Put k v)
  with lru_put_law [OF assms, of k v] show ?thesis by auto
next
  case (Get k)
  with lru_get_law [OF assms, of k] show ?thesis by auto
next
  case (Evict k)
  with lru_evict_law [OF assms, of k] show ?thesis by auto
qed (simp add: lru_flush_law)

lemma length_delete_present: "wf_gomap es \<Longrightarrow> map_of es k = Some v \<Longrightarrow> Suc (length (AList.delete k es)) = length es"
  by (induction es) (auto simp: delete_absent dest: map_of_SomeD)

lemma length_lru_next:
  assumes "wf_gomap es" "length es \<le> n" "1 \<le> n"
  shows "length (lru_next n x es) \<le> n"
proof (cases x)
  case (Put k v)
  have "length (AList.delete k es') \<le> length es'" for es' :: "('a \<times> 'b) list" by (rule length_delete_le)
  from this [of es] this [of "tl es"] show ?thesis using Put assms by auto
next
  case (Get k)
  then show ?thesis using assms length_delete_present [of es k] by (auto split: option.splits)
next
  case (Evict k)
  then show ?thesis using assms length_delete_le [of k es] by simp
qed simp

lemma map_of_subset_le: "wf_gomap es \<Longrightarrow> set es' \<subseteq> set es \<Longrightarrow> map_of es' \<subseteq>\<^sub>m map_of es"
  by (auto simp: map_le_def dom_def) (metis map_of_SomeD map_of_is_SomeI subsetD)

lemma map_of_delete_snoc: "map_of (AList.delete k es @ [(k, v)]) = (map_of es)(k \<mapsto> v)"
  by (auto simp: map_add_def fun_eq_iff split: option.splits)

lemma lru_next_ideal:
  assumes "wf_gomap es"
  shows "map_of (lru_next n x es) \<subseteq>\<^sub>m ideal x (map_of es)"
proof (cases x)
  case (Put k v)
  let ?es = "if length es = n then tl es else es"
  have "map_of ?es \<subseteq>\<^sub>m map_of es"
    by (rule map_of_subset_le [OF assms]) (cases es, auto)
  then show ?thesis using Put by (auto simp: map_le_def map_of_append map_add_def dom_def split: option.splits if_splits)
next
  case (Get k)
  then show ?thesis by (auto simp: map_le_def map_of_append map_add_def split: option.splits if_splits)
qed (auto simp: map_le_def)

interpretation lru: cacher lru_inv "\<lambda>c. map_of (lru_entries c)" lru_call
proof
  fix c :: "('k, 'v) LRU" and x :: "('k, 'v) Cacher"
  assume inv: "lru_inv c"
  obtain c' where c': "lru_call c x = Some (c', answer x (trimmed c))" "lru_inv c'"
    "lru_entries c' = lru_next (bound c) x (trimmed c)" using lru_call_law [OF inv] by blast
  have le: "map_of (trimmed c) \<subseteq>\<^sub>m map_of (lru_entries c)"
    by (rule map_of_subset_le [OF lru_entries_distinct [OF inv]]) (simp add: trimmed_def set_drop_subset)
  have "map_of (lru_entries c') \<subseteq>\<^sub>m ideal x (map_of (lru_entries c))"
    using lru_next_ideal [OF trimmed_distinct [OF inv]] ideal_mono [OF le] c'(3) by (metis map_le_trans)
  moreover have "map_of (trimmed c) k = None \<or> map_of (trimmed c) k = map_of (lru_entries c) k" for k
    using le by (auto simp: map_le_def dom_def)
  ultimately show "\<exists>c' r. lru_call c x = Some (c', r) \<and> lru_inv c' \<and> map_of (lru_entries c') \<subseteq>\<^sub>m ideal x (map_of (lru_entries c))
      \<and> (case x of Get k \<Rightarrow> r = None \<or> r = map_of (lru_entries c) k | _ \<Rightarrow> r = None)"
    using c' by (auto split: Cacher.splits)
qed

text \<open>An entry survives as long as fewer calls than the bound have come after its use: it has moved towards the
  old end by at most one place with each of them.\<close>

definition recent :: "'k \<Rightarrow> 'v \<Rightarrow> nat \<Rightarrow> ('k \<times> 'v) list \<Rightarrow> bool" where
  "recent k v j es \<longleftrightarrow> (\<exists>pre post. es = pre @ (k, v) # post \<and> length post \<le> j)"

fun spares :: "'k \<Rightarrow> ('k, 'v) Cacher \<Rightarrow> bool" where
  "spares k (Put k' v) \<longleftrightarrow> k' \<noteq> k"
| "spares k (Get k') \<longleftrightarrow> True"
| "spares k (Evict k') \<longleftrightarrow> k' \<noteq> k"
| "spares k Flush \<longleftrightarrow> False"

lemma recent_delete: "recent k v j es \<Longrightarrow> k' \<noteq> k \<Longrightarrow> recent k v j (AList.delete k' es)"
proof -
  assume "recent k v j es" "k' \<noteq> k"
  then obtain pre post where "es = pre @ (k, v) # post" "length post \<le> j" by (auto simp: recent_def)
  moreover have "AList.delete k' (a @ b) = AList.delete k' a @ AList.delete k' b" for a b :: "('a \<times> 'b) list"
    by (simp add: AList.delete_eq)
  ultimately have "AList.delete k' es = AList.delete k' pre @ (k, v) # AList.delete k' post" "length (AList.delete k' post) \<le> j"
    using \<open>k' \<noteq> k\<close> length_delete_le [of k' post] by auto
  then show ?thesis unfolding recent_def by blast
qed

lemma recent_snoc: "recent k v j es \<Longrightarrow> recent k v (Suc j) (es @ [e])"
  unfolding recent_def by force

lemma recent_lookup: "wf_gomap es \<Longrightarrow> recent k v j es \<Longrightarrow> map_of es k = Some v"
  by (auto simp: recent_def)

lemma lru_next_recent:
  assumes "wf_gomap es" "recent k v j es" "spares k x" "Suc j < n"
  shows "recent k v (Suc j) (lru_next n x es)"
proof (cases x)
  case (Put k' v')
  have "recent k v j (if length es = n then tl es else es)"
  proof (cases "length es = n")
    case True
    from assms(2) obtain pre post where es: "es = pre @ (k, v) # post" "length post \<le> j" by (auto simp: recent_def)
    with True assms(4) have "tl es = tl pre @ (k, v) # post" by (cases pre) auto
    with True es show ?thesis by (auto simp: recent_def)
  qed (use assms(2) in simp)
  with Put assms(3) show ?thesis by (simp add: recent_snoc recent_delete)
next
  case (Get k')
  show ?thesis
  proof (cases "k' = k")
    case True
    with Get recent_lookup [OF assms(1,2)] show ?thesis by (force simp: recent_def)
  next
    case False
    have "recent k v (Suc j) es" using assms(2) by (force simp: recent_def)
    with Get False show ?thesis using recent_snoc [OF recent_delete [OF assms(2)]] by (auto split: option.splits)
  qed
next
  case (Evict k')
  have "recent k v (Suc j) es" using assms(2) by (force simp: recent_def)
  with Evict assms(3) show ?thesis by (simp add: recent_delete)
qed (use assms(3) in simp)

lemma lru_run_recent:
  assumes "lru_inv c" "length (lru_entries c) \<le> bound c" "recent k v j (lru_entries c)"
    "\<forall>x \<in> set xs. spares k x" "j + length xs < bound c"
  shows "\<exists>c' rs. cache_run lru_call c xs = Some (c', rs) \<and> lru_inv c' \<and> bound c' = bound c
    \<and> length (lru_entries c') \<le> bound c \<and> map_of (lru_entries c') k = Some v"
  using assms
proof (induction xs arbitrary: c j)
  case Nil
  then show ?case by (simp add: recent_lookup lru_entries_distinct)
next
  case (Cons x xs)
  note triv = trimmed_id [OF Cons.prems(2)] lru_entries_distinct [OF Cons.prems(1)]
  obtain c' where c': "lru_call c x = Some (c', answer x (trimmed c))" "lru_inv c'" "bound c' = bound c"
    "lru_entries c' = lru_next (bound c) x (lru_entries c)" using lru_call_law [OF Cons.prems(1)] triv(1) by metis
  have "length (lru_entries c') \<le> bound c'"
    using length_lru_next [OF triv(2) Cons.prems(2) bound_pos] c' by simp
  moreover have "recent k v (Suc j) (lru_entries c')"
    using lru_next_recent [OF triv(2) Cons.prems(3)] Cons.prems(4,5) c'(4) by simp
  ultimately obtain c'' rs where "cache_run lru_call c' xs = Some (c'', rs)" "lru_inv c''" "bound c'' = bound c"
    "length (lru_entries c'') \<le> bound c" "map_of (lru_entries c'') k = Some v"
    using Cons.IH [OF c'(2), of "Suc j"] Cons.prems(4,5) c'(3) by auto
  with c'(1) show ?case by simp
qed

subsection \<open>The size account of sizedLRU\<close>

abbreviation sized_entries :: "('k, 'v) sizedLRU \<Rightarrow> ('k \<times> 'v) list" where
  "sized_entries c \<equiv> lh_entries (sz_elements c)"

definition total_size :: "('k, 'v) sizedLRU \<Rightarrow> int" where
  "total_size c = gomap_sum (sz_size c) (sized_entries c)"

definition sized_inv :: "('k, 'v) sizedLRU \<Rightarrow> bool" where
  "sized_inv c \<longleftrightarrow> lh_inv (sz_elements c) \<and> (\<forall>k v. 0 \<le> sz_size c k v) \<and> currentSize c \<le> total_size c"

lemma evict_until_law:
  assumes "lh_inv (sz_elements c)" "currentSize c \<le> total_size c" "0 \<le> limit"
  shows "\<exists>c' n. evict_until limit c = Some c' \<and> lh_inv (sz_elements c') \<and> sized_entries c' = drop n (sized_entries c)
    \<and> currentSize c' = currentSize c - gomap_sum (sz_size c) (take n (sized_entries c)) \<and> currentSize c' \<le> limit
    \<and> sz_size c' = sz_size c \<and> maxSize c' = maxSize c
    \<and> (\<forall>m<n. limit < currentSize c - gomap_sum (sz_size c) (take m (sized_entries c)))"
  using assms(1,2)
proof (induction "length (sized_entries c)" arbitrary: c rule: less_induct)
  case less
  show ?case
  proof (cases "limit < currentSize c")
    case False
    with less.prems show ?thesis by (subst evict_until.simps) (auto intro: exI [of _ 0])
  next
    case True
    then have "sized_entries c \<noteq> []" using less.prems(2) assms(3) by (auto simp: total_size_def)
    then obtain k v where old: "lh_Oldest (sz_elements c) = Some (k, v)"
      using lhm.oldest_None [OF less.prems(1)] by (cases "lh_Oldest (sz_elements c)") auto
    note del = lhm.delete_oldest [OF less.prems(1) old]
    define d where "d = c\<lparr>sz_elements := lh_Delete k (sz_elements c), currentSize := currentSize c - sz_size c k v\<rparr>"
    have "length (sized_entries d) < length (sized_entries c)" "lh_inv (sz_elements d)" "currentSize d \<le> total_size d"
      using del less.prems(2) by (simp_all add: d_def total_size_def)
    from less.hyps [OF this] obtain c' n where "evict_until limit d = Some c'" "lh_inv (sz_elements c')"
      "sized_entries c' = drop n (sized_entries d)" "currentSize c' \<le> limit"
      "currentSize c' = currentSize d - gomap_sum (sz_size d) (take n (sized_entries d))"
      "sz_size c' = sz_size d" "maxSize c' = maxSize d"
      and least: "\<forall>m<n. limit < currentSize d - gomap_sum (sz_size d) (take m (sized_entries d))" by blast
    moreover have "limit < currentSize c - gomap_sum (sz_size c) (take m (sized_entries c))" if "m < Suc n" for m
    proof (cases m)
      case (Suc m')
      with that least have "limit < currentSize d - gomap_sum (sz_size d) (take m' (sized_entries d))" by simp
      with Suc del show ?thesis by (simp add: d_def)
    qed (use True in simp)
    ultimately show ?thesis using True old del
      by (subst evict_until.simps) (auto simp: d_def [symmetric] intro!: exI [of _ "Suc n"], auto simp: d_def)
  qed
qed

lemma sized_put_law:
  assumes inv: "sized_inv c"
  shows "\<exists>c' n. sized_put k v c = Some c' \<and> lh_inv (sz_elements c') \<and> sz_size c' = sz_size c \<and> maxSize c' = maxSize c
    \<and> (if maxSize c < sz_size c k v then sized_entries c' = [] \<and> currentSize c' = 0
       else sized_entries c' = AList.delete k (drop n (sized_entries c)) @ [(k, v)]
         \<and> currentSize c' = currentSize c - weight_at (sz_size c) k (map_of (sized_entries c) k)
              - gomap_sum (sz_size c) (take n (sized_entries c)) + sz_size c k v
         \<and> currentSize c' \<le> maxSize c
         \<and> (\<forall>m<n. maxSize c < currentSize c - weight_at (sz_size c) k (map_of (sized_entries c) k)
              - gomap_sum (sz_size c) (take m (sized_entries c)) + sz_size c k v))"
proof (cases "maxSize c < sz_size c k v")
  case True
  then show ?thesis by (simp add: sized_put_def sized_flush_def lhm.empty_law)
next
  case False
  from inv have lh: "lh_inv (sz_elements c)" by (simp add: sized_inv_def)
  define d where "d = (case lh_Get k (sz_elements c) of
      Some oldValue \<Rightarrow> c\<lparr>currentSize := currentSize c - sz_size c k oldValue\<rparr> | None \<Rightarrow> c)"
  have d: "sz_elements d = sz_elements c" "sz_size d = sz_size c" "maxSize d = maxSize c"
    "currentSize d = currentSize c - weight_at (sz_size c) k (map_of (sized_entries c) k)"
    by (simp_all add: d_def lhm.get_law [OF lh] split: option.splits)
  have "0 \<le> weight_at (sz_size c) k (map_of (sized_entries c) k)" using inv by (simp add: sized_inv_def split: option.splits)
  then have "currentSize d \<le> total_size d" using inv d by (simp add: sized_inv_def total_size_def)
  moreover have "0 \<le> maxSize d - sz_size c k v" using False d by simp
  ultimately obtain e n where "evict_until (maxSize d - sz_size c k v) d = Some e" "lh_inv (sz_elements e)"
    "sized_entries e = drop n (sized_entries d)" "currentSize e = currentSize d - gomap_sum (sz_size d) (take n (sized_entries d))"
    "currentSize e \<le> maxSize d - sz_size c k v" "sz_size e = sz_size d" "maxSize e = maxSize d"
    "\<forall>m<n. maxSize d - sz_size c k v < currentSize d - gomap_sum (sz_size d) (take m (sized_entries d))"
    using evict_until_law [of d "maxSize d - sz_size c k v"] lh d(1) by metis
  with False d show ?thesis
    by (simp add: sized_put_def d_def [symmetric] Let_def lhm.put_law) (intro exI [of _ n], auto simp: algebra_simps)
qed

lemma map_of_drop_cases:
  assumes "wf_gomap es"
  shows "map_of (drop n es) k = map_of es k \<or> map_of (drop n es) k = None"
proof -
  have "map_of (drop n es) \<subseteq>\<^sub>m map_of es" by (rule map_of_subset_le [OF assms set_drop_subset])
  then show ?thesis by (auto simp: map_le_def dom_def)
qed

lemma gomap_sum_take_drop: "gomap_sum w (take n es) + gomap_sum w (drop n es) = gomap_sum w es"
  using gomap_sum_append [of w "take n es" "drop n es"] by simp

lemma sized_put_inv:
  assumes inv: "sized_inv c" and put: "sized_put k v c = Some c'"
  shows "sized_inv c'" "map_of (sized_entries c') \<subseteq>\<^sub>m (map_of (sized_entries c))(k \<mapsto> v)"
proof -
  obtain n where n: "lh_inv (sz_elements c')" "sz_size c' = sz_size c"
    "maxSize c < sz_size c k v \<Longrightarrow> sized_entries c' = [] \<and> currentSize c' = 0"
    "\<not> maxSize c < sz_size c k v \<Longrightarrow> sized_entries c' = AList.delete k (drop n (sized_entries c)) @ [(k, v)]"
    "\<not> maxSize c < sz_size c k v \<Longrightarrow> currentSize c' = currentSize c - weight_at (sz_size c) k (map_of (sized_entries c) k)
            - gomap_sum (sz_size c) (take n (sized_entries c)) + sz_size c k v"
    using sized_put_law [OF inv, of k v] unfolding put option.inject
    by (cases "maxSize c < sz_size c k v") (simp_all only: if_True if_False, blast+)
  have wf: "wf_gomap (sized_entries c)" using inv by (simp add: sized_inv_def lhm.distinct_law)
  have wfd: "wf_gomap (drop n (sized_entries c))" using wf by (simp add: drop_map [symmetric])
  note old = map_of_drop_cases [OF wf, of n]
  have "currentSize c' \<le> total_size c'"
  proof (cases "maxSize c < sz_size c k v")
    case False
    with n(2,4) have "total_size c' = gomap_sum (sz_size c) (drop n (sized_entries c))
        - weight_at (sz_size c) k (map_of (drop n (sized_entries c)) k) + sz_size c k v"
      by (simp add: total_size_def gomap_sum_delete [OF wfd])
    moreover have "weight_at (sz_size c) k (map_of (drop n (sized_entries c)) k) \<le> weight_at (sz_size c) k (map_of (sized_entries c) k)"
      using old [of k] inv by (auto simp: sized_inv_def split: option.splits)
    ultimately show ?thesis using False n(5) inv gomap_sum_take_drop [of "sz_size c" n "sized_entries c"]
      by (simp add: sized_inv_def total_size_def)
  qed (use n in \<open>simp add: total_size_def\<close>)
  with n inv show "sized_inv c'" by (simp add: sized_inv_def)
  show "map_of (sized_entries c') \<subseteq>\<^sub>m (map_of (sized_entries c))(k \<mapsto> v)"
  proof (cases "maxSize c < sz_size c k v")
    case False
    with n(4) have "map_of (sized_entries c') = (map_of (drop n (sized_entries c)))(k \<mapsto> v)"
      by (simp add: map_of_delete_snoc del: map_of_append)
    then show ?thesis by (simp add: map_le_upd map_of_subset_le [OF wf set_drop_subset])
  qed (use n in simp)
qed

lemma sized_get_inv:
  assumes inv: "sized_inv c"
  shows "sized_inv (fst (sized_get k c))" "map_of (sized_entries (fst (sized_get k c))) = map_of (sized_entries c)"
    "snd (sized_get k c) = map_of (sized_entries c) k" "total_size (fst (sized_get k c)) = total_size c"
proof -
  have lh: "lh_inv (sz_elements c)" "wf_gomap (sized_entries c)" using inv by (simp_all add: sized_inv_def lhm.distinct_law)
  show tot: "total_size (fst (sized_get k c)) = total_size c"
    using lh by (auto simp: sized_get_def lhm.get_law lhm.put_law total_size_def gomap_sum_delete split: option.splits)
  then show "sized_inv (fst (sized_get k c))"
    using inv lh unfolding sized_inv_def tot by (auto simp: sized_get_def lhm.put_law split: option.splits)
  show "map_of (sized_entries (fst (sized_get k c))) = map_of (sized_entries c)"
    "snd (sized_get k c) = map_of (sized_entries c) k"
    using lh by (auto simp: sized_get_def lhm.get_law lhm.put_law map_of_delete_snoc simp del: map_of_append split: option.splits)
qed

lemma sized_evict_inv:
  assumes inv: "sized_inv c"
  shows "sized_inv (sized_evict k c)" "map_of (sized_entries (sized_evict k c)) = (map_of (sized_entries c))(k := None)"
    "total_size (sized_evict k c) - currentSize (sized_evict k c) = total_size c - currentSize c"
proof -
  have lh: "lh_inv (sz_elements c)" "wf_gomap (sized_entries c)" using inv by (simp_all add: sized_inv_def lhm.distinct_law)
  show tot: "total_size (sized_evict k c) - currentSize (sized_evict k c) = total_size c - currentSize c"
    using lh by (simp add: sized_evict_def lhm.get_law lhm.delete_law total_size_def gomap_sum_delete split: option.splits)
  then have "currentSize (sized_evict k c) \<le> total_size (sized_evict k c)" using inv by (simp add: sized_inv_def)
  then show "sized_inv (sized_evict k c)"
    using inv lh unfolding sized_inv_def by (auto simp: sized_evict_def lhm.delete_law split: option.splits)
  show "map_of (sized_entries (sized_evict k c)) = (map_of (sized_entries c))(k := None)"
    using lh by (auto simp: sized_evict_def lhm.get_law lhm.delete_law split: option.splits)
qed

lemma sized_flush_inv:
  "sized_inv c \<Longrightarrow> sized_inv (sized_flush c)" "sized_entries (sized_flush c) = []"
  by (simp_all add: sized_inv_def sized_flush_def total_size_def lhm.empty_law)

interpretation sized: cacher sized_inv "\<lambda>c. map_of (sized_entries c)" sized_call
proof
  fix c :: "('k, 'v) sizedLRU" and x :: "('k, 'v) Cacher"
  assume inv: "sized_inv c"
  show "\<exists>c' r. sized_call c x = Some (c', r) \<and> sized_inv c' \<and> map_of (sized_entries c') \<subseteq>\<^sub>m ideal x (map_of (sized_entries c))
      \<and> (case x of Get k \<Rightarrow> r = None \<or> r = map_of (sized_entries c) k | _ \<Rightarrow> r = None)"
  proof (cases x)
    case (Put k v)
    obtain c' where "sized_put k v c = Some c'" using sized_put_law [OF inv] by blast
    with Put sized_put_inv [OF inv this] show ?thesis by simp
  next
    case (Get k)
    with sized_get_inv [OF inv, of k] show ?thesis by (cases "sized_get k c") simp
  next
    case (Evict k)
    with sized_evict_inv [OF inv, of k] show ?thesis by simp
  next
    case Flush
    with sized_flush_inv [of c] inv show ?thesis by simp
  qed
qed

lemma new_lru: "lru_inv \<lparr>elements = None, Size = n\<rparr>" "lru_entries \<lparr>elements = None, Size = n\<rparr> = []"
  by (simp_all add: lru_inv_def lru_entries_def)

lemma new_sized:
  "\<forall>k v. 0 \<le> sz k v \<Longrightarrow> sized_inv (NewSizedLRU mx sz)" "sized_entries (NewSizedLRU mx sz) = []"
  by (simp_all add: sized_inv_def NewSizedLRU_def total_size_def lhm.empty_law)

text \<open>(C34) Every sequence of calls on a new cache of either kind returns, whatever its bound, and the cache never
  answers with stale data: a \<^verbatim>\<open>Get\<close> misses or returns the value put last under its key since the key was last
  evicted or the cache flushed. The size function of the sized cache is any function with no negative size.\<close>

theorem caches_never_stale:
  assumes "\<forall>k v. 0 \<le> sz k v"
  shows "(\<exists>c rs. cache_run lru_call \<lparr>elements = None, Size = n\<rparr> xs = Some (c, rs) \<and> coherent Map.empty xs rs)
    \<and> (\<exists>c rs. cache_run sized_call (NewSizedLRU mx sz) xs = Some (c, rs) \<and> coherent Map.empty xs rs)"
  using lru.run_coherent [OF new_lru(1), of n xs] sized.run_coherent [OF new_sized(1) [OF assms], of mx xs]
  by (auto simp: new_lru new_sized)

theorem caches_never_stale_witness:
  "\<exists>c rs. cache_run sized_call (NewSizedLRU 10 (\<lambda>(k::nat) (v::nat). int v)) [Put 1 5, Put 1 7, Get 1] = Some (c, rs)
     \<and> coherent Map.empty [Put (1::nat) (5::nat), Put 1 7, Get 1] rs"
  using caches_never_stale [of "\<lambda>(k::nat) (v::nat). int v" 3 "[Put 1 5, Put 1 7, Get 1]" 10] by simp

text \<open>An LRU cache holds at most as many entries as its size allows (at least one), and what is used stays:
  after a \<^verbatim>\<open>Put\<close> and fewer further calls than the size, none of which replaces, evicts or flushes the entry, a
  \<^verbatim>\<open>Get\<close> still finds it.\<close>

theorem lru_keeps_recent:
  assumes "lru_inv c" "\<forall>x \<in> set xs. spares k x" "length xs < nat (max 1 (Size c))"
  shows "\<exists>c' rs. cache_run lru_call c (Put k v # xs) = Some (c', rs) \<and> lru_len c' \<le> max 1 (Size c)
    \<and> (\<exists>c''. lru_get k c' = Some (c'', Some v))"
proof -
  obtain c1 where c1: "lru_call c (Put k v) = Some (c1, None)" "lru_inv c1" "bound c1 = bound c"
    "lru_entries c1 = lru_next (bound c) (Put k v) (trimmed c)" using lru_call_law [OF assms(1), of "Put k v"] by auto
  have len: "length (lru_entries c1) \<le> bound c1"
    using length_lru_next [OF trimmed_distinct [OF assms(1)] length_trimmed bound_pos] c1(3,4) by metis
  have "recent k v 0 (lru_entries c1)" using c1(4) by (auto simp: recent_def)
  from lru_run_recent [OF c1(2) len this assms(2)] assms(3) c1(3) obtain c' rs
    where run: "cache_run lru_call c1 xs = Some (c', rs)" "lru_inv c'" "bound c' = bound c"
      "length (lru_entries c') \<le> bound c" "map_of (lru_entries c') k = Some v" by (auto simp: bound_def)
  from run have "trimmed c' = lru_entries c'" by (simp add: trimmed_id)
  with lru_get_law [OF run(2), of k] run(5) have "\<exists>c''. lru_get k c' = Some (c'', Some v)" by auto
  with run c1(1) show ?thesis by (auto simp: lru_len_law bound_def)
qed

theorem lru_keeps_recent_witness:
  "\<exists>c' rs. cache_run lru_call \<lparr>elements = None, Size = 2\<rparr> [Put (1::nat) (5::nat), Put 2 6] = Some (c', rs)
    \<and> lru_len c' \<le> 2 \<and> (\<exists>c''. lru_get 1 c' = Some (c'', Some 5))"
  using lru_keeps_recent [of "\<lparr>elements = None, Size = 2\<rparr>" "[Put 2 (6::nat)]" "1::nat" 5] by (simp add: new_lru)

subsection \<open>The size account of the sized cache\<close>

text \<open>The size of the entries that were used after the entry of a key, and the size that a put subtracts twice: the size of the entry that it
  replaces is taken off before the loop, and once more by the loop if that reaches the entry, which it does when the entries used later
  and the new one do not fit.\<close>

definition newer_size :: "'k \<Rightarrow> ('k, 'v) sizedLRU \<Rightarrow> int" where
  "newer_size k c = gomap_sum (sz_size c) (tl (dropWhile (\<lambda>e. fst e \<noteq> k) (sized_entries c)))"

definition counted_twice :: "'k \<Rightarrow> 'v \<Rightarrow> ('k, 'v) sizedLRU \<Rightarrow> int" where
  "counted_twice k v c = (case map_of (sized_entries c) k of None \<Rightarrow> 0
     | Some old \<Rightarrow> if maxSize c < newer_size k c - (total_size c - currentSize c) + sz_size c k v then sz_size c k old else 0)"

lemma split_at_key:
  assumes "map_of es k = Some v"
  obtains xs ys where "es = xs @ (k, v) # ys" "tl (dropWhile (\<lambda>e. fst e \<noteq> k) es) = ys" "map_of xs k = None"
proof -
  have "\<exists>xs ys. es = xs @ (k, v) # ys \<and> tl (dropWhile (\<lambda>e. fst e \<noteq> k) es) = ys \<and> map_of xs k = None"
    using assms
  proof (induction es)
    case (Cons e es)
    show ?case
    proof (cases "fst e = k")
      case True
      with Cons.prems have "e = (k, v)" by (cases e) simp
      then show ?thesis by (intro exI [of _ "[]"] exI [of _ es]) simp
    next
      case False
      with Cons obtain xs ys where "es = xs @ (k, v) # ys" "tl (dropWhile (\<lambda>e. fst e \<noteq> k) es) = ys" "map_of xs k = None" by (cases e) auto
      with False show ?thesis by (intro exI [of _ "e # xs"] exI [of _ ys]) (cases e, simp)
    qed
  qed simp
  with that show thesis by blast
qed

text \<open>The loop reaches the replaced entry exactly when what is used later and the new entry do not fit.\<close>

lemma evicts_replaced:
  assumes inv: "sized_inv c" and es: "sized_entries c = xs @ (k, old) # ys"
    and stop: "currentSize c - sz_size c k old - gomap_sum (sz_size c) (take n (sized_entries c)) + s \<le> maxSize c"
    and least: "\<forall>m<n. maxSize c < currentSize c - sz_size c k old - gomap_sum (sz_size c) (take m (sized_entries c)) + s"
  shows "length xs < n \<longleftrightarrow> maxSize c < gomap_sum (sz_size c) ys - (total_size c - currentSize c) + s"
proof -
  have tot: "total_size c = gomap_sum (sz_size c) xs + sz_size c k old + gomap_sum (sz_size c) ys" by (simp add: total_size_def es)
  show ?thesis
  proof (cases "length xs < n")
    case True
    with least have "maxSize c < currentSize c - sz_size c k old - gomap_sum (sz_size c) (take (length xs) (sized_entries c)) + s" by blast
    with True tot show ?thesis by (simp add: es)
  next
    case False
    have "gomap_sum (sz_size c) (take n xs) + gomap_sum (sz_size c) (drop n xs) = gomap_sum (sz_size c) xs" by (rule gomap_sum_take_drop)
    moreover have "0 \<le> gomap_sum (sz_size c) (drop n xs)" using inv by (intro gomap_sum_nonneg) (simp add: sized_inv_def)
    ultimately show ?thesis using False stop tot by (simp add: es)
  qed
qed

lemma sized_put_account:
  assumes inv: "sized_inv c" and put: "sized_put k v c = Some c'" and "\<not> maxSize c < sz_size c k v"
  shows "total_size c' - currentSize c' = total_size c - currentSize c + counted_twice k v c \<and> currentSize c' \<le> maxSize c"
proof -
  let ?w = "sz_size c" and ?es = "sized_entries c"
  obtain n where n: "sz_size c' = ?w" "sized_entries c' = AList.delete k (drop n ?es) @ [(k, v)]" "currentSize c' \<le> maxSize c"
    "currentSize c' = currentSize c - weight_at ?w k (map_of ?es k) - gomap_sum ?w (take n ?es) + ?w k v"
    "\<forall>m<n. maxSize c < currentSize c - weight_at ?w k (map_of ?es k) - gomap_sum ?w (take m ?es) + ?w k v"
    using sized_put_law [OF inv, of k v] assms(2,3) by auto
  have wf: "wf_gomap ?es" using inv by (simp add: sized_inv_def lhm.distinct_law)
  then have wfd: "wf_gomap (drop n ?es)" by (simp add: drop_map [symmetric])
  have "total_size c' - currentSize c' = total_size c - currentSize c + (weight_at ?w k (map_of ?es k) - weight_at ?w k (map_of (drop n ?es) k))"
    using gomap_sum_take_drop [of ?w n ?es] n(1,2,4) by (simp add: total_size_def gomap_sum_delete [OF wfd])
  moreover have "weight_at ?w k (map_of ?es k) - weight_at ?w k (map_of (drop n ?es) k) = counted_twice k v c"
  proof (cases "map_of ?es k")
    case None
    with map_of_drop_cases [OF wf, of n k] show ?thesis by (auto simp: counted_twice_def)
  next
    case (Some old)
    then obtain xs ys where es: "?es = xs @ (k, old) # ys" "tl (dropWhile (\<lambda>e. fst e \<noteq> k) ?es) = ys" "map_of xs k = None" by (rule split_at_key)
    have "k \<notin> fst ` set ys" "k \<notin> fst ` set xs" using wf unfolding es(1) by simp_all
    then have "map_of (drop m ys) k = None" "map_of (drop m xs) k = None" for m by (auto simp: map_of_eq_None_iff dest: in_set_dropD)
    then have d: "map_of (drop n ?es) k = (if length xs < n then None else Some old)"
      unfolding es(1) by (cases "length xs < n") (simp_all add: drop_Cons' map_add_def)
    have "length xs < n \<longleftrightarrow> maxSize c < newer_size k c - (total_size c - currentSize c) + ?w k v"
      using evicts_replaced [OF inv es(1), of n "?w k v"] n(3-5) Some es(2) by (simp add: newer_size_def)
    with d Some show ?thesis by (simp add: counted_twice_def)
  qed
  ultimately show ?thesis using n(3) by simp
qed

fun drift_after :: "('k, 'v) Cacher \<Rightarrow> ('k, 'v) sizedLRU \<Rightarrow> int" where
  "drift_after (Put k v) c = (if maxSize c < sz_size c k v then 0 else total_size c - currentSize c + counted_twice k v c)"
| "drift_after Flush c = 0"
| "drift_after _ c = total_size c - currentSize c"

lemma sized_call_account:
  assumes inv: "sized_inv c" and call: "sized_call c x = Some (c', r)" and "currentSize c \<le> maxSize c" "0 \<le> maxSize c"
  shows "total_size c' - currentSize c' = drift_after x c \<and> currentSize c' \<le> maxSize c' \<and> maxSize c' = maxSize c \<and> sz_size c' = sz_size c"
proof (cases x)
  case (Put k v)
  then have put: "sized_put k v c = Some c'" using call by auto
  have same: "maxSize c' = maxSize c" "sz_size c' = sz_size c" using sized_put_law [OF inv, of k v] put by auto
  show ?thesis
  proof (cases "maxSize c < sz_size c k v")
    case True
    then have "c' = sized_flush c" using put by (simp add: sized_put_def)
    with True Put assms(4) show ?thesis by (simp add: sized_flush_def total_size_def lhm.empty_law)
  next
    case False
    with sized_put_account [OF inv put False] same Put show ?thesis by simp
  qed
next
  case (Get k)
  then have "c' = fst (sized_get k c)" using call by (auto split: prod.splits)
  moreover have "currentSize (fst (sized_get k c)) = currentSize c" "maxSize (fst (sized_get k c)) = maxSize c" "sz_size (fst (sized_get k c)) = sz_size c"
    by (simp_all add: sized_get_def split: option.splits)
  ultimately show ?thesis using Get sized_get_inv(4) [OF inv, of k] assms(3) by simp
next
  case (Evict k)
  then have "c' = sized_evict k c" using call by simp
  moreover have "currentSize (sized_evict k c) \<le> currentSize c" "maxSize (sized_evict k c) = maxSize c" "sz_size (sized_evict k c) = sz_size c"
    using inv by (auto simp: sized_evict_def sized_inv_def split: option.splits)
  ultimately show ?thesis using Evict sized_evict_inv(3) [OF inv, of k] assms(3) by simp
next
  case Flush
  then show ?thesis using call assms(4) by (auto simp: sized_flush_def total_size_def lhm.empty_law)
qed

lemma sized_run_keeps:
  assumes "cache_run sized_call c xs = Some (c', rs)" "sized_inv c" "currentSize c \<le> maxSize c" "0 \<le> maxSize c"
  shows "sized_inv c' \<and> currentSize c' \<le> maxSize c' \<and> maxSize c' = maxSize c \<and> sz_size c' = sz_size c"
  using assms
proof (induction xs arbitrary: c rs)
  case (Cons x xs)
  obtain d r where d: "sized_call c x = Some (d, r)" "sized_inv d" using sized.call_law [OF Cons.prems(2), of x] by blast
  then obtain rs' where "cache_run sized_call d xs = Some (c', rs')" using Cons.prems(1) by (auto split: option.splits)
  with Cons.IH [OF this d(2)] sized_call_account [OF Cons.prems(2) d(1) Cons.prems(3,4)] Cons.prems(4) show ?case by simp
qed simp



lemma sized_put_double_count:
  "map_option (\<lambda>(c, _). (currentSize c, total_size c, maxSize c))
     (cache_run sized_call (NewSizedLRU 10 (\<lambda>(k::nat) (v::nat). int v)) [Put 1 5, Put 2 4, Put 1 8]) = Some (7, 12, 10)"
  by code_simp

text \<open>A put that replaces the value of a key in a full LRU cache evicts the oldest entry, although the number of
  entries would not grow.\<close>

lemma lru_put_needless_eviction:
  "map_option (\<lambda>(c, _). lru_entries c)
     (cache_run lru_call \<lparr>elements = None, Size = 2\<rparr> [Put (1::nat) (5::nat), Put 2 6, Put 2 7]) = Some [(2, 7)]"
  by code_simp

end
