(* ===== verification/Poll.thy ===== *)
theory Poll
  imports Bags Id_Bits Linked_Hashmap
begin

text \<open>
  The polls of \<^verbatim>\<open>snow/consensus/snowman/poll\<close>: a poll collects the votes of the validators that were asked in
  one query, and the set of polls hands the results over in the order in which the polls were started. The
  source has an interface \<^verbatim>\<open>Poll\<close> with two implementations, one that waits for every validator and one that
  ends early; the locale \<open>poll_interface\<close> is the contract they share. Logging, metrics and the start time of
  a poll are left out. A validator can be in the bag of asked validators several times; its one vote then
  counts as often.
\<close>

subsection \<open>The two kinds of poll\<close>

record 'n noEarlyTermPoll =
  net_votes :: "ID Bag"
  net_polled :: "'n Bag"

definition net_Vote :: "'n \<Rightarrow> ID \<Rightarrow> 'n noEarlyTermPoll \<Rightarrow> 'n noEarlyTermPoll" where
  "net_Vote vdr vote p =
     (let cnt = Count (net_polled p) vdr
      in p\<lparr>net_polled := Remove vdr (net_polled p), net_votes := AddCount vote cnt (net_votes p)\<rparr>)"

definition net_Drop :: "'n \<Rightarrow> 'n noEarlyTermPoll \<Rightarrow> 'n noEarlyTermPoll" where
  "net_Drop vdr p = p\<lparr>net_polled := Remove vdr (net_polled p)\<rparr>"

definition net_Finished :: "'n noEarlyTermPoll \<Rightarrow> bool" where
  "net_Finished p \<longleftrightarrow> Len (net_polled p) = 0"

record 'n earlyTermNoTraversalPoll =
  et_votes :: "ID Bag"
  et_polled :: "'n Bag"
  et_alpha :: int

definition et_Vote :: "'n \<Rightarrow> ID \<Rightarrow> 'n earlyTermNoTraversalPoll \<Rightarrow> 'n earlyTermNoTraversalPoll" where
  "et_Vote vdr vote p =
     (let cnt = Count (et_polled p) vdr
      in p\<lparr>et_polled := Remove vdr (et_polled p), et_votes := AddCount vote cnt (et_votes p)\<rparr>)"

definition et_Drop :: "'n \<Rightarrow> 'n earlyTermNoTraversalPoll \<Rightarrow> 'n earlyTermNoTraversalPoll" where
  "et_Drop vdr p = p\<lparr>et_polled := Remove vdr (et_polled p)\<rparr>"

definition et_Finished :: "'n earlyTermNoTraversalPoll \<Rightarrow> bool" where
  "et_Finished p =
     (let remaining = Len (et_polled p)
      in if remaining = 0 then True
         else let received = Len (et_votes p); maxPossibleVotes = received + remaining
              in if maxPossibleVotes < et_alpha p then True
                 else let (_, freq) = Mode Empty_ID (et_votes p) in freq \<ge> et_alpha p)"

text \<open>The interface value, and the two factories.\<close>

datatype 'n Poll = NoEarlyTerm "'n noEarlyTermPoll" | EarlyTerm "'n earlyTermNoTraversalPoll"

datatype Factory = NoEarlyTermFactory | EarlyTermNoTraversalFactory int

fun Factory_New :: "Factory \<Rightarrow> 'n Bag \<Rightarrow> 'n Poll" where
  "Factory_New NoEarlyTermFactory vdrs = NoEarlyTerm \<lparr>net_votes = empty_Bag, net_polled = vdrs\<rparr>"
| "Factory_New (EarlyTermNoTraversalFactory alpha) vdrs =
     EarlyTerm \<lparr>et_votes = empty_Bag, et_polled = vdrs, et_alpha = alpha\<rparr>"

fun Poll_Vote :: "'n \<Rightarrow> ID \<Rightarrow> 'n Poll \<Rightarrow> 'n Poll" where
  "Poll_Vote vdr vote (NoEarlyTerm p) = NoEarlyTerm (net_Vote vdr vote p)"
| "Poll_Vote vdr vote (EarlyTerm p) = EarlyTerm (et_Vote vdr vote p)"

fun Poll_Drop :: "'n \<Rightarrow> 'n Poll \<Rightarrow> 'n Poll" where
  "Poll_Drop vdr (NoEarlyTerm p) = NoEarlyTerm (net_Drop vdr p)"
| "Poll_Drop vdr (EarlyTerm p) = EarlyTerm (et_Drop vdr p)"

fun Poll_Finished :: "'n Poll \<Rightarrow> bool" where
  "Poll_Finished (NoEarlyTerm p) = net_Finished p"
| "Poll_Finished (EarlyTerm p) = et_Finished p"

fun Poll_Result :: "'n Poll \<Rightarrow> ID Bag" where
  "Poll_Result (NoEarlyTerm p) = net_votes p"
| "Poll_Result (EarlyTerm p) = et_votes p"

subsection \<open>The set of polls\<close>

record 'n poll_set =
  factory :: Factory
  polls :: "(u32, 'n Poll) linkedHashmap"

definition NewSet :: "Factory \<Rightarrow> 'n poll_set" where
  "NewSet f = \<lparr>factory = f, polls = lh_New\<rparr>"

definition set_Add :: "u32 \<Rightarrow> 'n Bag \<Rightarrow> 'n poll_set \<Rightarrow> 'n poll_set \<times> bool" where
  "set_Add requestID vdrs s =
     (case lh_Get requestID (polls s) of
        Some _ \<Rightarrow> (s, False)
      | None \<Rightarrow> (s\<lparr>polls := lh_Put requestID (Factory_New (factory s) vdrs) (polls s)\<rparr>, True))"

text \<open>The loop of \<^verbatim>\<open>processFinishedPolls\<close> with its iterator.\<close>

partial_function (option) process_loop ::
    "(u32, 'n Poll) linkedHashmap \<Rightarrow> u32 iterator \<Rightarrow> ID Bag list \<Rightarrow> ((u32, 'n Poll) linkedHashmap \<times> ID Bag list) option" where
  [code]: "process_loop ps iter results =
     (case it_Next ps iter of
        None \<Rightarrow> None
      | Some (iter', None) \<Rightarrow> Some (ps, results)
      | Some (iter', Some (key, p)) \<Rightarrow>
          if \<not> Poll_Finished p then Some (ps, results)
          else process_loop (lh_Delete key ps) iter' (results @ [Poll_Result p]))"

definition processFinishedPolls :: "'n poll_set \<Rightarrow> ('n poll_set \<times> ID Bag list) option" where
  "processFinishedPolls s = map_option (\<lambda>(ps, results). (s\<lparr>polls := ps\<rparr>, results)) (process_loop (polls s) lh_NewIterator [])"

definition set_Vote :: "u32 \<Rightarrow> 'n \<Rightarrow> ID \<Rightarrow> 'n poll_set \<Rightarrow> ('n poll_set \<times> ID Bag list) option" where
  "set_Vote requestID vdr vote s =
     (case lh_Get requestID (polls s) of
        None \<Rightarrow> Some (s, [])
      | Some p \<Rightarrow>
          let p' = Poll_Vote vdr vote p; s' = s\<lparr>polls := lh_modify requestID (\<lambda>_. p') (polls s)\<rparr>
          in if \<not> Poll_Finished p' then Some (s', []) else processFinishedPolls s')"

definition set_Drop :: "u32 \<Rightarrow> 'n \<Rightarrow> 'n poll_set \<Rightarrow> ('n poll_set \<times> ID Bag list) option" where
  "set_Drop requestID vdr s =
     (case lh_Get requestID (polls s) of
        None \<Rightarrow> Some (s, [])
      | Some p \<Rightarrow>
          let p' = Poll_Drop vdr p; s' = s\<lparr>polls := lh_modify requestID (\<lambda>_. p') (polls s)\<rparr>
          in if \<not> Poll_Finished p' then Some (s', []) else processFinishedPolls s')"

definition set_Len :: "'n poll_set \<Rightarrow> int" where
  "set_Len s = lh_Len (polls s)"

subsection \<open>What a poll counts\<close>

text \<open>A response to a poll: a vote, or a failure to answer. The reply of a validator is its first response.\<close>

datatype 'n response = Voted 'n ID | Dropped 'n

fun reply :: "'n response list \<Rightarrow> 'n \<Rightarrow> ID option option" where
  "reply [] v = None"
| "reply (Voted v' x # rs) v = (if v' = v then Some (Some x) else reply rs v)"
| "reply (Dropped v' # rs) v = (if v' = v then Some None else reply rs v)"

fun respond :: "('n \<Rightarrow> ID \<Rightarrow> 'p \<Rightarrow> 'p) \<Rightarrow> ('n \<Rightarrow> 'p \<Rightarrow> 'p) \<Rightarrow> 'n response list \<Rightarrow> 'p \<Rightarrow> 'p" where
  "respond vote drop_vdr [] p = p"
| "respond vote drop_vdr (Voted v x # rs) p = respond vote drop_vdr rs (vote v x p)"
| "respond vote drop_vdr (Dropped v # rs) p = respond vote drop_vdr rs (drop_vdr v p)"

lemma replies_Voted:
  "{#v \<in># M. reply (Voted v0 x0 # rs) v = Some (Some x)#}
     = (if x0 = x then replicate_mset (count M v0) v0 else {#}) + {#v \<in># {#v \<in># M. v \<noteq> v0#}. reply rs v = Some (Some x)#}"
  by (rule multiset_eqI) auto

lemma replies_Dropped:
  "{#v \<in># M. reply (Dropped v0 # rs) v = Some (Some x)#} = {#v \<in># {#v \<in># M. v \<noteq> v0#}. reply rs v = Some (Some x)#}"
  by (rule multiset_eqI) auto

lemma waiting_Cons:
  "{#v \<in># M. reply (Voted v0 x0 # rs) v = None#} = {#v \<in># {#v \<in># M. v \<noteq> v0#}. reply rs v = None#}"
  "{#v \<in># M. reply (Dropped v0 # rs) v = None#} = {#v \<in># {#v \<in># M. v \<noteq> v0#}. reply rs v = None#}"
  by (rule multiset_eqI, auto)+

text \<open>What both kinds of poll promise.\<close>

locale poll_interface =
  fixes inv :: "'p \<Rightarrow> bool" and vote :: "'n \<Rightarrow> ID \<Rightarrow> 'p \<Rightarrow> 'p" and drop_vdr :: "'n \<Rightarrow> 'p \<Rightarrow> 'p"
    and result :: "'p \<Rightarrow> ID Bag" and waiting :: "'p \<Rightarrow> 'n Bag"
  assumes inv_law: "inv p \<Longrightarrow> bag_inv (result p) \<and> bag_inv (waiting p)"
    and vote_law: "inv p \<Longrightarrow> inv (vote v x p) \<and> waiting (vote v x p) = Remove v (waiting p)
      \<and> result (vote v x p) = AddCount x (Count (waiting p) v) (result p)"
    and drop_law: "inv p \<Longrightarrow> inv (drop_vdr v p) \<and> waiting (drop_vdr v p) = Remove v (waiting p)
      \<and> result (drop_vdr v p) = result p"
begin

lemma respond_inv: "inv p \<Longrightarrow> inv (respond vote drop_vdr rs p)"
proof (induction rs arbitrary: p)
  case (Cons r rs)
  then show ?case by (cases r) (simp_all add: vote_law drop_law)
qed simp

lemma respond_counts:
  "inv p \<Longrightarrow> Count (result (respond vote drop_vdr rs p)) x
     = Count (result p) x + int (size {#v \<in># bag_mset (waiting p). reply rs v = Some (Some x)#})"
proof (induction rs arbitrary: p)
  case (Cons r rs)
  note laws = inv_law [OF Cons.prems]
  show ?case
  proof (cases r)
    case (Voted v0 x0)
    have "Count (waiting p) v0 = int (count (bag_mset (waiting p)) v0)" "0 \<le> Count (waiting p) v0"
      using laws by (simp_all add: count_bag_mset Count_nonneg)
    with Cons.IH [of "vote v0 x0 p"] Cons.prems laws Voted show ?thesis
      by (simp add: vote_law Count_AddCount bag_mset_Remove replies_Voted del: reply.simps)
  next
    case (Dropped v0)
    with Cons.IH [of "drop_vdr v0 p"] Cons.prems laws show ?thesis
      by (simp add: drop_law bag_mset_Remove replies_Dropped del: reply.simps)
  qed
qed simp

lemma respond_waiting:
  "inv p \<Longrightarrow> bag_mset (waiting (respond vote drop_vdr rs p)) = {#v \<in># bag_mset (waiting p). reply rs v = None#}"
proof (induction rs arbitrary: p)
  case (Cons r rs)
  note laws = inv_law [OF Cons.prems]
  show ?case
  proof (cases r)
    case (Voted v0 x0)
    with Cons.IH [of "vote v0 x0 p"] Cons.prems laws show ?thesis
      by (simp add: vote_law bag_mset_Remove waiting_Cons del: reply.simps)
  next
    case (Dropped v0)
    with Cons.IH [of "drop_vdr v0 p"] Cons.prems laws show ?thesis
      by (simp add: drop_law bag_mset_Remove waiting_Cons del: reply.simps)
  qed
qed simp

text \<open>No choice can gain more than the votes still awaited, and the votes stay within those asked for.\<close>

lemma respond_bounds:
  assumes "inv p"
  shows "Count (result p) x \<le> Count (result (respond vote drop_vdr rs p)) x"
    "Count (result (respond vote drop_vdr rs p)) x \<le> Count (result p) x + Len (waiting p)"
proof -
  have "size {#v \<in># bag_mset (waiting p). reply rs v = Some (Some x)#} \<le> size (bag_mset (waiting p))"
    by (rule size_filter_mset_lesseq)
  then have "int (size {#v \<in># bag_mset (waiting p). reply rs v = Some (Some x)#}) \<le> int (size (bag_mset (waiting p)))" by simp
  with size_bag_mset [of "waiting p"] inv_law [OF assms]
  show "Count (result p) x \<le> Count (result (respond vote drop_vdr rs p)) x"
    "Count (result (respond vote drop_vdr rs p)) x \<le> Count (result p) x + Len (waiting p)"
    by (simp_all add: respond_counts [OF assms])
qed

lemma respond_total:
  "inv p \<Longrightarrow> Len (result (respond vote drop_vdr rs p)) + Len (waiting (respond vote drop_vdr rs p)) \<le> Len (result p) + Len (waiting p)"
proof (induction rs arbitrary: p)
  case (Cons r rs)
  have nn: "0 \<le> Count (waiting p) v" for v using inv_law [OF Cons.prems] by (simp add: Count_nonneg)
  show ?case
  proof (cases r)
    case (Voted v0 x0)
    with Cons.IH [of "vote v0 x0 p"] Cons.prems nn [of v0] show ?thesis by (simp add: vote_law Len_Remove)
  next
    case (Dropped v0)
    with Cons.IH [of "drop_vdr v0 p"] Cons.prems nn [of v0] show ?thesis by (simp add: drop_law Len_Remove)
  qed
qed simp

end

fun poll_inv :: "'n Poll \<Rightarrow> bool" where
  "poll_inv (NoEarlyTerm p) \<longleftrightarrow> bag_inv (net_votes p) \<and> bag_inv (net_polled p)"
| "poll_inv (EarlyTerm p) \<longleftrightarrow> bag_inv (et_votes p) \<and> bag_inv (et_polled p)"

fun waiting :: "'n Poll \<Rightarrow> 'n Bag" where
  "waiting (NoEarlyTerm p) = net_polled p"
| "waiting (EarlyTerm p) = et_polled p"

interpretation net: poll_interface "\<lambda>p. bag_inv (net_votes p) \<and> bag_inv (net_polled p)" net_Vote net_Drop net_votes net_polled
  by unfold_locales (auto simp: net_Vote_def net_Drop_def Let_def intro: inv_intros)

interpretation et: poll_interface "\<lambda>p. bag_inv (et_votes p) \<and> bag_inv (et_polled p)" et_Vote et_Drop et_votes et_polled
  by unfold_locales (auto simp: et_Vote_def et_Drop_def Let_def intro: inv_intros)

interpretation pl: poll_interface poll_inv Poll_Vote Poll_Drop Poll_Result waiting
proof
  fix p :: "'a Poll" and v x
  assume inv: "poll_inv p"
  show "bag_inv (Poll_Result p) \<and> bag_inv (waiting p)" using inv by (cases p) auto
  show "poll_inv (Poll_Vote v x p) \<and> waiting (Poll_Vote v x p) = Remove v (waiting p)
      \<and> Poll_Result (Poll_Vote v x p) = AddCount x (Count (waiting p) v) (Poll_Result p)"
    using inv by (cases p) (simp_all add: net.vote_law et.vote_law inv_intros)
  show "poll_inv (Poll_Drop v p) \<and> waiting (Poll_Drop v p) = Remove v (waiting p) \<and> Poll_Result (Poll_Drop v p) = Poll_Result p"
    using inv by (cases p) (simp_all add: net.drop_law et.drop_law inv_intros)
qed

lemma Factory_New_law:
  "bag_inv vdrs \<Longrightarrow> poll_inv (Factory_New f vdrs)" "Poll_Result (Factory_New f vdrs) = empty_Bag"
  "waiting (Factory_New f vdrs) = vdrs"
  by (cases f; simp)+

subsection \<open>The set of polls hands over a prefix\<close>

lemma process_loop_law:
  assumes "lh_inv ps" "it_ok ps iter" "map snd (it_rest ps iter) = lh_entries ps"
  shows "\<exists>ps'. process_loop ps iter results
      = Some (ps', results @ map (Poll_Result \<circ> snd) (takeWhile (Poll_Finished \<circ> snd) (lh_entries ps)))
    \<and> lh_inv ps' \<and> lh_entries ps' = dropWhile (Poll_Finished \<circ> snd) (lh_entries ps)"
  using assms
proof (induction "length (lh_entries ps)" arbitrary: ps iter results rule: less_induct)
  case less
  obtain iter' where next': "it_Next ps iter = Some (iter', case it_rest ps iter of [] \<Rightarrow> None | x # _ \<Rightarrow> Some (snd x))"
    "it_rest ps iter' = tl (it_rest ps iter)" "it_ok ps iter'" "it_initialized iter' \<or> it_exhausted iter'"
    using it_Next_law [OF less.prems(1,2)] by blast
  show ?case
  proof (cases "it_rest ps iter")
    case Nil
    then have "process_loop ps iter results = Some (ps, results)" using next'(1) by (subst process_loop.simps) simp
    moreover have "lh_entries ps = []" using less.prems(3) Nil by simp
    ultimately show ?thesis using less.prems(1) by simp
  next
    case (Cons x rest)
    obtain key p where x: "snd x = (key, p)" by (cases "snd x")
    with Cons less.prems(3) have es: "lh_entries ps = (key, p) # map snd rest" by simp
    with lhm.distinct_law [OF less.prems(1)] have key: "key \<notin> fst ` set (map snd rest)" by force
    have del: "lh_inv (lh_Delete key ps)" "lh_entries (lh_Delete key ps) = map snd rest"
      using lhm.delete_law [OF less.prems(1)] es key by (simp_all add: delete_absent)
    have loop: "process_loop ps iter results = (if \<not> Poll_Finished p then Some (ps, results)
        else process_loop (lh_Delete key ps) iter' (results @ [Poll_Result p]))"
      using next'(1) Cons x by (subst process_loop.simps) simp
    have rest: "it_rest ps iter' = rest" using next'(2) Cons by simp
    note it' = it_rest_Delete [OF less.prems(1) next'(3,4), of key, unfolded rest, OF key]
    show ?thesis
    proof (cases "Poll_Finished p")
      case True
      have "length (lh_entries (lh_Delete key ps)) < length (lh_entries ps)" using del es by simp
      from less.hyps [OF this del(1) it'(2), of "results @ [Poll_Result p]"] it'(1) del(2) True loop es
      show ?thesis by simp
    qed (use loop es less.prems(1) in simp)
  qed
qed

lemma processFinishedPolls_law:
  assumes "lh_inv (polls s)"
  shows "\<exists>ps'. processFinishedPolls s
      = Some (s\<lparr>polls := ps'\<rparr>, map (Poll_Result \<circ> snd) (takeWhile (Poll_Finished \<circ> snd) (lh_entries (polls s))))
    \<and> lh_inv ps' \<and> lh_entries ps' = dropWhile (Poll_Finished \<circ> snd) (lh_entries (polls s))"
  using process_loop_law [OF assms, of lh_NewIterator "[]"] by (auto simp: processFinishedPolls_def lh_entries_def)

text \<open>A response to one poll of the set: votes and failures go the same way.\<close>

definition respond_to :: "u32 \<Rightarrow> ('n Poll \<Rightarrow> 'n Poll) \<Rightarrow> (u32 \<times> 'n Poll) list \<Rightarrow> (u32 \<times> 'n Poll) list" where
  "respond_to requestID f es = map (\<lambda>(k, p). (k, if k = requestID then f p else p)) es"

definition set_respond :: "u32 \<Rightarrow> ('n Poll \<Rightarrow> 'n Poll) \<Rightarrow> 'n poll_set \<Rightarrow> ('n poll_set \<times> ID Bag list) option" where
  "set_respond requestID f s =
     (case lh_Get requestID (polls s) of
        None \<Rightarrow> Some (s, [])
      | Some p \<Rightarrow>
          let s' = s\<lparr>polls := lh_modify requestID (\<lambda>_. f p) (polls s)\<rparr>
          in if \<not> Poll_Finished (f p) then Some (s', []) else processFinishedPolls s')"

lemma set_respond_Vote: "set_Vote requestID vdr vote = set_respond requestID (Poll_Vote vdr vote)"
  by (rule ext) (simp add: set_Vote_def set_respond_def Let_def cong: option.case_cong)

lemma set_respond_Drop: "set_Drop requestID vdr = set_respond requestID (Poll_Drop vdr)"
  by (rule ext) (simp add: set_Drop_def set_respond_def Let_def cong: option.case_cong)

definition head_waits :: "(u32 \<times> 'n Poll) list \<Rightarrow> bool" where
  "head_waits es \<longleftrightarrow> (case es of [] \<Rightarrow> True | (_, p) # _ \<Rightarrow> \<not> Poll_Finished p)"

lemma head_waits_dropWhile: "head_waits (dropWhile (Poll_Finished \<circ> snd) es)"
  by (induction es) (auto simp: head_waits_def)

lemma head_waits_takeWhile: "head_waits es \<Longrightarrow> takeWhile (Poll_Finished \<circ> snd) es = [] \<and> dropWhile (Poll_Finished \<circ> snd) es = es"
  by (cases es) (auto simp: head_waits_def)

text \<open>If the oldest poll was not finished before, the set after a response is what is left of the updated polls
  when the finished ones at the old end are taken out, whether or not the code looked for them.\<close>

lemma set_respond_law:
  fixes requestID f
  assumes inv: "lh_inv (polls s)" and wait: "head_waits (lh_entries (polls s))"
  defines "es \<equiv> respond_to requestID f (lh_entries (polls s))"
  shows "\<exists>s'. set_respond requestID f s = Some (s', map (Poll_Result \<circ> snd) (takeWhile (Poll_Finished \<circ> snd) es))
    \<and> lh_inv (polls s') \<and> lh_entries (polls s') = dropWhile (Poll_Finished \<circ> snd) es \<and> factory s' = factory s"
proof (cases "lh_Get requestID (polls s)")
  case None
  then have "requestID \<notin> fst ` set (lh_entries (polls s))" using lhm.get_law [OF inv] by (metis map_of_eq_None_iff)
  then have "es = lh_entries (polls s)" unfolding es_def respond_to_def by (intro map_idI) force
  with None head_waits_takeWhile [OF wait] inv show ?thesis by (simp add: set_respond_def)
next
  case (Some p)
  then have p: "map_of (lh_entries (polls s)) requestID = Some p" using lhm.get_law [OF inv] by metis
  have only: "p' = p" if "(requestID, p') \<in> set (lh_entries (polls s))" for p'
    using that p lhm.distinct_law [OF inv] by (metis map_of_is_SomeI option.inject)
  define s1 where "s1 = s\<lparr>polls := lh_modify requestID (\<lambda>_. f p) (polls s)\<rparr>"
  have s1: "lh_inv (polls s1)" "lh_entries (polls s1) = es" "factory s1 = factory s"
    using lh_modify_law [OF inv, of requestID "\<lambda>_. f p"] only by (auto simp: s1_def es_def respond_to_def)
  show ?thesis
  proof (cases "Poll_Finished (f p)")
    case True
    with Some processFinishedPolls_law [OF s1(1)] s1 show ?thesis by (auto simp: set_respond_def s1_def [symmetric] Let_def)
  next
    case False
    have "head_waits es" using wait only False
      by (cases "lh_entries (polls s)") (force simp: es_def respond_to_def head_waits_def)+
    with head_waits_takeWhile [OF this] Some False s1 show ?thesis by (simp add: set_respond_def s1_def [symmetric] Let_def)
  qed
qed

text \<open>Runs of the set: polls that are added, votes and failures, with all results handed over.\<close>

datatype 'n Set_call = AddPoll u32 "'n Bag" | VoteFor u32 'n ID | DropFor u32 'n

fun set_run :: "'n poll_set \<Rightarrow> 'n Set_call list \<Rightarrow> ('n poll_set \<times> u32 list \<times> ID Bag list) option" where
  "set_run s [] = Some (s, [], [])"
| "set_run s (AddPoll requestID vdrs # cs) =
     (case set_Add requestID vdrs s of
        (s', added) \<Rightarrow> map_option (map_prod id (map_prod (\<lambda>ids. if added then requestID # ids else ids) id)) (set_run s' cs))"
| "set_run s (VoteFor requestID vdr vote # cs) =
     (case set_Vote requestID vdr vote s of
        None \<Rightarrow> None
      | Some (s', results) \<Rightarrow> map_option (map_prod id (map_prod id (\<lambda>rs. results @ rs))) (set_run s' cs))"
| "set_run s (DropFor requestID vdr # cs) =
     (case set_Drop requestID vdr s of
        None \<Rightarrow> None
      | Some (s', results) \<Rightarrow> map_option (map_prod id (map_prod id (\<lambda>rs. results @ rs))) (set_run s' cs))"

text \<open>A new poll waits for someone: every poll that is added is not finished from the start.\<close>

fun opens_waiting :: "Factory \<Rightarrow> 'n Set_call \<Rightarrow> bool" where
  "opens_waiting f (AddPoll _ vdrs) \<longleftrightarrow> \<not> Poll_Finished (Factory_New f vdrs)"
| "opens_waiting f _ \<longleftrightarrow> True"

definition set_ok :: "'n poll_set \<Rightarrow> bool" where
  "set_ok s \<longleftrightarrow> lh_inv (polls s) \<and> head_waits (lh_entries (polls s))"

text \<open>What the set of polls is for, without polls and maps: a query is a request id with the validators that were asked and the responses
  that have come in for it, in order. A query is closed as soon as its poll is finished and no older query is open. The state is the list of
  the closed queries, in the order in which they were closed, and the list of the open ones, oldest first.\<close>

type_synonym 'n query = "u32 \<times> 'n Bag \<times> 'n response list"

definition query_poll :: "Factory \<Rightarrow> 'n query \<Rightarrow> 'n Poll" where
  "query_poll f q = respond Poll_Vote Poll_Drop (snd (snd q)) (Factory_New f (fst (snd q)))"

definition query_answered :: "u32 \<Rightarrow> 'n response \<Rightarrow> 'n query \<Rightarrow> 'n query" where
  "query_answered i r q = (if fst q = i then (fst q, fst (snd q), snd (snd q) @ [r]) else q)"

definition close_queries :: "Factory \<Rightarrow> 'n query list \<times> 'n query list \<Rightarrow> 'n query list \<times> 'n query list" where
  "close_queries f Q = (fst Q @ takeWhile (\<lambda>q. Poll_Finished (query_poll f q)) (snd Q), dropWhile (\<lambda>q. Poll_Finished (query_poll f q)) (snd Q))"

fun query_step :: "Factory \<Rightarrow> 'n Set_call \<Rightarrow> 'n query list \<times> 'n query list \<Rightarrow> 'n query list \<times> 'n query list" where
  "query_step f (AddPoll i vdrs) Q = (fst Q, if i \<in> fst ` set (snd Q) then snd Q else snd Q @ [(i, vdrs, [])])"
| "query_step f (VoteFor i vdr vote) Q = close_queries f (fst Q, map (query_answered i (Voted vdr vote)) (snd Q))"
| "query_step f (DropFor i vdr) Q = close_queries f (fst Q, map (query_answered i (Dropped vdr)) (snd Q))"

text \<open>The set of polls holds the polls of the open queries.\<close>

definition holds_queries :: "Factory \<Rightarrow> 'n poll_set \<Rightarrow> 'n query list \<Rightarrow> bool" where
  "holds_queries f s qs \<longleftrightarrow> factory s = f \<and> set_ok s \<and> lh_entries (polls s) = map (\<lambda>q. (fst q, query_poll f q)) qs"

lemma set_Add_queries:
  assumes "holds_queries f s qs" "\<not> Poll_Finished (Factory_New f vdrs)"
  shows "holds_queries f (fst (set_Add i vdrs s)) (if i \<in> fst ` set qs then qs else qs @ [(i, vdrs, [])])"
    "snd (set_Add i vdrs s) \<longleftrightarrow> i \<notin> fst ` set qs"
proof -
  have inv: "lh_inv (polls s)" and es: "lh_entries (polls s) = map (\<lambda>q. (fst q, query_poll f q)) qs"
    using assms(1) by (simp_all add: holds_queries_def set_ok_def)
  have get: "lh_Get i (polls s) = None \<longleftrightarrow> i \<notin> fst ` set qs"
    by (simp add: lhm.get_law [OF inv] map_of_eq_None_iff es image_image)
  then show "snd (set_Add i vdrs s) \<longleftrightarrow> i \<notin> fst ` set qs" by (auto simp: set_Add_def split: option.splits)
  show "holds_queries f (fst (set_Add i vdrs s)) (if i \<in> fst ` set qs then qs else qs @ [(i, vdrs, [])])"
  proof (cases "i \<in> fst ` set qs")
    case True
    then have "fst (set_Add i vdrs s) = s" using get by (cases "lh_Get i (polls s)") (auto simp: set_Add_def)
    with True assms(1) show ?thesis by simp
  next
    case False
    then have "i \<notin> fst ` set (lh_entries (polls s))" by (simp add: es image_image)
    with False get assms es lhm.put_law [OF inv] show ?thesis
      by (cases qs) (auto simp: set_Add_def holds_queries_def set_ok_def delete_absent head_waits_def query_poll_def)
  qed
qed

lemma respond_append: "respond vote drp (rs @ rs') p = respond vote drp rs' (respond vote drp rs p)"
  by (induction vote drp rs p rule: respond.induct) simp_all

lemma respond_single:
  "respond Poll_Vote Poll_Drop [Voted vdr vote] = Poll_Vote vdr vote" "respond Poll_Vote Poll_Drop [Dropped vdr] = Poll_Drop vdr"
  by (simp_all add: fun_eq_iff)

lemma fst_query_answered [simp]: "fst (query_answered i r q) = fst q"
  by (simp add: query_answered_def)

lemma query_poll_answered: "query_poll f (query_answered i r q) = (if fst q = i then respond Poll_Vote Poll_Drop [r] (query_poll f q) else query_poll f q)"
  by (simp add: query_poll_def query_answered_def respond_append)

lemma set_respond_queries:
  fixes i r
  assumes "holds_queries f s qs"
  defines "Q \<equiv> close_queries f ([], map (query_answered i r) qs)"
  shows "\<exists>s'. set_respond i (respond Poll_Vote Poll_Drop [r]) s = Some (s', map (Poll_Result \<circ> query_poll f) (fst Q)) \<and> holds_queries f s' (snd Q)"
proof -
  let ?pair = "\<lambda>q. (fst q, query_poll f q)" and ?qs = "map (query_answered i r) qs"
  have es: "respond_to i (respond Poll_Vote Poll_Drop [r]) (lh_entries (polls s)) = map ?pair ?qs"
    using assms(1) by (simp add: respond_to_def holds_queries_def query_poll_answered o_def)
  have w: "takeWhile (Poll_Finished \<circ> snd) (map ?pair ?qs) = map ?pair (fst Q)" "dropWhile (Poll_Finished \<circ> snd) (map ?pair ?qs) = map ?pair (snd Q)"
    by (simp_all add: Q_def close_queries_def takeWhile_map dropWhile_map o_def)
  have "lh_inv (polls s)" "head_waits (lh_entries (polls s))" using assms(1) unfolding holds_queries_def set_ok_def by blast+
  from set_respond_law [OF this, of i "respond Poll_Vote Poll_Drop [r]"] obtain s' where
    "set_respond i (respond Poll_Vote Poll_Drop [r]) s = Some (s', map (Poll_Result \<circ> snd) (map ?pair (fst Q)))"
    "lh_inv (polls s')" "lh_entries (polls s') = map ?pair (snd Q)" "factory s' = factory s" unfolding es w by blast
  moreover have "head_waits (map ?pair (snd Q))" unfolding w(2) [symmetric] by (rule head_waits_dropWhile)
  ultimately show ?thesis using assms(1) by (simp add: holds_queries_def set_ok_def o_def)
qed

text \<open>A run answers as the queries do: the ids that it opens follow those of the queries that were open, and its results are those of the
  queries that it closes.\<close>

definition run_matches :: "Factory \<Rightarrow> 'n poll_set \<Rightarrow> 'n query list \<times> 'n query list \<Rightarrow> 'n Set_call list \<Rightarrow> bool" where
  "run_matches f s Q cs \<longleftrightarrow> (\<exists>s' ids rs new. set_run s cs = Some (s', ids, rs) \<and> fst (fold (query_step f) cs Q) = fst Q @ new
     \<and> holds_queries f s' (snd (fold (query_step f) cs Q)) \<and> rs = map (Poll_Result \<circ> query_poll f) new
     \<and> map fst (snd Q) @ ids = map fst (new @ snd (fold (query_step f) cs Q)))"

lemma run_matches_respond:
  assumes "set_run s (c # cs) = (case set_respond i (respond Poll_Vote Poll_Drop [r]) s of None \<Rightarrow> None
      | Some (s', results) \<Rightarrow> map_option (map_prod id (map_prod id (\<lambda>rs. results @ rs))) (set_run s' cs))"
    and "query_step f c Q = close_queries f (fst Q, map (query_answered i r) (snd Q))" "holds_queries f s (snd Q)"
    and IH: "\<And>s Q. holds_queries f s (snd Q) \<Longrightarrow> run_matches f s Q cs"
  shows "run_matches f s Q (c # cs)"
proof -
  define T where "T = takeWhile (\<lambda>q. Poll_Finished (query_poll f q)) (map (query_answered i r) (snd Q))"
  define D where "D = dropWhile (\<lambda>q. Poll_Finished (query_poll f q)) (map (query_answered i r) (snd Q))"
  have step: "query_step f c Q = (fst Q @ T, D)" using assms(2) by (simp add: close_queries_def T_def D_def)
  have ids: "map fst T @ map fst D = map fst (snd Q)"
    unfolding T_def D_def map_append [symmetric] takeWhile_dropWhile_id by (simp add: query_answered_def)
  obtain s1 where s1: "set_respond i (respond Poll_Vote Poll_Drop [r]) s = Some (s1, map (Poll_Result \<circ> query_poll f) T)" "holds_queries f s1 D"
    using set_respond_queries [OF assms(3), of i r] by (auto simp: close_queries_def T_def D_def)
  from IH [of s1 "(fst Q @ T, D)"] s1(2) obtain s' ids' new where "set_run s1 cs = Some (s', ids', map (Poll_Result \<circ> query_poll f) new)"
    "fst (fold (query_step f) cs (fst Q @ T, D)) = (fst Q @ T) @ new" "holds_queries f s' (snd (fold (query_step f) cs (fst Q @ T, D)))"
    "map fst D @ ids' = map fst (new @ snd (fold (query_step f) cs (fst Q @ T, D)))" by (auto simp: run_matches_def)
  with s1(1) assms(1) step ids [symmetric] show ?thesis unfolding run_matches_def by (auto intro!: exI [of _ "T @ new"])
qed

lemma set_run_matches:
  assumes "holds_queries f s (snd Q)" "\<forall>c \<in> set cs. opens_waiting f c"
  shows "run_matches f s Q cs"
  using assms
proof (induction cs arbitrary: s Q)
  case (Cons c cs)
  have IH: "run_matches f s Q cs" if "holds_queries f s (snd Q)" for s Q using Cons that by simp
  show ?case
  proof (cases c)
    case (AddPoll i vdrs)
    obtain s1 b where sb: "set_Add i vdrs s = (s1, b)" by fastforce
    have fin: "\<not> Poll_Finished (Factory_New f vdrs)" using Cons.prems(2) AddPoll by simp
    note add = set_Add_queries [OF Cons.prems(1) fin, of i, unfolded sb fst_conv snd_conv]
    from IH [of s1 "query_step f c Q"] add(1) AddPoll have "run_matches f s1 (query_step f c Q) cs" by simp
    with AddPoll sb add(2) show ?thesis by (auto simp: run_matches_def split: if_splits)
  next
    case (VoteFor i vdr vote)
    show ?thesis by (rule run_matches_respond [OF _ _ Cons.prems(1) IH, of c i "Voted vdr vote"]) (simp_all add: VoteFor set_respond_Vote respond_single)
  next
    case (DropFor i vdr)
    show ?thesis by (rule run_matches_respond [OF _ _ Cons.prems(1) IH, of c i "Dropped vdr"]) (simp_all add: DropFor set_respond_Drop respond_single)
  qed
qed (simp add: run_matches_def)

lemma closed_finished:
  "list_all (Poll_Finished \<circ> query_poll f) (fst Q) \<Longrightarrow> list_all (Poll_Finished \<circ> query_poll f) (fst (fold (query_step f) cs Q))"
proof (induction cs arbitrary: Q)
  case (Cons c cs)
  have "list_all (Poll_Finished \<circ> query_poll f) (fst (query_step f c Q))"
    using Cons.prems by (cases c) (auto simp: close_queries_def list_all_iff dest: set_takeWhileD)
  from Cons.IH [OF this] show ?case by simp
qed simp

lemma NewSet_queries: "holds_queries f (NewSet f) []"
  by (simp add: NewSet_def holds_queries_def set_ok_def lhm.empty_law head_waits_def)

lemma early_term_cases:
  assumes "bag_inv (et_votes p)" "et_Finished p" "0 < et_alpha p"
  obtains "Len (et_polled p) = 0" | "Len (et_votes p) + Len (et_polled p) < et_alpha p"
    | y where "et_alpha p \<le> Count (et_votes p) y"
proof -
  obtain m freq where m: "Mode Empty_ID (et_votes p) = (m, freq)" by fastforce
  have "et_alpha p \<le> Count (et_votes p) m" if "et_alpha p \<le> freq"
    using Mode_Count [OF assms(1) m] that assms(3) by simp
  then show thesis using assms(2) that m by (auto simp: et_Finished_def Let_def split: if_splits)
qed

text \<open>(C31) A poll counts every validator once: after any responses, repeated and unasked ones among them, the result
  has for each block the number of places, among those asked, of the validators whose first response was a
  vote for the block. The poll that does not end early is finished when every asked validator has responded.\<close>

theorem poll_counts_first_votes:
  assumes "bag_inv vdrs"
  shows "Count (Poll_Result (respond Poll_Vote Poll_Drop rs (Factory_New f vdrs))) x
      = int (size {#v \<in># bag_mset vdrs. reply rs v = Some (Some x)#})
    \<and> (Poll_Finished (respond Poll_Vote Poll_Drop rs (Factory_New NoEarlyTermFactory vdrs))
        \<longleftrightarrow> (\<forall>v \<in># bag_mset vdrs. reply rs v \<noteq> None))"
proof -
  let ?p = "respond Poll_Vote Poll_Drop rs (Factory_New NoEarlyTermFactory vdrs)"
  note new = Factory_New_law(1) [OF assms]
  have "\<exists>q. respond Poll_Vote Poll_Drop rs (NoEarlyTerm p) = NoEarlyTerm q" for p :: "'a noEarlyTermPoll"
  proof (induction rs arbitrary: p)
    case (Cons r rs)
    then show ?case by (cases r) simp_all
  qed simp
  then obtain q where q: "?p = NoEarlyTerm q" by (metis Factory_New.simps(1))
  have wait: "bag_mset (net_polled q) = {#v \<in># bag_mset vdrs. reply rs v = None#}"
    using pl.respond_waiting [OF new, of rs NoEarlyTermFactory] q by (simp add: Factory_New_law del: Factory_New.simps)
  have "bag_inv (net_polled q)" using pl.respond_inv [OF new, of rs NoEarlyTermFactory] q by simp
  then have "Poll_Finished ?p \<longleftrightarrow> bag_mset (net_polled q) = {#}"
    using size_bag_mset [of "net_polled q"] q by (auto simp: net_Finished_def)
  moreover have "{#v \<in># M. reply rs v = None#} = {#} \<longleftrightarrow> (\<forall>v \<in># M. reply rs v \<noteq> None)" for M
    by (subst set_mset_eq_empty_iff [symmetric]) auto
  ultimately show ?thesis
    using pl.respond_counts [OF new, of rs f x] wait
    by (simp add: Factory_New_law Count_def empty_Bag_def del: Factory_New.simps)
qed

theorem poll_counts_first_votes_witness:
  "Count (Poll_Result (respond Poll_Vote Poll_Drop [Voted 1 Empty_ID, Voted 1 [], Dropped 2]
       (Factory_New NoEarlyTermFactory (Of [1, 1, 2::nat])))) Empty_ID
     = int (size {#v \<in># bag_mset (Of [1, 1, 2::nat]). reply [Voted 1 Empty_ID, Voted 1 [], Dropped 2] v = Some (Some Empty_ID)#})"
  using poll_counts_first_votes [OF bag_inv_Of] by blast

text \<open>(C30) Ending early is sound. When the early terminating poll reports that it is finished, no further responses
  change which block has an alpha majority in its result, given that alpha is more than half of the votes
  that were received or are still awaited.\<close>

theorem early_term_sound:
  assumes "bag_inv (et_votes p)" "bag_inv (et_polled p)" "et_Finished p"
    and "Len (et_votes p) + Len (et_polled p) < 2 * et_alpha p"
  shows "et_alpha p \<le> Count (et_votes (respond et_Vote et_Drop rs p)) x \<longleftrightarrow> et_alpha p \<le> Count (et_votes p) x"
proof -
  let ?q = "respond et_Vote et_Drop rs p"
  have inv: "bag_inv (et_votes p) \<and> bag_inv (et_polled p)" using assms by simp
  note grow = et.respond_bounds [OF inv, where rs = rs] and tot = et.respond_total [OF inv, where rs = rs]
  have inv': "bag_inv (et_votes ?q)" "0 \<le> Len (et_polled ?q)"
    using et.respond_inv [OF inv, of rs] by (simp_all add: Len_nonneg)
  have pos: "0 < et_alpha p" using assms(4) Len_nonneg [OF assms(1)] Len_nonneg [OF assms(2)] by simp
  have "et_alpha p \<le> Count (et_votes p) x" if x: "et_alpha p \<le> Count (et_votes ?q) x"
    using assms(1,3) pos
  proof (cases rule: early_term_cases)
    case 1
    then show ?thesis using grow(2) [of x] x by simp
  next
    case 2
    then show ?thesis using grow(2) [of x] x bag.cnt_le_size [OF assms(1), of x] by simp
  next
    case (3 y)
    then have "et_alpha p \<le> Count (et_votes ?q) y" using grow(1) [of y] by simp
    with bag.majority_unique [OF inv'(1) _ x] tot inv'(2) assms(4) have "y = x" by force
    with 3 show ?thesis by simp
  qed
  with grow(1) [of x] show ?thesis by auto
qed

theorem early_term_sound_witness:
  "3 \<le> Count (et_votes (respond et_Vote et_Drop [Voted 2 []] \<lparr>et_votes = Of [Empty_ID, Empty_ID, Empty_ID], et_polled = Of [2::nat], et_alpha = 3\<rparr>)) Empty_ID"
proof -
  let ?p = "\<lparr>et_votes = Of [Empty_ID, Empty_ID, Empty_ID], et_polled = Of [2::nat], et_alpha = 3\<rparr>"
  have "et_Finished ?p" "Len (et_votes ?p) + Len (et_polled ?p) < 2 * et_alpha ?p" "et_alpha ?p \<le> Count (et_votes ?p) Empty_ID"
    by code_simp+
  with early_term_sound [of ?p "[Voted 2 []]" Empty_ID] show ?thesis by (simp add: bag_inv_Of)
qed

text \<open>(C29) The set of polls hands its results over first in, first out. Take any run from a new set in which no poll is finished when it is
  added. All calls return. The queries that are closed are followed by the open ones in the order in which they were added. The results
  that were handed over are those of the closed queries, in this order, each the result of a poll of the
  validators that were asked and of the responses that came in for it until it was closed; and these polls are all finished. The set has
  the polls of the open queries, and the oldest of them is not finished, so that no result is held back but for an older poll.\<close>

theorem poll_set_fifo:
  assumes "\<forall>c \<in> set cs. opens_waiting f c"
  shows "\<exists>s ids rs closed pending. set_run (NewSet f) cs = Some (s, ids, rs) \<and> fold (query_step f) cs ([], []) = (closed, pending)
    \<and> ids = map fst (closed @ pending) \<and> rs = map (Poll_Result \<circ> query_poll f) closed \<and> list_all (Poll_Finished \<circ> query_poll f) closed
    \<and> lh_entries (polls s) = map (\<lambda>q. (fst q, query_poll f q)) pending \<and> set_Len s = int (length pending)
    \<and> (case lh_Oldest (polls s) of None \<Rightarrow> pending = [] | Some (_, p) \<Rightarrow> \<not> Poll_Finished p)"
proof -
  obtain closed pending where Q: "fold (query_step f) cs ([], []) = (closed, pending)" by fastforce
  from set_run_matches [of f "NewSet f" "([], [])" cs] NewSet_queries assms Q obtain s ids rs where
    run: "set_run (NewSet f) cs = Some (s, ids, rs)" "holds_queries f s pending" "rs = map (Poll_Result \<circ> query_poll f) closed"
    "ids = map fst (closed @ pending)" by (auto simp: run_matches_def)
  have s: "lh_inv (polls s)" "head_waits (lh_entries (polls s))" "lh_entries (polls s) = map (\<lambda>q. (fst q, query_poll f q)) pending"
    using run(2) unfolding holds_queries_def set_ok_def by blast+
  then have "set_Len s = int (length pending)" by (simp add: set_Len_def lhm.len_law)
  moreover have "case lh_Oldest (polls s) of None \<Rightarrow> pending = [] | Some (_, p) \<Rightarrow> \<not> Poll_Finished p"
    using s by (auto simp: lhm.oldest_law [OF s(1)] head_waits_def split: list.splits)
  moreover have "list_all (Poll_Finished \<circ> query_poll f) closed" using closed_finished [of f "([], [])" cs] Q by simp
  ultimately show ?thesis using run Q s(3) by blast
qed

theorem poll_set_fifo_witness:
  "\<exists>s. set_run (NewSet NoEarlyTermFactory) [AddPoll 5 (Of [1::nat]), AddPoll 6 (Of [1, 2]), VoteFor 6 1 Empty_ID, VoteFor 5 1 Empty_ID]
      = Some (s, [5, 6], [Poll_Result (query_poll NoEarlyTermFactory (5, Of [1::nat], [Voted 1 Empty_ID]))]) \<and> set_Len s = 1"
proof -
  let ?cs = "[AddPoll 5 (Of [1::nat]), AddPoll 6 (Of [1, 2]), VoteFor 6 1 Empty_ID, VoteFor 5 1 Empty_ID]"
  have "\<forall>c \<in> set ?cs. opens_waiting NoEarlyTermFactory c" by code_simp
  from poll_set_fifo [OF this] obtain s ids rs closed pending where
    run: "set_run (NewSet NoEarlyTermFactory) ?cs = Some (s, ids, rs)" "fold (query_step NoEarlyTermFactory) ?cs ([], []) = (closed, pending)"
    "ids = map fst (closed @ pending)" "rs = map (Poll_Result \<circ> query_poll NoEarlyTermFactory) closed" "set_Len s = int (length pending)" by blast
  have "fold (query_step NoEarlyTermFactory) ?cs ([], []) = ([(5, Of [1], [Voted 1 Empty_ID])], [(6, Of [1, 2], [Voted 1 Empty_ID])])" by code_simp
  then have cp: "closed = [(5, Of [1], [Voted 1 Empty_ID])]" "pending = [(6, Of [1, 2], [Voted 1 Empty_ID])]" using run(2) by (simp_all only: prod.inject)
  have "ids = [5, 6]" "set_Len s = 1" "rs = [Poll_Result (query_poll NoEarlyTermFactory (5, Of [1::nat], [Voted 1 Empty_ID]))]"
    unfolding run(3-5) cp by simp_all
  with run(1) show ?thesis by blast
qed

end
