(* ===== verification/Uniform_Sampler.thy ===== *)
theory Uniform_Sampler
  imports SafeMath
begin

text \<open>
  Drawing numbers at random: \<^verbatim>\<open>utils/sampler/rand.go\<close>, which turns the raw numbers of a generator into numbers
  of a range, and the two samplers that draw without replacement, \<^verbatim>\<open>uniform_replacer.go\<close> and
  \<^verbatim>\<open>uniform_resample.go\<close>. The generator is a library the sources only call: its outputs are a list of raw
  64 bit numbers that is handed through the calls, so a theorem about all lists is a theorem about all
  outcomes. A call that needs more numbers than the list has is the error \<open>Awaits_source\<close>: the source would
  ask the generator again. The seeded generator differs from the global one in its numbers only. The error
  \<open>Index_out_of_range\<close> stands for the panic of an access outside a slice.
\<close>

datatype sampler_error = ErrOutOfRange | errWeightsTooLarge | errNoValidWeightedSamplers
  | Math math_error | Awaits_source | Index_out_of_range

subsection \<open>Numbers of a range\<close>

definition MaxInt64 :: u64 where
  "MaxInt64 = 0x7FFFFFFFFFFFFFFF"

definition rng_uint63 :: "u64 \<Rightarrow> u64" where
  "rng_uint63 raw = raw AND MaxInt64"

fun reject_loop :: "(u64 \<Rightarrow> u64) \<Rightarrow> u64 \<Rightarrow> u64 list \<Rightarrow> sampler_error + u64 \<times> u64 list" where
  "reject_loop f mx [] = Inl Awaits_source"
| "reject_loop f mx (raw # raws) = (if f raw > mx then reject_loop f mx raws else Inr (f raw, raws))"

definition Uint64Inclusive :: "u64 \<Rightarrow> u64 list \<Rightarrow> sampler_error + u64 \<times> u64 list" where
  "Uint64Inclusive n raws =
     (if n AND (n + 1) = 0 then (case raws of [] \<Rightarrow> Inl Awaits_source | raw # rest \<Rightarrow> Inr (raw AND n, rest))
      else if n > MaxInt64 then reject_loop (\<lambda>raw. raw) n raws
      else let mx = (push_bit 63 1 - 1) - push_bit 63 1 mod (n + 1)
           in res_bind (reject_loop rng_uint63 mx raws) (\<lambda>(v, rest). Inr (v mod (n + 1), rest)))"

subsection \<open>Sampling without replacement\<close>

record uniformReplacer =
  ur_length :: u64
  ur_drawn :: "u64 \<rightharpoonup> u64"
  ur_drawsCount :: u64

definition defaultMap_get :: "(u64 \<rightharpoonup> u64) \<Rightarrow> u64 \<Rightarrow> u64 \<Rightarrow> u64" where
  "defaultMap_get m key defaultVal = (case m key of Some val \<Rightarrow> val | None \<Rightarrow> defaultVal)"

definition ur_Initialize :: "u64 \<Rightarrow> uniformReplacer" where
  "ur_Initialize len = \<lparr>ur_length = len, ur_drawn = Map.empty, ur_drawsCount = 0\<rparr>"

definition ur_Reset :: "uniformReplacer \<Rightarrow> uniformReplacer" where
  "ur_Reset s = s\<lparr>ur_drawn := Map.empty, ur_drawsCount := 0\<rparr>"

definition ur_Next :: "uniformReplacer \<Rightarrow> u64 list \<Rightarrow> sampler_error + u64 \<times> uniformReplacer \<times> u64 list" where
  "ur_Next s raws =
     (if ur_drawsCount s \<ge> ur_length s then Inl ErrOutOfRange
      else res_bind (Uint64Inclusive (ur_length s - 1 - ur_drawsCount s) raws) (\<lambda>(v, rest).
        let draw = v + ur_drawsCount s;
            ret = defaultMap_get (ur_drawn s) draw draw
        in Inr (ret, s\<lparr>ur_drawn := (ur_drawn s)(draw \<mapsto> defaultMap_get (ur_drawn s) (ur_drawsCount s) (ur_drawsCount s)),
                       ur_drawsCount := ur_drawsCount s + 1\<rparr>, rest)))"

record uniformResample =
  rs_length :: u64
  rs_drawn :: "u64 list"

definition rs_Initialize :: "u64 \<Rightarrow> uniformResample" where
  "rs_Initialize len = \<lparr>rs_length = len, rs_drawn = []\<rparr>"

definition rs_Reset :: "uniformResample \<Rightarrow> uniformResample" where
  "rs_Reset s = s\<lparr>rs_drawn := []\<rparr>"

lemma reject_loop_consumes: "reject_loop f mx raws = Inr (v, rest) \<Longrightarrow> length rest < length raws"
  by (induction f mx raws rule: reject_loop.induct) (auto split: if_splits)

lemma Uint64Inclusive_consumes [termination_simp]:
  "Uint64Inclusive n raws = Inr (v, rest) \<Longrightarrow> length rest < length raws"
  by (auto simp: Uint64Inclusive_def Let_def res_bind_Inr_iff dest: reject_loop_consumes split: if_splits list.splits)

text \<open>The loop of \<^verbatim>\<open>Next\<close> that draws until it finds a number that has not been drawn.\<close>

function rs_loop :: "u64 \<Rightarrow> u64 list \<Rightarrow> u64 list \<Rightarrow> sampler_error + u64 \<times> u64 list" where
  "rs_loop len drawn raws =
     (case Uint64Inclusive (len - 1) raws of
        Inl e \<Rightarrow> Inl e
      | Inr (draw, rest) \<Rightarrow> if draw \<in> set drawn then rs_loop len drawn rest else Inr (draw, rest))"
  by pat_completeness auto
termination by (relation "measure (\<lambda>(_, _, raws). length raws)") (auto dest!: Uint64Inclusive_consumes)

declare rs_loop.simps [simp del]

definition rs_Next :: "uniformResample \<Rightarrow> u64 list \<Rightarrow> sampler_error + u64 \<times> uniformResample \<times> u64 list" where
  "rs_Next s raws =
     (if of_nat (length (rs_drawn s)) \<ge> rs_length s then Inl ErrOutOfRange
      else res_bind (rs_loop (rs_length s) (rs_drawn s) raws) (\<lambda>(draw, rest).
        Inr (draw, s\<lparr>rs_drawn := draw # rs_drawn s\<rparr>, rest)))"

text \<open>The loop of \<^verbatim>\<open>Sample\<close>, the same in both samplers.\<close>

fun sample_loop :: "('s \<Rightarrow> u64 list \<Rightarrow> sampler_error + u64 \<times> 's \<times> u64 list) \<Rightarrow> nat \<Rightarrow> 's \<Rightarrow> u64 list
    \<Rightarrow> sampler_error + u64 list \<times> 's \<times> u64 list" where
  "sample_loop nxt 0 s raws = Inr ([], s, raws)"
| "sample_loop nxt (Suc n) s raws =
     res_bind (nxt s raws) (\<lambda>(ret, s', rest).
       res_bind (sample_loop nxt n s' rest) (\<lambda>(rets, s'', rest'). Inr (ret # rets, s'', rest')))"

definition ur_Sample :: "nat \<Rightarrow> uniformReplacer \<Rightarrow> u64 list \<Rightarrow> sampler_error + u64 list \<times> uniformReplacer \<times> u64 list" where
  "ur_Sample cnt s raws = sample_loop ur_Next cnt (ur_Reset s) raws"

definition rs_Sample :: "nat \<Rightarrow> uniformResample \<Rightarrow> u64 list \<Rightarrow> sampler_error + u64 list \<times> uniformResample \<times> u64 list" where
  "rs_Sample cnt s raws = sample_loop rs_Next cnt (rs_Reset s) raws"

subsection \<open>The range of a draw\<close>

lemma reject_loop_ok: "reject_loop f mx raws = Inr (v, rest) \<Longrightarrow> v \<le> mx \<and> (\<exists>raw \<in> set raws. v = f raw)"
  by (induction f mx raws rule: reject_loop.induct) (auto split: if_splits)

lemma reject_loop_errors: "reject_loop f mx raws = Inl e \<Longrightarrow> e = Awaits_source \<and> (\<forall>raw \<in> set raws. mx < f raw)"
  by (induction f mx raws rule: reject_loop.induct) (auto split: if_splits)

lemma Uint64Inclusive_le: "Uint64Inclusive n raws = Inr (v, rest) \<Longrightarrow> v \<le> n"
proof -
  assume run: "Uint64Inclusive n raws = Inr (v, rest)"
  show ?thesis
  proof (cases "n AND (n + 1) = 0")
    case True
    with run obtain raw where "v = raw AND n" by (auto simp: Uint64Inclusive_def split: list.splits)
    then show ?thesis by (simp add: word_and_le1)
  next
    case False
    show ?thesis
    proof (cases "n > MaxInt64")
      case True
      with False run show ?thesis by (auto simp: Uint64Inclusive_def dest: reject_loop_ok)
    next
      case nle: False
      then have "n + 1 \<noteq> 0" using False by auto
      moreover obtain v' where "v = v' mod (n + 1)"
        using run False nle by (auto simp: Uint64Inclusive_def Let_def res_bind_Inr_iff)
      ultimately have "v < n + 1" by (simp add: word_mod_less_divisor word_neq_0_conv)
      then show ?thesis using \<open>n + 1 \<noteq> 0\<close> by (simp add: word_less_nat_alt word_le_nat_alt unat_word_ariths split: if_splits)
    qed
  qed
qed

lemma Uint64Inclusive_errors: "Uint64Inclusive n raws = Inl e \<Longrightarrow> e = Awaits_source"
  by (auto simp: Uint64Inclusive_def Let_def res_bind_Inl_iff split: if_splits list.splits dest: reject_loop_errors)

subsection \<open>Draws are unbiased\<close>

lemma card_words: "card {raw :: u64. P (unat raw)} = card {x. x < 2 ^ 64 \<and> P x}"
proof -
  have inj: "inj_on unat {raw :: u64. P (unat raw)}" by (rule inj_onI) (simp add: word_unat_eq_iff)
  have img: "unat ` {raw :: u64. P (unat raw)} = {x. x < 2 ^ 64 \<and> P x}"
  proof (intro set_eqI iffI)
    fix x assume x: "x \<in> {x. x < 2 ^ 64 \<and> P x}"
    then have "unat (of_nat x :: u64) = x" by (simp add: unsigned_of_nat take_bit_eq_mod)
    with x show "x \<in> unat ` {raw :: u64. P (unat raw)}" by (metis (mono_tags) image_eqI mem_Collect_eq)
  qed (use unat_u64_less in auto)
  show ?thesis using card_image [OF inj] by (simp add: img)
qed

lemma unat_and_mask: "unat (w AND mask k :: u64) = unat w mod 2 ^ k"
proof -
  have "unat (w AND mask k) = take_bit k (unat w)" by (simp only: take_bit_eq_mask [symmetric] unsigned_take_bit_eq)
  then show ?thesis by (simp only: take_bit_eq_mod)
qed

lemma unat_mask_64:
  assumes "k \<le> 64"
  shows "unat (mask k :: u64) = 2 ^ k - 1"
proof -
  have pow: "(2 :: nat) ^ 64 = 2 ^ k * 2 ^ (64 - k)" using assms by (simp add: power_add [symmetric])
  obtain c where c: "2 ^ (64 - k) = Suc c" using not0_implies_Suc [of "2 ^ (64 - k) :: nat"] by auto
  have one: "1 \<le> (2 :: nat) ^ k" by simp
  have "unat (mask k :: u64) = unat (- 1 AND mask k :: u64)" by simp
  also have "\<dots> = unat (- 1 :: u64) mod 2 ^ k" by (rule unat_and_mask)
  also have "unat (- 1 :: u64) = 2 ^ 64 - 1" by (simp add: unat_minus_one_word)
  also have "(2 :: nat) ^ 64 - 1 = 2 ^ k * c + (2 ^ k - 1)" using one unfolding pow c mult_Suc_right by linarith
  also have "(2 ^ k * c + (2 ^ k - 1)) mod 2 ^ k = (2 ^ k - 1 :: nat)"
    unfolding mod_mult_self4 by (rule mod_less) (use one in linarith)
  finally show ?thesis .
qed

lemma card_residues:
  assumes "r < m"
  shows "card {x :: nat. x < m * q \<and> x mod m = r} = q"
proof -
  have "{x. x < m * q \<and> x mod m = r} = (\<lambda>j. r + m * j) ` {..<q}"
  proof (intro set_eqI iffI)
    fix x assume x: "x \<in> {x. x < m * q \<and> x mod m = r}"
    then have "x = r + m * (x div m)" "x div m < q" using assms by (auto simp: less_mult_imp_div_less mult.commute)
    then show "x \<in> (\<lambda>j. r + m * j) ` {..<q}" by blast
  next
    fix x assume "x \<in> (\<lambda>j. r + m * j) ` {..<q}"
    then obtain j where j: "x = r + m * j" "j < q" by auto
    then have "m * j + m \<le> m * q" by (metis Suc_leI mult_Suc_right add.commute mult_le_mono2)
    with j assms show "x \<in> {x. x < m * q \<and> x mod m = r}" by simp
  qed
  moreover have "inj_on (\<lambda>j. r + m * j) {..<q}" using assms by (auto intro: inj_onI)
  ultimately show ?thesis by (simp add: card_image)
qed

lemma nat_mask_of_and_Suc: "(N :: nat) AND Suc N = 0 \<Longrightarrow> \<exists>k. N = 2 ^ k - 1"
proof (induction N rule: less_induct)
  case (less N)
  show ?case
  proof (cases "even N")
    case True
    then obtain M where M: "N = 2 * M" by blast
    have "M AND M = M" by simp
    then have "N AND Suc N = N" unfolding M by (subst and_rec) auto
    with less.prems have "N = 0" by simp
    then show ?thesis by (auto intro: exI [of _ 0])
  next
    case False
    then obtain M where M: "N = 2 * M + 1" using oddE by blast
    have "N AND Suc N = 2 * (M AND Suc M)" unfolding M by (subst and_rec) auto
    with less.prems less.IH [of M] M obtain k where "M = 2 ^ k - 1" by auto
    moreover have "1 \<le> (2 :: nat) ^ k" by simp
    ultimately have "N = 2 ^ Suc k - 1" unfolding M power_Suc by linarith
    then show ?thesis by blast
  qed
qed

lemma mask_of_and_plus_1:
  assumes "(n :: u64) AND (n + 1) = 0"
  shows "\<exists>k \<le> 64. n = mask k"
proof (cases "n = - 1")
  case True
  have "(- 1 :: u64) = mask 64" by (simp add: mask_eq_exp_minus_1)
  with True show ?thesis by blast
next
  case False
  moreover have "unat (- 1 :: u64) = 2 ^ 64 - 1" by (simp add: unat_minus_one_word)
  ultimately have "unat n \<noteq> 2 ^ 64 - 1" by (metis word_unat_eq_iff)
  then have N1: "unat (n + 1) = Suc (unat n)" using unat_u64_less [of n] by (simp add: unat_word_ariths)
  have "unat n AND Suc (unat n) = unat (n AND (n + 1))" by (simp add: unsigned_and_eq N1)
  then have "unat n AND Suc (unat n) = 0" by (simp add: assms)
  then obtain k where k: "unat n = 2 ^ k - 1" using nat_mask_of_and_Suc by blast
  have "2 ^ k \<le> (2 :: nat) ^ 64" using k unat_u64_less [of n] by simp
  then have "k \<le> 64" by (rule power_le_imp_le_exp [rotated]) simp
  moreover have "unat (mask k :: u64) = 2 ^ k - 1"
    using \<open>k \<le> 64\<close> by (rule unat_mask_64)
  ultimately show ?thesis using k by (metis unsigned_word_eqI)
qed

text \<open>The numbers that lead to a given result: how many there are does not depend on the result.\<close>

lemma draws_mask:
  assumes "k \<le> 64" "r \<le> (mask k :: u64)"
  shows "card {raw :: u64. raw AND mask k = r} = 2 ^ (64 - k)"
proof -
  have "raw AND mask k = r \<longleftrightarrow> unat raw mod 2 ^ k = unat r" for raw :: u64
    by (simp only: word_unat_eq_iff unat_and_mask)
  then have "card {raw :: u64. raw AND mask k = r} = card {x. x < 2 ^ 64 \<and> x mod 2 ^ k = unat r}"
    using card_words [of "\<lambda>x. x mod 2 ^ k = unat r"] by simp
  also have "(2 :: nat) ^ 64 = 2 ^ k * 2 ^ (64 - k)" using assms(1) by (simp add: power_add [symmetric])
  finally have "card {raw :: u64. raw AND mask k = r} = card {x. x < 2 ^ k * 2 ^ (64 - k) \<and> x mod 2 ^ k = unat r}" .
  moreover have "unat (mask k :: u64) = 2 ^ k - 1"
    using assms(1) by (rule unat_mask_64)
  then have "unat r \<le> 2 ^ k - 1" using assms(2) by (simp add: word_le_nat_alt)
  then have "unat r < 2 ^ k" using one_le_power [of "2 :: nat" k] by linarith
  ultimately show ?thesis using card_residues [of "unat r" "2 ^ k" "2 ^ (64 - k)"] by simp
qed

lemma card_two_halves: "card {x :: nat. x < 2 * m \<and> P (x mod m)} = 2 * card {y. y < m \<and> P y}"
proof -
  let ?S = "{y. y < m \<and> P y}"
  have "{x :: nat. x < 2 * m \<and> P (x mod m)} = ?S \<union> (\<lambda>y. y + m) ` ?S"
  proof (intro set_eqI iffI)
    fix x assume x: "x \<in> {x. x < 2 * m \<and> P (x mod m)}"
    show "x \<in> ?S \<union> (\<lambda>y. y + m) ` ?S"
    proof (cases "x < m")
      case False
      with x have "x = (x mod m) + m" "x mod m < m" by (auto simp: le_mod_geq not_less)
      with x show ?thesis by blast
    qed (use x in simp)
  qed auto
  moreover have "?S \<inter> (\<lambda>y. y + m) ` ?S = {}" by auto
  moreover have "card ((\<lambda>y. y + m) ` ?S) = card ?S" by (rule card_image) simp
  moreover have "finite ?S" by simp
  ultimately show ?thesis by (simp add: card_Un_disjoint)
qed

lemma draws_modulo:
  fixes n r :: u64
  assumes "n \<le> MaxInt64" "r \<le> n"
  defines "mx \<equiv> (push_bit 63 1 - 1) - push_bit 63 1 mod (n + 1) :: u64"
  shows "card {raw. rng_uint63 raw \<le> mx \<and> rng_uint63 raw mod (n + 1) = r} = 2 * (2 ^ 63 div (unat n + 1))"
proof -
  let ?m = "unat n + 1"
  define q where "q = (2 :: nat) ^ 63 div ?m"
  have n: "unat n < 2 ^ 63" using assms(1) by (simp add: MaxInt64_def word_le_nat_alt)
  then have n1: "unat (n + 1) = ?m" by (simp add: unat_word_ariths)
  have top: "unat (push_bit 63 1 :: u64) = 2 ^ 63" by (simp add: push_bit_eq_mult)
  have rest: "unat (push_bit 63 1 mod (n + 1) :: u64) = 2 ^ 63 mod ?m" by (simp only: unat_mod top n1)
  have "2 ^ 63 mod ?m \<le> unat n" using mod_less_divisor [of ?m "2 ^ 63"] by simp
  then have small: "2 ^ 63 mod ?m \<le> 2 ^ 63 - 1" using n by linarith
  have top1: "unat (push_bit 63 1 - 1 :: u64) = 2 ^ 63 - 1" by (simp add: push_bit_eq_mult)
  have mx: "unat mx = 2 ^ 63 - 1 - 2 ^ 63 mod ?m"
    unfolding mx_def by (subst unat_sub) (simp_all only: word_le_nat_alt rest top1 small)
  have split: "2 ^ 63 = ?m * q + 2 ^ 63 mod ?m" unfolding q_def by (rule mult_div_mod_eq [symmetric])
  have accept: "y \<le> unat mx \<longleftrightarrow> y < ?m * q" if "y < 2 ^ 63" for y
    using mx split \<open>2 ^ 63 mod ?m \<le> unat n\<close> n by linarith
  have u63: "unat (rng_uint63 raw) = unat raw mod 2 ^ 63" for raw :: u64
  proof -
    have "MaxInt64 = (mask 63 :: u64)" by (simp add: MaxInt64_def mask_eq_exp_minus_1)
    then show ?thesis using unat_and_mask [of raw 63] by (simp add: rng_uint63_def)
  qed
  have "rng_uint63 raw \<le> mx \<and> rng_uint63 raw mod (n + 1) = r
      \<longleftrightarrow> unat raw mod 2 ^ 63 < ?m * q \<and> (unat raw mod 2 ^ 63) mod ?m = unat r" for raw
    using accept [of "unat raw mod 2 ^ 63"] by (simp add: word_le_nat_alt word_unat_eq_iff unat_mod n1 u63)
  then have "card {raw. rng_uint63 raw \<le> mx \<and> rng_uint63 raw mod (n + 1) = r}
      = card {x. x < 2 ^ 64 \<and> (x mod 2 ^ 63 < ?m * q \<and> (x mod 2 ^ 63) mod ?m = unat r)}"
    using card_words [of "\<lambda>x. x mod 2 ^ 63 < ?m * q \<and> (x mod 2 ^ 63) mod ?m = unat r"] by simp
  also have "(2 :: nat) ^ 64 = 2 * 2 ^ 63" by simp
  also have "card {x. x < 2 * 2 ^ 63 \<and> (x mod 2 ^ 63 < ?m * q \<and> (x mod 2 ^ 63) mod ?m = unat r)}
      = 2 * card {y. y < 2 ^ 63 \<and> (y < ?m * q \<and> y mod ?m = unat r)}"
    by (rule card_two_halves)
  also have "{y. y < 2 ^ 63 \<and> (y < ?m * q \<and> y mod ?m = unat r)} = {y. y < ?m * q \<and> y mod ?m = unat r}"
    using split by (auto simp: less_le_trans)
  also have "card \<dots> = q" using assms(2) by (intro card_residues) (simp add: word_le_nat_alt)
  finally show ?thesis by (simp add: q_def)
qed

lemma Uint64Inclusive_step:
  "Uint64Inclusive n (raw # raws) =
     (case Uint64Inclusive n [raw] of Inr (v, _) \<Rightarrow> Inr (v, raws) | Inl _ \<Rightarrow> Uint64Inclusive n raws)"
  by (auto simp: Uint64Inclusive_def Let_def split: if_splits)

lemma draws_count:
  assumes "r \<le> n"
  shows "card {raw. Uint64Inclusive n [raw] = Inr (r, [])} =
    (if n AND (n + 1) = 0 then 2 ^ 64 div (unat n + 1) else if n > MaxInt64 then 1 else 2 * (2 ^ 63 div (unat n + 1)))"
proof (cases "n AND (n + 1) = 0")
  case True
  then obtain k where k: "k \<le> 64" "n = mask k" using mask_of_and_plus_1 by blast
  have "{raw. Uint64Inclusive n [raw] = Inr (r, [])} = {raw. raw AND mask k = r}"
    using True k(2) by (simp add: Uint64Inclusive_def)
  moreover have "unat n + 1 = 2 ^ k" using k by (simp add: unat_mask_64)
  moreover have "(2 :: nat) ^ 64 = 2 ^ k * 2 ^ (64 - k)" using k(1) by (simp add: power_add [symmetric])
  then have "(2 :: nat) ^ 64 div 2 ^ k = 2 ^ (64 - k)" by (simp only: nonzero_mult_div_cancel_left power_not_zero zero_neq_numeral [symmetric] simp_thms)
  ultimately show ?thesis using draws_mask [OF k(1)] assms k(2) True by simp
next
  case False
  show ?thesis
  proof (cases "n > MaxInt64")
    case True
    then have "{raw. Uint64Inclusive n [raw] = Inr (r, [])} = {r}"
      using False assms by (auto simp: Uint64Inclusive_def split: if_splits)
    then show ?thesis using False True by simp
  next
    case nle: False
    then have "n \<le> MaxInt64" by simp
    moreover have "{raw. Uint64Inclusive n [raw] = Inr (r, [])} = {raw.
        rng_uint63 raw \<le> (push_bit 63 1 - 1) - push_bit 63 1 mod (n + 1) \<and> rng_uint63 raw mod (n + 1) = r}"
      using False nle by (auto simp: Uint64Inclusive_def Let_def split: if_splits)
    ultimately show ?thesis using draws_modulo [of n r] assms False nle by simp
  qed
qed

text \<open>Draws from a range are unbiased. A raw number is accepted or skipped whatever came before it, and every
  number up to the bound is the result of equally many, and of at least one, of the raw numbers.\<close>

theorem draws_unbiased:
  assumes "r \<le> n"
  shows "card {raw. Uint64Inclusive n [raw] = Inr (r, [])} = card {raw. Uint64Inclusive n [raw] = Inr (0, [])}
    \<and> 0 < card {raw. Uint64Inclusive n [raw] = Inr (r, [])}
    \<and> Uint64Inclusive n (raw # raws) =
        (case Uint64Inclusive n [raw] of Inr (v, _) \<Rightarrow> Inr (v, raws) | Inl _ \<Rightarrow> Uint64Inclusive n raws)
    \<and> (\<forall>v rest. Uint64Inclusive n raws = Inr (v, rest) \<longrightarrow> v \<le> n)"
proof -
  have "0 < 2 ^ 64 div (unat n + 1)" using unat_u64_less [of n] by (simp add: div_greater_zero_iff)
  moreover have "0 < 2 ^ 63 div (unat n + 1)" if "\<not> n > MaxInt64"
    using that by (simp add: div_greater_zero_iff MaxInt64_def word_less_nat_alt)
  ultimately have "0 < card {raw. Uint64Inclusive n [raw] = Inr (r, [])}" using draws_count [OF assms] by auto
  moreover have "card {raw. Uint64Inclusive n [raw] = Inr (r, [])} = card {raw. Uint64Inclusive n [raw] = Inr (0, [])}"
    unfolding draws_count [OF assms] draws_count [OF word_zero_le] ..
  ultimately show ?thesis using Uint64Inclusive_step Uint64Inclusive_le by blast
qed

theorem draws_unbiased_witness:
  "card {raw. Uint64Inclusive 5 [raw] = Inr (3, [])} = card {raw. Uint64Inclusive 5 [raw] = Inr (0, [])}"
proof -
  have "(3 :: u64) \<le> 5" by simp
  from draws_unbiased [OF this] show ?thesis by (rule conjunct1)
qed

subsection \<open>The replacer is a lazy shuffle\<close>

text \<open>The numbers still to be drawn, in the order of the virtual array: a draw takes one of them and puts the first
  in its place.\<close>

definition remaining_list :: "uniformReplacer \<Rightarrow> u64 list" where
  "remaining_list s = map (\<lambda>p. defaultMap_get (ur_drawn s) (of_nat p) (of_nat p)) [unat (ur_drawsCount s) ..< unat (ur_length s)]"

definition take_at :: "nat \<Rightarrow> 'a list \<Rightarrow> 'a list" where
  "take_at d xs = tl (xs[d := hd xs])"

lemma take_at_mset: "d < length xs \<Longrightarrow> mset xs = add_mset (xs ! d) (mset (take_at d xs))"
proof (cases d)
  case 0
  assume "d < length xs"
  with 0 show ?thesis by (cases xs) (auto simp: take_at_def)
next
  case (Suc e)
  assume "d < length xs"
  with Suc obtain x ys where "xs = x # ys" "e < length ys" by (cases xs) auto
  with Suc show ?thesis by (simp add: take_at_def mset_update)
qed

lemma length_take_at [simp]: "length (take_at d xs) = length xs - 1"
  by (simp add: take_at_def)

lemma length_remaining_list: "length (remaining_list s) = unat (ur_length s) - unat (ur_drawsCount s)"
  by (simp add: remaining_list_def)

lemma nth_remaining_list:
  "i < length (remaining_list s) \<Longrightarrow> remaining_list s ! i
     = defaultMap_get (ur_drawn s) (of_nat (unat (ur_drawsCount s) + i)) (of_nat (unat (ur_drawsCount s) + i))"
  by (simp add: remaining_list_def)

lemma nth_take_at: "Suc i < length xs \<Longrightarrow> d < length xs \<Longrightarrow> take_at d xs ! i = (if Suc i = d then hd xs else xs ! Suc i)"
  by (simp add: take_at_def nth_tl nth_list_update)

definition ur_draw :: "u64 \<Rightarrow> uniformReplacer \<Rightarrow> uniformReplacer" where
  "ur_draw v s = s\<lparr>ur_drawn := (ur_drawn s)(v + ur_drawsCount s \<mapsto> defaultMap_get (ur_drawn s) (ur_drawsCount s) (ur_drawsCount s)),
                    ur_drawsCount := ur_drawsCount s + 1\<rparr>"

lemma ur_Next_eq:
  "ur_Next s raws = (if remaining_list s = [] then Inl ErrOutOfRange
     else res_bind (Uint64Inclusive (ur_length s - 1 - ur_drawsCount s) raws) (\<lambda>(v, rest).
       Inr (defaultMap_get (ur_drawn s) (v + ur_drawsCount s) (v + ur_drawsCount s), ur_draw v s, rest)))"
  by (auto simp: ur_Next_def remaining_list_def word_le_nat_alt Let_def ur_draw_def cong: res_bind_cong)

lemma range_left:
  assumes "remaining_list s \<noteq> []"
  shows "unat (ur_length s - 1 - ur_drawsCount s) = length (remaining_list s) - 1"
proof -
  have dc: "unat (ur_drawsCount s) < unat (ur_length s)" using assms by (simp add: remaining_list_def)
  then have "unat (ur_length s - 1) = unat (ur_length s) - 1"
    by (subst unat_sub) (simp_all add: word_le_nat_alt)
  with dc show ?thesis by (subst unat_sub) (simp_all add: word_le_nat_alt length_remaining_list)
qed

lemma ur_draw_refines:
  assumes "unat v < length (remaining_list s)"
  shows "defaultMap_get (ur_drawn s) (v + ur_drawsCount s) (v + ur_drawsCount s) = remaining_list s ! unat v"
    "remaining_list (ur_draw v s) = take_at (unat v) (remaining_list s)"
proof -
  let ?dc = "unat (ur_drawsCount s)"
  have len: "?dc + unat v < unat (ur_length s)" using assms by (simp add: length_remaining_list)
  have pos: "of_nat (?dc + unat v) = v + ur_drawsCount s" by (simp add: add.commute)
  show "defaultMap_get (ur_drawn s) (v + ur_drawsCount s) (v + ur_drawsCount s) = remaining_list s ! unat v"
    using nth_remaining_list [OF assms] unfolding pos by simp
  have dc1: "unat (ur_drawsCount s + 1) = ?dc + 1"
    using len unat_u64_less [of "ur_length s"] by (simp add: unat_word_ariths)
  have fits: "unat (of_nat p :: u64) = p" if "p < unat (ur_length s)" for p
    using that unat_u64_less [of "ur_length s"] by (simp add: unsigned_of_nat take_bit_eq_mod)
  show "remaining_list (ur_draw v s) = take_at (unat v) (remaining_list s)"
  proof (rule nth_equalityI)
    show "length (remaining_list (ur_draw v s)) = length (take_at (unat v) (remaining_list s))"
      by (simp add: length_remaining_list ur_draw_def dc1)
    fix i assume "i < length (remaining_list (ur_draw v s))"
    then have i: "Suc i < length (remaining_list s)" by (simp add: length_remaining_list ur_draw_def dc1)
    then have "of_nat (?dc + 1 + i) = v + ur_drawsCount s \<longleftrightarrow> Suc i = unat v"
      unfolding pos [symmetric] using fits [of "?dc + 1 + i"] fits [of "?dc + unat v"] len
      by (auto simp: length_remaining_list word_unat_eq_iff)
    moreover have "hd (remaining_list s) = defaultMap_get (ur_drawn s) (ur_drawsCount s) (ur_drawsCount s)"
    proof -
      have "remaining_list s \<noteq> []" using i by auto
      then show ?thesis using nth_remaining_list [of 0 s] by (simp add: hd_conv_nth)
    qed
    moreover have "remaining_list s ! Suc i
        = defaultMap_get (ur_drawn s) (of_nat (?dc + 1 + i)) (of_nat (?dc + 1 + i))"
      using nth_remaining_list [OF i] by simp
    moreover have "remaining_list (ur_draw v s) ! i
        = defaultMap_get (ur_drawn (ur_draw v s)) (of_nat (?dc + 1 + i)) (of_nat (?dc + 1 + i))"
      using nth_remaining_list [of i "ur_draw v s"] i by (simp add: length_remaining_list ur_draw_def dc1)
    ultimately show "remaining_list (ur_draw v s) ! i = take_at (unat v) (remaining_list s) ! i"
      using i assms by (auto simp: nth_take_at ur_draw_def defaultMap_get_def)
  qed
qed

lemma remaining_list_new: "remaining_list (ur_Initialize len) = map of_nat [0 ..< unat len]"
  by (simp add: remaining_list_def ur_Initialize_def defaultMap_get_def)

lemma remaining_list_Reset: "remaining_list (ur_Reset s) = map of_nat [0 ..< unat (ur_length s)]"
  by (simp add: remaining_list_def ur_Reset_def defaultMap_get_def)

lemma below_list: "distinct (map of_nat [0 ..< unat (n :: u64)] :: u64 list)" "set (map of_nat [0 ..< unat n]) = {x. x < n}"
proof -
  have fits: "unat (of_nat p :: u64) = p" if "p < unat n" for p
    using that unat_u64_less [of n] by (simp add: unsigned_of_nat take_bit_eq_mod)
  then show "distinct (map of_nat [0 ..< unat n] :: u64 list)"
    unfolding distinct_map by (auto intro!: inj_onI) (metis fits)
  show "set (map of_nat [0 ..< unat n]) = {x. x < n}"
  proof (intro set_eqI iffI)
    fix x assume "x \<in> {x. x < n}"
    then show "x \<in> set (map of_nat [0 ..< unat n])"
      by (auto simp: word_less_nat_alt intro!: image_eqI [of _ _ "unat x"])
  qed (use fits in \<open>auto simp: word_less_nat_alt\<close>)
qed

subsection \<open>What a uniform sampler promises\<close>

locale uniform_sampler =
  fixes inv :: "'s \<Rightarrow> bool" and remaining :: "'s \<Rightarrow> u64 set"
    and nxt :: "'s \<Rightarrow> u64 list \<Rightarrow> sampler_error + u64 \<times> 's \<times> u64 list"
  assumes next_law: "inv s \<Longrightarrow> nxt s raws = Inr (v, s', rest) \<Longrightarrow> v \<in> remaining s \<and> remaining s' = remaining s - {v} \<and> inv s'"
    and next_error: "inv s \<Longrightarrow> nxt s raws = Inl e \<Longrightarrow> e = (if remaining s = {} then ErrOutOfRange else Awaits_source)"
begin

lemma finite_remaining [simp]: "finite (remaining s)"
  by (rule finite)

lemma sample_distinct:
  assumes "inv s" "sample_loop nxt n s raws = Inr (rs, s', rest)"
  shows "length rs = n \<and> distinct rs \<and> set rs \<subseteq> remaining s"
  using assms
proof (induction n arbitrary: s raws rs)
  case (Suc n)
  then obtain v s1 rest1 vs where 1: "nxt s raws = Inr (v, s1, rest1)" "sample_loop nxt n s1 rest1 = Inr (vs, s', rest)" "rs = v # vs"
    by (auto simp: res_bind_Inr_iff)
  from next_law [OF Suc.prems(1) 1(1)] Suc.IH [OF _ 1(2)] 1(3) show ?case by auto
qed simp

lemma sample_error:
  assumes "inv s" "sample_loop nxt n s raws = Inl e"
  shows "e = Awaits_source \<or> e = ErrOutOfRange \<and> card (remaining s) < n"
  using assms
proof (induction n arbitrary: s raws)
  case (Suc n)
  show ?case
  proof (cases "nxt s raws")
    case (Inl e')
    with next_error [OF Suc.prems(1) Inl] Suc.prems(2) show ?thesis by (auto split: if_splits)
  next
    case (Inr b)
    then obtain v s1 rest1 where 1: "nxt s raws = Inr (v, s1, rest1)" by (metis prod_cases3)
    with Suc.prems(2) have "sample_loop nxt n s1 rest1 = Inl e" by (auto simp: res_bind_Inl_iff)
    moreover have "v \<in> remaining s" "remaining s1 = remaining s - {v}" "inv s1" using next_law [OF Suc.prems(1) 1] by auto
    ultimately have "e = Awaits_source \<or> e = ErrOutOfRange \<and> card (remaining s - {v}) < n" using Suc.IH [of s1 rest1] by metis
    moreover have "Suc (card (remaining s - {v})) = card (remaining s)"
      using \<open>v \<in> remaining s\<close> by (rule card_Suc_Diff1 [OF finite_remaining])
    ultimately show ?thesis by linarith
  qed
qed simp

lemma sample_too_many:
  assumes "inv s" "card (remaining s) < n"
  shows "\<exists>e. sample_loop nxt n s raws = Inl e"
proof (cases "sample_loop nxt n s raws")
  case (Inr b)
  then obtain rs s' rest where "sample_loop nxt n s raws = Inr (rs, s', rest)" by (metis prod_cases3)
  from sample_distinct [OF assms(1) this] have "n \<le> card (remaining s)"
    by (metis card_mono distinct_card finite_remaining)
  with assms(2) show ?thesis by simp
qed simp

end

lemma distinct_take_at:
  assumes "distinct xs" "d < length xs"
  shows "distinct (take_at d xs)" "set (take_at d xs) = set xs - {xs ! d}"
proof -
  have *: "xs ! d \<notin># mset (take_at d xs) \<and> distinct (take_at d xs)"
    using take_at_mset [OF assms(2)] assms(1)
    by (metis distinct_count_atmost_1 in_multiset_in_set add_mset_remove_trivial count_add_mset count_eq_zero_iff mset_eq_imp_distinct_iff distinct.simps(2) mset.simps(2) set_mset_mset)
  then show "distinct (take_at d xs)" ..
  show "set (take_at d xs) = set xs - {xs ! d}"
    using * arg_cong [OF take_at_mset [OF assms(2)], of set_mset] by auto
qed

lemma ur_Next_Inr:
  assumes "ur_Next s raws = Inr (ret, s', rest)"
  obtains v where "Uint64Inclusive (ur_length s - 1 - ur_drawsCount s) raws = Inr (v, rest)"
    "unat v < length (remaining_list s)" "ret = remaining_list s ! unat v" "s' = ur_draw v s"
    "remaining_list s' = take_at (unat v) (remaining_list s)"
proof -
  have ne: "remaining_list s \<noteq> []" using assms by (auto simp: ur_Next_eq split: if_splits)
  then obtain v where v: "Uint64Inclusive (ur_length s - 1 - ur_drawsCount s) raws = Inr (v, rest)"
    "ret = defaultMap_get (ur_drawn s) (v + ur_drawsCount s) (v + ur_drawsCount s)" "s' = ur_draw v s"
    using assms by (auto simp: ur_Next_eq res_bind_Inr_iff)
  have "unat v \<le> length (remaining_list s) - 1"
    using Uint64Inclusive_le [OF v(1)] range_left [OF ne] by (simp add: word_le_nat_alt)
  then have lt: "unat v < length (remaining_list s)" using ne by (cases "remaining_list s") auto
  with v ur_draw_refines [OF lt] that show thesis by simp
qed

interpretation replacer: uniform_sampler "\<lambda>s. distinct (remaining_list s)" "\<lambda>s. set (remaining_list s)" ur_Next
proof
  fix s raws v s' rest
  assume "distinct (remaining_list s)" "ur_Next s raws = Inr (v, s', rest)"
  then show "v \<in> set (remaining_list s) \<and> set (remaining_list s') = set (remaining_list s) - {v} \<and> distinct (remaining_list s')"
    by (auto elim!: ur_Next_Inr simp: distinct_take_at)
next
  fix s raws e
  assume "ur_Next s raws = Inl e"
  then show "e = (if set (remaining_list s) = {} then ErrOutOfRange else Awaits_source)"
    by (auto simp: ur_Next_eq res_bind_Inl_iff dest: Uint64Inclusive_errors split: if_splits)
qed

lemma rs_loop_ok: "rs_loop len drawn raws = Inr (v, rest) \<Longrightarrow> v \<le> len - 1 \<and> v \<notin> set drawn"
proof (induction len drawn raws rule: rs_loop.induct)
  case (1 len drawn raws)
  then show ?case
    by (subst (asm) (2) rs_loop.simps) (auto dest: Uint64Inclusive_le split: sum.splits prod.splits if_splits)
qed

lemma rs_loop_errors: "rs_loop len drawn raws = Inl e \<Longrightarrow> e = Awaits_source"
proof (induction len drawn raws rule: rs_loop.induct)
  case (1 len drawn raws)
  then show ?case
    by (subst (asm) (2) rs_loop.simps) (auto dest: Uint64Inclusive_errors split: sum.splits prod.splits if_splits)
qed

lemma word_le_minus_1: "0 < (len :: u64) \<Longrightarrow> v \<le> len - 1 \<longleftrightarrow> v < len"
proof -
  assume "0 < len"
  then have "unat (len - 1) = unat len - 1" "0 < unat len" by (simp_all add: unat_minus_one unat_gt_0 word_neq_0_conv)
  then show ?thesis by (auto simp: word_le_nat_alt word_less_nat_alt)
qed

definition rs_inv :: "uniformResample \<Rightarrow> bool" where
  "rs_inv s \<longleftrightarrow> distinct (rs_drawn s) \<and> set (rs_drawn s) \<subseteq> {x. x < rs_length s}"

lemma card_below: "card {x. x < (n :: u64)} = unat n"
  using below_list [of n] distinct_card by fastforce

lemma rs_exhausted:
  assumes "rs_inv s"
  shows "of_nat (length (rs_drawn s)) \<ge> rs_length s \<longleftrightarrow> {x. x < rs_length s} - set (rs_drawn s) = {}"
proof -
  have card: "card (set (rs_drawn s)) = length (rs_drawn s)" using assms by (simp add: rs_inv_def distinct_card)
  have "card (set (rs_drawn s)) \<le> unat (rs_length s)"
    using assms card_mono [of "{x. x < rs_length s}" "set (rs_drawn s)"] by (simp add: rs_inv_def card_below)
  then have "unat (of_nat (length (rs_drawn s)) :: u64) = length (rs_drawn s)"
    using card unat_u64_less [of "rs_length s"] by (simp add: unsigned_of_nat take_bit_eq_mod)
  moreover have "unat (rs_length s) \<le> card (set (rs_drawn s)) \<longleftrightarrow> {x. x < rs_length s} \<subseteq> set (rs_drawn s)"
    using card_seteq [of "{x. x < rs_length s}" "set (rs_drawn s)"] card_mono [of "set (rs_drawn s)" "{x. x < rs_length s}"] assms
    by (auto simp: rs_inv_def card_below)
  ultimately show ?thesis using card by (auto simp: word_le_nat_alt)
qed

interpretation resample: uniform_sampler rs_inv "\<lambda>s. {x. x < rs_length s} - set (rs_drawn s)" rs_Next
proof
  fix s raws v s' rest
  assume inv: "rs_inv s" and nxt: "rs_Next s raws = Inr (v, s', rest)"
  then have loop: "rs_loop (rs_length s) (rs_drawn s) raws = Inr (v, rest)" "s' = s\<lparr>rs_drawn := v # rs_drawn s\<rparr>"
    and pos: "\<not> of_nat (length (rs_drawn s)) \<ge> rs_length s"
    by (auto simp: rs_Next_def res_bind_Inr_iff split: if_splits)
  have "0 < rs_length s" using pos by (simp add: word_neq_0_conv [symmetric]) auto
  with rs_loop_ok [OF loop(1)] have "v < rs_length s" "v \<notin> set (rs_drawn s)" by (simp_all add: word_le_minus_1)
  with inv loop(2) show "v \<in> {x. x < rs_length s} - set (rs_drawn s)
      \<and> {x. x < rs_length s'} - set (rs_drawn s') = {x. x < rs_length s} - set (rs_drawn s) - {v} \<and> rs_inv s'"
    by (auto simp: rs_inv_def)
next
  fix s raws e
  assume inv: "rs_inv s" and nxt: "rs_Next s raws = Inl e"
  show "e = (if {x. x < rs_length s} - set (rs_drawn s) = {} then ErrOutOfRange else Awaits_source)"
    using nxt unfolding rs_exhausted [OF inv, symmetric]
    by (auto simp: rs_Next_def res_bind_Inl_iff dest: rs_loop_errors split: if_splits)
qed

subsection \<open>Every sample is equally likely\<close>

lemma sample_loop_consumes: "sample_loop ur_Next n s raws = Inr (rs, s', rest) \<Longrightarrow> length rest + n \<le> length raws"
proof (induction n arbitrary: s raws rs)
  case (Suc n)
  then obtain v s1 rest1 vs where 1: "ur_Next s raws = Inr (v, s1, rest1)" "sample_loop ur_Next n s1 rest1 = Inr (vs, s', rest)"
    by (auto simp: res_bind_Inr_iff)
  from 1(1) have "length rest1 < length raws" by (auto elim!: ur_Next_Inr dest: Uint64Inclusive_consumes)
  with Suc.IH [OF 1(2)] show ?case by simp
qed simp

text \<open>The raw numbers, none of them skipped, that make the sampler return a given sample.\<close>

definition leads_to :: "uniformReplacer \<Rightarrow> u64 list \<Rightarrow> u64 list set" where
  "leads_to s rs = {raws. length raws = length rs \<and> (\<exists>s'. sample_loop ur_Next (length rs) s raws = Inr (rs, s', []))}"

lemma leads_to_Cons:
  assumes "distinct (remaining_list s)" "unat v < length (remaining_list s)"
  shows "leads_to s (remaining_list s ! unat v # rs) =
    (\<lambda>(raw, raws). raw # raws) ` ({raw. Uint64Inclusive (ur_length s - 1 - ur_drawsCount s) [raw] = Inr (v, [])} \<times> leads_to (ur_draw v s) rs)"
    (is "_ = _ ` (?A \<times> _)")
proof (intro set_eqI iffI)
  fix l assume l: "l \<in> leads_to s (remaining_list s ! unat v # rs)"
  then obtain raw raws where raws: "l = raw # raws" "length raws = length rs" by (auto simp: leads_to_def length_Suc_conv)
  from l obtain s' s1 rest1 where 1: "ur_Next s l = Inr (remaining_list s ! unat v, s1, rest1)"
    "sample_loop ur_Next (length rs) s1 rest1 = Inr (rs, s', [])"
    by (auto simp: leads_to_def res_bind_Inr_iff)
  from 1(1) obtain v' where v': "Uint64Inclusive (ur_length s - 1 - ur_drawsCount s) l = Inr (v', rest1)"
    "unat v' < length (remaining_list s)" "remaining_list s ! unat v = remaining_list s ! unat v'" "s1 = ur_draw v' s"
    by (rule ur_Next_Inr)
  have "unat v = unat v'" using v'(2,3) assms nth_eq_iff_index_eq by blast
  then have vv: "v' = v" by (simp add: word_unat_eq_iff)
  have "length rs \<le> length rest1" using sample_loop_consumes [OF 1(2)] by simp
  with v'(1) raws have "Uint64Inclusive (ur_length s - 1 - ur_drawsCount s) [raw] = Inr (v', []) \<and> rest1 = raws"
    unfolding raws(1) Uint64Inclusive_step [of _ raw raws]
    by (auto split: sum.splits prod.splits dest: Uint64Inclusive_consumes)
  with 1(2) v'(4) vv raws show "l \<in> (\<lambda>(raw, raws). raw # raws) ` (?A \<times> leads_to (ur_draw v s) rs)"
    by (auto simp: leads_to_def)
next
  fix l assume "l \<in> (\<lambda>(raw, raws). raw # raws) ` (?A \<times> leads_to (ur_draw v s) rs)"
  then obtain raw raws s' where l: "l = raw # raws" "raw \<in> ?A" "length raws = length rs"
    "sample_loop ur_Next (length rs) (ur_draw v s) raws = Inr (rs, s', [])" by (auto simp: leads_to_def)
  have "remaining_list s \<noteq> []" using assms(2) by auto
  moreover have "Uint64Inclusive (ur_length s - 1 - ur_drawsCount s) (raw # raws) = Inr (v, raws)"
    using l(2) by (subst Uint64Inclusive_step) simp
  ultimately have "ur_Next s l = Inr (remaining_list s ! unat v, ur_draw v s, raws)"
    using l(1) by (simp add: ur_Next_eq ur_draw_refines [OF assms(2)])
  with l show "l \<in> leads_to s (remaining_list s ! unat v # rs)" by (auto simp: leads_to_def)
qed

definition accepted_count :: "nat \<Rightarrow> nat" where
  "accepted_count n = card {raw. Uint64Inclusive (of_nat n) [raw] = Inr (0, [])}"

lemma card_leads_to:
  assumes "distinct (remaining_list s)" "distinct rs" "set rs \<subseteq> set (remaining_list s)"
  shows "card (leads_to s rs) = (\<Prod>i < length rs. accepted_count (length (remaining_list s) - 1 - i))"
  using assms
proof (induction rs arbitrary: s)
  case Nil
  have "leads_to s [] = {[]}" by (auto simp: leads_to_def)
  then show ?case by simp
next
  case (Cons r rs)
  let ?n = "ur_length s - 1 - ur_drawsCount s"
  from Cons.prems obtain d where d: "d < length (remaining_list s)" "r = remaining_list s ! d"
    by (auto simp: in_set_conv_nth)
  have "length (remaining_list s) < 2 ^ 64"
    using unat_u64_less [of "ur_length s"] by (simp add: length_remaining_list)
  with d(1) have v: "unat (of_nat d :: u64) = d" by (simp add: unsigned_of_nat take_bit_eq_mod)
  let ?v = "of_nat d :: u64"
  have lt: "unat ?v < length (remaining_list s)" using d v by simp
  have next': "remaining_list (ur_draw ?v s) = take_at d (remaining_list s)" using ur_draw_refines(2) [OF lt] v by simp
  have ne: "remaining_list s \<noteq> []" using d(1) by auto
  then have bound: "?n = of_nat (length (remaining_list s) - 1)"
    unfolding range_left [OF ne, symmetric] by simp
  have "?v \<le> ?n" using range_left [OF ne] d(1) v by (simp add: word_le_nat_alt)
  then have first: "card {raw. Uint64Inclusive ?n [raw] = Inr (?v, [])} = accepted_count (length (remaining_list s) - 1)"
    using draws_count [of ?v ?n] draws_count [of 0 ?n] unfolding accepted_count_def bound [symmetric] by simp
  have "card (leads_to (ur_draw ?v s) rs) = (\<Prod>i < length rs. accepted_count (length (take_at d (remaining_list s)) - 1 - i))"
    using Cons.IH [of "ur_draw ?v s"] Cons.prems distinct_take_at [OF Cons.prems(1) d(1)] d(2) unfolding next' by auto
  moreover have "card (leads_to s (r # rs)) = card {raw. Uint64Inclusive ?n [raw] = Inr (?v, [])} * card (leads_to (ur_draw ?v s) rs)"
    using leads_to_Cons [OF Cons.prems(1) lt, of rs] d(2) v by (simp add: card_image inj_on_def card_cartesian_product)
  ultimately show ?case using first by (simp add: prod.lessThan_Suc_shift del: prod.lessThan_Suc)
qed

text \<open>(C38) Both uniform samplers draw without replacement: a sample they return has the number of elements asked for,
  all different and all in the range; asking for more than the range holds is an error, and the only other
  reason not to return is that the generator has not delivered enough numbers.\<close>

theorem uniform_samples_distinct:
  "(case ur_Sample cnt (ur_Initialize len) raws of
      Inr (rs, _, _) \<Rightarrow> length rs = cnt \<and> distinct rs \<and> set rs \<subseteq> {r. r < len} \<and> cnt \<le> unat len
    | Inl e \<Rightarrow> e = Awaits_source \<or> e = ErrOutOfRange \<and> unat len < cnt)
   \<and> (case rs_Sample cnt (rs_Initialize len) raws of
      Inr (rs, _, _) \<Rightarrow> length rs = cnt \<and> distinct rs \<and> set rs \<subseteq> {r. r < len} \<and> cnt \<le> unat len
    | Inl e \<Rightarrow> e = Awaits_source \<or> e = ErrOutOfRange \<and> unat len < cnt)"
proof -
  have fits: "length rs \<le> unat len" if "distinct rs" "set rs \<subseteq> {x. x < len}" for rs :: "u64 list"
    using that card_mono [of "{x. x < len}" "set rs"] by (simp add: card_below distinct_card)
  let ?u = "ur_Reset (ur_Initialize len)"
  have u: "distinct (remaining_list ?u)" "set (remaining_list ?u) = {x. x < len}"
    by (simp_all only: remaining_list_Reset below_list ur_Initialize_def uniformReplacer.select_convs)
  let ?r = "rs_Reset (rs_Initialize len)"
  have r: "rs_inv ?r" "{x. x < rs_length ?r} - set (rs_drawn ?r) = {x. x < len}"
    by (simp_all add: rs_inv_def rs_Reset_def rs_Initialize_def)
  show ?thesis
  proof
    show "case ur_Sample cnt (ur_Initialize len) raws of
        Inr (rs, _, _) \<Rightarrow> length rs = cnt \<and> distinct rs \<and> set rs \<subseteq> {r. r < len} \<and> cnt \<le> unat len
      | Inl e \<Rightarrow> e = Awaits_source \<or> e = ErrOutOfRange \<and> unat len < cnt"
      using replacer.sample_distinct [OF u(1), of cnt raws] replacer.sample_error [OF u(1), of cnt raws]
      unfolding ur_Sample_def u(2) card_below by (auto split: sum.splits intro: fits)
    show "case rs_Sample cnt (rs_Initialize len) raws of
        Inr (rs, _, _) \<Rightarrow> length rs = cnt \<and> distinct rs \<and> set rs \<subseteq> {r. r < len} \<and> cnt \<le> unat len
      | Inl e \<Rightarrow> e = Awaits_source \<or> e = ErrOutOfRange \<and> unat len < cnt"
      using resample.sample_distinct [OF r(1), of cnt raws] resample.sample_error [OF r(1), of cnt raws]
      unfolding rs_Sample_def r(2) card_below by (auto split: sum.splits intro: fits)
  qed
qed

text \<open>(C39) Every sample of the replacer is equally likely: the number of sequences of raw numbers, none of them skipped,
  that lead to a sample of distinct numbers of the range is the same for all samples of that length.\<close>

theorem replacer_uniform:
  assumes "distinct rs" "\<forall>r \<in> set rs. r < len" "distinct rs'" "\<forall>r \<in> set rs'. r < len" "length rs = length rs'"
  shows "card {raws. length raws = length rs \<and> (\<exists>s'. ur_Sample (length rs) (ur_Initialize len) raws = Inr (rs, s', []))}
       = card {raws. length raws = length rs \<and> (\<exists>s'. ur_Sample (length rs) (ur_Initialize len) raws = Inr (rs', s', []))}"
proof -
  let ?u = "ur_Reset (ur_Initialize len)"
  have u: "distinct (remaining_list ?u)" "set (remaining_list ?u) = {x. x < len}"
    by (simp_all only: remaining_list_Reset below_list ur_Initialize_def uniformReplacer.select_convs)
  have "card (leads_to ?u rs) = card (leads_to ?u rs')"
    using assms u by (subst (1 2) card_leads_to) auto
  then show ?thesis using assms(5) by (simp add: leads_to_def ur_Sample_def)
qed

theorem replacer_uniform_witness:
  "card {raws. length raws = 2 \<and> (\<exists>s'. ur_Sample 2 (ur_Initialize 10) raws = Inr ([3, 7], s', []))}
     = card {raws. length raws = 2 \<and> (\<exists>s'. ur_Sample 2 (ur_Initialize 10) raws = Inr ([9, 0], s', []))}"
proof -
  have "distinct [3, 7 :: u64]" "distinct [9, 0 :: u64]" "\<forall>r \<in> set [3, 7 :: u64]. r < 10" "\<forall>r \<in> set [9, 0 :: u64]. r < 10" by simp_all
  from replacer_uniform [OF this(1,3,2,4)] show ?thesis by (simp only: list.size numeral_2_eq_2 add_0 add_Suc_right add_0_right One_nat_def)
qed

end
