(* ===== verification/Weighted_Sampler.thy ===== *)
theory Weighted_Sampler
  imports Uniform_Sampler
begin

text \<open>
  Drawing an index with a probability in proportion to its weight: \<^verbatim>\<open>weighted_linear.go\<close>, \<^verbatim>\<open>weighted_heap.go\<close>,
  \<^verbatim>\<open>weighted_uniform.go\<close> and \<^verbatim>\<open>weighted_best.go\<close> of \<^verbatim>\<open>utils/sampler\<close>, and the sampler without replacement that is
  put together from a uniform and a weighted one. The contract of the interface \<^verbatim>\<open>Weighted\<close> is the locale
  \<open>weighted_sampler\<close>: of the values below the total weight, as many lead to an index as its weight says.
  Sorting is done by a library the sources only call; it is a parameter \<open>srt\<close> that takes the comparison, and
  what is used of it is that the result is a rearrangement. The reuse of a slice's capacity is left out.
\<close>

type_synonym 'e sorter = "('e \<Rightarrow> 'e \<Rightarrow> bool) \<Rightarrow> 'e list \<Rightarrow> 'e list"

definition rearranges :: "'e sorter \<Rightarrow> bool" where
  "rearranges srt \<longleftrightarrow> (\<forall>lt xs. mset (srt lt xs) = mset xs)"

lemma mset_srt: "rearranges srt \<Longrightarrow> mset (map f (srt lt xs)) = mset (map f xs)"
  by (simp add: rearranges_def)

fun sum_weights :: "u64 \<Rightarrow> u64 list \<Rightarrow> sampler_error + u64" where
  "sum_weights totalWeight [] = Inr totalWeight"
| "sum_weights totalWeight (weight # weights) =
     (case Add64 totalWeight weight of
        Inl e \<Rightarrow> Inl (Math e)
      | Inr newWeight \<Rightarrow> sum_weights newWeight weights)"

subsection \<open>Linear search\<close>

record weightedLinearElement =
  wl_cumulativeWeight :: u64
  wl_index :: nat

definition wl_Less :: "weightedLinearElement \<Rightarrow> weightedLinearElement \<Rightarrow> bool" where
  "wl_Less e other \<longleftrightarrow> wl_cumulativeWeight e > wl_cumulativeWeight other"

fun wl_accumulate :: "weightedLinearElement \<Rightarrow> weightedLinearElement list \<Rightarrow> sampler_error + weightedLinearElement list" where
  "wl_accumulate prev [] = Inr []"
| "wl_accumulate prev (e # es) =
     (case Add64 (wl_cumulativeWeight prev) (wl_cumulativeWeight e) of
        Inl err \<Rightarrow> Inl (Math err)
      | Inr newWeight \<Rightarrow>
          let e' = e\<lparr>wl_cumulativeWeight := newWeight\<rparr>
          in res_bind (wl_accumulate e' es) (\<lambda>es'. Inr (e' # es')))"

definition wl_Initialize :: "weightedLinearElement sorter \<Rightarrow> u64 list \<Rightarrow> sampler_error + weightedLinearElement list" where
  "wl_Initialize srt weights =
     (case srt wl_Less (map (\<lambda>(i, w). \<lparr>wl_cumulativeWeight = w, wl_index = i\<rparr>) (enumerate 0 weights)) of
        [] \<Rightarrow> Inr []
      | e # es \<Rightarrow> res_bind (wl_accumulate e es) (\<lambda>es'. Inr (e # es')))"

fun wl_find :: "u64 \<Rightarrow> weightedLinearElement list \<Rightarrow> sampler_error + nat" where
  "wl_find val [] = Inl Index_out_of_range"
| "wl_find val (elem # arr) = (if val < wl_cumulativeWeight elem then Inr (wl_index elem) else wl_find val arr)"

definition wl_Sample :: "weightedLinearElement list \<Rightarrow> u64 \<Rightarrow> sampler_error + nat" where
  "wl_Sample arr val =
     (if arr = [] \<or> wl_cumulativeWeight (last arr) \<le> val then Inl ErrOutOfRange else wl_find val arr)"

subsection \<open>A table of indices\<close>

record weightedUniform =
  wu_indices :: "nat list"
  wu_maxWeight :: u64

definition wu_Initialize :: "weightedUniform \<Rightarrow> u64 list \<Rightarrow> sampler_error + weightedUniform" where
  "wu_Initialize s weights =
     res_bind (sum_weights 0 weights) (\<lambda>totalWeight.
       if totalWeight > wu_maxWeight s \<or> totalWeight > 0x7FFFFFFF then Inl errWeightsTooLarge
       else Inr (s\<lparr>wu_indices := concat (map (\<lambda>(i, w). replicate (unat w) i) (enumerate 0 weights))\<rparr>))"

definition wu_Sample :: "weightedUniform \<Rightarrow> u64 \<Rightarrow> sampler_error + nat" where
  "wu_Sample s val =
     (if of_nat (length (wu_indices s)) \<le> val then Inl ErrOutOfRange else Inr (wu_indices s ! unat val))"

subsection \<open>A heap of cumulative weights\<close>

record weightedHeapElement =
  wh_weight :: u64
  wh_cumulativeWeight :: u64
  wh_index :: nat

definition wh_Less :: "weightedHeapElement \<Rightarrow> weightedHeapElement \<Rightarrow> bool" where
  "wh_Less e other \<longleftrightarrow>
     (if wh_weight e > wh_weight other then True
      else if wh_weight e < wh_weight other then False
      else wh_index e < wh_index other)"

text \<open>The loop that adds the cumulative weight of the elements to their parents, from the last to the second.\<close>

fun wh_accumulate :: "nat \<Rightarrow> weightedHeapElement list \<Rightarrow> sampler_error + weightedHeapElement list" where
  "wh_accumulate 0 heap = Inr heap"
| "wh_accumulate (Suc i) heap =
     (let parentIndex = i div 2
      in case Add64 (wh_cumulativeWeight (heap ! parentIndex)) (wh_cumulativeWeight (heap ! Suc i)) of
           Inl err \<Rightarrow> Inl (Math err)
         | Inr newWeight \<Rightarrow> wh_accumulate i (heap[parentIndex := (heap ! parentIndex)\<lparr>wh_cumulativeWeight := newWeight\<rparr>]))"

definition wh_Initialize :: "weightedHeapElement sorter \<Rightarrow> u64 list \<Rightarrow> sampler_error + weightedHeapElement list" where
  "wh_Initialize srt weights =
     (let heap = srt wh_Less (map (\<lambda>(i, w). \<lparr>wh_weight = w, wh_cumulativeWeight = w, wh_index = i\<rparr>) (enumerate 0 weights))
      in wh_accumulate (length heap - 1) heap)"

function wh_find :: "weightedHeapElement list \<Rightarrow> nat \<Rightarrow> u64 \<Rightarrow> sampler_error + nat" where
  "wh_find heap index val =
     (if length heap \<le> index then Inl Index_out_of_range
      else let currentElement = heap ! index; currentWeight = wh_weight currentElement
           in if val < currentWeight then Inr (wh_index currentElement)
              else let val = val - currentWeight; index = index * 2 + 1
                   in if length heap \<le> index then Inl Index_out_of_range
                      else let leftWeight = wh_cumulativeWeight (heap ! index)
                           in if leftWeight \<le> val then wh_find heap (index + 1) (val - leftWeight)
                              else wh_find heap index val)"
  by pat_completeness auto
termination by (relation "measure (\<lambda>(heap, index, _). length heap - index)") auto

declare wh_find.simps [simp del]

definition wh_Sample :: "weightedHeapElement list \<Rightarrow> u64 \<Rightarrow> sampler_error + nat" where
  "wh_Sample heap val =
     (if heap = [] \<or> wh_cumulativeWeight (heap ! 0) \<le> val then Inl ErrOutOfRange else wh_find heap 0 val)"

subsection \<open>The fastest of several samplers\<close>

text \<open>\<^verbatim>\<open>weightedBest\<close> initializes its samplers, times them on some random values and keeps the fastest. The samplers
  are given by the operations of the interface; the measured durations are an argument. A sampler that fails
  to initialize or to sample is passed over.\<close>

fun best_loop :: "('w \<Rightarrow> u64 list \<Rightarrow> sampler_error + 'w) \<Rightarrow> ('w \<Rightarrow> u64 \<Rightarrow> sampler_error + nat) \<Rightarrow> u64 list \<Rightarrow> u64 list
    \<Rightarrow> 'w option \<Rightarrow> int \<Rightarrow> ('w \<times> int) list \<Rightarrow> 'w option" where
  "best_loop init smp weights samples best bestDuration [] = best"
| "best_loop init smp weights samples best bestDuration ((sampler, duration) # samplers) =
     (case init sampler weights of
        Inl _ \<Rightarrow> best_loop init smp weights samples best bestDuration samplers
      | Inr sampler' \<Rightarrow>
          if list_all (\<lambda>sample. \<not> isl (smp sampler' sample)) samples \<and> duration < bestDuration
          then best_loop init smp weights samples (Some sampler') duration samplers
          else best_loop init smp weights samples best bestDuration samplers)"

fun best_samples :: "nat \<Rightarrow> u64 \<Rightarrow> u64 list \<Rightarrow> sampler_error + u64 list \<times> u64 list" where
  "best_samples 0 mx raws = Inr ([], raws)"
| "best_samples (Suc n) mx raws =
     res_bind (Uint64Inclusive mx raws) (\<lambda>(v, rest). res_bind (best_samples n mx rest) (\<lambda>(vs, rest'). Inr (v # vs, rest')))"

definition best_Initialize :: "('w \<Rightarrow> u64 list \<Rightarrow> sampler_error + 'w) \<Rightarrow> ('w \<Rightarrow> u64 \<Rightarrow> sampler_error + nat) \<Rightarrow> nat
    \<Rightarrow> ('w \<times> int) list \<Rightarrow> u64 list \<Rightarrow> u64 list \<Rightarrow> sampler_error + 'w \<times> u64 list" where
  "best_Initialize init smp benchmarkIterations samplers weights raws =
     res_bind (sum_weights 0 weights) (\<lambda>totalWeight.
       res_bind (if totalWeight > 0 then best_samples benchmarkIterations (totalWeight - 1) raws else Inr ([], raws)) (\<lambda>(samples, rest).
         case best_loop init smp weights samples None (2 ^ 63 - 1) samplers of
           None \<Rightarrow> Inl errNoValidWeightedSamplers
         | Some sampler \<Rightarrow> Inr (sampler, rest)))"

subsection \<open>Sampling without replacement\<close>

definition wwr_Initialize :: "('w \<Rightarrow> u64 list \<Rightarrow> u64 list \<Rightarrow> sampler_error + 'w \<times> u64 list) \<Rightarrow> 'w \<Rightarrow> u64 list \<Rightarrow> u64 list
    \<Rightarrow> sampler_error + (uniformReplacer \<times> 'w) \<times> u64 list" where
  "wwr_Initialize init w weights raws =
     res_bind (sum_weights 0 weights) (\<lambda>totalWeight.
       res_bind (init w weights raws) (\<lambda>(w', rest). Inr ((ur_Initialize totalWeight, w'), rest)))"

fun wwr_loop :: "('w \<Rightarrow> u64 \<Rightarrow> sampler_error + nat) \<Rightarrow> 'w \<Rightarrow> nat \<Rightarrow> uniformReplacer \<Rightarrow> u64 list
    \<Rightarrow> sampler_error + nat list \<times> uniformReplacer \<times> u64 list" where
  "wwr_loop smp w 0 u raws = Inr ([], u, raws)"
| "wwr_loop smp w (Suc n) u raws =
     res_bind (ur_Next u raws) (\<lambda>(weight, u', rest).
       res_bind (smp w weight) (\<lambda>i.
         res_bind (wwr_loop smp w n u' rest) (\<lambda>(indices, u'', rest'). Inr (i # indices, u'', rest'))))"

definition wwr_Sample :: "('w \<Rightarrow> u64 \<Rightarrow> sampler_error + nat) \<Rightarrow> nat \<Rightarrow> uniformReplacer \<times> 'w \<Rightarrow> u64 list
    \<Rightarrow> sampler_error + nat list \<times> (uniformReplacer \<times> 'w) \<times> u64 list" where
  "wwr_Sample smp cnt s raws =
     res_bind (wwr_loop smp (snd s) cnt (ur_Reset (fst s)) raws) (\<lambda>(indices, u, rest). Inr (indices, (u, snd s), rest))"

subsection \<open>Segments\<close>

text \<open>A weighted sampler lays the weights out one after the other, in some order, and finds the one a value lies in.\<close>

fun segment_at :: "(nat \<times> nat) list \<Rightarrow> nat \<Rightarrow> nat option" where
  "segment_at [] v = None"
| "segment_at ((w, i) # segs) v = (if v < w then Some i else segment_at segs (v - w))"

abbreviation seg_total :: "(nat \<times> nat) list \<Rightarrow> nat" where
  "seg_total segs \<equiv> sum_list (map fst segs)"

lemma segment_at_append:
  "segment_at (xs @ ys) v = (if v < seg_total xs then segment_at xs v else segment_at ys (v - seg_total xs))"
  by (induction xs v rule: segment_at.induct) auto

lemma segment_at_None: "segment_at segs v = None \<longleftrightarrow> seg_total segs \<le> v"
  by (induction segs v rule: segment_at.induct) auto

lemma segment_at_in: "segment_at segs v = Some i \<Longrightarrow> i \<in> snd ` set segs"
  by (induction segs v rule: segment_at.induct) (auto split: if_splits)

lemma finite_segment: "finite {v. segment_at segs v = Some i}"
proof -
  have "{v. segment_at segs v = Some i} \<subseteq> {..< seg_total segs}"
    using segment_at_None [of segs] by (metis (lifting) Collect_mono lessThan_def not_le option.distinct(1))
  then show ?thesis by (rule finite_subset) simp
qed

lemma card_segment: "card {v. segment_at segs v = Some i} = sum_list (map (\<lambda>(w, j). if j = i then w else 0) segs)"
proof (induction segs)
  case (Cons s segs)
  obtain w j where s: "s = (w, j)" by fastforce
  let ?A = "{v. v < w \<and> j = i}" and ?B = "{v. segment_at segs v = Some i}"
  have "{v. segment_at (s # segs) v = Some i} = ?A \<union> (\<lambda>v. v + w) ` ?B"
  proof (intro set_eqI iffI)
    fix v assume "v \<in> {v. segment_at (s # segs) v = Some i}"
    then show "v \<in> ?A \<union> (\<lambda>v. v + w) ` ?B"
      by (cases "v < w") (auto simp: s not_less intro: image_eqI [of _ _ "v - w"])
  qed (auto simp: s split: if_splits)
  moreover have "?A \<inter> (\<lambda>v. v + w) ` ?B = {}" by auto
  moreover have "card ?A = (if j = i then w else 0)" by simp
  moreover have "card ((\<lambda>v. v + w) ` ?B) = card ?B" by (rule card_image) simp
  ultimately show ?case using Cons.IH s finite_segment [of segs i] by (simp add: card_Un_disjoint)
qed simp

definition weighted_ok :: "u64 list \<Rightarrow> (u64 \<Rightarrow> sampler_error + nat) \<Rightarrow> bool" where
  "weighted_ok weights smp \<longleftrightarrow>
     (\<forall>i < length weights. card {v. smp v = Inr i} = unat (weights ! i))
     \<and> (\<forall>v. if unat v < sum_list (map unat weights) then \<exists>i < length weights. smp v = Inr i else smp v = Inl ErrOutOfRange)"

lemma enumerate_count:
  assumes "i < length ws"
  shows "sum_list (map (\<lambda>(j, w). if j = i then f w else (0 :: nat)) (enumerate 0 ws)) = f (ws ! i)"
proof -
  have "sum_list (map (\<lambda>(j, w). if j = i then f w else 0) (enumerate n ws)) = (if n \<le> i \<and> i < n + length ws then f (ws ! (i - n)) else 0)" for n
    by (induction ws arbitrary: n) (auto simp: nth_Cons' Suc_diff_le)
  from this [of 0] assms show ?thesis by simp
qed

text \<open>The segments of a weight list, in any order: an index is found as often as its weight says.\<close>

definition lays_out :: "u64 list \<Rightarrow> (nat \<times> nat) list \<Rightarrow> bool" where
  "lays_out weights segs \<longleftrightarrow> mset segs = mset (map (\<lambda>(i, w). (unat w, i)) (enumerate 0 weights))"

lemma lays_out_sum:
  fixes g :: "nat \<times> nat \<Rightarrow> nat"
  assumes "lays_out weights segs"
  shows "sum_list (map g segs) = sum_list (map (\<lambda>(i, w). g (unat w, i)) (enumerate 0 weights))"
proof -
  have "sum_list (map g segs) = sum_mset (image_mset g (mset segs))" by (simp add: sum_mset_sum_list [symmetric])
  also have "\<dots> = sum_list (map g (map (\<lambda>(i, w). (unat w, i)) (enumerate 0 weights)))"
    using assms unfolding lays_out_def by (simp only: mset_map [symmetric] sum_mset_sum_list)
  finally show ?thesis by (simp add: o_def case_prod_unfold)
qed

lemma lays_out_total: "lays_out weights segs \<Longrightarrow> seg_total segs = sum_list (map unat weights)"
  by (simp add: lays_out_sum case_prod_unfold o_def map_snd_enumerate flip: map_map [where f = unat and g = snd, unfolded o_def])

lemma lays_out_ok:
  assumes "lays_out weights segs" "sum_list (map unat weights) < 2 ^ 64"
    and "\<And>v. smp v = (case segment_at segs (unat v) of Some i \<Rightarrow> Inr i | None \<Rightarrow> Inl ErrOutOfRange)"
  shows "weighted_ok weights smp"
proof -
  have tot: "seg_total segs = sum_list (map unat weights)" by (rule lays_out_total [OF assms(1)])
  have "card {v. smp v = Inr i} = unat (weights ! i)" if "i < length weights" for i
  proof -
    have "{v. smp v = Inr i} = {v. segment_at segs (unat v) = Some i}" using assms(3) by (auto split: option.splits)
    then have "card {v. smp v = Inr i} = card {x. x < 2 ^ 64 \<and> segment_at segs x = Some i}"
      using card_words [of "\<lambda>x. segment_at segs x = Some i"] by simp
    also have "{x. x < 2 ^ 64 \<and> segment_at segs x = Some i} = {x. segment_at segs x = Some i}"
      using segment_at_None [of segs] tot assms(2) by (metis (lifting) not_le option.distinct(1) order.strict_trans2 order_less_imp_le)
    finally show ?thesis
      using enumerate_count [OF that, of unat]
      by (simp add: card_segment lays_out_sum [OF assms(1)] case_prod_unfold cong: if_cong)
  qed
  moreover have "\<exists>i < length weights. smp v = Inr i" if v: "unat v < sum_list (map unat weights)" for v
  proof -
    obtain i where i: "segment_at segs (unat v) = Some i" using segment_at_None [of segs "unat v"] tot v by fastforce
    have "set segs = set (map (\<lambda>(i, w). (unat w, i)) (enumerate 0 weights))"
      using assms(1) unfolding lays_out_def by (rule mset_eq_setD)
    then have "i < length weights" using segment_at_in [OF i] by (auto simp: in_set_enumerate_eq)
    with i assms(3) show ?thesis by auto
  qed
  moreover have "smp v = Inl ErrOutOfRange" if "\<not> unat v < sum_list (map unat weights)" for v
    using that segment_at_None [of segs "unat v"] tot assms(3) [of v] by simp
  ultimately show ?thesis by (simp add: weighted_ok_def)
qed

subsection \<open>The sum of the weights\<close>

lemma sum_weights_law:
  "(case sum_weights t ws of
      Inr s \<Rightarrow> unat s = unat t + sum_list (map unat ws)
    | Inl e \<Rightarrow> e = Math ErrOverflow \<and> 2 ^ 64 \<le> unat t + sum_list (map unat ws))"
proof (induction t ws rule: sum_weights.induct)
  case (2 t w ws)
  then show ?case
  proof (cases rule: Add64_cases [of t w])
    case (ok c)
    with 2 [of c] show ?thesis by (auto simp: add.assoc split: sum.splits)
  qed simp
qed simp

lemma sum_weights_Inr: "sum_weights t ws = Inr s \<Longrightarrow> unat s = unat t + sum_list (map unat ws)"
  using sum_weights_law [of t ws] by simp

lemma sum_weights_fits: "unat t + sum_list (map unat ws) < 2 ^ 64 \<Longrightarrow> \<exists>s. sum_weights t ws = Inr s"
  using sum_weights_law [of t ws] by (auto split: sum.splits)

subsection \<open>Linear search finds the segment\<close>

abbreviation wl_seg :: "weightedLinearElement \<Rightarrow> nat \<times> nat" where
  "wl_seg e \<equiv> (unat (wl_cumulativeWeight e), wl_index e)"

lemma wl_accumulate_law:
  "case wl_accumulate prev es of
     Inl e \<Rightarrow> e = Math ErrOverflow \<and> 2 ^ 64 \<le> unat (wl_cumulativeWeight prev) + seg_total (map wl_seg es)
   | Inr es' \<Rightarrow> length es' = length es
       \<and> unat (wl_cumulativeWeight (last (prev # es'))) = unat (wl_cumulativeWeight prev) + seg_total (map wl_seg es)
       \<and> (\<forall>v i. unat (wl_cumulativeWeight prev) \<le> unat v
            \<longrightarrow> segment_at (map wl_seg es) (unat v - unat (wl_cumulativeWeight prev)) = Some i \<longrightarrow> wl_find v es' = Inr i)"
proof (induction prev es rule: wl_accumulate.induct)
  case (2 prev e es)
  then show ?case
  proof (cases rule: Add64_cases [of "wl_cumulativeWeight prev" "wl_cumulativeWeight e"])
    case (ok c)
    from 2 [OF ok(1) refl] ok(1,3) show ?thesis
      by (auto simp: word_less_nat_alt diff_diff_left split: sum.splits if_splits)
  qed simp
qed simp

lemma wl_correct:
  assumes srt: "rearranges srt"
  shows "case wl_Initialize srt weights of
      Inl e \<Rightarrow> e = Math ErrOverflow \<and> 2 ^ 64 \<le> sum_list (map unat weights)
    | Inr arr \<Rightarrow> weighted_ok weights (wl_Sample arr) \<and> sum_list (map unat weights) < 2 ^ 64"
proof -
  define es where "es = srt wl_Less (map (\<lambda>(i, w). \<lparr>wl_cumulativeWeight = w, wl_index = i\<rparr>) (enumerate 0 weights))"
  have out: "lays_out weights (map wl_seg es)"
    by (simp add: lays_out_def es_def mset_srt [OF srt] o_def case_prod_unfold del: mset_map)
  note tot = lays_out_total [OF out]
  show ?thesis
  proof (cases es)
    case Nil
    have small: "sum_list (map unat weights) < 2 ^ 64" using Nil unfolding tot [symmetric] by simp
    have "weighted_ok weights (wl_Sample [])"
      by (rule lays_out_ok [OF out small]) (simp add: Nil wl_Sample_def)
    with small Nil show ?thesis unfolding wl_Initialize_def es_def [symmetric] by simp
  next
    case (Cons x xs)
    note acc = wl_accumulate_law [of x xs]
    show ?thesis
    proof (cases "wl_accumulate x xs")
      case (Inl e)
      with acc Cons tot show ?thesis by (simp add: wl_Initialize_def es_def [symmetric])
    next
      case (Inr xs')
      with acc Cons tot have last: "unat (wl_cumulativeWeight (last (x # xs'))) = sum_list (map unat weights)" by simp
      then have small: "sum_list (map unat weights) < 2 ^ 64" by (metis unat_u64_less)
      have "wl_Sample (x # xs') v = (case segment_at (map wl_seg es) (unat v) of Some i \<Rightarrow> Inr i | None \<Rightarrow> Inl ErrOutOfRange)" for v
      proof (cases "segment_at (map wl_seg es) (unat v)")
        case None
        moreover from this have "wl_cumulativeWeight (last (x # xs')) \<le> v"
          using last tot segment_at_None [of "map wl_seg es" "unat v"] by (simp add: word_le_nat_alt)
        ultimately show ?thesis by (simp add: wl_Sample_def)
      next
        case (Some i)
        then have "\<not> wl_cumulativeWeight (last (x # xs')) \<le> v"
          using last tot segment_at_None [of "map wl_seg es" "unat v"] by (simp add: word_le_nat_alt)
        with Some acc Inr Cons show ?thesis by (auto simp: wl_Sample_def word_less_nat_alt split: if_splits)
      qed
      from lays_out_ok [OF out small this] small Inr Cons show ?thesis by (simp add: wl_Initialize_def es_def [symmetric])
    qed
  qed
qed

subsection \<open>The table of indices\<close>

lemma table_nth:
  "v < seg_total segs \<Longrightarrow> segment_at segs v = Some (concat (map (\<lambda>(w, i). replicate w i) segs) ! v)"
  by (induction segs v rule: segment_at.induct) (auto simp: nth_append)

lemma length_table: "length (concat (map (\<lambda>(w, i). replicate w i) segs)) = seg_total segs"
  by (induction segs) auto

lemma wu_correct:
  "case wu_Initialize s weights of
     Inl e \<Rightarrow> e = Math ErrOverflow \<and> 2 ^ 64 \<le> sum_list (map unat weights)
       \<or> e = errWeightsTooLarge \<and> (unat (wu_maxWeight s) < sum_list (map unat weights) \<or> 2 ^ 31 \<le> sum_list (map unat weights))
   | Inr s' \<Rightarrow> weighted_ok weights (wu_Sample s') \<and> sum_list (map unat weights) < 2 ^ 64"
proof (cases "sum_weights 0 weights")
  case (Inl e)
  with sum_weights_law [of 0 weights] show ?thesis by (simp add: wu_Initialize_def)
next
  case (Inr t)
  then have t: "unat t = sum_list (map unat weights)" using sum_weights_Inr by fastforce
  show ?thesis
  proof (cases "t > wu_maxWeight s \<or> t > 0x7FFFFFFF")
    case True
    with Inr t show ?thesis by (auto simp: wu_Initialize_def word_less_nat_alt)
  next
    case False
    define segs where "segs = map (\<lambda>(i, w). (unat w, i)) (enumerate 0 weights)"
    have out: "lays_out weights segs" by (simp add: lays_out_def segs_def)
    have tab: "concat (map (\<lambda>(i, w). replicate (unat w) i) (enumerate 0 weights)) = concat (map (\<lambda>(w, i). replicate w i) segs)"
      by (simp add: segs_def o_def case_prod_unfold)
    let ?s = "s\<lparr>wu_indices := concat (map (\<lambda>(w, i). replicate w i) segs)\<rparr>"
    have small: "sum_list (map unat weights) < 2 ^ 64" using t by (metis unat_u64_less)
    have len: "(of_nat (length (concat (map (\<lambda>(w, i). replicate w i) segs))) :: u64) = t"
      by (simp only: length_table lays_out_total [OF out] t [symmetric] word_of_nat_eq_iff word_unat_eq_iff) simp
    have "wu_Sample ?s v = (case segment_at segs (unat v) of Some i \<Rightarrow> Inr i | None \<Rightarrow> Inl ErrOutOfRange)" for v
    proof (cases "t \<le> v")
      case True
      then have "segment_at segs (unat v) = None" by (simp add: segment_at_None lays_out_total [OF out] t word_le_nat_alt)
      with True show ?thesis unfolding wu_Sample_def weightedUniform.select_convs weightedUniform.update_convs len by (simp add: len)
    next
      case False
      then have "unat v < seg_total segs" by (simp add: lays_out_total [OF out] t word_le_nat_alt)
      with False table_nth [OF this] show ?thesis by (simp add: wu_Sample_def len)
    qed
    from lays_out_ok [OF out small this] small False Inr show ?thesis by (simp add: wu_Initialize_def tab)
  qed
qed

subsection \<open>The heap\<close>

text \<open>The sum of a function over the subtree of an index in a heap of a given length.\<close>

function subtree_sum :: "(nat \<Rightarrow> nat) \<Rightarrow> nat \<Rightarrow> nat \<Rightarrow> nat" where
  "subtree_sum f n i = (if n \<le> i then 0 else f i + subtree_sum f n (2 * i + 1) + subtree_sum f n (2 * i + 2))"
  by pat_completeness auto
termination by (relation "measure (\<lambda>(f, n, i). n - i)") auto

declare subtree_sum.simps [simp del]

lemma subtree_sum_out [simp]: "n \<le> i \<Longrightarrow> subtree_sum f n i = 0"
  by (simp add: subtree_sum.simps)

text \<open>What the loop has accumulated at an index when the indices above a bound have been added to their parents.\<close>

definition cum :: "(nat \<Rightarrow> nat) \<Rightarrow> nat \<Rightarrow> nat \<Rightarrow> nat \<Rightarrow> nat" where
  "cum f n k j = f j + (if k < 2 * j + 1 then subtree_sum f n (2 * j + 1) else 0)
                     + (if k < 2 * j + 2 then subtree_sum f n (2 * j + 2) else 0)"

lemma cum_self: "k < n \<Longrightarrow> cum f n k k = subtree_sum f n k"
  by (simp add: cum_def subtree_sum.simps [of f n k])

lemma cum_start: "cum f n (n - 1) j = f j"
  by (auto simp: cum_def)

lemma cum_end: "0 < n \<Longrightarrow> cum f n 0 j = (if j < n then subtree_sum f n j else f j)"
  by (auto simp: cum_def subtree_sum.simps [of f n j])

lemma cum_step: "cum f n k j = cum f n (Suc k) j + (if j = k div 2 then subtree_sum f n (Suc k) else 0)"
proof -
  consider "k = 2 * j" | "k = 2 * j + 1" | "j \<noteq> k div 2" "k < 2 * j" | "j \<noteq> k div 2" "2 * j + 1 < k" by linarith
  then show ?thesis by cases (auto simp: cum_def)
qed

lemma cum_total: "k < n \<Longrightarrow> (\<Sum>j < Suc k. cum f n k j) = (\<Sum>j < n. f j)"
proof (induction "n - 1 - k" arbitrary: k)
  case 0
  then have "k = n - 1" "Suc k = n" by auto
  then show ?case by (simp only: cum_start)
next
  case (Suc d)
  then have k: "Suc k < n" "d = n - 1 - Suc k" by auto
  have "k div 2 \<in> {..< Suc k}" by auto
  then have "(\<Sum>j < Suc k. if j = k div 2 then subtree_sum f n (Suc k) else 0) = subtree_sum f n (Suc k)"
    by (simp only: sum.delta' [OF finite_lessThan] sum.delta [OF finite_lessThan] if_True)
  then have "(\<Sum>j < Suc k. cum f n k j) = (\<Sum>j < Suc k. cum f n (Suc k) j) + subtree_sum f n (Suc k)"
    unfolding cum_step [of f n k] sum.distrib by simp
  also have "\<dots> = (\<Sum>j < Suc (Suc k). cum f n (Suc k) j)" using k(1) by (simp add: cum_self)
  finally show ?case using Suc.hyps(1) [OF k(2) k(1)] by simp
qed

lemma subtree_sum_root: "0 < n \<Longrightarrow> subtree_sum f n 0 = (\<Sum>j < n. f j)"
  using cum_total [of 0 n f] cum_self [of 0 n f] by simp

lemma cum_le_total:
  assumes "k < n"
  shows "subtree_sum f n k \<le> (\<Sum>j < n. f j)"
proof -
  have "cum f n k k \<le> (\<Sum>j < Suc k. cum f n k j)" by (rule member_le_sum) auto
  then show ?thesis using cum_total [OF assms, of f] cum_self [OF assms] by simp
qed

lemma cum_le_subtree: "j < n \<Longrightarrow> cum f n k j \<le> subtree_sum f n j"
  by (auto simp: cum_def subtree_sum.simps [of f n j])

text \<open>The loop keeps the weights and indices, and its cumulative weights are those.\<close>

definition heap_cum :: "(nat \<Rightarrow> nat) \<Rightarrow> nat \<Rightarrow> nat \<Rightarrow> weightedHeapElement list \<Rightarrow> bool" where
  "heap_cum f n k heap \<longleftrightarrow> length heap = n \<and> (\<forall>j < n. unat (wh_weight (heap ! j)) = f j \<and> unat (wh_cumulativeWeight (heap ! j)) = cum f n k j)"

lemma wh_accumulate_law:
  assumes "heap_cum f n k heap" "k < n"
  shows "case wh_accumulate k heap of
      Inl e \<Rightarrow> e = Math ErrOverflow \<and> 2 ^ 64 \<le> (\<Sum>j < n. f j)
    | Inr heap' \<Rightarrow> heap_cum f n 0 heap' \<and> map wh_index heap' = map wh_index heap"
  using assms
proof (induction k arbitrary: heap)
  case (Suc k)
  let ?p = "k div 2"
  have len: "length heap = n" "?p < n" using Suc.prems by (auto simp: heap_cum_def)
  have vals: "unat (wh_cumulativeWeight (heap ! ?p)) = cum f n (Suc k) ?p" "unat (wh_cumulativeWeight (heap ! Suc k)) = subtree_sum f n (Suc k)"
    using Suc.prems len by (auto simp: heap_cum_def cum_self)
  have sum: "cum f n (Suc k) ?p + subtree_sum f n (Suc k) = cum f n k ?p" using cum_step [of f n k ?p] by simp
  show ?case
  proof (cases rule: Add64_cases [of "wh_cumulativeWeight (heap ! ?p)" "wh_cumulativeWeight (heap ! Suc k)"])
    case (ok c)
    let ?heap = "heap[?p := (heap ! ?p)\<lparr>wh_cumulativeWeight := c\<rparr>]"
    have "unat (wh_cumulativeWeight (?heap ! j)) = cum f n k j \<and> unat (wh_weight (?heap ! j)) = f j" if "j < n" for j
      using Suc.prems(1) that len ok(3) vals sum cum_step [of f n k j] by (cases "j = ?p") (auto simp: heap_cum_def)
    then have "heap_cum f n k ?heap" using len by (simp add: heap_cum_def)
    moreover have "map wh_index ?heap = map wh_index heap" using len
      by (intro nth_equalityI) (auto simp: nth_list_update)
    ultimately show ?thesis using Suc.IH [of ?heap] Suc.prems(2) ok(1) by (auto simp: Let_def split: sum.splits)
  next
    case overflow
    with vals sum have "2 ^ 64 \<le> cum f n k ?p" by simp
    also have "\<dots> \<le> subtree_sum f n ?p" by (rule cum_le_subtree [OF len(2)])
    also have "\<dots> \<le> (\<Sum>j < n. f j)" by (rule cum_le_total [OF len(2)])
    finally show ?thesis using overflow(1) by (simp add: Let_def)
  qed
qed simp

text \<open>The segments of the heap, in the order in which the search passes them: an element, its left and its right subtree.\<close>

function preorder :: "weightedHeapElement list \<Rightarrow> nat \<Rightarrow> (nat \<times> nat) list" where
  "preorder heap i = (if length heap \<le> i then []
     else (unat (wh_weight (heap ! i)), wh_index (heap ! i)) # preorder heap (2 * i + 1) @ preorder heap (2 * i + 2))"
  by pat_completeness auto
termination by (relation "measure (\<lambda>(heap, i). length heap - i)") auto

declare preorder.simps [simp del]

lemma preorder_sum:
  "sum_list (map g (preorder heap i))
     = subtree_sum (\<lambda>j. g (unat (wh_weight (heap ! j)), wh_index (heap ! j))) (length heap) i"
proof (induction heap i rule: preorder.induct)
  case (1 heap i)
  show ?case
  proof (cases "length heap \<le> i")
    case False
    with 1 [OF False] show ?thesis by (simp add: preorder.simps [of heap i] subtree_sum.simps [of _ "length heap" i])
  qed (simp add: preorder.simps)
qed

lemma subtree_sum_cong: "(\<And>j. j < n \<Longrightarrow> g j = f j) \<Longrightarrow> subtree_sum g n i = subtree_sum f n i"
proof (induction g n i rule: subtree_sum.induct)
  case (1 g n i)
  then show ?case by (cases "n \<le> i") (auto simp: subtree_sum.simps [of g n i] subtree_sum.simps [of f n i])
qed

lemma preorder_total:
  assumes "heap_cum f n 0 heap" "i < n"
  shows "seg_total (preorder heap i) = unat (wh_cumulativeWeight (heap ! i))"
proof -
  have "seg_total (preorder heap i) = subtree_sum f n i"
    unfolding preorder_sum using assms(1) by (auto simp: heap_cum_def intro: subtree_sum_cong)
  moreover have "cum f n 0 i = subtree_sum f n i" using assms(2) by (simp add: cum_end)
  ultimately show ?thesis using assms by (simp add: heap_cum_def)
qed

lemma wh_find_law:
  assumes "heap_cum f n 0 heap" "segment_at (preorder heap i) (unat v) = Some r"
  shows "wh_find heap i v = Inr r"
  using assms
proof (induction heap i v rule: wh_find.induct)
  case (1 heap i v)
  let ?l = "i * 2 + 1" and ?w = "wh_weight (heap ! i)"
  have i: "\<not> length heap \<le> i" using 1(4) by (auto simp: preorder.simps)
  have n: "length heap = n" using 1(3) by (simp add: heap_cum_def)
  have pre: "preorder heap i = (unat ?w, wh_index (heap ! i)) # preorder heap ?l @ preorder heap (?l + 1)"
    using i by (simp add: preorder.simps [of heap i] mult.commute)
  show ?case
  proof (cases "v < ?w")
    case True
    with 1(4) i pre show ?thesis by (simp add: wh_find.simps [of heap i] word_less_nat_alt)
  next
    case False
    then have sub: "unat (v - ?w) = unat v - unat ?w" by (simp add: unat_sub word_le_nat_alt not_less)
    have rest: "segment_at (preorder heap ?l @ preorder heap (?l + 1)) (unat (v - ?w)) = Some r"
      using 1(4) False pre sub by (simp add: word_less_nat_alt)
    have l: "\<not> length heap \<le> ?l" using rest by (auto simp: preorder.simps)
    note tl = preorder_total [OF 1(3), of ?l]
    show ?thesis
    proof (cases "wh_cumulativeWeight (heap ! ?l) \<le> v - ?w")
      case True
      then have "unat (v - ?w - wh_cumulativeWeight (heap ! ?l)) = unat (v - ?w) - seg_total (preorder heap ?l)"
        using l n tl by (simp add: unat_sub)
      then have "segment_at (preorder heap (?l + 1)) (unat (v - ?w - wh_cumulativeWeight (heap ! ?l))) = Some r"
        using rest True l n tl by (simp add: segment_at_append word_le_nat_alt)
      from 1(1) [OF i refl refl False refl refl l refl True 1(3) this] True False l i show ?thesis
        by (simp add: wh_find.simps [of heap i] Let_def)
    next
      case F: False
      then have "segment_at (preorder heap ?l) (unat (v - ?w)) = Some r"
        using rest l n tl by (simp add: segment_at_append word_le_nat_alt)
      from 1(2) [OF i refl refl False refl refl l refl F 1(3) this] F False l i show ?thesis
        by (simp add: wh_find.simps [of heap i] Let_def)
    qed
  qed
qed

lemma count_mset_sum: "count (mset xs) x = sum_list (map (\<lambda>y. if y = x then 1 else 0) xs)"
  by (induction xs) auto

abbreviation wh_seg :: "weightedHeapElement \<Rightarrow> nat \<times> nat" where
  "wh_seg e \<equiv> (unat (wh_weight e), wh_index e)"

text \<open>The preorder of a heap passes every element once.\<close>

lemma mset_preorder: "mset (preorder heap 0) = mset (map wh_seg heap)"
proof (cases "heap = []")
  case False
  have "sum_list (map g (preorder heap 0)) = sum_list (map g (map wh_seg heap))" for g :: "nat \<times> nat \<Rightarrow> nat"
  proof -
    have "sum_list (map g (map wh_seg heap)) = (\<Sum>j < length heap. g (wh_seg (heap ! j)))"
      by (simp add: sum_list_sum_nth atLeast0LessThan)
    then show ?thesis unfolding preorder_sum using False by (simp add: subtree_sum_root)
  qed
  then show ?thesis by (intro multiset_eqI) (simp only: count_mset_sum)
qed (simp add: preorder.simps)

lemma wh_correct:
  assumes srt: "rearranges srt"
  shows "case wh_Initialize srt weights of
      Inl e \<Rightarrow> e = Math ErrOverflow \<and> 2 ^ 64 \<le> sum_list (map unat weights)
    | Inr heap \<Rightarrow> weighted_ok weights (wh_Sample heap) \<and> sum_list (map unat weights) < 2 ^ 64"
proof -
  let ?es = "map (\<lambda>(i, w). \<lparr>wh_weight = w, wh_cumulativeWeight = w, wh_index = i\<rparr>) (enumerate 0 weights)"
  define h where "h = srt wh_Less ?es"
  define n where "n = length h"
  define f where "f = (\<lambda>j. unat (wh_weight (h ! j)))"
  have out: "lays_out weights (map wh_seg h)"
    by (simp add: lays_out_def h_def mset_srt [OF srt] o_def case_prod_unfold del: mset_map)
  have tot: "(\<Sum>j < n. f j) = sum_list (map unat weights)"
    unfolding lays_out_total [OF out, symmetric] by (simp add: sum_list_sum_nth atLeast0LessThan n_def f_def)
  have "mset h = mset ?es" using srt unfolding rearranges_def h_def by blast
  then have "set h = set ?es" by (rule mset_eq_setD)
  then have "wh_cumulativeWeight e = wh_weight e" if "e \<in> set h" for e using that by auto
  then have start: "heap_cum f n (n - 1) h" unfolding heap_cum_def cum_start by (simp add: n_def f_def)
  show ?thesis
  proof (cases "h = []")
    case True
    have small: "sum_list (map unat weights) < 2 ^ 64" using True unfolding tot [symmetric] n_def by simp
    have "weighted_ok weights (wh_Sample [])"
      by (rule lays_out_ok [OF out small]) (simp add: True wh_Sample_def)
    with small True show ?thesis unfolding wh_Initialize_def h_def [symmetric] Let_def by simp
  next
    case False
    then have n: "0 < n" "n - 1 < n" by (simp_all add: n_def)
    note law = wh_accumulate_law [OF start n(2)]
    show ?thesis
    proof (cases "wh_accumulate (n - 1) h")
      case (Inl e)
      with law tot show ?thesis unfolding wh_Initialize_def h_def [symmetric] Let_def n_def [symmetric] by simp
    next
      case (Inr heap)
      with law have heap: "heap_cum f n 0 heap" "map wh_index heap = map wh_index h" by simp_all
      have "wh_index (heap ! j) = wh_index (h ! j)" if "j < n" for j
        using heap that by (metis heap_cum_def n_def nth_map)
      with heap(1) have "map wh_seg heap = map wh_seg h"
        by (intro nth_equalityI) (auto simp: heap_cum_def f_def n_def)
      then have out': "lays_out weights (preorder heap 0)" using out by (simp add: lays_out_def mset_preorder del: mset_map)
      have root: "unat (wh_cumulativeWeight (heap ! 0)) = sum_list (map unat weights)"
        using preorder_total [OF heap(1) n(1)] lays_out_total [OF out'] by simp
      then have small: "sum_list (map unat weights) < 2 ^ 64" by (metis unat_u64_less)
      have ne: "heap \<noteq> []" using heap(1) n by (auto simp: heap_cum_def)
      have "wh_Sample heap v = (case segment_at (preorder heap 0) (unat v) of Some i \<Rightarrow> Inr i | None \<Rightarrow> Inl ErrOutOfRange)" for v
      proof (cases "segment_at (preorder heap 0) (unat v)")
        case None
        moreover from this have "wh_cumulativeWeight (heap ! 0) \<le> v"
          using segment_at_None [of "preorder heap 0" "unat v"] lays_out_total [OF out'] root by (simp add: word_le_nat_alt)
        ultimately show ?thesis by (simp add: wh_Sample_def)
      next
        case (Some i)
        moreover from this have "\<not> wh_cumulativeWeight (heap ! 0) \<le> v"
          using segment_at_None [of "preorder heap 0" "unat v"] lays_out_total [OF out'] root by (simp add: word_le_nat_alt)
        ultimately show ?thesis using wh_find_law [OF heap(1) Some] ne by (simp add: wh_Sample_def)
      qed
      from lays_out_ok [OF out' small this] small Inr show ?thesis
        unfolding wh_Initialize_def h_def [symmetric] Let_def n_def [symmetric] by simp
    qed
  qed
qed

subsection \<open>The interface\<close>

lemma wwr_loop_indices:
  assumes dist: "distinct (remaining_list u)" and run: "wwr_loop smp w n u raws = Inr (indices, u', rest)"
  shows "\<exists>vs. length vs = n \<and> distinct vs \<and> set vs \<subseteq> set (remaining_list u) \<and> map (smp w) vs = map Inr indices
    \<and> ur_length u' = ur_length u"
  using dist run
proof (induction n arbitrary: u raws indices)
  case (Suc n)
  then obtain v u1 rest1 i ids where 1: "ur_Next u raws = Inr (v, u1, rest1)" "smp w v = Inr i"
    "wwr_loop smp w n u1 rest1 = Inr (ids, u', rest)" "indices = i # ids"
    by (auto simp: res_bind_Inr_iff)
  note next' = replacer.next_law [OF Suc.prems(1) 1(1)]
  have "ur_length u1 = ur_length u" using 1(1) by (auto elim!: ur_Next_Inr simp: ur_draw_def)
  with Suc.IH [OF _ 1(3)] next' obtain vs where "length vs = n" "distinct vs" "set vs \<subseteq> set (remaining_list u) - {v}"
    "map (smp w) vs = map Inr ids" "ur_length u' = ur_length u" by auto
  with 1 next' show ?case by (intro exI [of _ "v # vs"]) auto
qed simp

text \<open>No index is drawn more often than its weight, by any sampler that is exact for the weights.\<close>

lemma wwr_Sample_bounded:
  assumes ok: "weighted_ok weights (smp (snd s))" and tot: "unat (ur_length (fst s)) = sum_list (map unat weights)"
    and run: "wwr_Sample smp cnt s raws = Inr (indices, s', rest)"
  shows "length indices = cnt \<and> (\<forall>i \<in> set indices. i < length weights)
    \<and> (\<forall>i < length weights. count_list indices i \<le> unat (weights ! i)) \<and> snd s' = snd s \<and> ur_length (fst s') = ur_length (fst s)"
proof -
  obtain u w where s: "s = (u, w)" by (cases s)
  have u: "distinct (remaining_list (ur_Reset u))" "set (remaining_list (ur_Reset u)) = {x. x < ur_length u}"
    by (simp_all only: remaining_list_Reset below_list)
  obtain u' where loop: "wwr_loop smp w cnt (ur_Reset u) raws = Inr (indices, u', rest)" "s' = (u', w)"
    using run by (auto simp: s wwr_Sample_def res_bind_Inr_iff)
  obtain vs where vs: "length vs = cnt" "distinct vs" "set vs \<subseteq> {x. x < ur_length u}" "map (smp w) vs = map Inr indices"
    "ur_length u' = ur_length (ur_Reset u)"
    using wwr_loop_indices [OF u(1) loop(1)] unfolding u(2) by blast
  have len: "length indices = cnt" using arg_cong [OF vs(4), of length] vs(1) by simp
  have "i < length weights" if "i \<in> set indices" for i
  proof -
    have "Inr i \<in> set (map (smp w) vs)" using that vs(4) by simp
    then obtain v where "v \<in> set vs" "smp w v = Inr i" by auto
    moreover from this vs(3) tot s have "unat v < sum_list (map unat weights)" by (auto simp: word_less_nat_alt)
    then have "\<exists>i < length weights. smp w v = Inr i" using ok unfolding weighted_ok_def s snd_conv by presburger
    ultimately show ?thesis by auto
  qed
  moreover have "count_list indices i \<le> unat (weights ! i)" if "i < length weights" for i
  proof -
    have "count_list indices i = length (filter (\<lambda>r. r = Inr i) (map Inr indices :: (sampler_error + nat) list))"
      by (induction indices) auto
    also have "\<dots> = length (filter (\<lambda>v. smp w v = Inr i) vs)"
      unfolding vs(4) [symmetric] by (simp add: filter_map o_def)
    also have "\<dots> = card (set (filter (\<lambda>v. smp w v = Inr i) vs))"
      by (rule distinct_card [symmetric]) (simp add: vs(2))
    also have "\<dots> \<le> card {v. smp w v = Inr i}" by (rule card_mono) auto
    also have "\<dots> = unat (weights ! i)" using ok that by (simp add: weighted_ok_def s)
    finally show ?thesis .
  qed
  ultimately show ?thesis using len vs(5) loop(2) s by (simp add: ur_Reset_def)
qed

locale weighted_sampler =
  fixes init :: "'w \<Rightarrow> u64 list \<Rightarrow> u64 list \<Rightarrow> sampler_error + 'w \<times> u64 list" and smp :: "'w \<Rightarrow> u64 \<Rightarrow> sampler_error + nat"
  assumes init_law: "init w weights raws = Inr (w', rest) \<Longrightarrow> weighted_ok weights (smp w')"
begin

lemma wwr_Initialize_ok:
  assumes "wwr_Initialize init w weights raws = Inr (s, rest)"
  shows "weighted_ok weights (smp (snd s))" "unat (ur_length (fst s)) = sum_list (map unat weights)"
  using assms sum_weights_Inr [of 0 weights]
  by (auto simp: wwr_Initialize_def res_bind_Inr_iff ur_Initialize_def dest: init_law)

lemma wwr_bounded:
  assumes "wwr_Initialize init w weights raws = Inr (s, rest)" "wwr_Sample smp cnt s raws' = Inr (indices, s', rest')"
  shows "length indices = cnt \<and> (\<forall>i \<in> set indices. i < length weights)
    \<and> (\<forall>i < length weights. count_list indices i \<le> unat (weights ! i))"
  using wwr_Sample_bounded [OF wwr_Initialize_ok [OF assms(1)] assms(2)] by blast

end

text \<open>The table sampler keeps the contract; the heap does for every sorting function that rearranges. The heap is what
  \<^verbatim>\<open>NewDeterministicWeighted\<close> makes.\<close>

definition wu_init :: "weightedUniform \<Rightarrow> u64 list \<Rightarrow> u64 list \<Rightarrow> sampler_error + weightedUniform \<times> u64 list" where
  "wu_init s weights raws = res_bind (wu_Initialize s weights) (\<lambda>s'. Inr (s', raws))"

definition wh_init :: "weightedHeapElement sorter \<Rightarrow> weightedHeapElement list \<Rightarrow> u64 list \<Rightarrow> u64 list
    \<Rightarrow> sampler_error + weightedHeapElement list \<times> u64 list" where
  "wh_init srt heap weights raws = res_bind (wh_Initialize srt weights) (\<lambda>heap'. Inr (heap', raws))"

interpretation wu: weighted_sampler wu_init wu_Sample
proof
  fix w weights raws w' rest
  assume "wu_init w weights raws = Inr (w', rest)"
  then show "weighted_ok weights (wu_Sample w')"
    using wu_correct [where s = w and weights = weights] by (auto simp: wu_init_def res_bind_Inr_iff)
qed

lemma wh_weighted_sampler: "rearranges srt \<Longrightarrow> weighted_sampler (wh_init srt) wh_Sample"
proof
  fix w weights raws w' rest
  assume "rearranges srt" "wh_init srt w weights raws = Inr (w', rest)"
  then show "weighted_ok weights (wh_Sample w')"
    using wh_correct [of srt weights] by (auto simp: wh_init_def res_bind_Inr_iff)
qed

lemma best_loop_law:
  assumes "\<And>w w'. init w weights = Inr w' \<Longrightarrow> weighted_ok weights (smp w')" "\<And>w. best = Some w \<Longrightarrow> weighted_ok weights (smp w)"
    and "best_loop init smp weights samples best d samplers = Some w"
  shows "weighted_ok weights (smp w)"
  using assms
proof (induction init smp weights samples best d samplers rule: best_loop.induct)
  case (2 init smp weights samples best d sampler duration samplers)
  then show ?case by (auto split: sum.splits if_splits)
qed simp

text \<open>Weighted sampling is exact. Linear search, the heap and the table refuse to initialize exactly when the total
  weight does not fit 64 bits (the table also when it exceeds its limit); otherwise every value below the
  total leads to an index, exactly as many values to each index as its weight, and every other value is
  reported as out of range. No search leaves its slice.\<close>

theorem weighted_samplers_exact:
  assumes "rearranges srt" "rearranges srt'"
  shows "(case wl_Initialize srt weights of
        Inl e \<Rightarrow> e = Math ErrOverflow \<and> 2 ^ 64 \<le> sum_list (map unat weights)
      | Inr arr \<Rightarrow> weighted_ok weights (wl_Sample arr) \<and> sum_list (map unat weights) < 2 ^ 64)
    \<and> (case wh_Initialize srt' weights of
        Inl e \<Rightarrow> e = Math ErrOverflow \<and> 2 ^ 64 \<le> sum_list (map unat weights)
      | Inr heap \<Rightarrow> weighted_ok weights (wh_Sample heap) \<and> sum_list (map unat weights) < 2 ^ 64)
    \<and> (case wu_Initialize s weights of
        Inl e \<Rightarrow> e = Math ErrOverflow \<and> 2 ^ 64 \<le> sum_list (map unat weights)
          \<or> e = errWeightsTooLarge \<and> (unat (wu_maxWeight s) < sum_list (map unat weights) \<or> 2 ^ 31 \<le> sum_list (map unat weights))
      | Inr s' \<Rightarrow> weighted_ok weights (wu_Sample s') \<and> sum_list (map unat weights) < 2 ^ 64)"
  by (intro conjI wl_correct wh_correct wu_correct assms)

lemma key_sort_rearranges: "rearranges (\<lambda>lt xs. rev (sort_key key xs))"
  by (simp add: rearranges_def)

theorem weighted_samplers_exact_witness:
  "case wh_Initialize (\<lambda>lt xs. rev (sort_key wh_weight xs)) [3, 5, 1] of
     Inl e \<Rightarrow> e = Math ErrOverflow \<and> 2 ^ 64 \<le> sum_list (map unat [3, 5, 1 :: u64])
   | Inr heap \<Rightarrow> weighted_ok [3, 5, 1] (wh_Sample heap) \<and> sum_list (map unat [3, 5, 1 :: u64]) < 2 ^ 64"
  using weighted_samplers_exact [OF key_sort_rearranges [of wl_cumulativeWeight] key_sort_rearranges [of wh_weight]] by blast

text \<open>Of the samplers that it tries, the best-of sampler keeps one that has initialized, so that it is exact if each
  of them is. With the clock and the random benchmark values arbitrary, its choice is never worse than the
  contract.\<close>

theorem best_sampler_exact:
  assumes "\<And>w w'. init w weights = Inr w' \<Longrightarrow> weighted_ok weights (smp w')"
    and "best_Initialize init smp k samplers weights raws = Inr (w, rest)"
  shows "weighted_ok weights (smp w)"
proof -
  from assms(2) obtain samples where "best_loop init smp weights samples None (2 ^ 63 - 1) samplers = Some w"
    by (auto simp: best_Initialize_def res_bind_Inr_iff split: option.splits)
  from best_loop_law [OF assms(1) _ this] show ?thesis by simp
qed

theorem best_sampler_exact_witness:
  "weighted_ok [2, 3] (wu_Sample \<lparr>wu_indices = [0, 0, 1, 1, 1], wu_maxWeight = 1024\<rparr>)"
proof (rule best_sampler_exact [of wu_Initialize])
  show "weighted_ok [2, 3] (wu_Sample w')" if "wu_Initialize w [2, 3] = Inr w'" for w w'
    using wu_correct [where s = w and weights = "[2, 3]"] that by simp
  show "best_Initialize wu_Initialize wu_Sample 1 [(\<lparr>wu_indices = [], wu_maxWeight = 1024\<rparr>, 5)] [2, 3] [7]
      = Inr (\<lparr>wu_indices = [0, 0, 1, 1, 1], wu_maxWeight = 1024\<rparr>, [])" by code_simp
qed

text \<open>Weighted sampling without replacement: a sample has the number of indices asked for, all of them indices of
  weights, and no index more often than its weight, whatever numbers the generator delivers.\<close>

theorem sample_within_weights:
  assumes "rearranges srt" "wwr_Initialize (wh_init srt) w weights raws = Inr (s, rest)"
    and "wwr_Sample wh_Sample cnt s raws' = Inr (indices, s', rest')"
  shows "length indices = cnt \<and> (\<forall>i \<in> set indices. i < length weights)
    \<and> (\<forall>i < length weights. count_list indices i \<le> unat (weights ! i))"
  by (rule weighted_sampler.wwr_bounded [OF wh_weighted_sampler [OF assms(1)] assms(2,3)])

theorem sample_within_weights_witness:
  "map_sum id fst (wwr_Sample wh_Sample 3
       (ur_Initialize 5, [\<lparr>wh_weight = 4, wh_cumulativeWeight = 5, wh_index = 1\<rparr>, \<lparr>wh_weight = 1, wh_cumulativeWeight = 1, wh_index = 0\<rparr>])
       [0, 3, 0]) = Inr [1, 0, 1]
    \<and> count_list [1, 0, 1] (0 :: nat) \<le> unat ([1, 4 :: u64] ! 0) \<and> count_list [1, 0, 1] (1 :: nat) \<le> unat ([1, 4 :: u64] ! 1)"
proof -
  let ?heap = "[\<lparr>wh_weight = 4, wh_cumulativeWeight = 5, wh_index = 1\<rparr>, \<lparr>wh_weight = 1, wh_cumulativeWeight = 1, wh_index = 0\<rparr>]"
  let ?run = "wwr_Sample wh_Sample 3 (ur_Initialize 5, ?heap) [0, 3, 0]"
  have init: "wwr_Initialize (wh_init (\<lambda>lt xs. rev (sort_key wh_weight xs))) [] [1, 4] [] = Inr ((ur_Initialize 5, ?heap), [])"
    by (simp add: wwr_Initialize_def) code_simp
  have run: "map_sum id fst ?run = Inr [1, 0, 1]" by code_simp
  then obtain s' rest' where "?run = Inr ([1, 0, 1], s', rest')" by (cases ?run) auto
  from sample_within_weights [OF key_sort_rearranges [of wh_weight] init this]
  have "\<forall>i < length [1, 4 :: u64]. count_list [1, 0, 1] i \<le> unat ([1, 4 :: u64] ! i)" by blast
  then have "count_list [1, 0, 1] (0 :: nat) \<le> unat ([1, 4 :: u64] ! 0)" "count_list [1, 0, 1] (1 :: nat) \<le> unat ([1, 4 :: u64] ! 1)"
    by (metis length_Cons zero_less_Suc, metis length_Cons One_nat_def zero_less_Suc Suc_less_eq)
  with run show ?thesis by blast
qed

end
