(* ===== verification/Validator_Set.thy ===== *)
theory Validator_Set
  imports Weighted_Sampler Id_Bits
begin

text \<open>
  The set of validators of \<^verbatim>\<open>snow/validators/set.go\<close> and the manager of \<^verbatim>\<open>snow/validators/manager.go\<close>. The set keeps
  a validator twice, in a Go map by node and in a slice by position, with the weights in a second slice for
  the sampler; the map and the slice share pointers, so that a write through one is seen through the other.
  The pointers are addresses of an explicit store here. The listeners of a set are numbers, and the calls
  they get are appended to a log. The weighted sampler is any implementation of the interface \<^verbatim>\<open>Weighted\<close>, given
  by its two operations; the locks are left out.
\<close>

record ('n, 'p) Validator =
  NodeID :: 'n
  PublicKey :: "'p option"
  TxID :: ID
  Weight :: u64
  vindex :: nat

datatype vdr_error = errZeroWeight | errDuplicateValidator | errMissingValidator | ErrMissingValidators
  | Vdr_math math_error | Vdr_sampler sampler_error | Nil_pointer | Slice_index

datatype ('n, 'p) SetCallbackListener =
    OnValidatorAdded 'n "'p option" ID u64
  | OnValidatorRemoved 'n u64
  | OnValidatorWeightChanged 'n u64 u64

record ('n, 'p, 'w) vdrSet =
  store :: "nat \<rightharpoonup> ('n, 'p) Validator"
  fresh :: nat
  vdrs :: "'n \<rightharpoonup> nat"
  vdrSlice :: "nat list"
  weights :: "u64 list"
  totalWeight :: u64
  samplerInitialized :: bool
  sampler :: "uniformReplacer \<times> 'w"
  callbackListeners :: "nat list"
  calls :: "(nat \<times> ('n, 'p) SetCallbackListener) list"

definition vs_NewSet :: "'w \<Rightarrow> ('n, 'p, 'w) vdrSet" where
  "vs_NewSet w = \<lparr>store = Map.empty, fresh = 0, vdrs = Map.empty, vdrSlice = [], weights = [], totalWeight = 0,
     samplerInitialized = False, sampler = (ur_Initialize 0, w), callbackListeners = [], calls = []\<rparr>"

definition deref :: "('n, 'p, 'w) vdrSet \<Rightarrow> nat \<Rightarrow> vdr_error + ('n, 'p) Validator" where
  "deref s p = (case store s p of Some v \<Rightarrow> Inr v | None \<Rightarrow> Inl Nil_pointer)"

definition check_index :: "nat \<Rightarrow> 'a list \<Rightarrow> vdr_error + unit" where
  "check_index i xs = (if i < length xs then Inr () else Inl Slice_index)"

definition notify :: "('n, 'p) SetCallbackListener \<Rightarrow> ('n, 'p, 'w) vdrSet \<Rightarrow> ('n, 'p, 'w) vdrSet" where
  "notify c s = s\<lparr>calls := calls s @ map (\<lambda>l. (l, c)) (callbackListeners s)\<rparr>"

definition vs_Add :: "'n \<Rightarrow> 'p option \<Rightarrow> ID \<Rightarrow> u64 \<Rightarrow> ('n, 'p, 'w) vdrSet \<Rightarrow> vdr_error + ('n, 'p, 'w) vdrSet" where
  "vs_Add nodeID pk txID weight s =
     (if weight = 0 then Inl errZeroWeight
      else case vdrs s nodeID of
        Some _ \<Rightarrow> Inl errDuplicateValidator
      | None \<Rightarrow>
          (case Add64 (totalWeight s) weight of
             Inl e \<Rightarrow> Inl (Vdr_math e)
           | Inr newTotalWeight \<Rightarrow>
               let vdr = \<lparr>NodeID = nodeID, PublicKey = pk, TxID = txID, Weight = weight, vindex = length (vdrSlice s)\<rparr>
               in Inr (notify (OnValidatorAdded nodeID pk txID weight)
                    (s\<lparr>store := (store s)(fresh s \<mapsto> vdr), fresh := Suc (fresh s),
                       vdrs := (vdrs s)(nodeID \<mapsto> fresh s), vdrSlice := vdrSlice s @ [fresh s],
                       weights := weights s @ [weight], totalWeight := newTotalWeight, samplerInitialized := False\<rparr>))))"

definition vs_AddWeight :: "'n \<Rightarrow> u64 \<Rightarrow> ('n, 'p, 'w) vdrSet \<Rightarrow> vdr_error + ('n, 'p, 'w) vdrSet" where
  "vs_AddWeight nodeID weight s =
     (if weight = 0 then Inl errZeroWeight
      else case vdrs s nodeID of
        None \<Rightarrow> Inl errMissingValidator
      | Some p \<Rightarrow>
          (case Add64 (totalWeight s) weight of
             Inl e \<Rightarrow> Inl (Vdr_math e)
           | Inr newTotalWeight \<Rightarrow>
               res_bind (deref s p) (\<lambda>vdr.
                 res_bind (check_index (vindex vdr) (weights s)) (\<lambda>_.
                   Inr (notify (OnValidatorWeightChanged nodeID (Weight vdr) (Weight vdr + weight))
                     (s\<lparr>store := (store s)(p \<mapsto> vdr\<lparr>Weight := Weight vdr + weight\<rparr>),
                        weights := (weights s)[vindex vdr := weights s ! vindex vdr + weight],
                        totalWeight := newTotalWeight, samplerInitialized := False\<rparr>))))))"

definition getWeight :: "'n \<Rightarrow> ('n, 'p, 'w) vdrSet \<Rightarrow> vdr_error + u64" where
  "getWeight nodeID s = (case vdrs s nodeID of Some p \<Rightarrow> res_bind (deref s p) (\<lambda>vdr. Inr (Weight vdr)) | None \<Rightarrow> Inr 0)"

text \<open>The loop over a set of nodes, in the order the run visits them.\<close>

fun subsetWeight :: "'n list \<Rightarrow> ('n, 'p, 'w) vdrSet \<Rightarrow> u64 \<Rightarrow> vdr_error + u64" where
  "subsetWeight [] s acc = Inr acc"
| "subsetWeight (nodeID # nodes) s acc = res_bind (getWeight nodeID s) (\<lambda>w. subsetWeight nodes s (acc + w))"

definition SubsetWeight :: "'n list \<Rightarrow> ('n, 'p, 'w) vdrSet \<Rightarrow> vdr_error + u64" where
  "SubsetWeight nodes s = subsetWeight nodes s 0"

definition vs_RemoveWeight :: "'n \<Rightarrow> u64 \<Rightarrow> ('n, 'p, 'w) vdrSet \<Rightarrow> vdr_error + ('n, 'p, 'w) vdrSet" where
  "vs_RemoveWeight nodeID weight s =
     (if weight = 0 then Inl errZeroWeight
      else case vdrs s nodeID of
        None \<Rightarrow> Inl errMissingValidator
      | Some p \<Rightarrow>
          res_bind (deref s p) (\<lambda>vdr.
            case Sub (Weight vdr) weight of
              Inl e \<Rightarrow> Inl (Vdr_math e)
            | Inr newWeight \<Rightarrow>
                res_bind (check_index (vindex vdr) (weights s)) (\<lambda>_.
                res_bind (check_index (vindex vdr) (vdrSlice s)) (\<lambda>_.
                res_bind
                  (if newWeight = 0 then
                     let lastIndex = length (vdrSlice s) - 1; q = vdrSlice s ! lastIndex
                     in res_bind (deref s q) (\<lambda>vdrToSwap.
                       Inr (notify (OnValidatorRemoved nodeID (Weight vdr))
                         (s\<lparr>store := (store s)(q \<mapsto> vdrToSwap\<lparr>vindex := vindex vdr\<rparr>),
                            vdrSlice := take lastIndex ((vdrSlice s)[vindex vdr := q]),
                            weights := take lastIndex ((weights s)[vindex vdr := Weight vdrToSwap]),
                            vdrs := (vdrs s)(nodeID := None)\<rparr>)))
                   else
                     Inr (notify (OnValidatorWeightChanged nodeID (Weight vdr) newWeight)
                       (s\<lparr>store := (store s)(p \<mapsto> vdr\<lparr>Weight := newWeight\<rparr>),
                          weights := (weights s)[vindex vdr := newWeight]\<rparr>)))
                  (\<lambda>s'. Inr (s'\<lparr>totalWeight := totalWeight s' - weight, samplerInitialized := False\<rparr>))))))"

definition vs_Get :: "'n \<Rightarrow> ('n, 'p, 'w) vdrSet \<Rightarrow> vdr_error + ('n, 'p) Validator option" where
  "vs_Get nodeID s = (case vdrs s nodeID of None \<Rightarrow> Inr None | Some p \<Rightarrow> res_bind (deref s p) (\<lambda>v. Inr (Some v)))"

definition vs_Contains :: "'n \<Rightarrow> ('n, 'p, 'w) vdrSet \<Rightarrow> bool" where
  "vs_Contains nodeID s \<longleftrightarrow> vdrs s nodeID \<noteq> None"

definition vs_Len :: "('n, 'p, 'w) vdrSet \<Rightarrow> int" where
  "vs_Len s = int (length (vdrSlice s))"

definition vs_Weight :: "('n, 'p, 'w) vdrSet \<Rightarrow> u64" where
  "vs_Weight s = totalWeight s"

fun deref_all :: "('n, 'p, 'w) vdrSet \<Rightarrow> nat list \<Rightarrow> vdr_error + ('n, 'p) Validator list" where
  "deref_all s [] = Inr []"
| "deref_all s (p # ps) = res_bind (deref s p) (\<lambda>v. res_bind (deref_all s ps) (\<lambda>vs. Inr (v # vs)))"

text \<open>\<^verbatim>\<open>Map\<close>, the entries in the order of the slice.\<close>

definition vs_Map :: "('n, 'p, 'w) vdrSet \<Rightarrow> vdr_error + ('n, 'p option \<times> u64) gomap" where
  "vs_Map s = res_bind (deref_all s (vdrSlice s)) (\<lambda>vs. Inr (map (\<lambda>v. (NodeID v, PublicKey v, Weight v)) vs))"

definition RegisterCallbackListener :: "nat \<Rightarrow> ('n, 'p, 'w) vdrSet \<Rightarrow> vdr_error + ('n, 'p, 'w) vdrSet" where
  "RegisterCallbackListener l s =
     res_bind (deref_all s (vdrSlice s)) (\<lambda>vs.
       Inr (s\<lparr>callbackListeners := callbackListeners s @ [l],
              calls := calls s @ map (\<lambda>v. (l, OnValidatorAdded (NodeID v) (PublicKey v) (TxID v) (Weight v))) vs\<rparr>))"

fun node_ids :: "('n, 'p, 'w) vdrSet \<Rightarrow> nat list \<Rightarrow> vdr_error + 'n list" where
  "node_ids s [] = Inr []"
| "node_ids s (i # is') =
     res_bind (check_index i (vdrSlice s)) (\<lambda>_. res_bind (deref s (vdrSlice s ! i)) (\<lambda>v.
       res_bind (node_ids s is') (\<lambda>ns. Inr (NodeID v # ns))))"

definition vs_Sample :: "('w \<Rightarrow> u64 list \<Rightarrow> u64 list \<Rightarrow> sampler_error + 'w \<times> u64 list) \<Rightarrow> ('w \<Rightarrow> u64 \<Rightarrow> sampler_error + nat)
    \<Rightarrow> nat \<Rightarrow> ('n, 'p, 'w) vdrSet \<Rightarrow> u64 list \<Rightarrow> vdr_error + 'n list \<times> ('n, 'p, 'w) vdrSet \<times> u64 list" where
  "vs_Sample init smp size' s raws =
     (if size' = 0 then Inr ([], s, raws)
      else res_bind
        (if samplerInitialized s then Inr (s, raws)
         else (case wwr_Initialize init (snd (sampler s)) (weights s) raws of
                 Inl e \<Rightarrow> Inl (Vdr_sampler e)
               | Inr (smpl, rest) \<Rightarrow> Inr (s\<lparr>sampler := smpl, samplerInitialized := True\<rparr>, rest)))
        (\<lambda>(s, raws). case wwr_Sample smp size' (sampler s) raws of
           Inl e \<Rightarrow> Inl (Vdr_sampler e)
         | Inr (indices, smpl, rest) \<Rightarrow>
             res_bind (node_ids s indices) (\<lambda>ns. Inr (ns, s\<lparr>sampler := smpl\<rparr>, rest))))"

subsection \<open>The manager\<close>

text \<open>The manager leads a subnet to a set, by reference: the sets live in a store of their own.\<close>

record ('n, 'p, 'w) manager =
  subnetToVdrs :: "ID \<rightharpoonup> nat"
  vdr_sets :: "nat \<rightharpoonup> ('n, 'p, 'w) vdrSet"

definition NewManager :: "('n, 'p, 'w) manager" where
  "NewManager = \<lparr>subnetToVdrs = Map.empty, vdr_sets = Map.empty\<rparr>"

definition mgr_Add :: "ID \<Rightarrow> nat \<Rightarrow> ('n, 'p, 'w) manager \<Rightarrow> ('n, 'p, 'w) manager \<times> bool" where
  "mgr_Add subnetID ref m =
     (case subnetToVdrs m subnetID of
        Some _ \<Rightarrow> (m, False)
      | None \<Rightarrow> (m\<lparr>subnetToVdrs := (subnetToVdrs m)(subnetID \<mapsto> ref)\<rparr>, True))"

definition mgr_Get :: "ID \<Rightarrow> ('n, 'p, 'w) manager \<Rightarrow> (nat \<times> ('n, 'p, 'w) vdrSet) option" where
  "mgr_Get subnetID m = (case subnetToVdrs m subnetID of None \<Rightarrow> None
     | Some ref \<Rightarrow> map_option (\<lambda>s. (ref, s)) (vdr_sets m ref))"

text \<open>The helpers that fetch a set and change it.\<close>

definition on_set :: "ID \<Rightarrow> (('n, 'p, 'w) vdrSet \<Rightarrow> vdr_error + ('n, 'p, 'w) vdrSet) \<Rightarrow> ('n, 'p, 'w) manager \<Rightarrow> vdr_error + ('n, 'p, 'w) manager" where
  "on_set subnetID f m =
     (case mgr_Get subnetID m of
        None \<Rightarrow> Inl ErrMissingValidators
      | Some (ref, s) \<Rightarrow> res_bind (f s) (\<lambda>s'. Inr (m\<lparr>vdr_sets := (vdr_sets m)(ref \<mapsto> s')\<rparr>)))"

definition validators_Add :: "ID \<Rightarrow> 'n \<Rightarrow> 'p option \<Rightarrow> ID \<Rightarrow> u64 \<Rightarrow> ('n, 'p, 'w) manager \<Rightarrow> vdr_error + ('n, 'p, 'w) manager" where
  "validators_Add subnetID nodeID pk txID weight = on_set subnetID (vs_Add nodeID pk txID weight)"

definition validators_AddWeight :: "ID \<Rightarrow> 'n \<Rightarrow> u64 \<Rightarrow> ('n, 'p, 'w) manager \<Rightarrow> vdr_error + ('n, 'p, 'w) manager" where
  "validators_AddWeight subnetID nodeID weight = on_set subnetID (vs_AddWeight nodeID weight)"

definition validators_RemoveWeight :: "ID \<Rightarrow> 'n \<Rightarrow> u64 \<Rightarrow> ('n, 'p, 'w) manager \<Rightarrow> vdr_error + ('n, 'p, 'w) manager" where
  "validators_RemoveWeight subnetID nodeID weight = on_set subnetID (vs_RemoveWeight nodeID weight)"

definition validators_Contains :: "ID \<Rightarrow> 'n \<Rightarrow> ('n, 'p, 'w) manager \<Rightarrow> bool" where
  "validators_Contains subnetID nodeID m =
     (case mgr_Get subnetID m of None \<Rightarrow> False | Some (_, s) \<Rightarrow> vs_Contains nodeID s)"

definition NodeIDs :: "ID \<Rightarrow> ('n, 'p, 'w) manager \<Rightarrow> vdr_error + 'n list" where
  "NodeIDs subnetID m =
     (case mgr_Get subnetID m of
        None \<Rightarrow> Inl ErrMissingValidators
      | Some (_, s) \<Rightarrow> res_bind (vs_Map s) (\<lambda>vdrsMap. Inr (map fst vdrsMap)))"

subsection \<open>The invariant\<close>

text \<open>Each validator of the slice knows its position, the weights slice repeats its weight, the map leads to it and to
  nothing else, and the total is the sum of the weights.\<close>

definition slot_ok :: "('n, 'p, 'w) vdrSet \<Rightarrow> nat \<Rightarrow> bool" where
  "slot_ok s i \<longleftrightarrow> (\<exists>v. store s (vdrSlice s ! i) = Some v \<and> vindex v = i \<and> weights s ! i = Weight v \<and> Weight v \<noteq> 0
     \<and> vdrs s (NodeID v) = Some (vdrSlice s ! i))"

definition vs_inv :: "('n, 'p, 'w) vdrSet \<Rightarrow> bool" where
  "vs_inv s \<longleftrightarrow> length (weights s) = length (vdrSlice s) \<and> distinct (vdrSlice s)
     \<and> (\<forall>i < length (vdrSlice s). slot_ok s i)
     \<and> (\<forall>n p. vdrs s n = Some p \<longrightarrow> p \<in> set (vdrSlice s) \<and> (\<exists>v. store s p = Some v \<and> NodeID v = n))
     \<and> (\<forall>p \<in> set (vdrSlice s). p < fresh s)
     \<and> unat (totalWeight s) = sum_list (map unat (weights s))"

text \<open>What the set holds of a node: its key, transaction and weight.\<close>

definition vs_held :: "('n, 'p, 'w) vdrSet \<Rightarrow> 'n \<rightharpoonup> 'p option \<times> ID \<times> u64" where
  "vs_held s n = (case vdrs s n of None \<Rightarrow> None
     | Some p \<Rightarrow> map_option (\<lambda>v. (PublicKey v, TxID v, Weight v)) (store s p))"

lemma vs_invD:
  assumes "vs_inv s"
  shows "length (weights s) = length (vdrSlice s)" "distinct (vdrSlice s)"
    "i < length (vdrSlice s) \<Longrightarrow> slot_ok s i" "p \<in> set (vdrSlice s) \<Longrightarrow> p < fresh s"
    "vdrs s n = Some p \<Longrightarrow> p \<in> set (vdrSlice s) \<and> (\<exists>v. store s p = Some v \<and> NodeID v = n)"
    "unat (totalWeight s) = sum_list (map unat (weights s))"
  using assms unfolding vs_inv_def by blast+

lemma vs_lookup:
  assumes "vs_inv s" "vdrs s n = Some p"
  obtains v where "store s p = Some v" "NodeID v = n" "vindex v < length (vdrSlice s)" "vdrSlice s ! vindex v = p"
    "weights s ! vindex v = Weight v" "Weight v \<noteq> 0"
proof -
  obtain v where v: "p \<in> set (vdrSlice s)" "store s p = Some v" "NodeID v = n" using vs_invD(5) [OF assms] by blast
  then obtain i where i: "i < length (vdrSlice s)" "vdrSlice s ! i = p" by (auto simp: in_set_conv_nth)
  with vs_invD(3) [OF assms(1) i(1)] v have "vindex v = i" "weights s ! i = Weight v" "Weight v \<noteq> 0"
    by (auto simp: slot_ok_def)
  with v i that show thesis by blast
qed

lemma vs_held_None: "vs_inv s \<Longrightarrow> vs_held s n = None \<longleftrightarrow> vdrs s n = None"
  by (auto simp: vs_held_def dest: vs_invD(5) split: option.splits)

lemma sum_list_update_nat:
  "i < length xs \<Longrightarrow> sum_list (map f (xs[i := x])) + f (xs ! i) = sum_list (map f xs) + (f x :: nat)"
proof (induction xs arbitrary: i)
  case (Cons y xs)
  then show ?case by (cases i) (auto simp: add.assoc add.left_commute)
qed simp

lemma nth_le_sum_list: "i < length xs \<Longrightarrow> (f (xs ! i) :: nat) \<le> sum_list (map f xs)"
  using member_le_sum_list [of "f (xs ! i)" "map f xs"] by simp

lemma swap_remove_mset:
  assumes "i < length xs"
  shows "add_mset (xs ! i) (mset (take (length xs - 1) (xs[i := xs ! (length xs - 1)]))) = mset xs"
proof -
  obtain ys y where xs: "xs = ys @ [y]" using assms by (cases xs rule: rev_cases) auto
  show ?thesis
  proof (cases "i < length ys")
    case True
    then show ?thesis using xs by (simp add: nth_append list_update_append mset_update)
  next
    case False
    with assms xs have "i = length ys" by simp
    then show ?thesis using xs by simp
  qed
qed

lemma sum_list_swap_remove:
  assumes "i < length xs"
  shows "f (xs ! i) + sum_list (map f (take (length xs - 1) (xs[i := xs ! (length xs - 1)]))) = (sum_list (map f xs) :: nat)"
proof -
  have "sum_mset (image_mset f (add_mset (xs ! i) (mset (take (length xs - 1) (xs[i := xs ! (length xs - 1)])))))
      = sum_mset (image_mset f (mset xs))" unfolding swap_remove_mset [OF assms] ..
  then show ?thesis by (simp only: image_mset_add_mset sum_mset.add_mset mset_map [symmetric] sum_mset_sum_list)
qed

lemma vs_inv_NewSet: "vs_inv (vs_NewSet w)" "vs_held (vs_NewSet w) = Map.empty"
  by (auto simp: vs_inv_def vs_NewSet_def vs_held_def)

lemma notify_fields [simp]:
  "store (notify c s) = store s" "fresh (notify c s) = fresh s" "vdrs (notify c s) = vdrs s"
  "vdrSlice (notify c s) = vdrSlice s" "weights (notify c s) = weights s" "totalWeight (notify c s) = totalWeight s"
  "callbackListeners (notify c s) = callbackListeners s"
  by (simp_all add: notify_def)

lemma vs_inv_notify [simp]: "vs_inv (notify c s) = vs_inv s" "vs_held (notify c s) = vs_held s"
  by (simp_all add: vs_inv_def slot_ok_def vs_held_def fun_eq_iff cong: option.case_cong)

lemma vs_Add_law:
  assumes inv: "vs_inv s"
  shows "case vs_Add n pk tx w s of
      Inr s' \<Rightarrow> w \<noteq> 0 \<and> vs_held s n = None \<and> unat (totalWeight s) + unat w < 2 ^ 64
        \<and> vs_inv s' \<and> vs_held s' = (vs_held s)(n \<mapsto> (pk, tx, w))
    | Inl e \<Rightarrow> e = (if w = 0 then errZeroWeight else if vs_held s n \<noteq> None then errDuplicateValidator else Vdr_math ErrOverflow)
        \<and> (w = 0 \<or> vs_held s n \<noteq> None \<or> 2 ^ 64 \<le> unat (totalWeight s) + unat w)"
proof (cases "w = 0 \<or> vdrs s n \<noteq> None")
  case True
  then show ?thesis using vs_held_None [OF inv, of n] by (auto simp: vs_Add_def)
next
  case False
  then have new: "w \<noteq> 0" "vdrs s n = None" by auto
  show ?thesis
  proof (cases rule: Add64_cases [of "totalWeight s" w])
    case overflow
    then show ?thesis using new vs_held_None [OF inv, of n] by (simp add: vs_Add_def)
  next
    case (ok c)
    let ?v = "\<lparr>NodeID = n, PublicKey = pk, TxID = tx, Weight = w, vindex = length (vdrSlice s)\<rparr>"
    define s' where "s' = s\<lparr>store := (store s)(fresh s \<mapsto> ?v), fresh := Suc (fresh s),
       vdrs := (vdrs s)(n \<mapsto> fresh s), vdrSlice := vdrSlice s @ [fresh s],
       weights := weights s @ [w], totalWeight := c, samplerInitialized := False\<rparr>"
    have fresh: "p \<in> set (vdrSlice s) \<Longrightarrow> p \<noteq> fresh s" for p using vs_invD(4) [OF inv] by blast
    have slot: "slot_ok s' i" if "i < length (vdrSlice s')" for i
    proof (cases "i < length (vdrSlice s)")
      case True
      then obtain v where "store s (vdrSlice s ! i) = Some v" "vindex v = i" "weights s ! i = Weight v" "Weight v \<noteq> 0"
        "vdrs s (NodeID v) = Some (vdrSlice s ! i)" using vs_invD(3) [OF inv] by (auto simp: slot_ok_def)
      then show ?thesis using True fresh [of "vdrSlice s ! i"] vs_invD(1) [OF inv] new
        by (auto simp: slot_ok_def s'_def nth_append)
    next
      case False
      with that have "i = length (vdrSlice s)" by (simp add: s'_def)
      then show ?thesis using new vs_invD(1) [OF inv] by (simp add: slot_ok_def s'_def nth_append)
    qed
    have "vs_inv s'" unfolding vs_inv_def
    proof (intro conjI)
      show "\<forall>i < length (vdrSlice s'). slot_ok s' i" using slot by blast
      show "\<forall>n p. vdrs s' n = Some p \<longrightarrow> p \<in> set (vdrSlice s') \<and> (\<exists>v. store s' p = Some v \<and> NodeID v = n)"
        using vs_invD(5) [OF inv] fresh by (auto simp: s'_def)
    qed (use vs_invD(1,2,6) [OF inv] vs_invD(4) [OF inv] fresh ok(3) in \<open>auto simp: s'_def less_Suc_eq\<close>)
    moreover have "vs_held s' = (vs_held s)(n \<mapsto> (pk, tx, w))"
      using fresh vs_invD(5) [OF inv] by (auto simp: vs_held_def s'_def fun_eq_iff split: option.splits)
    moreover have "vs_Add n pk tx w s = Inr (notify (OnValidatorAdded n pk tx w) s')"
      using new ok(1) by (simp add: vs_Add_def s'_def Let_def)
    ultimately show ?thesis using new ok vs_held_None [OF inv, of n] by simp
  qed
qed

text \<open>Giving a validator a new weight.\<close>

lemma reweigh_law:
  assumes inv: "vs_inv s" and p: "vdrs s n = Some p" "store s p = Some v" and w: "w \<noteq> 0"
    and t: "unat t + unat (Weight v) = unat (totalWeight s) + unat w"
  defines "s' \<equiv> s\<lparr>store := (store s)(p \<mapsto> v\<lparr>Weight := w\<rparr>), weights := (weights s)[vindex v := w],
     totalWeight := t, samplerInitialized := False\<rparr>"
  shows "vs_inv s'" "vs_held s' = (vs_held s)(n \<mapsto> (PublicKey v, TxID v, w))"
proof -
  obtain v' where "store s p = Some v'" "NodeID v' = n" "vindex v' < length (vdrSlice s)" "vdrSlice s ! vindex v' = p"
    "weights s ! vindex v' = Weight v'" using vs_lookup [OF inv p(1)] .
  then have v: "NodeID v = n" "vindex v < length (vdrSlice s)" "vdrSlice s ! vindex v = p" "weights s ! vindex v = Weight v"
    using p(2) by simp_all
  note len = vs_invD(1) [OF inv]
  have slot: "slot_ok s' i" if "i < length (vdrSlice s')" for i
  proof (cases "i = vindex v")
    case True
    then show ?thesis using v p w len by (auto simp: slot_ok_def s'_def)
  next
    case False
    from that have i: "i < length (vdrSlice s)" by (simp add: s'_def)
    then have "vdrSlice s ! i \<noteq> p" using v False vs_invD(2) [OF inv] by (auto simp: nth_eq_iff_index_eq)
    with vs_invD(3) [OF inv i] False show ?thesis by (auto simp: slot_ok_def s'_def)
  qed
  have sum: "sum_list (map unat ((weights s)[vindex v := w])) + unat (Weight v) = unat (totalWeight s) + unat w"
    using sum_list_update_nat [of "vindex v" "weights s" unat w] v len vs_invD(6) [OF inv] by simp
  have only: "n' = n" if "vdrs s n' = Some p" for n' using vs_invD(5) [OF inv that] p(2) v(1) by auto
  show "vs_inv s'" unfolding vs_inv_def
  proof (intro conjI)
    show "\<forall>i < length (vdrSlice s'). slot_ok s' i" using slot by blast
    show "\<forall>n p. vdrs s' n = Some p \<longrightarrow> p \<in> set (vdrSlice s') \<and> (\<exists>v. store s' p = Some v \<and> NodeID v = n)"
    proof (intro allI impI)
      fix n' p' assume n': "vdrs s' n' = Some p'"
      then have "vdrs s n' = Some p'" by (simp add: s'_def)
      with vs_invD(5) [OF inv this] only [of n'] v(1) show "p' \<in> set (vdrSlice s') \<and> (\<exists>v. store s' p' = Some v \<and> NodeID v = n')"
        by (cases "p' = p") (auto simp: s'_def)
    qed
    have "unat t = sum_list (map unat ((weights s)[vindex v := w]))" using sum t by linarith
    then show "unat (totalWeight s') = sum_list (map unat (weights s'))" by (simp add: s'_def)
    show "length (weights s') = length (vdrSlice s')" "distinct (vdrSlice s')" using len vs_invD(2) [OF inv] by (simp_all add: s'_def)
    show "\<forall>p \<in> set (vdrSlice s'). p < fresh s'" using vs_invD(4) [OF inv] by (simp add: s'_def)
  qed
  show "vs_held s' = (vs_held s)(n \<mapsto> (PublicKey v, TxID v, w))"
  proof (rule ext)
    fix m
    show "vs_held s' m = ((vs_held s)(n \<mapsto> (PublicKey v, TxID v, w))) m"
    proof (cases "vdrs s m")
      case None
      with p(1) show ?thesis by (auto simp: vs_held_def s'_def)
    next
      case (Some p')
      then have "p' = p \<longleftrightarrow> m = n" using only [of m] p(1) by auto
      with Some show ?thesis by (simp add: vs_held_def s'_def)
    qed
  qed
qed

lemma weight_le_total: "vs_inv s \<Longrightarrow> vdrs s n = Some p \<Longrightarrow> store s p = Some v \<Longrightarrow> unat (Weight v) \<le> unat (totalWeight s)"
proof -
  assume inv: "vs_inv s" and "vdrs s n = Some p" "store s p = Some v"
  then obtain v' where "v' = v" "vindex v' < length (vdrSlice s)" "weights s ! vindex v' = Weight v'"
    using vs_lookup by (metis option.inject)
  then show ?thesis using nth_le_sum_list [of "vindex v" "weights s" unat] vs_invD(1,6) [OF inv] by simp
qed

lemma vs_AddWeight_law:
  assumes inv: "vs_inv s"
  shows "case vs_AddWeight n w s of
      Inr s' \<Rightarrow> w \<noteq> 0 \<and> unat (totalWeight s) + unat w < 2 ^ 64 \<and> vs_inv s'
        \<and> (\<exists>pk tx w'. vs_held s n = Some (pk, tx, w') \<and> unat (w' + w) = unat w' + unat w
             \<and> vs_held s' = (vs_held s)(n \<mapsto> (pk, tx, w' + w)))
    | Inl e \<Rightarrow> e = (if w = 0 then errZeroWeight else if vs_held s n = None then errMissingValidator else Vdr_math ErrOverflow)
        \<and> (w = 0 \<or> vs_held s n = None \<or> 2 ^ 64 \<le> unat (totalWeight s) + unat w)"
proof (cases "w = 0 \<or> vdrs s n = None")
  case True
  then show ?thesis using vs_held_None [OF inv, of n] by (auto simp: vs_AddWeight_def)
next
  case False
  then obtain p where p: "w \<noteq> 0" "vdrs s n = Some p" by auto
  obtain v where v: "store s p = Some v" "vindex v < length (vdrSlice s)" "weights s ! vindex v = Weight v" "Weight v \<noteq> 0"
    using vs_lookup [OF inv p(2)] by metis
  have held: "vs_held s n = Some (PublicKey v, TxID v, Weight v)" using p v by (simp add: vs_held_def)
  show ?thesis
  proof (cases rule: Add64_cases [of "totalWeight s" w])
    case overflow
    then show ?thesis using p held by (simp add: vs_AddWeight_def)
  next
    case (ok t)
    have fits: "unat (Weight v + w) = unat (Weight v) + unat w"
      using weight_le_total [OF inv p(2) v(1)] ok(4) by (intro unat_plus_if_fits) simp
    then have nz: "Weight v + w \<noteq> 0" using p(1) by (metis add_is_0 unat_eq_zero)
    let ?s = "s\<lparr>store := (store s)(p \<mapsto> v\<lparr>Weight := Weight v + w\<rparr>), weights := (weights s)[vindex v := Weight v + w],
       totalWeight := t, samplerInitialized := False\<rparr>"
    have "unat t + unat (Weight v) = unat (totalWeight s) + unat (Weight v + w)" using ok(3) fits by simp
    note law = reweigh_law [OF inv p(2) v(1) nz this]
    have "vs_AddWeight n w s = Inr (notify (OnValidatorWeightChanged n (Weight v) (Weight v + w)) ?s)"
      using p v ok(1) vs_invD(1) [OF inv] by (simp add: vs_AddWeight_def deref_def check_index_def)
    with law held fits p(1) ok(4) show ?thesis by simp
  qed
qed

lemma distinct_mset_remove:
  assumes "add_mset x (mset ys) = mset xs" "distinct xs"
  shows "distinct ys" "set ys = set xs - {x}"
proof -
  have "mset (x # ys) = mset xs" using assms(1) by simp
  then have "distinct (x # ys)" "set (x # ys) = set xs" using assms(2) mset_eq_imp_distinct_iff mset_eq_setD by blast+
  then show "distinct ys" "set ys = set xs - {x}" by auto
qed

text \<open>Removing a validator: the last one takes its place.\<close>

lemma remove_law:
  assumes inv: "vs_inv s" and p: "vdrs s n = Some p" "store s p = Some v"
    and q: "q = vdrSlice s ! (length (vdrSlice s) - 1)" "store s q = Some vq"
    and t: "unat t + unat (Weight v) = unat (totalWeight s)"
  defines "s' \<equiv> s\<lparr>store := (store s)(q \<mapsto> vq\<lparr>vindex := vindex v\<rparr>),
     vdrSlice := take (length (vdrSlice s) - 1) ((vdrSlice s)[vindex v := q]),
     weights := take (length (vdrSlice s) - 1) ((weights s)[vindex v := Weight vq]),
     vdrs := (vdrs s)(n := None), totalWeight := t, samplerInitialized := False\<rparr>"
  shows "vs_inv s'" "vs_held s' = (vs_held s)(n := None)"
proof -
  let ?L = "length (vdrSlice s) - 1" and ?i = "vindex v"
  obtain v' where "store s p = Some v'" "NodeID v' = n" "vindex v' < length (vdrSlice s)" "vdrSlice s ! vindex v' = p"
    "weights s ! vindex v' = Weight v'" using vs_lookup [OF inv p(1)] .
  then have v: "NodeID v = n" "?i < length (vdrSlice s)" "vdrSlice s ! ?i = p" "weights s ! ?i = Weight v"
    using p(2) by simp_all
  have L: "?L < length (vdrSlice s)" using v(2) by simp
  have last: "vindex vq = ?L" "weights s ! ?L = Weight vq" "Weight vq \<noteq> 0" "vdrs s (NodeID vq) = Some q"
    using vs_invD(3) [OF inv L] q by (auto simp: slot_ok_def)
  note len = vs_invD(1) [OF inv] and dist = vs_invD(2) [OF inv]
  have slice: "distinct (vdrSlice s')" "set (vdrSlice s') = set (vdrSlice s) - {p}"
    using distinct_mset_remove [OF swap_remove_mset [OF v(2)] dist] v(3) q(1) by (simp_all add: s'_def)
  have slot: "slot_ok s' j" if "j < length (vdrSlice s')" for j
  proof -
    from that have j: "j < ?L" by (simp add: s'_def)
    show ?thesis
    proof (cases "j = ?i")
      case True
      with j v dist q(1) L have "q \<noteq> p" by (auto simp: nth_eq_iff_index_eq)
      then have "NodeID vq \<noteq> n" using p(1) last(4) by auto
      with True j last L len show ?thesis by (auto simp: slot_ok_def s'_def)
    next
      case False
      then have "vdrSlice s ! j \<noteq> q" "vdrSlice s ! j \<noteq> p" using j v L dist q(1) by (auto simp: nth_eq_iff_index_eq)
      moreover obtain w where "store s (vdrSlice s ! j) = Some w" "vindex w = j" "weights s ! j = Weight w" "Weight w \<noteq> 0"
        "vdrs s (NodeID w) = Some (vdrSlice s ! j)" using vs_invD(3) [OF inv, of j] less_trans [OF j L] unfolding slot_ok_def by blast
      ultimately show ?thesis using False j p(1) by (auto simp: slot_ok_def s'_def)
    qed
  qed
  have "weights s ! (length (weights s) - 1) = Weight vq" using last(2) len by simp
  then have sum: "unat (Weight v) + sum_list (map unat (weights s')) = unat (totalWeight s)"
    using sum_list_swap_remove [of ?i "weights s" unat] v(2,4) len vs_invD(6) [OF inv] by (simp add: s'_def)
  have only: "n' = NodeID vq" if "vdrs s n' = Some q" for n' using vs_invD(5) [OF inv that] q(2) by auto
  have notp: "p' \<noteq> p" if "vdrs s n' = Some p'" "n' \<noteq> n" for n' p' using vs_invD(5) [OF inv that(1)] p(2) v(1) that(2) by auto
  show "vs_inv s'" unfolding vs_inv_def
  proof (intro conjI)
    show "\<forall>i < length (vdrSlice s'). slot_ok s' i" using slot by blast
    show "\<forall>n p. vdrs s' n = Some p \<longrightarrow> p \<in> set (vdrSlice s') \<and> (\<exists>v. store s' p = Some v \<and> NodeID v = n)"
    proof (intro allI impI)
      fix n' p' assume "vdrs s' n' = Some p'"
      then have n': "vdrs s n' = Some p'" "n' \<noteq> n" by (auto simp: s'_def split: if_splits)
      with vs_invD(5) [OF inv n'(1)] notp [OF n'] only [of n'] slice(2)
      show "p' \<in> set (vdrSlice s') \<and> (\<exists>v. store s' p' = Some v \<and> NodeID v = n')"
        by (cases "p' = q") (auto simp: s'_def)
    qed
    show "unat (totalWeight s') = sum_list (map unat (weights s'))" using sum t by (simp add: s'_def)
    show "\<forall>p \<in> set (vdrSlice s'). p < fresh s'" using slice(2) vs_invD(4) [OF inv] by (simp add: s'_def)
  qed (use len slice(1) in \<open>simp_all add: s'_def\<close>)
  show "vs_held s' = (vs_held s)(n := None)"
    using q(2) by (auto simp: vs_held_def s'_def fun_eq_iff split: option.splits)
qed

lemma vs_RemoveWeight_law:
  assumes inv: "vs_inv s"
  shows "case vs_RemoveWeight n w s of
      Inr s' \<Rightarrow> w \<noteq> 0 \<and> vs_inv s'
        \<and> (\<exists>pk tx w'. vs_held s n = Some (pk, tx, w') \<and> unat w \<le> unat w'
             \<and> vs_held s' = (vs_held s)(n := if w' = w then None else Some (pk, tx, w' - w)))
    | Inl e \<Rightarrow> (w = 0 \<and> e = errZeroWeight) \<or> (w \<noteq> 0 \<and> vs_held s n = None \<and> e = errMissingValidator)
        \<or> (\<exists>pk tx w'. w \<noteq> 0 \<and> vs_held s n = Some (pk, tx, w') \<and> unat w' < unat w \<and> e = Vdr_math ErrUnderflow)"
proof (cases "w = 0 \<or> vdrs s n = None")
  case True
  then show ?thesis using vs_held_None [OF inv, of n] by (auto simp: vs_RemoveWeight_def)
next
  case False
  then obtain p where p: "w \<noteq> 0" "vdrs s n = Some p" by auto
  obtain v where v: "store s p = Some v" "vindex v < length (vdrSlice s)" "weights s ! vindex v = Weight v" "Weight v \<noteq> 0"
    using vs_lookup [OF inv p(2)] by metis
  have held: "vs_held s n = Some (PublicKey v, TxID v, Weight v)" using p v by (simp add: vs_held_def)
  show ?thesis
  proof (cases "Weight v < w")
    case True
    then show ?thesis using p v held by (simp add: vs_RemoveWeight_def deref_def Sub_def word_less_nat_alt)
  next
    case False
    then have le: "unat w \<le> unat (Weight v)" by (simp add: word_less_nat_alt)
    have sub: "Sub (Weight v) w = Inr (Weight v - w)" using False by (simp add: Sub_def)
    have wv: "unat (Weight v - w) = unat (Weight v) - unat w" using le by (simp add: unat_sub word_le_nat_alt)
    have tot: "unat (Weight v) \<le> unat (totalWeight s)" using weight_le_total [OF inv p(2) v(1)] .
    then have tw: "unat (totalWeight s - w) = unat (totalWeight s) - unat w" using le by (simp add: unat_sub word_le_nat_alt)
    show ?thesis
    proof (cases "Weight v = w")
      case True
      have L: "length (vdrSlice s) - 1 < length (vdrSlice s)" using v(2) by simp
      define q where "q = vdrSlice s ! (length (vdrSlice s) - 1)"
      obtain vq where vq: "store s q = Some vq" using vs_invD(3) [OF inv L] by (auto simp: slot_ok_def q_def)
      have "unat (totalWeight s - w) + unat (Weight v) = unat (totalWeight s)" using tw tot True by simp
      note law = remove_law [OF inv p(2) v(1) q_def vq this]
      let ?s = "s\<lparr>store := (store s)(q \<mapsto> vq\<lparr>vindex := vindex v\<rparr>),
         vdrSlice := take (length (vdrSlice s) - 1) ((vdrSlice s)[vindex v := q]),
         weights := take (length (vdrSlice s) - 1) ((weights s)[vindex v := Weight vq]),
         vdrs := (vdrs s)(n := None), totalWeight := totalWeight s - w, samplerInitialized := False\<rparr>"
      have "vs_RemoveWeight n w s = Inr (notify (OnValidatorRemoved n (Weight v)) ?s)"
        using p v True vq sub vs_invD(1) [OF inv]
        by (simp add: vs_RemoveWeight_def deref_def check_index_def Let_def q_def [symmetric] notify_def del: One_nat_def)
      with law held p(1) True show ?thesis by simp
    next
      case ne: False
      then have nz: "Weight v - w \<noteq> 0" by simp
      have "unat (totalWeight s - w) + unat (Weight v) = unat (totalWeight s) + unat (Weight v - w)" using tw wv le tot by simp
      note law = reweigh_law [OF inv p(2) v(1) nz this]
      let ?s = "s\<lparr>store := (store s)(p \<mapsto> v\<lparr>Weight := Weight v - w\<rparr>), weights := (weights s)[vindex v := Weight v - w],
         totalWeight := totalWeight s - w, samplerInitialized := False\<rparr>"
      have "vs_RemoveWeight n w s = Inr (notify (OnValidatorWeightChanged n (Weight v) (Weight v - w)) ?s)"
        using p v ne sub nz vs_invD(1) [OF inv] by (simp add: vs_RemoveWeight_def deref_def check_index_def notify_def)
      with law held p(1) le ne show ?thesis by simp
    qed
  qed
qed

subsection \<open>Reading the set\<close>

lemma getWeight_law:
  "vs_inv s \<Longrightarrow> getWeight n s = Inr (case vs_held s n of None \<Rightarrow> 0 | Some (_, _, w) \<Rightarrow> w)"
  by (auto simp: getWeight_def vs_held_def deref_def dest: vs_invD(5) split: option.splits)

definition weight_of :: "('n, 'p, 'w) vdrSet \<Rightarrow> 'n \<Rightarrow> nat" where
  "weight_of s n = (case vs_held s n of None \<Rightarrow> 0 | Some (_, _, w) \<Rightarrow> unat w)"

definition node_at :: "('n, 'p, 'w) vdrSet \<Rightarrow> nat \<Rightarrow> 'n" where
  "node_at s i = NodeID (the (store s (vdrSlice s ! i)))"

lemma node_at_law:
  assumes "vs_inv s" "i < length (vdrSlice s)"
  shows "vdrs s (node_at s i) = Some (vdrSlice s ! i)" "weight_of s (node_at s i) = unat (weights s ! i)"
    "\<exists>v. store s (vdrSlice s ! i) = Some v \<and> NodeID v = node_at s i"
  using vs_invD(3) [OF assms] by (auto simp: slot_ok_def node_at_def weight_of_def vs_held_def)

lemma node_at_inj: "vs_inv s \<Longrightarrow> inj_on (node_at s) {..< length (vdrSlice s)}"
proof (rule inj_onI)
  fix i j assume inv: "vs_inv s" and ij: "i \<in> {..< length (vdrSlice s)}" "j \<in> {..< length (vdrSlice s)}" "node_at s i = node_at s j"
  then have "vdrSlice s ! i = vdrSlice s ! j" using node_at_law(1) [OF inv, of i] node_at_law(1) [OF inv, of j] by simp
  then show "i = j" using ij vs_invD(2) [OF inv] by (simp add: nth_eq_iff_index_eq)
qed

lemma node_at_image: "vs_inv s \<Longrightarrow> node_at s ` {..< length (vdrSlice s)} = dom (vs_held s)"
proof (intro set_eqI iffI)
  fix n assume inv: "vs_inv s" and "n \<in> node_at s ` {..< length (vdrSlice s)}"
  then obtain i where i: "i < length (vdrSlice s)" "n = node_at s i" by auto
  with node_at_law(1) [OF inv i(1)] vs_held_None [OF inv, of n] show "n \<in> dom (vs_held s)" by auto
next
  fix n assume inv: "vs_inv s" and "n \<in> dom (vs_held s)"
  then obtain p where p: "vdrs s n = Some p" using vs_held_None [OF inv, of n] by auto
  then obtain v where "store s p = Some v" "NodeID v = n" "vindex v < length (vdrSlice s)" "vdrSlice s ! vindex v = p"
    using vs_lookup [OF inv] by metis
  then show "n \<in> node_at s ` {..< length (vdrSlice s)}" by (auto simp: node_at_def intro!: image_eqI [of _ _ "vindex v"])
qed

lemma finite_held: "vs_inv s \<Longrightarrow> finite (dom (vs_held s))"
  using node_at_image [of s] by (metis finite_imageI finite_lessThan)

text \<open>The total is the sum of the weights of the nodes held.\<close>

lemma total_is_sum:
  assumes inv: "vs_inv s"
  shows "unat (totalWeight s) = (\<Sum>n \<in> dom (vs_held s). weight_of s n)"
proof -
  have "(\<Sum>n \<in> dom (vs_held s). weight_of s n) = (\<Sum>i < length (vdrSlice s). weight_of s (node_at s i))"
    unfolding node_at_image [OF inv, symmetric] by (simp add: sum.reindex node_at_inj [OF inv])
  also have "\<dots> = (\<Sum>i < length (weights s). unat (weights s ! i))"
    using node_at_law(2) [OF inv] vs_invD(1) [OF inv] by simp
  also have "\<dots> = sum_list (map unat (weights s))" by (simp add: sum_list_sum_nth atLeast0LessThan)
  finally show ?thesis using vs_invD(6) [OF inv] by simp
qed

lemma weight_of_out: "n \<notin> dom (vs_held s) \<Longrightarrow> weight_of s n = 0"
  by (cases "vs_held s n") (auto simp: weight_of_def dom_def)

lemma sum_weights_le:
  assumes "vs_inv s" "finite N"
  shows "(\<Sum>n \<in> N. weight_of s n) \<le> unat (totalWeight s)"
proof -
  have "(\<Sum>n \<in> N. weight_of s n) = (\<Sum>n \<in> N \<inter> dom (vs_held s). weight_of s n)"
    using assms(2) by (intro sum.mono_neutral_right) (auto simp: weight_of_out)
  also have "\<dots> \<le> (\<Sum>n \<in> dom (vs_held s). weight_of s n)"
    by (rule sum_mono2 [OF finite_held [OF assms(1)]]) auto
  finally show ?thesis using total_is_sum [OF assms(1)] by simp
qed

lemma subsetWeight_law:
  assumes inv: "vs_inv s" and "unat acc + (\<Sum>n \<leftarrow> ns. weight_of s n) < 2 ^ 64"
  shows "\<exists>w. subsetWeight ns s acc = Inr w \<and> unat w = unat acc + (\<Sum>n \<leftarrow> ns. weight_of s n)"
  using assms(2)
proof (induction ns arbitrary: acc)
  case (Cons n ns)
  let ?w = "case vs_held s n of None \<Rightarrow> 0 | Some (_, _, w) \<Rightarrow> w"
  have w: "unat ?w = weight_of s n" by (auto simp: weight_of_def split: option.splits)
  then have "unat (acc + ?w) = unat acc + weight_of s n" using Cons.prems by (subst unat_plus_if_fits) auto
  with Cons.IH [of "acc + ?w"] Cons.prems w show ?case by (simp add: getWeight_law [OF inv] add.assoc)
qed simp

subsection \<open>The contract of a set\<close>

text \<open>The calls that change a set, and what they do to the nodes it holds, with the error of a refused call.\<close>

datatype ('n, 'p) set_call =
    Call_Add 'n "'p option" ID u64
  | Call_AddWeight 'n u64
  | Call_RemoveWeight 'n u64
  | Call_Register nat

definition total_of :: "('n \<rightharpoonup> 'p option \<times> ID \<times> u64) \<Rightarrow> nat" where
  "total_of m = (\<Sum>n \<in> dom m. case m n of None \<Rightarrow> 0 | Some (_, _, w) \<Rightarrow> unat w)"

fun spec_call :: "('n, 'p) set_call \<Rightarrow> ('n \<rightharpoonup> 'p option \<times> ID \<times> u64) \<Rightarrow> vdr_error + ('n \<rightharpoonup> 'p option \<times> ID \<times> u64)" where
  "spec_call (Call_Add n pk tx w) m =
     (if w = 0 then Inl errZeroWeight
      else if m n \<noteq> None then Inl errDuplicateValidator
      else if 2 ^ 64 \<le> total_of m + unat w then Inl (Vdr_math ErrOverflow)
      else Inr (m(n \<mapsto> (pk, tx, w))))"
| "spec_call (Call_AddWeight n w) m =
     (if w = 0 then Inl errZeroWeight
      else case m n of
        None \<Rightarrow> Inl errMissingValidator
      | Some (pk, tx, w') \<Rightarrow>
          if 2 ^ 64 \<le> total_of m + unat w then Inl (Vdr_math ErrOverflow) else Inr (m(n \<mapsto> (pk, tx, w' + w))))"
| "spec_call (Call_RemoveWeight n w) m =
     (if w = 0 then Inl errZeroWeight
      else case m n of
        None \<Rightarrow> Inl errMissingValidator
      | Some (pk, tx, w') \<Rightarrow>
          if w' < w then Inl (Vdr_math ErrUnderflow)
          else Inr (m(n := if w' = w then None else Some (pk, tx, w' - w))))"
| "spec_call (Call_Register l) m = Inr m"

fun vs_call :: "('n, 'p) set_call \<Rightarrow> ('n, 'p, 'w) vdrSet \<Rightarrow> vdr_error + ('n, 'p, 'w) vdrSet" where
  "vs_call (Call_Add n pk tx w) s = vs_Add n pk tx w s"
| "vs_call (Call_AddWeight n w) s = vs_AddWeight n w s"
| "vs_call (Call_RemoveWeight n w) s = vs_RemoveWeight n w s"
| "vs_call (Call_Register l) s = RegisterCallbackListener l s"

text \<open>A run of calls, in which a refused call changes nothing.\<close>

definition after_call :: "('c \<Rightarrow> 's \<Rightarrow> 'e + 's) \<Rightarrow> 'c \<Rightarrow> 's \<Rightarrow> 's" where
  "after_call f c s = (case f c s of Inr s' \<Rightarrow> s' | Inl _ \<Rightarrow> s)"

definition run_calls :: "('c \<Rightarrow> 's \<Rightarrow> 'e + 's) \<Rightarrow> 'c list \<Rightarrow> 's \<Rightarrow> 's" where
  "run_calls f = fold (after_call f)"

locale set_contract =
  fixes inv :: "'s \<Rightarrow> bool" and held :: "'s \<Rightarrow> 'n \<rightharpoonup> 'p option \<times> ID \<times> u64"
    and call :: "('n, 'p) set_call \<Rightarrow> 's \<Rightarrow> vdr_error + 's" and new :: 's
  assumes new_law: "inv new" "held new = Map.empty"
    and call_law: "inv s \<Longrightarrow> map_sum id held (call c s) = spec_call c (held s)"
    and call_inv: "inv s \<Longrightarrow> call c s = Inr s' \<Longrightarrow> inv s'"
begin

lemma after_call_law:
  assumes "inv s"
  shows "inv (after_call call c s)" "held (after_call call c s) = after_call spec_call c (held s)"
  using assms call_law [OF assms, of c, symmetric] call_inv [OF assms, of c]
  by (auto simp: after_call_def split: sum.splits)

lemma run_law: "inv s \<Longrightarrow> inv (run_calls call cs s) \<and> held (run_calls call cs s) = run_calls spec_call cs (held s)"
  by (induction cs arbitrary: s) (simp_all add: run_calls_def after_call_law)

lemma run_new: "inv (run_calls call cs new)" "held (run_calls call cs new) = run_calls spec_call cs Map.empty"
  using run_law [OF new_law(1)] new_law(2) by simp_all

end

lemma total_of_held: "vs_inv s \<Longrightarrow> total_of (vs_held s) = unat (totalWeight s)"
  using total_is_sum [of s] by (simp add: total_of_def weight_of_def)

lemma deref_all_Inr:
  assumes "\<And>p. p \<in> set ps \<Longrightarrow> store s p \<noteq> None"
  shows "deref_all s ps = Inr (map (\<lambda>p. the (store s p)) ps)"
  using assms
proof (induction ps)
  case (Cons p ps)
  then obtain v where "store s p = Some v" by fastforce
  with Cons show ?case by (simp add: deref_def)
qed simp

lemma slice_deref:
  assumes "vs_inv s"
  shows "deref_all s (vdrSlice s) = Inr (map (\<lambda>p. the (store s p)) (vdrSlice s))"
proof (rule deref_all_Inr)
  fix p assume "p \<in> set (vdrSlice s)"
  then obtain i where "i < length (vdrSlice s)" "p = vdrSlice s ! i" by (auto simp: in_set_conv_nth)
  with vs_invD(3) [OF assms, of i] show "store s p \<noteq> None" by (auto simp: slot_ok_def)
qed

lemma Register_law:
  assumes inv: "vs_inv s"
  shows "RegisterCallbackListener l s = Inr (s\<lparr>callbackListeners := callbackListeners s @ [l],
      calls := calls s @ map (\<lambda>p. let v = the (store s p) in (l, OnValidatorAdded (NodeID v) (PublicKey v) (TxID v) (Weight v))) (vdrSlice s)\<rparr>)"
    "vs_inv (s\<lparr>callbackListeners := ls, calls := cs\<rparr>)" "vs_held (s\<lparr>callbackListeners := ls, calls := cs\<rparr>) = vs_held s"
  using inv by (simp_all add: RegisterCallbackListener_def slice_deref Let_def o_def vs_inv_def slot_ok_def vs_held_def fun_eq_iff
      cong: option.case_cong)

lemma vs_call_law:
  assumes inv: "vs_inv s"
  shows "map_sum id vs_held (vs_call c s) = spec_call c (vs_held s)" "vs_call c s = Inr s' \<Longrightarrow> vs_inv s'"
proof -
  have "map_sum id vs_held (vs_call c s) = spec_call c (vs_held s) \<and> (\<forall>s'. vs_call c s = Inr s' \<longrightarrow> vs_inv s')"
  proof (cases c)
    case (Call_Add n pk tx w)
    with vs_Add_law [OF inv, where n = n and pk = pk and tx = tx and w = w] show ?thesis
      by (cases "vs_Add n pk tx w s") (auto simp: total_of_held [OF inv] split: if_splits)
  next
    case (Call_AddWeight n w)
    with vs_AddWeight_law [OF inv, where n = n and w = w] show ?thesis
      by (cases "vs_AddWeight n w s") (auto simp: total_of_held [OF inv] split: if_splits option.splits)
  next
    case (Call_RemoveWeight n w)
    with vs_RemoveWeight_law [OF inv, where n = n and w = w] show ?thesis
      by (cases "vs_RemoveWeight n w s") (auto simp: word_less_nat_alt)
  next
    case (Call_Register l)
    then show ?thesis by (simp add: Register_law [OF inv])
  qed
  then show "map_sum id vs_held (vs_call c s) = spec_call c (vs_held s)" "vs_call c s = Inr s' \<Longrightarrow> vs_inv s'" by blast+
qed

interpretation vset: set_contract vs_inv vs_held vs_call "vs_NewSet w" for w
  by unfold_locales (auto simp: vs_inv_NewSet vs_call_law)

lemma vs_Len_held: "vs_inv s \<Longrightarrow> vs_Len s = int (card (dom (vs_held s)))"
  using card_image [OF node_at_inj, of s] node_at_image [of s] by (simp add: vs_Len_def)

subsection \<open>What a listener knows\<close>

text \<open>A listener that keeps the weights it is told of.\<close>

fun hear :: "('n, 'p) SetCallbackListener \<Rightarrow> ('n \<rightharpoonup> u64) \<Rightarrow> 'n \<rightharpoonup> u64" where
  "hear (OnValidatorAdded n _ _ w) m = m(n \<mapsto> w)"
| "hear (OnValidatorRemoved n _) m = m(n := None)"
| "hear (OnValidatorWeightChanged n _ w) m = m(n \<mapsto> w)"

definition view :: "nat \<Rightarrow> (nat \<times> ('n, 'p) SetCallbackListener) list \<Rightarrow> 'n \<rightharpoonup> u64" where
  "view l cs = fold hear (map snd (filter (\<lambda>c. fst c = l) cs)) Map.empty"

definition weights_held :: "('n \<rightharpoonup> 'p option \<times> ID \<times> u64) \<Rightarrow> 'n \<rightharpoonup> u64" where
  "weights_held m n = map_option (\<lambda>(_, _, w). w) (m n)"

definition listeners_ok :: "('n, 'p, 'w) vdrSet \<Rightarrow> bool" where
  "listeners_ok s \<longleftrightarrow> fst ` set (calls s) \<subseteq> set (callbackListeners s)
     \<and> (\<forall>l \<in> set (callbackListeners s). view l (calls s) = weights_held (vs_held s))"

lemma hear_twice: "hear c (hear c m) = hear c m"
  by (cases c) auto

lemma view_notify:
  "l \<in> set ls \<Longrightarrow> view l (cs @ map (\<lambda>l. (l, c)) ls) = hear c (view l cs)"
proof -
  have "fold hear (map snd (filter (\<lambda>c. fst c = l) (map (\<lambda>l. (l, c)) ls))) m = (if l \<in> set ls then hear c m else m)" for m
    by (induction ls arbitrary: m) (auto simp: hear_twice)
  then show "l \<in> set ls \<Longrightarrow> ?thesis" by (simp add: view_def)
qed

lemma notify_ok:
  assumes "listeners_ok s" "calls s' = calls s @ map (\<lambda>l. (l, c)) (callbackListeners s)" "callbackListeners s' = callbackListeners s"
    "weights_held (vs_held s') = hear c (weights_held (vs_held s))"
  shows "listeners_ok s'"
  using assms by (auto simp: listeners_ok_def view_notify)

text \<open>A listener that joins is told of every validator there is.\<close>

lemma fold_added:
  assumes "\<And>p. p \<in> set ps \<Longrightarrow> W (NodeID (f p)) = Some (Weight (f p))" "m \<subseteq>\<^sub>m W"
    and cs: "cs = map (\<lambda>p. OnValidatorAdded (NodeID (f p)) (PublicKey (f p)) (TxID (f p)) (Weight (f p))) ps"
  shows "fold hear cs m \<subseteq>\<^sub>m W \<and> dom (fold hear cs m) = dom m \<union> (\<lambda>p. NodeID (f p)) ` set ps"
  using assms(1,2) unfolding cs
proof (induction ps rule: rev_induct)
  case (snoc p ps)
  define r where "r = fold hear (map (\<lambda>p. OnValidatorAdded (NodeID (f p)) (PublicKey (f p)) (TxID (f p)) (Weight (f p))) ps) m"
  have r: "r \<subseteq>\<^sub>m W" "dom r = dom m \<union> (\<lambda>p. NodeID (f p)) ` set ps" "W (NodeID (f p)) = Some (Weight (f p))"
    using snoc unfolding r_def by simp_all
  then have "r(NodeID (f p) \<mapsto> Weight (f p)) \<subseteq>\<^sub>m W" by (auto simp: map_le_def)
  then show ?case using r by (simp add: r_def [symmetric] del: fun_upd_apply)
qed simp

lemma map_le_dom_eq: "m \<subseteq>\<^sub>m W \<Longrightarrow> dom W \<subseteq> dom m \<Longrightarrow> m = W"
  by (rule map_le_antisym) (auto simp: map_le_def subset_iff)

lemma slice_held:
  assumes inv: "vs_inv s"
  shows "p \<in> set (vdrSlice s) \<Longrightarrow> weights_held (vs_held s) (NodeID (the (store s p))) = Some (Weight (the (store s p)))"
    "(\<lambda>p. NodeID (the (store s p))) ` set (vdrSlice s) = dom (vs_held s)"
proof -
  assume "p \<in> set (vdrSlice s)"
  then obtain i where "i < length (vdrSlice s)" "p = vdrSlice s ! i" by (auto simp: in_set_conv_nth)
  with vs_invD(3) [OF inv, of i] show "weights_held (vs_held s) (NodeID (the (store s p))) = Some (Weight (the (store s p)))"
    by (auto simp: slot_ok_def weights_held_def vs_held_def)
next
  have "set (vdrSlice s) = (!) (vdrSlice s) ` {..< length (vdrSlice s)}" by (auto simp: set_conv_nth)
  then show "(\<lambda>p. NodeID (the (store s p))) ` set (vdrSlice s) = dom (vs_held s)"
    using node_at_image [OF inv] by (simp add: image_image node_at_def)
qed

lemma Register_listeners:
  assumes inv: "vs_inv s" and ok: "listeners_ok s" and run: "RegisterCallbackListener l s = Inr s'"
  shows "listeners_ok s'"
proof -
  let ?W = "weights_held (vs_held s)" and ?f = "\<lambda>p. the (store s p)"
  let ?new = "map (\<lambda>p. OnValidatorAdded (NodeID (?f p)) (PublicKey (?f p)) (TxID (?f p)) (Weight (?f p))) (vdrSlice s)"
  have s': "callbackListeners s' = callbackListeners s @ [l]" "calls s' = calls s @ map (\<lambda>c. (l, c)) ?new" "vs_held s' = vs_held s"
    using run Register_law(1,3) [OF inv] by (auto simp: Let_def)
  have old: "view l (calls s) \<subseteq>\<^sub>m ?W"
  proof (cases "l \<in> set (callbackListeners s)")
    case False
    with ok have "filter (\<lambda>c. fst c = l) (calls s) = []" by (auto simp: listeners_ok_def filter_empty_conv)
    then show ?thesis by (simp add: view_def)
  qed (use ok in \<open>simp add: listeners_ok_def\<close>)
  have "dom ?W = dom (vs_held s)" by (auto simp: weights_held_def dom_def)
  then have "fold hear ?new (view l (calls s)) = ?W"
    using fold_added [where W = ?W and f = ?f, OF slice_held(1) [OF inv] old refl] slice_held(2) [OF inv]
    by (intro map_le_dom_eq) auto
  moreover have "map snd (filter (\<lambda>c. fst c = l') (map (\<lambda>c. (l, c)) ?new)) = (if l' = l then ?new else [])" for l'
    by (auto simp: filter_map o_def)
  ultimately have "view l' (calls s') = (if l' = l then ?W else view l' (calls s))" for l'
    by (simp add: view_def s'(2))
  with ok show ?thesis by (auto simp: listeners_ok_def s')
qed

lemma vs_Add_calls:
  "vs_Add n pk tx w s = Inr s' \<Longrightarrow> calls s' = calls s @ map (\<lambda>l. (l, OnValidatorAdded n pk tx w)) (callbackListeners s)
    \<and> callbackListeners s' = callbackListeners s \<and> \<not> samplerInitialized s'"
  by (auto simp: vs_Add_def Let_def notify_def split: if_splits option.splits sum.splits)

lemma vs_AddWeight_calls:
  "vs_AddWeight n w s = Inr s' \<Longrightarrow> \<exists>p v. vdrs s n = Some p \<and> store s p = Some v
    \<and> calls s' = calls s @ map (\<lambda>l. (l, OnValidatorWeightChanged n (Weight v) (Weight v + w))) (callbackListeners s)
    \<and> callbackListeners s' = callbackListeners s \<and> \<not> samplerInitialized s'"
  by (auto simp: vs_AddWeight_def deref_def notify_def res_bind_Inr_iff split: if_splits option.splits sum.splits)

lemma vs_RemoveWeight_calls:
  assumes run: "vs_RemoveWeight n w s = Inr s'"
  shows "\<exists>p v. vdrs s n = Some p \<and> store s p = Some v
    \<and> calls s' = calls s @ map (\<lambda>l. (l, if Weight v = w then OnValidatorRemoved n (Weight v)
         else OnValidatorWeightChanged n (Weight v) (Weight v - w))) (callbackListeners s)
    \<and> callbackListeners s' = callbackListeners s \<and> \<not> samplerInitialized s'"
proof -
  from run obtain p v where pv: "vdrs s n = Some p" "store s p = Some v" "w \<noteq> 0" "\<not> Weight v < w"
    by (auto simp: vs_RemoveWeight_def deref_def Sub_def split: if_splits option.splits)
  show ?thesis
  proof (cases "Weight v = w")
    case True
    with run pv show ?thesis
      by (auto simp: vs_RemoveWeight_def deref_def Sub_def Let_def notify_def res_bind_Inr_iff)
  next
    case False
    then have "Weight v - w \<noteq> 0" by simp
    with run pv show ?thesis
      by (auto simp: vs_RemoveWeight_def deref_def Sub_def notify_def res_bind_Inr_iff)
  qed
qed

lemma vs_call_listeners:
  assumes inv: "vs_inv s" and ok: "listeners_ok s" and run: "vs_call c s = Inr s'"
  shows "listeners_ok s'"
proof (cases c)
  case (Call_Add n pk tx w)
  with run have run: "vs_Add n pk tx w s = Inr s'" by simp
  from vs_Add_law [OF inv, where n = n and pk = pk and tx = tx and w = w] vs_Add_calls [OF run] show ?thesis
    unfolding run by (auto intro!: notify_ok [OF ok] simp: weights_held_def fun_eq_iff)
next
  case (Call_AddWeight n w)
  with run have run: "vs_AddWeight n w s = Inr s'" by simp
  from vs_AddWeight_law [OF inv, where n = n and w = w] vs_AddWeight_calls [OF run] show ?thesis
    unfolding run by (auto intro!: notify_ok [OF ok] simp: weights_held_def vs_held_def [of s n] fun_eq_iff)
next
  case (Call_RemoveWeight n w)
  with run have run: "vs_RemoveWeight n w s = Inr s'" by simp
  from vs_RemoveWeight_law [OF inv, where n = n and w = w] vs_RemoveWeight_calls [OF run] show ?thesis
    unfolding run by (auto intro!: notify_ok [OF ok] simp: weights_held_def vs_held_def [of s n] fun_eq_iff)
qed (use run Register_listeners [OF inv ok] in simp)

lemma run_listeners: "listeners_ok (run_calls vs_call cs (vs_NewSet w))"
proof (induction cs rule: rev_induct)
  case Nil
  show ?case by (simp add: run_calls_def listeners_ok_def vs_NewSet_def)
next
  case (snoc c cs)
  then show ?case using vs_call_listeners [OF vset.run_new(1)]
    by (auto simp: run_calls_def after_call_def split: sum.splits)
qed

subsection \<open>Sampling\<close>

text \<open>A sampler that is set up is exact for the weights of the set.\<close>

definition sampler_ok :: "('w \<Rightarrow> u64 \<Rightarrow> sampler_error + nat) \<Rightarrow> ('n, 'p, 'w) vdrSet \<Rightarrow> bool" where
  "sampler_ok smp s \<longleftrightarrow> (samplerInitialized s \<longrightarrow> weighted_ok (weights s) (smp (snd (sampler s)))
     \<and> unat (ur_length (fst (sampler s))) = sum_list (map unat (weights s)))"

lemma vs_call_sampler: "sampler_ok smp s \<Longrightarrow> vs_call c s = Inr s' \<Longrightarrow> sampler_ok smp s'"
  by (cases c) (auto simp: sampler_ok_def RegisterCallbackListener_def res_bind_Inr_iff
      dest!: vs_Add_calls vs_AddWeight_calls vs_RemoveWeight_calls)

lemma run_sampler: "sampler_ok smp (run_calls vs_call cs (vs_NewSet w))"
proof (induction cs rule: rev_induct)
  case Nil
  show ?case by (simp add: run_calls_def sampler_ok_def vs_NewSet_def)
next
  case (snoc c cs)
  then show ?case using vs_call_sampler [of smp _ c]
    by (auto simp: run_calls_def after_call_def split: sum.splits)
qed

lemma node_ids_law:
  assumes inv: "vs_inv s" and "\<forall>i \<in> set is'. i < length (vdrSlice s)"
  shows "node_ids s is' = Inr (map (node_at s) is')"
  using assms(2)
proof (induction is')
  case (Cons i is')
  then obtain v where "store s (vdrSlice s ! i) = Some v" "NodeID v = node_at s i" using node_at_law(3) [OF inv, of i] by auto
  with Cons show ?case by (simp add: check_index_def deref_def)
qed simp

lemma count_node_at:
  assumes inv: "vs_inv s" and "\<forall>i \<in> set is'. i < length (vdrSlice s)" "\<forall>i < length (vdrSlice s). count_list is' i \<le> unat (weights s ! i)"
  shows "count_list (map (node_at s) is') n \<le> weight_of s n"
proof (cases "n \<in> dom (vs_held s)")
  case True
  then obtain i where i: "i < length (vdrSlice s)" "n = node_at s i" using node_at_image [OF inv] by auto
  have "count_list (map (node_at s) is') (node_at s i) = count_list is' i"
    using assms(2) node_at_inj [OF inv] i(1) by (induction is') (auto dest: inj_onD)
  with assms(3) i node_at_law(2) [OF inv] show ?thesis by simp
next
  case False
  then have "n \<notin> set (map (node_at s) is')" using assms(2) node_at_image [OF inv] by auto
  then show ?thesis by simp
qed

lemma sampled_fields [simp]:
  "vs_inv (s\<lparr>sampler := x\<rparr>) = vs_inv s" "vs_held (s\<lparr>sampler := x\<rparr>) = vs_held s"
  "vs_inv (s\<lparr>samplerInitialized := b\<rparr>) = vs_inv s" "vs_held (s\<lparr>samplerInitialized := b\<rparr>) = vs_held s"
  by (simp_all add: vs_inv_def slot_ok_def vs_held_def fun_eq_iff cong: option.case_cong)

lemma weight_of_held: "vs_held s = vs_held s' \<Longrightarrow> weight_of s = weight_of s'"
  by (simp add: weight_of_def fun_eq_iff)

text \<open>With the sampler set up.\<close>

lemma sample_nodes:
  assumes inv: "vs_inv s" and ok: "sampler_ok smp s" and init: "samplerInitialized s"
    and run: "wwr_Sample smp k (sampler s) raws = Inr (indices, smpl, rest)"
  shows "\<exists>ns. node_ids s indices = Inr ns \<and> length ns = k \<and> (\<forall>n. count_list ns n \<le> weight_of s n)
    \<and> sampler_ok smp (s\<lparr>sampler := smpl\<rparr>)"
proof -
  have ok': "weighted_ok (weights s) (smp (snd (sampler s)))" "unat (ur_length (fst (sampler s))) = sum_list (map unat (weights s))"
    using ok init by (simp_all add: sampler_ok_def)
  have bounded: "length indices = k" "\<forall>i \<in> set indices. i < length (vdrSlice s)"
    "\<forall>i < length (vdrSlice s). count_list indices i \<le> unat (weights s ! i)" "snd smpl = snd (sampler s)"
    "ur_length (fst smpl) = ur_length (fst (sampler s))"
    using wwr_Sample_bounded [OF ok' run] vs_invD(1) [OF inv] by simp_all
  have "sampler_ok smp (s\<lparr>sampler := smpl\<rparr>)" using ok' bounded(4,5) by (simp add: sampler_ok_def)
  with node_ids_law [OF inv bounded(2)] count_node_at [OF inv bounded(2,3)] bounded(1) show ?thesis by simp
qed

lemma vs_Sample_law:
  assumes ws: "weighted_sampler init smp" and inv: "vs_inv s" and ok: "sampler_ok smp s"
  shows "case vs_Sample init smp k s raws of
      Inr (ns, s', rest) \<Rightarrow> length ns = k \<and> (\<forall>n. count_list ns n \<le> weight_of s n)
        \<and> vs_inv s' \<and> sampler_ok smp s' \<and> vs_held s' = vs_held s
    | Inl e \<Rightarrow> e \<in> range Vdr_sampler"
proof (cases "k = 0")
  case False
  let ?init = "if samplerInitialized s then Inr (s, raws)
     else (case wwr_Initialize init (snd (sampler s)) (weights s) raws of
             Inl e \<Rightarrow> Inl (Vdr_sampler e)
           | Inr (smpl, rest) \<Rightarrow> Inr (s\<lparr>sampler := smpl, samplerInitialized := True\<rparr>, rest))"
  show ?thesis
  proof (cases ?init)
    case (Inl e)
    then have "e \<in> range Vdr_sampler" by (auto split: if_splits sum.splits)
    with Inl False show ?thesis by (simp add: vs_Sample_def)
  next
    case (Inr p)
    then obtain s1 raws1 where p: "?init = Inr (s1, raws1)" by (cases p) simp
    then have s1: "samplerInitialized s1" "vs_inv s1" "vs_held s1 = vs_held s" "sampler_ok smp s1"
      using inv ok weighted_sampler.wwr_Initialize_ok [OF ws, of "snd (sampler s)" "weights s" raws]
      by (auto simp: sampler_ok_def split: if_splits sum.splits)
    have eq: "vs_Sample init smp k s raws = (case wwr_Sample smp k (sampler s1) raws1 of
         Inl e \<Rightarrow> Inl (Vdr_sampler e)
       | Inr (indices, smpl, rest) \<Rightarrow> res_bind (node_ids s1 indices) (\<lambda>ns. Inr (ns, s1\<lparr>sampler := smpl\<rparr>, rest)))"
      using False p by (simp add: vs_Sample_def)
    show ?thesis
    proof (cases "wwr_Sample smp k (sampler s1) raws1")
      case (Inr r)
      then obtain indices smpl rest where "wwr_Sample smp k (sampler s1) raws1 = Inr (indices, smpl, rest)" by (cases r) auto
      with sample_nodes [OF s1(2,4,1) this] eq s1 weight_of_held [OF s1(3)] show ?thesis by auto
    qed (use eq in simp)
  qed
qed (use inv ok in \<open>simp add: vs_Sample_def\<close>)

subsection \<open>The manager and its sets\<close>

text \<open>Every subnet leads to a set. Two subnets may lead to the same set, as \<^verbatim>\<open>Add\<close> takes any set.\<close>

definition mgr_inv :: "('n, 'p, 'w) manager \<Rightarrow> bool" where
  "mgr_inv m \<longleftrightarrow> ran (subnetToVdrs m) \<subseteq> dom (vdr_sets m) \<and> (\<forall>s \<in> ran (vdr_sets m). vs_inv s)"

text \<open>What each set holds.\<close>

definition mgr_held :: "('n, 'p, 'w) manager \<Rightarrow> nat \<rightharpoonup> ('n \<rightharpoonup> 'p option \<times> ID \<times> u64)" where
  "mgr_held m ref = map_option vs_held (vdr_sets m ref)"

lemma mgr_invD:
  assumes "mgr_inv m" "subnetToVdrs m a = Some ref"
  obtains s where "vdr_sets m ref = Some s" "vs_inv s"
proof -
  from assms have "ref \<in> dom (vdr_sets m)" by (auto simp: mgr_inv_def intro: ranI)
  then obtain s where "vdr_sets m ref = Some s" by blast
  with assms(1) that show thesis by (auto simp: mgr_inv_def intro: ranI)
qed

lemma mgr_set_change:
  fixes ref
  assumes "mgr_inv m" "vs_inv s'"
  defines "m' \<equiv> m\<lparr>vdr_sets := (vdr_sets m)(ref \<mapsto> s')\<rparr>"
  shows "mgr_inv m'" "mgr_held m' = (mgr_held m)(ref \<mapsto> vs_held s')" "subnetToVdrs m' = subnetToVdrs m"
  using assms by (auto simp: mgr_inv_def m'_def mgr_held_def ran_def split: if_splits)

lemma vs_call_eta: "vs_call (Call_Add n pk tx w) = vs_Add n pk tx w" "vs_call (Call_AddWeight n w) = vs_AddWeight n w"
    "vs_call (Call_RemoveWeight n w) = vs_RemoveWeight n w"
  by (simp_all add: fun_eq_iff)

text \<open>The contract of a manager: sets by reference, and the reference of each subnet. A call for a subnet is a call on its set.\<close>

definition spec_on_set :: "ID \<Rightarrow> ('n, 'p) set_call \<Rightarrow> (nat \<rightharpoonup> ('n \<rightharpoonup> 'p option \<times> ID \<times> u64)) \<times> (ID \<rightharpoonup> nat)
    \<Rightarrow> vdr_error + (nat \<rightharpoonup> ('n \<rightharpoonup> 'p option \<times> ID \<times> u64)) \<times> (ID \<rightharpoonup> nat)" where
  "spec_on_set a c M = (case snd M a of
     None \<Rightarrow> Inl ErrMissingValidators
   | Some ref \<Rightarrow> map_sum id (\<lambda>h. ((fst M)(ref \<mapsto> h), snd M)) (spec_call c (the (fst M ref))))"

definition mgr_abs :: "('n, 'p, 'w) manager \<Rightarrow> (nat \<rightharpoonup> ('n \<rightharpoonup> 'p option \<times> ID \<times> u64)) \<times> (ID \<rightharpoonup> nat)" where
  "mgr_abs m = (mgr_held m, subnetToVdrs m)"

lemma on_set_law:
  assumes inv: "mgr_inv m"
  shows "map_sum id mgr_abs (on_set a (vs_call c) m) = spec_on_set a c (mgr_abs m)" "on_set a (vs_call c) m = Inr m' \<Longrightarrow> mgr_inv m'"
proof -
  have "map_sum id mgr_abs (on_set a (vs_call c) m) = spec_on_set a c (mgr_abs m) \<and> (\<forall>m'. on_set a (vs_call c) m = Inr m' \<longrightarrow> mgr_inv m')"
  proof (cases "subnetToVdrs m a")
    case (Some ref)
    obtain s where s: "vdr_sets m ref = Some s" "vs_inv s" using mgr_invD [OF inv Some] by metis
    then have held: "mgr_held m ref = Some (vs_held s)" by (simp add: mgr_held_def)
    show ?thesis
    proof (cases "vs_call c s")
      case (Inr s')
      with vset.call_inv [OF s(2)] have "vs_inv s'" by blast
      from mgr_set_change [OF inv this, of ref] Inr vset.call_law [OF s(2), of c, symmetric] Some s(1) held show ?thesis
        by (simp add: on_set_def mgr_Get_def spec_on_set_def mgr_abs_def)
    qed (use Some s vset.call_law [OF s(2), of c, symmetric] held in \<open>simp add: on_set_def mgr_Get_def spec_on_set_def mgr_abs_def\<close>)
  qed (simp add: on_set_def mgr_Get_def spec_on_set_def mgr_abs_def)
  then show "map_sum id mgr_abs (on_set a (vs_call c) m) = spec_on_set a c (mgr_abs m)" "on_set a (vs_call c) m = Inr m' \<Longrightarrow> mgr_inv m'" by blast+
qed

text \<open>Runs of a manager: new sets, sets that are added for a subnet, and calls through the manager, the refused ones included.\<close>

datatype ('n, 'p) mgr_op = Op_NewSet nat | Op_Add ID nat | Op_Call ID "('n, 'p) set_call"

fun mgr_step :: "'w \<Rightarrow> ('n, 'p) mgr_op \<Rightarrow> ('n, 'p, 'w) manager \<Rightarrow> ('n, 'p, 'w) manager" where
  "mgr_step w (Op_NewSet ref) m = (if ref \<in> dom (vdr_sets m) then m else m\<lparr>vdr_sets := (vdr_sets m)(ref \<mapsto> vs_NewSet w)\<rparr>)"
| "mgr_step w (Op_Add a ref) m = (if ref \<in> dom (vdr_sets m) then fst (mgr_Add a ref m) else m)"
| "mgr_step w (Op_Call a c) m = after_call (\<lambda>c. on_set a (vs_call c)) c m"

fun spec_step :: "('n, 'p) mgr_op \<Rightarrow> (nat \<rightharpoonup> ('n \<rightharpoonup> 'p option \<times> ID \<times> u64)) \<times> (ID \<rightharpoonup> nat)
    \<Rightarrow> (nat \<rightharpoonup> ('n \<rightharpoonup> 'p option \<times> ID \<times> u64)) \<times> (ID \<rightharpoonup> nat)" where
  "spec_step (Op_NewSet ref) M = (if ref \<in> dom (fst M) then M else ((fst M)(ref \<mapsto> Map.empty), snd M))"
| "spec_step (Op_Add a ref) M = (if ref \<in> dom (fst M) \<and> a \<notin> dom (snd M) then (fst M, (snd M)(a \<mapsto> ref)) else M)"
| "spec_step (Op_Call a c) M = after_call (spec_on_set a) c M"

lemma mgr_step_law:
  assumes inv: "mgr_inv m"
  shows "mgr_inv (mgr_step w op m) \<and> mgr_abs (mgr_step w op m) = spec_step op (mgr_abs m)"
proof (cases op)
  case (Op_NewSet ref)
  have dom: "dom (fst (mgr_abs m)) = dom (vdr_sets m)" by (auto simp: mgr_abs_def mgr_held_def dom_def)
  with Op_NewSet mgr_set_change [OF inv vs_inv_NewSet(1), of ref w] inv show ?thesis
    by (simp add: mgr_abs_def vs_inv_NewSet(2))
next
  case (Op_Add a ref)
  with inv show ?thesis by (auto simp: mgr_abs_def mgr_held_def mgr_Add_def mgr_inv_def dom_def ran_def split: option.splits)
next
  case (Op_Call a c)
  with on_set_law [OF inv, of a c] inv show ?thesis
    by (cases "on_set a (vs_call c) m") (auto simp: after_call_def dest: sym)
qed

lemma mgr_run_law:
  "mgr_inv m \<Longrightarrow> mgr_inv (fold (mgr_step w) ops m) \<and> mgr_abs (fold (mgr_step w) ops m) = fold spec_step ops (mgr_abs m)"
proof (induction ops arbitrary: m)
  case (Cons op ops)
  with mgr_step_law [OF Cons.prems, of w op] show ?case by simp
qed simp

lemma NewManager_law: "mgr_inv NewManager" "mgr_abs NewManager = (Map.empty, Map.empty)"
  by (simp_all add: NewManager_def mgr_inv_def mgr_abs_def mgr_held_def fun_eq_iff)

lemma NodeIDs_law:
  assumes inv: "mgr_inv m" and ref: "subnetToVdrs m a = Some ref" and h: "mgr_held m ref = Some h"
  shows "\<exists>ns. NodeIDs a m = Inr ns \<and> distinct ns \<and> set ns = dom h"
proof -
  obtain s where s: "vdr_sets m ref = Some s" "vs_inv s" using mgr_invD [OF inv ref] by metis
  let ?ns = "map (node_at s) [0 ..< length (vdrSlice s)]"
  have "NodeIDs a m = Inr (map (\<lambda>p. NodeID (the (store s p))) (vdrSlice s))"
    using ref s by (simp add: NodeIDs_def mgr_Get_def vs_Map_def slice_deref o_def)
  also have "map (\<lambda>p. NodeID (the (store s p))) (vdrSlice s) = ?ns"
    by (rule nth_equalityI) (simp_all add: node_at_def)
  finally have ns: "NodeIDs a m = Inr ?ns" .
  have held: "h = vs_held s" using h s by (simp add: mgr_held_def)
  have "distinct ?ns" using node_at_inj [OF s(2)] by (simp add: distinct_map atLeast0LessThan)
  moreover have "set ?ns = dom h" unfolding held node_at_image [OF s(2), symmetric] by (simp add: atLeast0LessThan)
  ultimately show ?thesis using ns by blast
qed

section \<open>Properties\<close>

text \<open>(C9) The set of validators implements its contract. After any run of calls, refused ones included, the two
  slices and the map agree, the set holds what the contract says, the total is the exact sum of the weights, and the next
  call is accepted or refused, with the same error, as the contract says; neither a nil pointer nor an index out of range
  is reached.\<close>

theorem validator_set_refines:
  "let s = run_calls vs_call cs (vs_NewSet w) in
     vs_inv s \<and> vs_held s = run_calls spec_call cs Map.empty
     \<and> map_sum id vs_held (vs_call c s) = spec_call c (vs_held s)
     \<and> unat (vs_Weight s) = total_of (vs_held s) \<and> vs_Len s = int (card (dom (vs_held s)))
     \<and> vs_Contains n s = (n \<in> dom (vs_held s))"
proof -
  define s where "s = run_calls vs_call cs (vs_NewSet w)"
  have s: "vs_inv s" "vs_held s = run_calls spec_call cs Map.empty" unfolding s_def by (rule vset.run_new)+
  have "vs_Contains n s = (n \<in> dom (vs_held s))" using vs_held_None [OF s(1), of n] by (auto simp: vs_Contains_def)
  with s vset.call_law [OF s(1), of c] total_of_held [OF s(1)] vs_Len_held [OF s(1)] show ?thesis
    unfolding s_def [symmetric] Let_def by (simp add: vs_Weight_def)
qed

text \<open>The unchecked additions of \<^verbatim>\<open>SubsetWeight\<close> never wrap: the weight of a set of nodes is the exact sum of the weights
  of those that validate, and no more than the total.\<close>

theorem subset_weight_exact:
  assumes "distinct nodes"
  shows "let s = run_calls vs_call cs (vs_NewSet w) in
     \<exists>r. SubsetWeight nodes s = Inr r \<and> unat r = (\<Sum>n \<in> set nodes. weight_of s n) \<and> r \<le> vs_Weight s"
proof -
  define s where "s = run_calls vs_call cs (vs_NewSet w)"
  have inv: "vs_inv s" unfolding s_def by (rule vset.run_new)
  have le: "(\<Sum>n \<leftarrow> nodes. weight_of s n) \<le> unat (totalWeight s)"
    using sum_weights_le [OF inv, of "set nodes"] assms(1) by (simp add: sum.distinct_set_conv_list)
  moreover have "unat (totalWeight s) < 2 ^ 64" using unsigned_less [of "totalWeight s", where ?'a = nat] by simp
  ultimately show ?thesis using subsetWeight_law [OF inv, of 0 nodes]
    unfolding s_def [symmetric] Let_def
    by (auto simp: SubsetWeight_def vs_Weight_def word_le_nat_alt sum.distinct_set_conv_list [OF assms(1)])
qed

theorem subset_weight_exact_witness:
  "let s = run_calls vs_call [Call_Add (1 :: nat) (None :: unit option) [7] 5, Call_Add 2 None [8] 3] (vs_NewSet ()) in
     \<exists>r. SubsetWeight [1, 4] s = Inr r \<and> unat r = (\<Sum>n \<in> set [1, 4]. weight_of s n) \<and> r \<le> vs_Weight s"
  by (rule subset_weight_exact) simp

text \<open>(C36) A listener that keeps the weights it is told of knows the weights of the set, whenever it registered and however
  often: the calls it gets, replayed in order, give exactly what the set holds.\<close>

theorem listeners_know_weights:
  "let s = run_calls vs_call cs (vs_NewSet w) in
     set (callbackListeners s) \<subseteq> {l. view l (calls s) = weights_held (vs_held s)}"
  using run_listeners [of cs w] by (auto simp: Let_def listeners_ok_def)

text \<open>(C35) Sampling gives the number of nodes asked for, none more often than its weight, so only nodes of the set; it fails
  only as the sampler does, and leaves the set as it was, with a sampler that is still exact.\<close>

theorem validator_sample:
  assumes "weighted_sampler init smp" "vs_inv s" "sampler_ok smp s"
  shows "case vs_Sample init smp k s raws of
      Inr (ns, s', rest) \<Rightarrow> length ns = k \<and> (\<forall>n. count_list ns n \<le> weight_of s n)
        \<and> vs_inv s' \<and> sampler_ok smp s' \<and> vs_held s' = vs_held s
    | Inl e \<Rightarrow> e \<in> range Vdr_sampler"
  using assms by (rule vs_Sample_law)

theorem validator_sample_witness:
  "let s = run_calls vs_call [Call_Add (1 :: nat) (None :: unit option) [7] 1, Call_Add 2 None [8] 4] (vs_NewSet \<lparr>wu_indices = [], wu_maxWeight = 1024\<rparr>)
   in map_sum id fst (vs_Sample wu_init wu_Sample 3 s [0, 3, 0]) = Inr [1, 2, 2] \<and> count_list [1, 2, 2] (2 :: nat) \<le> weight_of s 2"
proof -
  define s where "s = run_calls vs_call [Call_Add (1 :: nat) (None :: unit option) [7] 1, Call_Add 2 None [8] 4] (vs_NewSet \<lparr>wu_indices = [], wu_maxWeight = 1024\<rparr>)"
  have run: "map_sum id fst (vs_Sample wu_init wu_Sample 3 s [0, 3, 0]) = Inr [1, 2, 2]" unfolding s_def by code_simp
  then obtain s' rest where "vs_Sample wu_init wu_Sample 3 s [0, 3, 0] = Inr ([1, 2, 2], s', rest)"
    by (cases "vs_Sample wu_init wu_Sample 3 s [0, 3, 0]") auto
  moreover have "vs_inv s" "sampler_ok wu_Sample s" unfolding s_def by (rule vset.run_new run_sampler)+
  note validator_sample [OF wu.weighted_sampler_axioms this, of 3 "[0, 3, 0]"]
  ultimately have "\<forall>n. count_list [1, 2, 2] n \<le> weight_of s n" by simp
  then have "count_list [1, 2, 2] (2 :: nat) \<le> weight_of s 2" by blast
  with run show ?thesis unfolding s_def [symmetric] Let_def by blast
qed

text \<open>(C37) The manager keeps a set for each subnet. Let sets be made, added for subnets, possibly one for several of them, and be called through
  a new manager, in any order and with refused calls. Then a subnet has the set that was added for it first, and every set holds what
  its contract makes of the calls for the subnets that it was added for, and of no others. The next call for a subnet is accepted or refused
  with the error that this set gives, and with the error for missing validators exactly when no set was added; it changes this set
  only. The list of node ids of a subnet names each of its validators once.\<close>

theorem manager_refines:
  "let m = fold (mgr_step u) ops NewManager; M = fold spec_step ops (Map.empty, Map.empty) in
     mgr_held m = fst M \<and> subnetToVdrs m = snd M
     \<and> map_sum id mgr_abs (validators_Add a n pk tx w m) = spec_on_set a (Call_Add n pk tx w) M
     \<and> map_sum id mgr_abs (validators_AddWeight a n w m) = spec_on_set a (Call_AddWeight n w) M
     \<and> map_sum id mgr_abs (validators_RemoveWeight a n w m) = spec_on_set a (Call_RemoveWeight n w) M
     \<and> (case snd M a of
          None \<Rightarrow> NodeIDs a m = Inl ErrMissingValidators \<and> \<not> validators_Contains a n m
        | Some ref \<Rightarrow> (\<exists>h ns. fst M ref = Some h \<and> NodeIDs a m = Inr ns \<and> distinct ns \<and> set ns = dom h \<and> validators_Contains a n m = (n \<in> dom h)))"
proof -
  define m where "m = fold (mgr_step u) ops NewManager"
  define M where "M = fold spec_step ops (Map.empty, Map.empty)"
  have inv: "mgr_inv m" and abs: "mgr_abs m = M"
    using mgr_run_law [OF NewManager_law(1), of u ops] unfolding NewManager_law(2) m_def [symmetric] M_def [symmetric] by blast+
  then have M: "mgr_held m = fst M" "subnetToVdrs m = snd M" by (auto simp: mgr_abs_def)
  have reads: "case snd M a of
      None \<Rightarrow> NodeIDs a m = Inl ErrMissingValidators \<and> \<not> validators_Contains a n m
    | Some ref \<Rightarrow> (\<exists>h ns. fst M ref = Some h \<and> NodeIDs a m = Inr ns \<and> distinct ns \<and> set ns = dom h \<and> validators_Contains a n m = (n \<in> dom h))"
  proof (cases "snd M a")
    case (Some ref)
    then have ref: "subnetToVdrs m a = Some ref" using M by simp
    obtain s where s: "vdr_sets m ref = Some s" "vs_inv s" using mgr_invD [OF inv ref] by metis
    have held: "mgr_held m ref = Some (vs_held s)" using s by (simp add: mgr_held_def)
    have "validators_Contains a n m = (n \<in> dom (vs_held s))"
      using ref s vs_held_None [OF s(2), of n] by (auto simp: validators_Contains_def mgr_Get_def vs_Contains_def)
    with Some NodeIDs_law [OF inv ref held] held M show ?thesis by auto
  qed (use M in \<open>simp add: NodeIDs_def validators_Contains_def mgr_Get_def\<close>)
  from on_set_law(1) [OF inv, of a "Call_Add n pk tx w"] on_set_law(1) [OF inv, of a "Call_AddWeight n w"] on_set_law(1) [OF inv, of a "Call_RemoveWeight n w"]
  have "map_sum id mgr_abs (validators_Add a n pk tx w m) = spec_on_set a (Call_Add n pk tx w) M"
    "map_sum id mgr_abs (validators_AddWeight a n w m) = spec_on_set a (Call_AddWeight n w) M"
    "map_sum id mgr_abs (validators_RemoveWeight a n w m) = spec_on_set a (Call_RemoveWeight n w) M"
    unfolding abs validators_Add_def validators_AddWeight_def validators_RemoveWeight_def vs_call_eta by blast+
  with M reads show ?thesis unfolding m_def [symmetric] M_def [symmetric] Let_def by blast
qed

end
