(* ===== verification/Packing.thy ===== *)
theory Packing
  imports Prelude
begin

text \<open>
  The byte packer of \<^verbatim>\<open>utils/wrappers/packing.go\<close> with the error holder of \<^verbatim>\<open>utils/wrappers/errors.go\<close>. A Go slice is its bytes
  together with the bytes that its array holds beyond its length, which matter because \<^verbatim>\<open>expand\<close> lengthens the slice
  into them. What \<^verbatim>\<open>append\<close> leaves beyond the length of a new array is not fixed by the language: it is the
  argument \<^verbatim>\<open>grown\<close>. An index or slice expression out of range is the panic \<^verbatim>\<open>Slice_bounds\<close>. The slices that
  the unpackers return are values here, not windows into the array.
\<close>

type_synonym bytes = "u8 list"

datatype pack_error = ErrInsufficientLength | errNegativeOffset | errInvalidInput | errBadBool | errOversized

datatype pack_panic = Slice_bounds

record Packer =
  Err :: "pack_error option"
  MaxSize :: int
  Bytes :: bytes
  Spare :: bytes
  Offset :: int

definition MaxStringLen :: int where "MaxStringLen = 2 ^ 16 - 1"
definition ByteLen :: int where "ByteLen = 1"
definition ShortLen :: int where "ShortLen = 2"
definition IntLen :: int where "IntLen = 4"
definition LongLen :: int where "LongLen = 8"

definition Errored :: "Packer \<Rightarrow> bool" where
  "Errored p \<longleftrightarrow> Err p \<noteq> None"

definition Errs_Add :: "pack_error \<Rightarrow> Packer \<Rightarrow> Packer" where
  "Errs_Add e p = (if Err p = None then p\<lparr>Err := Some e\<rparr> else p)"

definition checkSpace :: "int \<Rightarrow> Packer \<Rightarrow> Packer" where
  "checkSpace n p =
     (if Offset p < 0 then Errs_Add errNegativeOffset p
      else if n < 0 then Errs_Add errInvalidInput p
      else if int (length (Bytes p)) - Offset p < n then Errs_Add ErrInsufficientLength p
      else p)"

definition expand :: "(bytes \<Rightarrow> bytes) \<Rightarrow> int \<Rightarrow> Packer \<Rightarrow> Packer" where
  "expand grown n p =
     (let neededSize = n + Offset p; cap = int (length (Bytes p) + length (Spare p)) in
      if neededSize \<le> int (length (Bytes p)) then p
      else if neededSize > MaxSize p then p\<lparr>Err := Some ErrInsufficientLength\<rparr>
      else if neededSize \<le> cap then
        p\<lparr>Bytes := take (nat neededSize) (Bytes p @ Spare p), Spare := drop (nat neededSize) (Bytes p @ Spare p)\<rparr>
      else
        let new = Bytes p @ Spare p @ replicate (nat (neededSize - cap)) 0 in p\<lparr>Bytes := new, Spare := grown new\<rparr>)"

text \<open>Writing and reading at the offset.\<close>

definition write_at :: "bytes \<Rightarrow> Packer \<Rightarrow> pack_panic + Packer" where
  "write_at bs p =
     (if 0 \<le> Offset p \<and> Offset p + int (length bs) \<le> int (length (Bytes p))
      then Inr (p\<lparr>Bytes := take (nat (Offset p)) (Bytes p) @ bs @ drop (nat (Offset p) + length bs) (Bytes p),
                  Offset := Offset p + int (length bs)\<rparr>)
      else Inl Slice_bounds)"

definition read_at :: "int \<Rightarrow> Packer \<Rightarrow> pack_panic + bytes \<times> Packer" where
  "read_at n p =
     (if 0 \<le> Offset p \<and> 0 \<le> n \<and> Offset p + n \<le> int (length (Bytes p))
      then Inr (take (nat n) (drop (nat (Offset p)) (Bytes p)), p\<lparr>Offset := Offset p + n\<rparr>)
      else Inl Slice_bounds)"

text \<open>Big endian bytes of a word, most significant first, and back.\<close>

fun be_put :: "nat \<Rightarrow> 'a :: len word \<Rightarrow> bytes" where
  "be_put 0 v = []"
| "be_put (Suc n) v = ucast (drop_bit (8 * n) v) # be_put n v"

definition be_get :: "bytes \<Rightarrow> 'a :: len word" where
  "be_get bs = foldl (\<lambda>acc b. or (push_bit 8 acc) (ucast b)) 0 bs"

subsection \<open>Packing and unpacking\<close>

definition PackByte :: "(bytes \<Rightarrow> bytes) \<Rightarrow> u8 \<Rightarrow> Packer \<Rightarrow> pack_panic + Packer" where
  "PackByte grown val p = (let p = expand grown ByteLen p in if Errored p then Inr p else write_at [val] p)"

definition UnpackByte :: "Packer \<Rightarrow> pack_panic + u8 \<times> Packer" where
  "UnpackByte p = (let p = checkSpace ByteLen p in
     if Errored p then Inr (0, p) else res_bind (read_at ByteLen p) (\<lambda>(bs, p). Inr (hd bs, p)))"

definition PackShort :: "(bytes \<Rightarrow> bytes) \<Rightarrow> u16 \<Rightarrow> Packer \<Rightarrow> pack_panic + Packer" where
  "PackShort grown val p = (let p = expand grown ShortLen p in if Errored p then Inr p else write_at (be_put 2 val) p)"

definition UnpackShort :: "Packer \<Rightarrow> pack_panic + u16 \<times> Packer" where
  "UnpackShort p = (let p = checkSpace ShortLen p in
     if Errored p then Inr (0, p) else res_bind (read_at ShortLen p) (\<lambda>(bs, p). Inr (be_get bs, p)))"

definition PackInt :: "(bytes \<Rightarrow> bytes) \<Rightarrow> u32 \<Rightarrow> Packer \<Rightarrow> pack_panic + Packer" where
  "PackInt grown val p = (let p = expand grown IntLen p in if Errored p then Inr p else write_at (be_put 4 val) p)"

definition UnpackInt :: "Packer \<Rightarrow> pack_panic + u32 \<times> Packer" where
  "UnpackInt p = (let p = checkSpace IntLen p in
     if Errored p then Inr (0, p) else res_bind (read_at IntLen p) (\<lambda>(bs, p). Inr (be_get bs, p)))"

definition PackLong :: "(bytes \<Rightarrow> bytes) \<Rightarrow> u64 \<Rightarrow> Packer \<Rightarrow> pack_panic + Packer" where
  "PackLong grown val p = (let p = expand grown LongLen p in if Errored p then Inr p else write_at (be_put 8 val) p)"

definition UnpackLong :: "Packer \<Rightarrow> pack_panic + u64 \<times> Packer" where
  "UnpackLong p = (let p = checkSpace LongLen p in
     if Errored p then Inr (0, p) else res_bind (read_at LongLen p) (\<lambda>(bs, p). Inr (be_get bs, p)))"

definition PackBool :: "(bytes \<Rightarrow> bytes) \<Rightarrow> bool \<Rightarrow> Packer \<Rightarrow> pack_panic + Packer" where
  "PackBool grown b p = (if b then PackByte grown 1 p else PackByte grown 0 p)"

definition UnpackBool :: "Packer \<Rightarrow> pack_panic + bool \<times> Packer" where
  "UnpackBool p = res_bind (UnpackByte p) (\<lambda>(b, p).
     if b = 0 then Inr (False, p) else if b = 1 then Inr (True, p) else Inr (False, Errs_Add errBadBool p))"

definition PackFixedBytes :: "(bytes \<Rightarrow> bytes) \<Rightarrow> bytes \<Rightarrow> Packer \<Rightarrow> pack_panic + Packer" where
  "PackFixedBytes grown bs p = (let p = expand grown (int (length bs)) p in if Errored p then Inr p else write_at bs p)"

definition UnpackFixedBytes :: "int \<Rightarrow> Packer \<Rightarrow> pack_panic + bytes \<times> Packer" where
  "UnpackFixedBytes size' p = (let p = checkSpace size' p in if Errored p then Inr ([], p) else read_at size' p)"

definition PackBytes :: "(bytes \<Rightarrow> bytes) \<Rightarrow> bytes \<Rightarrow> Packer \<Rightarrow> pack_panic + Packer" where
  "PackBytes grown bs p = res_bind (PackInt grown (of_nat (length bs)) p) (PackFixedBytes grown bs)"

definition UnpackBytes :: "Packer \<Rightarrow> pack_panic + bytes \<times> Packer" where
  "UnpackBytes p = res_bind (UnpackInt p) (\<lambda>(size', p). UnpackFixedBytes (uint size') p)"

definition UnpackLimitedBytes :: "u32 \<Rightarrow> Packer \<Rightarrow> pack_panic + bytes \<times> Packer" where
  "UnpackLimitedBytes limit p = res_bind (UnpackInt p) (\<lambda>(size', p).
     if size' > limit then Inr ([], Errs_Add errOversized p) else UnpackFixedBytes (uint size') p)"

definition PackStr :: "(bytes \<Rightarrow> bytes) \<Rightarrow> bytes \<Rightarrow> Packer \<Rightarrow> pack_panic + Packer" where
  "PackStr grown str p =
     (let strSize = int (length str) in
      if strSize > MaxStringLen then Inr (Errs_Add errInvalidInput p)
      else res_bind (PackShort grown (of_int strSize) p) (PackFixedBytes grown str))"

definition UnpackStr :: "Packer \<Rightarrow> pack_panic + bytes \<times> Packer" where
  "UnpackStr p = res_bind (UnpackShort p) (\<lambda>(strSize, p). UnpackFixedBytes (uint strSize) p)"

definition UnpackLimitedStr :: "u16 \<Rightarrow> Packer \<Rightarrow> pack_panic + bytes \<times> Packer" where
  "UnpackLimitedStr limit p = res_bind (UnpackShort p) (\<lambda>(strSize, p).
     if strSize > limit then Inr ([], Errs_Add errOversized p) else UnpackFixedBytes (uint strSize) p)"

subsection \<open>Big endian words\<close>

lemma length_be_put [simp]: "length (be_put n v) = n"
  by (induction n) auto

lemma be_step:
  fixes v :: "'a :: len word"
  shows "or (push_bit 8 (drop_bit (8 * Suc n) v)) (ucast (ucast (drop_bit (8 * n) v) :: u8)) = drop_bit (8 * n) v"
  by (rule bit_word_eqI) (auto simp: bit_simps)

lemma foldl_be_put:
  fixes v :: "'a :: len word"
  shows "foldl (\<lambda>acc b. or (push_bit 8 acc) (ucast b)) (drop_bit (8 * n) v) (be_put n v) = v"
proof (induction n)
  case (Suc n)
  show ?case unfolding be_put.simps foldl.simps be_step by (rule Suc.IH)
qed simp

lemma be_get_put:
  fixes v :: "'a :: len word"
  assumes "LENGTH('a) \<le> 8 * n"
  shows "be_get (be_put n v) = v"
proof -
  have "drop_bit (8 * n) v = 0" using assms by (intro bit_word_eqI) (auto simp: bit_simps dest: bit_imp_le_length)
  with foldl_be_put [of n v] show ?thesis by (simp add: be_get_def)
qed

lemma be_put_snoc:
  fixes v :: "'a :: len word"
  shows "be_put (Suc n) v = be_put n (drop_bit 8 v) @ [ucast v]"
proof (induction n)
  case (Suc n)
  have "be_put (Suc (Suc n)) v = ucast (drop_bit (8 * Suc n) v) # be_put (Suc n) v" by simp
  also have "\<dots> = ucast (drop_bit (8 * n) (drop_bit 8 v)) # be_put n (drop_bit 8 v) @ [ucast v]"
    unfolding Suc.IH by (simp add: drop_bit_drop_bit add.commute)
  finally show ?case by simp
qed simp

lemma be_get_snoc: "be_get (bs @ [b]) = or (push_bit 8 (be_get bs)) (ucast b)"
  by (simp add: be_get_def)

lemma bit_be_get:
  assumes "8 * length bs \<le> n" shows "\<not> bit (be_get bs :: 'a :: len word) n"
  using assms
proof (induction bs arbitrary: n rule: rev_induct)
  case (snoc b bs)
  then show ?case using snoc.IH [of "n - 8"] by (auto simp: be_get_snoc bit_simps dest: bit_imp_le_length)
qed (simp add: be_get_def)

lemma be_put_get:
  assumes "8 * length bs \<le> LENGTH('a :: len)"
  shows "be_put (length bs) (be_get bs :: 'a word) = bs"
  using assms
proof (induction bs rule: rev_induct)
  case (snoc b bs)
  have low: "8 + n < LENGTH('a)" if "bit (be_get bs :: 'a word) n" for n
    using that bit_be_get [of bs n, where ?'a = 'a] snoc.prems by (cases "8 * length bs \<le> n") auto
  have "drop_bit 8 (be_get (bs @ [b]) :: 'a word) = be_get bs"
    by (intro bit_word_eqI) (auto simp: be_get_snoc bit_simps low dest: bit_imp_le_length)
  moreover have "ucast (be_get (bs @ [b]) :: 'a word) = b"
    using snoc.prems by (intro bit_word_eqI) (auto simp: be_get_snoc bit_simps)
  ultimately show ?case using snoc unfolding length_append_singleton be_put_snoc by simp
qed simp

lemma be_put_got: "length bs = n \<Longrightarrow> 8 * n \<le> LENGTH('a :: len) \<Longrightarrow> be_put n (be_get bs :: 'a word) = bs"
  using be_put_get by blast

subsection \<open>What a packer holds\<close>

definition pk_inv :: "Packer \<Rightarrow> bool" where
  "pk_inv p \<longleftrightarrow> 0 \<le> Offset p \<and> Offset p \<le> int (length (Bytes p))"

text \<open>The bytes before the offset, those after it, and how far the packer may grow.\<close>

definition written :: "Packer \<Rightarrow> bytes" where
  "written p = take (nat (Offset p)) (Bytes p)"

definition unread :: "Packer \<Rightarrow> bytes" where
  "unread p = drop (nat (Offset p)) (Bytes p)"

definition room :: "Packer \<Rightarrow> int" where
  "room p = max (MaxSize p) (int (length (Bytes p)))"

text \<open>What every pair of a packing and an unpacking operation promises, for the values that are valid and their
  encoding. Packing appends the encoding or reports that there is no room; unpacking undoes it and accepts nothing
  but encodings; neither panics, and an error stays.\<close>

locale codec =
  fixes valid :: "'v \<Rightarrow> bool" and enc :: "'v \<Rightarrow> bytes"
    and pack :: "'v \<Rightarrow> Packer \<Rightarrow> pack_panic + Packer" and unpack :: "Packer \<Rightarrow> pack_panic + 'v \<times> Packer"
  assumes pack_law: "pk_inv p \<Longrightarrow> Err p = None \<Longrightarrow> valid v \<Longrightarrow> \<exists>p'. pack v p = Inr p' \<and> pk_inv p' \<and> room p' = room p
      \<and> (if Offset p + int (length (enc v)) \<le> room p then Err p' = None \<and> written p' = written p @ enc v
         else Err p' = Some ErrInsufficientLength)"
    and pack_sticky: "pk_inv p \<Longrightarrow> Err p \<noteq> None \<Longrightarrow> \<exists>p'. pack v p = Inr p' \<and> pk_inv p' \<and> room p' = room p
      \<and> (Err p' = Err p \<or> Err p' = Some ErrInsufficientLength)"
    and unpack_total: "pk_inv p \<Longrightarrow> \<exists>v p'. unpack p = Inr (v, p') \<and> pk_inv p' \<and> Bytes p' = Bytes p
      \<and> (Err p \<noteq> None \<longrightarrow> Err p' = Err p)"
    and unpack_sound: "pk_inv p \<Longrightarrow> unpack p = Inr (v, p') \<Longrightarrow> Err p' = None \<Longrightarrow> valid v \<and> unread p = enc v @ unread p'"
    and unpack_complete: "pk_inv p \<Longrightarrow> Err p = None \<Longrightarrow> valid v \<Longrightarrow> unread p = enc v @ bs \<Longrightarrow>
      \<exists>p'. unpack p = Inr (v, p') \<and> Err p' = None \<and> unread p' = bs"
begin

text \<open>No encoding begins another one.\<close>

lemma prefix_free:
  assumes "valid v" "valid v'" "enc v @ bs = enc v' @ bs'"
  shows "v = v' \<and> bs = bs'"
proof -
  let ?p = "\<lparr>Err = None, MaxSize = 0, Bytes = enc v @ bs, Spare = [], Offset = 0\<rparr>"
  have p: "pk_inv ?p" "Err ?p = None" "unread ?p = enc v @ bs" by (simp_all add: pk_inv_def unread_def)
  obtain p1 where "unpack ?p = Inr (v, p1)" "unread p1 = bs" using unpack_complete [OF p(1,2) assms(1) p(3)] by blast
  moreover obtain p2 where "unpack ?p = Inr (v', p2)" "unread p2 = bs'"
    using unpack_complete [OF p(1,2) assms(2), of bs'] p(3) assms(3) by auto
  ultimately show ?thesis by auto
qed

end

subsection \<open>The elementary steps\<close>

lemma written_length: "pk_inv p \<Longrightarrow> int (length (written p)) = Offset p"
  by (auto simp: pk_inv_def written_def)

lemma expand_fields [simp]: "MaxSize (expand g n p) = MaxSize p" "Offset (expand g n p) = Offset p"
  by (simp_all add: expand_def Let_def)

lemma expand_room:
  assumes inv: "pk_inv p" and n: "0 \<le> n"
  shows "pk_inv (expand g n p)" "room (expand g n p) = room p" "written (expand g n p) = written p"
    "Err (expand g n p) = (if Offset p + n \<le> room p then Err p else Some ErrInsufficientLength)"
    "Offset p + n \<le> room p \<Longrightarrow> Offset p + n \<le> int (length (Bytes (expand g n p)))"
  using assms by (auto simp: expand_def pk_inv_def room_def written_def Let_def min_def nat_le_iff nat_less_iff)


lemma write_at_law:
  assumes "pk_inv p" "Offset p + int (length bs) \<le> int (length (Bytes p))"
  shows "\<exists>p'. write_at bs p = Inr p' \<and> pk_inv p' \<and> room p' = room p \<and> Err p' = Err p \<and> written p' = written p @ bs"
proof -
  let ?p = "p\<lparr>Bytes := take (nat (Offset p)) (Bytes p) @ bs @ drop (nat (Offset p) + length bs) (Bytes p), Offset := Offset p + int (length bs)\<rparr>"
  have n: "nat (Offset p + int (length bs)) = nat (Offset p) + length bs" "nat (Offset p) + length bs \<le> length (Bytes p)"
    "nat (Offset p) \<le> length (Bytes p)" using assms by (auto simp: pk_inv_def)
  then have "length (Bytes ?p) = length (Bytes p)" by simp
  with assms have "pk_inv ?p" "room ?p = room p" by (auto simp: pk_inv_def room_def)
  moreover have "written ?p = written p @ bs" using n by (simp add: written_def)
  moreover have "write_at bs p = Inr ?p" using assms by (simp add: write_at_def pk_inv_def)
  ultimately show ?thesis by simp
qed

lemma checkSpace_law:
  assumes "pk_inv p" "0 \<le> n"
  shows "pk_inv (checkSpace n p)" "Bytes (checkSpace n p) = Bytes p" "unread (checkSpace n p) = unread p"
    "Err (checkSpace n p) = (if Err p = None \<and> int (length (unread p)) < n then Some ErrInsufficientLength else Err p)"
    "Offset (checkSpace n p) = Offset p"
  using assms by (auto simp: checkSpace_def pk_inv_def unread_def Errs_Add_def of_nat_diff nat_le_iff)

lemma read_at_law:
  assumes "pk_inv p" "n \<le> length (unread p)"
  shows "\<exists>p'. read_at (int n) p = Inr (take n (unread p), p') \<and> pk_inv p' \<and> Bytes p' = Bytes p \<and> Err p' = Err p \<and> unread p' = drop n (unread p)"
  using assms by (auto simp: read_at_def pk_inv_def unread_def nat_add_distrib add.commute nat_le_iff of_nat_diff)

text \<open>The operations on values of one length.\<close>

lemma codec_fixed:
  assumes len: "\<And>v. valid v \<Longrightarrow> length (enc v) = n"
    and dec: "\<And>v. valid v \<Longrightarrow> dec (enc v) = v" "\<And>bs. length bs = n \<Longrightarrow> valid (dec bs) \<and> enc (dec bs) = bs"
    and pack: "\<And>v p. pack v p = (let p = expand g (int (length (enc v))) p in if Errored p then Inr p else write_at (enc v) p)"
    and unpack: "\<And>p. unpack p = (let p = checkSpace (int n) p in
         if Errored p then Inr (zero, p) else res_bind (read_at (int n) p) (\<lambda>(bs, p). Inr (dec bs, p)))"
  shows "codec valid enc pack unpack"
proof
  fix p v assume p: "pk_inv p" "Err p = None"
  let ?e = "expand g (int (length (enc v))) p"
  show "\<exists>p'. pack v p = Inr p' \<and> pk_inv p' \<and> room p' = room p
      \<and> (if Offset p + int (length (enc v)) \<le> room p then Err p' = None \<and> written p' = written p @ enc v
         else Err p' = Some ErrInsufficientLength)"
    using expand_room [OF p(1), of "int (length (enc v))" g] p(2) write_at_law [of ?e "enc v"]
    by (auto simp: pack Let_def Errored_def)
next
  fix p v assume p: "pk_inv p" "Err p \<noteq> None"
  then show "\<exists>p'. pack v p = Inr p' \<and> pk_inv p' \<and> room p' = room p
      \<and> (Err p' = Err p \<or> Err p' = Some ErrInsufficientLength)"
    using expand_room [OF p(1), of "int (length (enc v))" g] by (auto simp: pack Let_def Errored_def)
next
  fix p assume p: "pk_inv p"
  let ?c = "checkSpace (int n) p"
  show "\<exists>v p'. unpack p = Inr (v, p') \<and> pk_inv p' \<and> Bytes p' = Bytes p \<and> (Err p \<noteq> None \<longrightarrow> Err p' = Err p)"
    using checkSpace_law [OF p, of "int n"] read_at_law [of ?c n] by (auto simp: unpack Let_def Errored_def split: if_splits)
next
  fix p v p' assume p: "pk_inv p" "unpack p = Inr (v, p')" "Err p' = None"
  let ?c = "checkSpace (int n) p"
  have ok: "Err ?c = None" using p(2,3) by (auto simp: unpack Let_def Errored_def split: if_splits)
  then have "n \<le> length (unread ?c)" using checkSpace_law(3,4) [OF p(1), of "int n"] by (auto split: if_splits)
  from read_at_law [OF checkSpace_law(1) [OF p(1)] this] p(2) ok checkSpace_law(3) [OF p(1), of "int n"]
  have "v = dec (take n (unread p))" "unread p' = drop n (unread p)" by (auto simp: unpack Let_def Errored_def)
  moreover have "length (take n (unread p)) = n" using \<open>n \<le> length (unread ?c)\<close> checkSpace_law(3) [OF p(1), of "int n"] by simp
  ultimately show "valid v \<and> unread p = enc v @ unread p'" using dec(2) by simp
next
  fix p v bs assume p: "pk_inv p" "Err p = None" "valid v" "unread p = enc v @ bs"
  let ?c = "checkSpace (int n) p"
  have "Err ?c = None" "unread ?c = enc v @ bs" using checkSpace_law(3,4) [OF p(1), of "int n"] p len [OF p(3)] by auto
  with read_at_law [of ?c n] checkSpace_law(1) [OF p(1), of "int n"] len [OF p(3)] dec(1) [OF p(3)]
  show "\<exists>p'. unpack p = Inr (v, p') \<and> Err p' = None \<and> unread p' = bs" by (auto simp: unpack Let_def Errored_def)
qed

interpretation byte_codec: codec "\<lambda>_. True" "\<lambda>v. [v]" "PackByte g" UnpackByte for g
  by (rule codec_fixed [where n = 1 and dec = hd and g = g and zero = 0])
    (auto simp: PackByte_def UnpackByte_def ByteLen_def Let_def length_Suc_conv)

interpretation short_codec: codec "\<lambda>_. True" "be_put 2" "PackShort g" UnpackShort for g
  by (rule codec_fixed [where n = 2 and dec = be_get and g = g and zero = 0])
    (auto simp: PackShort_def UnpackShort_def ShortLen_def Let_def be_get_put be_put_got)

interpretation int_codec: codec "\<lambda>_. True" "be_put 4" "PackInt g" UnpackInt for g
  by (rule codec_fixed [where n = 4 and dec = be_get and g = g and zero = 0])
    (auto simp: PackInt_def UnpackInt_def IntLen_def Let_def be_get_put be_put_got)

interpretation long_codec: codec "\<lambda>_. True" "be_put 8" "PackLong g" UnpackLong for g
  by (rule codec_fixed [where n = 8 and dec = be_get and g = g and zero = 0])
    (auto simp: PackLong_def UnpackLong_def LongLen_def Let_def be_get_put be_put_got)

interpretation fixed_codec: codec "\<lambda>v. length v = n" "\<lambda>v. v" "PackFixedBytes g" "UnpackFixedBytes (int n)" for g n
  by (rule codec_fixed [where n = n and dec = "\<lambda>bs. bs" and g = g and zero = "[]"])
    (auto simp: PackFixedBytes_def UnpackFixedBytes_def Let_def res_bind_def split: sum.split)


text \<open>One operation after another, the second one depending on what the first one read.\<close>

lemma codec_bind:
  assumes c1: "codec valid1 enc1 pack1 unpack1" and c2: "\<And>k. codec (valid2 k) enc2 pack2 (unpack2 k)"
    and key: "\<And>k v. valid2 k v \<Longrightarrow> key v = k"
  shows "codec (\<lambda>v. valid1 (key v) \<and> valid2 (key v) v) (\<lambda>v. enc1 (key v) @ enc2 v)
    (\<lambda>v p. res_bind (pack1 (key v) p) (pack2 v)) (\<lambda>p. res_bind (unpack1 p) (\<lambda>(k, p). unpack2 k p))"
proof
  fix p v assume p: "pk_inv p" "Err p = None" "valid1 (key v) \<and> valid2 (key v) v"
  from codec.pack_law [OF c1 p(1,2), of "key v"] p(3) obtain p1 where p1: "pack1 (key v) p = Inr p1" "pk_inv p1" "room p1 = room p"
    "if Offset p + int (length (enc1 (key v))) \<le> room p then Err p1 = None \<and> written p1 = written p @ enc1 (key v)
     else Err p1 = Some ErrInsufficientLength" by blast
  show "\<exists>p'. res_bind (pack1 (key v) p) (pack2 v) = Inr p' \<and> pk_inv p' \<and> room p' = room p
      \<and> (if Offset p + int (length (enc1 (key v) @ enc2 v)) \<le> room p then Err p' = None \<and> written p' = written p @ enc1 (key v) @ enc2 v
         else Err p' = Some ErrInsufficientLength)"
  proof (cases "Offset p + int (length (enc1 (key v))) \<le> room p")
    case True
    with p1 have "Err p1 = None" "written p1 = written p @ enc1 (key v)" by auto
    with codec.pack_law [OF c2 p1(2), of "key v" v] p(3) p1 written_length [OF p1(2)] written_length [OF p(1)] show ?thesis
      by (auto simp: algebra_simps split: if_splits)
  next
    case False
    with p1 have "Err p1 = Some ErrInsufficientLength" by auto
    with codec.pack_sticky [OF c2 p1(2), of v] False p1 show ?thesis by auto
  qed
next
  fix p v assume p: "pk_inv p" "Err p \<noteq> None"
  from codec.pack_sticky [OF c1 p, of "key v"] obtain p1 where p1: "pack1 (key v) p = Inr p1" "pk_inv p1" "room p1 = room p"
    "Err p1 = Err p \<or> Err p1 = Some ErrInsufficientLength" by blast
  then have "Err p1 \<noteq> None" using p(2) by auto
  with codec.pack_sticky [OF c2 p1(2), of v] p1
  show "\<exists>p'. res_bind (pack1 (key v) p) (pack2 v) = Inr p' \<and> pk_inv p' \<and> room p' = room p
      \<and> (Err p' = Err p \<or> Err p' = Some ErrInsufficientLength)" by auto
next
  fix p assume p: "pk_inv p"
  from codec.unpack_total [OF c1 p] obtain k p1 where p1: "unpack1 p = Inr (k, p1)" "pk_inv p1" "Bytes p1 = Bytes p"
    "Err p \<noteq> None \<longrightarrow> Err p1 = Err p" by blast
  with codec.unpack_total [OF c2 p1(2), of k]
  show "\<exists>v p'. res_bind (unpack1 p) (\<lambda>(k, p). unpack2 k p) = Inr (v, p') \<and> pk_inv p' \<and> Bytes p' = Bytes p
      \<and> (Err p \<noteq> None \<longrightarrow> Err p' = Err p)" by auto
next
  fix p v p' assume p: "pk_inv p" "res_bind (unpack1 p) (\<lambda>(k, p). unpack2 k p) = Inr (v, p')" "Err p' = None"
  from codec.unpack_total [OF c1 p(1)] obtain k p1 where p1: "unpack1 p = Inr (k, p1)" "pk_inv p1" by blast
  with p(2) have u2: "unpack2 k p1 = Inr (v, p')" by simp
  from codec.unpack_total [OF c2 p1(2), of k] u2 p(3) have e1: "Err p1 = None" by auto
  note s1 = codec.unpack_sound [OF c1 p(1) p1(1) e1] and s2 = codec.unpack_sound [OF c2 p1(2) u2 p(3)]
  with key [of k v] show "(valid1 (key v) \<and> valid2 (key v) v) \<and> unread p = (enc1 (key v) @ enc2 v) @ unread p'" by auto
next
  fix p v bs assume p: "pk_inv p" "Err p = None" "valid1 (key v) \<and> valid2 (key v) v" "unread p = (enc1 (key v) @ enc2 v) @ bs"
  then obtain p1 where p1: "unpack1 p = Inr (key v, p1)" "Err p1 = None" "unread p1 = enc2 v @ bs"
    using codec.unpack_complete [OF c1 p(1,2), of "key v" "enc2 v @ bs"] by auto
  moreover have "pk_inv p1" using codec.unpack_total [OF c1 p(1)] p1(1) by auto
  ultimately show "\<exists>p'. res_bind (unpack1 p) (\<lambda>(k, p). unpack2 k p) = Inr (v, p') \<and> Err p' = None \<and> unread p' = bs"
    using codec.unpack_complete [OF c2, of p1 "key v" v bs] p(3) by auto
qed

text \<open>An operation that refuses what it reads.\<close>

lemma codec_refuse: "codec (\<lambda>_. False) enc (PackFixedBytes g) (\<lambda>p. Inr ([], Errs_Add e p))"
  by unfold_locales (use fixed_codec.pack_sticky [of _ g] in \<open>auto simp: Errs_Add_def pk_inv_def split: if_splits\<close>)

interpretation bool_codec: codec "\<lambda>_. True" "\<lambda>b. [if b then 1 else 0]" "PackBool g" UnpackBool for g
proof
  fix p v assume p: "pk_inv p" "Err p = None"
  then show "\<exists>p'. PackBool g v p = Inr p' \<and> pk_inv p' \<and> room p' = room p
      \<and> (if Offset p + int (length [if v then 1 else 0 :: u8]) \<le> room p then Err p' = None \<and> written p' = written p @ [if v then 1 else 0]
         else Err p' = Some ErrInsufficientLength)"
    using byte_codec.pack_law [OF p TrueI, of g "if v then 1 else 0"] by (cases v) (simp_all add: PackBool_def)
next
  fix p v assume "pk_inv p" "Err p \<noteq> None"
  then show "\<exists>p'. PackBool g v p = Inr p' \<and> pk_inv p' \<and> room p' = room p \<and> (Err p' = Err p \<or> Err p' = Some ErrInsufficientLength)"
    using byte_codec.pack_sticky [of p g] by (simp add: PackBool_def)
next
  fix p assume "pk_inv p"
  then show "\<exists>v p'. UnpackBool p = Inr (v, p') \<and> pk_inv p' \<and> Bytes p' = Bytes p \<and> (Err p \<noteq> None \<longrightarrow> Err p' = Err p)"
    using byte_codec.unpack_total [of p] by (auto simp: UnpackBool_def Errs_Add_def pk_inv_def)
next
  fix p v p' assume p: "pk_inv p" "UnpackBool p = Inr (v, p')" "Err p' = None"
  then obtain b where "UnpackByte p = Inr (b, p')" "b = (if v then 1 else 0)"
    by (auto simp: UnpackBool_def res_bind_Inr_iff Errs_Add_def split: if_splits)
  with byte_codec.unpack_sound [OF p(1) this(1) p(3)] show "True \<and> unread p = [if v then 1 else 0] @ unread p'" by simp
next
  fix p v bs assume p: "pk_inv p" "Err p = None" "unread p = [if v then 1 else 0] @ bs"
  from byte_codec.unpack_complete [OF p(1,2) TrueI p(3)]
  show "\<exists>p'. UnpackBool p = Inr (v, p') \<and> Err p' = None \<and> unread p' = bs" by (auto simp: UnpackBool_def)
qed

lemma codec_eq: "codec A B C D \<Longrightarrow> A = A' \<Longrightarrow> B = B' \<Longrightarrow> C = C' \<Longrightarrow> D = D' \<Longrightarrow> codec A' B' C' D'"
  by simp

lemma sized_fixed:
  fixes k :: "'a :: len word"
  shows "codec (\<lambda>v. length v = unat k) (\<lambda>v. v) (PackFixedBytes g) (UnpackFixedBytes (uint k))"
  using fixed_codec.codec_axioms [of "unat k" g] by simp

lemma limited_fixed:
  fixes k :: "'a :: len word"
  shows "codec (\<lambda>v. k \<le> limit \<and> length v = unat k) (\<lambda>v. v) (PackFixedBytes g)
    (\<lambda>p. if k > limit then Inr ([], Errs_Add errOversized p) else UnpackFixedBytes (uint k) p)"
proof (cases "k > limit")
  case True
  show ?thesis by (rule codec_eq [OF codec_refuse [of "\<lambda>v. v" g errOversized]]) (use True in auto)
next
  case False
  show ?thesis by (rule codec_eq [OF sized_fixed [of k g]]) (use False in auto)
qed

text \<open>A length in front of the bytes.\<close>

definition bytes_enc :: "bytes \<Rightarrow> bytes" where
  "bytes_enc v = be_put 4 (of_nat (length v) :: u32) @ v"

definition str_enc :: "bytes \<Rightarrow> bytes" where
  "str_enc v = be_put 2 (of_nat (length v) :: u16) @ v"

lemma length_unat: "n = unat (of_nat n :: 'a :: len word) \<longleftrightarrow> n < 2 ^ LENGTH('a)"
  by (metis of_nat_inverse unsigned_less)

interpretation bytes_codec: codec "\<lambda>v. length v < 2 ^ 32" bytes_enc "PackBytes g" UnpackBytes for g
  by (rule codec_eq [OF codec_bind [where key = "\<lambda>v. of_nat (length v)", OF int_codec.codec_axioms [of g] sized_fixed [where g = g]]])
    (auto simp: fun_eq_iff bytes_enc_def PackBytes_def UnpackBytes_def length_unat [where ?'a = 32])

lemma length_limit:
  fixes limit :: "'a :: len word"
  shows "of_nat n \<le> limit \<and> n = unat (of_nat n :: 'a word) \<longleftrightarrow> n \<le> unat limit"
  by (metis length_unat word_le_nat_alt le_less_trans unsigned_less)

interpretation lbytes_codec: codec "\<lambda>v. length v \<le> unat limit" bytes_enc "PackBytes g" "UnpackLimitedBytes limit" for g limit
  by (rule codec_eq [OF codec_bind [where key = "\<lambda>v. of_nat (length v)" and ?valid2.0 = "\<lambda>k v. k \<le> limit \<and> length v = unat k",
      OF int_codec.codec_axioms [of g] limited_fixed [where g = g and limit = limit]]])
    (auto simp: fun_eq_iff bytes_enc_def PackBytes_def UnpackLimitedBytes_def length_limit)

text \<open>A string that is too long is refused before anything is written.\<close>

lemma codec_guard:
  assumes c: "codec valid enc pack unpack" and g: "\<And>v. pack' v = pack v \<or> \<not> valid v \<and> pack' v = (\<lambda>p. Inr (Errs_Add e p))"
  shows "codec valid enc pack' unpack"
proof
  fix p v assume "pk_inv p" "Err p = None" "valid v"
  then show "\<exists>p'. pack' v p = Inr p' \<and> pk_inv p' \<and> room p' = room p
      \<and> (if Offset p + int (length (enc v)) \<le> room p then Err p' = None \<and> written p' = written p @ enc v
         else Err p' = Some ErrInsufficientLength)" using codec.pack_law [OF c] g [of v] by metis
next
  fix p v assume "pk_inv p" "Err p \<noteq> None"
  then show "\<exists>p'. pack' v p = Inr p' \<and> pk_inv p' \<and> room p' = room p \<and> (Err p' = Err p \<or> Err p' = Some ErrInsufficientLength)"
    using codec.pack_sticky [OF c, of p v] g [of v] by (auto simp: Errs_Add_def)
qed (use codec.unpack_total [OF c] codec.unpack_sound [OF c] codec.unpack_complete [OF c] in blast)+

lemma PackStr_guard:
  "PackStr g v = (\<lambda>p. res_bind (PackShort g (of_nat (length v)) p) (PackFixedBytes g v))
    \<or> \<not> length v < 2 ^ 16 \<and> PackStr g v = (\<lambda>p. Inr (Errs_Add errInvalidInput p))"
  by (auto simp: PackStr_def MaxStringLen_def fun_eq_iff)

interpretation str_codec: codec "\<lambda>v. length v < 2 ^ 16" str_enc "PackStr g" UnpackStr for g
  by (rule codec_guard [OF codec_eq [OF codec_bind [where key = "\<lambda>v. of_nat (length v)", OF short_codec.codec_axioms [of g]
        sized_fixed [where g = g]]] PackStr_guard])
    (auto simp: fun_eq_iff str_enc_def UnpackStr_def length_unat [where ?'a = 16])

lemma PackStr_guard_limit:
  "PackStr g v = (\<lambda>p. res_bind (PackShort g (of_nat (length v)) p) (PackFixedBytes g v))
    \<or> \<not> length v \<le> unat (limit :: u16) \<and> PackStr g v = (\<lambda>p. Inr (Errs_Add errInvalidInput p))"
  using PackStr_guard [of g v] unsigned_less [of limit, where ?'a = nat] by auto

interpretation lstr_codec: codec "\<lambda>v. length v \<le> unat limit" str_enc "PackStr g" "UnpackLimitedStr limit" for g limit
  by (rule codec_guard [OF codec_eq [OF codec_bind [where key = "\<lambda>v. of_nat (length v)" and ?valid2.0 = "\<lambda>k v. k \<le> limit \<and> length v = unat k",
        OF short_codec.codec_axioms [of g] limited_fixed [where g = g and limit = limit]]] PackStr_guard_limit])
    (auto simp: fun_eq_iff str_enc_def UnpackLimitedStr_def length_limit)

subsection \<open>Messages\<close>

text \<open>A message is a list of fields; its reader knows the kinds of the fields and reads them one by one.\<close>

datatype field = FByte u8 | FShort u16 | FInt u32 | FLong u64 | FBool bool | FFixed bytes | FVar bytes | FStr bytes

datatype kind = KByte | KShort | KInt | KLong | KBool | KFixed nat | KVar | KLimitedVar u32 | KStr | KLimitedStr u16

fun of_kind :: "kind \<Rightarrow> field \<Rightarrow> bool" where
  "of_kind KByte (FByte _) = True"
| "of_kind KShort (FShort _) = True"
| "of_kind KInt (FInt _) = True"
| "of_kind KLong (FLong _) = True"
| "of_kind KBool (FBool _) = True"
| "of_kind (KFixed n) (FFixed bs) = (length bs = n)"
| "of_kind KVar (FVar bs) = (length bs < 2 ^ 32)"
| "of_kind (KLimitedVar limit) (FVar bs) = (length bs \<le> unat limit)"
| "of_kind KStr (FStr bs) = (length bs < 2 ^ 16)"
| "of_kind (KLimitedStr limit) (FStr bs) = (length bs \<le> unat limit)"
| "of_kind _ _ = False"

fun field_enc :: "field \<Rightarrow> bytes" where
  "field_enc (FByte v) = [v]"
| "field_enc (FShort v) = be_put 2 v"
| "field_enc (FInt v) = be_put 4 v"
| "field_enc (FLong v) = be_put 8 v"
| "field_enc (FBool b) = [if b then 1 else 0]"
| "field_enc (FFixed bs) = bs"
| "field_enc (FVar bs) = bytes_enc bs"
| "field_enc (FStr bs) = str_enc bs"

fun pack_field :: "(bytes \<Rightarrow> bytes) \<Rightarrow> field \<Rightarrow> Packer \<Rightarrow> pack_panic + Packer" where
  "pack_field g (FByte v) = PackByte g v"
| "pack_field g (FShort v) = PackShort g v"
| "pack_field g (FInt v) = PackInt g v"
| "pack_field g (FLong v) = PackLong g v"
| "pack_field g (FBool b) = PackBool g b"
| "pack_field g (FFixed bs) = PackFixedBytes g bs"
| "pack_field g (FVar bs) = PackBytes g bs"
| "pack_field g (FStr bs) = PackStr g bs"

definition read_as :: "('v \<Rightarrow> field) \<Rightarrow> (Packer \<Rightarrow> pack_panic + 'v \<times> Packer) \<Rightarrow> Packer \<Rightarrow> pack_panic + field \<times> Packer" where
  "read_as f unpack p = res_bind (unpack p) (\<lambda>(v, p). Inr (f v, p))"

fun unpack_field :: "kind \<Rightarrow> Packer \<Rightarrow> pack_panic + field \<times> Packer" where
  "unpack_field KByte = read_as FByte UnpackByte"
| "unpack_field KShort = read_as FShort UnpackShort"
| "unpack_field KInt = read_as FInt UnpackInt"
| "unpack_field KLong = read_as FLong UnpackLong"
| "unpack_field KBool = read_as FBool UnpackBool"
| "unpack_field (KFixed n) = read_as FFixed (UnpackFixedBytes (int n))"
| "unpack_field KVar = read_as FVar UnpackBytes"
| "unpack_field (KLimitedVar limit) = read_as FVar (UnpackLimitedBytes limit)"
| "unpack_field KStr = read_as FStr UnpackStr"
| "unpack_field (KLimitedStr limit) = read_as FStr (UnpackLimitedStr limit)"

fun pack_fields :: "(bytes \<Rightarrow> bytes) \<Rightarrow> field list \<Rightarrow> Packer \<Rightarrow> pack_panic + Packer" where
  "pack_fields g [] p = Inr p"
| "pack_fields g (f # fs) p = res_bind (pack_field g f p) (pack_fields g fs)"

fun unpack_fields :: "kind list \<Rightarrow> Packer \<Rightarrow> pack_panic + field list \<times> Packer" where
  "unpack_fields [] p = Inr ([], p)"
| "unpack_fields (k # ks) p = res_bind (unpack_field k p) (\<lambda>(f, p). res_bind (unpack_fields ks p) (\<lambda>(fs, p). Inr (f # fs, p)))"

text \<open>Wrapping the values of an operation as fields.\<close>

lemma codec_as_field:
  assumes c: "codec valid enc pack unpack" and k: "\<And>f. of_kind k f \<longleftrightarrow> (\<exists>v. f = C v \<and> valid v)"
    and inj: "\<And>v v'. C v = C v' \<longleftrightarrow> v = v'" and enc: "\<And>v. field_enc (C v) = enc v"
    and pack: "\<And>v. pack_field g (C v) = pack v" and sticky: "\<And>f p. pk_inv p \<Longrightarrow> Err p \<noteq> None \<Longrightarrow>
      \<exists>p'. pack_field g f p = Inr p' \<and> pk_inv p' \<and> room p' = room p \<and> (Err p' = Err p \<or> Err p' = Some ErrInsufficientLength)"
  shows "codec (of_kind k) field_enc (pack_field g) (read_as C unpack)"
  using codec.pack_law [OF c] codec.unpack_total [OF c] codec.unpack_sound [OF c] codec.unpack_complete [OF c] sticky
  by unfold_locales (fastforce simp: k enc pack inj read_as_def res_bind_Inr_iff)+

lemma pack_field_sticky:
  "pk_inv p \<Longrightarrow> Err p \<noteq> None \<Longrightarrow>
    \<exists>p'. pack_field g f p = Inr p' \<and> pk_inv p' \<and> room p' = room p \<and> (Err p' = Err p \<or> Err p' = Some ErrInsufficientLength)"
  by (cases f) (simp_all add: byte_codec.pack_sticky short_codec.pack_sticky int_codec.pack_sticky long_codec.pack_sticky
    bool_codec.pack_sticky fixed_codec.pack_sticky bytes_codec.pack_sticky str_codec.pack_sticky)

interpretation field_codec: codec "of_kind k" field_enc "pack_field g" "unpack_field k" for k g
proof -
  have cases: "of_kind KByte f = (\<exists>v. f = FByte v)" "of_kind KShort f = (\<exists>v. f = FShort v)" "of_kind KInt f = (\<exists>v. f = FInt v)"
    "of_kind KLong f = (\<exists>v. f = FLong v)" "of_kind KBool f = (\<exists>v. f = FBool v)" "of_kind (KFixed n) f = (\<exists>v. f = FFixed v \<and> length v = n)"
    "of_kind KVar f = (\<exists>v. f = FVar v \<and> length v < 2 ^ 32)" "of_kind (KLimitedVar l) f = (\<exists>v. f = FVar v \<and> length v \<le> unat l)"
    "of_kind KStr f = (\<exists>v. f = FStr v \<and> length v < 2 ^ 16)" "of_kind (KLimitedStr l') f = (\<exists>v. f = FStr v \<and> length v \<le> unat l')" for f n l l'
    by (cases f; simp)+
  show "codec (of_kind k) field_enc (pack_field g) (unpack_field k)"
  proof (cases k)
    case KByte
    show ?thesis unfolding KByte unpack_field.simps
      by (rule codec_as_field [OF byte_codec.codec_axioms]) (auto simp: cases pack_field_sticky)
  next
    case KShort
    show ?thesis unfolding KShort unpack_field.simps
      by (rule codec_as_field [OF short_codec.codec_axioms]) (auto simp: cases pack_field_sticky)
  next
    case KInt
    show ?thesis unfolding KInt unpack_field.simps
      by (rule codec_as_field [OF int_codec.codec_axioms]) (auto simp: cases pack_field_sticky)
  next
    case KLong
    show ?thesis unfolding KLong unpack_field.simps
      by (rule codec_as_field [OF long_codec.codec_axioms]) (auto simp: cases pack_field_sticky)
  next
    case KBool
    show ?thesis unfolding KBool unpack_field.simps
      by (rule codec_as_field [OF bool_codec.codec_axioms]) (auto simp: cases pack_field_sticky)
  next
    case (KFixed n)
    show ?thesis unfolding KFixed unpack_field.simps
      by (rule codec_as_field [OF fixed_codec.codec_axioms]) (auto simp: cases pack_field_sticky)
  next
    case KVar
    show ?thesis unfolding KVar unpack_field.simps
      by (rule codec_as_field [OF bytes_codec.codec_axioms]) (auto simp: cases pack_field_sticky)
  next
    case (KLimitedVar l)
    show ?thesis unfolding KLimitedVar unpack_field.simps
      by (rule codec_as_field [OF lbytes_codec.codec_axioms]) (auto simp: cases pack_field_sticky)
  next
    case KStr
    show ?thesis unfolding KStr unpack_field.simps
      by (rule codec_as_field [OF str_codec.codec_axioms]) (auto simp: cases pack_field_sticky)
  next
    case (KLimitedStr l)
    show ?thesis unfolding KLimitedStr unpack_field.simps
      by (rule codec_as_field [OF lstr_codec.codec_axioms]) (auto simp: cases pack_field_sticky)
  qed
qed


definition message :: "field list \<Rightarrow> bytes" where
  "message fs = concat (map field_enc fs)"

lemma pack_fields_law:
  assumes "list_all2 of_kind ks fs" "pk_inv p"
  shows "\<exists>p'. pack_fields g fs p = Inr p' \<and> pk_inv p' \<and> room p' = room p
    \<and> (if Err p \<noteq> None then Err p' = Err p \<or> Err p' = Some ErrInsufficientLength
       else if Offset p + int (length (message fs)) \<le> room p then Err p' = None \<and> written p' = written p @ message fs
       else Err p' = Some ErrInsufficientLength)"
  using assms
proof (induction arbitrary: p rule: list_all2_induct)
  case Nil
  then show ?case by (auto simp: message_def pk_inv_def room_def)
next
  case (Cons k ks f fs)
  show ?case
  proof (cases "Err p = None")
    case True
    from field_codec.pack_law [OF Cons.prems True Cons.hyps(1), of g] obtain p1 where p1: "pack_field g f p = Inr p1" "pk_inv p1" "room p1 = room p"
      "if Offset p + int (length (field_enc f)) \<le> room p then Err p1 = None \<and> written p1 = written p @ field_enc f
       else Err p1 = Some ErrInsufficientLength" by blast
    have "Offset p1 = Offset p + int (length (field_enc f))" if "written p1 = written p @ field_enc f"
      using that written_length [OF p1(2)] written_length [OF Cons.prems] by simp
    with Cons.IH [OF p1(2)] p1 True show ?thesis by (auto simp: message_def split: if_splits)
  next
    case False
    from pack_field_sticky [OF Cons.prems False, of g f] obtain p1 where "pack_field g f p = Inr p1" "pk_inv p1" "room p1 = room p"
      "Err p1 = Err p \<or> Err p1 = Some ErrInsufficientLength" by blast
    with Cons.IH [of p1] False show ?thesis by auto
  qed
qed

lemma unpack_fields_law:
  assumes "pk_inv p"
  shows "\<exists>fs p'. unpack_fields ks p = Inr (fs, p') \<and> pk_inv p' \<and> Bytes p' = Bytes p \<and> (Err p \<noteq> None \<longrightarrow> Err p' = Err p)
    \<and> (Err p' = None \<longrightarrow> list_all2 of_kind ks fs \<and> unread p = message fs @ unread p')"
  using assms
proof (induction ks arbitrary: p)
  case (Cons k ks)
  from field_codec.unpack_total [OF Cons.prems, of k] obtain f p1 where p1: "unpack_field k p = Inr (f, p1)" "pk_inv p1" "Bytes p1 = Bytes p"
    "Err p \<noteq> None \<longrightarrow> Err p1 = Err p" by blast
  from Cons.IH [OF p1(2)] obtain fs p' where p': "unpack_fields ks p1 = Inr (fs, p')" "pk_inv p'" "Bytes p' = Bytes p1"
    "Err p1 \<noteq> None \<longrightarrow> Err p' = Err p1" "Err p' = None \<longrightarrow> list_all2 of_kind ks fs \<and> unread p1 = message fs @ unread p'" by (elim exE conjE) simp
  have "Err p1 = None" if "Err p' = None" using p'(4) that by auto
  with p' p1 field_codec.unpack_sound [OF Cons.prems p1(1)] show ?case by (auto simp: message_def)
qed (simp add: message_def)

lemma unpack_fields_complete:
  assumes "list_all2 of_kind ks fs" "pk_inv p" "Err p = None" "unread p = message fs @ bs"
  shows "\<exists>p'. unpack_fields ks p = Inr (fs, p') \<and> Err p' = None \<and> unread p' = bs"
  using assms
proof (induction arbitrary: p rule: list_all2_induct)
  case (Cons k ks f fs)
  from field_codec.unpack_complete [OF Cons.prems(1,2) Cons.hyps(1), of "message fs @ bs"] Cons.prems(3)
  obtain p1 where p1: "unpack_field k p = Inr (f, p1)" "Err p1 = None" "unread p1 = message fs @ bs" by (auto simp: message_def)
  moreover have "pk_inv p1" using field_codec.unpack_total [OF Cons.prems(1), of k] p1(1) by auto
  ultimately show ?case using Cons.IH [of p1] by auto
qed (simp add: message_def)

definition new_Packer :: "int \<Rightarrow> bytes \<Rightarrow> bytes \<Rightarrow> Packer" where
  "new_Packer maxSize bs spare = \<lparr>Err = None, MaxSize = maxSize, Bytes = bs, Spare = spare, Offset = 0\<rparr>"

lemma new_Packer_law: "pk_inv (new_Packer n bs spare)" "Err (new_Packer n bs spare) = None" "unread (new_Packer n bs spare) = bs"
  "written (new_Packer n bs spare) = []" "room (new_Packer n bs spare) = max n (int (length bs))" "Offset (new_Packer n bs spare) = 0"
  by (simp_all add: new_Packer_def pk_inv_def unread_def written_def room_def)

section \<open>Properties\<close>

text \<open>(C16) Round trip of messages: fields of the given kinds that fit into the packer are packed without an error, whatever
  capacity its slice has and whatever lies in it, and unpacking the bytes gives the fields back and leaves nothing; fields that
  do not fit are refused with the error for it.\<close>

theorem packing_round_trip:
  assumes "list_all2 of_kind ks fs"
  shows "\<exists>p. pack_fields grown fs (new_Packer maxSize [] spare) = Inr p
    \<and> (if int (length (message fs)) \<le> max maxSize 0
       then Err p = None \<and> written p = message fs
         \<and> (\<exists>q. unpack_fields ks (new_Packer n (written p) spare') = Inr (fs, q) \<and> Err q = None \<and> unread q = [])
       else Err p = Some ErrInsufficientLength)"
  using pack_fields_law [OF assms new_Packer_law(1), of grown maxSize "[]" spare]
    unpack_fields_complete [OF assms new_Packer_law(1,2), of n "message fs" spare' "[]"]
  by (auto simp: new_Packer_law)

theorem packing_round_trip_witness:
  "\<exists>p. pack_fields (\<lambda>_. [9, 9]) [FShort 513, FBool True, FStr [104, 105]] (new_Packer 7 [] [7]) = Inr p
    \<and> (if int (length (message [FShort 513, FBool True, FStr [104, 105]])) \<le> max 7 0
       then Err p = None \<and> written p = message [FShort 513, FBool True, FStr [104, 105]]
         \<and> (\<exists>q. unpack_fields [KShort, KBool, KLimitedStr 4] (new_Packer 0 (written p) []) = Inr ([FShort 513, FBool True, FStr [104, 105]], q)
              \<and> Err q = None \<and> unread q = [])
       else Err p = Some ErrInsufficientLength)"
  by (rule packing_round_trip) simp

text \<open>(C17) Unpacking is safe and canonical: whatever the bytes are, reading fields of any kinds ends without a panic, leaves the
  bytes alone, and if there is no error the bytes it has read are exactly the encoding of the fields it returns, which
  respect the limits of their kinds.\<close>

theorem unpacking_canonical:
  "\<exists>fs q. unpack_fields ks (new_Packer n bs spare) = Inr (fs, q) \<and> Bytes q = bs
    \<and> (Err q = None \<longrightarrow> list_all2 of_kind ks fs \<and> bs = message fs @ unread q)"
  using unpack_fields_law [OF new_Packer_law(1), of ks n bs spare] by (auto simp: new_Packer_law) (auto simp: new_Packer_def)

theorem unpacking_canonical_witness:
  "\<exists>q. unpack_fields [KShort, KBool] (new_Packer 0 [2, 1, 1, 5] []) = Inr ([FShort 513, FBool True], q) \<and> Err q = None
     \<and> [2, 1, 1, 5] = message [FShort 513, FBool True] @ unread q"
proof -
  have run: "unpack_fields [KShort, KBool] (new_Packer 0 [2, 1, 1, 5] [])
      = Inr ([FShort 513, FBool True], \<lparr>Err = None, MaxSize = 0, Bytes = [2, 1, 1, 5], Spare = [], Offset = 3\<rparr>)" by code_simp
  from unpacking_canonical [of "[KShort, KBool]" 0 "[2, 1, 1, 5]" "[]"] show ?thesis unfolding run by auto
qed

end
