(* ===== verification/Deque.thy ===== *)
theory Deque
  imports Prelude "HOL-Library.Sublist"
begin

text \<open>
  The deque in a ring of \<^verbatim>\<open>utils/buffer/unbounded_deque.go\<close>, the bounded queue of
  \<^verbatim>\<open>utils/buffer/bounded_nonblocking_queue.go\<close> and the sliding window of \<^verbatim>\<open>utils/window/window.go\<close>, which both keep their
  elements in such a deque. \<^verbatim>\<open>zero\<close> is the zero value of the element type; an index out of range is the panic
  \<^verbatim>\<open>Ring_index\<close>. A slice expression is
  \<open>take\<close> or \<open>drop\<close>, which panics in Go when it is out of range; the deques that can be reached have their indices within the ring,
  so that it never is. The locks are left out, and the clock of a window is an argument.
\<close>

datatype ring_panic = Ring_index

record 'a unboundedSliceDeque =
  dq_size :: nat
  dq_left :: nat
  dq_right :: nat
  dq_data :: "'a list"

definition defaultInitSize :: int where "defaultInitSize = 32"

definition NewUnboundedDeque :: "'a \<Rightarrow> int \<Rightarrow> 'a unboundedSliceDeque" where
  "NewUnboundedDeque zero initSize =
     (let initSize = (if initSize < 2 then defaultInitSize else initSize)
      in \<lparr>dq_size = 0, dq_left = 0, dq_right = 1, dq_data = replicate (nat initSize) zero\<rparr>)"

definition set_at :: "nat \<Rightarrow> 'a \<Rightarrow> 'a list \<Rightarrow> ring_panic + 'a list" where
  "set_at i x xs = (if i < length xs then Inr (xs[i := x]) else Inl Ring_index)"

definition get_at :: "nat \<Rightarrow> 'a list \<Rightarrow> ring_panic + 'a" where
  "get_at i xs = (if i < length xs then Inr (xs ! i) else Inl Ring_index)"

text \<open>The built-in \<^verbatim>\<open>copy\<close>.\<close>

definition copy_into :: "'a list \<Rightarrow> 'a list \<Rightarrow> 'a list" where
  "copy_into dst src = take (length dst) src @ drop (length src) dst"

definition leftmostEltIdx :: "'a unboundedSliceDeque \<Rightarrow> nat" where
  "leftmostEltIdx b = (if int (dq_left b) = int (length (dq_data b)) - 1 then 0 else dq_left b + 1)"

definition rightmostEltIdx :: "'a unboundedSliceDeque \<Rightarrow> nat" where
  "rightmostEltIdx b = (if dq_right b = 0 then length (dq_data b) - 1 else dq_right b - 1)"

definition resize :: "'a \<Rightarrow> 'a unboundedSliceDeque \<Rightarrow> 'a unboundedSliceDeque" where
  "resize zero b =
     (if dq_size b \<noteq> length (dq_data b) then b
      else
        let leftmostIdx = leftmostEltIdx b;
            newData = copy_into (replicate (dq_size b * 2) zero) (drop leftmostIdx (dq_data b));
            numCopied = length (dq_data b) - leftmostIdx;
            newData = take numCopied newData @ copy_into (drop numCopied newData) (take (dq_right b) (dq_data b))
        in b\<lparr>dq_data := newData, dq_left := length newData - 1, dq_right := dq_size b\<rparr>)"

definition PushRight :: "'a \<Rightarrow> 'a \<Rightarrow> 'a unboundedSliceDeque \<Rightarrow> ring_panic + 'a unboundedSliceDeque" where
  "PushRight zero elt b =
     res_bind (set_at (dq_right b) elt (dq_data b)) (\<lambda>data.
       Inr (resize zero (b\<lparr>dq_data := data, dq_size := dq_size b + 1, dq_right := (dq_right b + 1) mod length data\<rparr>)))"

definition PushLeft :: "'a \<Rightarrow> 'a \<Rightarrow> 'a unboundedSliceDeque \<Rightarrow> ring_panic + 'a unboundedSliceDeque" where
  "PushLeft zero elt b =
     res_bind (set_at (dq_left b) elt (dq_data b)) (\<lambda>data.
       Inr (resize zero (b\<lparr>dq_data := data, dq_size := dq_size b + 1,
              dq_left := if dq_left b = 0 then length data - 1 else dq_left b - 1\<rparr>)))"

definition PopLeft :: "'a \<Rightarrow> 'a unboundedSliceDeque \<Rightarrow> ring_panic + 'a \<times> bool \<times> 'a unboundedSliceDeque" where
  "PopLeft zero b =
     (if dq_size b = 0 then Inr (zero, False, b)
      else
        let idx = leftmostEltIdx b in
        res_bind (get_at idx (dq_data b)) (\<lambda>elt.
        res_bind (set_at idx zero (dq_data b)) (\<lambda>data.
          Inr (elt, True, b\<lparr>dq_data := data, dq_size := dq_size b - 1, dq_left := (dq_left b + 1) mod length data\<rparr>))))"

definition PeekLeft :: "'a \<Rightarrow> 'a unboundedSliceDeque \<Rightarrow> ring_panic + 'a \<times> bool" where
  "PeekLeft zero b = (if dq_size b = 0 then Inr (zero, False)
     else res_bind (get_at (leftmostEltIdx b) (dq_data b)) (\<lambda>elt. Inr (elt, True)))"

definition PopRight :: "'a \<Rightarrow> 'a unboundedSliceDeque \<Rightarrow> ring_panic + 'a \<times> bool \<times> 'a unboundedSliceDeque" where
  "PopRight zero b =
     (if dq_size b = 0 then Inr (zero, False, b)
      else
        let idx = rightmostEltIdx b in
        res_bind (get_at idx (dq_data b)) (\<lambda>elt.
        res_bind (set_at idx zero (dq_data b)) (\<lambda>data.
          Inr (elt, True, b\<lparr>dq_data := data, dq_size := dq_size b - 1,
                 dq_right := if dq_right b = 0 then length data - 1 else dq_right b - 1\<rparr>))))"

definition PeekRight :: "'a \<Rightarrow> 'a unboundedSliceDeque \<Rightarrow> ring_panic + 'a \<times> bool" where
  "PeekRight zero b = (if dq_size b = 0 then Inr (zero, False)
     else res_bind (get_at (rightmostEltIdx b) (dq_data b)) (\<lambda>elt. Inr (elt, True)))"

definition dq_Index :: "'a \<Rightarrow> int \<Rightarrow> 'a unboundedSliceDeque \<Rightarrow> ring_panic + 'a \<times> bool" where
  "dq_Index zero idx b =
     (if idx < 0 \<or> idx \<ge> int (dq_size b) then Inr (zero, False)
      else res_bind (get_at ((leftmostEltIdx b + nat idx) mod length (dq_data b)) (dq_data b)) (\<lambda>elt. Inr (elt, True)))"

definition dq_Len :: "'a unboundedSliceDeque \<Rightarrow> int" where
  "dq_Len b = int (dq_size b)"

definition dq_List :: "'a \<Rightarrow> 'a unboundedSliceDeque \<Rightarrow> 'a list" where
  "dq_List zero b =
     (if dq_size b = 0 then []
      else
        let src = drop (leftmostEltIdx b) (dq_data b);
            lst = copy_into (replicate (dq_size b) zero) src;
            numCopied = min (dq_size b) (length src)
        in if numCopied < dq_size b
           then take numCopied lst @ copy_into (drop numCopied lst) (take (dq_right b) (dq_data b))
           else lst)"

subsection \<open>The bounded queue\<close>

datatype queue_error = errInvalidMaxSize

record 'a boundedQueue =
  bq_deque :: "'a unboundedSliceDeque"
  bq_maxSize :: int
  bq_evicted :: "'a list"

text \<open>The values that \<^verbatim>\<open>onEvict\<close> has been called with are kept in order.\<close>

definition NewBoundedQueue :: "'a \<Rightarrow> int \<Rightarrow> queue_error + 'a boundedQueue" where
  "NewBoundedQueue zero maxSize =
     (if maxSize < 1 then Inl errInvalidMaxSize
      else Inr \<lparr>bq_deque = NewUnboundedDeque zero (maxSize + 1), bq_maxSize = maxSize, bq_evicted = []\<rparr>)"

definition bq_Push :: "'a \<Rightarrow> 'a \<Rightarrow> 'a boundedQueue \<Rightarrow> ring_panic + 'a boundedQueue" where
  "bq_Push zero elt b =
     res_bind
       (if dq_Len (bq_deque b) = bq_maxSize b
        then res_bind (PopLeft zero (bq_deque b)) (\<lambda>(evicted, _, d). Inr (b\<lparr>bq_deque := d, bq_evicted := bq_evicted b @ [evicted]\<rparr>))
        else Inr b)
       (\<lambda>b. res_bind (PushRight zero elt (bq_deque b)) (\<lambda>d. Inr (b\<lparr>bq_deque := d\<rparr>)))"

definition bq_Pop :: "'a \<Rightarrow> 'a boundedQueue \<Rightarrow> ring_panic + 'a \<times> bool \<times> 'a boundedQueue" where
  "bq_Pop zero b = res_bind (PopLeft zero (bq_deque b)) (\<lambda>(elt, ok, d). Inr (elt, ok, b\<lparr>bq_deque := d\<rparr>))"

definition bq_Peek :: "'a \<Rightarrow> 'a boundedQueue \<Rightarrow> ring_panic + 'a \<times> bool" where
  "bq_Peek zero b = PeekLeft zero (bq_deque b)"

definition bq_Index :: "'a \<Rightarrow> int \<Rightarrow> 'a boundedQueue \<Rightarrow> ring_panic + 'a \<times> bool" where
  "bq_Index zero i b = dq_Index zero i (bq_deque b)"

definition bq_Len :: "'a boundedQueue \<Rightarrow> int" where
  "bq_Len b = dq_Len (bq_deque b)"

definition bq_List :: "'a \<Rightarrow> 'a boundedQueue \<Rightarrow> 'a list" where
  "bq_List zero b = dq_List zero (bq_deque b)"

subsection \<open>The window\<close>

text \<open>Times are nanoseconds; the difference of two of them saturates as \<^verbatim>\<open>time.Time.Sub\<close> does.\<close>

type_synonym 'a wnode = "'a \<times> int"

definition time_Sub :: "int \<Rightarrow> int \<Rightarrow> int" where
  "time_Sub t u = max (- (2 ^ 63)) (min (2 ^ 63 - 1) (t - u))"

record 'a window =
  w_ttl :: int
  w_maxSize :: int
  w_minSize :: int
  w_elements :: "'a wnode unboundedSliceDeque"

definition window_New :: "'a wnode \<Rightarrow> int \<Rightarrow> int \<Rightarrow> int \<Rightarrow> 'a window" where
  "window_New zero maxSize minSize ttl =
     \<lparr>w_ttl = ttl, w_maxSize = maxSize, w_minSize = minSize, w_elements = NewUnboundedDeque zero (maxSize + 1)\<rparr>"

lemma PopLeft_size: "PopLeft zero d = Inr (x, ok, d') \<Longrightarrow> dq_size d \<noteq> 0 \<Longrightarrow> dq_size d' < dq_size d"
  by (auto simp: PopLeft_def Let_def res_bind_Inr_iff)

function stale_loop :: "'a wnode \<Rightarrow> int \<Rightarrow> int \<Rightarrow> 'a wnode \<Rightarrow> 'a wnode unboundedSliceDeque \<Rightarrow> ring_panic + 'a wnode unboundedSliceDeque" where
  "stale_loop zero minSize ttl newest d =
     (if dq_Len d > minSize then
        (case PeekLeft zero d of
           Inl e \<Rightarrow> Inl e
         | Inr (oldest, ok) \<Rightarrow>
             if \<not> ok \<or> time_Sub (snd newest) (snd oldest) \<le> ttl then Inr d
             else (case PopLeft zero d of
                     Inl e \<Rightarrow> Inl e
                   | Inr (_, _, d') \<Rightarrow> stale_loop zero minSize ttl newest d'))
      else Inr d)"
  by pat_completeness auto
termination
  by (relation "measure (\<lambda>(_, _, _, _, d). dq_size d)") (auto simp: PeekLeft_def split: if_splits dest!: PopLeft_size)

declare stale_loop.simps [simp del]

definition removeStaleNodes :: "'a wnode \<Rightarrow> 'a window \<Rightarrow> ring_panic + 'a window" where
  "removeStaleNodes zero w =
     res_bind (PeekRight zero (w_elements w)) (\<lambda>(newest, ok).
       if \<not> ok then Inr w
       else res_bind (stale_loop zero (w_minSize w) (w_ttl w) newest (w_elements w)) (\<lambda>d. Inr (w\<lparr>w_elements := d\<rparr>)))"

definition w_Add :: "'a wnode \<Rightarrow> int \<Rightarrow> 'a \<Rightarrow> 'a window \<Rightarrow> ring_panic + 'a window" where
  "w_Add zero now value' w =
     res_bind (PushRight zero (value', now) (w_elements w)) (\<lambda>d.
     res_bind (removeStaleNodes zero (w\<lparr>w_elements := d\<rparr>)) (\<lambda>w.
       if dq_Len (w_elements w) > w_maxSize w
       then res_bind (PopLeft zero (w_elements w)) (\<lambda>(_, _, d). Inr (w\<lparr>w_elements := d\<rparr>))
       else Inr w))"

definition w_Oldest :: "'a wnode \<Rightarrow> 'a window \<Rightarrow> ring_panic + 'a \<times> bool" where
  "w_Oldest zero w = res_bind (PeekLeft zero (w_elements w)) (\<lambda>(oldest, ok). Inr (if \<not> ok then (fst zero, False) else (fst oldest, True)))"

definition w_Length :: "'a window \<Rightarrow> int" where
  "w_Length w = dq_Len (w_elements w)"


section \<open>The contract of a deque\<close>

datatype 'a dq_call = Push_right 'a | Push_left 'a | Pop_left | Pop_right | Peek_left | Peek_right | At int | Size | Elements

datatype 'a dq_answer = Done | Elt 'a bool | Num int | Elts "'a list"

text \<open>What a call answers and leaves, for a list of elements.\<close>

fun list_call :: "'a \<Rightarrow> 'a dq_call \<Rightarrow> 'a list \<Rightarrow> 'a dq_answer \<times> 'a list" where
  "list_call zero (Push_right x) xs = (Done, xs @ [x])"
| "list_call zero (Push_left x) xs = (Done, x # xs)"
| "list_call zero Pop_left xs = (if xs = [] then (Elt zero False, []) else (Elt (hd xs) True, tl xs))"
| "list_call zero Pop_right xs = (if xs = [] then (Elt zero False, []) else (Elt (last xs) True, butlast xs))"
| "list_call zero Peek_left xs = (if xs = [] then Elt zero False else Elt (hd xs) True, xs)"
| "list_call zero Peek_right xs = (if xs = [] then Elt zero False else Elt (last xs) True, xs)"
| "list_call zero (At i) xs = (if 0 \<le> i \<and> i < int (length xs) then Elt (xs ! nat i) True else Elt zero False, xs)"
| "list_call zero Size xs = (Num (int (length xs)), xs)"
| "list_call zero Elements xs = (Elts xs, xs)"

definition with_answer :: "'d \<Rightarrow> ring_panic + 'a \<times> bool \<Rightarrow> ring_panic + 'a dq_answer \<times> 'd" where
  "with_answer d r = res_bind r (\<lambda>(x, ok). Inr (Elt x ok, d))"

fun ring_call :: "'a \<Rightarrow> 'a dq_call \<Rightarrow> 'a unboundedSliceDeque \<Rightarrow> ring_panic + 'a dq_answer \<times> 'a unboundedSliceDeque" where
  "ring_call zero (Push_right x) d = res_bind (PushRight zero x d) (\<lambda>d. Inr (Done, d))"
| "ring_call zero (Push_left x) d = res_bind (PushLeft zero x d) (\<lambda>d. Inr (Done, d))"
| "ring_call zero Pop_left d = res_bind (PopLeft zero d) (\<lambda>(x, ok, d). Inr (Elt x ok, d))"
| "ring_call zero Pop_right d = res_bind (PopRight zero d) (\<lambda>(x, ok, d). Inr (Elt x ok, d))"
| "ring_call zero Peek_left d = with_answer d (PeekLeft zero d)"
| "ring_call zero Peek_right d = with_answer d (PeekRight zero d)"
| "ring_call zero (At i) d = with_answer d (dq_Index zero i d)"
| "ring_call zero Size d = Inr (Num (dq_Len d), d)"
| "ring_call zero Elements d = Inr (Elts (dq_List zero d), d)"

text \<open>A run of calls with its answers.\<close>

fun run_dq :: "('c \<Rightarrow> 'd \<Rightarrow> 'e + 'r \<times> 'd) \<Rightarrow> 'c list \<Rightarrow> 'd \<Rightarrow> 'e + 'r list \<times> 'd" where
  "run_dq f [] d = Inr ([], d)"
| "run_dq f (c # cs) d = res_bind (f c d) (\<lambda>(r, d). res_bind (run_dq f cs d) (\<lambda>(rs, d). Inr (r # rs, d)))"

fun run_list :: "'a \<Rightarrow> 'a dq_call list \<Rightarrow> 'a list \<Rightarrow> 'a dq_answer list \<times> 'a list" where
  "run_list zero [] xs = ([], xs)"
| "run_list zero (c # cs) xs = (let (r, xs) = list_call zero c xs; (rs, xs) = run_list zero cs xs in (r # rs, xs))"

locale deque =
  fixes zero :: 'a and rep :: "'d \<Rightarrow> 'a list \<Rightarrow> bool" and call :: "'a dq_call \<Rightarrow> 'd \<Rightarrow> ring_panic + 'a dq_answer \<times> 'd" and new :: 'd
  assumes new_law: "rep new []"
    and call_law: "rep d xs \<Longrightarrow> \<exists>d'. call c d = Inr (fst (list_call zero c xs), d') \<and> rep d' (snd (list_call zero c xs))"
begin

lemma run_law: "rep d xs \<Longrightarrow> \<exists>d'. run_dq call cs d = Inr (fst (run_list zero cs xs), d') \<and> rep d' (snd (run_list zero cs xs))"
proof (induction cs arbitrary: d xs)
  case (Cons c cs)
  from call_law [OF Cons.prems, of c] obtain d1 where d1: "call c d = Inr (fst (list_call zero c xs), d1)"
    "rep d1 (snd (list_call zero c xs))" by blast
  from Cons.IH [OF d1(2)] d1(1) show ?case by (auto simp: split_beta Let_def)
qed auto

text \<open>Elements come out as they went in.\<close>

lemma list_fifo:
  "run_list zero (map Push_right ys @ replicate (length xs + length ys) Pop_left) xs = (map (\<lambda>_. Done) ys @ map (\<lambda>x. Elt x True) (xs @ ys), [])"
proof (induction ys arbitrary: xs)
  case Nil
  show ?case by (induction xs) auto
next
  case (Cons y ys)
  from Cons.IH [of "xs @ [y]"] show ?case by simp
qed

lemma fifo: "\<exists>d'. run_dq call (map Push_right ys @ replicate (length ys) Pop_left) new
    = Inr (map (\<lambda>_. Done) ys @ map (\<lambda>x. Elt x True) ys, d') \<and> rep d' []"
  using run_law [OF new_law, of "map Push_right ys @ replicate (length ys) Pop_left"] list_fifo [of ys "[]"] by simp

end

section \<open>The ring holds a list\<close>

text \<open>Read from the slot after the left end, the ring is the list followed by zeros.\<close>

definition ring_rep :: "'a \<Rightarrow> 'a unboundedSliceDeque \<Rightarrow> 'a list \<Rightarrow> bool" where
  "ring_rep zero d xs \<longleftrightarrow> 2 \<le> length (dq_data d) \<and> dq_left d < length (dq_data d) \<and> dq_size d = length xs
     \<and> length xs < length (dq_data d) \<and> dq_right d = (dq_left d + 1 + length xs) mod length (dq_data d)
     \<and> rotate (dq_left d + 1) (dq_data d) = xs @ replicate (length (dq_data d) - length xs) zero"

lemma ring_repD:
  assumes "ring_rep zero d xs"
  shows "2 \<le> length (dq_data d)" "dq_left d < length (dq_data d)" "dq_size d = length xs" "length xs < length (dq_data d)"
    "dq_right d = (dq_left d + 1 + length xs) mod length (dq_data d)"
    "rotate (dq_left d + 1) (dq_data d) = xs @ replicate (length (dq_data d) - length xs) zero"
  using assms unfolding ring_rep_def by blast+

lemma mod_add_left_inj:
  assumes "i < n" "j < n" "(k + i) mod n = (k + j) mod (n :: nat)"
  shows "i = j"
proof -
  have le: "i' = j'" if "i' \<le> j'" "j' < n" "(k + j') mod n = (k + i') mod n" for i' j'
  proof -
    have "n dvd j' - i'" using that mod_eq_dvd_iff_nat [of "k + i'" "k + j'" n] by simp
    then show ?thesis using that by (meson diff_is_0_eq dual_order.antisym less_imp_diff_less nat_dvd_not_less not_gr_zero)
  qed
  show ?thesis using le [of i j] le [of j i] assms by (cases "i \<le> j") simp_all
qed

lemma rotate_update:
  assumes "i < length xs"
  shows "rotate k (xs[(k + i) mod length xs := x]) = (rotate k xs)[i := x]"
proof (rule nth_equalityI)
  fix j assume j: "j < length (rotate k (xs[(k + i) mod length xs := x]))"
  have "(k + i) mod length xs < length xs" using assms by (cases xs) auto
  moreover have "(k + j) mod length xs = (k + i) mod length xs \<longleftrightarrow> j = i" using mod_add_left_inj [of j "length xs" i k] assms j by auto
  ultimately show "rotate k (xs[(k + i) mod length xs := x]) ! j = (rotate k xs)[i := x] ! j"
    using assms j by (auto simp: nth_rotate nth_list_update)
qed simp

lemma rotate_mod: "rotate (k mod length xs) xs = rotate k xs"
  by (rule rotate_conv_mod [symmetric])

lemma leftmost_mod: "dq_left d < length (dq_data d) \<Longrightarrow> leftmostEltIdx d = (dq_left d + 1) mod length (dq_data d)"
proof (cases "dq_left d + 1 = length (dq_data d)")
  case True
  then show ?thesis by (simp add: leftmostEltIdx_def)
qed (auto simp: leftmostEltIdx_def)

lemma ring_nth:
  assumes "ring_rep zero d xs" "i < length (dq_data d)"
  shows "dq_data d ! ((dq_left d + 1 + i) mod length (dq_data d)) = (xs @ replicate (length (dq_data d) - length xs) zero) ! i"
  using nth_rotate [OF assms(2), of "dq_left d + 1"] ring_repD(6) [OF assms(1)] by simp

lemma ring_New: "ring_rep zero (NewUnboundedDeque zero n) []"
  by (auto simp: ring_rep_def NewUnboundedDeque_def defaultInitSize_def Let_def)


text \<open>Doubling the ring when it is full.\<close>

lemma resize_full:
  assumes d: "2 \<le> length (dq_data d)" "dq_left d < length (dq_data d)" "dq_size d = length (dq_data d)"
    "dq_right d = (dq_left d + 1) mod length (dq_data d)"
  shows "ring_rep zero (resize zero d) (rotate (dq_left d + 1) (dq_data d))"
proof -
  let ?l = "(dq_left d + 1) mod length (dq_data d)"
  define n where "n = length (dq_data d)"
  define xs where "xs = rotate (dq_left d + 1) (dq_data d)"
  define new where "new = xs @ replicate n zero"
  have n: "0 < n" "n \<noteq> 1" using d(1) by (auto simp: n_def)
  have l: "?l < n" unfolding n_def [symmetric] using n(1) by (rule mod_less_divisor)
  have xs: "xs = drop ?l (dq_data d) @ take ?l (dq_data d)" unfolding xs_def by (rule rotate_drop_take)
  have len: "length xs = n" "length new = n + n" by (simp_all add: xs_def new_def n_def)
  have "copy_into (replicate (dq_size d * 2) zero) (drop ?l (dq_data d)) = drop ?l (dq_data d) @ replicate (n + ?l) zero"
    using l d(3) by (simp add: copy_into_def n_def)
  then have eq: "resize zero d = d\<lparr>dq_data := new, dq_left := length new - 1, dq_right := n\<rparr>"
    using l d by (simp add: resize_def Let_def leftmost_mod copy_into_def min_def new_def xs n_def)
  have "rotate (length new) new = new" by (rule rotate_id) simp
  moreover have "length new - 1 + 1 = length new" using n len by simp
  moreover have "n < n + n" using n(1) by simp
  then have "n = (length new + n) mod length new" unfolding len by (simp only: mod_add_self1 mod_less)
  ultimately show ?thesis unfolding ring_rep_def eq xs_def [symmetric]
    using n len d(3) by (simp del: rotate_Suc add: n_def [symmetric]) (simp add: new_def)
qed

lemma ring_PushRight:
  assumes rep: "ring_rep zero d xs"
  shows "\<exists>d'. PushRight zero x d = Inr d' \<and> ring_rep zero d' (xs @ [x])"
proof -
  note d = ring_repD [OF rep]
  let ?n = "length (dq_data d)" and ?data = "(dq_data d)[dq_right d := x]"
  let ?d = "d\<lparr>dq_data := ?data, dq_size := dq_size d + 1, dq_right := (dq_right d + 1) mod ?n\<rparr>"
  have r: "dq_right d < ?n" unfolding d(5) using d(1) by (intro mod_less_divisor) auto
  have rot: "rotate (dq_left d + 1) ?data = (xs @ [x]) @ replicate (?n - length (xs @ [x])) zero"
    unfolding d(5) using rotate_update [of "length xs" "dq_data d" "dq_left d + 1" x] d(4,6)
    by (cases "?n - length xs") (auto simp: list_update_append)
  have right: "dq_right ?d = (dq_left d + 1 + length (xs @ [x])) mod ?n" unfolding d(5) by (simp add: mod_simps)
  have push: "PushRight zero x d = Inr (resize zero ?d)" using r by (simp add: PushRight_def set_at_def)
  show ?thesis
  proof (cases "length xs + 1 = ?n")
    case True
    then have "dq_left d + 1 + length (xs @ [x]) = dq_left d + 1 + ?n" by simp
    then have "dq_right ?d = (dq_left ?d + 1) mod ?n" unfolding right by (simp only: mod_add_self2) simp
    then have "ring_rep zero (resize zero ?d) (rotate (dq_left ?d + 1) (dq_data ?d))" using d True by (intro resize_full) simp_all
    then show ?thesis using push rot True by simp
  next
    case False
    then have "resize zero ?d = ?d" using d(3) by (simp add: resize_def)
    with push rot right d False show ?thesis by (simp add: ring_rep_def)
  qed
qed


lemma rotate_back:
  assumes "rotate (Suc l) xs = ys @ [y]"
  shows "rotate l xs = y # ys"
proof -
  have "rotate1 (rotate l xs) = rotate1 (y # ys)" using assms by simp
  then show ?thesis using inj_rotate1 by (rule injD [rotated])
qed

lemma ring_PushLeft:
  assumes rep: "ring_rep zero d xs"
  shows "\<exists>d'. PushLeft zero x d = Inr d' \<and> ring_rep zero d' (x # xs)"
proof -
  note d = ring_repD [OF rep]
  let ?n = "length (dq_data d)" and ?data = "(dq_data d)[dq_left d := x]" and ?l = "if dq_left d = 0 then length (dq_data d) - 1 else dq_left d - 1"
  let ?d = "d\<lparr>dq_data := ?data, dq_size := dq_size d + 1, dq_left := ?l\<rparr>"
  obtain k where k: "?n - length xs = Suc k" using d(4) by (cases "?n - length xs") auto
  have "dq_left d + 1 + (?n - 1) = dq_left d + ?n" using d(1) by linarith
  then have "(dq_left d + 1 + (?n - 1)) mod ?n = dq_left d" using d(2) by (simp only: mod_add_self2 mod_less)
  then have "rotate (dq_left d + 1) ?data = (xs @ replicate (Suc k) zero)[?n - 1 := x]"
    using rotate_update [of "?n - 1" "dq_data d" "dq_left d + 1" x] d(1,6) k by (simp del: rotate_Suc) 
  also have "xs @ replicate (Suc k) zero = (xs @ replicate k zero) @ [zero]" by (simp add: replicate_append_same)
  also have "?n - 1 = length (xs @ replicate k zero)" using k by simp
  also have "((xs @ replicate k zero) @ [zero])[length (xs @ replicate k zero) := x] = (xs @ replicate k zero) @ [x]"
    by (rule list_update_length)
  finally have "rotate (dq_left d) ?data = x # xs @ replicate k zero" by (intro rotate_back) simp
  moreover have l: "?l + 1 = (if dq_left d = 0 then ?n else dq_left d)" "?l < ?n" using d(1,2) by auto
  then have "rotate (?l + 1) ?data = rotate (dq_left d) ?data" by (cases "dq_left d = 0") (simp_all del: rotate_Suc)
  ultimately have rot: "rotate (?l + 1) ?data = (x # xs) @ replicate (?n - length (x # xs)) zero" using k by simp
  have right: "dq_right d = (?l + 1 + length (x # xs)) mod ?n" unfolding l(1) d(5)
    using mod_add_self1 [of ?n "length (x # xs)"] by (cases "dq_left d = 0") simp_all
  have push: "PushLeft zero x d = Inr (resize zero ?d)" using d(2) by (simp add: PushLeft_def set_at_def)
  show ?thesis
  proof (cases "length xs + 1 = ?n")
    case True
    then have "length (x # xs) = ?n" by simp
    then have "dq_right d = (?l + 1) mod ?n" unfolding right by (simp only: mod_add_self2)
    then have "ring_rep zero (resize zero ?d) (rotate (dq_left ?d + 1) (dq_data ?d))" using d True l(2) by (intro resize_full) (simp_all del: rotate_Suc)
    then show ?thesis using push rot True by (simp del: rotate_Suc)
  next
    case False
    then have "resize zero ?d = ?d" using d(3) by (simp add: resize_def)
    with push rot right d False l(2) show ?thesis by (simp add: ring_rep_def del: rotate_Suc)
  qed
qed

lemma ring_leftmost:
  assumes "ring_rep zero d xs"
  shows "leftmostEltIdx d < length (dq_data d)" "xs \<noteq> [] \<Longrightarrow> dq_data d ! leftmostEltIdx d = hd xs"
proof -
  note d = ring_repD [OF assms]
  show "leftmostEltIdx d < length (dq_data d)" unfolding leftmost_mod [OF d(2)] using d(1) by (intro mod_less_divisor) auto
  assume "xs \<noteq> []"
  moreover have "0 < length (dq_data d)" using d(1) by auto
  ultimately show "dq_data d ! leftmostEltIdx d = hd xs" using ring_nth [OF assms, of 0] d(4) unfolding leftmost_mod [OF d(2)]
    by (simp add: nth_append hd_conv_nth)
qed

lemma ring_PopLeft:
  assumes rep: "ring_rep zero d (x # xs)"
  shows "\<exists>d'. PopLeft zero d = Inr (x, True, d') \<and> ring_rep zero d' xs"
proof -
  note d = ring_repD [OF rep]
  let ?n = "length (dq_data d)" and ?data = "(dq_data d)[(dq_left d + 1) mod length (dq_data d) := zero]"
  let ?d = "d\<lparr>dq_data := ?data, dq_size := dq_size d - 1, dq_left := (dq_left d + 1) mod ?n\<rparr>"
  have n: "0 < ?n" using d(1) by auto
  have "rotate (dq_left d + 1) ?data = zero # xs @ replicate (?n - length (x # xs)) zero"
    using rotate_update [of 0 "dq_data d" "dq_left d + 1" zero] d(6) n by (simp del: rotate_Suc)
  moreover have "?n - length xs = Suc (?n - length (x # xs))" using d(4) by simp
  ultimately have "rotate (Suc (dq_left d + 1)) ?data = xs @ replicate (?n - length xs) zero"
    by (simp add: replicate_append_same)
  moreover have "rotate ((dq_left d + 1) mod ?n + 1) ?data = rotate (Suc (dq_left d + 1)) ?data"
    by (metis Suc_eq_plus1 length_list_update mod_Suc_eq rotate_mod)
  moreover have "dq_right d = ((dq_left d + 1) mod ?n + 1 + length xs) mod ?n"
    unfolding d(5) by (simp add: mod_simps) (metis add_Suc mod_Suc_eq mod_add_left_eq)
  moreover have "PopLeft zero d = Inr (x, True, ?d)"
    using d(3) ring_leftmost [OF rep] by (simp add: PopLeft_def get_at_def set_at_def Let_def leftmost_mod [OF d(2)])
  ultimately show ?thesis using d n by (simp add: ring_rep_def del: rotate_Suc)
qed

lemma rightmost_mod:
  assumes "ring_rep zero d xs" "xs \<noteq> []"
  shows "rightmostEltIdx d = (dq_left d + 1 + (length xs - 1)) mod length (dq_data d)" "rightmostEltIdx d < length (dq_data d)"
    "dq_data d ! rightmostEltIdx d = last xs"
proof -
  note d = ring_repD [OF assms(1)]
  let ?n = "length (dq_data d)"
  have n: "0 < ?n" using d(1) by auto
  have suc: "Suc ((dq_left d + 1 + (length xs - 1)) mod ?n) mod ?n = dq_right d" using assms(2) unfolding d(5) mod_Suc_eq
    by (intro arg_cong [of _ _ "\<lambda>x. x mod ?n"]) (cases xs; simp)
  have lt: "(dq_left d + 1 + (length xs - 1)) mod ?n < ?n" using n by (rule mod_less_divisor)
  show idx: "rightmostEltIdx d = (dq_left d + 1 + (length xs - 1)) mod ?n"
    using suc lt by (auto simp: rightmostEltIdx_def mod_Suc split: if_splits)
  show "rightmostEltIdx d < ?n" unfolding idx by (rule lt)
  show "dq_data d ! rightmostEltIdx d = last xs"
    unfolding idx using ring_nth [OF assms(1), of "length xs - 1"] d(4) assms(2) by (simp add: nth_append last_conv_nth)
qed

lemma ring_PopRight:
  assumes rep: "ring_rep zero d (xs @ [x])"
  shows "\<exists>d'. PopRight zero d = Inr (x, True, d') \<and> ring_rep zero d' xs"
proof -
  note d = ring_repD [OF rep] and r = rightmost_mod [OF rep]
  let ?n = "length (dq_data d)" and ?r = "(dq_left d + 1 + length xs) mod length (dq_data d)"
  let ?data = "(dq_data d)[?r := zero]"
  let ?d = "d\<lparr>dq_data := ?data, dq_size := dq_size d - 1, dq_right := ?r\<rparr>"
  have n: "0 < ?n" "length xs < ?n" using d(1,4) by auto
  have "rotate (dq_left d + 1) ?data = (xs @ [x] @ replicate (?n - length (xs @ [x])) zero)[length xs := zero]"
    using rotate_update [of "length xs" "dq_data d" "dq_left d + 1" zero] d(6) n by (simp del: rotate_Suc)
  also have "\<dots> = xs @ zero # replicate (?n - length (xs @ [x])) zero" by simp
  also have "\<dots> = xs @ replicate (?n - length xs) zero" using d(4) by (simp add: Suc_diff_Suc [symmetric])
  finally have rot: "rotate (dq_left d + 1) ?data = xs @ replicate (?n - length xs) zero" .
  have "?r = (if dq_right d = 0 then ?n - 1 else dq_right d - 1)" using r(1) by (simp add: rightmostEltIdx_def)
  then have "PopRight zero d = Inr (x, True, ?d)"
    using d(3) r by (cases "dq_right d = 0") (simp_all add: PopRight_def get_at_def set_at_def Let_def)
  then show ?thesis using d n rot by (simp add: ring_rep_def del: rotate_Suc)
qed

lemma ring_Index:
  assumes rep: "ring_rep zero d xs" and "0 \<le> i" "i < int (length xs)"
  shows "dq_Index zero i d = Inr (xs ! nat i, True)"
proof -
  note d = ring_repD [OF rep]
  have n: "nat i < length xs" "0 < length (dq_data d)" using assms d(1) by auto
  have "(leftmostEltIdx d + nat i) mod length (dq_data d) = (dq_left d + 1 + nat i) mod length (dq_data d)"
    unfolding leftmost_mod [OF d(2)] by (simp add: mod_simps)
  with ring_nth [OF rep, of "nat i"] n assms d(3,4) show ?thesis
    by (simp add: dq_Index_def get_at_def nth_append)
qed

lemma ring_List:
  assumes rep: "ring_rep zero d xs"
  shows "dq_List zero d = xs"
proof (cases "xs = []")
  case False
  note d = ring_repD [OF rep]
  let ?l = "leftmostEltIdx d" and ?n = "length (dq_data d)"
  have l: "?l < ?n" by (rule ring_leftmost [OF rep])
  have "rotate (dq_left d + 1) (dq_data d) = drop ?l (dq_data d) @ take ?l (dq_data d)"
    unfolding leftmost_mod [OF d(2)] by (rule rotate_drop_take)
  then have xs: "xs = take (length xs) (drop ?l (dq_data d) @ take ?l (dq_data d))"
    using d(6) by (metis append_eq_conv_conj)
  have right: "dq_right d = (?l + length xs) mod ?n" unfolding leftmost_mod [OF d(2)] d(5) by (simp add: mod_simps)
  show ?thesis
  proof (cases "length xs \<le> ?n - ?l")
    case True
    then have "dq_List zero d = take (length xs) (drop ?l (dq_data d))"
      using d(3) False by (simp add: dq_List_def Let_def copy_into_def)
    then show ?thesis using True xs by simp
  next
    case gt: False
    have "?l + length xs - ?n < ?n" using l d(4) by linarith
    moreover have "(?l + length xs) mod ?n = (?l + length xs - ?n) mod ?n" using l gt by (intro le_mod_geq) linarith
    ultimately have "dq_right d = ?l + length xs - ?n" unfolding right by simp
    then have "dq_right d = length xs - (?n - ?l)" "dq_right d \<le> ?l" using l gt d(4) by linarith+
    then have "dq_List zero d = drop ?l (dq_data d) @ take (length xs - (?n - ?l)) (dq_data d)"
      using d(3) False gt l by (simp add: dq_List_def Let_def copy_into_def min_def)
    then show ?thesis using xs gt \<open>dq_right d \<le> ?l\<close> \<open>dq_right d = length xs - (?n - ?l)\<close> by (simp add: min_def)
  qed
qed (use ring_repD(3) [OF rep] in \<open>simp add: dq_List_def\<close>)

interpretation ring: deque zero "ring_rep zero" "ring_call zero" "NewUnboundedDeque zero n" for zero n
proof
  fix d xs c assume rep: "ring_rep zero d xs"
  note size' = ring_repD(3) [OF rep]
  show "\<exists>d'. ring_call zero c d = Inr (fst (list_call zero c xs), d') \<and> ring_rep zero d' (snd (list_call zero c xs))"
  proof (cases c)
    case (Push_right x) then show ?thesis using ring_PushRight [OF rep, of x] by auto
  next
    case (Push_left x) then show ?thesis using ring_PushLeft [OF rep, of x] by auto
  next
    case Pop_left then show ?thesis using ring_PopLeft [of zero d "hd xs" "tl xs"] rep size' by (cases xs) (auto simp: PopLeft_def)
  next
    case Pop_right then show ?thesis using ring_PopRight [of zero d "butlast xs" "last xs"] rep size' by (cases xs rule: rev_cases) (auto simp: PopRight_def)
  next
    case Peek_left then show ?thesis using ring_leftmost [OF rep] rep size' by (auto simp: PeekLeft_def with_answer_def get_at_def)
  next
    case Peek_right then show ?thesis using rightmost_mod [OF rep] rep size' by (auto simp: PeekRight_def with_answer_def get_at_def)
  next
    case (At i) then show ?thesis using ring_Index [OF rep, of i] rep size' by (auto simp: with_answer_def) (auto simp: dq_Index_def)
  next
    case Size then show ?thesis using rep size' by (simp add: dq_Len_def)
  next
    case Elements then show ?thesis using rep ring_List [OF rep] by simp
  qed
qed (rule ring_New)


section \<open>The bounded queue and the window\<close>

text \<open>The facts about the ring that its clients use.\<close>

lemma ring_Len: "ring_rep zero d xs \<Longrightarrow> dq_Len d = int (length xs)"
  by (simp add: dq_Len_def ring_repD(3))

lemma ring_pop:
  assumes "ring_rep zero d xs"
  shows "\<exists>d'. PopLeft zero d = Inr (if xs = [] then zero else hd xs, xs \<noteq> [], d') \<and> ring_rep zero d' (tl xs)"
  using ring.call_law [OF assms, of Pop_left] by (auto simp: res_bind_Inr_iff split: if_splits)

lemma ring_peek:
  assumes "ring_rep zero d xs"
  shows "PeekLeft zero d = Inr (if xs = [] then zero else hd xs, xs \<noteq> [])" "PeekRight zero d = Inr (if xs = [] then zero else last xs, xs \<noteq> [])"
  using ring.call_law [OF assms, of Peek_left] ring.call_law [OF assms, of Peek_right]
  by (auto simp: with_answer_def res_bind_Inr_iff split: if_splits)

text \<open>A queue that keeps the last elements.\<close>

definition bq_rep :: "'a \<Rightarrow> 'a boundedQueue \<Rightarrow> 'a list \<Rightarrow> bool" where
  "bq_rep zero b xs \<longleftrightarrow> 1 \<le> bq_maxSize b \<and> int (length xs) \<le> bq_maxSize b \<and> ring_rep zero (bq_deque b) xs
     \<and> int (length (dq_data (bq_deque b))) = bq_maxSize b + 1"

lemma data_length_PopLeft: "PopLeft zero d = Inr (x, ok, d') \<Longrightarrow> length (dq_data d') = length (dq_data d)"
  by (auto simp: PopLeft_def Let_def res_bind_Inr_iff set_at_def split: if_splits)

lemma data_length_PushRight: "PushRight zero x d = Inr d' \<Longrightarrow> dq_size d + 1 \<noteq> length (dq_data d) \<Longrightarrow> length (dq_data d') = length (dq_data d)"
  by (auto simp: PushRight_def res_bind_Inr_iff set_at_def resize_def split: if_splits)

lemma bq_Push_law:
  assumes rep: "bq_rep zero b xs"
  shows "\<exists>b'. bq_Push zero x b = Inr b' \<and> bq_maxSize b' = bq_maxSize b
    \<and> (if int (length xs) = bq_maxSize b then bq_rep zero b' (tl xs @ [x]) \<and> bq_evicted b' = bq_evicted b @ [hd xs]
       else bq_rep zero b' (xs @ [x]) \<and> bq_evicted b' = bq_evicted b)"
proof -
  have r: "1 \<le> bq_maxSize b" "int (length xs) \<le> bq_maxSize b" "ring_rep zero (bq_deque b) xs"
    "int (length (dq_data (bq_deque b))) = bq_maxSize b + 1" using rep by (auto simp: bq_rep_def)
  have push: "\<exists>d'. PushRight zero x d = Inr d' \<and> ring_rep zero d' (ys @ [x]) \<and> length (dq_data d') = length (dq_data d)"
    if d: "ring_rep zero d ys" "int (length ys) < bq_maxSize b" "int (length (dq_data d)) = bq_maxSize b + 1" for d ys
    using ring_PushRight [OF d(1), of x] data_length_PushRight [of zero x d] ring_repD(3) [OF d(1)] d(2,3) by force
  show ?thesis
  proof (cases "int (length xs) = bq_maxSize b")
    case True
    then have ne: "xs \<noteq> []" using r(1) by auto
    obtain d where d: "PopLeft zero (bq_deque b) = Inr (hd xs, True, d)" "ring_rep zero d (tl xs)" using ring_pop [OF r(3)] ne by auto
    note len = data_length_PopLeft [OF d(1)]
    have "int (length (tl xs)) < bq_maxSize b" using True ne by (cases xs) auto
    from push [OF d(2) this] len r(4) obtain d' where "PushRight zero x d = Inr d'" "ring_rep zero d' (tl xs @ [x])"
      "length (dq_data d') = length (dq_data d)" by auto
    with d True r len ne show ?thesis by (cases xs) (auto simp: bq_Push_def bq_rep_def ring_Len)
  next
    case False
    with push [OF r(3)] r obtain d' where "PushRight zero x (bq_deque b) = Inr d'" "ring_rep zero d' (xs @ [x])"
      "length (dq_data d') = length (dq_data (bq_deque b))" by auto
    with False r show ?thesis by (auto simp: bq_Push_def bq_rep_def ring_Len)
  qed
qed

lemma bq_New_law: "NewBoundedQueue zero n = Inr b \<Longrightarrow> bq_rep zero b []" "NewBoundedQueue zero n = Inr b \<Longrightarrow> bq_maxSize b = n \<and> bq_evicted b = []"
  using ring_New [of zero "n + 1"]
  by (auto simp: NewBoundedQueue_def bq_rep_def NewUnboundedDeque_def Let_def split: if_splits)

fun bq_push_all :: "'a \<Rightarrow> 'a list \<Rightarrow> 'a boundedQueue \<Rightarrow> ring_panic + 'a boundedQueue" where
  "bq_push_all zero [] b = Inr b"
| "bq_push_all zero (x # xs) b = res_bind (bq_Push zero x b) (bq_push_all zero xs)"

text \<open>The last \<^verbatim>\<open>n\<close> elements of a list.\<close>

definition last_n :: "int \<Rightarrow> 'a list \<Rightarrow> 'a list" where
  "last_n n xs = drop (length xs - nat n) xs"

lemma bq_push_all_law:
  assumes "bq_rep zero b xs"
  shows "\<exists>b'. bq_push_all zero ys b = Inr b' \<and> bq_maxSize b' = bq_maxSize b \<and> bq_rep zero b' (last_n (bq_maxSize b) (xs @ ys))
    \<and> bq_evicted b' = bq_evicted b @ take (length (xs @ ys) - nat (bq_maxSize b)) (xs @ ys)"
  using assms
proof (induction ys arbitrary: b xs)
  case Nil
  then show ?case by (auto simp: bq_rep_def last_n_def nat_le_iff)
next
  case (Cons y ys)
  from bq_Push_law [OF Cons.prems, of y] obtain b1 where b1: "bq_Push zero y b = Inr b1" "bq_maxSize b1 = bq_maxSize b"
    "if int (length xs) = bq_maxSize b then bq_rep zero b1 (tl xs @ [y]) \<and> bq_evicted b1 = bq_evicted b @ [hd xs]
     else bq_rep zero b1 (xs @ [y]) \<and> bq_evicted b1 = bq_evicted b" by blast
  show ?case
  proof (cases "int (length xs) = bq_maxSize b")
    case True
    with Cons.prems obtain z zs where xs: "xs = z # zs" by (cases xs) (auto simp: bq_rep_def)
    have "nat (bq_maxSize b) = Suc (length zs)" using True xs by simp
    with Cons.IH [of b1 "tl xs @ [y]"] b1 True xs show ?thesis by (auto simp: last_n_def Suc_diff_le)
  next
    case False
    with Cons.IH [of b1 "xs @ [y]"] b1 show ?thesis by auto
  qed
qed

subsection \<open>The window\<close>

text \<open>Dropping old elements while there are more than the least number to keep.\<close>

fun drop_stale :: "int \<Rightarrow> int \<Rightarrow> int \<Rightarrow> 'a wnode list \<Rightarrow> 'a wnode list" where
  "drop_stale minSize ttl now [] = []"
| "drop_stale minSize ttl now (x # xs) =
     (if int (length (x # xs)) > minSize \<and> time_Sub now (snd x) > ttl then drop_stale minSize ttl now xs else x # xs)"

lemma stale_loop_law:
  assumes "ring_rep zero d xs"
  shows "\<exists>d'. stale_loop zero minSize ttl newest d = Inr d' \<and> ring_rep zero d' (drop_stale minSize ttl (snd newest) xs)"
  using assms
proof (induction xs arbitrary: d)
  case Nil
  then show ?case by (auto simp: stale_loop.simps [of zero minSize ttl newest d] ring_peek)
next
  case (Cons x xs)
  obtain d' where d': "PopLeft zero d = Inr (x, True, d')" "ring_rep zero d' xs" using ring_PopLeft [OF Cons.prems] by blast
  with Cons.IH [of d'] Cons.prems show ?case
    by (auto simp: stale_loop.simps [of zero minSize ttl newest d] ring_peek [OF Cons.prems] ring_Len [OF Cons.prems])
qed

definition w_rep :: "'a wnode \<Rightarrow> 'a window \<Rightarrow> 'a wnode list \<Rightarrow> bool" where
  "w_rep zero w xs \<longleftrightarrow> ring_rep zero (w_elements w) xs"

definition w_spec :: "'a window \<Rightarrow> int \<Rightarrow> 'a \<Rightarrow> 'a wnode list \<Rightarrow> 'a wnode list" where
  "w_spec w now v xs =
     (let ys = drop_stale (w_minSize w) (w_ttl w) now (xs @ [(v, now)])
      in if int (length ys) > w_maxSize w then tl ys else ys)"

lemma w_Add_law:
  assumes rep: "w_rep zero w xs"
  shows "\<exists>d'. w_Add zero now v w = Inr (w\<lparr>w_elements := d'\<rparr>) \<and> w_rep zero (w\<lparr>w_elements := d'\<rparr>) (w_spec w now v xs)"
proof -
  obtain d where d: "PushRight zero (v, now) (w_elements w) = Inr d" "ring_rep zero d (xs @ [(v, now)])"
    using ring_PushRight [OF rep [unfolded w_rep_def], of "(v, now)"] by blast
  obtain d1 where d1: "stale_loop zero (w_minSize w) (w_ttl w) (v, now) d = Inr d1"
    "ring_rep zero d1 (drop_stale (w_minSize w) (w_ttl w) now (xs @ [(v, now)]))" using stale_loop_law [OF d(2), where minSize = "w_minSize w" and ttl = "w_ttl w" and newest = "(v, now)"] by auto
  have stale: "removeStaleNodes zero (w\<lparr>w_elements := d\<rparr>) = Inr (w\<lparr>w_elements := d1\<rparr>)"
    using d1(1) by (simp add: removeStaleNodes_def ring_peek [OF d(2)])
  from ring_pop [OF d1(2)] obtain x ok d2 where "PopLeft zero d1 = Inr (x, ok, d2)"
    "ring_rep zero d2 (tl (drop_stale (w_minSize w) (w_ttl w) now (xs @ [(v, now)])))" by blast
  with d stale d1 show ?thesis by (auto simp: w_Add_def w_rep_def w_spec_def ring_Len [OF d1(2)] Let_def)
qed


lemma drop_stale_suffix: "suffix (drop_stale m ttl now xs) xs"
  by (induction xs) (auto simp: suffix_ConsI)

lemma drop_stale_length: "min m (int (length xs)) \<le> int (length (drop_stale m ttl now xs))"
  by (induction xs) auto

lemma drop_stale_hd: "drop_stale m ttl now xs = y # ys \<Longrightarrow> int (length (y # ys)) \<le> m \<or> time_Sub now (snd y) \<le> ttl"
  by (induction xs) (auto split: if_splits)

lemma time_Sub_mono: "u \<le> u' \<Longrightarrow> time_Sub t u' \<le> time_Sub t u"
  by (auto simp: time_Sub_def)

fun w_adds :: "'a wnode \<Rightarrow> 'a wnode list \<Rightarrow> 'a window \<Rightarrow> ring_panic + 'a window" where
  "w_adds zero [] w = Inr w"
| "w_adds zero ((v, now) # xs) w = res_bind (w_Add zero now v w) (w_adds zero xs)"

lemma w_adds_append: "w_adds zero (xs @ ys) w = res_bind (w_adds zero xs w) (w_adds zero ys)"
  by (induction zero xs w rule: w_adds.induct) (auto simp: res_bind_def split: sum.split)

text \<open>What a window holds of the elements added.\<close>

definition recent_part :: "int \<Rightarrow> int \<Rightarrow> int \<Rightarrow> 'a wnode list \<Rightarrow> 'a wnode list \<Rightarrow> bool" where
  "recent_part maxSize minSize ttl xs added \<longleftrightarrow> suffix xs added \<and> int (length xs) \<le> maxSize
     \<and> (min minSize maxSize \<le> int (length xs) \<or> xs = added)
     \<and> (int (length xs) \<le> minSize \<or> (\<forall>x \<in> set xs. time_Sub (snd (last added)) (snd x) \<le> ttl))"

lemma sorted_suffix: "suffix ys xs \<Longrightarrow> sorted (map f xs) \<Longrightarrow> sorted (map f ys)"
  by (auto simp: suffix_def sorted_append)

lemma recent_part_step:
  assumes old: "recent_part (w_maxSize w) (w_minSize w) (w_ttl w) xs added" and max: "0 \<le> w_maxSize w"
    and srt: "sorted (map snd (added @ [(v, now)]))"
  shows "recent_part (w_maxSize w) (w_minSize w) (w_ttl w) (w_spec w now v xs) (added @ [(v, now)])"
proof -
  let ?all = "added @ [(v, now)]"
  define ys where "ys = drop_stale (w_minSize w) (w_ttl w) now (xs @ [(v, now)])"
  have suf: "suffix ys (xs @ [(v, now)])" unfolding ys_def by (rule drop_stale_suffix)
  have "suffix (xs @ [(v, now)]) ?all" using old by (auto simp: recent_part_def)
  with suf have all: "suffix ys ?all" by (rule suffix_order.trans)
  have long: "min (w_minSize w) (int (length xs) + 1) \<le> int (length ys)"
    unfolding ys_def using drop_stale_length [of "w_minSize w" "xs @ [(v, now)]" "w_ttl w" now] by (simp add: add.commute)
  have short: "int (length ys) \<le> w_maxSize w + 1" using old suffix_length_le [OF suf] by (simp add: recent_part_def)
  have fresh: "int (length ys) \<le> w_minSize w \<or> (\<forall>x \<in> set ys. time_Sub now (snd x) \<le> w_ttl w)"
  proof (cases ys)
    case (Cons z zs)
    from sorted_suffix [OF all srt] have "\<forall>x \<in> set zs. snd z \<le> snd x" by (auto simp: Cons)
    then have "\<forall>x \<in> set ys. time_Sub now (snd x) \<le> time_Sub now (snd z)" using Cons time_Sub_mono by auto
    with drop_stale_hd [OF ys_def [symmetric, unfolded Cons]] Cons show ?thesis using order_trans by blast
  qed simp
  have part: "min (w_minSize w) (w_maxSize w) \<le> int (length ys) \<or> ys = ?all"
  proof (cases "min (w_minSize w) (w_maxSize w) \<le> int (length xs)")
    case False
    then have "xs = added" using old by (auto simp: recent_part_def)
    moreover have "ys = xs @ [(v, now)]" if "\<not> min (w_minSize w) (w_maxSize w) \<le> int (length ys)"
    proof -
      obtain zs where zs: "xs @ [(v, now)] = zs @ ys" using suf by (auto simp: suffix_def)
      have "length xs + 1 = length zs + length ys" using arg_cong [OF zs, of length] by simp
      moreover have "length xs + 1 \<le> length ys" using long that by linarith
      ultimately show ?thesis using zs by simp
    qed
    ultimately show ?thesis by auto
  qed (use long in auto)
  show ?thesis
  proof (cases "int (length ys) > w_maxSize w")
    case True
    then have "int (length (tl ys)) = w_maxSize w" using short max by simp
    moreover have "set (tl ys) \<subseteq> set ys" by (cases ys) auto
    moreover have "suffix (tl ys) ?all" using all by (metis suffix_tl suffix_order.trans)
    ultimately show ?thesis using True fresh by (auto simp: recent_part_def w_spec_def Let_def ys_def [symmetric])
  qed (use all fresh part in \<open>auto simp: recent_part_def w_spec_def Let_def ys_def [symmetric]\<close>)
qed

lemma w_adds_law:
  assumes "sorted (map snd added)" "0 \<le> w_maxSize w" "w_rep zero w []"
  shows "\<exists>d xs. w_adds zero added w = Inr (w\<lparr>w_elements := d\<rparr>) \<and> w_rep zero (w\<lparr>w_elements := d\<rparr>) xs
    \<and> recent_part (w_maxSize w) (w_minSize w) (w_ttl w) xs added"
  using assms(1)
proof (induction added rule: rev_induct)
  case Nil
  show ?case using assms(2,3) by (auto simp: recent_part_def intro!: exI [of _ "w_elements w"] exI [of _ "[]"])
next
  case (snoc a added)
  obtain v now where a: "a = (v, now)" by (cases a)
  from snoc obtain d xs where d: "w_adds zero added w = Inr (w\<lparr>w_elements := d\<rparr>)" "w_rep zero (w\<lparr>w_elements := d\<rparr>) xs"
    "recent_part (w_maxSize w) (w_minSize w) (w_ttl w) xs added" by (auto simp: sorted_append)
  from w_Add_law [OF d(2), of now v] obtain d' where "w_Add zero now v (w\<lparr>w_elements := d\<rparr>) = Inr (w\<lparr>w_elements := d'\<rparr>)"
    "w_rep zero (w\<lparr>w_elements := d'\<rparr>) (w_spec w now v xs)" by (auto simp: w_spec_def)
  with d recent_part_step [OF d(3) assms(2), of v now] snoc.prems show ?case
    by (auto simp: w_adds_append a intro!: exI [of _ d'] exI [of _ "w_spec w now v xs"])
qed

section \<open>Properties\<close>

text \<open>(C21) The ring implements a deque: any sequence of calls ends without an index out of range and gets the answers that a list of
  the elements gives, across any number of wrap-arounds and of reallocations.\<close>

theorem deque_refines:
  "\<exists>d. run_dq (ring_call zero) cs (NewUnboundedDeque zero n) = Inr (fst (run_list zero cs []), d)
    \<and> dq_List zero d = snd (run_list zero cs []) \<and> dq_Len d = int (length (snd (run_list zero cs [])))"
proof -
  obtain d where "run_dq (ring_call zero) cs (NewUnboundedDeque zero n) = Inr (fst (run_list zero cs []), d)"
    "ring_rep zero d (snd (run_list zero cs []))" using ring.run_law [OF ring_New [of zero n], of cs] by blast
  then show ?thesis by (auto simp: ring_List ring_Len)
qed

text \<open>A bounded queue holds the last elements pushed, as many as its limit, in order; the evicted ones are handed over in the
  order in which they came in; the ring is never reallocated; and only a limit below one is refused.\<close>

theorem bounded_queue_keeps_last:
  "case NewBoundedQueue zero n of Inl e \<Rightarrow> n < 1
   | Inr b \<Rightarrow> 1 \<le> n \<and> (\<exists>b'. bq_push_all zero xs b = Inr b' \<and> bq_List zero b' = last_n n xs
        \<and> bq_evicted b' = take (length xs - nat n) xs \<and> length (dq_data (bq_deque b')) = nat (n + 1))"
proof (cases "NewBoundedQueue zero n")
  case (Inr b)
  from bq_push_all_law [OF bq_New_law(1) [OF Inr], of xs] bq_New_law(2) [OF Inr]
  obtain b' where b': "bq_push_all zero xs b = Inr b'" "bq_maxSize b' = n" "bq_rep zero b' (last_n n xs)"
    "bq_evicted b' = take (length xs - nat n) xs" by auto
  have "bq_List zero b' = last_n n xs" using b'(3) by (simp add: bq_rep_def bq_List_def ring_List)
  moreover have "int (length (dq_data (bq_deque b'))) = n + 1" "1 \<le> n" using b'(2,3) by (simp_all add: bq_rep_def)
  ultimately show ?thesis using Inr b' by auto
qed (auto simp: NewBoundedQueue_def split: if_splits)

text \<open>A window holds the most recent elements: a final part of the elements added, at most the largest number of them, at
  least the least number of them as long as so many have been added, and beyond that number only elements that are not older
  than its time to live, if the clock never goes back.\<close>

theorem window_keeps_recent:
  assumes "sorted (map snd added)" "0 \<le> maxSize"
  shows "\<exists>w. w_adds zero added (window_New zero maxSize minSize ttl) = Inr w
    \<and> w_Length w = int (length (dq_List zero (w_elements w)))
    \<and> recent_part maxSize minSize ttl (dq_List zero (w_elements w)) added"
proof -
  let ?w = "window_New zero maxSize minSize ttl"
  have "w_rep zero ?w []" by (simp add: w_rep_def window_New_def ring_New)
  from w_adds_law [OF assms(1) _ this] assms(2) show ?thesis
    by (auto simp: w_rep_def window_New_def w_Length_def ring_List ring_Len)
qed

theorem window_keeps_recent_witness:
  "\<exists>w. w_adds (0 :: nat, 0) [(5, 10), (6, 20), (7, 30), (8, 95)] (window_New (0, 0) 3 1 70) = Inr w
    \<and> w_Length w = int (length (dq_List (0, 0) (w_elements w)))
    \<and> recent_part 3 1 70 (dq_List (0, 0) (w_elements w)) [(5, 10), (6, 20), (7, 30), (8, 95)]"
  by (rule window_keeps_recent) simp_all

end
