(* ===== verification/Secp_Fx.thy ===== *)
theory Secp_Fx
  imports SafeMath Id_Bits
begin

text \<open>
  The feature extension for secp256k1 signatures, \<^verbatim>\<open>vms/secp256k1fx\<close>: output owners with a threshold and a lock time, inputs
  that name signers by index, credentials, the verification of transfers, operations and permissions, and the keychain that
  builds inputs. A pointer that may be nil is an option; a value behind \<^verbatim>\<open>interface{}\<close> is one of the
  alternatives of \<^verbatim>\<open>iface\<close>. The cryptographic library is given by two arguments: \<^verbatim>\<open>hash\<close>, and \<^verbatim>\<open>recover\<close>, the
  address of the public key that a signature of a hash leads to. The JSON methods are left out.
\<close>

type_synonym ShortID = "u8 list"
type_synonym signature = "u8 list"

datatype fx_error =
    ErrWrongTxType | ErrWrongOpType | ErrWrongUTXOType | ErrWrongInputType | ErrWrongCredentialType | ErrWrongOwnerType
  | ErrMismatchedAmounts | ErrWrongNumberOfUTXOs | ErrWrongMintCreated | ErrTimelocked | ErrTooManySigners | ErrTooFewSigners
  | ErrInputOutputIndexOutOfBounds | ErrInputCredentialSignersMismatch | ErrWrongSig
  | ErrNilOutput | ErrOutputUnspendable | ErrOutputUnoptimized | ErrAddrsNotSortedUnique
  | ErrNilInput | ErrInputIndicesNotSortedUnique | ErrNoValueInput | ErrNoValueOutput | ErrNilCredential | errNilMintOperation
  | errCantSpend | errUnexpectedType | Recover_error | Fx_nil_pointer | Fx_index

record OutputOwners =
  Locktime :: u64
  Threshold :: u32
  Addrs :: "ShortID list"

record Input =
  SigIndices :: "u32 list"

record TransferOutput = OutputOwners +
  out_Amt :: u64

record TransferInput = Input +
  in_Amt :: u64

record Credential =
  Sigs :: "signature list"

type_synonym MintOutput = OutputOwners

record MintOperation =
  MintInput :: Input
  op_MintOutput :: MintOutput
  op_TransferOutput :: TransferOutput

datatype iface =
    I_Tx "u8 list" | I_Input "Input option" | I_TransferInput "TransferInput option" | I_Credential "Credential option"
  | I_OutputOwners "OutputOwners option" | I_TransferOutput "TransferOutput option" | I_MintOutput "MintOutput option"
  | I_MintOperation "MintOperation option" | I_Other

subsection \<open>Sorted lists\<close>

definition ShortID_Less :: "ShortID \<Rightarrow> ShortID \<Rightarrow> bool" where
  "ShortID_Less i j = bytes_less i j"

fun IsSortedAndUnique :: "('a \<Rightarrow> 'a \<Rightarrow> bool) \<Rightarrow> 'a list \<Rightarrow> bool" where
  "IsSortedAndUnique lt (x # y # s) = (if \<not> lt x y then False else IsSortedAndUnique lt (y # s))"
| "IsSortedAndUnique lt _ = True"

fun IsSortedAndUniqueOrdered :: "'a :: linorder list \<Rightarrow> bool" where
  "IsSortedAndUniqueOrdered (x # y # s) = (if x \<ge> y then False else IsSortedAndUniqueOrdered (y # s))"
| "IsSortedAndUniqueOrdered _ = True"

text \<open>\<^verbatim>\<open>verify.All\<close>: the first error, if there is one.\<close>

fun verify_All :: "('e + unit) list \<Rightarrow> 'e + unit" where
  "verify_All [] = Inr ()"
| "verify_All (v # vs) = res_bind v (\<lambda>_. verify_All vs)"

subsection \<open>Owners, inputs and outputs\<close>

definition owners_of :: "'a OutputOwners_scheme \<Rightarrow> OutputOwners" where
  "owners_of out = \<lparr>Locktime = Locktime out, Threshold = Threshold out, Addrs = Addrs out\<rparr>"

definition input_of :: "'a Input_scheme \<Rightarrow> Input" where
  "input_of i = \<lparr>SigIndices = SigIndices i\<rparr>"

fun OutputOwners_Verify :: "OutputOwners option \<Rightarrow> fx_error + unit" where
  "OutputOwners_Verify None = Inl ErrNilOutput"
| "OutputOwners_Verify (Some out) =
     (if Threshold out > of_nat (length (Addrs out)) then Inl ErrOutputUnspendable
      else if Threshold out = 0 \<and> length (Addrs out) > 0 then Inl ErrOutputUnoptimized
      else if \<not> IsSortedAndUnique ShortID_Less (Addrs out) then Inl ErrAddrsNotSortedUnique
      else Inr ())"

text \<open>The comparison of two owners; \<^verbatim>\<open>same\<close> tells whether the pointers are the same.\<close>

fun OutputOwners_Equals :: "bool \<Rightarrow> OutputOwners option \<Rightarrow> OutputOwners option \<Rightarrow> bool" where
  "OutputOwners_Equals same (Some out) (Some other) =
     (if same then True
      else if Locktime out \<noteq> Locktime other \<or> Threshold out \<noteq> Threshold other \<or> length (Addrs out) \<noteq> length (Addrs other) then False
      else list_all2 (=) (Addrs out) (Addrs other))"
| "OutputOwners_Equals same None None = True"
| "OutputOwners_Equals same _ _ = False"

fun Input_Verify :: "Input option \<Rightarrow> fx_error + unit" where
  "Input_Verify None = Inl ErrNilInput"
| "Input_Verify (Some i) = (if \<not> IsSortedAndUniqueOrdered (SigIndices i) then Inl ErrInputIndicesNotSortedUnique else Inr ())"

definition CostPerSignature :: u64 where "CostPerSignature = 1000"

definition Input_Cost :: "Input \<Rightarrow> math_error + u64" where
  "Input_Cost i = Mul64 (of_nat (length (SigIndices i))) CostPerSignature"

fun TransferOutput_Verify :: "TransferOutput option \<Rightarrow> fx_error + unit" where
  "TransferOutput_Verify None = Inl ErrNilOutput"
| "TransferOutput_Verify (Some out) = (if out_Amt out = 0 then Inl ErrNoValueOutput else OutputOwners_Verify (Some (owners_of out)))"

fun TransferInput_Verify :: "TransferInput option \<Rightarrow> fx_error + unit" where
  "TransferInput_Verify None = Inl ErrNilInput"
| "TransferInput_Verify (Some i) = (if in_Amt i = 0 then Inl ErrNoValueInput else Input_Verify (Some (input_of i)))"

fun Credential_Verify :: "Credential option \<Rightarrow> fx_error + unit" where
  "Credential_Verify None = Inl ErrNilCredential"
| "Credential_Verify (Some cr) = Inr ()"

fun MintOutput_Verify :: "MintOutput option \<Rightarrow> fx_error + unit" where
  "MintOutput_Verify None = Inl ErrNilOutput"
| "MintOutput_Verify (Some out) = OutputOwners_Verify (Some out)"

fun MintOperation_Verify :: "MintOperation option \<Rightarrow> fx_error + unit" where
  "MintOperation_Verify None = Inl errNilMintOperation"
| "MintOperation_Verify (Some op') =
     verify_All [Input_Verify (Some (MintInput op')), MintOutput_Verify (Some (op_MintOutput op')),
       TransferOutput_Verify (Some (op_TransferOutput op'))]"

definition MintOperation_Outs :: "MintOperation \<Rightarrow> iface list" where
  "MintOperation_Outs op' = [I_MintOutput (Some (op_MintOutput op')), I_TransferOutput (Some (op_TransferOutput op'))]"

subsection \<open>The feature extension\<close>

record Fx =
  fx_clock :: u64
  bootstrapped :: bool

definition Fx_Bootstrapped :: "Fx \<Rightarrow> Fx" where
  "Fx_Bootstrapped fx = fx\<lparr>bootstrapped := True\<rparr>"

fun cred_loop :: "(u8 list \<Rightarrow> signature \<Rightarrow> fx_error + ShortID) \<Rightarrow> u8 list \<Rightarrow> ShortID list \<Rightarrow> u32 list \<Rightarrow> signature list \<Rightarrow> fx_error + unit" where
  "cred_loop recover txHash addrs [] sigs = Inr ()"
| "cred_loop recover txHash addrs (index # rest) sigs =
     (if index \<ge> of_nat (length addrs) then Inl ErrInputOutputIndexOutOfBounds
      else case sigs of
        [] \<Rightarrow> Inl Fx_index
      | sig # sigs' \<Rightarrow>
          res_bind (recover txHash sig) (\<lambda>address.
            if addrs ! unat index \<noteq> address then Inl ErrWrongSig
            else cred_loop recover txHash addrs rest sigs'))"

definition VerifyCredentials :: "(u8 list \<Rightarrow> u8 list) \<Rightarrow> (u8 list \<Rightarrow> signature \<Rightarrow> fx_error + ShortID) \<Rightarrow> Fx
    \<Rightarrow> u8 list \<Rightarrow> Input \<Rightarrow> Credential \<Rightarrow> OutputOwners \<Rightarrow> fx_error + unit" where
  "VerifyCredentials hash recover fx utx i cred out =
     (let numSigs = length (SigIndices i) in
      if Locktime out > fx_clock fx then Inl ErrTimelocked
      else if Threshold out < of_nat numSigs then Inl ErrTooManySigners
      else if Threshold out > of_nat numSigs then Inl ErrTooFewSigners
      else if numSigs \<noteq> length (Sigs cred) then Inl ErrInputCredentialSignersMismatch
      else if \<not> bootstrapped fx then Inr ()
      else cred_loop recover (hash utx) (Addrs out) (SigIndices i) (Sigs cred))"

text \<open>A dereferenced pointer.\<close>

definition the_ptr :: "'a option \<Rightarrow> fx_error + 'a" where
  "the_ptr p = (case p of Some x \<Rightarrow> Inr x | None \<Rightarrow> Inl Fx_nil_pointer)"

definition fx_VerifySpend :: "(u8 list \<Rightarrow> u8 list) \<Rightarrow> (u8 list \<Rightarrow> signature \<Rightarrow> fx_error + ShortID) \<Rightarrow> Fx
    \<Rightarrow> u8 list \<Rightarrow> TransferInput option \<Rightarrow> Credential option \<Rightarrow> TransferOutput option \<Rightarrow> fx_error + unit" where
  "fx_VerifySpend hash recover fx utx i cred utxo =
     res_bind (verify_All [TransferOutput_Verify utxo, TransferInput_Verify i, Credential_Verify cred]) (\<lambda>_.
     res_bind (the_ptr utxo) (\<lambda>utxo. res_bind (the_ptr i) (\<lambda>i. res_bind (the_ptr cred) (\<lambda>cred.
       if out_Amt utxo \<noteq> in_Amt i then Inl ErrMismatchedAmounts
       else VerifyCredentials hash recover fx utx (input_of i) cred (owners_of utxo)))))"

definition VerifyTransfer :: "(u8 list \<Rightarrow> u8 list) \<Rightarrow> (u8 list \<Rightarrow> signature \<Rightarrow> fx_error + ShortID) \<Rightarrow> Fx
    \<Rightarrow> iface \<Rightarrow> iface \<Rightarrow> iface \<Rightarrow> iface \<Rightarrow> fx_error + unit" where
  "VerifyTransfer hash recover fx txIntf inIntf credIntf utxoIntf =
     (case txIntf of I_Tx tx \<Rightarrow>
       (case inIntf of I_TransferInput i \<Rightarrow>
         (case credIntf of I_Credential cred \<Rightarrow>
           (case utxoIntf of I_TransferOutput out \<Rightarrow> fx_VerifySpend hash recover fx tx i cred out
            | _ \<Rightarrow> Inl ErrWrongUTXOType)
          | _ \<Rightarrow> Inl ErrWrongCredentialType)
        | _ \<Rightarrow> Inl ErrWrongInputType)
      | _ \<Rightarrow> Inl ErrWrongTxType)"

definition VerifyPermission :: "(u8 list \<Rightarrow> u8 list) \<Rightarrow> (u8 list \<Rightarrow> signature \<Rightarrow> fx_error + ShortID) \<Rightarrow> Fx
    \<Rightarrow> iface \<Rightarrow> iface \<Rightarrow> iface \<Rightarrow> iface \<Rightarrow> fx_error + unit" where
  "VerifyPermission hash recover fx txIntf inIntf credIntf ownerIntf =
     (case txIntf of I_Tx tx \<Rightarrow>
       (case inIntf of I_Input i \<Rightarrow>
         (case credIntf of I_Credential cred \<Rightarrow>
           (case ownerIntf of I_OutputOwners owner \<Rightarrow>
              res_bind (verify_All [Input_Verify i, Credential_Verify cred, OutputOwners_Verify owner]) (\<lambda>_.
              res_bind (the_ptr i) (\<lambda>i. res_bind (the_ptr cred) (\<lambda>cred. res_bind (the_ptr owner) (\<lambda>owner.
                VerifyCredentials hash recover fx tx i cred owner))))
            | _ \<Rightarrow> Inl ErrWrongOwnerType)
          | _ \<Rightarrow> Inl ErrWrongCredentialType)
        | _ \<Rightarrow> Inl ErrWrongInputType)
      | _ \<Rightarrow> Inl ErrWrongTxType)"

definition verifyOperation :: "(u8 list \<Rightarrow> u8 list) \<Rightarrow> (u8 list \<Rightarrow> signature \<Rightarrow> fx_error + ShortID) \<Rightarrow> Fx
    \<Rightarrow> u8 list \<Rightarrow> MintOperation option \<Rightarrow> Credential option \<Rightarrow> MintOutput option \<Rightarrow> fx_error + unit" where
  "verifyOperation hash recover fx tx op' cred utxo =
     res_bind (verify_All [MintOperation_Verify op', Credential_Verify cred, MintOutput_Verify utxo]) (\<lambda>_.
     res_bind (the_ptr op') (\<lambda>op'. res_bind (the_ptr cred) (\<lambda>cred. res_bind (the_ptr utxo) (\<lambda>utxo.
       if \<not> OutputOwners_Equals False (Some utxo) (Some (op_MintOutput op')) then Inl ErrWrongMintCreated
       else VerifyCredentials hash recover fx tx (MintInput op') cred utxo))))"

definition VerifyOperation :: "(u8 list \<Rightarrow> u8 list) \<Rightarrow> (u8 list \<Rightarrow> signature \<Rightarrow> fx_error + ShortID) \<Rightarrow> Fx
    \<Rightarrow> iface \<Rightarrow> iface \<Rightarrow> iface \<Rightarrow> iface list \<Rightarrow> fx_error + unit" where
  "VerifyOperation hash recover fx txIntf opIntf credIntf utxosIntf =
     (case txIntf of I_Tx tx \<Rightarrow>
       (case opIntf of I_MintOperation op' \<Rightarrow>
         (case credIntf of I_Credential cred \<Rightarrow>
           (if length utxosIntf \<noteq> 1 then Inl ErrWrongNumberOfUTXOs
            else case utxosIntf ! 0 of I_MintOutput out \<Rightarrow> verifyOperation hash recover fx tx op' cred out
            | _ \<Rightarrow> Inl ErrWrongUTXOType)
          | _ \<Rightarrow> Inl ErrWrongCredentialType)
        | _ \<Rightarrow> Inl ErrWrongOpType)
      | _ \<Rightarrow> Inl ErrWrongTxType)"

definition CreateOutput :: "u64 \<Rightarrow> iface \<Rightarrow> fx_error + TransferOutput" where
  "CreateOutput amount ownerIntf =
     (case ownerIntf of I_OutputOwners owner \<Rightarrow>
        res_bind (OutputOwners_Verify owner) (\<lambda>_. res_bind (the_ptr owner) (\<lambda>owner.
          Inr \<lparr>Locktime = Locktime owner, Threshold = Threshold owner, Addrs = Addrs owner, out_Amt = amount\<rparr>))
      | _ \<Rightarrow> Inl ErrWrongOwnerType)"

subsection \<open>The keychain\<close>

record 'k Keychain =
  dioneAddrToKeyIndex :: "ShortID \<rightharpoonup> nat"
  ethAddrToKeyIndex :: "u8 list \<rightharpoonup> nat"
  kc_Addrs :: "ShortID set"
  kc_EthAddrs :: "u8 list set"
  kc_Keys :: "'k list"

text \<open>The addresses of a key come from the cryptographic library.\<close>

definition kc_Add :: "('k \<Rightarrow> ShortID) \<Rightarrow> ('k \<Rightarrow> u8 list) \<Rightarrow> 'k \<Rightarrow> 'k Keychain \<Rightarrow> 'k Keychain" where
  "kc_Add address ethAddress key kc =
     (case dioneAddrToKeyIndex kc (address key) of
        Some _ \<Rightarrow> kc
      | None \<Rightarrow> kc\<lparr>dioneAddrToKeyIndex := (dioneAddrToKeyIndex kc)(address key \<mapsto> length (kc_Keys kc)),
                   ethAddrToKeyIndex := (ethAddrToKeyIndex kc)(ethAddress key \<mapsto> length (kc_Keys kc)),
                   kc_Keys := kc_Keys kc @ [key], kc_Addrs := insert (address key) (kc_Addrs kc),
                   kc_EthAddrs := insert (ethAddress key) (kc_EthAddrs kc)\<rparr>)"

definition NewKeychain :: "('k \<Rightarrow> ShortID) \<Rightarrow> ('k \<Rightarrow> u8 list) \<Rightarrow> 'k list \<Rightarrow> 'k Keychain" where
  "NewKeychain address ethAddress keys = fold (kc_Add address ethAddress) keys
     \<lparr>dioneAddrToKeyIndex = Map.empty, ethAddrToKeyIndex = Map.empty, kc_Addrs = {}, kc_EthAddrs = {}, kc_Keys = []\<rparr>"

definition kc_get :: "'k Keychain \<Rightarrow> ShortID \<Rightarrow> 'k option" where
  "kc_get kc addr = (case dioneAddrToKeyIndex kc addr of None \<Rightarrow> None | Some i \<Rightarrow> Some (kc_Keys kc ! i))"

definition kc_GetEth :: "'k Keychain \<Rightarrow> u8 list \<Rightarrow> 'k option" where
  "kc_GetEth kc addr = (case ethAddrToKeyIndex kc addr of None \<Rightarrow> None | Some i \<Rightarrow> Some (kc_Keys kc ! i))"

fun match_loop :: "'k Keychain \<Rightarrow> u32 \<Rightarrow> u32 \<Rightarrow> ShortID list \<Rightarrow> u32 list \<Rightarrow> 'k list \<Rightarrow> u32 list \<times> 'k list" where
  "match_loop kc threshold i [] sigs keys = (sigs, keys)"
| "match_loop kc threshold i (addr # addrs) sigs keys =
     (if of_nat (length keys) < threshold then
        (case kc_get kc addr of
           Some key \<Rightarrow> match_loop kc threshold (i + 1) addrs (sigs @ [i]) (keys @ [key])
         | None \<Rightarrow> match_loop kc threshold (i + 1) addrs sigs keys)
      else (sigs, keys))"

text \<open>The loop ends at the number of addresses as a \<^verbatim>\<open>uint32\<close>.\<close>

definition kc_Match :: "'k Keychain \<Rightarrow> OutputOwners \<Rightarrow> u64 \<Rightarrow> u32 list \<times> 'k list \<times> bool" where
  "kc_Match kc owners time =
     (if time < Locktime owners then ([], [], False)
      else
        let (sigs, keys) = match_loop kc (Threshold owners) 0 (take (unat (of_nat (length (Addrs owners)) :: u32)) (Addrs owners)) [] []
        in (sigs, keys, of_nat (length keys) = Threshold owners))"

definition kc_Spend :: "'k Keychain \<Rightarrow> iface \<Rightarrow> u64 \<Rightarrow> fx_error + iface \<times> 'k list" where
  "kc_Spend kc out time =
     (case out of
        I_MintOutput (Some out) \<Rightarrow>
          (case kc_Match kc out time of (sigIndices, keys, able) \<Rightarrow>
             if able then Inr (I_Input (Some \<lparr>SigIndices = sigIndices\<rparr>), keys) else Inl errCantSpend)
      | I_TransferOutput (Some out) \<Rightarrow>
          (case kc_Match kc (owners_of out) time of (sigIndices, keys, able) \<Rightarrow>
             if able then Inr (I_TransferInput (Some \<lparr>SigIndices = sigIndices, in_Amt = out_Amt out\<rparr>), keys) else Inl errCantSpend)
      | I_MintOutput None \<Rightarrow> Inl Fx_nil_pointer
      | I_TransferOutput None \<Rightarrow> Inl Fx_nil_pointer
      | _ \<Rightarrow> Inl errUnexpectedType)"


section \<open>Sorted lists\<close>

lemma IsSortedAndUnique_wrt: "transp lt \<Longrightarrow> IsSortedAndUnique lt xs \<longleftrightarrow> sorted_wrt lt xs"
proof (induction lt xs rule: IsSortedAndUnique.induct)
  case (1 lt x y s)
  then show ?case by (auto dest: transpD)
qed auto

lemma sorted_wrt_irrefl_distinct: "(\<And>x. \<not> lt x x) \<Longrightarrow> sorted_wrt lt xs \<Longrightarrow> distinct xs"
  by (induction xs) auto

lemma addrs_distinct: "IsSortedAndUnique ShortID_Less xs \<Longrightarrow> distinct xs"
proof -
  have "transp ShortID_Less" by (auto simp: transp_def ShortID_Less_def intro: bytes_less_trans)
  then show "IsSortedAndUnique ShortID_Less xs \<Longrightarrow> distinct xs"
    using sorted_wrt_irrefl_distinct [of ShortID_Less xs] by (simp add: IsSortedAndUnique_wrt ShortID_Less_def bytes_less_irrefl)
qed

lemma IsSortedAndUniqueOrdered_wrt: "IsSortedAndUniqueOrdered xs \<longleftrightarrow> sorted_wrt (<) xs"
proof (induction xs rule: IsSortedAndUniqueOrdered.induct)
  case (1 x y s)
  then show ?case by auto
qed auto

section \<open>What the verification accepts\<close>

lemma cred_loop_iff:
  "length is' = length sigs \<Longrightarrow> cred_loop recover h addrs is' sigs = Inr ()
    \<longleftrightarrow> list_all2 (\<lambda>i sig. i < of_nat (length addrs) \<and> recover h sig = Inr (addrs ! unat i)) is' sigs"
proof (induction is' sigs rule: list_induct2)
  case (Cons i is' sig sigs)
  then show ?case by (cases "recover h sig") (auto simp: not_le)
qed simp

lemma VerifyCredentials_iff:
  "VerifyCredentials hash recover fx tx i cred out = Inr () \<longleftrightarrow>
     Locktime out \<le> fx_clock fx \<and> Threshold out = of_nat (length (SigIndices i)) \<and> length (SigIndices i) = length (Sigs cred)
     \<and> (bootstrapped fx \<longrightarrow> list_all2 (\<lambda>i sig. i < of_nat (length (Addrs out)) \<and> recover (hash tx) sig = Inr (Addrs out ! unat i))
          (SigIndices i) (Sigs cred))"
  by (auto simp: VerifyCredentials_def Let_def cred_loop_iff not_less)

lemma fx_VerifySpend_iff:
  "fx_VerifySpend hash recover fx tx i cred utxo = Inr () \<longleftrightarrow>
     (\<exists>o' i' c. utxo = Some o' \<and> i = Some i' \<and> cred = Some c \<and> TransferOutput_Verify (Some o') = Inr ()
        \<and> TransferInput_Verify (Some i') = Inr () \<and> out_Amt o' = in_Amt i'
        \<and> VerifyCredentials hash recover fx tx (input_of i') c (owners_of o') = Inr ())"
proof -
  consider "utxo = None" | "i = None" | "cred = None" | o' i' c where "utxo = Some o'" "i = Some i'" "cred = Some c"
    by (cases utxo; cases i; cases cred) auto
  then show ?thesis by cases (auto simp: fx_VerifySpend_def the_ptr_def res_bind_Inr_iff)
qed

lemma VerifyTransfer_iff:
  "VerifyTransfer hash recover fx tx i cred utxo = Inr () \<longleftrightarrow>
     (\<exists>b i' c o'. tx = I_Tx b \<and> i = I_TransferInput i' \<and> cred = I_Credential c \<and> utxo = I_TransferOutput o'
        \<and> fx_VerifySpend hash recover fx b i' c o' = Inr ())"
  by (auto simp: VerifyTransfer_def split: iface.splits)

lemma unat_of_nat_le: "unat (of_nat n :: 'a :: len word) \<le> n"
  by (simp add: unsigned_of_nat take_bit_nat_less_eq_self)

lemma unat_of_nat_fits: "n < 2 ^ LENGTH('a) \<Longrightarrow> unat (of_nat n :: 'a :: len word) = n"
  by (simp add: unsigned_of_nat take_bit_nat_eq_self)

lemma distinct_below_length:
  fixes xs :: "'a :: len word list"
  assumes "distinct xs" "\<forall>x \<in> set xs. x < n"
  shows "length xs \<le> unat n"
proof -
  have "unat ` set xs \<subseteq> {..< unat n}" using assms(2) by (auto simp: word_less_nat_alt)
  then have "card (unat ` set xs) \<le> unat n" using card_mono [of "{..< unat n}"] by simp
  moreover have "card (unat ` set xs) = length xs"
    using assms(1) distinct_card [of xs] by (subst card_image) (auto simp: inj_on_def word_unat_eq_iff)
  ultimately show ?thesis by simp
qed

text \<open>The signers of an accepted credential.\<close>

lemma signers_of:
  assumes ok: "VerifyCredentials hash recover fx tx i cred out = Inr ()" "bootstrapped fx"
    and i: "Input_Verify (Some i) = Inr ()" and out: "OutputOwners_Verify (Some out) = Inr ()"
  shows "\<exists>signers. distinct signers \<and> length signers = unat (Threshold out) \<and> set signers \<subseteq> set (Addrs out)
    \<and> map (recover (hash tx)) (Sigs cred) = map Inr signers"
proof -
  let ?L = "of_nat (length (Addrs out)) :: u32"
  have ok': "Threshold out = of_nat (length (SigIndices i))"
    "list_all2 (\<lambda>i sig. i < ?L \<and> recover (hash tx) sig = Inr (Addrs out ! unat i)) (SigIndices i) (Sigs cred)"
    using ok by (simp_all add: VerifyCredentials_iff)
  have below: "\<forall>x \<in> set (SigIndices i). x < ?L" using ok'(2) by (auto simp: list_all2_conv_all_nth in_set_conv_nth)
  have idx: "distinct (SigIndices i)"
    using i by (auto simp: IsSortedAndUniqueOrdered_wrt strict_sorted_iff split: if_splits)
  have addrs: "distinct (Addrs out)" using out by (auto intro: addrs_distinct split: if_splits)
  have in_range: "unat x < length (Addrs out)" if "x \<in> set (SigIndices i)" for x
    using below that unat_of_nat_le [of "length (Addrs out)", where ?'a = 32] by (auto simp: word_less_nat_alt)
  let ?s = "map (\<lambda>x. Addrs out ! unat x) (SigIndices i)"
  have "length (SigIndices i) < 2 ^ 32"
    using distinct_below_length [OF idx below] unsigned_less [of ?L, where ?'a = nat] by simp
  then have "length ?s = unat (Threshold out)" using ok'(1) by (simp add: unat_of_nat_fits)
  moreover have "distinct ?s" using idx addrs in_range by (auto simp: distinct_map inj_on_def nth_eq_iff_index_eq word_unat_eq_iff)
  moreover have "set ?s \<subseteq> set (Addrs out)" using in_range by auto
  moreover have "map (recover (hash tx)) (Sigs cred) = map Inr ?s"
    using ok'(2) by (intro nth_equalityI) (auto simp: list_all2_conv_all_nth)
  ultimately show ?thesis by blast
qed

section \<open>The keychain\<close>

definition kc_ok :: "('k \<Rightarrow> ShortID) \<Rightarrow> 'k Keychain \<Rightarrow> ShortID set \<Rightarrow> bool" where
  "kc_ok address kc A \<longleftrightarrow> dom (dioneAddrToKeyIndex kc) = A
     \<and> (\<forall>a i. dioneAddrToKeyIndex kc a = Some i \<longrightarrow> i < length (kc_Keys kc) \<and> address (kc_Keys kc ! i) = a)"

lemma kc_Add_ok: "kc_ok address kc A \<Longrightarrow> kc_ok address (kc_Add address eth key kc) (insert (address key) A)"
  by (auto simp: kc_ok_def kc_Add_def nth_append less_Suc_eq split: option.splits if_splits)

lemma NewKeychain_ok: "kc_ok address (NewKeychain address eth keys) (address ` set keys)"
proof -
  have "kc_ok address (fold (kc_Add address eth) keys kc) (address ` set keys \<union> A)" if "kc_ok address kc A" for kc A
    using that
  proof (induction keys arbitrary: kc A)
    case (Cons key keys)
    from Cons.IH [OF kc_Add_ok [OF Cons.prems, of eth key]] show ?case by simp
  qed simp
  from this [of _ "{}"] show ?thesis by (simp add: NewKeychain_def kc_ok_def)
qed

lemma kc_get_ok:
  assumes "kc_ok address kc A"
  shows "kc_get kc a = Some k \<Longrightarrow> address k = a" "kc_get kc a \<noteq> None \<longleftrightarrow> a \<in> A"
  using assms by (auto simp: kc_ok_def kc_get_def split: option.splits)

text \<open>The positions of the addresses that the keychain has keys for.\<close>

definition held_at :: "'k Keychain \<Rightarrow> ShortID list \<Rightarrow> nat list" where
  "held_at kc addrs = filter (\<lambda>n. kc_get kc (addrs ! n) \<noteq> None) [0 ..< length addrs]"

lemma held_at_Cons: "held_at kc (a # as) = (if kc_get kc a \<noteq> None then [0] else []) @ map Suc (held_at kc as)"
  unfolding held_at_def length_Cons upt_conv_Cons [OF zero_less_Suc] map_Suc_upt [symmetric] by (simp add: filter_map o_def)

lemma match_loop_eq:
  assumes "length keys \<le> unat thr"
  shows "match_loop kc thr i addrs sigs keys =
    (let ns = take (unat thr - length keys) (held_at kc addrs)
     in (sigs @ map (\<lambda>n. i + of_nat n) ns, keys @ map (\<lambda>n. the (kc_get kc (addrs ! n))) ns))"
  using assms
proof (induction addrs arbitrary: i sigs keys)
  case (Cons a addrs)
  have lt: "of_nat (length keys) < thr \<longleftrightarrow> length keys < unat thr"
    using Cons.prems unsigned_less [of thr, where ?'a = nat] by (simp add: word_less_nat_alt unat_of_nat_fits)
  show ?case
  proof (cases "length keys < unat thr")
    case True
    then have m: "unat thr - length keys = Suc (unat thr - Suc (length keys))" by simp
    show ?thesis
    proof (cases "kc_get kc a")
      case None
      with Cons.IH [of keys "i + 1" sigs] Cons.prems True lt show ?thesis
        by (simp add: held_at_Cons Let_def take_map o_def add.commute add.left_commute)
    next
      case (Some k)
      with Cons.IH [of "keys @ [k]" "i + 1" "sigs @ [i]"] True lt m show ?thesis
        by (simp add: held_at_Cons Let_def take_map o_def add.commute add.left_commute)
    qed
  next
    case False
    with lt Cons.prems show ?thesis by simp
  qed
qed (simp add: held_at_def)


lemma held_at_sorted: "sorted_wrt (<) (held_at kc addrs)" "set (held_at kc addrs) = {n. n < length addrs \<and> kc_get kc (addrs ! n) \<noteq> None}"
  by (auto simp: held_at_def sorted_wrt_filter)

lemma kc_Match_eq:
  assumes "length (Addrs owners) < 2 ^ 32" "Locktime owners \<le> time"
  shows "kc_Match kc owners time =
    (let ns = take (unat (Threshold owners)) (held_at kc (Addrs owners))
     in (map of_nat ns, map (\<lambda>n. the (kc_get kc (Addrs owners ! n))) ns, unat (Threshold owners) \<le> length (held_at kc (Addrs owners))))"
proof -
  have "of_nat (min (length (held_at kc (Addrs owners))) (unat (Threshold owners))) = Threshold owners
      \<longleftrightarrow> unat (Threshold owners) \<le> length (held_at kc (Addrs owners))"
    using unsigned_less [of "Threshold owners", where ?'a = nat]
    by (auto simp: min_def word_unat_eq_iff unat_of_nat_fits)
  moreover have "\<not> time < Locktime owners" using assms(2) by simp
  ultimately show ?thesis using assms(1) by (simp add: kc_Match_def match_loop_eq unat_of_nat_fits Let_def)
qed

lemma length_held_at:
  assumes kc: "kc_ok address kc A" and "distinct addrs"
  shows "length (held_at kc addrs) = card (set addrs \<inter> A)"
proof -
  have "(!) addrs ` set (held_at kc addrs) = set addrs \<inter> A"
    using kc_get_ok(2) [OF kc] by (auto simp: held_at_sorted(2) in_set_conv_nth)
  moreover have "inj_on ((!) addrs) (set (held_at kc addrs))"
    using assms(2) by (auto simp: inj_on_def held_at_sorted(2) nth_eq_iff_index_eq)
  moreover have "distinct (held_at kc addrs)" by (simp add: held_at_def)
  ultimately show ?thesis by (metis card_image distinct_card)
qed

section \<open>Properties\<close>

lemma spend_signers:
  assumes "fx_VerifySpend hash recover fx b (Some i) cred (Some out) = Inr ()"
  shows "\<exists>c. cred = Some c \<and> in_Amt i = out_Amt out \<and> out_Amt out \<noteq> 0 \<and> Locktime out \<le> fx_clock fx
    \<and> of_nat (length (Sigs c)) = Threshold out
    \<and> (bootstrapped fx \<longrightarrow> (\<exists>signers. distinct signers \<and> length signers = unat (Threshold out) \<and> set signers \<subseteq> set (Addrs out)
         \<and> map (recover (hash b)) (Sigs c) = map Inr signers))"
proof -
  obtain c where ok: "cred = Some c" "TransferOutput_Verify (Some out) = Inr ()" "TransferInput_Verify (Some i) = Inr ()" "out_Amt out = in_Amt i"
    "VerifyCredentials hash recover fx b (input_of i) c (owners_of out) = Inr ()"
    using assms by (auto simp: fx_VerifySpend_iff)
  from ok(2,3) have v: "out_Amt out \<noteq> 0" "OutputOwners_Verify (Some (owners_of out)) = Inr ()" "Input_Verify (Some (input_of i)) = Inr ()"
    by (auto split: if_splits)
  from signers_of [OF ok(5) _ v(3,2)] ok v(1) show ?thesis by (auto simp: owners_of_def VerifyCredentials_iff)
qed

text \<open>(C19) Spending takes the owners. A transfer is accepted only if the input has the amount of the output, which is not zero, the lock
  time of the output has passed, and the credential carries as many signatures as the threshold of the output asks for. Once the feature
  extension is bootstrapped, these are signatures of the transaction by as many different owners of the output, and by nobody else;
  before that the code does not look at the signatures.\<close>

theorem transfer_needs_owners:
  assumes "VerifyTransfer hash recover fx tx i cred utxo = Inr ()"
  shows "\<exists>b i' c o'. tx = I_Tx b \<and> i = I_TransferInput (Some i') \<and> cred = I_Credential (Some c) \<and> utxo = I_TransferOutput (Some o')
    \<and> in_Amt i' = out_Amt o' \<and> out_Amt o' \<noteq> 0 \<and> Locktime o' \<le> fx_clock fx \<and> of_nat (length (Sigs c)) = Threshold o'
    \<and> (bootstrapped fx \<longrightarrow> (\<exists>signers. distinct signers \<and> length signers = unat (Threshold o') \<and> set signers \<subseteq> set (Addrs o')
         \<and> map (recover (hash b)) (Sigs c) = map Inr signers))"
proof -
  obtain b i' c' o' where ok: "tx = I_Tx b" "i = I_TransferInput (Some i')" "cred = I_Credential c'" "utxo = I_TransferOutput (Some o')"
    "fx_VerifySpend hash recover fx b (Some i') c' (Some o') = Inr ()"
    using assms by (auto simp: VerifyTransfer_iff fx_VerifySpend_iff)
  from spend_signers [OF ok(5)] show ?thesis unfolding ok(1-4) by blast
qed

theorem transfer_needs_owners_witness:
  "\<exists>signers. distinct signers \<and> length signers = 2 \<and> set signers \<subseteq> {[1], [4], [9 :: u8]} \<and> map (\<lambda>sig. Inr (tl sig)) [[7, 1], [7, 9]] = (map Inr signers :: (fx_error + ShortID) list)"
proof -
  let ?fx = "\<lparr>fx_clock = 100, bootstrapped = True\<rparr>" and ?recover = "\<lambda>h sig. Inr (tl sig) :: fx_error + ShortID"
  let ?out = "\<lparr>Locktime = 90, Threshold = 2, Addrs = [[1], [4], [9]], out_Amt = 5\<rparr>"
  have "VerifyTransfer id ?recover ?fx (I_Tx [3]) (I_TransferInput (Some \<lparr>SigIndices = [0, 2], in_Amt = 5\<rparr>))
      (I_Credential (Some \<lparr>Sigs = [[7, 1], [7, 9]]\<rparr>)) (I_TransferOutput (Some ?out)) = Inr ()" by code_simp
  from transfer_needs_owners [OF this] show ?thesis by auto
qed

lemma kc_Spend_cases:
  assumes crypto: "\<And>k h. recover h (sign k h) = Inr (address k)"
    and out: "TransferOutput_Verify (Some out) = Inr ()" and len: "length (Addrs out) < 2 ^ 32"
  shows "case kc_Spend (NewKeychain address eth keys) (I_TransferOutput (Some out)) (fx_clock fx) of
      Inr (i, ks) \<Rightarrow> VerifyTransfer hash recover fx (I_Tx tx) i (I_Credential (Some \<lparr>Sigs = map (\<lambda>k. sign k (hash tx)) ks\<rparr>))
        (I_TransferOutput (Some out)) = Inr ()
    | Inl e \<Rightarrow> e = errCantSpend \<and> (fx_clock fx < Locktime out \<or> card (set (Addrs out) \<inter> address ` set keys) < unat (Threshold out))"
proof -
  let ?kc = "NewKeychain address eth keys" and ?o = "owners_of out"
  note kc = NewKeychain_ok [of address eth keys]
  have v: "out_Amt out \<noteq> 0" "OutputOwners_Verify (Some ?o) = Inr ()" using out by (auto split: if_splits)
  have o: "Addrs ?o = Addrs out" "Threshold ?o = Threshold out" "Locktime ?o = Locktime out" by (simp_all add: owners_of_def)
  have dist: "distinct (Addrs out)" using v(2) o by (auto intro: addrs_distinct split: if_splits)
  show ?thesis
  proof (cases "Locktime out \<le> fx_clock fx \<and> unat (Threshold out) \<le> length (held_at ?kc (Addrs out))")
    case True
    define ns where "ns = take (unat (Threshold out)) (held_at ?kc (Addrs out))"
    have ns: "length ns = unat (Threshold out)" using True by (simp add: ns_def)
    have held: "n < length (Addrs out) \<and> kc_get ?kc (Addrs out ! n) \<noteq> None" if "n \<in> set ns" for n
      using in_set_takeD [OF that [unfolded ns_def]] by (simp add: held_at_sorted(2))
    have fits: "unat (of_nat n :: u32) = n" if "n \<in> set ns" for n using held [OF that] len by (intro unat_of_nat_fits) simp
    have "sorted_wrt (<) ns" unfolding ns_def by (rule sorted_wrt_take) (rule held_at_sorted(1))
    then have "sorted_wrt (\<lambda>x y. (of_nat x :: u32) < of_nat y) ns"
      by (rule sorted_wrt_mono_rel [rotated]) (simp add: word_less_nat_alt fits)
    then have idx: "IsSortedAndUniqueOrdered (map of_nat ns :: u32 list)"
      by (simp add: IsSortedAndUniqueOrdered_wrt sorted_wrt_map)
    let ?keys = "map (\<lambda>n. the (kc_get ?kc (Addrs out ! n))) ns" and ?i = "\<lparr>SigIndices = map of_nat ns, in_Amt = out_Amt out\<rparr>"
    have "address (the (kc_get ?kc (Addrs out ! n))) = Addrs out ! n" if "n \<in> set ns" for n
      using held [OF that] kc_get_ok(1) [OF kc] by auto
    then have sigs: "list_all2 (\<lambda>i sig. i < of_nat (length (Addrs out)) \<and> recover (hash tx) sig = Inr (Addrs out ! unat i))
        (map of_nat ns :: u32 list) (map (\<lambda>k. sign k (hash tx)) ?keys)"
      using held fits len crypto by (auto simp: list_all2_conv_all_nth word_less_nat_alt unat_of_nat_fits)
    have "kc_Spend ?kc (I_TransferOutput (Some out)) (fx_clock fx) = Inr (I_TransferInput (Some ?i), ?keys)"
      using True kc_Match_eq [of ?o "fx_clock fx" ?kc] len o by (simp add: kc_Spend_def Let_def ns_def)
    moreover have "VerifyTransfer hash recover fx (I_Tx tx) (I_TransferInput (Some ?i)) (I_Credential (Some \<lparr>Sigs = map (\<lambda>k. sign k (hash tx)) ?keys\<rparr>))
        (I_TransferOutput (Some out)) = Inr ()"
      using True v idx sigs ns o by (simp add: VerifyTransfer_iff fx_VerifySpend_iff VerifyCredentials_iff input_of_def)
    ultimately show ?thesis by simp
  next
    case False
    have "kc_Spend ?kc (I_TransferOutput (Some out)) (fx_clock fx) = Inl errCantSpend"
    proof (cases "Locktime out \<le> fx_clock fx")
      case True
      with False kc_Match_eq [of ?o "fx_clock fx" ?kc] len o show ?thesis by (simp add: kc_Spend_def Let_def)
    qed (simp add: kc_Spend_def kc_Match_def o not_le)
    with False length_held_at [OF kc dist] show ?thesis by auto
  qed
qed

text \<open>What the keychain builds is accepted. If the keychain holds keys of enough owners and the lock time has passed, it spends an
  output by an input that the verification accepts, with the signatures of the keys it names; otherwise it says that it cannot.
  The hypothesis on \<^verbatim>\<open>recover\<close> is what the signature scheme provides: a signature leads back to the address of its key.\<close>

theorem keychain_spends:
  assumes crypto: "\<And>k h. recover h (sign k h) = Inr (address k)"
    and out: "TransferOutput_Verify (Some out) = Inr ()" and len: "length (Addrs out) < 2 ^ 32"
  shows "case kc_Spend (NewKeychain address eth keys) (I_TransferOutput (Some out)) (fx_clock fx) of
      Inr (i, ks) \<Rightarrow> VerifyTransfer hash recover fx (I_Tx tx) i (I_Credential (Some \<lparr>Sigs = map (\<lambda>k. sign k (hash tx)) ks\<rparr>))
        (I_TransferOutput (Some out)) = Inr ()
    | Inl e \<Rightarrow> e = errCantSpend \<and> (fx_clock fx < Locktime out \<or> card (set (Addrs out) \<inter> address ` set keys) < unat (Threshold out))"
  by (rule kc_Spend_cases) (fact assms)+

theorem keychain_spends_witness:
  "case kc_Spend (NewKeychain (\<lambda>k. [k]) (\<lambda>k. [k]) [4, 9, 5]) (I_TransferOutput (Some \<lparr>Locktime = 90, Threshold = 2, Addrs = [[1], [4], [9]], out_Amt = 5\<rparr>)) 100 of
      Inr (i, ks) \<Rightarrow> VerifyTransfer id (\<lambda>h sig. Inr (take 1 sig)) \<lparr>fx_clock = 100, bootstrapped = True\<rparr> (I_Tx [3]) i
        (I_Credential (Some \<lparr>Sigs = map (\<lambda>k. k # [3]) ks\<rparr>)) (I_TransferOutput (Some \<lparr>Locktime = 90, Threshold = 2, Addrs = [[1], [4], [9]], out_Amt = 5\<rparr>)) = Inr ()
    | Inl e \<Rightarrow> False"
proof -
  let ?out = "\<lparr>Locktime = 90, Threshold = 2, Addrs = [[1], [4], [9]], out_Amt = 5\<rparr>"
  have "TransferOutput_Verify (Some ?out) = Inr ()" "length (Addrs ?out) < 2 ^ 32" by code_simp (simp add: take_bit_eq_mod)
  from keychain_spends [where recover = "\<lambda>h sig. Inr (take 1 sig)" and sign = "\<lambda>k h. k # h" and address = "\<lambda>k. [k]" and eth = "\<lambda>k. [k]"
      and keys = "[4, 9, 5]" and fx = "\<lparr>fx_clock = 100, bootstrapped = True\<rparr>" and hash = id and tx = "[3]", OF _ this]
  show ?thesis by (auto split: sum.splits)
qed

end
