(* ===== verification/Transferables.thy ===== *)
theory Transferables
  imports Secp_Fx
begin

text \<open>
  The transferable inputs and outputs of \<^verbatim>\<open>vms/components/dione\<close> and the stakeable locks of
  \<^verbatim>\<open>vms/omegavm/stakeable\<close>: their syntactic verification, their order, the flow checker and \<^verbatim>\<open>VerifyTx\<close>. The pointers to
  inputs, outputs and UTXOs in a transaction are not nil here. Marshalling by the codec is the argument \<^verbatim>\<open>marshal\<close>.
\<close>

datatype tx_error =
    Tx_fx fx_error | Tx_math math_error | errInvalidLocktime | errNestedStakeableLocks | errEmptyAssetID
  | ErrOutputsNotSorted | ErrInputsNotSortedUnique | Flow_ErrInsufficientFunds

record UTXOID =
  utxo_TxID :: ID
  OutputIndex :: u32

datatype TransferableOut = TransferOut TransferOutput | LockOut u64 TransferableOut

datatype TransferableIn = TransferIn TransferInput | LockIn u64 TransferableIn

record TransferableOutput =
  out_AssetID :: ID
  Out :: TransferableOut

record TransferableInput =
  in_UTXOID :: UTXOID
  in_AssetID :: ID
  In :: TransferableIn

definition UTXOID_Less :: "UTXOID \<Rightarrow> UTXOID \<Rightarrow> bool" where
  "UTXOID_Less utxo other =
     (if bytes_less (utxo_TxID utxo) (utxo_TxID other) then True
      else if bytes_less (utxo_TxID other) (utxo_TxID utxo) then False
      else OutputIndex utxo < OutputIndex other)"

text \<open>The methods of the wrapped value are promoted to a lock.\<close>

fun out_Amount :: "TransferableOut \<Rightarrow> u64" where
  "out_Amount (TransferOut out) = out_Amt out"
| "out_Amount (LockOut _ out) = out_Amount out"

fun in_Amount :: "TransferableIn \<Rightarrow> u64" where
  "in_Amount (TransferIn i) = in_Amt i"
| "in_Amount (LockIn _ i) = in_Amount i"

definition of_fx :: "fx_error + unit \<Rightarrow> tx_error + unit" where
  "of_fx r = map_sum Tx_fx id r"

fun out_Verify :: "TransferableOut \<Rightarrow> tx_error + unit" where
  "out_Verify (TransferOut out) = of_fx (TransferOutput_Verify (Some out))"
| "out_Verify (LockOut locktime out) =
     (if locktime = 0 then Inl errInvalidLocktime
      else case out of LockOut _ _ \<Rightarrow> Inl errNestedStakeableLocks | _ \<Rightarrow> out_Verify out)"

fun in_Verify :: "TransferableIn \<Rightarrow> tx_error + unit" where
  "in_Verify (TransferIn i) = of_fx (TransferInput_Verify (Some i))"
| "in_Verify (LockIn locktime i) =
     (if locktime = 0 then Inl errInvalidLocktime
      else case i of LockIn _ _ \<Rightarrow> Inl errNestedStakeableLocks | _ \<Rightarrow> in_Verify i)"

definition Asset_Verify :: "ID \<Rightarrow> tx_error + unit" where
  "Asset_Verify asset = (if asset = replicate 32 0 then Inl errEmptyAssetID else Inr ())"

definition TransferableOutput_Verify :: "TransferableOutput \<Rightarrow> tx_error + unit" where
  "TransferableOutput_Verify out = verify_All [Asset_Verify (out_AssetID out), out_Verify (Out out)]"

definition TransferableInput_Verify :: "TransferableInput \<Rightarrow> tx_error + unit" where
  "TransferableInput_Verify i = verify_All [Inr (), Asset_Verify (in_AssetID i), in_Verify (In i)]"

definition TransferableInput_Less :: "TransferableInput \<Rightarrow> TransferableInput \<Rightarrow> bool" where
  "TransferableInput_Less i other = UTXOID_Less (in_UTXOID i) (in_UTXOID other)"

definition outs_Less :: "(TransferableOut \<Rightarrow> u8 list option) \<Rightarrow> TransferableOutput \<Rightarrow> TransferableOutput \<Rightarrow> bool" where
  "outs_Less marshal iOut jOut =
     (if bytes_less (out_AssetID iOut) (out_AssetID jOut) then True
      else if bytes_less (out_AssetID jOut) (out_AssetID iOut) then False
      else case marshal (Out iOut) of
        None \<Rightarrow> False
      | Some iBytes \<Rightarrow> (case marshal (Out jOut) of None \<Rightarrow> False | Some jBytes \<Rightarrow> bytes_less iBytes jBytes))"

text \<open>\<^verbatim>\<open>sort.IsSorted\<close>: no element is less than the one before it.\<close>

fun IsSortedTransferableOutputs :: "(TransferableOut \<Rightarrow> u8 list option) \<Rightarrow> TransferableOutput list \<Rightarrow> bool" where
  "IsSortedTransferableOutputs marshal (x # y # outs) = (if outs_Less marshal y x then False else IsSortedTransferableOutputs marshal (y # outs))"
| "IsSortedTransferableOutputs marshal _ = True"

subsection \<open>The flow checker\<close>

record FlowChecker =
  consumed :: "(ID, u64) gomap"
  produced :: "(ID, u64) gomap"
  fc_errs :: "tx_error option"

definition NewFlowChecker :: FlowChecker where
  "NewFlowChecker = \<lparr>consumed = [], produced = [], fc_errs = None\<rparr>"

text \<open>Reading a missing key gives zero.\<close>

definition amount_at :: "('k, u64) gomap \<Rightarrow> 'k \<Rightarrow> u64" where
  "amount_at m k = (case map_of m k of None \<Rightarrow> 0 | Some v \<Rightarrow> v)"

text \<open>On overflow \<^verbatim>\<open>Add64\<close> returns zero with the error, which is stored all the same.\<close>

definition fc_add :: "(ID, u64) gomap \<Rightarrow> ID \<Rightarrow> u64 \<Rightarrow> (ID, u64) gomap \<times> tx_error option" where
  "fc_add value' assetID amount =
     (case Add64 (amount_at value' assetID) amount of
        Inl e \<Rightarrow> (AList.update assetID 0 value', Some (Tx_math e))
      | Inr v \<Rightarrow> (AList.update assetID v value', None))"

definition fc_note :: "tx_error option \<Rightarrow> FlowChecker \<Rightarrow> FlowChecker" where
  "fc_note err fc = (if fc_errs fc = None then fc\<lparr>fc_errs := err\<rparr> else fc)"

definition Consume :: "ID \<Rightarrow> u64 \<Rightarrow> FlowChecker \<Rightarrow> FlowChecker" where
  "Consume assetID amount fc = (case fc_add (consumed fc) assetID amount of (m, err) \<Rightarrow> fc_note err (fc\<lparr>consumed := m\<rparr>))"

definition Produce :: "ID \<Rightarrow> u64 \<Rightarrow> FlowChecker \<Rightarrow> FlowChecker" where
  "Produce assetID amount fc = (case fc_add (produced fc) assetID amount of (m, err) \<Rightarrow> fc_note err (fc\<lparr>produced := m\<rparr>))"

fun fc_loop :: "(ID, u64) gomap \<Rightarrow> (ID, u64) gomap \<Rightarrow> tx_error option" where
  "fc_loop cons [] = None"
| "fc_loop cons ((assetID, producedAmount) # rest) =
     (if producedAmount > amount_at cons assetID then Some Flow_ErrInsufficientFunds else fc_loop cons rest)"

definition fc_Verify :: "FlowChecker \<Rightarrow> tx_error + unit" where
  "fc_Verify fc =
     (let fc = (if fc_errs fc = None then fc_note (fc_loop (consumed fc) (produced fc)) fc else fc)
      in case fc_errs fc of None \<Rightarrow> Inr () | Some e \<Rightarrow> Inl e)"

fun outs_loop :: "TransferableOutput list \<Rightarrow> FlowChecker \<Rightarrow> tx_error + FlowChecker" where
  "outs_loop [] fc = Inr fc"
| "outs_loop (out # outs) fc = res_bind (TransferableOutput_Verify out) (\<lambda>_.
     outs_loop outs (Produce (out_AssetID out) (out_Amount (Out out)) fc))"

fun allOuts_loop :: "(TransferableOut \<Rightarrow> u8 list option) \<Rightarrow> TransferableOutput list list \<Rightarrow> FlowChecker \<Rightarrow> tx_error + FlowChecker" where
  "allOuts_loop marshal [] fc = Inr fc"
| "allOuts_loop marshal (outs # allOuts) fc = res_bind (outs_loop outs fc) (\<lambda>fc.
     if \<not> IsSortedTransferableOutputs marshal outs then Inl ErrOutputsNotSorted else allOuts_loop marshal allOuts fc)"

fun ins_loop :: "TransferableInput list \<Rightarrow> FlowChecker \<Rightarrow> tx_error + FlowChecker" where
  "ins_loop [] fc = Inr fc"
| "ins_loop (i # ins) fc = res_bind (TransferableInput_Verify i) (\<lambda>_.
     ins_loop ins (Consume (in_AssetID i) (in_Amount (In i)) fc))"

fun allIns_loop :: "TransferableInput list list \<Rightarrow> FlowChecker \<Rightarrow> tx_error + FlowChecker" where
  "allIns_loop [] fc = Inr fc"
| "allIns_loop (ins # allIns) fc = res_bind (ins_loop ins fc) (\<lambda>fc.
     if \<not> IsSortedAndUnique TransferableInput_Less ins then Inl ErrInputsNotSortedUnique else allIns_loop allIns fc)"

definition VerifyTx :: "(TransferableOut \<Rightarrow> u8 list option) \<Rightarrow> u64 \<Rightarrow> ID \<Rightarrow> TransferableInput list list \<Rightarrow> TransferableOutput list list
    \<Rightarrow> tx_error + unit" where
  "VerifyTx marshal feeAmount feeAssetID allIns allOuts =
     res_bind (allOuts_loop marshal allOuts (Produce feeAssetID feeAmount NewFlowChecker)) (\<lambda>fc.
     res_bind (allIns_loop allIns fc) fc_Verify)"


section \<open>Amounts\<close>

text \<open>The sum of the amounts with a key.\<close>

definition total_amount :: "('x \<Rightarrow> 'k) \<Rightarrow> ('x \<Rightarrow> u64) \<Rightarrow> 'x list \<Rightarrow> 'k \<Rightarrow> nat" where
  "total_amount key amt xs k = (\<Sum>x \<leftarrow> xs. if key x = k then unat (amt x) else 0)"

lemma total_amount_simps [simp]:
  "total_amount key amt [] k = 0"
  "total_amount key amt (x # xs) k = (if key x = k then unat (amt x) else 0) + total_amount key amt xs k"
  "total_amount key amt (xs @ ys) k = total_amount key amt xs k + total_amount key amt ys k"
  by (simp_all add: total_amount_def)

lemma amount_at_update: "amount_at (AList.update k v m) k' = (if k' = k then v else amount_at m k')"
  by (simp add: amount_at_def)

lemma amount_at_entry: "wf_gomap m \<Longrightarrow> (k, v) \<in> set m \<Longrightarrow> amount_at m k = v"
  by (simp add: amount_at_def map_of_is_SomeI)

lemma amount_at_absent: "k \<notin> fst ` set m \<Longrightarrow> amount_at m k = 0"
  by (simp add: amount_at_def map_of_eq_None_iff [THEN iffD2])

text \<open>What a flow checker has counted, or that something has overflowed.\<close>

definition fc_rep :: "FlowChecker \<Rightarrow> (ID \<Rightarrow> nat) \<Rightarrow> (ID \<Rightarrow> nat) \<Rightarrow> bool" where
  "fc_rep fc C P \<longleftrightarrow> wf_gomap (consumed fc) \<and> wf_gomap (produced fc)
     \<and> (if fc_errs fc = None then (\<forall>a. unat (amount_at (consumed fc) a) = C a \<and> unat (amount_at (produced fc) a) = P a)
        else \<exists>a. 2 ^ 64 \<le> C a \<or> 2 ^ 64 \<le> P a)"

lemma fc_rep_New: "fc_rep NewFlowChecker (\<lambda>_. 0) (\<lambda>_. 0)"
  by (simp add: fc_rep_def NewFlowChecker_def amount_at_def)

lemma fc_rep_Produce:
  assumes "fc_rep fc C P"
  shows "fc_rep (Produce a v fc) C (\<lambda>k. P k + (if k = a then unat v else 0))"
proof -
  have wf: "wf_gomap (consumed (Produce a v fc))" "wf_gomap (produced (Produce a v fc))"
    using assms by (auto simp: fc_rep_def Produce_def fc_add_def fc_note_def distinct_update split: sum.split)
  show ?thesis
  proof (cases "fc_errs fc")
    case (Some e)
    then obtain b where "2 ^ 64 \<le> C b \<or> 2 ^ 64 \<le> P b" using assms unfolding fc_rep_def by auto
    then have "2 ^ 64 \<le> C b \<or> 2 ^ 64 \<le> (P b + (if b = a then unat v else 0))" by linarith
    then have "\<exists>k. 2 ^ 64 \<le> C k \<or> 2 ^ 64 \<le> (P k + (if k = a then unat v else 0))" by blast
    moreover have "fc_errs (Produce a v fc) = Some e" using Some by (simp add: Produce_def fc_note_def split: prod.split)
    ultimately show ?thesis unfolding fc_rep_def using wf by simp
  next
    case None
    show ?thesis
    proof (cases rule: Add64_cases [of "amount_at (produced fc) a" v])
      case overflow
      with None have "fc_errs (Produce a v fc) \<noteq> None" by (simp add: Produce_def fc_add_def fc_note_def)
      with overflow assms None wf show ?thesis unfolding fc_rep_def by (auto intro!: exI [of _ a])
    next
      case (ok c)
      with assms None wf show ?thesis
        by (auto simp: fc_rep_def Produce_def fc_add_def fc_note_def amount_at_update)
    qed
  qed
qed

lemma fc_rep_Consume:
  assumes "fc_rep fc C P"
  shows "fc_rep (Consume a v fc) (\<lambda>k. C k + (if k = a then unat v else 0)) P"
proof -
  have wf: "wf_gomap (consumed (Consume a v fc))" "wf_gomap (produced (Consume a v fc))"
    using assms by (auto simp: fc_rep_def Consume_def fc_add_def fc_note_def distinct_update split: sum.split)
  show ?thesis
  proof (cases "fc_errs fc")
    case (Some e)
    then obtain b where "2 ^ 64 \<le> C b \<or> 2 ^ 64 \<le> P b" using assms unfolding fc_rep_def by auto
    then have "2 ^ 64 \<le> (C b + (if b = a then unat v else 0)) \<or> 2 ^ 64 \<le> P b" by linarith
    then have "\<exists>k. 2 ^ 64 \<le> (C k + (if k = a then unat v else 0)) \<or> 2 ^ 64 \<le> P k" by blast
    moreover have "fc_errs (Consume a v fc) = Some e" using Some by (simp add: Consume_def fc_note_def split: prod.split)
    ultimately show ?thesis unfolding fc_rep_def using wf by simp
  next
    case None
    show ?thesis
    proof (cases rule: Add64_cases [of "amount_at (consumed fc) a" v])
      case overflow
      with None have "fc_errs (Consume a v fc) \<noteq> None" by (simp add: Consume_def fc_add_def fc_note_def)
      with overflow assms None wf show ?thesis unfolding fc_rep_def by (auto intro!: exI [of _ a])
    next
      case (ok c)
      with assms None wf show ?thesis
        by (auto simp: fc_rep_def Consume_def fc_add_def fc_note_def amount_at_update)
    qed
  qed
qed

lemma fc_loop_None: "fc_loop cons m = None \<longleftrightarrow> (\<forall>(a, v) \<in> set m. v \<le> amount_at cons a)"
  by (induction cons m rule: fc_loop.induct) (auto simp: not_less)

lemma fc_Verify_iff:
  assumes "fc_rep fc C P"
  shows "fc_Verify fc = Inr () \<longleftrightarrow> (\<forall>a. C a < 2 ^ 64 \<and> P a < 2 ^ 64 \<and> P a \<le> C a)"
proof (cases "fc_errs fc")
  case None
  have fits: "C a < 2 ^ 64 \<and> P a < 2 ^ 64" for a
    using assms None unat_u64_less [of "amount_at (consumed fc) a"] unat_u64_less [of "amount_at (produced fc) a"] by (auto simp: fc_rep_def)
  have wf: "wf_gomap (produced fc)" using assms by (simp add: fc_rep_def)
  have "(\<forall>(a, v) \<in> set (produced fc). v \<le> amount_at (consumed fc) a) \<longleftrightarrow> (\<forall>a. amount_at (produced fc) a \<le> amount_at (consumed fc) a)"
  proof (intro iffI allI)
    fix a assume "\<forall>(a, v) \<in> set (produced fc). v \<le> amount_at (consumed fc) a"
    then show "amount_at (produced fc) a \<le> amount_at (consumed fc) a"
      using amount_at_entry [OF wf] amount_at_absent [of a "produced fc"] by (cases "a \<in> fst ` set (produced fc)") auto
  qed (use amount_at_entry [OF wf] in auto)
  also have "\<dots> \<longleftrightarrow> (\<forall>a. P a \<le> C a)" using assms None by (simp add: fc_rep_def word_le_nat_alt)
  finally show ?thesis using None fits fc_loop_None [of "consumed fc" "produced fc"]
    by (auto simp: fc_Verify_def fc_note_def Let_def split: option.splits)
next
  case (Some e)
  with assms show ?thesis by (auto simp: fc_rep_def fc_Verify_def Let_def not_less)
qed


lemma outs_loop_Inr:
  "outs_loop outs fc = Inr fc' \<Longrightarrow> fc_rep fc C P \<Longrightarrow> (\<forall>out \<in> set outs. TransferableOutput_Verify out = Inr ())
    \<and> fc_rep fc' C (\<lambda>k. P k + total_amount out_AssetID (\<lambda>out. out_Amount (Out out)) outs k)"
proof (induction outs arbitrary: fc P)
  case (Cons out outs)
  then have ok: "TransferableOutput_Verify out = Inr ()" "outs_loop outs (Produce (out_AssetID out) (out_Amount (Out out)) fc) = Inr fc'"
    by (auto simp: res_bind_Inr_iff)
  from Cons.IH [OF ok(2) fc_rep_Produce [OF Cons.prems(2)]] ok(1) show ?case
    by (auto simp: eq_commute [of _ "out_AssetID out"] add.assoc)
qed simp

lemma outs_loop_ok: "(\<forall>out \<in> set outs. TransferableOutput_Verify out = Inr ()) \<Longrightarrow> \<exists>fc'. outs_loop outs fc = Inr fc'"
  by (induction outs arbitrary: fc) auto

lemma ins_loop_Inr:
  "ins_loop ins fc = Inr fc' \<Longrightarrow> fc_rep fc C P \<Longrightarrow> (\<forall>i \<in> set ins. TransferableInput_Verify i = Inr ())
    \<and> fc_rep fc' (\<lambda>k. C k + total_amount in_AssetID (\<lambda>i. in_Amount (In i)) ins k) P"
proof (induction ins arbitrary: fc C)
  case (Cons i ins)
  then have ok: "TransferableInput_Verify i = Inr ()" "ins_loop ins (Consume (in_AssetID i) (in_Amount (In i)) fc) = Inr fc'"
    by (auto simp: res_bind_Inr_iff)
  from Cons.IH [OF ok(2) fc_rep_Consume [OF Cons.prems(2)]] ok(1) show ?case
    by (auto simp: eq_commute [of _ "in_AssetID i"] add.assoc)
qed simp

lemma ins_loop_ok: "(\<forall>i \<in> set ins. TransferableInput_Verify i = Inr ()) \<Longrightarrow> \<exists>fc'. ins_loop ins fc = Inr fc'"
  by (induction ins arbitrary: fc) auto

lemma allOuts_loop_Inr:
  "allOuts_loop marshal allOuts fc = Inr fc' \<Longrightarrow> fc_rep fc C P \<Longrightarrow> (\<forall>out \<in> set (concat allOuts). TransferableOutput_Verify out = Inr ())
    \<and> (\<forall>outs \<in> set allOuts. IsSortedTransferableOutputs marshal outs)
    \<and> fc_rep fc' C (\<lambda>k. P k + total_amount out_AssetID (\<lambda>out. out_Amount (Out out)) (concat allOuts) k)"
proof (induction allOuts arbitrary: fc P)
  case (Cons outs allOuts)
  then obtain fc1 where 1: "outs_loop outs fc = Inr fc1" "IsSortedTransferableOutputs marshal outs" "allOuts_loop marshal allOuts fc1 = Inr fc'"
    by (auto simp: res_bind_Inr_iff split: if_splits)
  note outs = outs_loop_Inr [OF 1(1) Cons.prems(2)]
  from Cons.IH [OF 1(3) outs [THEN conjunct2]] outs 1(2) show ?case by (auto simp: add.assoc)
qed simp

lemma allOuts_loop_ok:
  "(\<forall>out \<in> set (concat allOuts). TransferableOutput_Verify out = Inr ()) \<Longrightarrow> (\<forall>outs \<in> set allOuts. IsSortedTransferableOutputs marshal outs)
    \<Longrightarrow> \<exists>fc'. allOuts_loop marshal allOuts fc = Inr fc'"
proof (induction allOuts arbitrary: fc)
  case (Cons outs allOuts)
  with outs_loop_ok [of outs fc] show ?case by auto
qed simp

lemma allIns_loop_Inr:
  "allIns_loop allIns fc = Inr fc' \<Longrightarrow> fc_rep fc C P \<Longrightarrow> (\<forall>i \<in> set (concat allIns). TransferableInput_Verify i = Inr ())
    \<and> (\<forall>ins \<in> set allIns. IsSortedAndUnique TransferableInput_Less ins)
    \<and> fc_rep fc' (\<lambda>k. C k + total_amount in_AssetID (\<lambda>i. in_Amount (In i)) (concat allIns) k) P"
proof (induction allIns arbitrary: fc C)
  case (Cons ins allIns)
  then obtain fc1 where 1: "ins_loop ins fc = Inr fc1" "IsSortedAndUnique TransferableInput_Less ins" "allIns_loop allIns fc1 = Inr fc'"
    by (auto simp: res_bind_Inr_iff split: if_splits)
  note ins = ins_loop_Inr [OF 1(1) Cons.prems(2)]
  from Cons.IH [OF 1(3) ins [THEN conjunct2]] ins 1(2) show ?case by (auto simp: add.assoc)
qed simp

lemma allIns_loop_ok:
  "(\<forall>i \<in> set (concat allIns). TransferableInput_Verify i = Inr ()) \<Longrightarrow> (\<forall>ins \<in> set allIns. IsSortedAndUnique TransferableInput_Less ins)
    \<Longrightarrow> \<exists>fc'. allIns_loop allIns fc = Inr fc'"
proof (induction allIns arbitrary: fc)
  case (Cons ins allIns)
  with ins_loop_ok [of ins fc] show ?case by auto
qed simp

lemma UTXOID_Less_iff:
  "UTXOID_Less x y \<longleftrightarrow> bytes_less (utxo_TxID x) (utxo_TxID y) \<or> utxo_TxID x = utxo_TxID y \<and> OutputIndex x < OutputIndex y"
  unfolding UTXOID_Less_def using bytes_less_linear bytes_less_irrefl bytes_less_trans by metis

lemma inputs_distinct:
  assumes "IsSortedAndUnique TransferableInput_Less ins"
  shows "distinct (map in_UTXOID ins)"
proof -
  have "transp UTXOID_Less" by (rule transpI) (auto simp: UTXOID_Less_iff intro: bytes_less_trans)
  then have "transp TransferableInput_Less" by (auto simp: transp_def TransferableInput_Less_def)
  with assms have "sorted_wrt UTXOID_Less (map in_UTXOID ins)"
    by (simp add: IsSortedAndUnique_wrt sorted_wrt_map flip: TransferableInput_Less_def)
  then show ?thesis by (rule sorted_wrt_irrefl_distinct [rotated]) (simp add: UTXOID_Less_def bytes_less_irrefl)
qed

text \<open>The inputs and outputs verify and are in order.\<close>

definition tx_wf :: "(TransferableOut \<Rightarrow> u8 list option) \<Rightarrow> TransferableInput list list \<Rightarrow> TransferableOutput list list \<Rightarrow> bool" where
  "tx_wf marshal allIns allOuts \<longleftrightarrow>
     (\<forall>out \<in> set (concat allOuts). TransferableOutput_Verify out = Inr ()) \<and> (\<forall>outs \<in> set allOuts. IsSortedTransferableOutputs marshal outs)
     \<and> (\<forall>i \<in> set (concat allIns). TransferableInput_Verify i = Inr ()) \<and> (\<forall>ins \<in> set allIns. IsSortedAndUnique TransferableInput_Less ins)"

definition worth_in :: "TransferableInput list \<Rightarrow> ID \<Rightarrow> nat" where
  "worth_in ins = total_amount in_AssetID (\<lambda>i. in_Amount (In i)) ins"

definition worth_out :: "TransferableOutput list \<Rightarrow> ID \<Rightarrow> nat" where
  "worth_out outs = total_amount out_AssetID (\<lambda>out. out_Amount (Out out)) outs"

lemma VerifyTx_iff:
  "VerifyTx marshal feeAmount feeAssetID allIns allOuts = Inr () \<longleftrightarrow> tx_wf marshal allIns allOuts
     \<and> (\<forall>a. worth_in (concat allIns) a < 2 ^ 64 \<and> (if a = feeAssetID then unat feeAmount else 0) + worth_out (concat allOuts) a < 2 ^ 64
        \<and> (if a = feeAssetID then unat feeAmount else 0) + worth_out (concat allOuts) a \<le> worth_in (concat allIns) a)"
proof (cases "tx_wf marshal allIns allOuts")
  let ?fc = "Produce feeAssetID feeAmount NewFlowChecker"
  have fee: "fc_rep ?fc (\<lambda>_. 0) (\<lambda>a. 0 + (if a = feeAssetID then unat feeAmount else 0))" by (rule fc_rep_Produce [OF fc_rep_New])
  {
    case True
    then obtain fc1 where fc1: "allOuts_loop marshal allOuts ?fc = Inr fc1" using allOuts_loop_ok unfolding tx_wf_def by blast
    from True obtain fc2 where fc2: "allIns_loop allIns fc1 = Inr fc2" using allIns_loop_ok unfolding tx_wf_def by blast
    have "fc_rep fc2 (worth_in (concat allIns)) (\<lambda>a. (if a = feeAssetID then unat feeAmount else 0) + worth_out (concat allOuts) a)"
      using allIns_loop_Inr [OF fc2 allOuts_loop_Inr [OF fc1 fee, THEN conjunct2, THEN conjunct2]] by (simp add: worth_in_def worth_out_def)
    from fc_Verify_iff [OF this] True fc1 fc2 show ?thesis by (simp add: VerifyTx_def)
  next
    case False
    have "VerifyTx marshal feeAmount feeAssetID allIns allOuts \<noteq> Inr ()"
    proof
      assume "VerifyTx marshal feeAmount feeAssetID allIns allOuts = Inr ()"
      then obtain fc1 fc2 where fc1: "allOuts_loop marshal allOuts ?fc = Inr fc1" and fc2: "allIns_loop allIns fc1 = Inr fc2"
        by (auto simp: VerifyTx_def res_bind_Inr_iff)
      from allOuts_loop_Inr [OF fc1 fee] allIns_loop_Inr [OF fc2] False show False unfolding tx_wf_def by blast
    qed
    with False show ?thesis by blast
  }
qed

section \<open>Properties\<close>

text \<open>(C20) What a transaction may do, as \<^verbatim>\<open>VerifyTx\<close> sees it: it is accepted exactly if its inputs and outputs verify and are in order
  and for every asset the outputs and the fee together are worth no more than the inputs, with no sum out of range. So nothing is
  created, and no list of inputs names a UTXO twice.\<close>

theorem verify_tx_conserves:
  "(VerifyTx marshal feeAmount feeAssetID allIns allOuts = Inr ()) =
     (tx_wf marshal allIns allOuts \<and> list_all (\<lambda>ins. distinct (map in_UTXOID ins)) allIns
      \<and> (\<forall>a. worth_in (concat allIns) a < 2 ^ 64
           \<and> (if a = feeAssetID then unat feeAmount else 0) + worth_out (concat allOuts) a \<le> worth_in (concat allIns) a))"
proof -
  have "list_all (\<lambda>ins. distinct (map in_UTXOID ins)) allIns" if "tx_wf marshal allIns allOuts"
    using that inputs_distinct by (auto simp: tx_wf_def list_all_iff)
  then show ?thesis unfolding VerifyTx_iff by (meson le_less_trans)
qed

end
