(* ===== verification/Utxo_Verify.thy ===== *)
theory Utxo_Verify
  imports Transferables
begin

text \<open>
  The verification of spending by \<^verbatim>\<open>vms/omegavm/utxo/handler.go\<close>. The state of the function is its four maps; those that it
  ranges over are association lists, and the order in which a run visits one is given by the functions of \<^verbatim>\<open>ranges\<close>, which
  rearrange its entries. The database is the argument \<^verbatim>\<open>getUTXO\<close>, the identifier of an input \<^verbatim>\<open>inputID\<close>, and the
  bytes of an owner and their hash are \<^verbatim>\<open>marshalOwner\<close> and \<^verbatim>\<open>hash256\<close>. The feature extension is the one for
  secp256k1, the only one that this VM has, and the credentials are of its type.
\<close>

datatype utxo_error =
    U_fx fx_error | U_math math_error | U_codec | U_database
  | ErrInsufficientFunds | ErrInsufficientUnlockedFunds | ErrInsufficientLockedFunds
  | errWrongNumberCredentials | errWrongNumberUTXOs | errAssetIDMismatch | errLocktimeMismatch | errCantSign
  | errLockedFundsNotMarkedAsLocked | errNotOwned

text \<open>What a UTXO holds: a state that may not be transferable.\<close>

datatype State = S_Transferable TransferableOut | S_Mint MintOutput

record UTXO =
  utxo_UTXOID :: UTXOID
  utxo_AssetID :: ID
  utxo_Out :: State

type_synonym unlocked = "(ID, u64) gomap"
type_synonym locked = "(ID, (u64, (ID, u64) gomap) gomap) gomap"

record ranges =
  range_assets :: "locked \<Rightarrow> locked"
  range_times :: "(u64, (ID, u64) gomap) gomap \<Rightarrow> (u64, (ID, u64) gomap) gomap"
  range_owners :: "(ID, u64) gomap \<Rightarrow> (ID, u64) gomap"

record spend_env =
  env_now :: u64
  env_fx :: Fx
  env_hash :: "u8 list \<Rightarrow> u8 list"
  env_recover :: "u8 list \<Rightarrow> signature \<Rightarrow> fx_error + ShortID"
  marshalOwner :: "OutputOwners \<Rightarrow> u8 list option"
  hash256 :: "u8 list \<Rightarrow> ID"
  env_ranges :: ranges

subsection \<open>Amounts by asset, and by asset, lock time and owner\<close>

definition at_key :: "('k, 'a list) gomap \<Rightarrow> 'k \<Rightarrow> 'a list" where
  "at_key m k = (case map_of m k of None \<Rightarrow> [] | Some v \<Rightarrow> v)"

definition add_unlocked :: "unlocked \<Rightarrow> ID \<Rightarrow> u64 \<Rightarrow> utxo_error + unlocked" where
  "add_unlocked m assetID amount =
     (case Add64 (amount_at m assetID) amount of Inl e \<Rightarrow> Inl (U_math e) | Inr v \<Rightarrow> Inr (AList.update assetID v m))"

definition add_locked :: "locked \<Rightarrow> ID \<Rightarrow> u64 \<Rightarrow> ID \<Rightarrow> u64 \<Rightarrow> utxo_error + locked" where
  "add_locked m assetID locktime ownerID amount =
     (let times = at_key m assetID; owners = at_key times locktime in
      case Add64 (amount_at owners ownerID) amount of
        Inl e \<Rightarrow> Inl (U_math e)
      | Inr v \<Rightarrow> Inr (AList.update assetID (AList.update locktime (AList.update ownerID v owners) times) m))"

subsection \<open>Inputs\<close>

fun unlock_state :: "State \<Rightarrow> State \<times> u64" where
  "unlock_state (S_Transferable (LockOut locktime out)) = (S_Transferable out, locktime)"
| "unlock_state out = (out, 0)"

fun unlock_in :: "u64 \<Rightarrow> u64 \<Rightarrow> TransferableIn \<Rightarrow> utxo_error + TransferableIn" where
  "unlock_in now locktime (LockIn inLocktime i) = (if inLocktime \<noteq> locktime then Inl errLocktimeMismatch else Inr i)"
| "unlock_in now locktime i = (if now < locktime then Inl errLockedFundsNotMarkedAsLocked else Inr i)"

fun iface_in :: "TransferableIn \<Rightarrow> iface" where
  "iface_in (TransferIn i) = I_TransferInput (Some i)"
| "iface_in (LockIn _ _) = I_Other"

fun iface_state :: "State \<Rightarrow> iface" where
  "iface_state (S_Transferable (TransferOut out)) = I_TransferOutput (Some out)"
| "iface_state (S_Transferable (LockOut _ _)) = I_Other"
| "iface_state (S_Mint out) = I_MintOutput (Some out)"

text \<open>The owners of a value that has owners, marshalled and hashed.\<close>

fun ownerID_of :: "spend_env \<Rightarrow> State \<Rightarrow> utxo_error + ID" where
  "ownerID_of env (S_Transferable (TransferOut out)) =
     (case marshalOwner env (owners_of out) of None \<Rightarrow> Inl U_codec | Some ownerBytes \<Rightarrow> Inr (hash256 env ownerBytes))"
| "ownerID_of env _ = Inl errNotOwned"

definition consume_input :: "spend_env \<Rightarrow> u8 list \<Rightarrow> TransferableInput \<Rightarrow> UTXO \<Rightarrow> Credential option
    \<Rightarrow> unlocked \<times> locked \<Rightarrow> utxo_error + unlocked \<times> locked" where
  "consume_input env tx input utxo cred consumed' =
     (case consumed' of (unlockedConsumed, lockedConsumed) \<Rightarrow>
      if utxo_AssetID utxo \<noteq> in_AssetID input then Inl errAssetIDMismatch
      else
        let (out, locktime) = unlock_state (utxo_Out utxo) in
        res_bind (unlock_in (env_now env) locktime (In input)) (\<lambda>i.
        res_bind (map_sum U_fx id (VerifyTransfer (env_hash env) (env_recover env) (env_fx env)
            (I_Tx tx) (iface_in i) (I_Credential cred) (iface_state out))) (\<lambda>_.
          let amount = in_Amount i in
          if env_now env \<ge> locktime
          then res_bind (add_unlocked unlockedConsumed (utxo_AssetID utxo) amount) (\<lambda>m. Inr (m, lockedConsumed))
          else res_bind (ownerID_of env out) (\<lambda>ownerID.
               res_bind (add_locked lockedConsumed (utxo_AssetID utxo) locktime ownerID amount) (\<lambda>m. Inr (unlockedConsumed, m))))))"

fun consume_loop :: "spend_env \<Rightarrow> u8 list \<Rightarrow> (TransferableInput \<times> UTXO \<times> Credential option) list
    \<Rightarrow> unlocked \<times> locked \<Rightarrow> utxo_error + unlocked \<times> locked" where
  "consume_loop env tx [] st = Inr st"
| "consume_loop env tx ((input, utxo, cred) # rest) st = res_bind (consume_input env tx input utxo cred st) (consume_loop env tx rest)"

subsection \<open>Outputs\<close>

fun unlock_out :: "TransferableOut \<Rightarrow> TransferableOut \<times> u64" where
  "unlock_out (LockOut locktime out) = (out, locktime)"
| "unlock_out out = (out, 0)"

definition produce_output :: "spend_env \<Rightarrow> TransferableOutput \<Rightarrow> unlocked \<times> locked \<Rightarrow> utxo_error + unlocked \<times> locked" where
  "produce_output env out produced' =
     (case produced' of (unlockedProduced, lockedProduced) \<Rightarrow>
      let (output, locktime) = unlock_out (Out out); amount = out_Amount output in
      if locktime = 0
      then res_bind (add_unlocked unlockedProduced (out_AssetID out) amount) (\<lambda>m. Inr (m, lockedProduced))
      else res_bind (ownerID_of env (S_Transferable output)) (\<lambda>ownerID.
           res_bind (add_locked lockedProduced (out_AssetID out) locktime ownerID amount) (\<lambda>m. Inr (unlockedProduced, m))))"

fun produce_loop :: "spend_env \<Rightarrow> TransferableOutput list \<Rightarrow> unlocked \<times> locked \<Rightarrow> utxo_error + unlocked \<times> locked" where
  "produce_loop env [] st = Inr st"
| "produce_loop env (out # outs) st = res_bind (produce_output env out st) (produce_loop env outs)"

subsection \<open>The balance\<close>

fun owners_loop :: "ID \<Rightarrow> (ID, u64) gomap \<Rightarrow> (ID, u64) gomap \<Rightarrow> unlocked \<Rightarrow> utxo_error + unlocked" where
  "owners_loop assetID consumedAmounts [] unlockedConsumed = Inr unlockedConsumed"
| "owners_loop assetID consumedAmounts ((ownerID, producedAmount) # rest) unlockedConsumed =
     (let consumedAmount = amount_at consumedAmounts ownerID in
      if producedAmount > consumedAmount then
        let increase = producedAmount - consumedAmount; unlockedConsumedAsset = amount_at unlockedConsumed assetID in
        if increase > unlockedConsumedAsset then Inl ErrInsufficientLockedFunds
        else owners_loop assetID consumedAmounts rest (AList.update assetID (unlockedConsumedAsset - increase) unlockedConsumed)
      else owners_loop assetID consumedAmounts rest unlockedConsumed)"

fun times_loop :: "ranges \<Rightarrow> ID \<Rightarrow> (u64, (ID, u64) gomap) gomap \<Rightarrow> (u64, (ID, u64) gomap) gomap \<Rightarrow> unlocked \<Rightarrow> utxo_error + unlocked" where
  "times_loop rs assetID lockedConsumedAsset [] unlockedConsumed = Inr unlockedConsumed"
| "times_loop rs assetID lockedConsumedAsset ((locktime, producedAmounts) # rest) unlockedConsumed =
     res_bind (owners_loop assetID (at_key lockedConsumedAsset locktime) (range_owners rs producedAmounts) unlockedConsumed)
       (times_loop rs assetID lockedConsumedAsset rest)"

fun assets_loop :: "ranges \<Rightarrow> locked \<Rightarrow> locked \<Rightarrow> unlocked \<Rightarrow> utxo_error + unlocked" where
  "assets_loop rs lockedConsumed [] unlockedConsumed = Inr unlockedConsumed"
| "assets_loop rs lockedConsumed ((assetID, producedAssetAmounts) # rest) unlockedConsumed =
     res_bind (times_loop rs assetID (at_key lockedConsumed assetID) (range_times rs producedAssetAmounts) unlockedConsumed)
       (assets_loop rs lockedConsumed rest)"

fun unlocked_loop :: "unlocked \<Rightarrow> unlocked \<Rightarrow> utxo_error + unit" where
  "unlocked_loop unlockedConsumed [] = Inr ()"
| "unlocked_loop unlockedConsumed ((assetID, unlockedProducedAsset) # rest) =
     (if unlockedProducedAsset > amount_at unlockedConsumed assetID then Inl ErrInsufficientUnlockedFunds
      else unlocked_loop unlockedConsumed rest)"

text \<open>The map of the amounts that are produced without lock belongs to the caller, and is returned as the function leaves it.\<close>

definition VerifySpendUTXOs :: "spend_env \<Rightarrow> u8 list \<Rightarrow> UTXO list \<Rightarrow> TransferableInput list \<Rightarrow> TransferableOutput list
    \<Rightarrow> Credential option list \<Rightarrow> unlocked \<Rightarrow> utxo_error + unlocked" where
  "VerifySpendUTXOs env tx utxos ins outs creds unlockedProduced =
     (if length ins \<noteq> length creds then Inl errWrongNumberCredentials
      else if length ins \<noteq> length utxos then Inl errWrongNumberUTXOs
      else
        res_bind (map_sum U_fx id (verify_All (map Credential_Verify creds))) (\<lambda>_.
        res_bind (consume_loop env tx (zip ins (zip utxos creds)) ([], [])) (\<lambda>(unlockedConsumed, lockedConsumed).
        res_bind (produce_loop env outs (unlockedProduced, [])) (\<lambda>(unlockedProduced, lockedProduced).
        res_bind (assets_loop (env_ranges env) lockedConsumed (range_assets (env_ranges env) lockedProduced) unlockedConsumed) (\<lambda>unlockedConsumed.
        res_bind (unlocked_loop unlockedConsumed unlockedProduced) (\<lambda>_. Inr unlockedProduced))))))"

fun get_utxos :: "(ID \<Rightarrow> UTXO option) \<Rightarrow> (UTXOID \<Rightarrow> ID) \<Rightarrow> TransferableInput list \<Rightarrow> utxo_error + UTXO list" where
  "get_utxos getUTXO inputID [] = Inr []"
| "get_utxos getUTXO inputID (input # ins) =
     (case getUTXO (inputID (in_UTXOID input)) of
        None \<Rightarrow> Inl U_database
      | Some utxo \<Rightarrow> res_bind (get_utxos getUTXO inputID ins) (\<lambda>utxos. Inr (utxo # utxos)))"

definition VerifySpend :: "(ID \<Rightarrow> UTXO option) \<Rightarrow> (UTXOID \<Rightarrow> ID) \<Rightarrow> spend_env \<Rightarrow> u8 list \<Rightarrow> TransferableInput list
    \<Rightarrow> TransferableOutput list \<Rightarrow> Credential option list \<Rightarrow> unlocked \<Rightarrow> utxo_error + unlocked" where
  "VerifySpend getUTXO inputID env tx ins outs creds unlockedProduced =
     res_bind (get_utxos getUTXO inputID ins) (\<lambda>utxos. VerifySpendUTXOs env tx utxos ins outs creds unlockedProduced)"


section \<open>What the maps hold\<close>

definition locked_val :: "locked \<Rightarrow> ID \<times> u64 \<times> ID \<Rightarrow> u64" where
  "locked_val m k = (case k of (a, t, o') \<Rightarrow> amount_at (at_key (at_key m a) t) o')"

definition locked_wf :: "locked \<Rightarrow> bool" where
  "locked_wf m \<longleftrightarrow> wf_gomap m \<and> (\<forall>(a, ts) \<in> set m. wf_gomap ts \<and> (\<forall>(t, os) \<in> set ts. wf_gomap os))"

lemma at_key_update: "at_key (AList.update k v m) k' = (if k' = k then v else at_key m k')"
  by (simp add: at_key_def)

lemma set_update: "x \<in> set (AList.update k v m) \<Longrightarrow> x = (k, v) \<or> x \<in> set m"
  by (induction m) (auto split: if_splits)

lemma at_key_in: "at_key m k = [] \<or> (k, at_key m k) \<in> set m"
  by (auto simp: at_key_def dest: map_of_SomeD split: option.splits)

lemma at_key_entry: "wf_gomap m \<Longrightarrow> (k, v) \<in> set m \<Longrightarrow> at_key m k = v"
  by (simp add: at_key_def map_of_is_SomeI)

lemma add_unlocked_Inr:
  assumes "add_unlocked m a v = Inr m'"
  shows "unat (amount_at m' k) = unat (amount_at m k) + (if a = k then unat v else 0)" "wf_gomap m \<Longrightarrow> wf_gomap m'"
  using assms by (cases rule: Add64_cases [of "amount_at m a" v]; auto simp: add_unlocked_def amount_at_update distinct_update)+

lemma add_locked_Inr:
  assumes "add_locked m a t o' v = Inr m'"
  shows "unat (locked_val m' k) = unat (locked_val m k) + (if (a, t, o') = k then unat v else 0)" "locked_wf m \<Longrightarrow> locked_wf m'"
proof -
  let ?ts = "at_key m a" and ?os = "at_key (at_key m a) t"
  obtain c where c: "unat c = unat (amount_at ?os o') + unat v" "m' = AList.update a (AList.update t (AList.update o' c ?os) ?ts) m"
    using assms by (cases rule: Add64_cases [of "amount_at ?os o'" v]) (auto simp: add_locked_def Let_def)
  then show "unat (locked_val m' k) = unat (locked_val m k) + (if (a, t, o') = k then unat v else 0)"
    by (cases k) (auto simp: locked_val_def at_key_update amount_at_update)
  assume wf: "locked_wf m"
  then have ts: "wf_gomap ?ts \<and> (\<forall>(t, os) \<in> set ?ts. wf_gomap os)" using at_key_in [of m a] by (auto simp: locked_wf_def)
  then have "wf_gomap ?os" using at_key_in [of ?ts t] by auto
  with ts have "wf_gomap (AList.update t (AList.update o' c ?os) ?ts) \<and> (\<forall>(t, os) \<in> set (AList.update t (AList.update o' c ?os) ?ts). wf_gomap os)"
    by (auto simp: distinct_update dest!: set_update)
  with wf show "locked_wf m'" unfolding locked_wf_def c(2) by (auto simp: distinct_update dest!: set_update)
qed

subsection \<open>What is consumed and produced\<close>

definition utxo_lock :: "UTXO \<Rightarrow> u64" where
  "utxo_lock utxo = snd (unlock_state (utxo_Out utxo))"

fun state_amount :: "State \<Rightarrow> u64" where
  "state_amount (S_Transferable out) = out_Amount out"
| "state_amount (S_Mint _) = 0"

definition utxo_amount :: "UTXO \<Rightarrow> u64" where
  "utxo_amount utxo = state_amount (utxo_Out utxo)"

definition owner_key :: "spend_env \<Rightarrow> State \<Rightarrow> ID" where
  "owner_key env out = (case ownerID_of env out of Inr k \<Rightarrow> k | Inl _ \<Rightarrow> [])"

definition utxo_key :: "spend_env \<Rightarrow> UTXO \<Rightarrow> ID \<times> u64 \<times> ID" where
  "utxo_key env utxo = (utxo_AssetID utxo, utxo_lock utxo, owner_key env (fst (unlock_state (utxo_Out utxo))))"

definition output_lock :: "TransferableOutput \<Rightarrow> u64" where
  "output_lock out = snd (unlock_out (Out out))"

definition output_key :: "spend_env \<Rightarrow> TransferableOutput \<Rightarrow> ID \<times> u64 \<times> ID" where
  "output_key env out = (out_AssetID out, output_lock out, owner_key env (S_Transferable (fst (unlock_out (Out out)))))"

text \<open>An input that its credential allows to spend its UTXO.\<close>

definition input_allowed :: "spend_env \<Rightarrow> u8 list \<Rightarrow> TransferableInput \<Rightarrow> UTXO \<Rightarrow> Credential option \<Rightarrow> bool" where
  "input_allowed env tx input utxo cred \<longleftrightarrow> utxo_AssetID utxo = in_AssetID input
     \<and> (\<exists>i out. unlock_in (env_now env) (utxo_lock utxo) (In input) = Inr (TransferIn i)
          \<and> fst (unlock_state (utxo_Out utxo)) = S_Transferable (TransferOut out)
          \<and> fx_VerifySpend (env_hash env) (env_recover env) (env_fx env) tx (Some i) cred (Some out) = Inr ())"

lemma iface_transfer:
  "iface_in i = I_TransferInput i' \<longleftrightarrow> (\<exists>x. i = TransferIn x \<and> i' = Some x)"
  "iface_state out = I_TransferOutput o' \<longleftrightarrow> (\<exists>x. out = S_Transferable (TransferOut x) \<and> o' = Some x)"
proof -
  show "iface_in i = I_TransferInput i' \<longleftrightarrow> (\<exists>x. i = TransferIn x \<and> i' = Some x)" by (cases i) auto
  show "iface_state out = I_TransferOutput o' \<longleftrightarrow> (\<exists>x. out = S_Transferable (TransferOut x) \<and> o' = Some x)"
    by (cases out rule: iface_state.cases) auto
qed

lemma unlocked_amount: "fst (unlock_state (utxo_Out utxo)) = S_Transferable (TransferOut out) \<Longrightarrow> utxo_amount utxo = out_Amt out"
  by (cases "utxo_Out utxo" rule: unlock_state.cases) (auto simp: utxo_amount_def)

lemma map_sum_Inr_iff: "map_sum f id r = Inr x \<longleftrightarrow> r = Inr x"
  by (cases r) auto

lemma consume_input_Inr:
  assumes "consume_input env tx input utxo cred (u, l) = Inr (u', l')"
  shows "input_allowed env tx input utxo cred
    \<and> (if utxo_lock utxo \<le> env_now env then add_unlocked u (utxo_AssetID utxo) (utxo_amount utxo) = Inr u' \<and> l' = l
       else u' = u \<and> (\<exists>k. utxo_key env utxo = (utxo_AssetID utxo, utxo_lock utxo, k) \<and> add_locked l (utxo_AssetID utxo) (utxo_lock utxo) k (utxo_amount utxo) = Inr l'))"
proof -
  obtain out t where out: "unlock_state (utxo_Out utxo) = (out, t)" by (cases "unlock_state (utxo_Out utxo)")
  with assms obtain i where i: "utxo_AssetID utxo = in_AssetID input" "unlock_in (env_now env) t (In input) = Inr i"
    "VerifyTransfer (env_hash env) (env_recover env) (env_fx env) (I_Tx tx) (iface_in i) (I_Credential cred) (iface_state out) = Inr ()"
    "if t \<le> env_now env then add_unlocked u (utxo_AssetID utxo) (in_Amount i) = Inr u' \<and> l' = l
     else u' = u \<and> (\<exists>k. ownerID_of env out = Inr k \<and> add_locked l (utxo_AssetID utxo) t k (in_Amount i) = Inr l')"
    by (auto simp: consume_input_def res_bind_Inr_iff Let_def map_sum_Inr_iff split: if_splits)
  from i(3) obtain i' o' where io: "i = TransferIn i'" "out = S_Transferable (TransferOut o')"
    "fx_VerifySpend (env_hash env) (env_recover env) (env_fx env) tx (Some i') cred (Some o') = Inr ()"
    by (auto simp: VerifyTransfer_iff iface_transfer)
  have "in_Amt i' = out_Amt o'" using io(3) by (auto simp: fx_VerifySpend_iff)
  with i io out unlocked_amount [of utxo o'] show ?thesis
    by (auto simp: input_allowed_def utxo_lock_def utxo_key_def owner_key_def)
qed

lemma consume_loop_Inr:
  assumes "consume_loop env tx xs (u, l) = Inr (u', l')"
  shows "(\<forall>(input, utxo, cred) \<in> set xs. input_allowed env tx input utxo cred)
    \<and> (\<forall>a. unat (amount_at u' a) = unat (amount_at u a)
         + total_amount utxo_AssetID utxo_amount (filter (\<lambda>x. utxo_lock x \<le> env_now env) (map (fst \<circ> snd) xs)) a)
    \<and> (\<forall>k. unat (locked_val l' k) = unat (locked_val l k)
         + total_amount (utxo_key env) utxo_amount (filter (\<lambda>x. \<not> utxo_lock x \<le> env_now env) (map (fst \<circ> snd) xs)) k)"
  using assms
proof (induction xs arbitrary: u l)
  case (Cons x xs)
  obtain input utxo cred where x: "x = (input, utxo, cred)" by (cases x)
  from Cons.prems x obtain u1 l1 where 1: "consume_input env tx input utxo cred (u, l) = Inr (u1, l1)" "consume_loop env tx xs (u1, l1) = Inr (u', l')"
    by (auto simp: res_bind_Inr_iff)
  show ?case
  proof (cases "utxo_lock utxo \<le> env_now env")
    case True
    with consume_input_Inr [OF 1(1)] have in1: "input_allowed env tx input utxo cred" "add_unlocked u (utxo_AssetID utxo) (utxo_amount utxo) = Inr u1" "l1 = l"
      by auto
    from in1 Cons.IH [OF 1(2)] True show ?thesis by (auto simp: x add_unlocked_Inr(1) [OF in1(2)])
  next
    case False
    with consume_input_Inr [OF 1(1)] obtain k where in1: "input_allowed env tx input utxo cred" "u1 = u"
      "utxo_key env utxo = (utxo_AssetID utxo, utxo_lock utxo, k)" "add_locked l (utxo_AssetID utxo) (utxo_lock utxo) k (utxo_amount utxo) = Inr l1"
      by auto
    from in1 Cons.IH [OF 1(2)] False show ?thesis by (auto simp: x add_locked_Inr(1) [OF in1(4)])
  qed
qed simp

lemma unlock_out_amount: "out_Amount (fst (unlock_out out)) = out_Amount out"
  by (cases out) auto

lemma produce_output_Inr:
  assumes "produce_output env out (u, l) = Inr (u', l')"
  shows "if output_lock out = 0 then add_unlocked u (out_AssetID out) (out_Amount (Out out)) = Inr u' \<and> l' = l
    else u' = u \<and> (\<exists>k. output_key env out = (out_AssetID out, output_lock out, k)
      \<and> add_locked l (out_AssetID out) (output_lock out) k (out_Amount (Out out)) = Inr l')"
  using assms unlock_out_amount [of "Out out"]
  by (auto simp: produce_output_def output_lock_def output_key_def owner_key_def res_bind_Inr_iff Let_def split: prod.splits if_splits)

lemma produce_loop_Inr:
  assumes "produce_loop env outs (u, l) = Inr (u', l')"
  shows "(\<forall>a. unat (amount_at u' a) = unat (amount_at u a)
         + total_amount out_AssetID (\<lambda>out. out_Amount (Out out)) (filter (\<lambda>x. output_lock x = 0) outs) a)
    \<and> (\<forall>k. unat (locked_val l' k) = unat (locked_val l k)
         + total_amount (output_key env) (\<lambda>out. out_Amount (Out out)) (filter (\<lambda>x. output_lock x \<noteq> 0) outs) k)
    \<and> (wf_gomap u \<longrightarrow> wf_gomap u') \<and> (locked_wf l \<longrightarrow> locked_wf l')"
  using assms
proof (induction outs arbitrary: u l)
  case (Cons out outs)
  from Cons.prems obtain u1 l1 where 1: "produce_output env out (u, l) = Inr (u1, l1)" "produce_loop env outs (u1, l1) = Inr (u', l')"
    by (auto simp: res_bind_Inr_iff)
  show ?case
  proof (cases "output_lock out = 0")
    case True
    with produce_output_Inr [OF 1(1)] have o1: "add_unlocked u (out_AssetID out) (out_Amount (Out out)) = Inr u1" "l1 = l" by auto
    from o1 Cons.IH [OF 1(2)] True show ?thesis by (auto simp: add_unlocked_Inr(1) [OF o1(1)] dest: add_unlocked_Inr(2) [OF o1(1)])
  next
    case False
    with produce_output_Inr [OF 1(1)] obtain k where o1: "u1 = u" "output_key env out = (out_AssetID out, output_lock out, k)"
      "add_locked l (out_AssetID out) (output_lock out) k (out_Amount (Out out)) = Inr l1" by auto
    from o1 Cons.IH [OF 1(2)] False show ?thesis by (auto simp: add_locked_Inr(1) [OF o1(3)] dest: add_locked_Inr(2) [OF o1(3)])
  qed
qed simp

subsection \<open>The loops over the locked amounts as one loop over entries\<close>

definition entries :: "ranges \<Rightarrow> locked \<Rightarrow> ((ID \<times> u64 \<times> ID) \<times> u64) list" where
  "entries rs m = concat (map (\<lambda>(a, ts). concat (map (\<lambda>(t, os). map (\<lambda>(o', v). ((a, t, o'), v)) (range_owners rs os)) (range_times rs ts))) m)"

fun balance_loop :: "locked \<Rightarrow> ((ID \<times> u64 \<times> ID) \<times> u64) list \<Rightarrow> unlocked \<Rightarrow> utxo_error + unlocked" where
  "balance_loop c [] u = Inr u"
| "balance_loop c ((k, v) # rest) u =
     (if v > locked_val c k
      then if v - locked_val c k > amount_at u (fst k) then Inl ErrInsufficientLockedFunds
           else balance_loop c rest (AList.update (fst k) (amount_at u (fst k) - (v - locked_val c k)) u)
      else balance_loop c rest u)"

lemma balance_loop_append: "balance_loop c (xs @ ys) u = res_bind (balance_loop c xs u) (balance_loop c ys)"
  by (induction c xs u rule: balance_loop.induct) auto

lemma owners_loop_entries:
  "owners_loop a (at_key (at_key c a) t) os u = balance_loop c (map (\<lambda>(o', v). ((a, t, o'), v)) os) u"
  by (induction a "at_key (at_key c a) t" os u rule: owners_loop.induct) (auto simp: locked_val_def Let_def)

lemma times_loop_entries:
  "times_loop rs a (at_key c a) ts u
     = balance_loop c (concat (map (\<lambda>(t, os). map (\<lambda>(o', v). ((a, t, o'), v)) (range_owners rs os)) ts)) u"
  by (induction ts arbitrary: u) (auto simp: owners_loop_entries balance_loop_append fun_eq_iff intro!: arg_cong2 [where f = res_bind])

lemma assets_loop_entries: "assets_loop rs c m u = balance_loop c (entries rs m) u"
  by (induction m arbitrary: u)
    (auto simp: entries_def times_loop_entries balance_loop_append fun_eq_iff intro!: arg_cong2 [where f = res_bind])

lemma balance_loop_Inr:
  "balance_loop c xs u = Inr u' \<Longrightarrow>
     unat (amount_at u' a) + (\<Sum>(k, v) \<leftarrow> xs. if fst k = a then unat v - unat (locked_val c k) else 0) = unat (amount_at u a)"
proof (induction c xs u rule: balance_loop.induct)
  case (2 c k v rest u)
  show ?case
  proof (cases "v > locked_val c k")
    case True
    with 2 show ?thesis
      by (auto simp: amount_at_update unat_sub word_less_nat_alt word_le_nat_alt split: if_splits)
  next
    case False
    then have "unat v - unat (locked_val c k) = 0" by (simp add: word_less_nat_alt)
    with False 2 show ?thesis by simp
  qed
qed simp

subsection \<open>Sums over keys\<close>

text \<open>A range over a map visits each of its entries once, in some order.\<close>

definition visits_all :: "ranges \<Rightarrow> bool" where
  "visits_all rs \<longleftrightarrow> (\<forall>m. mset (range_assets rs m) = mset m) \<and> (\<forall>m. mset (range_times rs m) = mset m) \<and> (\<forall>m. mset (range_owners rs m) = mset m)"

lemma mset_gomap: "mset m = mset m' \<Longrightarrow> set m = set m' \<and> wf_gomap m = wf_gomap m'"
  by (metis mset_eq_setD mset_eq_imp_distinct_iff mset_map)

lemma visits_sets:
  assumes "visits_all rs"
  shows "set (range_assets rs m) = set m" "set (range_times rs ts) = set ts" "set (range_owners rs os) = set os"
    "wf_gomap (range_assets rs m) = wf_gomap m" "wf_gomap (range_times rs ts) = wf_gomap ts" "wf_gomap (range_owners rs os) = wf_gomap os"
proof -
  have "mset (range_assets rs m) = mset m" "mset (range_times rs ts) = mset ts" "mset (range_owners rs os) = mset os"
    using assms unfolding visits_all_def by blast+
  note this [THEN mset_gomap]
  then show "set (range_assets rs m) = set m" "set (range_times rs ts) = set ts" "set (range_owners rs os) = set os"
    "wf_gomap (range_assets rs m) = wf_gomap m" "wf_gomap (range_times rs ts) = wf_gomap ts" "wf_gomap (range_owners rs os) = wf_gomap os"
    by blast+
qed

lemma entries_val:
  assumes "visits_all rs" "locked_wf m" "(k, v) \<in> set (entries rs (range_assets rs m))"
  shows "v = locked_val m k"
proof -
  from assms(3) obtain a ts t os o' where m: "(a, ts) \<in> set m" "(t, os) \<in> set ts" "(o', v) \<in> set os" "k = (a, t, o')"
    by (auto simp: entries_def visits_sets [OF assms(1)])
  with assms(2) have "wf_gomap m" "wf_gomap ts" "wf_gomap os" by (auto simp: locked_wf_def)
  with m show ?thesis by (simp add: locked_val_def at_key_entry amount_at_entry)
qed

lemma entries_complete:
  assumes "visits_all rs" "locked_val m k \<noteq> 0"
  shows "k \<in> fst ` set (entries rs (range_assets rs m))"
proof -
  obtain a t o' where k: "k = (a, t, o')" by (cases k)
  let ?ts = "at_key m a" and ?os = "at_key (at_key m a) t"
  obtain v where v: "(o', v) \<in> set ?os" using assms(2) by (auto simp: k locked_val_def amount_at_def dest: map_of_SomeD split: option.splits)
  then have "(t, ?os) \<in> set ?ts" using at_key_in [of ?ts t] by auto
  moreover from this have "(a, ?ts) \<in> set m" using at_key_in [of m a] by auto
  ultimately have "(k, v) \<in> set (entries rs (range_assets rs m))"
    using v by (auto simp: entries_def k visits_sets [OF assms(1)] intro!: bexI [where x = "(a, ?ts)"] bexI [where x = "(t, ?os)"] image_eqI [where x = "(o', v)"])
  then show ?thesis by force
qed

lemma distinct_concat_keys:
  assumes "wf_gomap m" "\<And>k v. (k, v) \<in> set m \<Longrightarrow> distinct (map fst (f k v))"
    "\<And>k v x. (k, v) \<in> set m \<Longrightarrow> x \<in> set (f k v) \<Longrightarrow> g (fst x) = k"
  shows "distinct (map fst (concat (map (\<lambda>(k, v). f k v) m)))"
  using assms
proof (induction m)
  case (Cons p m)
  obtain k v where p: "p = (k, v)" by (cases p)
  have "distinct (map fst (concat (map (\<lambda>(k, v). f k v) m)))"
    by (rule Cons.IH) (use Cons.prems(1) in simp, auto intro: Cons.prems(2, 3))
  moreover have "distinct (map fst (f k v))" using Cons.prems(2) p by auto
  moreover have "fst ` set (f k v) \<inter> fst ` set (concat (map (\<lambda>(k, v). f k v) m)) = {}"
  proof -
    have "g x = k" if "x \<in> fst ` set (f k v)" for x using Cons.prems(3) [of k v] that p by auto
    moreover have "g x \<noteq> k" if "x \<in> fst ` set (concat (map (\<lambda>(k, v). f k v) m))" for x
    proof -
      from that obtain k' v' y where "(k', v') \<in> set m" "y \<in> set (f k' v')" "x = fst y" by auto
      with Cons.prems(3) [of k' v' y] have "g x \<in> fst ` set m" by force
      with Cons.prems(1) p show ?thesis by auto
    qed
    ultimately show ?thesis by blast
  qed
  ultimately show ?case by (simp add: p)
qed simp

lemma entries_distinct:
  assumes rs: "visits_all rs" and wf: "locked_wf m"
  shows "distinct (map fst (entries rs (range_assets rs m)))"
proof -
  have os: "distinct (map fst (map (\<lambda>(o', v). ((a :: ID, t :: u64, o'), v)) (range_owners rs os)))" if "wf_gomap os" for a t os
  proof -
    have "map fst (map (\<lambda>(o', v). ((a, t, o'), v)) (range_owners rs os)) = map (\<lambda>o'. (a, t, o')) (map fst (range_owners rs os))" by auto
    with that visits_sets(6) [OF rs, of os] show ?thesis by (simp add: distinct_map inj_on_def del: map_map)
  qed
  have ts: "distinct (map fst (concat (map (\<lambda>(t, os). map (\<lambda>(o', v). ((a, t, o'), v)) (range_owners rs os)) (range_times rs ts))))"
    if "wf_gomap ts" "\<forall>(t, os) \<in> set ts. wf_gomap os" for a :: ID and ts
    by (rule distinct_concat_keys [where g = "fst \<circ> snd"]) (use that in \<open>auto simp: visits_sets [OF rs] simp del: map_map intro!: os\<close>)
  show ?thesis unfolding entries_def
    by (rule distinct_concat_keys [where g = fst]) (use wf ts in \<open>auto simp: visits_sets [OF rs] locked_wf_def\<close>)
qed

lemma sum_total_le:
  assumes "finite S" "\<And>k. k \<in> S \<Longrightarrow> f k = a"
  shows "(\<Sum>k \<in> S. total_amount key amt xs k) \<le> total_amount (\<lambda>x. f (key x)) amt xs a"
  by (induction xs) (use assms in \<open>auto simp: sum.distrib intro: add_mono\<close>)

lemma sum_total_ge:
  assumes "finite S" "\<And>x. x \<in> set xs \<Longrightarrow> f (key x) = a \<Longrightarrow> amt x \<noteq> 0 \<Longrightarrow> key x \<in> S"
  shows "total_amount (\<lambda>x. f (key x)) amt xs a \<le> (\<Sum>k \<in> S. total_amount key amt xs k)"
  using assms(2)
proof (induction xs)
  case (Cons x xs)
  then have "total_amount (\<lambda>x. f (key x)) amt xs a \<le> (\<Sum>k \<in> S. total_amount key amt xs k)" by simp
  moreover have "(if f (key x) = a then unat (amt x) else 0) \<le> (\<Sum>k \<in> S. if key x = k then unat (amt x) else 0)"
    using Cons.prems [of x] assms(1) by (cases "amt x = 0") auto
  ultimately show ?case by (simp add: sum.distrib add_mono)
qed simp

lemma total_amount_filter:
  "total_amount key amt (filter P xs) a + total_amount key amt (filter (\<lambda>x. \<not> P x) xs) a = total_amount key amt xs a"
  by (induction xs) auto

lemma total_amount_member: "x \<in> set xs \<Longrightarrow> amt x \<noteq> 0 \<Longrightarrow> total_amount key amt xs (key x) \<noteq> 0"
  by (induction xs) (auto simp: unat_gt_0)

lemma unlocked_loop_Inr: "unlocked_loop u m = Inr () \<longleftrightarrow> (\<forall>(a, v) \<in> set m. v \<le> amount_at u a)"
  by (induction u m rule: unlocked_loop.induct) auto

lemma entries_sum:
  assumes "visits_all rs" "locked_wf m"
  defines "es \<equiv> entries rs (range_assets rs m)"
  shows "(\<Sum>(k, v) \<leftarrow> es. if fst k = a then unat v - unat (locked_val c k) else 0)
    = (\<Sum>k \<in> {k \<in> fst ` set es. fst k = a}. unat (locked_val m k) - unat (locked_val c k))"
proof -
  have "(\<Sum>(k, v) \<leftarrow> es. if fst k = a then unat v - unat (locked_val c k) else 0)
      = (\<Sum>k \<leftarrow> map fst es. if fst k = a then unat (locked_val m k) - unat (locked_val c k) else 0)"
    unfolding map_map by (rule arg_cong [where f = sum_list], rule map_cong [OF refl])
      (auto simp: es_def dest: entries_val [OF assms(1, 2)])
  also have "\<dots> = (\<Sum>k \<in> fst ` set es. if fst k = a then unat (locked_val m k) - unat (locked_val c k) else 0)"
    using entries_distinct [OF assms(1, 2)] unfolding es_def by (subst sum_list_distinct_conv_sum_set) auto
  finally show ?thesis by (simp add: sum.inter_filter)
qed

lemma balance_sound:
  assumes rs: "visits_all rs" "locked_wf p" and ok: "balance_loop c (entries rs (range_assets rs p)) u = Inr u'"
    and c: "\<And>k. unat (locked_val c k) = total_amount key amt xs k"
    and p: "\<And>k. unat (locked_val p k) = total_amount key' amt' ys k"
  shows "unat (amount_at u' a) + total_amount (\<lambda>y. fst (key' y)) amt' ys a \<le> unat (amount_at u a) + total_amount (\<lambda>x. fst (key x)) amt xs a"
proof -
  let ?E = "{k \<in> fst ` set (entries rs (range_assets rs p)). fst k = a}"
  have "total_amount (\<lambda>y. fst (key' y)) amt' ys a \<le> (\<Sum>k \<in> ?E. total_amount key' amt' ys k)"
  proof (rule sum_total_ge)
    show "key' y \<in> ?E" if "y \<in> set ys" "fst (key' y) = a" "amt' y \<noteq> 0" for y
      using entries_complete [OF rs(1), of p "key' y"] total_amount_member [of y ys amt' key', OF that(1, 3)] p [of "key' y"] that(2) by fastforce
  qed simp
  also have "\<dots> \<le> (\<Sum>k \<in> ?E. (unat (locked_val p k) - unat (locked_val c k)) + unat (locked_val c k))"
    by (rule sum_mono) (simp add: p)
  also have "\<dots> = (\<Sum>k \<in> ?E. unat (locked_val p k) - unat (locked_val c k)) + (\<Sum>k \<in> ?E. total_amount key amt xs k)"
    by (simp only: sum.distrib c)
  also have "\<dots> \<le> (\<Sum>k \<in> ?E. unat (locked_val p k) - unat (locked_val c k)) + total_amount (\<lambda>x. fst (key x)) amt xs a"
    by (intro add_left_mono sum_total_le) auto
  finally show ?thesis using balance_loop_Inr [OF ok, of a] unfolding entries_sum [OF rs] by linarith
qed

lemma VerifySpendUTXOs_Inr:
  assumes "VerifySpendUTXOs env tx utxos ins outs creds p = Inr p'"
  shows "\<exists>u l lp u'. length ins = length creds \<and> length ins = length utxos
    \<and> consume_loop env tx (zip ins (zip utxos creds)) ([], []) = Inr (u, l) \<and> produce_loop env outs (p, []) = Inr (p', lp)
    \<and> balance_loop l (entries (env_ranges env) (range_assets (env_ranges env) lp)) u = Inr u' \<and> unlocked_loop u' p' = Inr ()"
  using assms by (auto simp: VerifySpendUTXOs_def res_bind_Inr_iff assets_loop_entries split: if_splits)

lemma zip_middle: "length ins = length creds \<Longrightarrow> length ins = length utxos \<Longrightarrow> map (fst \<circ> snd) (zip ins (zip utxos creds)) = utxos"
  by (simp flip: map_map)

definition worth_utxos :: "UTXO list \<Rightarrow> ID \<Rightarrow> nat" where
  "worth_utxos utxos = total_amount utxo_AssetID utxo_amount utxos"

lemma spend_balance:
  assumes ok: "VerifySpendUTXOs env tx utxos ins outs creds p = Inr p'" and rs: "visits_all (env_ranges env)" and wf: "wf_gomap p"
  shows "unat (amount_at p a) + worth_out outs a \<le> worth_utxos utxos a
    \<and> unat (amount_at p a) + worth_out (filter (\<lambda>out. output_lock out = 0) outs) a
        \<le> worth_utxos (filter (\<lambda>utxo. utxo_lock utxo \<le> env_now env) utxos) a"
proof -
  obtain u l lp u' where st: "length ins = length creds" "length ins = length utxos"
    "consume_loop env tx (zip ins (zip utxos creds)) ([], []) = Inr (u, l)" "produce_loop env outs (p, []) = Inr (p', lp)"
    "balance_loop l (entries (env_ranges env) (range_assets (env_ranges env) lp)) u = Inr u'" "unlocked_loop u' p' = Inr ()"
    using VerifySpendUTXOs_Inr [OF ok] by blast
  note c = consume_loop_Inr [OF st(3), unfolded zip_middle [OF st(1, 2)]] and q = produce_loop_Inr [OF st(4)]
  have [simp]: "locked_val [] k = 0" "locked_wf []" "amount_at [] a = 0" for k a
    by (auto simp: locked_val_def at_key_def amount_at_def locked_wf_def split: prod.splits)
  have "unat (amount_at u' a) + total_amount out_AssetID (\<lambda>out. out_Amount (Out out)) (filter (\<lambda>x. output_lock x \<noteq> 0) outs) a
     \<le> unat (amount_at u a) + total_amount utxo_AssetID utxo_amount (filter (\<lambda>x. \<not> utxo_lock x \<le> env_now env) utxos) a"
    using balance_sound [OF rs _ st(5), of "utxo_key env" utxo_amount "filter (\<lambda>x. \<not> utxo_lock x \<le> env_now env) utxos"
      "output_key env" "\<lambda>out. out_Amount (Out out)" "filter (\<lambda>x. output_lock x \<noteq> 0) outs" a] c q
    by (simp add: utxo_key_def output_key_def)
  moreover have "unat (amount_at p' a) \<le> unat (amount_at u' a)"
  proof (cases "map_of p' a")
    case (Some v)
    with st(6) show ?thesis by (auto simp: unlocked_loop_Inr amount_at_def word_le_nat_alt dest!: map_of_SomeD)
  qed (simp add: amount_at_def)
  moreover have "unat (amount_at u' a) \<le> unat (amount_at u a)" using balance_loop_Inr [OF st(5), of a] by linarith
  ultimately show ?thesis using c q
      total_amount_filter [of out_AssetID "\<lambda>out. out_Amount (Out out)" "\<lambda>x. output_lock x = 0" outs a]
      total_amount_filter [of utxo_AssetID utxo_amount "\<lambda>x. utxo_lock x \<le> env_now env" utxos a]
    by (simp add: worth_out_def worth_utxos_def)
qed

text \<open>(C3) Verification conserves every asset and keeps locked funds locked. When the handler accepts a transaction, the amount that its
  caller demands of an asset (the fee), together with all outputs of the asset, is at most the worth of the UTXOs that the
  transaction consumes; and the demand together with the outputs that are not locked is at most the worth of those consumed UTXOs
  whose lock time has passed. This holds in whatever order the run visits the entries of its maps.\<close>

theorem spend_conserves:
  assumes "VerifySpendUTXOs env tx utxos ins outs creds unlockedProduced = Inr unlockedProduced'"
    and "visits_all (env_ranges env)" and "wf_gomap unlockedProduced"
  shows "unat (amount_at unlockedProduced a) + worth_out outs a \<le> worth_utxos utxos a
    \<and> unat (amount_at unlockedProduced a) + worth_out (filter (\<lambda>out. output_lock out = 0) outs) a
      \<le> worth_utxos (filter (\<lambda>utxo. utxo_lock utxo \<le> env_now env) utxos) a"
  by (rule spend_balance [OF assms])

text \<open>Two UTXOs of one asset, one locked until time 200, at time 100: 3 of the fee and 4 without lock come from the unlocked 10, whose
  remaining 3 join the 20 that stay locked.\<close>

definition example_env :: spend_env where
  "example_env = \<lparr>env_now = 100, env_fx = \<lparr>fx_clock = 100, bootstrapped = True\<rparr>, env_hash = id, env_recover = \<lambda>h sig. Inr (tl sig),
     marshalOwner = \<lambda>o'. Some (concat (Addrs o')), hash256 = id, env_ranges = \<lparr>range_assets = id, range_times = rev, range_owners = id\<rparr>\<rparr>"

definition example_out :: "u64 \<Rightarrow> TransferOutput" where
  "example_out v = \<lparr>Locktime = 0, Threshold = 1, Addrs = [[1], [4]], out_Amt = v\<rparr>"

definition example_utxos :: "UTXO list" where
  "example_utxos = [\<lparr>utxo_UTXOID = \<lparr>utxo_TxID = [5], OutputIndex = 0\<rparr>, utxo_AssetID = [8], utxo_Out = S_Transferable (TransferOut (example_out 10))\<rparr>,
     \<lparr>utxo_UTXOID = \<lparr>utxo_TxID = [6], OutputIndex = 0\<rparr>, utxo_AssetID = [8], utxo_Out = S_Transferable (LockOut 200 (TransferOut (example_out 20)))\<rparr>]"

definition example_ins :: "TransferableInput list" where
  "example_ins = [\<lparr>in_UTXOID = \<lparr>utxo_TxID = [5], OutputIndex = 0\<rparr>, in_AssetID = [8], In = TransferIn \<lparr>SigIndices = [0], in_Amt = 10\<rparr>\<rparr>,
     \<lparr>in_UTXOID = \<lparr>utxo_TxID = [6], OutputIndex = 0\<rparr>, in_AssetID = [8], In = LockIn 200 (TransferIn \<lparr>SigIndices = [1], in_Amt = 20\<rparr>)\<rparr>]"

definition example_outs :: "TransferableOutput list" where
  "example_outs = [\<lparr>out_AssetID = [8], Out = TransferOut (example_out 4)\<rparr>, \<lparr>out_AssetID = [8], Out = LockOut 200 (TransferOut (example_out 23))\<rparr>]"

definition example_creds :: "Credential option list" where
  "example_creds = [Some \<lparr>Sigs = [[7, 1]]\<rparr>, Some \<lparr>Sigs = [[7, 4]]\<rparr>]"

lemma example_visits: "visits_all (env_ranges example_env)"
  by (simp add: visits_all_def example_env_def)

theorem spend_conserves_witness:
  "unat (amount_at [([8 :: u8], 3 :: u64)] [8]) + worth_out example_outs [8] \<le> worth_utxos example_utxos [8]
   \<and> worth_utxos example_utxos [8] = 30"
proof -
  have ok: "VerifySpendUTXOs example_env [3] example_utxos example_ins example_outs example_creds [([8], 3)] = Inr [([8], 7)]" by code_simp
  have "worth_utxos example_utxos [8] = 30" by code_simp
  with spend_conserves [OF ok example_visits, of "[8]"] show ?thesis by simp
qed

subsection \<open>Who may spend\<close>

lemma get_utxos_Inr: "get_utxos getUTXO inputID ins = Inr utxos \<Longrightarrow> list_all2 (\<lambda>i u. getUTXO (inputID (in_UTXOID i)) = Some u) ins utxos"
  by (induction ins arbitrary: utxos) (auto simp: res_bind_Inr_iff split: option.splits)

lemma unlock_in_Inr:
  assumes "unlock_in now t i = Inr (TransferIn i')"
  shows "in_Amount i = in_Amt i' \<and> (t \<le> now \<or> i = LockIn t (TransferIn i'))"
  using assms by (cases i) (auto split: if_splits)

text \<open>(C5) Only owners spend. When the handler accepts a transaction, every input names a UTXO of the database, of the asset and the
  amount that the input states; a UTXO that is still locked is named by an input that is marked with its lock time; the lock time of the
  owners has passed; and the credential of the input carries as many signatures as the output of the UTXO demands. If the feature extension
  is bootstrapped, they are the signatures of as many distinct owners; until then, while blocks are replayed, the code does not check
  the signatures.\<close>

theorem spend_authorized:
  assumes "VerifySpend getUTXO inputID env tx ins outs creds unlockedProduced = Inr unlockedProduced'"
  shows "list_all2 (\<lambda>input cred. \<exists>utxo out c. getUTXO (inputID (in_UTXOID input)) = Some utxo
      \<and> utxo_AssetID utxo = in_AssetID input \<and> fst (unlock_state (utxo_Out utxo)) = S_Transferable (TransferOut out)
      \<and> (utxo_lock utxo \<le> env_now env \<or> (\<exists>i. In input = LockIn (utxo_lock utxo) i))
      \<and> in_Amount (In input) = out_Amt out \<and> Locktime out \<le> fx_clock (env_fx env)
      \<and> cred = Some c \<and> of_nat (length (Sigs c)) = Threshold out
      \<and> (bootstrapped (env_fx env) \<longrightarrow> (\<exists>signers. distinct signers \<and> length signers = unat (Threshold out) \<and> set signers \<subseteq> set (Addrs out)
           \<and> map (env_recover env (env_hash env tx)) (Sigs c) = map Inr signers))) ins creds" (is "list_all2 ?P _ _")
proof -
  obtain utxos where got: "get_utxos getUTXO inputID ins = Inr utxos"
    and ok: "VerifySpendUTXOs env tx utxos ins outs creds unlockedProduced = Inr unlockedProduced'"
    using assms by (auto simp: VerifySpend_def res_bind_Inr_iff)
  from VerifySpendUTXOs_Inr [OF ok] obtain u l where len: "length ins = length creds" "length ins = length utxos"
    and loop: "consume_loop env tx (zip ins (zip utxos creds)) ([], []) = Inr (u, l)" by blast
  show ?thesis
  proof (rule list_all2_all_nthI)
    show "length ins = length creds" by fact
    fix n assume n: "n < length ins"
    have "(ins ! n, utxos ! n, creds ! n) \<in> set (zip ins (zip utxos creds))" using n len by (auto simp: set_zip)
    then have "input_allowed env tx (ins ! n) (utxos ! n) (creds ! n)" using consume_loop_Inr [OF loop] by blast
    then obtain i out where io: "utxo_AssetID (utxos ! n) = in_AssetID (ins ! n)" "unlock_in (env_now env) (utxo_lock (utxos ! n)) (In (ins ! n)) = Inr (TransferIn i)"
      "fst (unlock_state (utxo_Out (utxos ! n))) = S_Transferable (TransferOut out)"
      "fx_VerifySpend (env_hash env) (env_recover env) (env_fx env) tx (Some i) (creds ! n) (Some out) = Inr ()"
      unfolding input_allowed_def by blast
    have "getUTXO (inputID (in_UTXOID (ins ! n))) = Some (utxos ! n)" using list_all2_nthD [OF get_utxos_Inr [OF got] n] .
    moreover from spend_signers [OF io(4)] obtain c where c: "creds ! n = Some c" "in_Amt i = out_Amt out" "Locktime out \<le> fx_clock (env_fx env)"
      "of_nat (length (Sigs c)) = Threshold out"
      "bootstrapped (env_fx env) \<longrightarrow> (\<exists>signers. distinct signers \<and> length signers = unat (Threshold out) \<and> set signers \<subseteq> set (Addrs out)
         \<and> map (env_recover env (env_hash env tx)) (Sigs c) = map Inr signers)" by blast
    moreover from unlock_in_Inr [OF io(2)] c(2) have "utxo_lock (utxos ! n) \<le> env_now env \<or> (\<exists>i. In (ins ! n) = LockIn (utxo_lock (utxos ! n)) i)"
      "in_Amount (In (ins ! n)) = out_Amt out" by auto
    ultimately show "?P (ins ! n) (creds ! n)" using io(1,3) by blast
  qed
qed

theorem spend_authorized_witness:
  "\<exists>signers. distinct signers \<and> length signers = 1 \<and> set signers \<subseteq> {[1], [4 :: u8]} \<and> [Inr [4]] = (map Inr signers :: (fx_error + ShortID) list)"
proof -
  have ok: "VerifySpend (\<lambda>k. if k = [5] then Some (example_utxos ! 0) else Some (example_utxos ! 1)) utxo_TxID example_env [3] example_ins example_outs
      example_creds [([8], 3)] = Inr [([8], 7)]" by code_simp
  from spend_authorized [OF ok] show ?thesis
    by (auto simp: example_ins_def example_creds_def example_utxos_def example_out_def example_env_def)
qed

end
