(* ===== verification/Utxo_Spend.thy ===== *)
theory Utxo_Spend
  imports Utxo_Verify
begin

text \<open>
  Building the inputs and outputs that stake an amount and burn a fee: \<^verbatim>\<open>Spend\<close> and \<^verbatim>\<open>Authorize\<close> of
  \<^verbatim>\<open>vms/omegavm/utxo/handler.go\<close>, and the reading of the UTXOs of a set of addresses by
  \<^verbatim>\<open>vms/components/dione/utxo_fetching.go\<close>. The reader of UTXOs is a pair of functions; the sorting of the
  standard library is the arguments \<^verbatim>\<open>sortIns\<close> (inputs together with their signers) and \<^verbatim>\<open>sortOuts\<close>. The set of
  addresses is the list of its elements in ascending order, which is how the code walks it.
\<close>

subsection \<open>Reading the UTXOs of addresses\<close>

fun insert_addr :: "ShortID \<Rightarrow> ShortID list \<Rightarrow> ShortID list" where
  "insert_addr a [] = [a]"
| "insert_addr a (b # bs) = (if ShortID_Less a b then a # b # bs else if a = b then b # bs else b # insert_addr a bs)"

definition addrs_sorted :: "ShortID list \<Rightarrow> ShortID list" where
  "addrs_sorted addrs = foldr insert_addr addrs []"

record page =
  pg_utxos :: "UTXO list"
  pg_seen :: "ID set"
  pg_lastAddr :: ShortID
  pg_lastUTXOID :: ID
  pg_limit :: int

text \<open>The boolean tells that the limit is reached.\<close>

fun page_ids :: "(ID \<Rightarrow> UTXO option) \<Rightarrow> ID list \<Rightarrow> page \<Rightarrow> utxo_error + page \<times> bool" where
  "page_ids getUTXO [] pg = Inr (pg, False)"
| "page_ids getUTXO (utxoID # rest) pg =
     (let pg = pg\<lparr>pg_lastUTXOID := utxoID\<rparr> in
      if utxoID \<in> pg_seen pg then page_ids getUTXO rest pg
      else case getUTXO utxoID of
        None \<Rightarrow> Inl U_database
      | Some utxo \<Rightarrow>
          let pg = pg\<lparr>pg_utxos := pg_utxos pg @ [utxo], pg_seen := insert utxoID (pg_seen pg), pg_limit := pg_limit pg - 1\<rparr> in
          if pg_limit pg \<le> 0 then Inr (pg, True) else page_ids getUTXO rest pg)"

definition ids_Empty :: ID where
  "ids_Empty = replicate 32 0"

definition ids_ShortEmpty :: ShortID where
  "ids_ShortEmpty = replicate 20 0"

fun page_addrs :: "(ShortID \<Rightarrow> ID \<Rightarrow> int \<Rightarrow> ID list option) \<Rightarrow> (ID \<Rightarrow> UTXO option) \<Rightarrow> int \<Rightarrow> ShortID list \<Rightarrow> page \<Rightarrow> utxo_error + page" where
  "page_addrs utxoIDs getUTXO searchSize [] pg = Inr pg"
| "page_addrs utxoIDs getUTXO searchSize (addr # rest) pg =
     (if bytes_less addr (pg_lastAddr pg) then page_addrs utxoIDs getUTXO searchSize rest pg
      else
        let start = (if addr = pg_lastAddr pg then pg_lastUTXOID pg else ids_Empty) in
        case utxoIDs addr start searchSize of
          None \<Rightarrow> Inl U_database
        | Some utxoIDs' \<Rightarrow>
            res_bind (page_ids getUTXO utxoIDs' (pg\<lparr>pg_lastAddr := addr\<rparr>)) (\<lambda>(pg, full).
              if full then Inr pg else page_addrs utxoIDs getUTXO searchSize rest pg))"

definition GetPaginatedUTXOs :: "(ShortID \<Rightarrow> ID \<Rightarrow> int \<Rightarrow> ID list option) \<Rightarrow> (ID \<Rightarrow> UTXO option) \<Rightarrow> ShortID list \<Rightarrow> ShortID \<Rightarrow> ID \<Rightarrow> int
    \<Rightarrow> utxo_error + UTXO list \<times> ShortID \<times> ID" where
  "GetPaginatedUTXOs utxoIDs getUTXO addrs lastAddr lastUTXOID limit =
     res_bind (page_addrs utxoIDs getUTXO limit (addrs_sorted addrs)
        \<lparr>pg_utxos = [], pg_seen = {}, pg_lastAddr = lastAddr, pg_lastUTXOID = lastUTXOID, pg_limit = limit\<rparr>) (\<lambda>pg.
       Inr (pg_utxos pg, pg_lastAddr pg, pg_lastUTXOID pg))"

definition math_MaxInt :: int where
  "math_MaxInt = 2 ^ 63 - 1"

definition GetAllUTXOs :: "(ShortID \<Rightarrow> ID \<Rightarrow> int \<Rightarrow> ID list option) \<Rightarrow> (ID \<Rightarrow> UTXO option) \<Rightarrow> ShortID list \<Rightarrow> utxo_error + UTXO list" where
  "GetAllUTXOs utxoIDs getUTXO addrs =
     res_bind (GetPaginatedUTXOs utxoIDs getUTXO addrs ids_ShortEmpty ids_Empty math_MaxInt) (\<lambda>(utxos, _). Inr utxos)"

fun balance_of :: "UTXO list \<Rightarrow> u64 \<Rightarrow> utxo_error + u64" where
  "balance_of [] balance = Inr balance"
| "balance_of (utxo # utxos) balance =
     (case utxo_Out utxo of
        S_Transferable out \<Rightarrow>
          (case Add64 (out_Amount out) balance of Inl e \<Rightarrow> Inl (U_math e) | Inr balance \<Rightarrow> balance_of utxos balance)
      | S_Mint _ \<Rightarrow> balance_of utxos balance)"

definition GetBalance :: "(ShortID \<Rightarrow> ID \<Rightarrow> int \<Rightarrow> ID list option) \<Rightarrow> (ID \<Rightarrow> UTXO option) \<Rightarrow> ShortID list \<Rightarrow> utxo_error + u64" where
  "GetBalance utxoIDs getUTXO addrs = res_bind (GetAllUTXOs utxoIDs getUTXO addrs) (\<lambda>utxos. balance_of utxos 0)"

subsection \<open>Spending\<close>

record 'k spending =
  sp_ins :: "TransferableInput list"
  sp_returned :: "TransferableOutput list"
  sp_staked :: "TransferableOutput list"
  sp_signers :: "'k list list"
  amountStaked :: u64
  amountBurned :: u64

text \<open>One round of the loop that consumes locked UTXOs.\<close>

definition stake_utxo :: "ID \<Rightarrow> 'k Keychain \<Rightarrow> u64 \<Rightarrow> u64 \<Rightarrow> UTXO \<Rightarrow> 'k spending \<Rightarrow> 'k spending" where
  "stake_utxo dione kc now amount utxo st =
     (if utxo_AssetID utxo \<noteq> dione then st
      else case utxo_Out utxo of
        S_Transferable (LockOut locktime (TransferOut inner)) \<Rightarrow>
          if locktime \<le> now then st
          else (case kc_Spend kc (I_TransferOutput (Some inner)) now of
            Inr (I_TransferInput (Some i), inSigners) \<Rightarrow>
              let amountToStake = min (amount - amountStaked st) (in_Amt i); remainingValue = in_Amt i - amountToStake;
                  locked = (\<lambda>v. \<lparr>out_AssetID = dione, Out = LockOut locktime (TransferOut
                    \<lparr>Locktime = Locktime inner, Threshold = Threshold inner, Addrs = Addrs inner, out_Amt = v\<rparr>)\<rparr>)
              in st\<lparr>amountStaked := amountStaked st + amountToStake,
                    sp_ins := sp_ins st @ [\<lparr>in_UTXOID = utxo_UTXOID utxo, in_AssetID = dione, In = LockIn locktime (TransferIn i)\<rparr>],
                    sp_staked := sp_staked st @ [locked amountToStake],
                    sp_returned := sp_returned st @ (if remainingValue > 0 then [locked remainingValue] else []),
                    sp_signers := sp_signers st @ [inSigners]\<rparr>
          | _ \<Rightarrow> st)
      | _ \<Rightarrow> st)"

fun stake_loop :: "ID \<Rightarrow> 'k Keychain \<Rightarrow> u64 \<Rightarrow> u64 \<Rightarrow> UTXO list \<Rightarrow> 'k spending \<Rightarrow> 'k spending" where
  "stake_loop dione kc now amount [] st = st"
| "stake_loop dione kc now amount (utxo # utxos) st =
     (if amountStaked st \<ge> amount then st else stake_loop dione kc now amount utxos (stake_utxo dione kc now amount utxo st))"

text \<open>One round of the loop that consumes UTXOs that are not locked, or not any more.\<close>

definition burn_utxo :: "ID \<Rightarrow> 'k Keychain \<Rightarrow> u64 \<Rightarrow> u64 \<Rightarrow> u64 \<Rightarrow> ShortID \<Rightarrow> UTXO \<Rightarrow> 'k spending \<Rightarrow> 'k spending" where
  "burn_utxo dione kc now amount fee changeAddr utxo st =
     (if utxo_AssetID utxo \<noteq> dione then st
      else
        let (out, locktime) = unlock_state (utxo_Out utxo) in
        if locktime > now then st
        else (case kc_Spend kc (iface_state out) now of
          Inr (I_TransferInput (Some i), inSigners) \<Rightarrow>
            let amountToBurn = min (fee - amountBurned st) (in_Amt i); remainingValue = in_Amt i - amountToBurn;
                amountToStake = min (amount - amountStaked st) remainingValue; remainingValue = remainingValue - amountToStake;
                change = (\<lambda>v. \<lparr>out_AssetID = dione, Out = TransferOut \<lparr>Locktime = 0, Threshold = 1, Addrs = [changeAddr], out_Amt = v\<rparr>\<rparr>)
            in st\<lparr>amountBurned := amountBurned st + amountToBurn, amountStaked := amountStaked st + amountToStake,
                  sp_ins := sp_ins st @ [\<lparr>in_UTXOID = utxo_UTXOID utxo, in_AssetID = dione, In = TransferIn i\<rparr>],
                  sp_staked := sp_staked st @ (if amountToStake > 0 then [change amountToStake] else []),
                  sp_returned := sp_returned st @ (if remainingValue > 0 then [change remainingValue] else []),
                  sp_signers := sp_signers st @ [inSigners]\<rparr>
        | _ \<Rightarrow> st))"

fun burn_loop :: "ID \<Rightarrow> 'k Keychain \<Rightarrow> u64 \<Rightarrow> u64 \<Rightarrow> u64 \<Rightarrow> ShortID \<Rightarrow> UTXO list \<Rightarrow> 'k spending \<Rightarrow> 'k spending" where
  "burn_loop dione kc now amount fee changeAddr [] st = st"
| "burn_loop dione kc now amount fee changeAddr (utxo # utxos) st =
     (if amountBurned st \<ge> fee \<and> amountStaked st \<ge> amount then st
      else burn_loop dione kc now amount fee changeAddr utxos (burn_utxo dione kc now amount fee changeAddr utxo st))"

definition no_spending :: "'k spending" where
  "no_spending = \<lparr>sp_ins = [], sp_returned = [], sp_staked = [], sp_signers = [], amountStaked = 0, amountBurned = 0\<rparr>"

text \<open>What of the node and its libraries the function needs.\<close>

record 'k spender =
  DIONEAssetID :: ID
  clk :: u64
  key_address :: "'k \<Rightarrow> ShortID"
  key_eth :: "'k \<Rightarrow> u8 list"
  sortIns :: "(TransferableInput \<times> 'k list) list \<Rightarrow> (TransferableInput \<times> 'k list) list"
  sortOuts :: "TransferableOutput list \<Rightarrow> TransferableOutput list"

definition Spend :: "'k spender \<Rightarrow> (ShortID \<Rightarrow> ID \<Rightarrow> int \<Rightarrow> ID list option) \<Rightarrow> (ID \<Rightarrow> UTXO option) \<Rightarrow> 'k list \<Rightarrow> u64 \<Rightarrow> u64 \<Rightarrow> ShortID
    \<Rightarrow> utxo_error + TransferableInput list \<times> TransferableOutput list \<times> TransferableOutput list \<times> 'k list list" where
  "Spend h utxoIDs getUTXO keys amount fee changeAddr =
     res_bind (GetAllUTXOs utxoIDs getUTXO (map (key_address h) keys)) (\<lambda>utxos.
       let kc = NewKeychain (key_address h) (key_eth h) keys; now = clk h;
           st = burn_loop (DIONEAssetID h) kc now amount fee changeAddr utxos (stake_loop (DIONEAssetID h) kc now amount utxos no_spending)
       in if amountBurned st < fee \<or> amountStaked st < amount then Inl ErrInsufficientFunds
          else let ins = sortIns h (zip (sp_ins st) (sp_signers st))
               in Inr (map fst ins, sortOuts h (sp_returned st), sortOuts h (sp_staked st), map snd ins))"

text \<open>The owner of a subnet is a value that the state holds.\<close>

definition Authorize :: "'k spender \<Rightarrow> iface option \<Rightarrow> 'k list \<Rightarrow> utxo_error + Input \<times> 'k list" where
  "Authorize h subnetOwner keys =
     (case subnetOwner of
        None \<Rightarrow> Inl U_database
      | Some (I_OutputOwners (Some owner)) \<Rightarrow>
          (case kc_Match (NewKeychain (key_address h) (key_eth h) keys) owner (clk h) of
             (indices, signers, matches) \<Rightarrow> if \<not> matches then Inl errCantSign else Inr (\<lparr>SigIndices = indices\<rparr>, signers))
      | Some (I_OutputOwners None) \<Rightarrow> Inl (U_fx Fx_nil_pointer)
      | Some _ \<Rightarrow> Inl errNotOwned)"


section \<open>When the verification accepts\<close>

lemma Add64_fits: "unat a + unat b < 2 ^ 64 \<Longrightarrow> Add64 a b = Inr (a + b)"
  by (rule Add64_cases [of a b]) auto

lemma add_unlocked_fits: "unat (amount_at m a) + unat v < 2 ^ 64 \<Longrightarrow> \<exists>m'. add_unlocked m a v = Inr m'"
  by (simp add: add_unlocked_def Add64_fits)

lemma add_locked_fits: "unat (locked_val m (a, t, o')) + unat v < 2 ^ 64 \<Longrightarrow> \<exists>m'. add_locked m a t o' v = Inr m'"
  by (simp add: add_locked_def Add64_fits locked_val_def Let_def)

lemma consume_input_fits:
  assumes ok: "input_allowed env tx input utxo cred" "\<And>o'. marshalOwner env o' \<noteq> None"
    and fits: "utxo_lock utxo \<le> env_now env \<Longrightarrow> unat (amount_at u (utxo_AssetID utxo)) + unat (utxo_amount utxo) < 2 ^ 64"
      "\<not> utxo_lock utxo \<le> env_now env \<Longrightarrow> unat (locked_val l (utxo_key env utxo)) + unat (utxo_amount utxo) < 2 ^ 64"
  shows "\<exists>u' l'. consume_input env tx input utxo cred (u, l) = Inr (u', l')"
proof -
  obtain i out where io: "utxo_AssetID utxo = in_AssetID input" "unlock_in (env_now env) (utxo_lock utxo) (In input) = Inr (TransferIn i)"
    "fst (unlock_state (utxo_Out utxo)) = S_Transferable (TransferOut out)"
    "fx_VerifySpend (env_hash env) (env_recover env) (env_fx env) tx (Some i) cred (Some out) = Inr ()"
    using ok(1) unfolding input_allowed_def by blast
  then have us: "unlock_state (utxo_Out utxo) = (S_Transferable (TransferOut out), utxo_lock utxo)" by (simp add: utxo_lock_def prod_eq_iff)
  have amt: "in_Amt i = utxo_amount utxo" using io(4) unlocked_amount [OF io(3)] by (auto simp: fx_VerifySpend_iff)
  have vt: "VerifyTransfer (env_hash env) (env_recover env) (env_fx env) (I_Tx tx) (I_TransferInput (Some i)) (I_Credential cred) (I_TransferOutput (Some out)) = Inr ()"
    using io(4) by (simp add: VerifyTransfer_iff)
  obtain k where k: "ownerID_of env (S_Transferable (TransferOut out)) = Inr k" using ok(2) [of "owners_of out"] by auto
  then have key: "utxo_key env utxo = (in_AssetID input, utxo_lock utxo, k)" using io(1, 3) by (simp add: utxo_key_def owner_key_def)
  show ?thesis
  proof (cases "utxo_lock utxo \<le> env_now env")
    case True
    then obtain m where "add_unlocked u (in_AssetID input) (utxo_amount utxo) = Inr m" using add_unlocked_fits [OF fits(1)] io(1) by auto
    with True io(1, 2) us vt amt show ?thesis by (simp add: consume_input_def)
  next
    case False
    then obtain m where "add_locked l (in_AssetID input) (utxo_lock utxo) k (utxo_amount utxo) = Inr m"
      using add_locked_fits [OF fits(2) [unfolded key]] by auto
    with False io(1, 2) us vt amt k show ?thesis by (simp add: consume_input_def)
  qed
qed

lemma consume_loop_fits:
  assumes ok: "\<forall>(input, utxo, cred) \<in> set xs. input_allowed env tx input utxo cred" "\<And>o'. marshalOwner env o' \<noteq> None"
    and fits: "\<And>a. unat (amount_at u a) + total_amount utxo_AssetID utxo_amount (filter (\<lambda>x. utxo_lock x \<le> env_now env) (map (fst \<circ> snd) xs)) a < 2 ^ 64"
      "\<And>k. unat (locked_val l k) + total_amount (utxo_key env) utxo_amount (filter (\<lambda>x. \<not> utxo_lock x \<le> env_now env) (map (fst \<circ> snd) xs)) k < 2 ^ 64"
  shows "\<exists>u' l'. consume_loop env tx xs (u, l) = Inr (u', l')"
  using ok(1) fits
proof (induction xs arbitrary: u l)
  case (Cons x xs)
  obtain input utxo cred where x: "x = (input, utxo, cred)" by (cases x)
  have "\<exists>u' l'. consume_input env tx input utxo cred (u, l) = Inr (u', l')"
  proof (rule consume_input_fits [OF _ ok(2)])
    show "input_allowed env tx input utxo cred" using Cons.prems(1) x by simp
  qed (use Cons.prems(2) [of "utxo_AssetID utxo"] Cons.prems(3) [of "utxo_key env utxo"] x in simp_all)
  then obtain u1 l1 where 1: "consume_input env tx input utxo cred (u, l) = Inr (u1, l1)" by blast
  have "\<exists>u' l'. consume_loop env tx xs (u1, l1) = Inr (u', l')"
  proof (rule Cons.IH)
    show "\<forall>(input, utxo, cred) \<in> set xs. input_allowed env tx input utxo cred" using Cons.prems(1) by simp
    have "consume_loop env tx [x] (u, l) = Inr (u1, l1)" using 1 x by simp
    note step = consume_loop_Inr [OF this, THEN conjunct2]
    have us: "map (fst \<circ> snd) (x # xs) = utxo # map (fst \<circ> snd) xs" "map (fst \<circ> snd) [x] = [utxo]" by (simp_all add: x)
    show "unat (amount_at u1 a) + total_amount utxo_AssetID utxo_amount (filter (\<lambda>x. utxo_lock x \<le> env_now env) (map (fst \<circ> snd) xs)) a < 2 ^ 64" for a
      using Cons.prems(2) [of a, unfolded us] step [THEN conjunct1, THEN spec, of a, unfolded us] by (auto simp del: map_map split: if_splits)
    show "unat (locked_val l1 k) + total_amount (utxo_key env) utxo_amount (filter (\<lambda>x. \<not> utxo_lock x \<le> env_now env) (map (fst \<circ> snd) xs)) k < 2 ^ 64" for k
      using Cons.prems(3) [of k, unfolded us] step [THEN conjunct2, THEN spec, of k, unfolded us] by (auto simp del: map_map split: if_splits)
  qed
  with 1 x show ?case by simp
qed simp

definition out_plain :: "TransferableOut \<Rightarrow> bool" where
  "out_plain out \<longleftrightarrow> (\<exists>o'. fst (unlock_out out) = TransferOut o')"

lemma produce_output_fits:
  assumes ok: "out_plain (Out out)" "\<And>o'. marshalOwner env o' \<noteq> None"
    and fits: "output_lock out = 0 \<Longrightarrow> unat (amount_at u (out_AssetID out)) + unat (out_Amount (Out out)) < 2 ^ 64"
      "output_lock out \<noteq> 0 \<Longrightarrow> unat (locked_val l (output_key env out)) + unat (out_Amount (Out out)) < 2 ^ 64"
  shows "\<exists>u' l'. produce_output env out (u, l) = Inr (u', l')"
proof -
  obtain o' where o: "unlock_out (Out out) = (TransferOut o', output_lock out)" using ok(1) by (auto simp: out_plain_def output_lock_def prod_eq_iff)
  have amt: "out_Amt o' = out_Amount (Out out)" using unlock_out_amount [of "Out out"] o by simp
  obtain k where k: "ownerID_of env (S_Transferable (TransferOut o')) = Inr k" using ok(2) [of "owners_of o'"] by auto
  then have key: "output_key env out = (out_AssetID out, output_lock out, k)" using o by (simp add: output_key_def owner_key_def)
  show ?thesis
  proof (cases "output_lock out = 0")
    case True
    with add_unlocked_fits [OF fits(1)] o amt show ?thesis by (auto simp: produce_output_def)
  next
    case False
    with add_locked_fits [OF fits(2) [unfolded key]] o amt k show ?thesis by (auto simp: produce_output_def)
  qed
qed

lemma produce_loop_fits:
  assumes ok: "\<forall>out \<in> set outs. out_plain (Out out)" "\<And>o'. marshalOwner env o' \<noteq> None"
    and fits: "\<And>a. unat (amount_at u a) + total_amount out_AssetID (\<lambda>out. out_Amount (Out out)) (filter (\<lambda>x. output_lock x = 0) outs) a < 2 ^ 64"
      "\<And>k. unat (locked_val l k) + total_amount (output_key env) (\<lambda>out. out_Amount (Out out)) (filter (\<lambda>x. output_lock x \<noteq> 0) outs) k < 2 ^ 64"
  shows "\<exists>u' l'. produce_loop env outs (u, l) = Inr (u', l')"
  using ok(1) fits
proof (induction outs arbitrary: u l)
  case (Cons out outs)
  have "\<exists>u' l'. produce_output env out (u, l) = Inr (u', l')"
    by (rule produce_output_fits [OF _ ok(2)])
      (use Cons.prems(1) Cons.prems(2) [of "out_AssetID out"] Cons.prems(3) [of "output_key env out"] in simp_all)
  then obtain u1 l1 where 1: "produce_output env out (u, l) = Inr (u1, l1)" by blast
  have "\<exists>u' l'. produce_loop env outs (u1, l1) = Inr (u', l')"
  proof (rule Cons.IH)
    show "\<forall>out \<in> set outs. out_plain (Out out)" using Cons.prems(1) by simp
    have "produce_loop env [out] (u, l) = Inr (u1, l1)" using 1 by simp
    note step = produce_loop_Inr [OF this]
    show "unat (amount_at u1 a) + total_amount out_AssetID (\<lambda>out. out_Amount (Out out)) (filter (\<lambda>x. output_lock x = 0) outs) a < 2 ^ 64" for a
      using Cons.prems(2) [of a] step [THEN conjunct1, THEN spec, of a] by (auto split: if_splits)
    show "unat (locked_val l1 k) + total_amount (output_key env) (\<lambda>out. out_Amount (Out out)) (filter (\<lambda>x. output_lock x \<noteq> 0) outs) k < 2 ^ 64" for k
      using Cons.prems(3) [of k] step [THEN conjunct2, THEN conjunct1, THEN spec, of k] by (auto split: if_splits)
  qed
  with 1 show ?case by simp
qed simp

lemma balance_loop_even: "(\<And>k v. (k, v) \<in> set es \<Longrightarrow> v \<le> locked_val c k) \<Longrightarrow> balance_loop c es u = Inr u"
  by (induction es) (fastforce simp: linorder_not_less)+

text \<open>What outputs lock and leave open, and what UTXOs do.\<close>

definition locked_outs :: "spend_env \<Rightarrow> TransferableOutput list \<Rightarrow> ID \<times> u64 \<times> ID \<Rightarrow> nat" where
  "locked_outs env outs = total_amount (output_key env) (\<lambda>out. out_Amount (Out out)) (filter (\<lambda>x. output_lock x \<noteq> 0) outs)"

definition open_outs :: "TransferableOutput list \<Rightarrow> ID \<Rightarrow> nat" where
  "open_outs outs = total_amount out_AssetID (\<lambda>out. out_Amount (Out out)) (filter (\<lambda>x. output_lock x = 0) outs)"

definition locked_utxos :: "spend_env \<Rightarrow> UTXO list \<Rightarrow> ID \<times> u64 \<times> ID \<Rightarrow> nat" where
  "locked_utxos env utxos = total_amount (utxo_key env) utxo_amount (filter (\<lambda>x. \<not> utxo_lock x \<le> env_now env) utxos)"

definition open_utxos :: "spend_env \<Rightarrow> UTXO list \<Rightarrow> ID \<Rightarrow> nat" where
  "open_utxos env utxos = total_amount utxo_AssetID utxo_amount (filter (\<lambda>x. utxo_lock x \<le> env_now env) utxos)"

lemmas worth_defs = locked_outs_def open_outs_def locked_utxos_def open_utxos_def worth_out_def worth_utxos_def

lemma worth_append:
  "locked_outs env (xs @ ys) k = locked_outs env xs k + locked_outs env ys k" "open_outs (xs @ ys) a = open_outs xs a + open_outs ys a"
  "locked_utxos env (us @ vs) k = locked_utxos env us k + locked_utxos env vs k" "open_utxos env (us @ vs) a = open_utxos env us a + open_utxos env vs a"
  "worth_out (xs @ ys) a = worth_out xs a + worth_out ys a" "worth_utxos (us @ vs) a = worth_utxos us a + worth_utxos vs a"
  by (simp_all add: worth_defs)

lemma worth_Nil [simp]:
  "locked_outs env [] k = 0" "open_outs [] a = 0" "locked_utxos env [] k = 0" "open_utxos env [] a = 0" "worth_out [] a = 0" "worth_utxos [] a = 0"
  by (simp_all add: worth_defs)

lemma total_amount_mset:
  assumes "mset xs = mset ys"
  shows "total_amount key amt xs k = total_amount key amt ys k"
proof -
  have "mset (map (\<lambda>x. if key x = k then unat (amt x) else 0) xs) = mset (map (\<lambda>x. if key x = k then unat (amt x) else 0) ys)"
    using assms by simp
  from arg_cong [where f = sum_mset, OF this] show ?thesis by (simp only: total_amount_def sum_mset_sum_list)
qed

lemma worth_mset:
  assumes "mset outs = mset outs'"
  shows "locked_outs env outs k = locked_outs env outs' k" "open_outs outs a = open_outs outs' a" "worth_out outs a = worth_out outs' a"
  using assms unfolding worth_defs by (auto intro!: total_amount_mset)

lemma utxos_mset:
  assumes "mset utxos = mset utxos'"
  shows "locked_utxos env utxos k = locked_utxos env utxos' k" "open_utxos env utxos a = open_utxos env utxos' a" "worth_utxos utxos a = worth_utxos utxos' a"
  using assms unfolding worth_defs by (auto intro!: total_amount_mset)

lemma open_utxos_le: "open_utxos env utxos a \<le> worth_utxos utxos a"
  using total_amount_filter [of utxo_AssetID utxo_amount "\<lambda>x. utxo_lock x \<le> env_now env" utxos a] by (simp add: worth_defs)

lemma locked_utxos_le: "locked_utxos env utxos k \<le> worth_utxos utxos (fst k)"
proof -
  have "locked_utxos env utxos k \<le> total_amount utxo_AssetID utxo_amount (filter (\<lambda>x. \<not> utxo_lock x \<le> env_now env) utxos) (fst k)"
    using sum_total_le [of "{k}" fst "fst k" "utxo_key env" utxo_amount "filter (\<lambda>x. \<not> utxo_lock x \<le> env_now env) utxos"]
    by (simp add: worth_defs utxo_key_def)
  then show ?thesis
    using total_amount_filter [of utxo_AssetID utxo_amount "\<lambda>x. utxo_lock x \<le> env_now env" utxos "fst k"] by (simp add: worth_defs)
qed

lemma verify_All_creds: "None \<notin> set creds \<Longrightarrow> verify_All (map Credential_Verify creds) = Inr ()"
proof (induction creds)
  case (Cons c creds)
  then show ?case by (cases c) auto
qed simp

text \<open>A transaction whose inputs are allowed, that keeps what is locked and whose unlocked demand is covered, is accepted.\<close>

lemma VerifySpendUTXOs_fits:
  assumes len: "length ins = length creds" "length ins = length utxos" and creds: "None \<notin> set creds"
    and ok: "\<forall>(input, utxo, cred) \<in> set (zip ins (zip utxos creds)). input_allowed env tx input utxo cred"
    and env: "\<And>o'. marshalOwner env o' \<noteq> None" "visits_all (env_ranges env)" and wf: "wf_gomap p"
    and outs: "\<forall>out \<in> set outs. out_plain (Out out)" and fits: "\<And>a. worth_utxos utxos a < 2 ^ 64"
    and locked: "\<And>k. locked_outs env outs k = locked_utxos env utxos k"
    and open': "\<And>a. unat (amount_at p a) + open_outs outs a \<le> open_utxos env utxos a"
  shows "\<exists>p'. VerifySpendUTXOs env tx utxos ins outs creds p = Inr p'"
proof -
  have [simp]: "locked_val [] k = 0" "locked_wf []" "amount_at [] a = 0" for k a
    by (auto simp: locked_val_def at_key_def amount_at_def locked_wf_def split: prod.splits)
  have o: "open_utxos env utxos a < 2 ^ 64" "locked_utxos env utxos k < 2 ^ 64" for a k
    using fits open_utxos_le locked_utxos_le le_less_trans by blast+
  obtain u l where c: "consume_loop env tx (zip ins (zip utxos creds)) ([], []) = Inr (u, l)"
    using consume_loop_fits [OF ok env(1), of "[]" "[]"] o unfolding zip_middle [OF len] worth_defs by auto
  have "unat (amount_at p a) + open_outs outs a < 2 ^ 64" for a using open' [of a] o(1) [of a] by linarith
  then obtain p' lp where q: "produce_loop env outs (p, []) = Inr (p', lp)"
    using produce_loop_fits [OF outs env(1), of p "[]"] o(2) locked unfolding worth_defs by auto
  note c' = consume_loop_Inr [OF c, unfolded zip_middle [OF len]] and q' = produce_loop_Inr [OF q]
  have "unat (locked_val lp k) = unat (locked_val l k)" for k
    using c' [THEN conjunct2, THEN conjunct2, THEN spec, of k] q' [THEN conjunct2, THEN conjunct1, THEN spec, of k] locked [of k] by (simp add: worth_defs)
  then have even: "locked_val lp k = locked_val l k" for k by (simp only: word_unat_eq_iff)
  have lp: "locked_wf lp" using q' by simp
  have "balance_loop l (entries (env_ranges env) (range_assets (env_ranges env) lp)) u = Inr u"
    by (rule balance_loop_even) (auto dest!: entries_val [OF env(2) lp] simp: even)
  moreover have "unlocked_loop u p' = Inr ()" unfolding unlocked_loop_Inr
  proof clarify
    fix a v
    assume "(a, v) \<in> set p'"
    then have "amount_at p' a = v" using q' wf by (simp add: amount_at_entry)
    with c' q' open' [of a] show "v \<le> amount_at u a" by (auto simp: worth_defs word_le_nat_alt)
  qed
  ultimately have "VerifySpendUTXOs env tx utxos ins outs creds p = Inr p'"
    using len c q verify_All_creds [OF creds] by (simp add: VerifySpendUTXOs_def assets_loop_entries)
  then show ?thesis ..
qed


section \<open>What is built\<close>

text \<open>The invariant of the two loops. The argument \<^verbatim>\<open>look\<close> is the UTXO that an input names and \<^verbatim>\<open>cred\<close> the credential that
  signers make.\<close>

definition built :: "spend_env \<Rightarrow> u8 list \<Rightarrow> (TransferableInput \<Rightarrow> UTXO) \<Rightarrow> ('k list \<Rightarrow> Credential option) \<Rightarrow> ID \<Rightarrow> u64 \<Rightarrow> u64 \<Rightarrow> 'k spending \<Rightarrow> bool" where
  "built env tx look cred dione amount fee st \<longleftrightarrow>
     length (sp_ins st) = length (sp_signers st)
     \<and> (\<forall>(i, s) \<in> set (zip (sp_ins st) (sp_signers st)). input_allowed env tx i (look i) (cred s))
     \<and> (\<forall>out \<in> set (sp_returned st @ sp_staked st). out_plain (Out out))
     \<and> (\<forall>k. locked_outs env (sp_returned st @ sp_staked st) k = locked_utxos env (map look (sp_ins st)) k)
     \<and> (\<forall>a. open_outs (sp_returned st @ sp_staked st) a + (if a = dione then unat (amountBurned st) else 0) = open_utxos env (map look (sp_ins st)) a)
     \<and> (\<forall>a. worth_out (sp_returned st @ sp_staked st) a + (if a = dione then unat (amountBurned st) else 0) = worth_utxos (map look (sp_ins st)) a)
     \<and> (\<forall>a. worth_out (sp_staked st) a = (if a = dione then unat (amountStaked st) else 0))
     \<and> (\<forall>i \<in> set (sp_ins st). in_UTXOID i = utxo_UTXOID (look i))
     \<and> amountStaked st \<le> amount \<and> amountBurned st \<le> fee"

lemma built_step:
  assumes st: "built env tx look cred dione amount fee st"
    and st': "sp_ins st' = sp_ins st @ [i]" "sp_signers st' = sp_signers st @ [s]" "sp_returned st' = sp_returned st @ ret" "sp_staked st' = sp_staked st @ stk"
      "unat (amountStaked st') = unat (amountStaked st) + v" "unat (amountBurned st') = unat (amountBurned st) + b" "amountStaked st' \<le> amount" "amountBurned st' \<le> fee"
    and i: "input_allowed env tx i (look i) (cred s)" "in_UTXOID i = utxo_UTXOID (look i)" and outs: "\<forall>out \<in> set (ret @ stk). out_plain (Out out)"
    and locked: "\<And>k. locked_outs env (ret @ stk) k = locked_utxos env [look i] k"
    and open': "\<And>a. open_outs (ret @ stk) a + (if a = dione then b else 0) = open_utxos env [look i] a"
    and all: "\<And>a. worth_out (ret @ stk) a + (if a = dione then b else 0) = worth_utxos [look i] a"
    and staked: "\<And>a. worth_out stk a = (if a = dione then v else 0)"
  shows "built env tx look cred dione amount fee st'"
proof -
  note inv = st [unfolded built_def]
  have "locked_outs env (sp_returned st' @ sp_staked st') k = locked_utxos env (map look (sp_ins st')) k" for k
    using inv [THEN conjunct2, THEN conjunct2, THEN conjunct2, THEN conjunct1, THEN spec, of k] locked [of k] by (simp add: st' worth_append)
  moreover have "open_outs (sp_returned st' @ sp_staked st') a + (if a = dione then unat (amountBurned st') else 0) = open_utxos env (map look (sp_ins st')) a" for a
    using inv [THEN conjunct2, THEN conjunct2, THEN conjunct2, THEN conjunct2, THEN conjunct1, THEN spec, of a] open' [of a]
    by (simp add: st' worth_append split: if_splits)
  moreover have "worth_out (sp_returned st' @ sp_staked st') a + (if a = dione then unat (amountBurned st') else 0) = worth_utxos (map look (sp_ins st')) a" for a
    using inv [THEN conjunct2, THEN conjunct2, THEN conjunct2, THEN conjunct2, THEN conjunct2, THEN conjunct1, THEN spec, of a] all [of a]
    by (simp add: st' worth_append split: if_splits)
  ultimately show ?thesis using inv i outs staked unfolding built_def by (auto simp: st' worth_append)
qed

text \<open>A UTXO that the database knows by its identifier and whose output is well formed.\<close>

definition usable :: "(TransferableInput \<Rightarrow> UTXO) \<Rightarrow> UTXO \<Rightarrow> bool" where
  "usable look utxo \<longleftrightarrow> (\<forall>i. in_UTXOID i = utxo_UTXOID utxo \<longrightarrow> look i = utxo)
     \<and> (\<forall>out. fst (unlock_state (utxo_Out utxo)) = S_Transferable (TransferOut out)
          \<longrightarrow> TransferOutput_Verify (Some out) = Inr () \<and> length (Addrs out) < 2 ^ 32)"

text \<open>A keychain whose inputs the verification accepts.\<close>

definition signs :: "spend_env \<Rightarrow> u8 list \<Rightarrow> 'k Keychain \<Rightarrow> ('k list \<Rightarrow> Credential option) \<Rightarrow> bool" where
  "signs env tx kc cred \<longleftrightarrow> (\<forall>out i s. TransferOutput_Verify (Some out) = Inr () \<longrightarrow> length (Addrs out) < 2 ^ 32
     \<longrightarrow> kc_Spend kc (I_TransferOutput (Some out)) (env_now env) = Inr (I_TransferInput (Some i), s)
     \<longrightarrow> fx_VerifySpend (env_hash env) (env_recover env) (env_fx env) tx (Some i) (cred s) (Some out) = Inr ())"

lemma word_take:
  fixes bound taken x :: u64
  assumes "taken \<le> bound"
  shows "unat (taken + min (bound - taken) x) = unat taken + unat (min (bound - taken) x)" "taken + min (bound - taken) x \<le> bound"
    "unat (x - min (bound - taken) x) + unat (min (bound - taken) x) = unat x"
proof -
  have m: "unat (min (bound - taken) x) \<le> unat bound - unat taken" using assms by (simp add: min_def word_le_nat_alt unat_sub)
  then have "unat taken + unat (min (bound - taken) x) \<le> unat bound" using assms by (simp add: word_le_nat_alt)
  moreover from this have "unat taken + unat (min (bound - taken) x) < 2 ^ 64" using unsigned_less [of bound, where ?'a = nat] by simp
  ultimately show s: "unat (taken + min (bound - taken) x) = unat taken + unat (min (bound - taken) x)" by (simp add: unat_add_lem [THEN iffD1])
  then show "taken + min (bound - taken) x \<le> bound" using m assms by (simp add: word_le_nat_alt)
  have "min (bound - taken) x \<le> x" by simp
  then show "unat (x - min (bound - taken) x) + unat (min (bound - taken) x) = unat x" by (simp add: unat_sub word_le_nat_alt)
qed

lemma single_output:
  "locked_outs env [out] k = (if output_lock out \<noteq> 0 \<and> output_key env out = k then unat (out_Amount (Out out)) else 0)"
  "open_outs [out] a = (if output_lock out = 0 \<and> out_AssetID out = a then unat (out_Amount (Out out)) else 0)"
  "worth_out [out] a = (if out_AssetID out = a then unat (out_Amount (Out out)) else 0)"
  by (auto simp: worth_defs)

lemma single_utxo:
  "locked_utxos env [utxo] k = (if \<not> utxo_lock utxo \<le> env_now env \<and> utxo_key env utxo = k then unat (utxo_amount utxo) else 0)"
  "open_utxos env [utxo] a = (if utxo_lock utxo \<le> env_now env \<and> utxo_AssetID utxo = a then unat (utxo_amount utxo) else 0)"
  "worth_utxos [utxo] a = (if utxo_AssetID utxo = a then unat (utxo_amount utxo) else 0)"
  by (auto simp: worth_defs)

lemma optional_output:
  assumes "out_Amount (Out out) = v"
  shows "worth_out (if 0 < v then [out] else []) a = (if out_AssetID out = a then unat v else 0)"
    "open_outs (if 0 < v then [out] else []) a = (if output_lock out = 0 \<and> out_AssetID out = a then unat v else 0)"
    "locked_outs env (if 0 < v then [out] else []) k = (if output_lock out \<noteq> 0 \<and> output_key env out = k then unat v else 0)"
  using assms by (cases "v = 0"; simp add: single_output flip: word_neq_0_conv)+

lemma stake_utxo_built:
  assumes st: "built env tx look cred dione amount fee st" and kc: "signs env tx kc cred" and utxo: "usable look utxo"
  defines "st' \<equiv> stake_utxo dione kc (env_now env) amount utxo st"
  shows "st' = st \<or> built env tx look cred dione amount fee st' \<and> map look (sp_ins st') = map look (sp_ins st) @ [utxo] \<and> \<not> utxo_lock utxo \<le> env_now env"
proof (cases "st' = st")
  case False
  then obtain t inner i s where u: "utxo_AssetID utxo = dione" "utxo_Out utxo = S_Transferable (LockOut t (TransferOut inner))" "\<not> t \<le> env_now env"
    "kc_Spend kc (I_TransferOutput (Some inner)) (env_now env) = Inr (I_TransferInput (Some i), s)"
    unfolding st'_def stake_utxo_def by (auto split: if_splits State.splits TransferableOut.splits sum.splits prod.splits iface.splits option.splits)
  have lock: "utxo_lock utxo = t" "utxo_amount utxo = out_Amt inner" "fst (unlock_state (utxo_Out utxo)) = S_Transferable (TransferOut inner)"
    using u(2) by (simp_all add: utxo_lock_def utxo_amount_def)
  then have ok: "fx_VerifySpend (env_hash env) (env_recover env) (env_fx env) tx (Some i) (cred s) (Some inner) = Inr ()"
    using kc utxo u(4) unfolding signs_def usable_def by blast
  have amt: "in_Amt i = out_Amt inner" using ok by (auto simp: fx_VerifySpend_iff)
  let ?i = "\<lparr>in_UTXOID = utxo_UTXOID utxo, in_AssetID = dione, In = LockIn t (TransferIn i)\<rparr>"
  let ?mk = "\<lambda>v. \<lparr>out_AssetID = dione, Out = LockOut t (TransferOut \<lparr>Locktime = Locktime inner, Threshold = Threshold inner, Addrs = Addrs inner, out_Amt = v\<rparr>)\<rparr>"
  let ?v = "min (amount - amountStaked st) (in_Amt i)"
  let ?ret = "if in_Amt i - ?v > 0 then [?mk (in_Amt i - ?v)] else []"
  have look: "look ?i = utxo" using utxo by (simp add: usable_def)
  have t0: "t \<noteq> 0" using u(3) by auto
  have mk: "output_lock (?mk v) = t" "output_key env (?mk v) = utxo_key env utxo" for v
    using u(1) lock by (simp_all add: output_lock_def output_key_def utxo_key_def owner_key_def owners_of_def)
  note take = word_take [of "amountStaked st" amount "in_Amt i"]
  have le: "amountStaked st \<le> amount" "amountBurned st \<le> fee" using st by (simp_all add: built_def)
  have fields: "sp_ins st' = sp_ins st @ [?i]" "sp_signers st' = sp_signers st @ [s]" "sp_returned st' = sp_returned st @ ?ret" "sp_staked st' = sp_staked st @ [?mk ?v]"
    "amountStaked st' = amountStaked st + ?v" "amountBurned st' = amountBurned st"
    unfolding st'_def stake_utxo_def using u by (simp_all add: Let_def)
  have "built env tx look cred dione amount fee st'"
  proof (rule built_step [OF st fields(1-4)])
    show "unat (amountStaked st') = unat (amountStaked st) + unat ?v" "unat (amountBurned st') = unat (amountBurned st) + 0"
      "amountStaked st' \<le> amount" "amountBurned st' \<le> fee" using take [OF le(1)] le fields(5, 6) by simp_all
    show "input_allowed env tx ?i (look ?i) (cred s)" unfolding look input_allowed_def using u lock ok by simp
    show "in_UTXOID ?i = utxo_UTXOID (look ?i)" unfolding look by simp
    show "\<forall>out \<in> set (?ret @ [?mk ?v]). out_plain (Out out)" by (simp add: out_plain_def)
    show "locked_outs env (?ret @ [?mk ?v]) k = locked_utxos env [look ?i] k" for k
      using take(3) [OF le(1)] amt u(3) lock t0 unfolding look worth_append single_utxo by (subst optional_output(3)) (auto simp: single_output mk)
    show "open_outs (?ret @ [?mk ?v]) a + (if a = dione then 0 else 0) = open_utxos env [look ?i] a" for a
      using u(3) lock(1) t0 unfolding look worth_append single_utxo by (subst optional_output(2)) (auto simp: single_output mk)
    show "worth_out (?ret @ [?mk ?v]) a + (if a = dione then 0 else 0) = worth_utxos [look ?i] a" for a
      using take(3) [OF le(1)] amt u(1) lock unfolding look worth_append single_utxo by (subst optional_output(1)) (auto simp: single_output)
    show "worth_out [?mk ?v] a = (if a = dione then unat ?v else 0)" for a by (simp add: single_output)
  qed
  then show ?thesis using u(3) lock(1) look fields(1) by simp
qed simp

lemma kc_Spend_transfer:
  "kc_Spend kc (iface_state out) now = Inr (I_TransferInput (Some i), s) \<Longrightarrow> \<exists>o'. out = S_Transferable (TransferOut o')"
  by (cases out rule: iface_state.cases) (auto simp: kc_Spend_def split: prod.splits if_splits)

lemma burn_utxo_built:
  fixes changeAddr :: ShortID
  assumes st: "built env tx look cred dione amount fee st" and kc: "signs env tx kc cred" and utxo: "usable look utxo"
  defines "st' \<equiv> burn_utxo dione kc (env_now env) amount fee changeAddr utxo st"
  shows "st' = st \<or> built env tx look cred dione amount fee st' \<and> map look (sp_ins st') = map look (sp_ins st) @ [utxo] \<and> utxo_lock utxo \<le> env_now env"
proof (cases "st' = st")
  case False
  then obtain out t i s where u: "utxo_AssetID utxo = dione" "unlock_state (utxo_Out utxo) = (out, t)" "t \<le> env_now env"
    "kc_Spend kc (iface_state out) (env_now env) = Inr (I_TransferInput (Some i), s)"
    unfolding st'_def burn_utxo_def by (auto simp: not_less split: if_splits sum.splits prod.splits iface.splits option.splits)
  obtain o' where o: "out = S_Transferable (TransferOut o')" using kc_Spend_transfer [OF u(4)] by blast
  have lock: "utxo_lock utxo = t" "utxo_amount utxo = out_Amt o'" "fst (unlock_state (utxo_Out utxo)) = S_Transferable (TransferOut o')"
    using u(2) o unlocked_amount [of utxo o'] by (simp_all add: utxo_lock_def)
  then have ok: "fx_VerifySpend (env_hash env) (env_recover env) (env_fx env) tx (Some i) (cred s) (Some o') = Inr ()"
    using kc utxo u(4) o unfolding signs_def usable_def by auto
  have amt: "in_Amt i = out_Amt o'" using ok by (auto simp: fx_VerifySpend_iff)
  let ?i = "\<lparr>in_UTXOID = utxo_UTXOID utxo, in_AssetID = dione, In = TransferIn i\<rparr>"
  let ?mk = "\<lambda>v. \<lparr>out_AssetID = dione, Out = TransferOut \<lparr>Locktime = 0, Threshold = 1, Addrs = [changeAddr], out_Amt = v\<rparr>\<rparr>"
  let ?b = "min (fee - amountBurned st) (in_Amt i)" and ?v = "min (amount - amountStaked st) (in_Amt i - min (fee - amountBurned st) (in_Amt i))"
  let ?r = "in_Amt i - ?b - ?v" and ?opt = "\<lambda>v. if 0 < v then [?mk v] else []"
  have look: "look ?i = utxo" using utxo by (simp add: usable_def)
  have mk: "output_lock (?mk v) = 0" for v by (simp add: output_lock_def)
  have le: "amountStaked st \<le> amount" "amountBurned st \<le> fee" using st by (simp_all add: built_def)
  note take = word_take [OF le(2), of "in_Amt i"] word_take [OF le(1), of "in_Amt i - ?b"]
  have fields: "sp_ins st' = sp_ins st @ [?i]" "sp_signers st' = sp_signers st @ [s]" "sp_returned st' = sp_returned st @ ?opt ?r" "sp_staked st' = sp_staked st @ ?opt ?v"
    "amountStaked st' = amountStaked st + ?v" "amountBurned st' = amountBurned st + ?b"
    unfolding st'_def burn_utxo_def using u linorder_not_less [of "env_now env" t] by (simp_all add: Let_def)
  have "built env tx look cred dione amount fee st'"
  proof (rule built_step [OF st fields(1-4)])
    show "unat (amountStaked st') = unat (amountStaked st) + unat ?v" "unat (amountBurned st') = unat (amountBurned st) + unat ?b"
      "amountStaked st' \<le> amount" "amountBurned st' \<le> fee" unfolding fields(5, 6) by (fact take)+
    show "input_allowed env tx ?i (look ?i) (cred s)" unfolding look input_allowed_def using u lock ok by simp
    show "in_UTXOID ?i = utxo_UTXOID (look ?i)" unfolding look by simp
    show "\<forall>out \<in> set (?opt ?r @ ?opt ?v). out_plain (Out out)" by (auto simp: out_plain_def)
    show "locked_outs env (?opt ?r @ ?opt ?v) k = locked_utxos env [look ?i] k" for k
      unfolding look worth_append single_utxo using u(3) lock(1) by (subst (1 2) optional_output(3)) (simp_all add: mk)
    show "open_outs (?opt ?r @ ?opt ?v) a + (if a = dione then unat ?b else 0) = open_utxos env [look ?i] a" for a
      unfolding look worth_append single_utxo using u(1, 3) lock(1, 2) amt take(3, 6) by (subst (1 2) optional_output(2)) (auto simp: mk)
    show "worth_out (?opt ?r @ ?opt ?v) a + (if a = dione then unat ?b else 0) = worth_utxos [look ?i] a" for a
      unfolding look worth_append single_utxo using u(1) lock(2) amt take(3, 6) by (subst (1 2) optional_output(1)) auto
    show "worth_out (?opt ?v) a = (if a = dione then unat ?v else 0)" for a by (subst optional_output(1)) auto
  qed
  then show ?thesis using u(3) lock(1) look fields(1) by simp
qed simp

lemma subset_add_trans: "B \<subseteq># D \<Longrightarrow> A \<subseteq># B + C \<Longrightarrow> A \<subseteq># D + C"
  by (meson subset_mset.add_right_mono subset_mset.order_trans)

lemma stake_loop_built:
  assumes "built env tx look cred dione amount fee st" "signs env tx kc cred" "\<forall>utxo \<in> set utxos. usable look utxo"
  defines "st' \<equiv> stake_loop dione kc (env_now env) amount utxos st"
  shows "built env tx look cred dione amount fee st'
    \<and> mset (map look (sp_ins st')) \<subseteq># mset (map look (sp_ins st)) + mset (filter (\<lambda>u. \<not> utxo_lock u \<le> env_now env) utxos)"
  using assms(1, 3) unfolding st'_def
proof (induction utxos arbitrary: st)
  case (Cons utxo utxos)
  let ?st = "stake_utxo dione kc (env_now env) amount utxo st" and ?F = "filter (\<lambda>u. \<not> utxo_lock u \<le> env_now env)"
  from stake_utxo_built [OF Cons.prems(1) assms(2), of utxo] Cons.prems
  have "built env tx look cred dione amount fee ?st" "mset (map look (sp_ins ?st)) \<subseteq># mset (map look (sp_ins st)) + mset (?F [utxo])"
    by (auto simp del: mset_map)
  note 1 = this
  have 2: "built env tx look cred dione amount fee (stake_loop dione kc (env_now env) amount utxos ?st)
    \<and> mset (map look (sp_ins (stake_loop dione kc (env_now env) amount utxos ?st))) \<subseteq># mset (map look (sp_ins ?st)) + mset (?F utxos)"
    using Cons.IH [OF 1(1)] Cons.prems(2) by simp
  note subset_add_trans [OF 1(2) 2 [THEN conjunct2]] 2
  with Cons.prems(1) show ?case by (auto simp del: mset_map split: if_splits)
qed simp

lemma burn_loop_built:
  fixes changeAddr :: ShortID
  assumes "built env tx look cred dione amount fee st" "signs env tx kc cred" "\<forall>utxo \<in> set utxos. usable look utxo"
  defines "st' \<equiv> burn_loop dione kc (env_now env) amount fee changeAddr utxos st"
  shows "built env tx look cred dione amount fee st'
    \<and> mset (map look (sp_ins st')) \<subseteq># mset (map look (sp_ins st)) + mset (filter (\<lambda>u. utxo_lock u \<le> env_now env) utxos)"
  using assms(1, 3) unfolding st'_def
proof (induction utxos arbitrary: st)
  case (Cons utxo utxos)
  let ?st = "burn_utxo dione kc (env_now env) amount fee changeAddr utxo st" and ?F = "filter (\<lambda>u. utxo_lock u \<le> env_now env)"
  from burn_utxo_built [OF Cons.prems(1) assms(2), of utxo changeAddr] Cons.prems
  have "built env tx look cred dione amount fee ?st" "mset (map look (sp_ins ?st)) \<subseteq># mset (map look (sp_ins st)) + mset (?F [utxo])"
    by (auto simp del: mset_map)
  note 1 = this
  have 2: "built env tx look cred dione amount fee (burn_loop dione kc (env_now env) amount fee changeAddr utxos ?st)
    \<and> mset (map look (sp_ins (burn_loop dione kc (env_now env) amount fee changeAddr utxos ?st))) \<subseteq># mset (map look (sp_ins ?st)) + mset (?F utxos)"
    using Cons.IH [OF 1(1)] Cons.prems(2) by simp
  note subset_add_trans [OF 1(2) 2 [THEN conjunct2]] 2
  with Cons.prems(1) show ?case by (auto simp del: mset_map split: if_splits)
qed simp

subsection \<open>The UTXOs that are read\<close>

text \<open>The page is the UTXOs of the identifiers it has seen, each once.\<close>

definition page_ok :: "(ID \<Rightarrow> UTXO option) \<Rightarrow> page \<Rightarrow> bool" where
  "page_ok getUTXO pg \<longleftrightarrow> (\<exists>ids. distinct ids \<and> set ids = pg_seen pg \<and> list_all2 (\<lambda>id u. getUTXO id = Some u) ids (pg_utxos pg))"

lemma page_ids_ok: "page_ok getUTXO pg \<Longrightarrow> page_ids getUTXO ids pg = Inr (pg', full) \<Longrightarrow> page_ok getUTXO pg'"
proof (induction getUTXO ids pg rule: page_ids.induct)
  case (2 getUTXO utxoID rest pg)
  let ?pg = "pg\<lparr>pg_lastUTXOID := utxoID\<rparr>"
  have ok: "page_ok getUTXO ?pg" using 2(3) by (simp add: page_ok_def)
  show ?case
  proof (cases "utxoID \<in> pg_seen pg")
    case True
    with 2(1) [OF refl _ ok] 2(4) show ?thesis by simp
  next
    case False
    with 2(4) obtain utxo where u: "getUTXO utxoID = Some utxo" by (auto simp: Let_def split: option.splits)
    let ?pg' = "?pg\<lparr>pg_utxos := pg_utxos pg @ [utxo], pg_seen := insert utxoID (pg_seen pg), pg_limit := pg_limit pg - 1\<rparr>"
    from ok obtain ids where "distinct ids" "set ids = pg_seen pg" "list_all2 (\<lambda>id u. getUTXO id = Some u) ids (pg_utxos pg)"
      unfolding page_ok_def by auto
    then have ok': "page_ok getUTXO ?pg'" unfolding page_ok_def using False u
      by (intro exI [where x = "ids @ [utxoID]"]) (auto simp: list_all2_appendI)
    show ?thesis using 2(2) [OF refl _ u refl _ ] ok' False u 2(4) by (auto simp: Let_def split: if_splits)
  qed
qed simp

lemma page_addrs_ok: "page_ok getUTXO pg \<Longrightarrow> page_addrs utxoIDs getUTXO n addrs pg = Inr pg' \<Longrightarrow> page_ok getUTXO pg'"
proof (induction utxoIDs getUTXO n addrs pg rule: page_addrs.induct)
  case (2 utxoIDs getUTXO n addr rest pg)
  show ?case
  proof (cases "bytes_less addr (pg_lastAddr pg)")
    case True
    with 2 show ?thesis by simp
  next
    case False
    with 2(4) obtain ids pg1 full where 1: "page_ids getUTXO ids (pg\<lparr>pg_lastAddr := addr\<rparr>) = Inr (pg1, full)"
      "if full then pg' = pg1 else page_addrs utxoIDs getUTXO n rest pg1 = Inr pg'"
      "utxoIDs addr (if addr = pg_lastAddr pg then pg_lastUTXOID pg else ids_Empty) n = Some ids"
      by (auto simp: Let_def res_bind_Inr_iff split: option.splits if_splits)
    have "page_ok getUTXO (pg\<lparr>pg_lastAddr := addr\<rparr>)" using 2(3) by (simp add: page_ok_def)
    then have ok: "page_ok getUTXO pg1" using page_ids_ok 1(1) by blast
    show ?thesis
    proof (cases full)
      case True
      with 1(2) ok show ?thesis by simp
    next
      case f: False
      with 1(2) ok 2(2) [OF False refl 1(3) 1(1) refl] show ?thesis by simp
    qed
  qed
qed simp

lemma GetAllUTXOs_ok:
  assumes "GetAllUTXOs utxoIDs getUTXO addrs = Inr utxos"
  shows "\<exists>ids. distinct ids \<and> list_all2 (\<lambda>id u. getUTXO id = Some u) ids utxos"
proof -
  from assms obtain pg where pg: "page_addrs utxoIDs getUTXO math_MaxInt (addrs_sorted addrs)
      \<lparr>pg_utxos = [], pg_seen = {}, pg_lastAddr = ids_ShortEmpty, pg_lastUTXOID = ids_Empty, pg_limit = math_MaxInt\<rparr> = Inr pg" "utxos = pg_utxos pg"
    by (auto simp: GetAllUTXOs_def GetPaginatedUTXOs_def res_bind_Inr_iff)
  have "page_ok getUTXO pg" by (rule page_addrs_ok [OF _ pg(1)]) (simp add: page_ok_def)
  with pg(2) show ?thesis by (auto simp: page_ok_def)
qed

subsection \<open>The result is accepted\<close>

lemma mset_part: "mset us \<subseteq># mset utxos \<Longrightarrow> \<exists>vs. mset utxos = mset (us @ vs)"
  by (metis ex_mset mset_append mset_subset_eq_exists_conv)

lemma worth_utxos_mono: "mset us \<subseteq># mset utxos \<Longrightarrow> worth_utxos us a \<le> worth_utxos utxos a"
  using mset_part [of us utxos] utxos_mset(3) [of utxos _ a] by (fastforce simp: worth_append)

lemma distinct_part:
  assumes "mset us \<subseteq># mset utxos" "distinct (map f utxos)"
  shows "distinct (map f us)"
proof -
  obtain vs where "mset utxos = mset (us @ vs)" using mset_part [OF assms(1)] by blast
  then have "mset (map f utxos) = mset (map f (us @ vs))" by simp
  from mset_eq_imp_distinct_iff [OF this] assms(2) show ?thesis by simp
qed

lemma worth_in_allowed:
  assumes "\<forall>(i, s) \<in> set (zip ins ss). input_allowed env tx i (look i) (cred s)" "length ins = length ss"
  shows "worth_in ins a = worth_utxos (map look ins) a"
  using assms
proof (induction ins ss rule: list_induct2')
  case (4 i ins s ss)
  then have "input_allowed env tx i (look i) (cred s)" by simp
  then obtain i' out where io: "utxo_AssetID (look i) = in_AssetID i" "unlock_in (env_now env) (utxo_lock (look i)) (In i) = Inr (TransferIn i')"
    "fst (unlock_state (utxo_Out (look i))) = S_Transferable (TransferOut out)"
    "fx_VerifySpend (env_hash env) (env_recover env) (env_fx env) tx (Some i') (cred s) (Some out) = Inr ()"
    unfolding input_allowed_def by blast
  then have "in_Amount (In i) = utxo_amount (look i)"
    using unlock_in_Inr [OF io(2)] unlocked_amount [OF io(3)] by (auto simp: fx_VerifySpend_iff)
  with 4 io(1) show ?case by (simp add: worth_in_def worth_utxos_def)
qed (simp_all add: worth_in_def)

lemma keychain_signs:
  assumes "\<And>k m. env_recover env m (sign k m) = Inr (address k)" "fx_clock (env_fx env) = env_now env"
  shows "signs env tx (NewKeychain address eth keys) (\<lambda>s. Some \<lparr>Sigs = map (\<lambda>k. sign k (env_hash env tx)) s\<rparr>)"
  unfolding signs_def
proof (intro allI impI)
  fix out i s
  assume "TransferOutput_Verify (Some out) = Inr ()" "length (Addrs out) < 2 ^ 32"
    "kc_Spend (NewKeychain address eth keys) (I_TransferOutput (Some out)) (env_now env) = Inr (I_TransferInput (Some i), s)"
  with kc_Spend_cases [where recover = "env_recover env" and sign = sign and address = address and eth = eth and keys = keys and fx = "env_fx env"
      and hash = "env_hash env" and tx = tx and out = out, OF assms(1)] assms(2)
  show "fx_VerifySpend (env_hash env) (env_recover env) (env_fx env) tx (Some i) (Some \<lparr>Sigs = map (\<lambda>k. sign k (env_hash env tx)) s\<rparr>) (Some out) = Inr ()"
    by (auto simp: VerifyTransfer_iff)
qed

lemma built_none: "built env tx look cred dione amount fee no_spending"
  by (simp add: built_def no_spending_def)

lemma get_utxos_known: "(\<And>i. i \<in> set ins \<Longrightarrow> getUTXO (inputID (in_UTXOID i)) = Some (look i)) \<Longrightarrow> get_utxos getUTXO inputID ins = Inr (map look ins)"
  by (induction ins) auto

text \<open>A database that holds UTXOs under their identifiers, with valid outputs.\<close>

definition utxo_db :: "(UTXOID \<Rightarrow> ID) \<Rightarrow> (ID \<Rightarrow> UTXO option) \<Rightarrow> bool" where
  "utxo_db inputID getUTXO \<longleftrightarrow> (\<forall>id utxo. getUTXO id = Some utxo \<longrightarrow> inputID (utxo_UTXOID utxo) = id
     \<and> (\<forall>out. fst (unlock_state (utxo_Out utxo)) = S_Transferable (TransferOut out)
          \<longrightarrow> TransferOutput_Verify (Some out) = Inr () \<and> length (Addrs out) < 2 ^ 32))"

lemma amounts_single: "amount_at [(k, v)] a = (if a = k then v else 0)"
  by (simp add: amount_at_def)

lemma Spend_built:
  fixes h :: "'k spender"
  assumes ok: "Spend h utxoIDs getUTXO keys amount fee changeAddr = Inr (ins, returned, staked, signers)"
    and crypto: "\<And>k m. env_recover env m (sign k m) = Inr (key_address h k)" and clock: "clk h = env_now env" "fx_clock (env_fx env) = env_now env"
    and db: "utxo_db inputID getUTXO"
  defines "look \<equiv> \<lambda>i. the (getUTXO (inputID (in_UTXOID i)))"
  shows "\<exists>utxos st. GetAllUTXOs utxoIDs getUTXO (map (key_address h) keys) = Inr utxos
    \<and> built env tx look (\<lambda>s. Some \<lparr>Sigs = map (\<lambda>k. sign k (env_hash env tx)) s\<rparr>) (DIONEAssetID h) amount fee st
    \<and> mset (map look (sp_ins st)) \<subseteq># mset utxos \<and> (\<forall>utxo \<in> set utxos. getUTXO (inputID (utxo_UTXOID utxo)) = Some utxo) \<and> distinct (map utxo_UTXOID utxos)
    \<and> amountBurned st = fee \<and> amountStaked st = amount \<and> returned = sortOuts h (sp_returned st) \<and> staked = sortOuts h (sp_staked st)
    \<and> ins = map fst (sortIns h (zip (sp_ins st) (sp_signers st))) \<and> signers = map snd (sortIns h (zip (sp_ins st) (sp_signers st)))"
proof -
  let ?kc = "NewKeychain (key_address h) (key_eth h) keys"
  obtain utxos where utxos: "GetAllUTXOs utxoIDs getUTXO (map (key_address h) keys) = Inr utxos" using ok by (auto simp: Spend_def res_bind_Inr_iff)
  let ?st1 = "stake_loop (DIONEAssetID h) ?kc (env_now env) amount utxos no_spending"
  let ?st = "burn_loop (DIONEAssetID h) ?kc (env_now env) amount fee changeAddr utxos ?st1"
  have res: "amountBurned ?st \<ge> fee" "amountStaked ?st \<ge> amount" "returned = sortOuts h (sp_returned ?st)" "staked = sortOuts h (sp_staked ?st)"
    "ins = map fst (sortIns h (zip (sp_ins ?st) (sp_signers ?st)))" "signers = map snd (sortIns h (zip (sp_ins ?st) (sp_signers ?st)))"
    using ok utxos clock(1) by (auto simp: Spend_def Let_def not_less split: if_splits)
  obtain ids where ids: "distinct ids" "list_all2 (\<lambda>id u. getUTXO id = Some u) ids utxos" using GetAllUTXOs_ok [OF utxos] by blast
  have "map inputID (map utxo_UTXOID utxos) = ids" using ids(2) db by (induction rule: list_all2_induct) (auto simp: utxo_db_def)
  with ids(1) have dist: "distinct (map utxo_UTXOID utxos)" using distinct_map [of inputID "map utxo_UTXOID utxos"] by simp
  have known: "getUTXO (inputID (utxo_UTXOID utxo)) = Some utxo" if mem: "utxo \<in> set utxos" for utxo
  proof -
    obtain n where n: "n < length utxos" "utxos ! n = utxo" using mem by (auto simp: in_set_conv_nth)
    then have "getUTXO (ids ! n) = Some utxo" using list_all2_nthD2 [OF ids(2) n(1)] by simp
    with db show ?thesis by (auto simp: utxo_db_def)
  qed
  have usable: "\<forall>utxo \<in> set utxos. usable look utxo"
  proof
    fix utxo
    assume u: "utxo \<in> set utxos"
    then have "look i = utxo" if "in_UTXOID i = utxo_UTXOID utxo" for i using known that by (simp add: look_def)
    then show "usable look utxo" using db known [OF u] unfolding usable_def utxo_db_def by blast
  qed
  note kc = keychain_signs [of env sign "key_address h" tx "key_eth h" keys, OF crypto clock(2)]
  note 1 = stake_loop_built [OF built_none kc usable, of "DIONEAssetID h" amount fee]
  note 2 = burn_loop_built [OF 1 [THEN conjunct1] kc usable, of changeAddr]
  have "mset (map look (sp_ins ?st)) \<subseteq># mset (filter (\<lambda>u. \<not> utxo_lock u \<le> env_now env) utxos) + mset (filter (\<lambda>u. utxo_lock u \<le> env_now env) utxos)"
    by (rule subset_add_trans [OF _ 2 [THEN conjunct2]]) (use 1 [THEN conjunct2] in \<open>simp add: no_spending_def\<close>)
  also have "\<dots> = mset utxos" by (metis mset_filter multiset_partition union_commute)
  finally have part: "mset (map look (sp_ins ?st)) \<subseteq># mset utxos" .
  have "amountBurned ?st = fee \<and> amountStaked ?st = amount" using 2 [THEN conjunct1] res(1, 2) by (auto simp: built_def)
  with utxos 2 part known dist res show ?thesis by blast
qed

text \<open>What the loops have built is accepted, in whatever order inputs and outputs are put.\<close>

lemma built_accepted:
  assumes b: "built env tx look cred dione amount fee st" and fee: "amountBurned st = fee" and len: "length ins = length signers"
    and m: "mset (zip ins signers) = mset (zip (sp_ins st) (sp_signers st))" and mo: "mset outs = mset (sp_returned st @ sp_staked st)"
    and creds: "None \<notin> set (map cred signers)" and env: "\<And>o'. marshalOwner env o' \<noteq> None" "visits_all (env_ranges env)"
    and fits: "\<And>a. worth_utxos (map look ins) a < 2 ^ 64"
  shows "\<exists>p. VerifySpendUTXOs env tx (map look ins) ins outs (map cred signers) [(dione, fee)] = Inr p"
proof -
  note inv = b [unfolded built_def]
  from arg_cong [where f = "image_mset fst", OF m] have mi: "mset ins = mset (sp_ins st)" using len inv by (simp flip: mset_map)
  then have ml: "mset (map look ins) = mset (map look (sp_ins st))" by simp
  have allowed: "\<forall>(i, s) \<in> set (zip ins signers). input_allowed env tx i (look i) (cred s)" using inv mset_eq_setD [OF m] by simp
  show ?thesis
  proof (rule VerifySpendUTXOs_fits)
    show "length ins = length (map cred signers)" "length ins = length (map look ins)" "None \<notin> set (map cred signers)" using len creds by simp_all
    show "\<forall>(input, utxo, c) \<in> set (zip ins (zip (map look ins) (map cred signers))). input_allowed env tx input utxo c"
    proof clarify
      fix i u c
      assume "(i, u, c) \<in> set (zip ins (zip (map look ins) (map cred signers)))"
      then obtain n where n: "n < length ins" "i = ins ! n" "u = look (ins ! n)" "c = cred (signers ! n)" using len by (auto simp: set_zip)
      then have "(ins ! n, signers ! n) \<in> set (zip ins signers)" using len by (auto simp: set_zip)
      with allowed n show "input_allowed env tx i u c" by blast
    qed
    show "marshalOwner env o' \<noteq> None" "visits_all (env_ranges env)" "wf_gomap [(dione, fee)]" for o' using env by simp_all
    show "\<forall>out \<in> set outs. out_plain (Out out)" using inv mset_eq_setD [OF mo] by simp
    show "worth_utxos (map look ins) a < 2 ^ 64" for a by (rule fits)
    show "locked_outs env outs k = locked_utxos env (map look ins) k" for k
      using inv [THEN conjunct2, THEN conjunct2, THEN conjunct2, THEN conjunct1, THEN spec, of k] worth_mset(1) [OF mo, of env k] utxos_mset(1) [OF ml, of env k]
      by simp
    show "unat (amount_at [(dione, fee)] a) + open_outs outs a \<le> open_utxos env (map look ins) a" for a
      using inv [THEN conjunct2, THEN conjunct2, THEN conjunct2, THEN conjunct2, THEN conjunct1, THEN spec, of a] worth_mset(2) [OF mo, of a]
        utxos_mset(2) [OF ml, of env a] fee by (auto simp: amounts_single)
  qed
qed

text \<open>(C7) What is built is accepted. When \<^verbatim>\<open>Spend\<close> succeeds and its inputs are signed by the keys that it names, the verification accepts
  the transaction with the fee as its demand. The staked outputs are worth the amount, all outputs together with the fee are worth the
  inputs, and no UTXO is named twice. The hypotheses are that a signature leads back to the address of its key, that the
  clocks of the wallet, the handler and the feature extension agree, that sorting permutes, that the database knows its UTXOs by their
  identifiers and holds valid outputs, and that the funds of the keys fit in 64 bits.\<close>

theorem spend_accepted:
  fixes h :: "'k spender"
  assumes ok: "Spend h utxoIDs getUTXO keys amount fee changeAddr = Inr (ins, returned, staked, signers)"
    and crypto: "\<And>k m. env_recover env m (sign k m) = Inr (key_address h k)" and clock: "clk h = env_now env" "fx_clock (env_fx env) = env_now env"
    and env: "\<And>o'. marshalOwner env o' \<noteq> None" "visits_all (env_ranges env)"
    and sorts: "\<And>xs. mset (sortIns h xs) = mset xs" "\<And>xs. mset (sortOuts h xs) = mset xs"
    and db: "utxo_db inputID getUTXO"
    and funds: "\<And>utxos a. GetAllUTXOs utxoIDs getUTXO (map (key_address h) keys) = Inr utxos \<Longrightarrow> worth_utxos utxos a < 2 ^ 64"
  shows "(\<exists>p. VerifySpend getUTXO inputID env tx ins (returned @ staked)
        (map (\<lambda>s. Some \<lparr>Sigs = map (\<lambda>k. sign k (env_hash env tx)) s\<rparr>) signers) [(DIONEAssetID h, fee)] = Inr p)
    \<and> worth_out staked (DIONEAssetID h) = unat amount
    \<and> worth_out (returned @ staked) (DIONEAssetID h) + unat fee = worth_in ins (DIONEAssetID h)
    \<and> distinct (map in_UTXOID ins)"
proof -
  define look where "look = (\<lambda>i :: TransferableInput. the (getUTXO (inputID (in_UTXOID i))))"
  define cred where "cred = (\<lambda>s. Some \<lparr>Sigs = map (\<lambda>k. sign k (env_hash env tx)) s\<rparr>)"
  obtain utxos st where utxos: "GetAllUTXOs utxoIDs getUTXO (map (key_address h) keys) = Inr utxos"
    and b: "built env tx look cred (DIONEAssetID h) amount fee st" and part: "mset (map look (sp_ins st)) \<subseteq># mset utxos"
    and known: "\<forall>utxo \<in> set utxos. getUTXO (inputID (utxo_UTXOID utxo)) = Some utxo" and dist: "distinct (map utxo_UTXOID utxos)"
    and amts: "amountBurned st = fee" "amountStaked st = amount" and outs: "returned = sortOuts h (sp_returned st)" "staked = sortOuts h (sp_staked st)"
    and ins: "ins = map fst (sortIns h (zip (sp_ins st) (sp_signers st)))" "signers = map snd (sortIns h (zip (sp_ins st) (sp_signers st)))"
    using Spend_built [where inputID = inputID and sign = sign and env = env and tx = tx, OF ok crypto clock db] unfolding look_def cred_def
    by (elim exE conjE) simp
  note inv = b [unfolded built_def]
  have zip: "zip ins signers = sortIns h (zip (sp_ins st) (sp_signers st))" by (simp add: ins zip_map_fst_snd)
  have len: "length ins = length signers" by (simp add: ins)
  have m: "mset (zip ins signers) = mset (zip (sp_ins st) (sp_signers st))" unfolding zip by (rule sorts(1))
  from arg_cong [where f = "image_mset fst", OF m] have mi: "mset ins = mset (sp_ins st)" using len inv by (simp flip: mset_map)
  have mo: "mset (returned @ staked) = mset (sp_returned st @ sp_staked st)" "mset staked = mset (sp_staked st)" by (simp_all add: outs sorts(2))
  have ml: "mset (map look ins) = mset (map look (sp_ins st))" using mi by simp
  have allowed: "\<forall>(i, s) \<in> set (zip ins signers). input_allowed env tx i (look i) (cred s)" using inv mset_eq_setD [OF m] by simp
  have known': "getUTXO (inputID (in_UTXOID i)) = Some (look i)" if "i \<in> set ins" for i
  proof -
    have "i \<in> set (sp_ins st)" using that mset_eq_setD [OF mi] by simp
    moreover from this have "look i \<in> set utxos" using set_mset_mono [OF part] by auto
    ultimately show ?thesis using inv known by simp
  qed
  have creds: "None \<notin> set (map cred signers)" by (auto simp: cred_def)
  have "worth_utxos (map look ins) a < 2 ^ 64" for a
    using funds [OF utxos, of a] worth_utxos_mono [OF part, of a] utxos_mset(3) [OF ml, of a] by linarith
  then have "\<exists>p. VerifySpendUTXOs env tx (map look ins) ins (returned @ staked) (map cred signers) [(DIONEAssetID h, fee)] = Inr p"
    by (rule built_accepted [OF b amts(1) len m mo(1) creds env])
  then have "\<exists>p. VerifySpend getUTXO inputID env tx ins (returned @ staked) (map cred signers) [(DIONEAssetID h, fee)] = Inr p"
    using get_utxos_known [of ins getUTXO inputID look, OF known'] by (simp add: VerifySpend_def)
  moreover have "worth_out staked (DIONEAssetID h) = unat amount" using inv worth_mset(3) [OF mo(2)] by (simp add: amts)
  moreover have "worth_out (returned @ staked) (DIONEAssetID h) + unat fee = worth_in ins (DIONEAssetID h)"
    using inv [THEN conjunct2, THEN conjunct2, THEN conjunct2, THEN conjunct2, THEN conjunct2, THEN conjunct1, THEN spec, of "DIONEAssetID h"]
      worth_mset(3) [OF mo(1), of "DIONEAssetID h"] utxos_mset(3) [OF ml, of "DIONEAssetID h"] worth_in_allowed [OF allowed len] by (simp add: amts)
  moreover have "distinct (map in_UTXOID ins)"
  proof -
    have "map in_UTXOID (sp_ins st) = map utxo_UTXOID (map look (sp_ins st))" using inv by simp
    with distinct_part [OF part dist] have "distinct (map in_UTXOID (sp_ins st))" by (simp only:)
    with mset_eq_imp_distinct_iff [of "map in_UTXOID ins" "map in_UTXOID (sp_ins st)"] mi show ?thesis by simp
  qed
  ultimately show ?thesis unfolding cred_def by blast
qed

text \<open>At time 100 the owner of keys 1 and 4 stakes 25 and burns 3 out of the two UTXOs of the example above.\<close>

definition example_spender :: "u8 spender" where
  "example_spender = \<lparr>DIONEAssetID = [8], clk = 100, key_address = \<lambda>k. [k], key_eth = \<lambda>k. [k], sortIns = id, sortOuts = id\<rparr>"

definition example_db :: "ID \<Rightarrow> UTXO option" where
  "example_db k = (if k = [5] then Some (example_utxos ! 0) else if k = [6] then Some (example_utxos ! 1) else None)"

definition example_index :: "ShortID \<Rightarrow> ID \<Rightarrow> int \<Rightarrow> ID list option" where
  "example_index addr start limit = Some [[5], [6]]"

theorem spend_accepted_witness:
  "\<exists>ins returned staked signers. Spend example_spender example_index example_db [1, 4] 25 3 [1] = Inr (ins, returned, staked, signers)
     \<and> worth_out staked [8] = 25 \<and> worth_in ins [8] = 30
     \<and> (\<exists>p. VerifySpend example_db utxo_TxID example_env [3] ins (returned @ staked)
          (map (\<lambda>s. Some \<lparr>Sigs = map (\<lambda>k. [7, k]) s\<rparr>) signers) [([8], 3)] = Inr p)"
proof -
  let ?ins = "[\<lparr>in_UTXOID = \<lparr>utxo_TxID = [6], OutputIndex = 0\<rparr>, in_AssetID = [8], In = LockIn 200 (TransferIn \<lparr>SigIndices = [0], in_Amt = 20\<rparr>)\<rparr>,
    \<lparr>in_UTXOID = \<lparr>utxo_TxID = [5], OutputIndex = 0\<rparr>, in_AssetID = [8], In = TransferIn \<lparr>SigIndices = [0], in_Amt = 10\<rparr>\<rparr>]"
  let ?change = "\<lambda>v. \<lparr>out_AssetID = [8], Out = TransferOut \<lparr>Locktime = 0, Threshold = 1, Addrs = [[1]], out_Amt = v\<rparr>\<rparr>"
  let ?returned = "[?change 2]" and ?staked = "[\<lparr>out_AssetID = [8], Out = LockOut 200 (TransferOut (example_out 20))\<rparr>, ?change 5]"
  have f: "GetAllUTXOs example_index example_db [[1], [4]] = Inr example_utxos" by code_simp
  have ok: "Spend example_spender example_index example_db [1, 4] 25 3 [1] = Inr (?ins, ?returned, ?staked, [[1], [1]])" by code_simp
  have db: "utxo_db utxo_TxID example_db" by (auto simp: utxo_db_def example_db_def example_utxos_def example_out_def owners_of_def ShortID_Less_def)
  have funds: "worth_utxos utxos a < 2 ^ 64" if "GetAllUTXOs example_index example_db (map (key_address example_spender) [1, 4]) = Inr utxos" for utxos a
  proof -
    have "utxos = example_utxos" using that f by (simp add: example_spender_def)
    then show ?thesis by (simp add: worth_utxos_def example_utxos_def utxo_amount_def example_out_def)
  qed
  have env: "marshalOwner example_env o' \<noteq> None" "env_recover example_env m [7, k] = Inr (key_address example_spender k)"
    "clk example_spender = env_now example_env" "fx_clock (env_fx example_env) = env_now example_env"
    "mset (sortIns example_spender xs) = mset xs" "mset (sortOuts example_spender ys) = mset ys" for o' m k xs ys
    by (simp_all add: example_env_def example_spender_def)
  note spend_accepted [where sign = "\<lambda>k m. [7, k]" and env = example_env and tx = "[3]", OF ok env(2-4) env(1) example_visits env(5, 6) db funds]
  moreover have "worth_in ?ins [8] = 30" by (simp add: worth_in_def)
  ultimately show ?thesis using ok by (auto simp: example_spender_def)
qed

end
