(* ===== verification/Rewards.thy ===== *)
theory Rewards
  imports Prelude
begin

text \<open>
  The rewards of the omega chain (\<^verbatim>\<open>vms/omegavm/reward\<close>): the reward of a subnet staker as a share of the supply that is
  left, the mint rate that the primary network accumulates per unit of weight, and the share of a staker in
  what was minted and in the fees. A \<^verbatim>\<open>big.Int\<close> is an integer; a division by zero panics and is an error here.
  A time is its Unix time in seconds. The arithmetic on times stays within 64 bits, because all values lie
  between the start of minting and the new chain time.
\<close>

subsection \<open>Big integers\<close>

datatype reward_error = DivisionByZero

text \<open>\<^verbatim>\<open>Div\<close> is Euclidean division.\<close>

definition big_Div :: "int \<Rightarrow> int \<Rightarrow> reward_error + int" where
  "big_Div x y = (if y = 0 then Inl DivisionByZero else Inr (if y > 0 then x div y else - (x div - y)))"

definition big_IsUint64 :: "int \<Rightarrow> bool" where
  "big_IsUint64 x \<longleftrightarrow> 0 \<le> x \<and> x < 2 ^ 64"

definition big_Uint64 :: "int \<Rightarrow> u64" where
  "big_Uint64 x = word_of_int x"

lemma big_Div_pos: "0 < y \<Longrightarrow> big_Div x y = Inr (x div y)"
  by (simp add: big_Div_def)

lemma big_Div_word: "big_Div x (uint (w :: u64)) = (if w = 0 then Inl DivisionByZero else Inr (x div uint w))"
  using uint_0_iff [of w] by (simp add: big_Div_def order_less_le)

lemma uint_big_Uint64: "0 \<le> x \<Longrightarrow> uint (big_Uint64 x) \<le> x"
  by (simp add: big_Uint64_def unsigned_of_int take_bit_int_less_eq_self_iff)

lemma div_nonneg: "0 \<le> a \<Longrightarrow> 0 \<le> b \<Longrightarrow> 0 \<le> (a :: int) div b"
  by (cases "b = 0") (simp_all add: pos_imp_zdiv_nonneg_iff)

subsection \<open>Rewards of subnet stakers\<close>

definition PercentDenominator :: int where
  "PercentDenominator = 1000000"

definition consumptionRateDenominator :: int where
  "consumptionRateDenominator = PercentDenominator"

definition BitShift :: nat where
  "BitShift = 96"

record Config =
  MaxConsumptionRate :: u64
  MinConsumptionRate :: u64
  MintingPeriod :: u64
  SupplyCap :: u64

record calculator =
  maxSubMinConsumptionRate :: int
  minConsumptionRate :: int
  mintingPeriod :: int
  supplyCap :: u64

definition NewCalculator :: "Config \<Rightarrow> calculator" where
  "NewCalculator c =
     \<lparr>maxSubMinConsumptionRate = uint (MaxConsumptionRate c - MinConsumptionRate c),
      minConsumptionRate = uint (MinConsumptionRate c),
      mintingPeriod = uint (MintingPeriod c),
      supplyCap = SupplyCap c\<rparr>"

definition Calculate :: "calculator \<Rightarrow> u64 \<Rightarrow> u64 \<Rightarrow> u64 \<Rightarrow> reward_error + u64" where
  "Calculate c stakedDuration stakedAmount currentSupply =
     (let bigStakedDuration = uint stakedDuration;
          bigStakedAmount = uint stakedAmount;
          bigCurrentSupply = uint currentSupply;
          adjustedConsumptionRateNumerator = maxSubMinConsumptionRate c * bigStakedDuration;
          adjustedMinConsumptionRateNumerator = minConsumptionRate c * mintingPeriod c;
          adjustedConsumptionRateNumerator = adjustedConsumptionRateNumerator + adjustedMinConsumptionRateNumerator;
          adjustedConsumptionRateDenominator = mintingPeriod c * consumptionRateDenominator;
          remainingSupply = supplyCap c - currentSupply;
          reward = uint remainingSupply;
          reward = reward * adjustedConsumptionRateNumerator;
          reward = reward * bigStakedAmount;
          reward = reward * bigStakedDuration
      in res_bind (big_Div reward adjustedConsumptionRateDenominator) (\<lambda>reward.
         res_bind (big_Div reward bigCurrentSupply) (\<lambda>reward.
         res_bind (big_Div reward (mintingPeriod c)) (\<lambda>reward.
           if \<not> big_IsUint64 reward then Inr remainingSupply
           else let finalReward = big_Uint64 reward
             in if finalReward > remainingSupply then Inr remainingSupply else Inr finalReward))))"

subsection \<open>Minting\<close>

record MintConfig =
  MintSince :: int
  mc_MintingPeriod :: int
  MintRate :: u64
  MaxMintAmount :: u64

record mintCalculator =
  mintSince :: int
  mintPeriod :: int
  mintPeriodBigInt :: int
  maxMintAmount :: int
  mintRate :: int
  initialSupply :: int
  percentDenominator :: int

definition mintShift :: nat where
  "mintShift = 96"

text \<open>\<open>seconds\<close> is the conversion of a duration to whole seconds, which goes through a floating point number. The
  seconds of a duration fit into 34 bits, so that the conversions between \<^verbatim>\<open>uint64\<close> and \<^verbatim>\<open>int64\<close> keep them.\<close>

definition NewMintCalculator :: "(int \<Rightarrow> nat) \<Rightarrow> MintConfig \<Rightarrow> u64 \<Rightarrow> mintCalculator" where
  "NewMintCalculator seconds config supply =
     \<lparr>mintSince = MintSince config,
      mintPeriod = int (seconds (mc_MintingPeriod config)),
      mintPeriodBigInt = int (seconds (mc_MintingPeriod config)),
      maxMintAmount = uint (MaxMintAmount config),
      mintRate = uint (MintRate config),
      initialSupply = uint supply,
      percentDenominator = PercentDenominator\<rparr>"

definition CalculateMintReward :: "u64 \<Rightarrow> int \<Rightarrow> int \<Rightarrow> u64" where
  "CalculateMintReward weight stakerMintRate accumulatedMintRate =
     big_Uint64 (drop_bit mintShift ((accumulatedMintRate - stakerMintRate) * uint weight))"

definition CalculateFeeReward :: "int \<Rightarrow> u64 \<Rightarrow> int \<Rightarrow> u64" where
  "CalculateFeeReward feePerWeightStored weight feePerWeightPaid =
     big_Uint64 (drop_bit BitShift (uint weight * (feePerWeightStored - feePerWeightPaid)))"

text \<open>What is minted in the period with the given number, and the rate for a part of a period.\<close>

definition period_mint :: "mintCalculator \<Rightarrow> int \<Rightarrow> int" where
  "period_mint c period =
     (let startPeriodSupply = (percentDenominator c + mintRate c) ^ nat period * initialSupply c;
          supplyDenominator = percentDenominator c ^ nat period;
          startPeriodSupply = startPeriodSupply div supplyDenominator;
          mintAmount = startPeriodSupply * mintRate c div percentDenominator c
      in if mintAmount > maxMintAmount c then maxMintAmount c else mintAmount)"

definition period_rate :: "mintCalculator \<Rightarrow> u64 \<Rightarrow> int \<Rightarrow> int \<Rightarrow> reward_error + int" where
  "period_rate c totalWeight period elapsed =
     res_bind (big_Div (push_bit mintShift (elapsed * period_mint c period)) (mintPeriodBigInt c))
       (\<lambda>result. big_Div result (uint totalWeight))"

function CalculateMintRate :: "mintCalculator \<Rightarrow> u64 \<Rightarrow> int \<Rightarrow> int \<Rightarrow> reward_error + int" where
  "CalculateMintRate c totalWeight lastSyncTime newChainTime =
     (let lastSyncTimeUnix = (if lastSyncTime < mintSince c then mintSince c else lastSyncTime)
      in if newChainTime \<le> lastSyncTimeUnix then Inr 0
         else if mintPeriod c \<le> 0 then Inl DivisionByZero
         else let lastSyncTimePeriod = (lastSyncTimeUnix - mintSince c) div mintPeriod c;
                  newChainTimePeriod = (newChainTime - mintSince c) div mintPeriod c;
                  newPeriodTimestamp = mintSince c + mintPeriod c * lastSyncTimePeriod + mintPeriod c
           in if lastSyncTimePeriod \<noteq> newChainTimePeriod \<and> newPeriodTimestamp \<noteq> newChainTime
              then res_bind (CalculateMintRate c totalWeight lastSyncTime newPeriodTimestamp) (\<lambda>mintRateBeforeNewPeriod.
                   res_bind (CalculateMintRate c totalWeight newPeriodTimestamp newChainTime) (\<lambda>mintRateAfterNewPeriod.
                     Inr (mintRateBeforeNewPeriod + mintRateAfterNewPeriod)))
              else period_rate c totalWeight lastSyncTimePeriod (newChainTime - lastSyncTimeUnix))"
  by pat_completeness auto

text \<open>The next period starts after the last synchronisation, and not after the new chain time if that is in another
  period.\<close>

lemma next_period:
  fixes l n s p :: int
  assumes "s \<le> l" "l < n" "0 < p"
  shows "l < s + p * ((l - s) div p) + p"
    and "(l - s) div p \<noteq> (n - s) div p \<Longrightarrow> s + p * ((l - s) div p) + p \<le> n"
proof -
  have l: "p * ((l - s) div p) + (l - s) mod p = l - s" "0 \<le> (l - s) mod p" "(l - s) mod p < p"
    using assms(3) by simp_all
  then show "l < s + p * ((l - s) div p) + p" by linarith
  assume "(l - s) div p \<noteq> (n - s) div p"
  moreover have "(l - s) div p \<le> (n - s) div p" using assms by (intro zdiv_mono1) auto
  ultimately have "p * ((l - s) div p + 1) \<le> p * ((n - s) div p)" using assms(3) by (intro mult_left_mono) auto
  moreover have "p * ((n - s) div p) + (n - s) mod p = n - s" "0 \<le> (n - s) mod p" using assms(3) by simp_all
  ultimately show "s + p * ((l - s) div p) + p \<le> n" unfolding distrib_left by linarith
qed

termination CalculateMintRate
  apply (relation "measure (\<lambda>(c, _, l, n). nat (n - (if l < mintSince c then mintSince c else l)))")
  subgoal by simp
  subgoal for c W l n s lp np t
    using next_period [of "mintSince c" s n "mintPeriod c"] by (auto split: if_splits)
  subgoal for c W l n s lp np t
    using next_period [of "mintSince c" s n "mintPeriod c"] by (auto split: if_splits)
  done

declare CalculateMintRate.simps [simp del]

subsection \<open>The reward of a subnet staker\<close>

lemma uint_minus_le:
  fixes a b :: u64
  shows "b \<le> a \<Longrightarrow> uint (a - b) = uint a - uint b"
  by (simp add: uint_minus_simple_alt)

text \<open>The three divisions of the code are one division, by the product of the denominators.\<close>

lemma Calculate_eq:
  assumes "0 < mintingPeriod c" "supply \<noteq> 0" "0 \<le> maxSubMinConsumptionRate c" "0 \<le> minConsumptionRate c"
    and rem: "rem = supplyCap c - supply"
    and q: "q = uint rem * (maxSubMinConsumptionRate c * uint dur + minConsumptionRate c * mintingPeriod c) * uint amt * uint dur
      div (PercentDenominator * mintingPeriod c ^ 2 * uint supply)"
  shows "Calculate c dur amt supply = Inr (if q > uint rem then rem else word_of_int q)"
proof -
  let ?p = "mintingPeriod c" and ?s = "uint supply"
  define x where "x = uint rem * (maxSubMinConsumptionRate c * uint dur + minConsumptionRate c * ?p) * uint amt * uint dur"
  have s: "0 < ?s" using assms(2) by (simp add: word_gt_0_no order_less_le uint_0_iff)
  have "x div (?p * consumptionRateDenominator) div ?s div ?p = x div (?p * consumptionRateDenominator * ?s * ?p)"
    using s assms(1) by (simp add: zdiv_zmult2_eq)
  also have "\<dots> = q" by (simp add: q x_def consumptionRateDenominator_def power2_eq_square mult_ac)
  finally have eq: "x div (?p * consumptionRateDenominator) div ?s div ?p = q" .
  have "0 \<le> x" using assms(1,3,4) by (simp add: x_def)
  then have "0 \<le> q" using s assms(1) by (simp add: q x_def [symmetric] PercentDenominator_def pos_imp_zdiv_nonneg_iff)
  have u: "uint rem < 2 ^ 64" using uint_lt2p [of rem] by simp
  have fin: "(if \<not> big_IsUint64 q then Inr rem else if big_Uint64 q > rem then Inr rem else Inr (big_Uint64 q))
      = Inr (if q > uint rem then rem else word_of_int q)"
  proof (cases "q < 2 ^ 64")
    case True
    with \<open>0 \<le> q\<close> have "uint (word_of_int q :: u64) = q" by (simp add: uint_word_of_int)
    with True \<open>0 \<le> q\<close> show ?thesis by (simp add: big_IsUint64_def big_Uint64_def word_less_alt)
  qed (use u in \<open>simp add: big_IsUint64_def\<close>)
  have "0 < ?p * consumptionRateDenominator" using assms(1) by (simp add: consumptionRateDenominator_def PercentDenominator_def)
  then have "Calculate c dur amt supply
      = (if \<not> big_IsUint64 q then Inr rem else if big_Uint64 q > rem then Inr rem else Inr (big_Uint64 q))"
    using s assms(1) by (simp add: Calculate_def Let_def big_Div_pos rem [symmetric] x_def [symmetric] eq)
  with fin show ?thesis by simp
qed

text \<open>(C15) The reward of a subnet staker is what the formula of the documentation says, rounded down once, and never more than
  what is left: the share of the supply that is left, times the share of the stake in the supply, times the
  rate for the duration, times the share of the duration in the period. The new supply is therefore within
  the cap and does not wrap around.\<close>

theorem reward_formula:
  assumes "MintingPeriod cfg \<noteq> 0" "MinConsumptionRate cfg \<le> MaxConsumptionRate cfg" "supply \<noteq> 0" "supply \<le> SupplyCap cfg"
    and "rem = uint (SupplyCap cfg) - uint supply" "P = uint (MintingPeriod cfg)"
    and "rate = (uint (MaxConsumptionRate cfg) - uint (MinConsumptionRate cfg)) * uint dur + uint (MinConsumptionRate cfg) * P"
  shows "\<exists>r. Calculate (NewCalculator cfg) dur amt supply = Inr r
    \<and> uint r = min rem (rem * rate * uint amt * uint dur div (10 ^ 6 * P ^ 2 * uint supply))
    \<and> uint (supply + r) = uint supply + uint r \<and> supply + r \<le> SupplyCap cfg"
proof -
  let ?c = "NewCalculator cfg"
  let ?q = "rem * rate * uint amt * uint dur div (10 ^ 6 * P ^ 2 * uint supply)"
  have p: "0 < mintingPeriod ?c" using assms(1) by (simp add: NewCalculator_def order_less_le uint_0_iff)
  have r: "uint (SupplyCap cfg - supply) = rem" using assms(4,5) by (simp add: uint_minus_le)
  have "Calculate ?c dur amt supply = Inr (if ?q > uint (SupplyCap cfg - supply) then SupplyCap cfg - supply else word_of_int ?q)"
    by (rule Calculate_eq)
      (use assms p r in \<open>simp_all add: NewCalculator_def uint_minus_le PercentDenominator_def word_le_def\<close>)
  moreover define r where "r = (if ?q > rem then SupplyCap cfg - supply else word_of_int ?q)"
  ultimately have calc: "Calculate ?c dur amt supply = Inr r" using r by simp
  have "0 \<le> rem" "0 \<le> rate" "0 \<le> P" using assms(2,4-7) by (simp_all add: word_le_def)
  then have q0: "0 \<le> ?q" by (intro div_nonneg mult_nonneg_nonneg) auto
  have "rem < 2 ^ 64" using uint_lt2p [of "SupplyCap cfg - supply"] r by simp
  then have ur: "uint r = min rem ?q" using q0 r by (simp add: r_def uint_word_of_int min_def)
  have "uint supply + uint r \<le> uint (SupplyCap cfg)" using ur assms(5) by linarith
  moreover from this have "uint (supply + r) = uint supply + uint r"
    using uint_lt2p [of "SupplyCap cfg"] by (simp add: uint_plus_simple_iff uint_word_ariths(1))
  ultimately show ?thesis using calc ur by (auto simp: word_le_def)
qed

theorem reward_formula_witness:
  "\<exists>r. Calculate (NewCalculator \<lparr>MaxConsumptionRate = 120000, MinConsumptionRate = 100000, MintingPeriod = 8760, SupplyCap = 720000\<rparr>)
     4380 2000 360000 = Inr r \<and> uint r = 110 \<and> 360000 + r \<le> 720000"
  using reward_formula [of "\<lparr>MaxConsumptionRate = 120000, MinConsumptionRate = 100000, MintingPeriod = 8760, SupplyCap = 720000\<rparr>"
      360000, OF _ _ _ _ refl refl refl, of 4380 2000]
  by (auto simp: word_le_def)

subsection \<open>The mint rate\<close>

definition mint_config_ok :: "mintCalculator \<Rightarrow> bool" where
  "mint_config_ok c \<longleftrightarrow> 0 \<le> maxMintAmount c \<and> 0 \<le> mintRate c \<and> 0 \<le> initialSupply c \<and> 0 < percentDenominator c
     \<and> mintPeriodBigInt c = mintPeriod c"

lemma mint_config_New: "mint_config_ok (NewMintCalculator seconds cfg supply)"
  by (simp add: mint_config_ok_def NewMintCalculator_def PercentDenominator_def)

lemma period_mint_bounds:
  assumes "mint_config_ok c"
  shows "0 \<le> period_mint c k" "period_mint c k \<le> maxMintAmount c"
  using assms by (auto simp: period_mint_def Let_def mint_config_ok_def intro!: div_nonneg mult_nonneg_nonneg)

lemma div_twice_le:
  fixes x p w :: int
  assumes "0 \<le> x" "0 < p" "0 < w"
  shows "0 \<le> x div p div w" "x div p div w * w * p \<le> x"
proof -
  show "0 \<le> x div p div w" using assms by (simp add: pos_imp_zdiv_nonneg_iff)
  have "x div p div w * w \<le> x div p" "x div p * p \<le> x"
    using assms by (simp_all add: div_mult_mod_eq [symmetric] minus_mod_eq_div_mult [symmetric])
  then show "x div p div w * w * p \<le> x" using assms(2) by (meson mult_right_mono order_trans less_imp_le)
qed

lemma period_rate_bound:
  assumes "mint_config_ok c" "0 < mintPeriod c" "period_rate c W k e = Inr r" "0 \<le> e"
  shows "0 \<le> r \<and> r * uint W * mintPeriod c \<le> 2 ^ 96 * (e * period_mint c k)"
proof -
  let ?x = "push_bit mintShift (e * period_mint c k)"
  have r: "W \<noteq> 0" "r = ?x div mintPeriod c div uint W"
    using assms(1-3) by (auto simp: period_rate_def big_Div_pos big_Div_word mint_config_ok_def split: if_splits)
  have "0 < uint W" using r(1) by (simp add: order_less_le uint_0_iff)
  moreover have "0 \<le> ?x" using assms(4) period_mint_bounds(1) [OF assms(1)] by (simp add: push_bit_eq_mult)
  ultimately have "0 \<le> r" "r * uint W * mintPeriod c \<le> ?x" unfolding r(2) using div_twice_le assms(2) by blast+
  then show ?thesis by (simp add: push_bit_eq_mult mintShift_def mult_ac)
qed

text \<open>The amount for the second that begins at a time: what is minted in its period, and nothing before minting starts. A whole
  period mints its amount spread evenly, so the sum over seconds is the amount minted times the seconds of a period.\<close>

definition second_mint :: "mintCalculator \<Rightarrow> int \<Rightarrow> int" where
  "second_mint c s = (if s < mintSince c then 0 else period_mint c ((s - mintSince c) div mintPeriod c))"

lemma second_mint_bounds: "mint_config_ok c \<Longrightarrow> 0 \<le> second_mint c s \<and> second_mint c s \<le> maxMintAmount c"
  using period_mint_bounds [of c] by (simp add: second_mint_def mint_config_ok_def)

lemma sum_seconds_since:
  assumes "l' = (if l < mintSince c then mintSince c else l)"
  shows "(\<Sum>s \<in> {l..<n}. second_mint c s) = (\<Sum>s \<in> {l'..<n}. second_mint c s)"
  by (rule sum.mono_neutral_right) (use assms in \<open>auto simp: second_mint_def\<close>)

lemma sum_seconds_split: "a \<le> b \<Longrightarrow> b \<le> n \<Longrightarrow> (\<Sum>s \<in> {a..<b}. f s) + (\<Sum>s \<in> {b..<n}. f s) = (\<Sum>s \<in> {a..<n :: int}. (f s :: int))"
  by (subst sum.union_disjoint [symmetric]) (auto simp: ivl_disj_un)

text \<open>Seconds within one period all mint the same.\<close>

lemma same_period:
  fixes l n s p x :: int
  assumes "s \<le> l" "0 < p" "l \<le> x" "x < n" "(l - s) div p = (n - s) div p \<or> s + p * ((l - s) div p) + p = n"
  shows "(x - s) div p = (l - s) div p"
proof -
  have le: "(l - s) div p \<le> (x - s) div p" "(x - s) div p \<le> (n - s) div p" using assms by (auto intro: zdiv_mono1)
  have "(x - s) div p \<le> (l - s) div p" if "s + p * ((l - s) div p) + p = n"
  proof -
    have "p * ((x - s) div p) \<le> x - s" using assms(2) by (simp add: minus_mod_eq_mult_div [symmetric])
    then have "p * ((x - s) div p) < p * ((l - s) div p + 1)" using that assms(4) unfolding distrib_left by linarith
    then show ?thesis using assms(2) by (simp add: mult_less_cancel_left_pos)
  qed
  with le assms(5) show ?thesis by auto
qed

lemma period_seconds:
  assumes "mintSince c \<le> l" "0 < mintPeriod c" "l \<le> n"
    and "(l - mintSince c) div mintPeriod c = (n - mintSince c) div mintPeriod c
      \<or> mintSince c + mintPeriod c * ((l - mintSince c) div mintPeriod c) + mintPeriod c = n"
  shows "(\<Sum>s \<in> {l..<n}. second_mint c s) = (n - l) * period_mint c ((l - mintSince c) div mintPeriod c)"
proof -
  have "second_mint c s = period_mint c ((l - mintSince c) div mintPeriod c)" if "s \<in> {l..<n}" for s
    using same_period [OF assms(1,2) _ _ assms(4), of s] that assms(1) by (simp add: second_mint_def)
  then show ?thesis using assms(3) by simp
qed

lemma CalculateMintRate_bound:
  assumes "mint_config_ok c" "l' = (if l < mintSince c then mintSince c else l)"
  shows "CalculateMintRate c W l n = Inr r \<Longrightarrow> 0 \<le> r \<and> r * uint W * mintPeriod c \<le> 2 ^ 96 * (\<Sum>s \<in> {l'..<n}. second_mint c s)"
  using assms(2)
proof (induction "nat (n - l')" arbitrary: l l' n r rule: less_induct)
  case less
  let ?p = "mintPeriod c" and ?s = "mintSince c" and ?M = "\<lambda>a b. \<Sum>s \<in> {a..<b}. second_mint c s"
  let ?t = "?s + ?p * ((l' - ?s) div ?p) + ?p"
  have s: "?s \<le> l'" using less.prems(2) by auto
  show ?case
  proof (cases "n \<le> l'")
    case True
    with less.prems show ?thesis by (simp add: CalculateMintRate.simps [of c W l n] Let_def)
  next
    case False
    have p: "0 < ?p" using less.prems False by (auto simp: CalculateMintRate.simps [of c W l n] Let_def split: if_splits)
    note np = next_period [of ?s l' n ?p, OF s _ p]
    show ?thesis
    proof (cases "(l' - ?s) div ?p \<noteq> (n - ?s) div ?p \<and> ?t \<noteq> n")
      case True
      then obtain a b where ab: "CalculateMintRate c W l ?t = Inr a" "CalculateMintRate c W ?t n = Inr b" "r = a + b"
        using less.prems False p
        by (auto simp: CalculateMintRate.simps [of c W l n] Let_def elim!: res_bind_InrE split: if_splits)
      have t: "l' < ?t" "?t < n" using np False True by auto
      then have "?s < ?t" using s by linarith
      then have t': "?t = (if ?t < ?s then ?s else ?t)" by simp
      have "0 \<le> a \<and> a * uint W * ?p \<le> 2 ^ 96 * ?M l' ?t"
        by (rule less.hyps [OF _ ab(1) less.prems(2)]) (use t in simp)
      moreover have "0 \<le> b \<and> b * uint W * ?p \<le> 2 ^ 96 * ?M ?t n"
        by (rule less.hyps [OF _ ab(2) t']) (use t in simp)
      moreover have "2 ^ 96 * ?M l' ?t + 2 ^ 96 * ?M ?t n = 2 ^ 96 * ?M l' n"
        using sum_seconds_split [of l' ?t n "second_mint c"] t by (simp only: less_imp_le distrib_left [symmetric])
      ultimately show ?thesis unfolding ab(3) distrib_right by (intro conjI) linarith+
    next
      case one: False
      then have "period_rate c W ((l' - ?s) div ?p) (n - l') = Inr r"
        using less.prems False p by (auto simp: CalculateMintRate.simps [of c W l n] Let_def)
      from period_rate_bound [OF assms(1) p this] False period_seconds [OF s p, of n] one show ?thesis by auto
    qed
  qed
qed

subsection \<open>The shares of the stakers\<close>

text \<open>A stake is a weight with the numbers of the synchronisations at which it starts and ends. The rate per unit of weight grows
  by \<open>r i\<close> after the \<open>i\<close>th synchronisation.\<close>

definition accrued :: "(nat \<Rightarrow> int) \<Rightarrow> nat \<Rightarrow> int" where
  "accrued r k = (\<Sum>i<k. r i)"

definition staked_at :: "nat \<Rightarrow> (u64 \<times> nat \<times> nat) list \<Rightarrow> int" where
  "staked_at i stakes = (\<Sum>(w, a, b) \<leftarrow> stakes. if a \<le> i \<and> i < b then uint w else 0)"

lemma accrued_between: "a \<le> b \<Longrightarrow> b \<le> n \<Longrightarrow> accrued r b - accrued r a = (\<Sum>i<n. if a \<le> i \<and> i < b then r i else 0)"
proof -
  assume ab: "a \<le> b" "b \<le> n"
  have "{i \<in> {..<n}. a \<le> i \<and> i < b} = {a..<b}" using ab by auto
  then have "(\<Sum>i<n. if a \<le> i \<and> i < b then r i else 0) = sum r {a..<b}"
    by (simp add: sum.inter_filter [symmetric])
  also have "\<dots> = accrued r b - accrued r a"
    using sum_diff_nat_ivl [of 0 a b r] ab by (simp add: accrued_def lessThan_atLeast0)
  finally show ?thesis by simp
qed

lemma sum_list_sum: "(\<Sum>x \<leftarrow> xs. \<Sum>i<n. f x i) = (\<Sum>i<n. \<Sum>x \<leftarrow> xs. (f x i :: int))"
  by (induction xs) (simp_all add: sum.distrib)

text \<open>All stakes together earn no more than the weight that was counted times the rate.\<close>

lemma shares_bound:
  assumes "\<forall>(w, a, b) \<in> set stakes. a \<le> b \<and> b \<le> n" "\<forall>i<n. 0 \<le> r i" "\<forall>i<n. staked_at i stakes \<le> W i"
  shows "(\<Sum>(w, a, b) \<leftarrow> stakes. uint w * (accrued r b - accrued r a)) \<le> (\<Sum>i<n. W i * r i)"
proof -
  have "(\<Sum>(w, a, b) \<leftarrow> stakes. uint w * (accrued r b - accrued r a))
      = (\<Sum>x \<leftarrow> stakes. \<Sum>i<n. case x of (w, a, b) \<Rightarrow> (if a \<le> i \<and> i < b then uint w else 0) * r i)"
  proof (intro arg_cong [where f = sum_list] map_cong refl)
    fix x assume "x \<in> set stakes"
    with assms(1) obtain w a b where x: "x = (w, a, b)" "a \<le> b" "b \<le> n" by auto
    have "uint w * (accrued r b - accrued r a) = (\<Sum>i<n. uint w * (if a \<le> i \<and> i < b then r i else 0))"
      by (simp add: accrued_between [OF x(2,3)] sum_distrib_left)
    also have "\<dots> = (\<Sum>i<n. (if a \<le> i \<and> i < b then uint w else 0) * r i)" by (rule sum.cong) auto
    finally show "(case x of (w, a, b) \<Rightarrow> uint w * (accrued r b - accrued r a))
        = (\<Sum>i<n. case x of (w, a, b) \<Rightarrow> (if a \<le> i \<and> i < b then uint w else 0) * r i)" by (simp add: x(1))
  qed
  also have "\<dots> = (\<Sum>i<n. staked_at i stakes * r i)"
    unfolding sum_list_sum staked_at_def sum_list_mult_const [symmetric] by (simp add: case_prod_beta)
  also have "\<dots> \<le> (\<Sum>i<n. W i * r i)"
    using assms(2,3) by (intro sum_mono mult_right_mono) auto
  finally show ?thesis .
qed

lemma accrued_nonneg: "\<forall>i<n. 0 \<le> r i \<Longrightarrow> a \<le> b \<Longrightarrow> b \<le> n \<Longrightarrow> 0 \<le> accrued r b - accrued r a"
  unfolding accrued_between by (intro sum_nonneg) auto

lemma share_floor:
  assumes "0 \<le> x"
  shows "2 ^ m * uint (big_Uint64 (drop_bit m x)) \<le> x"
proof -
  have "uint (big_Uint64 (drop_bit m x)) \<le> x div 2 ^ m"
    using uint_big_Uint64 [of "drop_bit m x"] assms by (simp add: drop_bit_eq_div div_nonneg)
  then have "2 ^ m * uint (big_Uint64 (drop_bit m x)) \<le> 2 ^ m * (x div 2 ^ m)" by (intro mult_left_mono) simp_all
  also have "\<dots> \<le> x"
  proof -
    have "0 \<le> x mod 2 ^ m" by simp
    with mult_div_mod_eq [of "2 ^ m" x] show ?thesis by linarith
  qed
  finally show ?thesis .
qed

text \<open>What the stakers get, for a function that computes the share of a stake from the rates at its start and end.\<close>

definition paid :: "(u64 \<Rightarrow> int \<Rightarrow> int \<Rightarrow> u64) \<Rightarrow> (nat \<Rightarrow> int) \<Rightarrow> (u64 \<times> nat \<times> nat) list \<Rightarrow> int" where
  "paid share acc stakes = (\<Sum>(w, a, b) \<leftarrow> stakes. uint (share w (acc a) (acc b)))"

lemma paid_bound:
  assumes "\<forall>(w, a, b) \<in> set stakes. a \<le> b \<and> b \<le> n" "\<forall>i<n. 0 \<le> r i" "\<forall>i<n. staked_at i stakes \<le> W i"
    and "\<And>w x y. share w x y = big_Uint64 (drop_bit 96 (uint w * (y - x)))" "\<And>k. acc k = acc0 + accrued r k"
  shows "2 ^ 96 * paid share acc stakes \<le> (\<Sum>i<n. W i * r i)"
proof -
  have "2 ^ 96 * paid share acc stakes = (\<Sum>(w, a, b) \<leftarrow> stakes. 2 ^ 96 * uint (share w (acc a) (acc b)))"
    unfolding paid_def sum_list_const_mult [symmetric] by (intro arg_cong [where f = sum_list] map_cong) auto
  also have "\<dots> \<le> (\<Sum>(w, a, b) \<leftarrow> stakes. uint w * (accrued r b - accrued r a))"
  proof (rule sum_list_mono)
    fix x assume "x \<in> set stakes"
    with assms(1) obtain w a b where x: "x = (w, a, b)" "a \<le> b" "b \<le> n" by auto
    have "0 \<le> uint w * (accrued r b - accrued r a)" using accrued_nonneg [OF assms(2) x(2,3)] by simp
    from share_floor [OF this, of 96]
    show "(case x of (w, a, b) \<Rightarrow> 2 ^ 96 * uint (share w (acc a) (acc b))) \<le> (case x of (w, a, b) \<Rightarrow> uint w * (accrued r b - accrued r a))"
      by (simp add: x(1) assms(4,5))
  qed
  also have "\<dots> \<le> (\<Sum>i<n. W i * r i)" by (rule shares_bound [OF assms(1-3)])
  finally show ?thesis .
qed

text \<open>What a configuration mints in a period: the rate, in millionths, of the supply that has grown by the rate in every period before,
  but not more than the maximum. The budget from one time to another is the amount of the period of every second between them, from the
  start of minting on; a period of \<open>P\<close> seconds mints its amount once, so it counts \<open>P\<close> times its amount here.\<close>

definition scheduled :: "MintConfig \<Rightarrow> u64 \<Rightarrow> nat \<Rightarrow> int" where
  "scheduled cfg supply k =
     min (uint (MaxMintAmount cfg)) (uint supply * (1000000 + uint (MintRate cfg)) ^ k div 1000000 ^ k * uint (MintRate cfg) div 1000000)"

definition budget :: "MintConfig \<Rightarrow> u64 \<Rightarrow> int \<Rightarrow> int \<Rightarrow> int \<Rightarrow> int" where
  "budget cfg supply P a b = (\<Sum>s \<in> {a..<b}. if s < MintSince cfg then 0 else scheduled cfg supply (nat ((s - MintSince cfg) div P)))"

lemma period_mint_scheduled: "period_mint (NewMintCalculator seconds cfg supply) k = scheduled cfg supply (nat k)"
  by (simp add: period_mint_def scheduled_def NewMintCalculator_def PercentDenominator_def Let_def min_def mult.commute)

lemma second_mint_budget:
  assumes "c = NewMintCalculator seconds cfg supply"
  shows "(\<Sum>s \<in> {a..<b}. second_mint c s) = budget cfg supply (mintPeriod c) a b"
  unfolding budget_def second_mint_def assms period_mint_scheduled by (intro sum.cong refl) (simp add: NewMintCalculator_def)

lemma sum_seconds_steps:
  assumes "\<forall>i<n. t i \<le> (t (Suc i) :: int)"
  shows "t 0 \<le> t n \<and> (\<Sum>i<n. \<Sum>s \<in> {t i..<t (Suc i)}. (f s :: int)) = (\<Sum>s \<in> {t 0..<t n}. f s)"
  using assms
proof (induction n)
  case (Suc n)
  then have "t 0 \<le> t n" "t n \<le> t (Suc n)" "(\<Sum>i<n. \<Sum>s \<in> {t i..<t (Suc i)}. f s) = (\<Sum>s \<in> {t 0..<t n}. f s)" by auto
  with sum_seconds_split [of "t 0" "t n" "t (Suc n)" f] show ?case by simp
qed simp

text \<open>(C14) Minting stays within its budget. Take any times at which the accumulated rate is brought up to date, and any stakes that
  start and end at such times, where at each time the running stakes do not exceed the total weight that the rate was computed for.
  Then all stakers together are paid at most what the configuration mints from the first time to the last: in every period the rate of
  the grown supply, at most the maximal amount, in proportion to the seconds that have passed of it. So they are paid
  at most the maximal amount per period, times the number of periods that have passed.\<close>

theorem mint_within_budget:
  assumes "c = NewMintCalculator seconds cfg init"
    and "\<forall>i<n. CalculateMintRate c (W i) (t i) (t (Suc i)) = Inr (r i)" "\<forall>i<n. t i \<le> t (Suc i)"
    and "\<forall>(w, a, b) \<in> set stakes. a \<le> b \<and> b \<le> n" "\<forall>i<n. staked_at i stakes \<le> uint (W i)"
    and "\<forall>k. acc k = acc0 + accrued r k"
  shows "mintPeriod c * paid CalculateMintReward acc stakes \<le> budget cfg init (mintPeriod c) (t 0) (t n)
    \<and> mintPeriod c * paid CalculateMintReward acc stakes \<le> uint (MaxMintAmount cfg) * (t n - t 0)"
proof -
  have ok: "mint_config_ok c" and M: "maxMintAmount c = uint (MaxMintAmount cfg)" and P: "0 \<le> mintPeriod c"
    using mint_config_New [of seconds cfg init] by (simp_all add: assms(1) NewMintCalculator_def)
  let ?P = "mintPeriod c" and ?M = "\<lambda>a b. \<Sum>s \<in> {a..<b}. second_mint c s"
  have r: "0 \<le> r i \<and> uint (W i) * r i * ?P \<le> 2 ^ 96 * ?M (t i) (t (Suc i))" if "i < n" for i
    using CalculateMintRate_bound [OF ok refl assms(2) [rule_format, OF that]] sum_seconds_since [OF refl, of c "t i" "t (Suc i)"]
    by (simp add: mult_ac)
  have "2 ^ 96 * paid CalculateMintReward acc stakes \<le> (\<Sum>i<n. uint (W i) * r i)"
    by (rule paid_bound [OF assms(4) _ assms(5)])
      (use r assms(6) in \<open>simp_all add: CalculateMintReward_def mintShift_def mult.commute\<close>)
  then have "2 ^ 96 * paid CalculateMintReward acc stakes * ?P \<le> (\<Sum>i<n. uint (W i) * r i) * ?P"
    using P by (intro mult_right_mono)
  also have "\<dots> = (\<Sum>i<n. uint (W i) * r i * ?P)" by (simp add: sum_distrib_right)
  also have "\<dots> \<le> (\<Sum>i<n. 2 ^ 96 * ?M (t i) (t (Suc i)))" using r by (intro sum_mono) simp
  also have "\<dots> = 2 ^ 96 * ?M (t 0) (t n)" using sum_seconds_steps [OF assms(3), of "second_mint c"] by (simp add: sum_distrib_left [symmetric])
  finally have "2 ^ 96 * (?P * paid CalculateMintReward acc stakes) \<le> 2 ^ 96 * ?M (t 0) (t n)" by (simp only: mult_ac)
  then have le: "?P * paid CalculateMintReward acc stakes \<le> ?M (t 0) (t n)" by simp
  also have "\<dots> \<le> (\<Sum>s \<in> {t 0..<t n}. maxMintAmount c)" using second_mint_bounds [OF ok] by (intro sum_mono) simp
  also have "\<dots> = uint (MaxMintAmount cfg) * (t n - t 0)" using sum_seconds_steps [OF assms(3), of id] M by simp
  finally show ?thesis using le unfolding second_mint_budget [OF assms(1)] by blast
qed

text \<open>Periods of 100 seconds and a rate of a tenth of a supply of 1000: 100 in the first period, and 105, the maximum, instead of 110 in the
  second; stakes of 4, 6 and 5 of a total weight of 10.\<close>

definition example_mint :: MintConfig where
  "example_mint = \<lparr>MintSince = 0, mc_MintingPeriod = 100000000000, MintRate = 100000, MaxMintAmount = 105\<rparr>"

definition example_seconds :: "int \<Rightarrow> nat" where
  "example_seconds d = nat (d div 1000000000)"

definition example_times :: "nat \<Rightarrow> int" where
  "example_times i = (if i = 0 then 0 else if i = 1 then 50 else 150)"

definition example_rates :: "nat \<Rightarrow> int" where
  "example_rates i = (case CalculateMintRate (NewMintCalculator example_seconds example_mint 1000) 10 (example_times i) (example_times (Suc i)) of
     Inr r \<Rightarrow> r | Inl _ \<Rightarrow> 0)"

definition example_stakes :: "(u64 \<times> nat \<times> nat) list" where
  "example_stakes = [(4, 0, 2), (6, 0, 1), (5, 1, 2)]"

theorem mint_within_budget_witness:
  "100 * paid CalculateMintReward (accrued example_rates) example_stakes \<le> budget example_mint 1000 100 0 150
   \<and> budget example_mint 1000 100 0 150 = 15250 \<and> paid CalculateMintReward (accrued example_rates) example_stakes = 142"
proof -
  let ?c = "NewMintCalculator example_seconds example_mint 1000"
  have two: "(\<forall>i<2. P i) \<longleftrightarrow> P 0 \<and> P (Suc 0)" for P :: "nat \<Rightarrow> bool" by (auto simp: less_2_cases_iff)
  have "CalculateMintRate ?c 10 (example_times 0) (example_times 1) = Inr (example_rates 0)" by code_simp
  moreover have "CalculateMintRate ?c 10 (example_times 1) (example_times 2) = Inr (example_rates 1)" by code_simp
  moreover have "example_times 0 \<le> example_times 1" "example_times 1 \<le> example_times 2" by code_simp+
  moreover have "staked_at 0 example_stakes \<le> uint (10 :: u64)" "staked_at 1 example_stakes \<le> uint (10 :: u64)" by code_simp+
  moreover have "\<forall>(w, a, b) \<in> set example_stakes. a \<le> b \<and> b \<le> 2" by (simp add: example_stakes_def)
  ultimately have "mintPeriod ?c * paid CalculateMintReward (accrued example_rates) example_stakes
      \<le> budget example_mint 1000 (mintPeriod ?c) (example_times 0) (example_times 2)"
    using mint_within_budget [of ?c example_seconds example_mint 1000 2 "\<lambda>_. 10" example_times example_rates example_stakes
        "accrued example_rates" 0]
    unfolding two by (simp add: numeral_2_eq_2)
  moreover have "paid CalculateMintReward (accrued example_rates) example_stakes = 142" by code_simp
  moreover have "budget example_mint 1000 100 0 150 = 15250" by code_simp
  ultimately show ?thesis by (simp add: NewMintCalculator_def example_mint_def example_seconds_def example_times_def)
qed

end
