(* ===== verification/Go_Heap.thy ===== *)
theory Go_Heap
  imports Prelude
begin

text \<open>
  The binary heap of the package \<^verbatim>\<open>container/heap\<close>, over a slice and the comparison that its user gives. The merged iterator and
  the iterator over changes of the stakers keep their elements in such a heap. It is a priority queue: its
  operations keep the elements and the first element is a least one.
\<close>

definition heap_swap :: "nat \<Rightarrow> nat \<Rightarrow> 'a list \<Rightarrow> 'a list" where
  "heap_swap i j h = h[j := h ! i, i := h ! j]"

abbreviation heap_parent :: "nat \<Rightarrow> nat" where
  "heap_parent k \<equiv> (k - 1) div 2"

function heap_up :: "('a \<Rightarrow> 'a \<Rightarrow> bool) \<Rightarrow> nat \<Rightarrow> 'a list \<Rightarrow> 'a list" where
  "heap_up lt j h =
     (let i = heap_parent j
      in if i = j \<or> \<not> lt (h ! j) (h ! i) then h else heap_up lt i (heap_swap i j h))"
  by pat_completeness auto
termination
  by (relation "measure (\<lambda>(_, j, _). j)") auto

function heap_down :: "('a \<Rightarrow> 'a \<Rightarrow> bool) \<Rightarrow> nat \<Rightarrow> nat \<Rightarrow> 'a list \<Rightarrow> nat \<times> 'a list" where
  "heap_down lt i n h =
     (let j1 = 2 * i + 1
      in if j1 \<ge> n then (i, h)
         else let j2 = j1 + 1; j = (if j2 < n \<and> lt (h ! j2) (h ! j1) then j2 else j1)
           in if \<not> lt (h ! j) (h ! i) then (i, h) else heap_down lt j n (heap_swap i j h))"
  by pat_completeness auto
termination
  by (relation "measure (\<lambda>(_, i, n, _). n - i)") auto

declare heap_up.simps [simp del] heap_down.simps [simp del]

text \<open>The indices from half of the length down to 0.\<close>

fun heap_Init_loop :: "('a \<Rightarrow> 'a \<Rightarrow> bool) \<Rightarrow> nat \<Rightarrow> 'a list \<Rightarrow> 'a list" where
  "heap_Init_loop lt 0 h = h"
| "heap_Init_loop lt (Suc i) h = heap_Init_loop lt i (snd (heap_down lt i (length h) h))"

definition heap_Init :: "('a \<Rightarrow> 'a \<Rightarrow> bool) \<Rightarrow> 'a list \<Rightarrow> 'a list" where
  "heap_Init lt h = heap_Init_loop lt (length h div 2) h"

definition heap_Push :: "('a \<Rightarrow> 'a \<Rightarrow> bool) \<Rightarrow> 'a \<Rightarrow> 'a list \<Rightarrow> 'a list" where
  "heap_Push lt x h = heap_up lt (length h) (h @ [x])"

text \<open>The user's \<^verbatim>\<open>Pop\<close> takes the last element off the slice.\<close>

definition heap_Pop :: "('a \<Rightarrow> 'a \<Rightarrow> bool) \<Rightarrow> 'a list \<Rightarrow> 'a \<times> 'a list" where
  "heap_Pop lt h =
     (let n = length h - 1;
          h = heap_swap 0 n h;
          h = snd (heap_down lt 0 n h)
      in (last h, butlast h))"

definition heap_Fix :: "('a \<Rightarrow> 'a \<Rightarrow> bool) \<Rightarrow> nat \<Rightarrow> 'a list \<Rightarrow> 'a list" where
  "heap_Fix lt i h = (let (i', h) = heap_down lt i (length h) h in if i' > i then h else heap_up lt i h)"

subsection \<open>The elements are kept\<close>

lemma heap_swap_simps [simp]: "length (heap_swap i j h) = length h"
  by (simp add: heap_swap_def)

lemma nth_heap_swap:
  "i < length h \<Longrightarrow> j < length h \<Longrightarrow> heap_swap i j h ! k = (if k = i then h ! j else if k = j then h ! i else h ! k)"
  by (auto simp: heap_swap_def nth_list_update)

lemma mset_heap_swap [simp]: "i < length h \<Longrightarrow> j < length h \<Longrightarrow> mset (heap_swap i j h) = mset h"
  by (cases "i = j") (simp_all add: heap_swap_def mset_swap)

lemma heap_up_keeps: "j < length h \<Longrightarrow> length (heap_up lt j h) = length h \<and> mset (heap_up lt j h) = mset h"
proof (induction lt j h rule: heap_up.induct)
  case (1 lt j h)
  then show ?case by (subst (1 2) heap_up.simps) (auto simp: Let_def)
qed

lemma heap_down_keeps:
  "i < length h \<or> n \<le> 2 * i + 1 \<Longrightarrow> n \<le> length h \<Longrightarrow> length (snd (heap_down lt i n h)) = length h
   \<and> mset (snd (heap_down lt i n h)) = mset h \<and> (\<forall>k \<ge> n. snd (heap_down lt i n h) ! k = h ! k)"
proof (induction lt i n h rule: heap_down.induct)
  case (1 lt i n h)
  then show ?case
    by (subst (1 2 3) heap_down.simps) (auto simp: Let_def nth_heap_swap)
qed

subsection \<open>The order of the heap\<close>

text \<open>A comparison that is a strict weak order on the elements of a set.\<close>

definition less_order_on :: "'a set \<Rightarrow> ('a \<Rightarrow> 'a \<Rightarrow> bool) \<Rightarrow> bool" where
  "less_order_on A lt \<longleftrightarrow> (\<forall>a \<in> A. \<forall>b \<in> A. lt a b \<longrightarrow> \<not> lt b a)
     \<and> (\<forall>a \<in> A. \<forall>b \<in> A. \<forall>c \<in> A. \<not> lt b a \<longrightarrow> \<not> lt c b \<longrightarrow> \<not> lt c a)"

definition heap_ok :: "('a \<Rightarrow> 'a \<Rightarrow> bool) \<Rightarrow> nat \<Rightarrow> 'a list \<Rightarrow> bool" where
  "heap_ok lt n h \<longleftrightarrow> (\<forall>k. 0 < k \<and> k < n \<longrightarrow> \<not> lt (h ! k) (h ! heap_parent k))"

lemma less_order_onD:
  assumes "less_order_on A lt" "set h \<subseteq> A" "i < length h" "j < length h"
  shows "lt (h ! i) (h ! j) \<Longrightarrow> \<not> lt (h ! j) (h ! i)" "\<not> lt (h ! i) (h ! i)"
    "k < length h \<Longrightarrow> \<not> lt (h ! j) (h ! i) \<Longrightarrow> \<not> lt (h ! k) (h ! j) \<Longrightarrow> \<not> lt (h ! k) (h ! i)"
proof -
  have "h ! i \<in> A" "h ! j \<in> A" "k < length h \<Longrightarrow> h ! k \<in> A" using assms(2-4) nth_mem by blast+
  with assms(1) show "lt (h ! i) (h ! j) \<Longrightarrow> \<not> lt (h ! j) (h ! i)" "\<not> lt (h ! i) (h ! i)"
    "k < length h \<Longrightarrow> \<not> lt (h ! j) (h ! i) \<Longrightarrow> \<not> lt (h ! k) (h ! j) \<Longrightarrow> \<not> lt (h ! k) (h ! i)"
    unfolding less_order_on_def by blast+
qed

lemma less_order_on_mono: "less_order_on A lt \<Longrightarrow> B \<subseteq> A \<Longrightarrow> less_order_on B lt"
  unfolding less_order_on_def by blast

lemma heap_root_least:
  assumes "less_order_on (set h) lt" "heap_ok lt (length h) h" "x \<in> set h"
  shows "\<not> lt x (h ! 0)"
proof -
  have "\<not> lt (h ! k) (h ! 0)" if "k < length h" for k
    using that
  proof (induction k rule: less_induct)
    case (less k)
    note o = less_order_onD [OF assms(1) subset_refl]
    show ?case
    proof (cases "k = 0")
      case False
      then have p: "heap_parent k < k" by auto
      with less have "\<not> lt (h ! heap_parent k) (h ! 0)" by simp
      moreover have "\<not> lt (h ! k) (h ! heap_parent k)" using assms(2) less.prems False by (simp add: heap_ok_def)
      ultimately show ?thesis using o(3) [of 0 "heap_parent k" k] p less.prems by (metis less_nat_zero_code not_less_iff_gr_or_eq order.strict_trans)
    qed (use o(2) [of k k] less.prems in simp)
  qed
  with assms(3) show ?thesis by (metis in_set_conv_nth)
qed

text \<open>On the way up, only the element at \<open>j\<close> may be less than its parent.\<close>

definition up_inv :: "('a \<Rightarrow> 'a \<Rightarrow> bool) \<Rightarrow> nat \<Rightarrow> 'a list \<Rightarrow> bool" where
  "up_inv lt j h \<longleftrightarrow> j < length h
     \<and> (\<forall>k. 0 < k \<and> k < length h \<and> k \<noteq> j \<longrightarrow> \<not> lt (h ! k) (h ! heap_parent k))
     \<and> (\<forall>k. 0 < j \<and> 0 < k \<and> k < length h \<and> heap_parent k = j \<longrightarrow> \<not> lt (h ! k) (h ! heap_parent j))"

lemma up_invD:
  assumes "up_inv lt j h"
  shows "j < length h" "0 < k \<Longrightarrow> k < length h \<Longrightarrow> k \<noteq> j \<Longrightarrow> \<not> lt (h ! k) (h ! heap_parent k)"
    "0 < j \<Longrightarrow> 0 < k \<Longrightarrow> k < length h \<Longrightarrow> heap_parent k = j \<Longrightarrow> \<not> lt (h ! k) (h ! heap_parent j)"
  using assms unfolding up_inv_def by blast+

lemma up_inv_step:
  assumes "less_order_on (set h) lt" "up_inv lt j h" "i = heap_parent j" "i \<noteq> j" "lt (h ! j) (h ! i)"
  shows "up_inv lt i (heap_swap i j h)"
proof -
  let ?h = "heap_swap i j h"
  note u = up_invD [OF assms(2)] and o = less_order_onD [OF assms(1) subset_refl]
  have ij: "i < j" "0 < j" "i < length h" using assms(3,4) u(1) by auto
  note sw = nth_heap_swap [OF ij(3) u(1)]
  have ok: "\<not> lt (?h ! k) (?h ! heap_parent k)" if k: "0 < k" "k < length h" "k \<noteq> i" for k
  proof -
    consider "k = j" | "heap_parent k = j" "k \<noteq> j" | "heap_parent k = i" "k \<noteq> j" | "heap_parent k \<noteq> j" "heap_parent k \<noteq> i" "k \<noteq> j"
      by blast
    then show ?thesis
    proof cases
      case 1
      have p: "heap_parent j = i" using assms(3) by simp
      show ?thesis unfolding 1 p using assms(4,5) o(1) [OF u(1) ij(3)] by (simp add: sw)
    next
      case 2
      have "\<not> lt (h ! k) (h ! i)" using u(3) [OF ij(2) k(1,2) 2(1)] assms(3) by simp
      with 2 k(3) ij show ?thesis by (simp add: sw)
    next
      case 3
      have "\<not> lt (h ! k) (h ! i)" using u(2) [OF k(1,2) 3(2)] 3(1) by simp
      moreover have "\<not> lt (h ! i) (h ! j)" using assms(5) o(1) [OF u(1) ij(3)] by blast
      ultimately show ?thesis using 3 k(3) o(3) [OF u(1) ij(3) k(2)] by (simp add: sw)
    next
      case 4
      with u(2) [OF k(1,2)] k(3) show ?thesis by (simp add: sw)
    qed
  qed
  have "\<not> lt (?h ! k) (?h ! heap_parent i)" if k: "0 < i" "0 < k" "k < length h" "heap_parent k = i" for k
  proof -
    have pi: "heap_parent i < i" "heap_parent i < length h" "k \<noteq> i" using k ij(3) by auto
    have i: "\<not> lt (h ! i) (h ! heap_parent i)" using u(2) [OF k(1) ij(3) assms(4)] .
    show ?thesis
    proof (cases "k = j")
      case False
      have "\<not> lt (h ! k) (h ! i)" using u(2) [OF k(2,3) False] k(4) by simp
      with o(3) [OF pi(2) ij(3) k(3)] i False pi ij show ?thesis by (simp add: sw)
    qed (use i pi ij in \<open>simp add: sw\<close>)
  qed
  with ok ij(3) show ?thesis by (simp add: up_inv_def)
qed

lemma heap_up_ok:
  assumes "less_order_on A lt" "set h = A" "up_inv lt j h"
  shows "heap_ok lt (length h) (heap_up lt j h)"
  using assms(2,3)
proof (induction j arbitrary: h rule: less_induct)
  case (less j)
  let ?i = "heap_parent j"
  note u = up_invD [OF less.prems(2)]
  show ?case
  proof (cases "?i = j \<or> \<not> lt (h ! j) (h ! ?i)")
    case True
    then have up: "heap_up lt j h = h" by (simp add: heap_up.simps [of lt j h])
    have "\<not> lt (h ! j) (h ! ?i)" if "0 < j" using True that by auto
    with u(2) have "\<not> lt (h ! k) (h ! heap_parent k)" if "0 < k" "k < length h" for k
      using that by (cases "k = j") auto
    then show ?thesis by (simp add: heap_ok_def up)
  next
    case False
    let ?h = "heap_swap ?i j h"
    have i: "?i < j" "?i < length h" using False u(1) by auto
    have "set ?h = A" using mset_heap_swap [OF i(2) u(1)] less.prems(1) by (metis set_mset_mset)
    moreover have "up_inv lt ?i ?h" using up_inv_step [OF _ less.prems(2) refl] assms(1) less.prems(1) False by blast
    ultimately have "heap_ok lt (length ?h) (heap_up lt ?i ?h)" by (rule less.IH [OF i(1)])
    moreover have "heap_up lt j h = heap_up lt ?i ?h" using False by (simp add: heap_up.simps [of lt j h] Let_def)
    ultimately show ?thesis by simp
  qed
qed

text \<open>On the way down, only the children of \<open>i\<close> may be less than their parent, among the elements with a parent from \<open>m\<close> on.\<close>

definition down_inv :: "('a \<Rightarrow> 'a \<Rightarrow> bool) \<Rightarrow> nat \<Rightarrow> nat \<Rightarrow> nat \<Rightarrow> 'a list \<Rightarrow> bool" where
  "down_inv lt m n i h \<longleftrightarrow> m \<le> i \<and> n \<le> length h
     \<and> (\<forall>k. 0 < k \<and> k < n \<and> m \<le> heap_parent k \<and> heap_parent k \<noteq> i \<longrightarrow> \<not> lt (h ! k) (h ! heap_parent k))
     \<and> (\<forall>k. 0 < i \<and> m \<le> heap_parent i \<and> 0 < k \<and> k < n \<and> heap_parent k = i \<longrightarrow> \<not> lt (h ! k) (h ! heap_parent i))"

lemma down_invD:
  assumes "down_inv lt m n i h"
  shows "m \<le> i" "n \<le> length h"
    "0 < k \<Longrightarrow> k < n \<Longrightarrow> m \<le> heap_parent k \<Longrightarrow> heap_parent k \<noteq> i \<Longrightarrow> \<not> lt (h ! k) (h ! heap_parent k)"
    "0 < i \<Longrightarrow> m \<le> heap_parent i \<Longrightarrow> 0 < k \<Longrightarrow> k < n \<Longrightarrow> heap_parent k = i \<Longrightarrow> \<not> lt (h ! k) (h ! heap_parent i)"
  using assms unfolding down_inv_def by blast+

lemma down_inv_step:
  assumes "less_order_on (set h) lt" "down_inv lt m n i h" "j < n" "0 < j" "heap_parent j = i" "lt (h ! j) (h ! i)"
    and least: "\<And>k. 0 < k \<Longrightarrow> k < n \<Longrightarrow> heap_parent k = i \<Longrightarrow> \<not> lt (h ! k) (h ! j)"
  shows "down_inv lt m n j (heap_swap i j h)"
proof -
  let ?h = "heap_swap i j h"
  note d = down_invD [OF assms(2)] and o = less_order_onD [OF assms(1) subset_refl]
  have ij: "i < j" "i < length h" "j < length h" using assms(3-5) d(2) by auto
  note sw = nth_heap_swap [OF ij(2,3)]
  have "\<not> lt (?h ! k) (?h ! heap_parent k)" if k: "0 < k" "k < n" "m \<le> heap_parent k" "heap_parent k \<noteq> j" for k
  proof -
    have pk: "heap_parent k < k" using k(1) by auto
    consider "k = j" | "heap_parent k = i" "k \<noteq> j" | "k = i" | "heap_parent k \<noteq> i" "k \<noteq> i" "k \<noteq> j" by blast
    then show ?thesis
    proof cases
      case 1
      with assms(5,6) o(1) [OF ij(3,2)] ij show ?thesis by (simp add: sw)
    next
      case 2
      with least [OF k(1,2)] pk show ?thesis by (auto simp: sw)
    next
      case 3
      with d(4) [OF _ _ assms(4,3,5)] k pk ij show ?thesis by (simp add: sw)
    next
      case 4
      with d(3) [OF k(1-3)] k(4) show ?thesis by (simp add: sw)
    qed
  qed
  moreover have "\<not> lt (?h ! k) (?h ! heap_parent j)" if k: "0 < k" "k < n" "heap_parent k = j" for k
  proof -
    have "k \<noteq> i" "k \<noteq> j" using k ij by auto
    with d(3) [OF k(1,2)] k(3) d(1) ij assms(5) show ?thesis by (simp add: sw)
  qed
  ultimately show ?thesis using d(1,2) ij by (simp add: down_inv_def)
qed

lemma heap_down_ok:
  assumes "less_order_on A lt" "set h = A" "down_inv lt m n i h"
  shows "\<forall>k. 0 < k \<and> k < n \<and> m \<le> heap_parent k \<longrightarrow> \<not> lt (snd (heap_down lt i n h) ! k) (snd (heap_down lt i n h) ! heap_parent k)"
  using assms
proof (induction lt i n h rule: heap_down.induct)
  case (1 lt i n h)
  let ?j1 = "2 * i + 1"
  define j where "j = (if ?j1 + 1 < n \<and> lt (h ! (?j1 + 1)) (h ! ?j1) then ?j1 + 1 else ?j1)"
  note d = down_invD [OF "1.prems"(3)]
  have o: "less_order_on (set h) lt" using "1.prems"(1,2) by simp
  note od = less_order_onD [OF o subset_refl]
  have kids: "k = ?j1 \<or> k = ?j1 + 1" if "0 < k" "heap_parent k = i" for k using that by auto
  show ?case
  proof (cases "?j1 \<ge> n \<or> \<not> lt (h ! j) (h ! i)")
    case True
    then have stop: "heap_down lt i n h = (i, h)" by (auto simp: heap_down.simps [of lt i n h] Let_def j_def)
    have "\<not> lt (h ! k) (h ! i)" if k: "0 < k" "k < n" "heap_parent k = i" for k
    proof -
      have n: "?j1 < n" "\<not> lt (h ! j) (h ! i)" "i < length h" "j < n" using True kids [OF k(1,3)] k(2) d(2) by (auto simp: j_def)
      have "\<not> lt (h ! k) (h ! j)"
        using kids [OF k(1,3)] k(2) od(1,2) [of "?j1 + 1" ?j1] od(2) [of k k] n d(2) by (auto simp: j_def)
      with od(3) [of i j k] n k(2) d(2) show ?thesis by auto
    qed
    with d(3) show ?thesis by (auto simp: stop)
  next
    case False
    let ?h = "heap_swap i j h"
    have j: "j < n" "0 < j" "heap_parent j = i" "i < length h" "j < length h" using False d(2) by (auto simp: j_def)
    have "\<not> lt (h ! k) (h ! j)" if k: "0 < k" "k < n" "heap_parent k = i" for k
      using kids [OF k(1,3)] k(2) od(1,2) [of "?j1 + 1" ?j1] od(2) [of k k] False d(2) by (auto simp: j_def)
    from down_inv_step [OF o "1.prems"(3) j(1-3) _ this] False have "down_inv lt m n j ?h" by blast
    moreover have "set ?h = A" using mset_heap_swap [OF j(4,5)] "1.prems"(2) by (metis set_mset_mset)
    moreover have "heap_down lt i n h = heap_down lt j n ?h" using False by (auto simp: heap_down.simps [of lt i n h] Let_def j_def)
    ultimately show ?thesis using "1.IH" [OF refl _ refl j_def] "1.prems"(1) False by simp
  qed
qed

subsection \<open>The operations\<close>

lemma heap_down_ok_0:
  assumes "less_order_on (set h) lt" "down_inv lt 0 n 0 h" "i = 0"
  shows "heap_ok lt n (snd (heap_down lt i n h))"
  using heap_down_ok [OF assms(1) refl assms(2)] by (simp add: heap_ok_def assms(3))

lemma heap_Init_loop_ok:
  assumes "less_order_on A lt" "set h = A" "n \<le> length h"
    and "\<forall>k. 0 < k \<and> k < length h \<and> n \<le> heap_parent k \<longrightarrow> \<not> lt (h ! k) (h ! heap_parent k)"
  shows "heap_ok lt (length h) (heap_Init_loop lt n h) \<and> mset (heap_Init_loop lt n h) = mset h"
  using assms(2-4)
proof (induction n arbitrary: h)
  case 0
  then show ?case by (simp add: heap_ok_def)
next
  case (Suc n)
  let ?h = "snd (heap_down lt n (length h) h)"
  have keep: "length ?h = length h" "mset ?h = mset h" using heap_down_keeps [of n h "length h" lt] Suc.prems(2) by auto
  have "down_inv lt n (length h) n h" using Suc.prems(3) by (auto simp: down_inv_def)
  from heap_down_ok [OF assms(1) Suc.prems(1) this] Suc.IH [of ?h] Suc.prems(1,2) keep mset_eq_setD [OF keep(2)]
  show ?case by simp
qed

lemma heap_Init_ok:
  assumes "less_order_on (set h) lt"
  shows "heap_ok lt (length h) (heap_Init lt h)" "mset (heap_Init lt h) = mset h"
proof -
  have "\<not> length h div 2 \<le> heap_parent k" if "0 < k" "k < length h" for k using that by auto
  then have "\<forall>k. 0 < k \<and> k < length h \<and> length h div 2 \<le> heap_parent k \<longrightarrow> \<not> lt (h ! k) (h ! heap_parent k)" by blast
  from heap_Init_loop_ok [OF assms refl _ this] show "heap_ok lt (length h) (heap_Init lt h)" "mset (heap_Init lt h) = mset h"
    by (simp_all add: heap_Init_def)
qed

lemma heap_Push_ok:
  assumes "less_order_on (insert x (set h)) lt" "heap_ok lt (length h) h"
  shows "heap_ok lt (Suc (length h)) (heap_Push lt x h)" "mset (heap_Push lt x h) = add_mset x (mset h)"
proof -
  have par: "heap_parent k < k" if "0 < k" for k using that by auto
  have "up_inv lt (length h) (h @ [x])"
    using assms(2) par by (fastforce simp: up_inv_def heap_ok_def nth_append)
  from heap_up_ok [OF assms(1) _ this] show "heap_ok lt (Suc (length h)) (heap_Push lt x h)" by (simp add: heap_Push_def)
  show "mset (heap_Push lt x h) = add_mset x (mset h)"
    using heap_up_keeps [of "length h" "h @ [x]" lt] by (simp add: heap_Push_def)
qed

lemma heap_Fix_ok:
  assumes "less_order_on (set h) lt" "h \<noteq> []" "\<forall>k. 0 < k \<and> k < length h \<and> heap_parent k \<noteq> 0 \<longrightarrow> \<not> lt (h ! k) (h ! heap_parent k)"
  shows "heap_ok lt (length h) (heap_Fix lt 0 h)" "mset (heap_Fix lt 0 h) = mset h"
proof -
  have "down_inv lt 0 (length h) 0 h" using assms(3) by (simp add: down_inv_def)
  from heap_down_ok_0 [OF assms(1) this refl] heap_down_keeps [of 0 h "length h" lt] assms(2)
  show "heap_ok lt (length h) (heap_Fix lt 0 h)" "mset (heap_Fix lt 0 h) = mset h"
    by (auto simp: heap_Fix_def heap_up.simps [of lt 0] split: prod.splits)
qed

text \<open>When the root of a heap is replaced, only the root may be out of order.\<close>

lemma heap_ok_root:
  assumes "heap_ok lt (length (x # rest)) (x # rest)"
  shows "\<forall>k. 0 < k \<and> k < length (y # rest) \<and> heap_parent k \<noteq> 0 \<longrightarrow> \<not> lt ((y # rest) ! k) ((y # rest) ! heap_parent k)"
proof (intro allI impI)
  fix k assume k: "0 < k \<and> k < length (y # rest) \<and> heap_parent k \<noteq> 0"
  then have "(y # rest) ! k = (x # rest) ! k" "(y # rest) ! heap_parent k = (x # rest) ! heap_parent k"
    by (simp_all only: nth_Cons' if_False) simp_all
  moreover have "\<not> lt ((x # rest) ! k) ((x # rest) ! heap_parent k)" using assms k unfolding heap_ok_def by (metis length_Cons)
  ultimately show "\<not> lt ((y # rest) ! k) ((y # rest) ! heap_parent k)" by (simp only: not_False_eq_True)
qed

lemma heap_down_append:
  "n \<le> length h \<Longrightarrow> i < n \<or> n \<le> 2 * i + 1 \<Longrightarrow> heap_down lt i n (h @ t) = (fst (heap_down lt i n h), snd (heap_down lt i n h) @ t)"
proof (induction lt i n h rule: heap_down.induct)
  case (1 lt i n h)
  let ?j1 = "2 * i + 1"
  define j where "j = (if ?j1 + 1 < n \<and> lt (h ! (?j1 + 1)) (h ! ?j1) then ?j1 + 1 else ?j1)"
  have eq: "heap_down lt i n (h @ t) = (if ?j1 \<ge> n \<or> \<not> lt (h ! j) (h ! i) then (i, h @ t) else heap_down lt j n (heap_swap i j h @ t))"
    if "\<not> ?j1 \<ge> n"
  proof -
    have "j < length h" "i < length h" using that "1.prems" by (auto simp: j_def)
    then show ?thesis using that "1.prems"(1)
      by (auto simp: heap_down.simps [of lt i n "h @ t"] Let_def j_def nth_append heap_swap_def list_update_append)
  qed
  show ?case
  proof (cases "?j1 \<ge> n \<or> \<not> lt (h ! j) (h ! i)")
    case True
    then show ?thesis using eq by (auto simp: heap_down.simps [of lt i n] Let_def j_def)
  next
    case False
    then have "heap_down lt i n h = heap_down lt j n (heap_swap i j h)" by (auto simp: heap_down.simps [of lt i n h] Let_def j_def)
    moreover have "j < n" using False by (auto simp: j_def)
    ultimately show ?thesis using "1.IH" [OF refl _ refl j_def] "1.prems" False eq by simp
  qed
qed

text \<open>The root goes; only the other elements are compared, and the root may be out of order.\<close>

lemma heap_Pop_ok:
  assumes "less_order_on (set rest) lt" "h = root # rest"
    and "\<forall>k. 0 < k \<and> k < length h \<and> heap_parent k \<noteq> 0 \<longrightarrow> \<not> lt (h ! k) (h ! heap_parent k)"
  shows "fst (heap_Pop lt h) = root \<and> heap_ok lt (length rest) (snd (heap_Pop lt h)) \<and> mset (snd (heap_Pop lt h)) = mset rest"
proof (cases "rest = []")
  case True
  then show ?thesis by (simp add: assms(2) heap_Pop_def heap_swap_def heap_down.simps heap_ok_def)
next
  case False
  define h' where "h' = last rest # butlast rest"
  have len: "length h' = length rest" "h' \<noteq> []" using False by (simp_all add: h'_def)
  have "heap_swap 0 (length rest) h = h' @ [root]"
    using False by (cases rest rule: rev_cases) (simp_all add: heap_swap_def assms(2) h'_def nth_append list_update_append)
  then have pop: "heap_Pop lt h = (root, snd (heap_down lt 0 (length rest) h'))"
    using heap_down_append [of "length rest" h' 0 lt "[root]"] len False by (simp add: heap_Pop_def Let_def assms(2))
  have ms: "mset h' = mset rest" using False by (cases rest rule: rev_cases) (simp_all add: h'_def)
  have nth: "h' ! k = h ! k" if "0 < k" "k < length rest" for k
    using that False by (cases rest rule: rev_cases; cases k) (auto simp: h'_def assms(2) nth_append)
  have par: "heap_parent k < k" if "0 < k" for k using that by auto
  have "\<not> lt (h' ! k) (h' ! heap_parent k)" if k: "0 < k" "k < length rest" "heap_parent k \<noteq> 0" for k
  proof -
    have "h' ! heap_parent k = h ! heap_parent k" using nth [of "heap_parent k"] par [OF k(1)] k by simp
    with assms(2,3) nth [OF k(1,2)] k show ?thesis by simp
  qed
  then have "down_inv lt 0 (length rest) 0 h'" using len by (simp add: down_inv_def)
  moreover have "less_order_on (set h') lt" using assms(1) mset_eq_setD [OF ms] by simp
  ultimately have "heap_ok lt (length rest) (snd (heap_down lt 0 (length rest) h'))" using heap_down_ok_0 by blast
  then show ?thesis using pop heap_down_keeps [of 0 h' "length rest" lt] len ms False by simp
qed

end
