(* ===== verification/Staker_Iterators.thy ===== *)
theory Staker_Iterators
  imports Go_Heap Id_Bits
begin

text \<open>
  Stakers and the iterators over them (\<^verbatim>\<open>staker.go\<close>, \<^verbatim>\<open>tree_iterator.go\<close>, \<^verbatim>\<open>merged_iterator.go\<close>, \<^verbatim>\<open>masked_iterator.go\<close> and
  \<^verbatim>\<open>staker_diff_iterator.go\<close> of \<^verbatim>\<open>vms/omegavm/state\<close>, and \<^verbatim>\<open>priorities.go\<close> of \<^verbatim>\<open>vms/omegavm/txs\<close>). Times are integers. An iterator
  over a tree is what is left of the ascending walk over the tree: the goroutine and the channels that the code
  uses for it only hand over one staker after the other. \<^verbatim>\<open>Release\<close> stops that goroutine and is left out.
\<close>

subsection \<open>Priorities\<close>

type_synonym Priority = u8

definition PrimaryNetworkDelegatorApricotPendingPriority :: Priority where
  "PrimaryNetworkDelegatorApricotPendingPriority = 1"

definition PrimaryNetworkValidatorPendingPriority :: Priority where
  "PrimaryNetworkValidatorPendingPriority = 2"

definition PrimaryNetworkDelegatorBanffPendingPriority :: Priority where
  "PrimaryNetworkDelegatorBanffPendingPriority = 3"

definition SubnetPermissionlessValidatorPendingPriority :: Priority where
  "SubnetPermissionlessValidatorPendingPriority = 4"

definition SubnetPermissionlessDelegatorPendingPriority :: Priority where
  "SubnetPermissionlessDelegatorPendingPriority = 5"

definition SubnetPermissionedValidatorPendingPriority :: Priority where
  "SubnetPermissionedValidatorPendingPriority = 6"

definition SubnetPermissionedValidatorCurrentPriority :: Priority where
  "SubnetPermissionedValidatorCurrentPriority = 7"

definition SubnetPermissionlessDelegatorCurrentPriority :: Priority where
  "SubnetPermissionlessDelegatorCurrentPriority = 8"

definition SubnetPermissionlessValidatorCurrentPriority :: Priority where
  "SubnetPermissionlessValidatorCurrentPriority = 9"

definition PrimaryNetworkDelegatorCurrentPriority :: Priority where
  "PrimaryNetworkDelegatorCurrentPriority = 10"

definition PrimaryNetworkValidatorCurrentPriority :: Priority where
  "PrimaryNetworkValidatorCurrentPriority = 11"

lemmas priorities =
  PrimaryNetworkDelegatorApricotPendingPriority_def PrimaryNetworkValidatorPendingPriority_def
  PrimaryNetworkDelegatorBanffPendingPriority_def SubnetPermissionlessValidatorPendingPriority_def
  SubnetPermissionlessDelegatorPendingPriority_def SubnetPermissionedValidatorPendingPriority_def
  SubnetPermissionedValidatorCurrentPriority_def SubnetPermissionlessDelegatorCurrentPriority_def
  SubnetPermissionlessValidatorCurrentPriority_def PrimaryNetworkDelegatorCurrentPriority_def
  PrimaryNetworkValidatorCurrentPriority_def

text \<open>The slice has an entry for every index up to the largest key; 0 has the zero value. An index that is out of range
  panics.\<close>

definition PendingToCurrentPriorities :: "Priority list" where
  "PendingToCurrentPriorities =
     [0, PrimaryNetworkDelegatorCurrentPriority, PrimaryNetworkValidatorCurrentPriority,
      PrimaryNetworkDelegatorCurrentPriority, SubnetPermissionlessValidatorCurrentPriority,
      SubnetPermissionlessDelegatorCurrentPriority, SubnetPermissionedValidatorCurrentPriority]"

definition current_priority :: "Priority \<Rightarrow> Priority option" where
  "current_priority p = (if unat p < length PendingToCurrentPriorities then Some (PendingToCurrentPriorities ! unat p) else None)"

definition IsCurrentValidator :: "Priority \<Rightarrow> bool" where
  "IsCurrentValidator p \<longleftrightarrow> p = PrimaryNetworkValidatorCurrentPriority \<or> p = SubnetPermissionedValidatorCurrentPriority
     \<or> p = SubnetPermissionlessValidatorCurrentPriority"

definition IsCurrentDelegator :: "Priority \<Rightarrow> bool" where
  "IsCurrentDelegator p \<longleftrightarrow> p = PrimaryNetworkDelegatorCurrentPriority \<or> p = SubnetPermissionlessDelegatorCurrentPriority"

definition IsPendingValidator :: "Priority \<Rightarrow> bool" where
  "IsPendingValidator p \<longleftrightarrow> p = PrimaryNetworkValidatorPendingPriority \<or> p = SubnetPermissionedValidatorPendingPriority
     \<or> p = SubnetPermissionlessValidatorPendingPriority"

definition IsPendingDelegator :: "Priority \<Rightarrow> bool" where
  "IsPendingDelegator p \<longleftrightarrow> p = PrimaryNetworkDelegatorBanffPendingPriority \<or> p = PrimaryNetworkDelegatorApricotPendingPriority
     \<or> p = SubnetPermissionlessDelegatorPendingPriority"

definition IsCurrent :: "Priority \<Rightarrow> bool" where
  "IsCurrent p \<longleftrightarrow> IsCurrentValidator p \<or> IsCurrentDelegator p"

definition IsPending :: "Priority \<Rightarrow> bool" where
  "IsPending p \<longleftrightarrow> IsPendingValidator p \<or> IsPendingDelegator p"

definition IsValidator :: "Priority \<Rightarrow> bool" where
  "IsValidator p \<longleftrightarrow> IsCurrentValidator p \<or> IsPendingValidator p"

definition IsPermissionedValidator :: "Priority \<Rightarrow> bool" where
  "IsPermissionedValidator p \<longleftrightarrow> p = SubnetPermissionedValidatorCurrentPriority \<or> p = SubnetPermissionedValidatorPendingPriority"

definition IsDelegator :: "Priority \<Rightarrow> bool" where
  "IsDelegator p \<longleftrightarrow> IsCurrentDelegator p \<or> IsPendingDelegator p"

lemmas priority_kinds = IsCurrentValidator_def IsCurrentDelegator_def IsPendingValidator_def IsPendingDelegator_def IsCurrent_def
  IsPending_def IsValidator_def IsPermissionedValidator_def IsDelegator_def

text \<open>Moving a staker from pending to current keeps its kind.\<close>

lemma current_priority_kinds:
  assumes "IsPending p"
  obtains q where "current_priority p = Some q" "IsCurrent q" "IsValidator q = IsValidator p" "IsDelegator q = IsDelegator p"
    "IsPermissionedValidator q = IsPermissionedValidator p"
  using assms that by (auto simp: priority_kinds priorities current_priority_def PendingToCurrentPriorities_def)

subsection \<open>Stakers\<close>

type_synonym NodeID = "u8 list"

record 'pk Staker =
  st_TxID :: ID
  st_NodeID :: NodeID
  st_PublicKey :: "'pk option"
  st_SubnetID :: ID
  st_Weight :: u64
  st_StartTime :: int
  st_EndTime :: int
  st_PotentialReward :: u64
  st_MintRate :: int
  st_FeePerWeightPaid :: int
  st_NextTime :: int
  st_Priority :: Priority

definition Staker_Less :: "'pk Staker \<Rightarrow> 'pk Staker \<Rightarrow> bool" where
  "Staker_Less s than =
     (if st_NextTime s < st_NextTime than then True
      else if st_NextTime than < st_NextTime s then False
      else if st_Priority s < st_Priority than then True
      else if st_Priority than < st_Priority s then False
      else bytes_less (st_TxID s) (st_TxID than))"

text \<open>What the code reads of the transaction that makes a staker. The public key may fail to parse.\<close>

record 'pk staker_tx =
  tx_PublicKey :: "'pk option option"
  tx_NodeID :: NodeID
  tx_SubnetID :: ID
  tx_Weight :: u64
  tx_StartTime :: int
  tx_EndTime :: int
  tx_CurrentPriority :: Priority
  tx_PendingPriority :: Priority

definition NewCurrentStaker :: "ID \<Rightarrow> 'pk staker_tx \<Rightarrow> u64 \<Rightarrow> 'pk Staker option" where
  "NewCurrentStaker txID staker potentialReward =
     (case tx_PublicKey staker of
        None \<Rightarrow> None
      | Some publicKey \<Rightarrow>
          (let endTime = tx_EndTime staker
           in Some \<lparr>st_TxID = txID, st_NodeID = tx_NodeID staker, st_PublicKey = publicKey, st_SubnetID = tx_SubnetID staker,
             st_Weight = tx_Weight staker, st_StartTime = tx_StartTime staker, st_EndTime = endTime,
             st_PotentialReward = potentialReward, st_MintRate = 0, st_FeePerWeightPaid = 0, st_NextTime = endTime,
             st_Priority = tx_CurrentPriority staker\<rparr>))"

definition NewCurrentStakerWithRewardRate :: "ID \<Rightarrow> 'pk staker_tx \<Rightarrow> u64 \<Rightarrow> int \<Rightarrow> int \<Rightarrow> 'pk Staker option" where
  "NewCurrentStakerWithRewardRate txID staker potentialReward mintRate feePerWeightPaid =
     map_option (\<lambda>newStaker. newStaker\<lparr>st_MintRate := mintRate, st_FeePerWeightPaid := feePerWeightPaid\<rparr>)
       (NewCurrentStaker txID staker potentialReward)"

definition NewPendingStaker :: "ID \<Rightarrow> 'pk staker_tx \<Rightarrow> 'pk Staker option" where
  "NewPendingStaker txID staker =
     (case tx_PublicKey staker of
        None \<Rightarrow> None
      | Some publicKey \<Rightarrow>
          (let startTime = tx_StartTime staker
           in Some \<lparr>st_TxID = txID, st_NodeID = tx_NodeID staker, st_PublicKey = publicKey, st_SubnetID = tx_SubnetID staker,
             st_Weight = tx_Weight staker, st_StartTime = startTime, st_EndTime = tx_EndTime staker,
             st_PotentialReward = 0, st_MintRate = 0, st_FeePerWeightPaid = 0, st_NextTime = startTime,
             st_Priority = tx_PendingPriority staker\<rparr>))"

subsection \<open>The order of the stakers\<close>

text \<open>The key by which stakers are compared: of equal keys, neither is less.\<close>

definition staker_key :: "'pk Staker \<Rightarrow> int \<times> Priority \<times> ID" where
  "staker_key s = (st_NextTime s, st_Priority s, st_TxID s)"

lemma Staker_Less_iff:
  "Staker_Less s t \<longleftrightarrow> st_NextTime s < st_NextTime t \<or> st_NextTime s = st_NextTime t
     \<and> (st_Priority s < st_Priority t \<or> st_Priority s = st_Priority t \<and> bytes_less (st_TxID s) (st_TxID t))"
  by (auto simp: Staker_Less_def)

lemma Staker_Less_order:
  "\<not> Staker_Less s s" "Staker_Less s t \<Longrightarrow> Staker_Less t u \<Longrightarrow> Staker_Less s u"
  "Staker_Less s t \<or> staker_key s = staker_key t \<or> Staker_Less t s"
  "staker_key s = staker_key t \<Longrightarrow> Staker_Less s u = Staker_Less t u"
  "staker_key s = staker_key t \<Longrightarrow> Staker_Less u s = Staker_Less u t"
  using bytes_less_irrefl [of "st_TxID s"] bytes_less_trans [of "st_TxID s" "st_TxID t" "st_TxID u"]
    bytes_less_linear [of "st_TxID s" "st_TxID t"]
  by (auto simp: Staker_Less_iff staker_key_def)

lemma Staker_Less_asym: "Staker_Less s t \<Longrightarrow> \<not> Staker_Less t s"
  using Staker_Less_order(1,2) by blast

lemma Staker_Less_neg_trans: "\<not> Staker_Less t s \<Longrightarrow> \<not> Staker_Less u t \<Longrightarrow> \<not> Staker_Less u s"
  using Staker_Less_order by metis

subsection \<open>Iterators\<close>

datatype 'pk StakerIterator =
    EmptyIterator
  | treeIterator "'pk Staker option" "'pk Staker list"
  | mergedIterator bool "'pk StakerIterator list"
  | maskedIterator "'pk StakerIterator" "ID \<rightharpoonup> 'pk Staker"

fun si_Value :: "'pk StakerIterator \<Rightarrow> 'pk Staker option" where
  "si_Value EmptyIterator = None"
| "si_Value (treeIterator current next) = current"
| "si_Value (mergedIterator initialized []) = None"
| "si_Value (mergedIterator initialized (it # _)) = si_Value it"
| "si_Value (maskedIterator parentIterator maskedStakers) = si_Value parentIterator"

text \<open>The comparison of the heap of a merged iterator; a nil pointer would panic, but the heap holds only iterators with
  a value.\<close>

definition si_Less :: "'pk StakerIterator \<Rightarrow> 'pk StakerIterator \<Rightarrow> bool" where
  "si_Less i j = (case si_Value i of None \<Rightarrow> False | Some s \<Rightarrow> (case si_Value j of None \<Rightarrow> False | Some t \<Rightarrow> Staker_Less s t))"

text \<open>None is a call that does not return.\<close>

partial_function (option) si_Next :: "'pk StakerIterator \<Rightarrow> (bool \<times> 'pk StakerIterator) option" where
  "si_Next it =
     (case it of
        EmptyIterator \<Rightarrow> Some (False, it)
      | treeIterator current next \<Rightarrow>
          (case next of
             [] \<Rightarrow> Some (False, treeIterator None [])
           | staker # rest \<Rightarrow> Some (True, treeIterator (Some staker) rest))
      | mergedIterator initialized heap \<Rightarrow>
          (case heap of
             [] \<Rightarrow> Some (False, it)
           | current # rest \<Rightarrow>
               if \<not> initialized then Some (True, mergedIterator True heap)
               else Option.bind (si_Next current) (\<lambda>(ok, current).
                 if ok then Some (True, mergedIterator True (heap_Fix si_Less 0 (current # rest)))
                 else let heap = snd (heap_Pop si_Less (current # rest))
                   in Some (heap \<noteq> [], mergedIterator True heap)))
      | maskedIterator parentIterator maskedStakers \<Rightarrow>
          Option.bind (si_Next parentIterator) (\<lambda>(ok, parentIterator).
            if ok then
              (case si_Value parentIterator of
                 None \<Rightarrow> None
               | Some staker \<Rightarrow>
                   if maskedStakers (st_TxID staker) = None then Some (True, maskedIterator parentIterator maskedStakers)
                   else si_Next (maskedIterator parentIterator maskedStakers))
            else Some (False, maskedIterator parentIterator maskedStakers)))"

lemma si_Next_basic [simp]:
  "si_Next EmptyIterator = Some (False, EmptyIterator)"
  "si_Next (treeIterator current []) = Some (False, treeIterator None [])"
  "si_Next (treeIterator current (s # rest)) = Some (True, treeIterator (Some s) rest)"
  "si_Next (mergedIterator initialized []) = Some (False, mergedIterator initialized [])"
  "si_Next (mergedIterator False (it # its)) = Some (True, mergedIterator True (it # its))"
  by (subst si_Next.simps, simp)+

lemma si_Next_merged:
  "si_Next (mergedIterator True (it # rest)) = Option.bind (si_Next it) (\<lambda>(ok, it).
     if ok then Some (True, mergedIterator True (heap_Fix si_Less 0 (it # rest)))
     else Some (snd (heap_Pop si_Less (it # rest)) \<noteq> [], mergedIterator True (snd (heap_Pop si_Less (it # rest)))))"
  by (subst si_Next.simps) (simp add: Let_def cong: if_cong)

lemma si_Next_masked:
  "si_Next (maskedIterator it m) = Option.bind (si_Next it) (\<lambda>(ok, it).
     if ok then (case si_Value it of None \<Rightarrow> None
       | Some s \<Rightarrow> if m (st_TxID s) = None then Some (True, maskedIterator it m) else si_Next (maskedIterator it m))
     else Some (False, maskedIterator it m))"
  by (subst si_Next.simps) simp

text \<open>An iterator that is exhausted is replaced by the last one.\<close>

function filter_exhausted :: "nat \<Rightarrow> 'pk StakerIterator list \<Rightarrow> 'pk StakerIterator list option" where
  "filter_exhausted i stakers =
     (if i < length stakers then
        Option.bind (si_Next (stakers ! i)) (\<lambda>(ok, staker).
          if ok then filter_exhausted (i + 1) (stakers[i := staker])
          else filter_exhausted i (butlast (stakers[i := last stakers])))
      else Some stakers)"
  by pat_completeness auto
termination
  by (relation "measure (\<lambda>(i, stakers). length stakers - i)") auto

declare filter_exhausted.simps [simp del]

definition NewMergedIterator :: "'pk StakerIterator list \<Rightarrow> 'pk StakerIterator option" where
  "NewMergedIterator stakers =
     Option.bind (filter_exhausted 0 stakers) (\<lambda>heap. Some (mergedIterator False (heap_Init si_Less heap)))"

definition NewMaskedIterator :: "'pk StakerIterator \<Rightarrow> (ID \<rightharpoonup> 'pk Staker) \<Rightarrow> 'pk StakerIterator" where
  "NewMaskedIterator parentIterator maskedStakers = maskedIterator parentIterator maskedStakers"

subsection \<open>What an iterator yields\<close>

inductive yields :: "'pk StakerIterator \<Rightarrow> 'pk Staker list \<Rightarrow> bool" where
  yields_end: "si_Next it = Some (False, it') \<Longrightarrow> yields it []"
| yields_item: "si_Next it = Some (True, it') \<Longrightarrow> si_Value it' = Some s \<Longrightarrow> yields it' ss \<Longrightarrow> yields it (s # ss)"

inductive_cases yields_NilE: "yields it []"
inductive_cases yields_ConsE: "yields it (s # ss)"

lemma yields_unique: "yields it ss \<Longrightarrow> yields it ss' \<Longrightarrow> ss = ss'"
proof (induction arbitrary: ss' rule: yields.induct)
  case (yields_end it it')
  then show ?case by (cases ss') (auto elim: yields_ConsE)
next
  case (yields_item it it' s ss)
  show ?case
  proof (cases ss')
    case Nil
    with yields_item(1,5) show ?thesis by (auto elim: yields_NilE)
  next
    case (Cons t ts)
    with yields_item(5) obtain it'' where "si_Next it = Some (True, it'')" "si_Value it'' = Some t" "yields it'' ts"
      by (auto elim: yields_ConsE)
    with yields_item(1,2) yields_item(4) [of ts] Cons show ?thesis by simp
  qed
qed

lemma yields_empty: "yields EmptyIterator []"
  by (rule yields_end) simp

lemma yields_tree: "yields (treeIterator current ss) ss"
proof (induction ss arbitrary: current)
  case Nil
  show ?case by (rule yields_end) simp
next
  case (Cons s ss)
  show ?case by (rule yields_item [OF _ _ Cons.IH [of "Some s"]]) simp_all
qed

text \<open>A masked iterator leaves out the masked stakers.\<close>

lemma yields_masked: "yields it ss \<Longrightarrow> yields (maskedIterator it m) (filter (\<lambda>s. m (st_TxID s) = None) ss)"
proof (induction rule: yields.induct)
  case (yields_end it it')
  then have "si_Next (maskedIterator it m) = Some (False, maskedIterator it' m)" by (simp add: si_Next_masked [of it m])
  then show ?case by (auto intro: yields.yields_end)
next
  case (yields_item it it' s ss)
  let ?next = "si_Next (maskedIterator it m)"
  show ?case
  proof (cases "m (st_TxID s)")
    case None
    with yields_item(1,2) have "?next = Some (True, maskedIterator it' m)" by (simp add: si_Next_masked [of it m])
    with yields_item(2,4) None show ?thesis by (auto intro: yields.yields_item)
  next
    case (Some t)
    with yields_item(1,2) have eq: "?next = si_Next (maskedIterator it' m)" by (simp add: si_Next_masked [of it m])
    from yields_item(4) have "yields (maskedIterator it m) (filter (\<lambda>s. m (st_TxID s) = None) ss)"
      by (cases rule: yields.cases) (use eq in \<open>auto intro: yields.intros\<close>)
    with Some show ?thesis by simp
  qed
qed

subsection \<open>Merging\<close>

text \<open>An iterator that stands at the first staker of a sorted queue.\<close>

definition stands_at :: "'pk StakerIterator \<Rightarrow> 'pk Staker list \<Rightarrow> bool" where
  "stands_at it q \<longleftrightarrow> (\<exists>s ss. q = s # ss \<and> si_Value it = Some s \<and> yields it ss)"

abbreviation staker_sorted :: "'pk Staker list \<Rightarrow> bool" where
  "staker_sorted \<equiv> sorted_wrt (\<lambda>s t. \<not> Staker_Less t s)"

definition queue_of :: "'pk StakerIterator \<Rightarrow> 'pk Staker list" where
  "queue_of it = (THE q. stands_at it q)"

lemma queue_of_eq: "stands_at it q \<Longrightarrow> queue_of it = q"
  unfolding queue_of_def by (rule the_equality) (auto simp: stands_at_def dest: yields_unique)

definition queued :: "'pk StakerIterator list \<Rightarrow> 'pk Staker multiset" where
  "queued h = (\<Sum>it \<in># mset h. mset (queue_of it))"

definition heap_ready :: "'pk StakerIterator list \<Rightarrow> bool" where
  "heap_ready h \<longleftrightarrow> (\<forall>it \<in> set h. stands_at it (queue_of it) \<and> staker_sorted (queue_of it))"

lemma heap_readyD: "heap_ready h \<Longrightarrow> it \<in> set h \<Longrightarrow> \<exists>s ss. queue_of it = s # ss \<and> si_Value it = Some s \<and> yields it ss \<and> staker_sorted (s # ss)"
  by (metis heap_ready_def stands_at_def)

lemma heap_ready_order: "heap_ready h \<Longrightarrow> less_order_on (set h) si_Less"
  unfolding less_order_on_def
proof (intro conjI ballI impI)
  assume h: "heap_ready h"
  fix a b c assume "a \<in> set h" "b \<in> set h" "c \<in> set h"
  with heap_readyD [OF h] obtain s t u where v: "si_Value a = Some s" "si_Value b = Some t" "si_Value c = Some u" by metis
  show "si_Less a b \<Longrightarrow> \<not> si_Less b a" using v Staker_Less_asym by (auto simp: si_Less_def)
  show "\<not> si_Less b a \<Longrightarrow> \<not> si_Less c b \<Longrightarrow> \<not> si_Less c a" using v Staker_Less_neg_trans by (auto simp: si_Less_def)
qed

lemma queued_mset: "mset h = mset h' \<Longrightarrow> queued h = queued h'" "queued (it # h) = mset (queue_of it) + queued h" "queued [] = {#}"
  by (simp_all add: queued_def)

lemma heap_ready_mset: "mset h = mset h' \<Longrightarrow> heap_ready h \<Longrightarrow> heap_ready h'"
  by (metis heap_ready_def mset_eq_setD)

lemma heap_root_first:
  assumes "heap_ready h" "heap_ok si_Less (length h) h" "h = it # rest" "si_Value it = Some s" "t \<in># queued h"
  shows "\<not> Staker_Less t s"
proof -
  obtain x where x: "x \<in> set h" "t \<in> set (queue_of x)" using assms(5) by (auto simp: queued_def)
  obtain s' ss where q: "queue_of x = s' # ss" "si_Value x = Some s'" "staker_sorted (s' # ss)" using heap_readyD [OF assms(1) x(1)] by auto
  have "\<not> Staker_Less s' s"
    using heap_root_least [OF heap_ready_order [OF assms(1)] assms(2) x(1)] assms(3,4) q(2) by (simp add: si_Less_def)
  moreover have "\<not> Staker_Less t s'" using q x(2) Staker_Less_order(1) by auto
  ultimately show ?thesis using Staker_Less_neg_trans by blast
qed

text \<open>A merged iterator that stands at the root of its heap: it yields, in order, what is left of all queues.\<close>

lemma yields_merged_heap:
  assumes "heap_ready h" "heap_ok si_Less (length h) h" "h \<noteq> []"
  shows "\<exists>s zs. si_Value (hd h) = Some s \<and> yields (mergedIterator True h) zs \<and> add_mset s (mset zs) = queued h \<and> staker_sorted (s # zs)"
  using assms
proof (induction "size (queued h)" arbitrary: h rule: less_induct)
  case less
  obtain it rest where h: "h = it # rest" using less.prems(3) by (cases h) auto
  obtain s ss where it: "queue_of it = s # ss" "si_Value it = Some s" "yields it ss" "staker_sorted (s # ss)"
    using heap_readyD [OF less.prems(1), of it] h by auto
  note root = heap_root_first [OF less.prems(1,2) h it(2)]
  note below = heap_ok_root [OF less.prems(2) [unfolded h]]
  have ready: "heap_ready rest" using less.prems(1) by (simp add: heap_ready_def h)
  have fin: ?case if "yields (mergedIterator True h) zs" "mset zs = mset ss + queued rest" "staker_sorted zs" for zs
  proof -
    have q: "add_mset s (mset zs) = queued h" using that(2) by (simp add: h queued_mset(2) it(1))
    have "t \<in># queued h" if "t \<in> set zs" for t using that unfolding q [symmetric] by simp
    with root that(3) have "staker_sorted (s # zs)" unfolding sorted_wrt.simps by blast
    with that(1) it(2) h q show ?thesis by (intro exI [of _ s] exI [of _ zs] conjI) simp_all
  qed
  show ?case
  proof (cases ss)
    case Nil
    with it(3) obtain it' where n: "si_Next it = Some (False, it')" by (auto elim: yields_NilE)
    define h' where "h' = snd (heap_Pop si_Less (it' # rest))"
    note p = heap_Pop_ok [OF heap_ready_order [OF ready] refl below, of it', folded h'_def]
    have next_eq: "si_Next (mergedIterator True h) = Some (h' \<noteq> [], mergedIterator True h')"
      using n by (simp add: h si_Next_merged h'_def)
    show ?thesis
    proof (cases "h' = []")
      case True
      with p have "rest = []" by auto
      with True next_eq Nil show ?thesis by (intro fin [of "[]"]) (auto intro: yields_end simp: queued_mset(3))
    next
      case False
      have "heap_ready h'" "queued h' = queued rest" "length h' = length rest"
        using heap_ready_mset [OF _ ready] queued_mset(1) p mset_eq_length by (metis, metis, metis)
      moreover have "size (queued rest) < size (queued h)" by (simp add: h queued_mset(2) it(1))
      ultimately obtain s' zs where z: "si_Value (hd h') = Some s'" "yields (mergedIterator True h') zs"
        "add_mset s' (mset zs) = queued rest" "staker_sorted (s' # zs)"
        using less.hyps [of h'] p False by auto
      then have "yields (mergedIterator True h) (s' # zs)"
        using next_eq False by (cases h') (auto intro: yields_item)
      with z Nil show ?thesis by (intro fin) auto
    qed
  next
    case (Cons s2 ss2)
    with it(3) obtain it' where n: "si_Next it = Some (True, it')" "si_Value it' = Some s2" "yields it' ss2" by (auto elim: yields_ConsE)
    have q: "queue_of it' = s2 # ss2" by (rule queue_of_eq) (use n in \<open>auto simp: stands_at_def\<close>)
    define h' where "h' = heap_Fix si_Less 0 (it' # rest)"
    have ready': "heap_ready (it' # rest)"
      using ready n q it(4) Cons by (auto simp: heap_ready_def stands_at_def)
    note p = heap_Fix_ok [OF heap_ready_order [OF ready'] list.distinct(2) below, folded h'_def]
    have next_eq: "si_Next (mergedIterator True h) = Some (True, mergedIterator True h')" using n by (simp add: h si_Next_merged h'_def)
    have h': "heap_ready h'" "queued h' = mset ss + queued rest" "length h' = length (it' # rest)" "h' \<noteq> []"
      using heap_ready_mset [OF _ ready'] queued_mset(1) [OF p(2)] p(2) mset_eq_length [of h' "it' # rest"] q Cons
      by (auto simp: queued_mset(2))
    moreover have "size (queued h') < size (queued h)" by (simp add: h queued_mset(2) it(1) h'(2))
    ultimately obtain s' zs where z: "si_Value (hd h') = Some s'" "yields (mergedIterator True h') zs"
      "add_mset s' (mset zs) = queued h'" "staker_sorted (s' # zs)"
      using less.hyps [of h'] p(1) by auto
    then have "yields (mergedIterator True h) (s' # zs)"
      using next_eq h'(4) by (cases h') (auto intro: yields_item)
    with z h'(2) show ?thesis by (intro fin) auto
  qed
qed

definition rest_of :: "'pk StakerIterator \<Rightarrow> 'pk Staker list" where
  "rest_of it = (THE q. yields it q)"

lemma rest_of_eq: "yields it q \<Longrightarrow> rest_of it = q"
  unfolding rest_of_def by (rule the_equality) (auto dest: yields_unique)

definition pool :: "'pk StakerIterator list \<Rightarrow> 'pk Staker multiset" where
  "pool its = (\<Sum>it \<in># mset its. mset (rest_of it))"

definition sorted_iterators :: "'pk StakerIterator list \<Rightarrow> bool" where
  "sorted_iterators its \<longleftrightarrow> (\<forall>it \<in> set its. yields it (rest_of it) \<and> staker_sorted (rest_of it))"

lemma butlast_replace:
  assumes "i < length xs"
  shows "take i (butlast (xs[i := last xs])) = take i xs" "mset (drop i (butlast (xs[i := last xs]))) = mset (drop (Suc i) xs)"
proof -
  obtain as a bs where xs: "xs = as @ a # bs" "length as = i"
    using assms by (metis id_take_nth_drop length_take less_imp_le_nat min.absorb2)
  show "take i (butlast (xs[i := last xs])) = take i xs" "mset (drop i (butlast (xs[i := last xs]))) = mset (drop (Suc i) xs)"
    using xs by (cases bs rule: rev_cases; simp add: butlast_append list_update_append)+
qed

lemma filter_exhausted_ready:
  "i \<le> length xs \<Longrightarrow> heap_ready (take i xs) \<Longrightarrow> sorted_iterators (drop i xs) \<Longrightarrow>
   \<exists>h. filter_exhausted i xs = Some h \<and> heap_ready h \<and> queued h = queued (take i xs) + pool (drop i xs)"
proof (induction i xs rule: filter_exhausted.induct)
  case (1 i xs)
  show ?case
  proof (cases "i < length xs")
    case False
    then have "filter_exhausted i xs = Some xs" by (simp add: filter_exhausted.simps [of i xs])
    with False "1.prems" show ?thesis by (simp add: pool_def)
  next
    case True
    define it where "it = xs ! i"
    have dr: "drop i xs = it # drop (Suc i) xs" using True by (simp add: it_def Cons_nth_drop_Suc)
    have y: "yields it (rest_of it)" "staker_sorted (rest_of it)" "sorted_iterators (drop (Suc i) xs)"
      using "1.prems"(3) by (auto simp: sorted_iterators_def dr)
    show ?thesis
    proof (cases "rest_of it")
      case Nil
      with y(1) obtain it' where n: "si_Next it = Some (False, it')" by (auto elim: yields_NilE)
      let ?xs = "butlast (xs[i := last xs])"
      note b = butlast_replace [OF True]
      have "i \<le> length ?xs" "sorted_iterators (drop i ?xs)" "pool (drop i ?xs) = pool (drop i xs)"
        using True y(3) mset_eq_setD [OF b(2)] b(2) Nil by (auto simp: sorted_iterators_def pool_def dr)
      with "1.IH"(2) [OF True, of "(False, it')"] "1.prems"(2) b(1) n True show ?thesis
        by (auto simp: filter_exhausted.simps [of i xs] it_def)
    next
      case (Cons s ss)
      with y(1) obtain it' where n: "si_Next it = Some (True, it')" "si_Value it' = Some s" "yields it' ss" by (auto elim: yields_ConsE)
      have q: "queue_of it' = s # ss" by (rule queue_of_eq) (use n in \<open>auto simp: stands_at_def\<close>)
      let ?xs = "xs[i := it']"
      have t: "take (i + 1) ?xs = take i xs @ [it']" "drop (i + 1) ?xs = drop (Suc i) xs" using True by (simp_all add: take_Suc_conv_app_nth)
      have "heap_ready (take (i + 1) ?xs)"
        unfolding t using "1.prems"(2) n q y(2) Cons by (auto simp: heap_ready_def stands_at_def)
      moreover have "queued (take (i + 1) ?xs) + pool (drop (i + 1) ?xs) = queued (take i xs) + pool (drop i xs)"
        unfolding t dr using q Cons by (simp add: queued_def pool_def)
      ultimately show ?thesis
        using "1.IH"(1) [OF True, of "(True, it')"] n y(3) t(2) True by (auto simp: filter_exhausted.simps [of i xs] it_def)
    qed
  qed
qed

text \<open>A merged iterator yields the stakers of all iterators, in order.\<close>

lemma yields_merged:
  assumes "sorted_iterators its"
  shows "\<exists>it zs. NewMergedIterator its = Some it \<and> yields it zs \<and> mset zs = pool its \<and> staker_sorted zs"
proof -
  obtain h where h: "filter_exhausted 0 its = Some h" "heap_ready h" "queued h = pool its"
    using filter_exhausted_ready [of 0 its] assms by (auto simp: heap_ready_def queued_def)
  define h' where "h' = heap_Init si_Less h"
  note i = heap_Init_ok [OF heap_ready_order [OF h(2)], folded h'_def]
  have h': "heap_ready h'" "queued h' = pool its" "length h' = length h"
    using heap_ready_mset [OF i(2) [symmetric] h(2)] queued_mset(1) [OF i(2)] h(3) mset_eq_length [OF i(2)] by simp_all
  have new: "NewMergedIterator its = Some (mergedIterator False h')" using h(1) by (simp add: NewMergedIterator_def h'_def)
  show ?thesis
  proof (cases h')
    case Nil
    with h'(2) have "yields (mergedIterator False h') []" "pool its = {#}" by (auto intro: yields_end simp: queued_mset(3))
    with new show ?thesis by (intro exI [of _ "mergedIterator False h'"] exI [of _ "[]"]) simp
  next
    case (Cons it rest)
    then obtain s zs where z: "si_Value (hd h') = Some s" "yields (mergedIterator True h') zs"
      "add_mset s (mset zs) = pool its" "staker_sorted (s # zs)"
      using yields_merged_heap [OF h'(1)] i(1) h'(2,3) by auto
    have "yields (mergedIterator False h') (s # zs)" by (rule yields_item [OF _ _ z(2)]) (use Cons z(1) in auto)
    with new z(3,4) show ?thesis by (intro exI [of _ "mergedIterator False h'"] exI [of _ "s # zs"]) simp
  qed
qed

end
