(* ===== verification/Staker_Changes.thy ===== *)
theory Staker_Changes
  imports Staker_Iterators
begin

text \<open>
  The iterator over the changes of the set of current stakers (\<^verbatim>\<open>staker_diff_iterator.go\<close> of \<^verbatim>\<open>vms/omegavm/state\<close>): it merges
  the removal of current stakers with the addition of pending ones, and the later removal of those.
\<close>

subsection \<open>The iterator that can grow\<close>

record 'pk mutableStakerIterator =
  mu_iteratorExhausted :: bool
  mu_iterator :: "'pk StakerIterator"
  mu_heap :: "'pk Staker list"

definition newMutableStakerIterator :: "'pk StakerIterator \<Rightarrow> 'pk mutableStakerIterator option" where
  "newMutableStakerIterator iterator =
     Option.bind (si_Next iterator) (\<lambda>(ok, iterator).
       Some \<lparr>mu_iteratorExhausted = \<not> ok, mu_iterator = iterator, mu_heap = []\<rparr>)"

definition mu_Add :: "'pk Staker \<Rightarrow> 'pk mutableStakerIterator \<Rightarrow> 'pk mutableStakerIterator" where
  "mu_Add staker it = it\<lparr>mu_heap := heap_Push Staker_Less staker (mu_heap it)\<rparr>"

definition mu_Next :: "'pk mutableStakerIterator \<Rightarrow> (bool \<times> 'pk mutableStakerIterator) option" where
  "mu_Next it =
     (let it = (if length (mu_heap it) > 0 then it\<lparr>mu_heap := snd (heap_Pop Staker_Less (mu_heap it))\<rparr> else it)
      in if mu_iteratorExhausted it then Some (length (mu_heap it) > 0, it)
         else case si_Value (mu_iterator it) of
             None \<Rightarrow> None
           | Some nextIteratorStaker \<Rightarrow>
               if length (mu_heap it) = 0 \<or> Staker_Less nextIteratorStaker (mu_heap it ! 0) then
                 (let it = mu_Add nextIteratorStaker it
                  in Option.bind (si_Next (mu_iterator it)) (\<lambda>(ok, iterator).
                       Some (True, it\<lparr>mu_iteratorExhausted := \<not> ok, mu_iterator := iterator\<rparr>)))
               else Some (True, it))"

definition mu_Value :: "'pk mutableStakerIterator \<Rightarrow> 'pk Staker option" where
  "mu_Value it = (case mu_heap it of [] \<Rightarrow> None | s # _ \<Rightarrow> Some s)"

subsection \<open>The iterator over the changes\<close>

record 'pk stakerDiffIterator =
  currentIteratorExhausted :: bool
  currentIterator :: "'pk mutableStakerIterator"
  pendingIteratorExhausted :: bool
  pendingIterator :: "'pk StakerIterator"
  modifiedStaker :: "'pk Staker option"
  isAdded :: bool

definition NewStakerDiffIterator :: "'pk StakerIterator \<Rightarrow> 'pk StakerIterator \<Rightarrow> 'pk stakerDiffIterator option" where
  "NewStakerDiffIterator current pending =
     Option.bind (newMutableStakerIterator current) (\<lambda>mutableCurrentIterator.
     Option.bind (mu_Next mutableCurrentIterator) (\<lambda>(ok, mutableCurrentIterator).
     Option.bind (si_Next pending) (\<lambda>(ok', pending).
       Some \<lparr>currentIteratorExhausted = \<not> ok, currentIterator = mutableCurrentIterator,
         pendingIteratorExhausted = \<not> ok', pendingIterator = pending, modifiedStaker = None, isAdded = False\<rparr>)))"

definition advanceCurrent :: "'pk stakerDiffIterator \<Rightarrow> 'pk stakerDiffIterator option" where
  "advanceCurrent it =
     (let it = it\<lparr>modifiedStaker := mu_Value (currentIterator it), isAdded := False\<rparr>
      in Option.bind (mu_Next (currentIterator it)) (\<lambda>(ok, current).
           Some (it\<lparr>currentIteratorExhausted := \<not> ok, currentIterator := current\<rparr>)))"

definition to_current :: "'pk Staker \<Rightarrow> 'pk Staker option" where
  "to_current s = map_option (\<lambda>p. s\<lparr>st_NextTime := st_EndTime s, st_Priority := p\<rparr>) (current_priority (st_Priority s))"

definition advancePending :: "'pk stakerDiffIterator \<Rightarrow> 'pk stakerDiffIterator option" where
  "advancePending it =
     (let it = it\<lparr>modifiedStaker := si_Value (pendingIterator it), isAdded := True\<rparr>
      in Option.bind (si_Next (pendingIterator it)) (\<lambda>(ok, pending).
         let it = it\<lparr>pendingIteratorExhausted := \<not> ok, pendingIterator := pending\<rparr>
         in Option.bind (modifiedStaker it) (\<lambda>staker.
            Option.bind (to_current staker) (\<lambda>toRemove.
              Some (it\<lparr>currentIteratorExhausted := False, currentIterator := mu_Add toRemove (currentIterator it)\<rparr>)))))"

definition sd_Next :: "'pk stakerDiffIterator \<Rightarrow> (bool \<times> 'pk stakerDiffIterator) option" where
  "sd_Next it =
     (if currentIteratorExhausted it \<and> pendingIteratorExhausted it then Some (False, it)
      else map_option (Pair True)
        (if currentIteratorExhausted it then advancePending it
         else if pendingIteratorExhausted it then advanceCurrent it
         else Option.bind (mu_Value (currentIterator it)) (\<lambda>nextStakerRemoved.
              Option.bind (si_Value (pendingIterator it)) (\<lambda>nextStakerAdded.
                if st_EndTime nextStakerRemoved < st_StartTime nextStakerAdded then advanceCurrent it else advancePending it))))"

definition sd_Value :: "'pk stakerDiffIterator \<Rightarrow> ('pk Staker \<times> bool) option" where
  "sd_Value it = map_option (\<lambda>s. (s, isAdded it)) (modifiedStaker it)"

inductive sd_yields :: "'pk stakerDiffIterator \<Rightarrow> ('pk Staker \<times> bool) list \<Rightarrow> bool" where
  sd_end: "sd_Next it = Some (False, it') \<Longrightarrow> sd_yields it []"
| sd_item: "sd_Next it = Some (True, it') \<Longrightarrow> sd_Value it' = Some e \<Longrightarrow> sd_yields it' es \<Longrightarrow> sd_yields it (e # es)"

subsection \<open>The least staker comes first\<close>

lemma Staker_order: "less_order_on A Staker_Less"
  unfolding less_order_on_def using Staker_Less_asym Staker_Less_neg_trans by blast

text \<open>A queue, what an iterator stands at or nothing, and the heap beside it.\<close>

definition it_queue :: "bool \<Rightarrow> 'pk StakerIterator \<Rightarrow> 'pk Staker list \<Rightarrow> bool" where
  "it_queue exhausted it q \<longleftrightarrow> (if exhausted then q = [] else stands_at it q) \<and> staker_sorted q"

definition mu_ok :: "'pk mutableStakerIterator \<Rightarrow> 'pk Staker list \<Rightarrow> bool" where
  "mu_ok m q \<longleftrightarrow> it_queue (mu_iteratorExhausted m) (mu_iterator m) q \<and> heap_ok Staker_Less (length (mu_heap m)) (mu_heap m)
     \<and> (mu_heap m = [] \<longrightarrow> q = []) \<and> (mu_heap m \<noteq> [] \<longrightarrow> (\<forall>s \<in> set q. \<not> Staker_Less s (mu_heap m ! 0)))"

abbreviation mu_content :: "'pk mutableStakerIterator \<Rightarrow> 'pk Staker list \<Rightarrow> 'pk Staker multiset" where
  "mu_content m q \<equiv> mset (mu_heap m) + mset q"

lemma it_queue_Next:
  assumes "it_queue False it (s # q)"
  obtains ok it' where "si_Next it = Some (ok, it')" "it_queue (\<not> ok) it' q" "si_Value it = Some s"
proof -
  have y: "yields it q" "si_Value it = Some s" "staker_sorted (s # q)" using assms by (auto simp: it_queue_def stands_at_def)
  show thesis
  proof (cases q)
    case Nil
    with y(1) obtain it' where "si_Next it = Some (False, it')" by (auto elim: yields_NilE)
    with that [of False it'] y Nil show ?thesis by (simp add: it_queue_def)
  next
    case (Cons t ts)
    with y(1) obtain it' where "si_Next it = Some (True, it')" "si_Value it' = Some t" "yields it' ts" by (auto elim: yields_ConsE)
    with that [of True it'] y Cons show ?thesis by (auto simp: it_queue_def stands_at_def)
  qed
qed

lemma it_queue_start:
  assumes "yields it q" "staker_sorted q"
  obtains ok it' where "si_Next it = Some (ok, it')" "it_queue (\<not> ok) it' q"
proof (cases q)
  case Nil
  with assms(1) obtain it' where "si_Next it = Some (False, it')" by (auto elim: yields_NilE)
  with that [of False it'] Nil show ?thesis by (simp add: it_queue_def)
next
  case (Cons s ss)
  with assms(1) obtain it' where "si_Next it = Some (True, it')" "si_Value it' = Some s" "yields it' ss" by (auto elim: yields_ConsE)
  with that [of True it'] assms(2) Cons show ?thesis by (auto simp: it_queue_def stands_at_def)
qed

lemma mu_Value_least: "mu_ok m q \<Longrightarrow> mu_Value m = Some s \<Longrightarrow> t \<in># mu_content m q \<Longrightarrow> \<not> Staker_Less t s"
  using heap_root_least [OF Staker_order, of "mu_heap m" t] by (auto simp: mu_ok_def mu_Value_def split: list.splits)

lemma mu_Value_None: "mu_ok m q \<Longrightarrow> mu_Value m = None \<longleftrightarrow> mu_content m q = {#}"
  by (auto simp: mu_ok_def mu_Value_def split: list.splits)

text \<open>After the root of the heap is gone, the next staker of the iterator moves into the heap if it is less than what is
  there.\<close>

definition mu_popped :: "'pk mutableStakerIterator \<Rightarrow> 'pk Staker list" where
  "mu_popped m = (if mu_heap m = [] then [] else snd (heap_Pop Staker_Less (mu_heap m)))"

lemma mu_Next_fill:
  assumes "it_queue (mu_iteratorExhausted m) (mu_iterator m) q" "heap_ok Staker_Less (length (mu_popped m)) (mu_popped m)"
  shows "\<exists>ok m' q'. mu_Next m = Some (ok, m') \<and> mu_ok m' q' \<and> mu_content m' q' = mset (mu_popped m) + mset q \<and> (ok \<longleftrightarrow> mu_heap m' \<noteq> [])"
proof -
  define m1 where "m1 = m\<lparr>mu_heap := mu_popped m\<rparr>"
  have m1: "(if length (mu_heap m) > 0 then m\<lparr>mu_heap := snd (heap_Pop Staker_Less (mu_heap m))\<rparr> else m) = m1"
    by (auto simp: m1_def mu_popped_def)
  show ?thesis
  proof (cases "mu_iteratorExhausted m")
    case True
    then have q: "q = []" using assms(1) by (simp add: it_queue_def)
    have "mu_Next m = Some (mu_popped m \<noteq> [], m1)" using True unfolding mu_Next_def m1 Let_def by (simp add: m1_def)
    moreover have "mu_ok m1 []" using assms True q by (simp add: mu_ok_def m1_def it_queue_def)
    ultimately show ?thesis using q by (intro exI [of _ "mu_popped m \<noteq> []"] exI [of _ m1] exI [of _ "[]"]) (simp add: m1_def)
  next
    case False
    then obtain s ss where q: "q = s # ss" "it_queue False (mu_iterator m) (s # ss)" "staker_sorted (s # ss)"
      using assms(1) by (auto simp: it_queue_def stands_at_def)
    obtain ok it' where n: "si_Next (mu_iterator m) = Some (ok, it')" "it_queue (\<not> ok) it' ss" "si_Value (mu_iterator m) = Some s"
      using it_queue_Next [OF q(2)] by blast
    show ?thesis
    proof (cases "mu_popped m = [] \<or> Staker_Less s (mu_popped m ! 0)")
      case True
      let ?h = "heap_Push Staker_Less s (mu_popped m)"
      let ?m = "m1\<lparr>mu_heap := ?h, mu_iteratorExhausted := \<not> ok, mu_iterator := it'\<rparr>"
      note p = heap_Push_ok [OF Staker_order assms(2), of s]
      have len: "length ?h = Suc (length (mu_popped m))" using mset_eq_length [of ?h "s # mu_popped m"] p(2) by simp
      have "mu_Next m = Some (True, ?m)" using False True n unfolding mu_Next_def m1 Let_def by (simp add: m1_def mu_Add_def)
      moreover have "\<not> Staker_Less t (?h ! 0)" if "t \<in> set ss" for t
      proof -
        have "s \<in> set ?h" using p(2) by (metis set_mset_mset union_single_eq_member)
        then have "\<not> Staker_Less s (?h ! 0)" using heap_root_least [OF Staker_order, of ?h s] p(1) len by simp
        moreover have "\<not> Staker_Less t s" using q(3) that by simp
        ultimately show ?thesis using Staker_Less_neg_trans by blast
      qed
      then have "mu_ok ?m ss" using n(2) p(1) len by (auto simp: mu_ok_def)
      ultimately show ?thesis using p(2) q(1) len by (intro exI [of _ True] exI [of _ ?m] exI [of _ ss]) auto
    next
      case keep: False
      then have "mu_Next m = Some (True, m1)" using False n(3) unfolding mu_Next_def m1 Let_def by (simp add: m1_def)
      moreover have "mu_ok m1 q"
        using assms keep False q(1,3) Staker_Less_neg_trans by (auto simp: mu_ok_def m1_def)
      ultimately show ?thesis using keep by (intro exI [of _ True] exI [of _ m1] exI [of _ q]) (simp add: m1_def)
    qed
  qed
qed

lemma mu_Next_ok:
  assumes "mu_ok m q" "mu_Value m = Some s"
  obtains ok m' q' where "mu_Next m = Some (ok, m')" "mu_ok m' q'" "mu_content m q = add_mset s (mu_content m' q')"
    "ok \<longleftrightarrow> mu_heap m' \<noteq> []"
proof -
  obtain rest where h: "mu_heap m = s # rest" using assms(2) by (auto simp: mu_Value_def split: list.splits)
  have "heap_ok Staker_Less (length (s # rest)) (s # rest)" using assms(1) h by (simp add: mu_ok_def)
  from heap_Pop_ok [OF Staker_order refl heap_ok_root [OF this]]
  have p: "heap_ok Staker_Less (length rest) (mu_popped m)" "mset (mu_popped m) = mset rest" by (auto simp: mu_popped_def h)
  with mu_Next_fill [of m q] assms(1) mset_eq_length [OF p(2)] obtain ok m' q' where "mu_Next m = Some (ok, m')" "mu_ok m' q'"
    "mu_content m' q' = mset rest + mset q" "ok \<longleftrightarrow> mu_heap m' \<noteq> []" by (auto simp: mu_ok_def)
  with that h show thesis by simp
qed

lemma mu_Add_ok:
  assumes "mu_ok m q" "q = [] \<or> mu_heap m \<noteq> []"
  shows "mu_ok (mu_Add s m) q" "mu_content (mu_Add s m) q = add_mset s (mu_content m q)" "mu_heap (mu_Add s m) \<noteq> []"
proof -
  let ?h = "heap_Push Staker_Less s (mu_heap m)"
  note p = heap_Push_ok [OF Staker_order, of "mu_heap m" s]
  have h: "heap_ok Staker_Less (length (mu_heap m)) (mu_heap m)" using assms(1) by (simp add: mu_ok_def)
  have len: "length ?h = Suc (length (mu_heap m))" using mset_eq_length [of ?h "s # mu_heap m"] p(2) h by simp
  have "\<not> Staker_Less t (?h ! 0)" if "t \<in> set q" for t
  proof -
    have "mu_heap m \<noteq> []" using assms(2) that by auto
    then have r: "mu_heap m ! 0 \<in> set (mu_heap m)" "\<not> Staker_Less t (mu_heap m ! 0)" using assms(1) that by (auto simp: mu_ok_def)
    then have "mu_heap m ! 0 \<in> set ?h" using p(2) [OF h] by (metis insertCI set_mset_add_mset_insert set_mset_mset)
    then have "\<not> Staker_Less (mu_heap m ! 0) (?h ! 0)" using heap_root_least [OF Staker_order, of ?h] p(1) [OF h] len by simp
    with r(2) show ?thesis using Staker_Less_neg_trans by blast
  qed
  with assms(1) p(1) [OF h] len show "mu_ok (mu_Add s m) q" by (auto simp: mu_ok_def mu_Add_def)
  show "mu_content (mu_Add s m) q = add_mset s (mu_content m q)" "mu_heap (mu_Add s m) \<noteq> []" using p(2) [OF h] len by (auto simp: mu_Add_def)
qed

subsection \<open>The order of the changes\<close>

text \<open>A change happens when the staker starts or ends. At the same time, additions come first; otherwise the lesser staker.\<close>

fun change_time :: "'pk Staker \<times> bool \<Rightarrow> int" where
  "change_time (s, added) = (if added then st_StartTime s else st_EndTime s)"

definition change_less :: "'pk Staker \<times> bool \<Rightarrow> 'pk Staker \<times> bool \<Rightarrow> bool" where
  "change_less e e' \<longleftrightarrow> change_time e < change_time e' \<or> change_time e = change_time e'
     \<and> (snd e \<and> \<not> snd e' \<or> snd e = snd e' \<and> Staker_Less (fst e) (fst e'))"

definition current_ok :: "'pk Staker \<Rightarrow> bool" where
  "current_ok s \<longleftrightarrow> st_NextTime s = st_EndTime s"

definition pending_ok :: "'pk Staker \<Rightarrow> bool" where
  "pending_ok s \<longleftrightarrow> st_NextTime s = st_StartTime s \<and> st_StartTime s \<le> st_EndTime s \<and> IsPending (st_Priority s)"

text \<open>The changes to come: every pending staker is added and removed, every current one is removed.\<close>

definition changes_of :: "'pk Staker multiset \<Rightarrow> 'pk Staker list \<Rightarrow> ('pk Staker \<times> bool) multiset" where
  "changes_of C P = {#(s, True). s \<in># mset P#} + {#(s, False). s \<in># C#} + {#(the (to_current s), False). s \<in># mset P#}"

lemma to_current_ok:
  assumes "pending_ok s"
  obtains t where "to_current s = Some t" "current_ok t" "st_EndTime t = st_EndTime s"
proof -
  from assms obtain p where "current_priority (st_Priority s) = Some p" by (auto simp: pending_ok_def elim: current_priority_kinds)
  then show thesis by (intro that [of "s\<lparr>st_NextTime := st_EndTime s, st_Priority := p\<rparr>"]) (simp_all add: to_current_def current_ok_def)
qed

definition sd_ok :: "'pk stakerDiffIterator \<Rightarrow> 'pk Staker list \<Rightarrow> 'pk Staker list \<Rightarrow> bool" where
  "sd_ok it q P \<longleftrightarrow> mu_ok (currentIterator it) q \<and> it_queue (pendingIteratorExhausted it) (pendingIterator it) P
     \<and> (currentIteratorExhausted it \<longleftrightarrow> mu_heap (currentIterator it) = [])
     \<and> (\<forall>c \<in># mu_content (currentIterator it) q. current_ok c) \<and> (\<forall>p \<in> set P. pending_ok p)"

lemma advanceCurrent_ok:
  assumes "sd_ok it q P" "mu_Value (currentIterator it) = Some s"
  obtains it' q' where "advanceCurrent it = Some it'" "sd_Value it' = Some (s, False)" "sd_ok it' q' P"
    "mu_content (currentIterator it) q = add_mset s (mu_content (currentIterator it') q')"
proof -
  have "mu_ok (currentIterator it) q" using assms(1) by (simp add: sd_ok_def)
  from mu_Next_ok [OF this assms(2)] obtain ok m q' where m: "mu_Next (currentIterator it) = Some (ok, m)" "mu_ok m q'"
    "mu_content (currentIterator it) q = add_mset s (mu_content m q')" "ok \<longleftrightarrow> mu_heap m \<noteq> []" by blast
  let ?it = "it\<lparr>modifiedStaker := mu_Value (currentIterator it), isAdded := False, currentIteratorExhausted := \<not> ok, currentIterator := m\<rparr>"
  have "advanceCurrent it = Some ?it" using m(1) by (simp add: advanceCurrent_def Let_def)
  moreover have "sd_Value ?it = Some (s, False)" using assms(2) by (simp add: sd_Value_def)
  moreover have "sd_ok ?it q' P" using assms(1) m by (simp add: sd_ok_def)
  ultimately show thesis using that m(3) by simp
qed

lemma advancePending_ok:
  assumes "sd_ok it q (p # P)"
  obtains it' where "advancePending it = Some it'" "sd_Value it' = Some (p, True)" "sd_ok it' q P"
    "mu_content (currentIterator it') q = add_mset (the (to_current p)) (mu_content (currentIterator it) q)"
proof -
  have pq: "it_queue False (pendingIterator it) (p # P)" and mu: "mu_ok (currentIterator it) q" "q = [] \<or> mu_heap (currentIterator it) \<noteq> []"
    and p: "pending_ok p"
    using assms by (auto simp: sd_ok_def it_queue_def mu_ok_def split: if_splits)
  from it_queue_Next [OF pq] obtain ok i where n: "si_Next (pendingIterator it) = Some (ok, i)" "it_queue (\<not> ok) i P"
    "si_Value (pendingIterator it) = Some p" by blast
  from to_current_ok [OF p] obtain c where c: "to_current p = Some c" "current_ok c" by blast
  note a = mu_Add_ok [OF mu, of c]
  let ?it = "it\<lparr>modifiedStaker := Some p, isAdded := True, pendingIteratorExhausted := \<not> ok, pendingIterator := i,
    currentIteratorExhausted := False, currentIterator := mu_Add c (currentIterator it)\<rparr>"
  have "advancePending it = Some ?it" using n c by (simp add: advancePending_def Let_def)
  moreover have "sd_Value ?it = Some (p, True)" by (simp add: sd_Value_def)
  moreover have "sd_ok ?it q P"
    using assms a n(2) c(2) by (auto simp: sd_ok_def)
  ultimately show thesis using that a(2) c(1) by simp
qed

text \<open>The change that the iterator chooses is a least one of those that are left.\<close>

lemma removal_least:
  assumes "current_ok c" "\<forall>d \<in># C. current_ok d \<and> \<not> Staker_Less d c" "\<forall>p \<in> set P. pending_ok p \<and> st_EndTime c < st_StartTime p"
    and "e \<in># changes_of C P"
  shows "\<not> change_less e (c, False)"
proof -
  from assms(4) consider p where "p \<in> set P" "e = (p, True)" | d where "d \<in># C" "e = (d, False)"
    | p where "p \<in> set P" "e = (the (to_current p), False)"
    by (auto simp: changes_of_def)
  then show ?thesis
  proof cases
    case 1
    with assms(3) show ?thesis by (fastforce simp: change_less_def)
  next
    case 2
    with assms(1,2) show ?thesis by (auto simp: change_less_def current_ok_def Staker_Less_iff)
  next
    case 3
    with assms(3) have p: "pending_ok p" "st_EndTime c < st_StartTime p" by auto
    from to_current_ok [OF p(1)] obtain t where t: "to_current p = Some t" "st_EndTime t = st_EndTime p" by blast
    with 3 p show ?thesis by (auto simp: change_less_def pending_ok_def)
  qed
qed

lemma addition_least:
  assumes "pending_ok p" "\<forall>c \<in># C. st_StartTime p \<le> st_EndTime c" "\<forall>r \<in> set P. pending_ok r \<and> \<not> Staker_Less r p"
    and "e \<in># changes_of C P"
  shows "\<not> change_less e (p, True)"
proof -
  have after: "st_StartTime p \<le> st_StartTime r" if "r \<in> set P" for r
    using assms(1,3) that by (auto simp: Staker_Less_iff pending_ok_def)
  from assms(4) consider r where "r \<in> set P" "e = (r, True)" | d where "d \<in># C" "e = (d, False)"
    | r where "r \<in> set P" "e = (the (to_current r), False)"
    by (auto simp: changes_of_def)
  then show ?thesis
  proof cases
    case 1
    with assms(3) after [OF 1(1)] show ?thesis by (auto simp: change_less_def)
  next
    case 2
    with assms(2) show ?thesis by (fastforce simp: change_less_def)
  next
    case 3
    with assms(3) have r: "pending_ok r" by auto
    from to_current_ok [OF r] obtain t where t: "to_current r = Some t" "st_EndTime t = st_EndTime r" by blast
    with 3 r after [OF 3(1)] show ?thesis by (auto simp: change_less_def pending_ok_def)
  qed
qed

lemma changes_of_remove: "changes_of (add_mset c C) P = add_mset (c, False) (changes_of C P)"
  by (simp add: changes_of_def)

lemma changes_of_add: "changes_of C (p # P) = add_mset (p, True) (changes_of (add_mset (the (to_current p)) C) P)"
  by (simp add: changes_of_def)

text \<open>The iterator yields exactly the changes to come, in order.\<close>

definition sd_good :: "'pk stakerDiffIterator \<Rightarrow> 'pk Staker list \<Rightarrow> 'pk Staker list \<Rightarrow> bool" where
  "sd_good it q P \<longleftrightarrow> (\<exists>es. sd_yields it es \<and> mset es = changes_of (mu_content (currentIterator it) q) P
     \<and> sorted_wrt (\<lambda>e e'. \<not> change_less e' e) es)"

lemma sd_good_step:
  assumes "sd_Next it = Some (True, it')" "sd_Value it' = Some e" "sd_good it' q' P'"
    and "changes_of (mu_content (currentIterator it) q) P = add_mset e (changes_of (mu_content (currentIterator it') q') P')"
    and "\<forall>e' \<in># changes_of (mu_content (currentIterator it') q') P'. \<not> change_less e' e"
  shows "sd_good it q P"
proof -
  obtain es where es: "sd_yields it' es" "mset es = changes_of (mu_content (currentIterator it') q') P'"
    "sorted_wrt (\<lambda>e e'. \<not> change_less e' e) es" using assms(3) by (auto simp: sd_good_def)
  have "\<forall>e' \<in> set es. \<not> change_less e' e" using es(2) assms(5) by (metis set_mset_mset)
  with sd_item [OF assms(1,2) es(1)] es(2,3) assms(4) show ?thesis
    unfolding sd_good_def by (intro exI [of _ "e # es"]) simp
qed

lemma sd_remove_step:
  assumes "sd_ok it q P" "mu_Value (currentIterator it) = Some c" "\<forall>p \<in> set P. st_EndTime c < st_StartTime p"
    and "sd_Next it = map_option (Pair True) (advanceCurrent it)"
    and IH: "\<And>it' q'. sd_ok it' q' P \<Longrightarrow> size (changes_of (mu_content (currentIterator it') q') P)
      < size (changes_of (mu_content (currentIterator it) q) P) \<Longrightarrow> sd_good it' q' P"
  shows "sd_good it q P"
proof -
  obtain it' q' where a: "advanceCurrent it = Some it'" "sd_Value it' = Some (c, False)" "sd_ok it' q' P"
    "mu_content (currentIterator it) q = add_mset c (mu_content (currentIterator it') q')"
    using advanceCurrent_ok [OF assms(1,2)] by blast
  have ok: "mu_ok (currentIterator it) q" "\<forall>d \<in># mu_content (currentIterator it) q. current_ok d" "\<forall>p \<in> set P. pending_ok p"
    using assms(1) by (simp_all add: sd_ok_def)
  have "\<not> Staker_Less d c" if "d \<in># mu_content (currentIterator it') q'" for d
    using mu_Value_least [OF ok(1) assms(2), of d] that unfolding a(4) by simp
  with ok(2) have least: "\<forall>d \<in># mu_content (currentIterator it') q'. current_ok d \<and> \<not> Staker_Less d c" "current_ok c"
    unfolding a(4) by simp_all
  have pend: "\<forall>p \<in> set P. pending_ok p \<and> st_EndTime c < st_StartTime p" using ok(3) assms(3) by simp
  have good: "sd_good it' q' P" by (rule IH [OF a(3)]) (simp add: a(4) changes_of_remove)
  show ?thesis
    by (rule sd_good_step [OF _ a(2) good]) (use a(1,4) assms(4) removal_least [OF least(2,1) pend] in \<open>simp_all add: changes_of_remove\<close>)
qed

lemma sd_add_step:
  assumes "sd_ok it q (p # P)" "\<forall>c. mu_Value (currentIterator it) = Some c \<longrightarrow> st_StartTime p \<le> st_EndTime c"
    and "sd_Next it = map_option (Pair True) (advancePending it)"
    and IH: "\<And>it'. sd_ok it' q P \<Longrightarrow> size (changes_of (mu_content (currentIterator it') q) P)
      < size (changes_of (mu_content (currentIterator it) q) (p # P)) \<Longrightarrow> sd_good it' q P"
  shows "sd_good it q (p # P)"
proof -
  let ?C = "mu_content (currentIterator it) q"
  obtain it' where a: "advancePending it = Some it'" "sd_Value it' = Some (p, True)" "sd_ok it' q P"
    "mu_content (currentIterator it') q = add_mset (the (to_current p)) ?C"
    using advancePending_ok [OF assms(1)] by blast
  have ok: "mu_ok (currentIterator it) q" "\<forall>d \<in># ?C. current_ok d" "pending_ok p" "\<forall>r \<in> set P. pending_ok r \<and> \<not> Staker_Less r p"
    using assms(1) by (auto simp: sd_ok_def it_queue_def)
  have "st_StartTime p \<le> st_EndTime c" if c: "c \<in># ?C" for c
  proof -
    obtain d where d: "mu_Value (currentIterator it) = Some d" using mu_Value_None [OF ok(1)] c by (cases "mu_Value (currentIterator it)") auto
    have "d \<in># ?C" using d by (auto simp: mu_Value_def split: list.splits)
    with mu_Value_least [OF ok(1) d c] ok(2) c have "st_EndTime d \<le> st_EndTime c" by (auto simp: Staker_Less_iff current_ok_def)
    with assms(2) d show ?thesis by fastforce
  qed
  moreover obtain t where "to_current p = Some t" "st_EndTime t = st_EndTime p" using to_current_ok [OF ok(3)] by blast
  ultimately have "\<forall>c \<in># mu_content (currentIterator it') q. st_StartTime p \<le> st_EndTime c"
    unfolding a(4) using ok(3) by (auto simp: pending_ok_def)
  note least = addition_least [OF ok(3) this ok(4)]
  have good: "sd_good it' q P" by (rule IH [OF a(3)]) (simp add: a(4) changes_of_add)
  show ?thesis
    by (rule sd_good_step [OF _ a(2) good]) (use a(1,4) assms(3) least in \<open>simp_all add: changes_of_add\<close>)
qed

lemma sd_ok_good: "sd_ok it q P \<Longrightarrow> sd_good it q P"
proof (induction "size (changes_of (mu_content (currentIterator it) q) P)" arbitrary: it q P rule: less_induct)
  case less
  let ?m = "currentIterator it"
  have ex: "mu_ok ?m q" "currentIteratorExhausted it \<longleftrightarrow> mu_Value ?m = None" "pendingIteratorExhausted it \<longleftrightarrow> P = []"
    "P \<noteq> [] \<Longrightarrow> si_Value (pendingIterator it) = Some (hd P)" "staker_sorted P" "\<forall>p \<in> set P. pending_ok p"
    using less.prems by (auto simp: sd_ok_def mu_Value_def it_queue_def stands_at_def split: list.splits if_splits)
  show ?case
  proof (cases P)
    case Nil
    show ?thesis
    proof (cases "mu_Value ?m")
      case None
      with Nil ex have "sd_Next it = Some (False, it)" by (simp add: sd_Next_def)
      with Nil mu_Value_None [OF ex(1)] None show ?thesis
        unfolding sd_good_def by (intro exI [of _ "[]"]) (auto intro: sd_end simp: changes_of_def)
    next
      case (Some c)
      with Nil ex show ?thesis by (intro sd_remove_step [OF less.prems Some _ _ less.hyps]) (simp_all add: sd_Next_def)
    qed
  next
    case (Cons p ps)
    show ?thesis
    proof (cases "\<exists>c. mu_Value ?m = Some c \<and> st_EndTime c < st_StartTime p")
      case True
      then obtain c where c: "mu_Value ?m = Some c" "st_EndTime c < st_StartTime p" by blast
      have "st_EndTime c < st_StartTime r" if "r \<in> set P" for r
        using ex(5,6) that Cons c(2) by (fastforce simp: Staker_Less_iff pending_ok_def)
      with c ex Cons show ?thesis by (intro sd_remove_step [OF less.prems c(1) _ _ less.hyps]) (simp_all add: sd_Next_def)
    next
      case False
      with ex Cons have "sd_Next it = map_option (Pair True) (advancePending it)" by (auto simp: sd_Next_def)
      with False less.prems less.hyps show ?thesis unfolding Cons by (intro sd_add_step) (auto simp: not_less)
    qed
  qed
qed

text \<open>(C13) The changes of the staker set come in order. From sorted iterators over the current and the pending stakers, the
  iterator yields the addition of every pending staker and the removal of every staker, those that were pending
  included, each exactly once, ordered by time; at the same time additions come before removals, and otherwise the lesser
  staker first. The next change of a current staker is its end; that of a pending one is its start, which is no later than its end.\<close>

theorem staker_changes_in_order:
  assumes "yields current C" "staker_sorted C" "\<forall>c \<in> set C. current_ok c"
    and "yields pending P" "staker_sorted P" "\<forall>p \<in> set P. pending_ok p"
  shows "\<exists>it es. NewStakerDiffIterator current pending = Some it \<and> sd_yields it es
    \<and> mset es = changes_of (mset C) P \<and> sorted_wrt (\<lambda>e e'. \<not> change_less e' e) es"
proof -
  obtain ok i where i: "si_Next current = Some (ok, i)" "it_queue (\<not> ok) i C" using it_queue_start [OF assms(1,2)] by blast
  obtain ok' i' where i': "si_Next pending = Some (ok', i')" "it_queue (\<not> ok') i' P" using it_queue_start [OF assms(4,5)] by blast
  define m where "m = \<lparr>mu_iteratorExhausted = \<not> ok, mu_iterator = i, mu_heap = []\<rparr>"
  obtain more m' q where m': "mu_Next m = Some (more, m')" "mu_ok m' q" "mu_content m' q = mset C" "more \<longleftrightarrow> mu_heap m' \<noteq> []"
    using mu_Next_fill [of m C] i(2) by (auto simp: m_def mu_popped_def heap_ok_def)
  define it where "it = \<lparr>currentIteratorExhausted = \<not> more, currentIterator = m',
    pendingIteratorExhausted = \<not> ok', pendingIterator = i', modifiedStaker = None, isAdded = False\<rparr>"
  have new: "NewStakerDiffIterator current pending = Some it"
    using i(1) i'(1) m'(1) by (simp add: NewStakerDiffIterator_def newMutableStakerIterator_def it_def m_def)
  have "\<forall>c \<in># mu_content m' q. current_ok c" using assms(3) unfolding m'(3) by simp
  then have "sd_ok it q P" using i'(2) m'(2,4) assms(6) by (simp add: sd_ok_def it_def)
  from sd_ok_good [OF this] new m'(3) show ?thesis by (auto simp: sd_good_def it_def)
qed

definition example_staker :: "u8 \<Rightarrow> int \<Rightarrow> int \<Rightarrow> int \<Rightarrow> Priority \<Rightarrow> unit Staker" where
  "example_staker i start end next p = \<lparr>st_TxID = [i], st_NodeID = [i], st_PublicKey = None, st_SubnetID = [], st_Weight = 1,
     st_StartTime = start, st_EndTime = end, st_PotentialReward = 0, st_MintRate = 0, st_FeePerWeightPaid = 0,
     st_NextTime = next, st_Priority = p\<rparr>"

theorem staker_changes_in_order_witness:
  "\<exists>it es. NewStakerDiffIterator
      (treeIterator None [example_staker 1 0 10 10 PrimaryNetworkValidatorCurrentPriority])
      (treeIterator None [example_staker 2 10 12 10 PrimaryNetworkValidatorPendingPriority]) = Some it
    \<and> sd_yields it es
    \<and> mset es = {#(example_staker 2 10 12 12 PrimaryNetworkValidatorCurrentPriority, False),
        (example_staker 1 0 10 10 PrimaryNetworkValidatorCurrentPriority, False),
        (example_staker 2 10 12 10 PrimaryNetworkValidatorPendingPriority, True)#}"
  using staker_changes_in_order [OF yields_tree [of None "[example_staker 1 0 10 10 PrimaryNetworkValidatorCurrentPriority]"] _ _
      yields_tree [of None "[example_staker 2 10 12 10 PrimaryNetworkValidatorPendingPriority]"]]
  by (auto simp: current_ok_def pending_ok_def changes_of_def to_current_def current_priority_def PendingToCurrentPriorities_def
      example_staker_def priorities priority_kinds)

end
