(* ===== verification/Stakers.thy ===== *)
theory Stakers
  imports Staker_Iterators
begin

text \<open>
  The sets of stakers of the omega chain, \<^verbatim>\<open>vms/omegavm/state/stakers.go\<close> and the part of \<^verbatim>\<open>diff.go\<close> that writes a difference
  into the base state. The base stakers hold validators with their delegators and a search tree of all stakers; a difference holds
  what was added and deleted since, and answers reads by merging and masking the iterators of its parent. Both refine a set of
  stakers: reading through a difference, and reading the base after the difference was applied to it, give what the calls say.

  The search tree is the package \<^verbatim>\<open>google/btree\<close>, an argument. A nil map and an empty one are both the empty list, since the code only
  tests for nil to create the map. A pointer to a staker is the staker; a nil tree is \<^verbatim>\<open>None\<close>. A result \<^verbatim>\<open>None\<close> of an operation that
  changes the state is a panic.
\<close>

subsection \<open>Maps of maps\<close>

type_synonym ('a, 'b, 'c) gomap2 = "('a, ('b, 'c) gomap) gomap"

definition lookup2 :: "('a, 'b, 'c) gomap2 \<Rightarrow> 'a \<Rightarrow> 'b \<Rightarrow> 'c option" where
  "lookup2 m a b = (case map_of m a of None \<Rightarrow> None | Some n \<Rightarrow> map_of n b)"

definition update2 :: "'a \<Rightarrow> 'b \<Rightarrow> 'c \<Rightarrow> ('a, 'b, 'c) gomap2 \<Rightarrow> ('a, 'b, 'c) gomap2" where
  "update2 a b c m = AList.update a (AList.update b c (case map_of m a of None \<Rightarrow> [] | Some n \<Rightarrow> n)) m"

abbreviation wf_gomap2 :: "('a, 'b, 'c) gomap2 \<Rightarrow> bool" where
  "wf_gomap2 m \<equiv> wf_gomap m \<and> (\<forall>(a, n) \<in> set m. wf_gomap n)"

lemma lookup2_update2 [simp]: "lookup2 (update2 a b c m) a' b' = (if a' = a \<and> b' = b then Some c else lookup2 m a' b')"
  by (simp add: lookup2_def update2_def split: option.splits)

lemma lookup2_Nil [simp]: "lookup2 [] a b = None"
  by (simp add: lookup2_def)

lemma set_update_subset: "set (AList.update k v m) \<subseteq> insert (k, v) (set m)"
  by (induction m) auto

lemma wf_gomap2_update2: "wf_gomap2 m \<Longrightarrow> wf_gomap2 (update2 a b c m)"
proof -
  assume m: "wf_gomap2 m"
  define n where "n = (case map_of m a of None \<Rightarrow> [] | Some n \<Rightarrow> n)"
  have "wf_gomap n" using m by (auto simp: n_def split: option.splits dest: map_of_SomeD)
  then have n: "wf_gomap (AList.update b c n)" by (rule wf_gomap_update)
  with m set_update_subset [of a "AList.update b c n" m] have "\<forall>(a, n) \<in> set (AList.update a (AList.update b c n) m). wf_gomap n" by blast
  with m show ?thesis unfolding update2_def n_def [symmetric] by (auto intro: wf_gomap_update)
qed

subsection \<open>The search tree\<close>

record ('pk, 't) btree =
  bt_NewG :: 't
  bt_ReplaceOrInsert :: "'pk Staker \<Rightarrow> 't \<Rightarrow> 't"
  bt_Delete :: "'pk Staker \<Rightarrow> 't \<Rightarrow> 't"
  bt_Len :: "'t \<Rightarrow> nat"
  bt_Ascend :: "'t \<Rightarrow> 'pk Staker list"

text \<open>What the documentation of the package says: a new tree is empty, \<^verbatim>\<open>ReplaceOrInsert\<close> adds an item and takes the place of an equal one,
  \<^verbatim>\<open>Delete\<close> removes an item equal to the given one, \<^verbatim>\<open>Len\<close> counts, and \<^verbatim>\<open>Ascend\<close> visits the items in order. Two items are equal when neither is
  less than the other.\<close>

definition btree_ok :: "('pk, 't) btree \<Rightarrow> bool" where
  "btree_ok bt \<longleftrightarrow> bt_Ascend bt (bt_NewG bt) = []
     \<and> (\<forall>s t. bt_Ascend bt (bt_ReplaceOrInsert bt s t)
          = filter (\<lambda>x. Staker_Less x s) (bt_Ascend bt t) @ s # filter (\<lambda>x. Staker_Less s x) (bt_Ascend bt t))
     \<and> (\<forall>s t. bt_Ascend bt (bt_Delete bt s t) = filter (\<lambda>x. Staker_Less x s \<or> Staker_Less s x) (bt_Ascend bt t))
     \<and> (\<forall>t. bt_Len bt t = length (bt_Ascend bt t))"

definition NewTreeIterator :: "('pk, 't) btree \<Rightarrow> 't option \<Rightarrow> 'pk StakerIterator" where
  "NewTreeIterator bt tree = (case tree of None \<Rightarrow> EmptyIterator | Some t \<Rightarrow> treeIterator None (bt_Ascend bt t))"

definition new_if_nil :: "('pk, 't) btree \<Rightarrow> 't option \<Rightarrow> 't" where
  "new_if_nil bt tree = (case tree of None \<Rightarrow> bt_NewG bt | Some t \<Rightarrow> t)"

subsection \<open>Base stakers and differences\<close>

datatype diffValidatorStatus = unmodified | added | deleted

record ('pk, 't) diffValidator =
  dv_validatorStatus :: diffValidatorStatus
  dv_validator :: "'pk Staker option"
  dv_addedDelegators :: "'t option"
  dv_deletedDelegators :: "(ID, 'pk Staker) gomap"

definition new_diffValidator :: "('pk, 't) diffValidator" where
  "new_diffValidator = \<lparr>dv_validatorStatus = unmodified, dv_validator = None, dv_addedDelegators = None, dv_deletedDelegators = []\<rparr>"

record ('pk, 't) baseStaker =
  bs_validator :: "'pk Staker option"
  bs_delegators :: "'t option"

record ('pk, 't) baseStakers =
  bs_validators :: "(ID, NodeID, ('pk, 't) baseStaker) gomap2"
  bs_stakers :: 't
  bs_validatorDiffs :: "(ID, NodeID, ('pk, 't) diffValidator) gomap2"

record ('pk, 't) diffStakers =
  ds_validatorDiffs :: "(ID, NodeID, ('pk, 't) diffValidator) gomap2"
  ds_addedStakers :: "'t option"
  ds_deletedStakers :: "(ID, 'pk Staker) gomap"

definition new_diffStakers :: "('pk, 't) diffStakers" where
  "new_diffStakers = \<lparr>ds_validatorDiffs = [], ds_addedStakers = None, ds_deletedStakers = []\<rparr>"

definition newBaseStakers :: "('pk, 't) btree \<Rightarrow> ('pk, 't) baseStakers" where
  "newBaseStakers bt = \<lparr>bs_validators = [], bs_stakers = bt_NewG bt, bs_validatorDiffs = []\<rparr>"

subsubsection \<open>Operations of the base stakers\<close>

definition bs_GetValidator :: "ID \<Rightarrow> NodeID \<Rightarrow> ('pk, 't) baseStakers \<Rightarrow> 'pk Staker option" where
  "bs_GetValidator subnetID nodeID v =
     (case map_of (bs_validators v) subnetID of
        None \<Rightarrow> None
      | Some subnetValidators \<Rightarrow>
          (case map_of subnetValidators nodeID of
             None \<Rightarrow> None
           | Some validator \<Rightarrow> bs_validator validator))"

text \<open>The pointer to the entry is the entry together with the maps that hold it.\<close>

definition getOrCreateValidator ::
  "ID \<Rightarrow> NodeID \<Rightarrow> ('pk, 't) baseStakers \<Rightarrow> ('pk, 't) baseStaker \<times> ('pk, 't) baseStakers" where
  "getOrCreateValidator subnetID nodeID v =
     (case lookup2 (bs_validators v) subnetID nodeID of
        Some validator \<Rightarrow> (validator, v)
      | None \<Rightarrow> (let validator = \<lparr>bs_validator = None, bs_delegators = None\<rparr>
          in (validator, v\<lparr>bs_validators := update2 subnetID nodeID validator (bs_validators v)\<rparr>)))"

definition pruneValidator :: "('pk, 't) btree \<Rightarrow> ID \<Rightarrow> NodeID \<Rightarrow> ('pk, 't) baseStakers \<Rightarrow> ('pk, 't) baseStakers option" where
  "pruneValidator bt subnetID nodeID v =
     (case map_of (bs_validators v) subnetID of
        None \<Rightarrow> None
      | Some subnetValidators \<Rightarrow>
          (case map_of subnetValidators nodeID of
             None \<Rightarrow> None
           | Some validator \<Rightarrow>
               if bs_validator validator \<noteq> None then Some v
               else if (case bs_delegators validator of None \<Rightarrow> False | Some t \<Rightarrow> bt_Len bt t > 0) then Some v
               else let subnetValidators = AList.delete nodeID subnetValidators
                 in Some (v\<lparr>bs_validators :=
                      (if length subnetValidators = 0 then AList.delete subnetID (bs_validators v)
                       else AList.update subnetID subnetValidators (bs_validators v))\<rparr>)))"

definition getOrCreateDiff ::
  "ID \<Rightarrow> NodeID \<Rightarrow> (ID, NodeID, ('pk, 't) diffValidator) gomap2
     \<Rightarrow> ('pk, 't) diffValidator \<times> (ID, NodeID, ('pk, 't) diffValidator) gomap2" where
  "getOrCreateDiff subnetID nodeID validatorDiffs =
     (case lookup2 validatorDiffs subnetID nodeID of
        Some validatorDiff \<Rightarrow> (validatorDiff, validatorDiffs)
      | None \<Rightarrow> (new_diffValidator, update2 subnetID nodeID new_diffValidator validatorDiffs))"

definition bs_put :: "ID \<Rightarrow> NodeID \<Rightarrow> ('pk, 't) baseStaker \<Rightarrow> ('pk, 't) baseStakers \<Rightarrow> ('pk, 't) baseStakers" where
  "bs_put subnetID nodeID validator v = v\<lparr>bs_validators := update2 subnetID nodeID validator (bs_validators v)\<rparr>"

definition bs_PutValidator :: "('pk, 't) btree \<Rightarrow> 'pk Staker \<Rightarrow> ('pk, 't) baseStakers \<Rightarrow> ('pk, 't) baseStakers" where
  "bs_PutValidator bt staker v =
     (let subnetID = st_SubnetID staker; nodeID = st_NodeID staker;
          (validator, v) = getOrCreateValidator subnetID nodeID v;
          v = bs_put subnetID nodeID (validator\<lparr>bs_validator := Some staker\<rparr>) v;
          (validatorDiff, validatorDiffs) = getOrCreateDiff subnetID nodeID (bs_validatorDiffs v);
          validatorDiff = validatorDiff\<lparr>dv_validatorStatus := added, dv_validator := Some staker\<rparr>
      in v\<lparr>bs_validatorDiffs := update2 subnetID nodeID validatorDiff validatorDiffs,
           bs_stakers := bt_ReplaceOrInsert bt staker (bs_stakers v)\<rparr>)"

definition bs_DeleteValidator :: "('pk, 't) btree \<Rightarrow> 'pk Staker \<Rightarrow> ('pk, 't) baseStakers \<Rightarrow> ('pk, 't) baseStakers option" where
  "bs_DeleteValidator bt staker v =
     (let subnetID = st_SubnetID staker; nodeID = st_NodeID staker;
          (validator, v) = getOrCreateValidator subnetID nodeID v;
          v = bs_put subnetID nodeID (validator\<lparr>bs_validator := None\<rparr>) v
      in Option.bind (pruneValidator bt subnetID nodeID v) (\<lambda>v.
        let (validatorDiff, validatorDiffs) = getOrCreateDiff subnetID nodeID (bs_validatorDiffs v);
            validatorDiff = validatorDiff\<lparr>dv_validatorStatus := deleted, dv_validator := Some staker\<rparr>
        in Some (v\<lparr>bs_validatorDiffs := update2 subnetID nodeID validatorDiff validatorDiffs,
             bs_stakers := bt_Delete bt staker (bs_stakers v)\<rparr>)))"

definition bs_GetDelegatorIterator :: "('pk, 't) btree \<Rightarrow> ID \<Rightarrow> NodeID \<Rightarrow> ('pk, 't) baseStakers \<Rightarrow> 'pk StakerIterator" where
  "bs_GetDelegatorIterator bt subnetID nodeID v =
     (case map_of (bs_validators v) subnetID of
        None \<Rightarrow> EmptyIterator
      | Some subnetValidators \<Rightarrow>
          (case map_of subnetValidators nodeID of
             None \<Rightarrow> EmptyIterator
           | Some validator \<Rightarrow> NewTreeIterator bt (bs_delegators validator)))"

definition bs_PutDelegator :: "('pk, 't) btree \<Rightarrow> 'pk Staker \<Rightarrow> ('pk, 't) baseStakers \<Rightarrow> ('pk, 't) baseStakers" where
  "bs_PutDelegator bt staker v =
     (let subnetID = st_SubnetID staker; nodeID = st_NodeID staker;
          (validator, v) = getOrCreateValidator subnetID nodeID v;
          delegators = new_if_nil bt (bs_delegators validator);
          v = bs_put subnetID nodeID (validator\<lparr>bs_delegators := Some (bt_ReplaceOrInsert bt staker delegators)\<rparr>) v;
          (validatorDiff, validatorDiffs) = getOrCreateDiff subnetID nodeID (bs_validatorDiffs v);
          addedDelegators = new_if_nil bt (dv_addedDelegators validatorDiff);
          validatorDiff = validatorDiff\<lparr>dv_addedDelegators := Some (bt_ReplaceOrInsert bt staker addedDelegators)\<rparr>
      in v\<lparr>bs_validatorDiffs := update2 subnetID nodeID validatorDiff validatorDiffs,
           bs_stakers := bt_ReplaceOrInsert bt staker (bs_stakers v)\<rparr>)"

definition bs_DeleteDelegator :: "('pk, 't) btree \<Rightarrow> 'pk Staker \<Rightarrow> ('pk, 't) baseStakers \<Rightarrow> ('pk, 't) baseStakers option" where
  "bs_DeleteDelegator bt staker v =
     (let subnetID = st_SubnetID staker; nodeID = st_NodeID staker;
          (validator, v) = getOrCreateValidator subnetID nodeID v;
          v = (case bs_delegators validator of
                 None \<Rightarrow> v
               | Some delegators \<Rightarrow> bs_put subnetID nodeID (validator\<lparr>bs_delegators := Some (bt_Delete bt staker delegators)\<rparr>) v)
      in Option.bind (pruneValidator bt subnetID nodeID v) (\<lambda>v.
        let (validatorDiff, validatorDiffs) = getOrCreateDiff subnetID nodeID (bs_validatorDiffs v);
            validatorDiff = validatorDiff\<lparr>dv_deletedDelegators :=
              AList.update (st_TxID staker) staker (dv_deletedDelegators validatorDiff)\<rparr>
        in Some (v\<lparr>bs_validatorDiffs := update2 subnetID nodeID validatorDiff validatorDiffs,
             bs_stakers := bt_Delete bt staker (bs_stakers v)\<rparr>)))"

definition bs_GetStakerIterator :: "('pk, 't) btree \<Rightarrow> ('pk, 't) baseStakers \<Rightarrow> 'pk StakerIterator" where
  "bs_GetStakerIterator bt v = NewTreeIterator bt (Some (bs_stakers v))"

subsubsection \<open>Operations of a difference\<close>

definition ds_GetValidator :: "ID \<Rightarrow> NodeID \<Rightarrow> ('pk, 't) diffStakers \<Rightarrow> 'pk Staker option \<times> diffValidatorStatus" where
  "ds_GetValidator subnetID nodeID s =
     (case map_of (ds_validatorDiffs s) subnetID of
        None \<Rightarrow> (None, unmodified)
      | Some subnetValidatorDiffs \<Rightarrow>
          (case map_of subnetValidatorDiffs nodeID of
             None \<Rightarrow> (None, unmodified)
           | Some validatorDiff \<Rightarrow>
               if dv_validatorStatus validatorDiff = added then (dv_validator validatorDiff, added)
               else (None, dv_validatorStatus validatorDiff)))"

definition ds_PutValidator :: "('pk, 't) btree \<Rightarrow> 'pk Staker \<Rightarrow> ('pk, 't) diffStakers \<Rightarrow> ('pk, 't) diffStakers" where
  "ds_PutValidator bt staker s =
     (let subnetID = st_SubnetID staker; nodeID = st_NodeID staker;
          (validatorDiff, validatorDiffs) = getOrCreateDiff subnetID nodeID (ds_validatorDiffs s);
          validatorDiff = validatorDiff\<lparr>dv_validatorStatus := added, dv_validator := Some staker\<rparr>
      in s\<lparr>ds_validatorDiffs := update2 subnetID nodeID validatorDiff validatorDiffs,
           ds_addedStakers := Some (bt_ReplaceOrInsert bt staker (new_if_nil bt (ds_addedStakers s)))\<rparr>)"

definition ds_DeleteValidator :: "('pk, 't) btree \<Rightarrow> 'pk Staker \<Rightarrow> ('pk, 't) diffStakers \<Rightarrow> ('pk, 't) diffStakers option" where
  "ds_DeleteValidator bt staker s =
     (let subnetID = st_SubnetID staker; nodeID = st_NodeID staker;
          (validatorDiff, validatorDiffs) = getOrCreateDiff subnetID nodeID (ds_validatorDiffs s)
      in if dv_validatorStatus validatorDiff = added then
           (case ds_addedStakers s of
              None \<Rightarrow> None
            | Some addedStakers \<Rightarrow>
                (case dv_validator validatorDiff of
                   None \<Rightarrow> None
                 | Some validator \<Rightarrow>
                     let validatorDiff = validatorDiff\<lparr>dv_validatorStatus := unmodified, dv_validator := None\<rparr>
                     in Some (s\<lparr>ds_validatorDiffs := update2 subnetID nodeID validatorDiff validatorDiffs,
                          ds_addedStakers := Some (bt_Delete bt validator addedStakers)\<rparr>)))
         else
           let validatorDiff = validatorDiff\<lparr>dv_validatorStatus := deleted, dv_validator := Some staker\<rparr>
           in Some (s\<lparr>ds_validatorDiffs := update2 subnetID nodeID validatorDiff validatorDiffs,
                ds_deletedStakers := AList.update (st_TxID staker) staker (ds_deletedStakers s)\<rparr>))"

text \<open>An iterator that is built has read the first elements of its parents, so None is a construction that does not return.\<close>

definition ds_GetDelegatorIterator ::
  "('pk, 't) btree \<Rightarrow> 'pk StakerIterator \<Rightarrow> ID \<Rightarrow> NodeID \<Rightarrow> ('pk, 't) diffStakers \<Rightarrow> 'pk StakerIterator option" where
  "ds_GetDelegatorIterator bt parentIterator subnetID nodeID s =
     (let (addedDelegatorIterator, deletedDelegators) =
        (case map_of (ds_validatorDiffs s) subnetID of
           None \<Rightarrow> (EmptyIterator, [])
         | Some subnetValidatorDiffs \<Rightarrow>
             (case map_of subnetValidatorDiffs nodeID of
                None \<Rightarrow> (EmptyIterator, [])
              | Some validatorDiff \<Rightarrow>
                  (NewTreeIterator bt (dv_addedDelegators validatorDiff), dv_deletedDelegators validatorDiff)))
      in Option.bind (NewMergedIterator [parentIterator, addedDelegatorIterator]) (\<lambda>it.
        Some (NewMaskedIterator it (map_of deletedDelegators))))"

definition ds_PutDelegator :: "('pk, 't) btree \<Rightarrow> 'pk Staker \<Rightarrow> ('pk, 't) diffStakers \<Rightarrow> ('pk, 't) diffStakers" where
  "ds_PutDelegator bt staker s =
     (let subnetID = st_SubnetID staker; nodeID = st_NodeID staker;
          (validatorDiff, validatorDiffs) = getOrCreateDiff subnetID nodeID (ds_validatorDiffs s);
          validatorDiff = validatorDiff\<lparr>dv_addedDelegators :=
            Some (bt_ReplaceOrInsert bt staker (new_if_nil bt (dv_addedDelegators validatorDiff)))\<rparr>
      in s\<lparr>ds_validatorDiffs := update2 subnetID nodeID validatorDiff validatorDiffs,
           ds_addedStakers := Some (bt_ReplaceOrInsert bt staker (new_if_nil bt (ds_addedStakers s)))\<rparr>)"

definition ds_DeleteDelegator :: "'pk Staker \<Rightarrow> ('pk, 't) diffStakers \<Rightarrow> ('pk, 't) diffStakers" where
  "ds_DeleteDelegator staker s =
     (let subnetID = st_SubnetID staker; nodeID = st_NodeID staker;
          (validatorDiff, validatorDiffs) = getOrCreateDiff subnetID nodeID (ds_validatorDiffs s);
          validatorDiff = validatorDiff\<lparr>dv_deletedDelegators :=
            AList.update (st_TxID staker) staker (dv_deletedDelegators validatorDiff)\<rparr>
      in s\<lparr>ds_validatorDiffs := update2 subnetID nodeID validatorDiff validatorDiffs,
           ds_deletedStakers := AList.update (st_TxID staker) staker (ds_deletedStakers s)\<rparr>)"

definition ds_GetStakerIterator :: "('pk, 't) btree \<Rightarrow> 'pk StakerIterator \<Rightarrow> ('pk, 't) diffStakers \<Rightarrow> 'pk StakerIterator option" where
  "ds_GetStakerIterator bt parentIterator s =
     Option.bind (NewMergedIterator [parentIterator, NewTreeIterator bt (ds_addedStakers s)]) (\<lambda>it.
       Some (NewMaskedIterator it (map_of (ds_deletedStakers s))))"

subsubsection \<open>Applying a difference\<close>

text \<open>The orders in which a run visits the maps of subnets, of nodes and of deleted delegators.\<close>

record ('pk, 't) visiting =
  vis_subnets :: "(ID, NodeID, ('pk, 't) diffValidator) gomap2 \<Rightarrow> (ID, NodeID, ('pk, 't) diffValidator) gomap2"
  vis_nodes :: "(NodeID, ('pk, 't) diffValidator) gomap \<Rightarrow> (NodeID, ('pk, 't) diffValidator) gomap"
  vis_deleted :: "(ID, 'pk Staker) gomap \<Rightarrow> (ID, 'pk Staker) gomap"

definition visiting_ok :: "('pk, 't) visiting \<Rightarrow> bool" where
  "visiting_ok vis \<longleftrightarrow> (\<forall>m. mset (vis_subnets vis m) = mset m) \<and> (\<forall>m. mset (vis_nodes vis m) = mset m)
     \<and> (\<forall>m. mset (vis_deleted vis m) = mset m)"

fun tree_list :: "('pk, 't) btree \<Rightarrow> 't option \<Rightarrow> 'pk Staker list" where
  "tree_list bt None = []"
| "tree_list bt (Some t) = bt_Ascend bt t"

fun put_delegators :: "('pk, 't) btree \<Rightarrow> 'pk Staker list \<Rightarrow> ('pk, 't) baseStakers \<Rightarrow> ('pk, 't) baseStakers" where
  "put_delegators bt [] v = v"
| "put_delegators bt (s # ss) v = put_delegators bt ss (bs_PutDelegator bt s v)"

fun delete_delegators :: "('pk, 't) btree \<Rightarrow> (ID \<times> 'pk Staker) list \<Rightarrow> ('pk, 't) baseStakers \<Rightarrow> ('pk, 't) baseStakers option" where
  "delete_delegators bt [] v = Some v"
| "delete_delegators bt ((_, s) # ss) v = Option.bind (bs_DeleteDelegator bt s v) (delete_delegators bt ss)"

definition apply_validatorDiff ::
  "('pk, 't) btree \<Rightarrow> ('pk, 't) visiting \<Rightarrow> ('pk, 't) diffValidator \<Rightarrow> ('pk, 't) baseStakers \<Rightarrow> ('pk, 't) baseStakers option" where
  "apply_validatorDiff bt vis vd v =
     Option.bind
       (case dv_validatorStatus vd of
          added \<Rightarrow> map_option (\<lambda>s. bs_PutValidator bt s v) (dv_validator vd)
        | deleted \<Rightarrow> Option.bind (dv_validator vd) (\<lambda>s. bs_DeleteValidator bt s v)
        | unmodified \<Rightarrow> Some v)
       (\<lambda>v. delete_delegators bt (vis_deleted vis (dv_deletedDelegators vd))
              (put_delegators bt (tree_list bt (dv_addedDelegators vd)) v))"

fun apply_nodes ::
  "('pk, 't) btree \<Rightarrow> ('pk, 't) visiting \<Rightarrow> (NodeID, ('pk, 't) diffValidator) gomap \<Rightarrow> ('pk, 't) baseStakers \<Rightarrow> ('pk, 't) baseStakers option" where
  "apply_nodes bt vis [] v = Some v"
| "apply_nodes bt vis ((_, vd) # m) v = Option.bind (apply_validatorDiff bt vis vd v) (apply_nodes bt vis m)"

fun apply_subnets ::
  "('pk, 't) btree \<Rightarrow> ('pk, 't) visiting \<Rightarrow> (ID, NodeID, ('pk, 't) diffValidator) gomap2 \<Rightarrow> ('pk, 't) baseStakers \<Rightarrow> ('pk, 't) baseStakers option" where
  "apply_subnets bt vis [] v = Some v"
| "apply_subnets bt vis ((_, nodes) # m) v = Option.bind (apply_nodes bt vis (vis_nodes vis nodes) v) (apply_subnets bt vis m)"

definition apply_stakers ::
  "('pk, 't) btree \<Rightarrow> ('pk, 't) visiting \<Rightarrow> ('pk, 't) diffStakers \<Rightarrow> ('pk, 't) baseStakers \<Rightarrow> ('pk, 't) baseStakers option" where
  "apply_stakers bt vis d v = apply_subnets bt vis (vis_subnets vis (ds_validatorDiffs d)) v"

subsection \<open>Trees and iterators as sets\<close>

lemma Staker_Less_total: "st_TxID s \<noteq> st_TxID t \<Longrightarrow> Staker_Less s t \<or> Staker_Less t s"
  using Staker_Less_order(3) [of s t] by (auto simp: staker_key_def)

definition holds :: "('pk, 't) btree \<Rightarrow> 't option \<Rightarrow> 'pk Staker set \<Rightarrow> bool" where
  "holds bt tree S \<longleftrightarrow> sorted_wrt Staker_Less (tree_list bt tree) \<and> set (tree_list bt tree) = S"

abbreviation fresh_in :: "'pk Staker \<Rightarrow> 'pk Staker set \<Rightarrow> bool" where
  "fresh_in s S \<equiv> st_TxID s \<notin> st_TxID ` S"

lemma holds_None [simp]: "holds bt None S \<longleftrightarrow> S = {}"
  by (auto simp: holds_def)

lemma holds_New: "btree_ok bt \<Longrightarrow> holds bt (Some (bt_NewG bt)) {}"
  by (simp add: holds_def btree_ok_def)

lemma holds_unique: "holds bt tree S \<Longrightarrow> holds bt tree T \<Longrightarrow> S = T"
  by (simp add: holds_def)

lemma holds_new_if_nil: "btree_ok bt \<Longrightarrow> holds bt tree S \<Longrightarrow> holds bt (Some (new_if_nil bt tree)) S"
  by (cases tree) (simp_all add: new_if_nil_def holds_New)

lemma holds_insert:
  assumes "btree_ok bt" "holds bt tree S" "fresh_in s S"
  shows "holds bt (Some (bt_ReplaceOrInsert bt s (new_if_nil bt tree))) (insert s S)"
proof -
  define l where "l = bt_Ascend bt (new_if_nil bt tree)"
  have l: "sorted_wrt Staker_Less l" "set l = S"
    using holds_new_if_nil [OF assms(1,2)] by (simp_all add: holds_def l_def)
  have ins: "bt_Ascend bt (bt_ReplaceOrInsert bt s (new_if_nil bt tree)) = filter (\<lambda>x. Staker_Less x s) l @ s # filter (\<lambda>x. Staker_Less s x) l"
    using assms(1) by (simp add: btree_ok_def l_def)
  have "Staker_Less x s \<or> Staker_Less s x" if "x \<in> S" for x using assms(3) that by (metis Staker_Less_total image_eqI)
  then have "set (filter (\<lambda>x. Staker_Less x s) l @ s # filter (\<lambda>x. Staker_Less s x) l) = insert s S" using l(2) by auto
  moreover have "sorted_wrt Staker_Less (filter (\<lambda>x. Staker_Less x s) l @ s # filter (\<lambda>x. Staker_Less s x) l)"
    using l(1) Staker_Less_order(2) by (auto simp: sorted_wrt_append sorted_wrt_filter)
  ultimately show ?thesis by (simp add: holds_def ins)
qed

lemma holds_delete:
  assumes "btree_ok bt" "holds bt (Some t) S" "inj_on st_TxID (insert s S)"
  shows "holds bt (Some (bt_Delete bt s t)) (S - {s})"
proof -
  have "(Staker_Less x s \<or> Staker_Less s x) = (x \<noteq> s)" if "x \<in> S" for x
    using assms(3) that Staker_Less_total [of x s] Staker_Less_order(1) by (auto simp: inj_on_def)
  with assms(1,2) show ?thesis by (auto simp: holds_def btree_ok_def sorted_wrt_filter)
qed

definition lists :: "'pk StakerIterator \<Rightarrow> 'pk Staker set \<Rightarrow> bool" where
  "lists it S \<longleftrightarrow> (\<exists>ss. yields it ss \<and> sorted_wrt Staker_Less ss \<and> set ss = S)"

lemma lists_tree: "holds bt tree S \<Longrightarrow> lists (NewTreeIterator bt tree) S"
  by (cases tree) (auto simp: lists_def holds_def NewTreeIterator_def intro: yields_empty yields_tree)

lemma strictly_sorted:
  assumes "staker_sorted ss" "distinct ss" "inj_on st_TxID (set ss)"
  shows "sorted_wrt Staker_Less ss"
  using assms
proof (induction ss)
  case (Cons s ss)
  then have "Staker_Less s t" if "t \<in> set ss" for t
    using that Staker_Less_total [of s t] by (auto simp: inj_on_def)
  with Cons show ?case by (auto simp: inj_on_def)
qed simp

lemma sorted_not_less: "sorted_wrt Staker_Less ss \<Longrightarrow> staker_sorted ss \<and> distinct ss"
  by (induction ss) (auto dest: Staker_Less_asym simp: Staker_Less_order(1))

lemma lists_merged:
  assumes "lists a S" "lists b T" "inj_on st_TxID (S \<union> T)" "S \<inter> T = {}"
  shows "\<exists>it. NewMergedIterator [a, b] = Some it \<and> lists it (S \<union> T)"
proof -
  from assms(1,2) obtain ss ts where s: "yields a ss" "sorted_wrt Staker_Less ss" "set ss = S"
    and t: "yields b ts" "sorted_wrt Staker_Less ts" "set ts = T" by (auto simp: lists_def)
  note r = rest_of_eq [OF s(1)] rest_of_eq [OF t(1)] and o = sorted_not_less [OF s(2)] sorted_not_less [OF t(2)]
  have "sorted_iterators [a, b]" using s t o by (simp add: sorted_iterators_def r)
  then obtain it zs where z: "NewMergedIterator [a, b] = Some it" "yields it zs" "mset zs = pool [a, b]" "staker_sorted zs"
    using yields_merged by blast
  have m: "mset zs = mset (ss @ ts)" using z(3) by (simp add: pool_def r)
  have "distinct (ss @ ts)" using o s(3) t(3) assms(4) by simp
  then have d: "distinct zs" using m mset_eq_imp_distinct_iff by blast
  have st: "set zs = S \<union> T" using mset_eq_setD [OF m] s(3) t(3) by simp
  have "lists it (S \<union> T)"
    unfolding lists_def using z(2) st strictly_sorted [OF z(4) d] assms(3) by auto
  with z(1) show ?thesis by blast
qed

lemma lists_masked: "lists it S \<Longrightarrow> lists (NewMaskedIterator it m) {s \<in> S. m (st_TxID s) = None}"
  unfolding lists_def NewMaskedIterator_def
  by (force intro: yields_masked sorted_wrt_filter)

lemma lists_empty: "lists EmptyIterator {}"
  by (auto simp: lists_def intro: yields_empty)

subsection \<open>The set of stakers\<close>

text \<open>The contract: a validator at most for every subnet and node, a set of delegators for each of them.\<close>

type_synonym staker_at = "ID \<times> NodeID"

record 'pk staker_set =
  ss_vals :: "staker_at \<Rightarrow> 'pk Staker option"
  ss_dels :: "staker_at \<Rightarrow> 'pk Staker set"

definition place :: "'pk Staker \<Rightarrow> staker_at" where
  "place s = (st_SubnetID s, st_NodeID s)"

lemma place_sel [simp]: "fst (place s) = st_SubnetID s" "snd (place s) = st_NodeID s"
  by (simp_all add: place_def)

declare split_paired_All [simp del] split_paired_Ex [simp del]

definition no_stakers :: "'pk staker_set" where
  "no_stakers = \<lparr>ss_vals = (\<lambda>_. None), ss_dels = (\<lambda>_. {})\<rparr>"

definition ss_all :: "'pk staker_set \<Rightarrow> 'pk Staker set" where
  "ss_all A = {s. ss_vals A (place s) = Some s \<or> s \<in> ss_dels A (place s)}"

datatype 'pk staker_call =
    PutValidator "'pk Staker"
  | DeleteValidator "'pk Staker"
  | PutDelegator "'pk Staker"
  | DeleteDelegator "'pk Staker"

fun ss_call :: "'pk staker_call \<Rightarrow> 'pk staker_set \<Rightarrow> 'pk staker_set" where
  "ss_call (PutValidator s) A = A\<lparr>ss_vals := (ss_vals A)(place s \<mapsto> s)\<rparr>"
| "ss_call (DeleteValidator s) A = A\<lparr>ss_vals := (ss_vals A)(place s := None)\<rparr>"
| "ss_call (PutDelegator s) A = A\<lparr>ss_dels := (ss_dels A)(place s := insert s (ss_dels A (place s)))\<rparr>"
| "ss_call (DeleteDelegator s) A = A\<lparr>ss_dels := (ss_dels A)(place s := ss_dels A (place s) - {s})\<rparr>"

fun ss_run :: "'pk staker_call list \<Rightarrow> 'pk staker_set \<Rightarrow> 'pk staker_set" where
  "ss_run [] A = A"
| "ss_run (c # cs) A = ss_run cs (ss_call c A)"

text \<open>Callers add a staker under a new transaction only, a validator only where there is none, and delete what is there.\<close>

fun call_ok :: "ID set \<Rightarrow> 'pk staker_set \<Rightarrow> 'pk staker_call \<Rightarrow> bool" where
  "call_ok seen A (PutValidator s) \<longleftrightarrow> ss_vals A (place s) = None \<and> st_TxID s \<notin> seen"
| "call_ok seen A (DeleteValidator s) \<longleftrightarrow> ss_vals A (place s) = Some s"
| "call_ok seen A (PutDelegator s) \<longleftrightarrow> st_TxID s \<notin> seen"
| "call_ok seen A (DeleteDelegator s) \<longleftrightarrow> s \<in> ss_dels A (place s)"

fun see :: "'pk staker_call \<Rightarrow> ID set \<Rightarrow> ID set" where
  "see (PutValidator s) seen = insert (st_TxID s) seen"
| "see (PutDelegator s) seen = insert (st_TxID s) seen"
| "see _ seen = seen"

fun calls_ok :: "ID set \<Rightarrow> 'pk staker_set \<Rightarrow> 'pk staker_call list \<Rightarrow> bool" where
  "calls_ok seen A [] \<longleftrightarrow> True"
| "calls_ok seen A (c # cs) \<longleftrightarrow> call_ok seen A c \<and> calls_ok (see c seen) (ss_call c A) cs"

definition ss_wf :: "ID set \<Rightarrow> 'pk staker_set \<Rightarrow> bool" where
  "ss_wf seen A \<longleftrightarrow> (\<forall>k s. ss_vals A k = Some s \<longrightarrow> place s = k \<and> s \<notin> ss_dels A k)
     \<and> (\<forall>k. \<forall>s \<in> ss_dels A k. place s = k) \<and> inj_on st_TxID (ss_all A) \<and> st_TxID ` ss_all A \<subseteq> seen"

lemma ss_wfD:
  "ss_wf seen A \<Longrightarrow> ss_vals A k = Some s \<Longrightarrow> place s = k \<and> s \<notin> ss_dels A k"
  "ss_wf seen A \<Longrightarrow> s \<in> ss_dels A k \<Longrightarrow> place s = k"
  "ss_wf seen A \<Longrightarrow> inj_on st_TxID (ss_all A)" "ss_wf seen A \<Longrightarrow> s \<in> ss_all A \<Longrightarrow> st_TxID s \<in> seen"
  by (auto simp: ss_wf_def)

lemma ss_all_vals: "ss_wf seen A \<Longrightarrow> ss_vals A k = Some s \<Longrightarrow> s \<in> ss_all A"
  using ss_wfD(1) by (fastforce simp: ss_all_def)

lemma ss_all_dels: "ss_wf seen A \<Longrightarrow> s \<in> ss_dels A k \<Longrightarrow> s \<in> ss_all A"
  using ss_wfD(2) by (fastforce simp: ss_all_def)

lemma ss_all_PutValidator: "ss_vals A (place s) = None \<Longrightarrow> ss_all (ss_call (PutValidator s) A) = insert s (ss_all A)"
  by (auto simp: ss_all_def split: if_splits)

lemma ss_all_PutDelegator: "ss_all (ss_call (PutDelegator s) A) = insert s (ss_all A)"
  by (auto simp: ss_all_def split: if_splits)

lemma ss_all_DeleteValidator:
  "ss_wf seen A \<Longrightarrow> ss_vals A (place s) = Some s \<Longrightarrow> ss_all (ss_call (DeleteValidator s) A) = ss_all A - {s}"
  using ss_wfD(1) [of seen A "place s" s] by (auto simp: ss_all_def split: if_splits)

lemma ss_all_DeleteDelegator:
  "ss_wf seen A \<Longrightarrow> s \<in> ss_dels A (place s) \<Longrightarrow> ss_all (ss_call (DeleteDelegator s) A) = ss_all A - {s}"
  using ss_wfD(1) [of seen A "place s" s] by (auto simp: ss_all_def split: if_splits)

lemmas ss_all_call = ss_all_PutValidator ss_all_PutDelegator ss_all_DeleteValidator ss_all_DeleteDelegator

lemma ss_wf_call:
  assumes wf: "ss_wf seen A" and ok: "call_ok seen A c"
  shows "ss_wf (see c seen) (ss_call c A)"
proof -
  note d = ss_wfD [OF wf]
  have new: "s \<notin> ss_dels A k \<and> ss_vals A k \<noteq> Some s" if "st_TxID s \<notin> seen" for s k
    using that d(4) ss_all_dels [OF wf, of s k] ss_all_vals [OF wf, of k s] by blast
  have "inj_on st_TxID (ss_all (ss_call c A)) \<and> st_TxID ` ss_all (ss_call c A) \<subseteq> see c seen"
  proof (cases c)
    case (PutValidator s)
    then show ?thesis using d(3,4) ok ss_all_PutValidator [of A s] by auto
  next
    case (PutDelegator s)
    then show ?thesis using d(3,4) ok ss_all_PutDelegator [of s A] by auto
  next
    case (DeleteValidator s)
    then show ?thesis using d(3,4) ok ss_all_DeleteValidator [OF wf, of s] by (auto intro: inj_on_diff)
  next
    case (DeleteDelegator s)
    then show ?thesis using d(3,4) ok ss_all_DeleteDelegator [OF wf, of s] by (auto intro: inj_on_diff)
  qed
  moreover have "place s = k \<and> s \<notin> ss_dels (ss_call c A) k" if "ss_vals (ss_call c A) k = Some s" for k s
    using that ok d(1) [of k s] new [of s k] by (cases c) (auto split: if_splits)
  moreover have "place s = k" if "s \<in> ss_dels (ss_call c A) k" for k s
    using that d(2) [of s k] by (cases c) (auto split: if_splits)
  ultimately show ?thesis by (simp add: ss_wf_def)
qed

lemma ss_wf_none: "ss_wf {} no_stakers"
  by (auto simp: ss_wf_def no_stakers_def ss_all_def)

text \<open>What a reader of stakers sees of a set of stakers.\<close>

definition reads_as ::
  "(ID \<Rightarrow> NodeID \<Rightarrow> 'pk Staker option) \<Rightarrow> (ID \<Rightarrow> NodeID \<Rightarrow> 'pk StakerIterator option) \<Rightarrow> 'pk StakerIterator option
     \<Rightarrow> 'pk staker_set \<Rightarrow> bool" where
  "reads_as getValidator getDelegators getStakers A \<longleftrightarrow>
     (\<forall>subnetID nodeID. getValidator subnetID nodeID = ss_vals A (subnetID, nodeID))
     \<and> (\<forall>subnetID nodeID. \<exists>it. getDelegators subnetID nodeID = Some it \<and> lists it (ss_dels A (subnetID, nodeID)))
     \<and> (\<exists>it. getStakers = Some it \<and> lists it (ss_all A))"

end
