(* ===== verification/Stakers_Refine.thy ===== *)
theory Stakers_Refine
  imports Stakers
begin

text \<open>
  The base stakers and the differences of \<^verbatim>\<open>Stakers\<close> refine a set of stakers: every sequence of calls that the callers may make leads
  to a state that is read as the set after these calls, a difference may be read on top of any parent, and a difference that is applied
  to the base leaves it as the calls would have.
\<close>

declare split_paired_All [simp del] split_paired_Ex [simp del]

subsection \<open>Sequences of calls\<close>

fun bs_call :: "('pk, 't) btree \<Rightarrow> 'pk staker_call \<Rightarrow> ('pk, 't) baseStakers \<Rightarrow> ('pk, 't) baseStakers option" where
  "bs_call bt (PutValidator s) v = Some (bs_PutValidator bt s v)"
| "bs_call bt (DeleteValidator s) v = bs_DeleteValidator bt s v"
| "bs_call bt (PutDelegator s) v = Some (bs_PutDelegator bt s v)"
| "bs_call bt (DeleteDelegator s) v = bs_DeleteDelegator bt s v"

fun bs_run :: "('pk, 't) btree \<Rightarrow> 'pk staker_call list \<Rightarrow> ('pk, 't) baseStakers \<Rightarrow> ('pk, 't) baseStakers option" where
  "bs_run bt [] v = Some v"
| "bs_run bt (c # cs) v = Option.bind (bs_call bt c v) (bs_run bt cs)"

fun ds_call :: "('pk, 't) btree \<Rightarrow> 'pk staker_call \<Rightarrow> ('pk, 't) diffStakers \<Rightarrow> ('pk, 't) diffStakers option" where
  "ds_call bt (PutValidator s) d = Some (ds_PutValidator bt s d)"
| "ds_call bt (DeleteValidator s) d = ds_DeleteValidator bt s d"
| "ds_call bt (PutDelegator s) d = Some (ds_PutDelegator bt s d)"
| "ds_call bt (DeleteDelegator s) d = Some (ds_DeleteDelegator s d)"

fun ds_run :: "('pk, 't) btree \<Rightarrow> 'pk staker_call list \<Rightarrow> ('pk, 't) diffStakers \<Rightarrow> ('pk, 't) diffStakers option" where
  "ds_run bt [] d = Some d"
| "ds_run bt (c # cs) d = Option.bind (ds_call bt c d) (ds_run bt cs)"

text \<open>A difference assumes that no validator is removed and then added.\<close>

fun never_readded :: "staker_at set \<Rightarrow> 'pk staker_call list \<Rightarrow> bool" where
  "never_readded gone [] \<longleftrightarrow> True"
| "never_readded gone (PutValidator s # cs) \<longleftrightarrow> place s \<notin> gone \<and> never_readded gone cs"
| "never_readded gone (DeleteValidator s # cs) \<longleftrightarrow> never_readded (insert (place s) gone) cs"
| "never_readded gone (_ # cs) \<longleftrightarrow> never_readded gone cs"

text \<open>Transactions of the stakers that are there now, and calls that are allowed at each step.\<close>

abbreviation ids_of :: "'pk staker_set \<Rightarrow> ID set" where
  "ids_of A \<equiv> st_TxID ` ss_all A"

abbreviation sound :: "'pk staker_set \<Rightarrow> bool" where
  "sound A \<equiv> ss_wf (ids_of A) A"

lemma sound_wf: "ss_wf seen A \<Longrightarrow> sound A"
  by (simp add: ss_wf_def)

fun steps_ok :: "'pk staker_set \<Rightarrow> 'pk staker_call list \<Rightarrow> bool" where
  "steps_ok A [] \<longleftrightarrow> True"
| "steps_ok A (c # cs) \<longleftrightarrow> call_ok (ids_of A) A c \<and> steps_ok (ss_call c A) cs"

lemma call_ok_mono: "seen' \<subseteq> seen \<Longrightarrow> call_ok seen A c \<Longrightarrow> call_ok seen' A c"
  by (cases c) auto

lemma calls_ok_run: "ss_wf seen A \<Longrightarrow> calls_ok seen A cs \<Longrightarrow> steps_ok A cs \<and> (\<exists>seen'. ss_wf seen' (ss_run cs A))"
proof (induction cs arbitrary: seen A)
  case (Cons c cs)
  have "call_ok (ids_of A) A c" using Cons.prems by (intro call_ok_mono [of "ids_of A" seen]) (simp_all add: ss_wf_def)
  with Cons.IH [OF ss_wf_call [of seen A c]] Cons.prems show ?case by simp
qed (simp, blast)

lemma steps_ok_append: "steps_ok A (cs @ cs') \<longleftrightarrow> steps_ok A cs \<and> steps_ok (ss_run cs A) cs'"
  by (induction cs arbitrary: A) auto

lemma ss_run_append: "ss_run (cs @ cs') A = ss_run cs' (ss_run cs A)"
  by (induction cs arbitrary: A) auto

lemma bs_run_append: "bs_run bt (cs @ cs') v = Option.bind (bs_run bt cs v) (bs_run bt cs')"
  by (induction cs arbitrary: v) (auto split: Option.bind_splits)

subsection \<open>The base stakers\<close>

definition entry :: "('pk, 't) baseStakers \<Rightarrow> staker_at \<Rightarrow> ('pk, 't) baseStaker" where
  "entry v k = (case lookup2 (bs_validators v) (fst k) (snd k) of None \<Rightarrow> \<lparr>bs_validator = None, bs_delegators = None\<rparr> | Some e \<Rightarrow> e)"

definition base_rep :: "('pk, 't) btree \<Rightarrow> ('pk, 't) baseStakers \<Rightarrow> 'pk staker_set \<Rightarrow> bool" where
  "base_rep bt v A \<longleftrightarrow>
     (\<forall>k. bs_validator (entry v k) = ss_vals A k \<and> holds bt (bs_delegators (entry v k)) (ss_dels A k))
     \<and> holds bt (Some (bs_stakers v)) (ss_all A)"

lemma base_repD:
  "base_rep bt v A \<Longrightarrow> bs_validator (entry v k) = ss_vals A k"
  "base_rep bt v A \<Longrightarrow> holds bt (bs_delegators (entry v k)) (ss_dels A k)"
  "base_rep bt v A \<Longrightarrow> holds bt (Some (bs_stakers v)) (ss_all A)"
  by (auto simp: base_rep_def)

lemma getOrCreate_entry [simp]:
  "fst (getOrCreateValidator (st_SubnetID s) (st_NodeID s) v) = entry v (place s)"
  "entry (snd (getOrCreateValidator (st_SubnetID s) (st_NodeID s) v)) = entry v"
  "bs_stakers (snd (getOrCreateValidator (st_SubnetID s) (st_NodeID s) v)) = bs_stakers v"
  "lookup2 (bs_validators (snd (getOrCreateValidator (st_SubnetID s) (st_NodeID s) v))) (st_SubnetID s) (st_NodeID s) \<noteq> None"
proof -
  let ?v = "snd (getOrCreateValidator (st_SubnetID s) (st_NodeID s) v)"
  have "entry ?v k = entry v k" for k
    by (cases "fst k = st_SubnetID s \<and> snd k = st_NodeID s")
      (auto simp: getOrCreateValidator_def entry_def Let_def split: option.split)
  then show "entry ?v = entry v" by blast
qed (auto simp: getOrCreateValidator_def entry_def Let_def split: option.split)

lemma entry_put [simp]: "entry (bs_put (st_SubnetID s) (st_NodeID s) e v) = (entry v)(place s := e)"
  by (auto simp: entry_def bs_put_def fun_eq_iff place_def)

lemma bs_put_sel [simp]: "bs_stakers (bs_put a b e v) = bs_stakers v" "lookup2 (bs_validators (bs_put a b e v)) a b = Some e"
  by (simp_all add: bs_put_def)

lemma entry_sel [simp]:
  "entry (v\<lparr>bs_validatorDiffs := x\<rparr>) = entry v" "entry (v\<lparr>bs_stakers := y\<rparr>) = entry v"
  by (simp_all add: entry_def fun_eq_iff)

lemma prune_entry:
  assumes "lookup2 (bs_validators v) (st_SubnetID s) (st_NodeID s) \<noteq> None" "btree_ok bt"
  shows "\<exists>v' e. pruneValidator bt (st_SubnetID s) (st_NodeID s) v = Some v' \<and> bs_stakers v' = bs_stakers v
    \<and> entry v' = (entry v)(place s := e) \<and> bs_validator e = bs_validator (entry v (place s))
    \<and> (\<forall>S. holds bt (bs_delegators (entry v (place s))) S \<longrightarrow> holds bt (bs_delegators e) S)"
proof -
  from assms(1) obtain n e where n: "map_of (bs_validators v) (st_SubnetID s) = Some n" "map_of n (st_NodeID s) = Some e"
    by (auto simp: lookup2_def split: option.splits)
  then have e: "entry v (place s) = e" by (simp add: entry_def lookup2_def)
  show ?thesis
  proof (cases "bs_validator e \<noteq> None \<or> (case bs_delegators e of None \<Rightarrow> False | Some t \<Rightarrow> bt_Len bt t > 0)")
    case True
    then have "pruneValidator bt (st_SubnetID s) (st_NodeID s) v = Some v" using n by (auto simp: pruneValidator_def)
    with e show ?thesis by (intro exI [of _ v] exI [of _ e]) (simp add: fun_upd_idem)
  next
    case False
    define n' where "n' = AList.delete (st_NodeID s) n"
    define v' where "v' = v\<lparr>bs_validators := (if length n' = 0 then AList.delete (st_SubnetID s) (bs_validators v)
      else AList.update (st_SubnetID s) n' (bs_validators v))\<rparr>"
    have p: "pruneValidator bt (st_SubnetID s) (st_NodeID s) v = Some v'"
      using n False by (auto simp: pruneValidator_def v'_def n'_def Let_def)
    have n': "map_of n' = (map_of n)(st_NodeID s := None)" by (simp add: n'_def)
    have nil: "map_of n = (map_of n)(st_NodeID s := None, st_NodeID s \<mapsto> e)" using n(2) by auto
    have "lookup2 (bs_validators v') a b = (if (a, b) = place s then None else lookup2 (bs_validators v) a b)" for a b
    proof (cases "length n' = 0")
      case True
      then have "map_of n b = None" if "b \<noteq> st_NodeID s" for b using fun_cong [OF n', of b] that by simp
      with True n(1) show ?thesis by (auto simp: v'_def lookup2_def place_def)
    next
      case False
      with n(1) n' show ?thesis by (auto simp: v'_def lookup2_def place_def)
    qed
    then have "entry v' = (entry v)(place s := \<lparr>bs_validator = None, bs_delegators = None\<rparr>)"
      by (auto simp: entry_def fun_eq_iff place_def split: if_splits)
    moreover have "S = {}" if "holds bt (bs_delegators e) S" for S
      using False that assms(2) by (auto simp: holds_def btree_ok_def split: option.splits)
    ultimately show ?thesis using p e False
      by (intro exI [of _ v'] exI [of _ "\<lparr>bs_validator = None, bs_delegators = None\<rparr>"]) (auto simp: v'_def)
  qed
qed

text \<open>How the four operations change the entries and the tree of all stakers.\<close>

lemma bs_PutValidator_entry:
  "entry (bs_PutValidator bt s v) = (entry v)(place s := (entry v (place s))\<lparr>bs_validator := Some s\<rparr>)"
  "bs_stakers (bs_PutValidator bt s v) = bt_ReplaceOrInsert bt s (bs_stakers v)"
  by (auto simp: bs_PutValidator_def Let_def case_prod_unfold)

lemma bs_PutDelegator_entry:
  "entry (bs_PutDelegator bt s v) = (entry v)(place s := (entry v (place s))\<lparr>bs_delegators :=
     Some (bt_ReplaceOrInsert bt s (new_if_nil bt (bs_delegators (entry v (place s)))))\<rparr>)"
  "bs_stakers (bs_PutDelegator bt s v) = bt_ReplaceOrInsert bt s (bs_stakers v)"
  by (auto simp: bs_PutDelegator_def Let_def case_prod_unfold)

lemma bs_DeleteValidator_entry:
  assumes "btree_ok bt"
  shows "\<exists>v' e. bs_DeleteValidator bt s v = Some v' \<and> entry v' = (entry v)(place s := e) \<and> bs_validator e = None
    \<and> (\<forall>S. holds bt (bs_delegators (entry v (place s))) S \<longrightarrow> holds bt (bs_delegators e) S)
    \<and> bs_stakers v' = bt_Delete bt s (bs_stakers v)"
proof -
  let ?g = "getOrCreateValidator (st_SubnetID s) (st_NodeID s) v"
  define w where "w = bs_put (st_SubnetID s) (st_NodeID s) ((fst ?g)\<lparr>bs_validator := None\<rparr>) (snd ?g)"
  obtain v' e where p: "pruneValidator bt (st_SubnetID s) (st_NodeID s) w = Some v'" "bs_stakers v' = bs_stakers w"
    "entry v' = (entry w)(place s := e)" "bs_validator e = bs_validator (entry w (place s))"
    "\<forall>S. holds bt (bs_delegators (entry w (place s))) S \<longrightarrow> holds bt (bs_delegators e) S"
    using prune_entry [of w s, OF _ assms] by (auto simp: w_def)
  have "bs_DeleteValidator bt s v = Option.bind (pruneValidator bt (st_SubnetID s) (st_NodeID s) w) (\<lambda>v.
      let (vd, vds) = getOrCreateDiff (st_SubnetID s) (st_NodeID s) (bs_validatorDiffs v)
      in Some (v\<lparr>bs_validatorDiffs := update2 (st_SubnetID s) (st_NodeID s) (vd\<lparr>dv_validatorStatus := deleted, dv_validator := Some s\<rparr>) vds,
           bs_stakers := bt_Delete bt s (bs_stakers v)\<rparr>))"
    by (simp add: bs_DeleteValidator_def w_def Let_def case_prod_unfold)
  with p show ?thesis by (auto simp: Let_def case_prod_unfold w_def)
qed

lemma bs_DeleteDelegator_entry:
  assumes "btree_ok bt" "bs_delegators (entry v (place s)) = Some t"
  shows "\<exists>v' e. bs_DeleteDelegator bt s v = Some v' \<and> entry v' = (entry v)(place s := e) \<and> bs_validator e = bs_validator (entry v (place s))
    \<and> (\<forall>S. holds bt (Some (bt_Delete bt s t)) S \<longrightarrow> holds bt (bs_delegators e) S)
    \<and> bs_stakers v' = bt_Delete bt s (bs_stakers v)"
proof -
  let ?g = "getOrCreateValidator (st_SubnetID s) (st_NodeID s) v"
  define w where "w = bs_put (st_SubnetID s) (st_NodeID s) ((fst ?g)\<lparr>bs_delegators := Some (bt_Delete bt s t)\<rparr>) (snd ?g)"
  obtain v' e where p: "pruneValidator bt (st_SubnetID s) (st_NodeID s) w = Some v'" "bs_stakers v' = bs_stakers w"
    "entry v' = (entry w)(place s := e)" "bs_validator e = bs_validator (entry w (place s))"
    "\<forall>S. holds bt (bs_delegators (entry w (place s))) S \<longrightarrow> holds bt (bs_delegators e) S"
    using prune_entry [of w s, OF _ assms(1)] by (auto simp: w_def)
  have "bs_DeleteDelegator bt s v = Option.bind (pruneValidator bt (st_SubnetID s) (st_NodeID s) w) (\<lambda>v.
      let (vd, vds) = getOrCreateDiff (st_SubnetID s) (st_NodeID s) (bs_validatorDiffs v)
      in Some (v\<lparr>bs_validatorDiffs := update2 (st_SubnetID s) (st_NodeID s) (vd\<lparr>dv_deletedDelegators :=
             AList.update (st_TxID s) s (dv_deletedDelegators vd)\<rparr>) vds,
           bs_stakers := bt_Delete bt s (bs_stakers v)\<rparr>))"
    using assms(2) by (simp add: bs_DeleteDelegator_def w_def Let_def case_prod_unfold)
  with p show ?thesis by (auto simp: Let_def case_prod_unfold w_def)
qed

lemma base_rep_upd:
  assumes "base_rep bt v A" "entry v' = (entry v)(k := e)" "bs_validator e = ss_vals A' k" "holds bt (bs_delegators e) (ss_dels A' k)"
    "holds bt (Some (bs_stakers v')) (ss_all A')" "\<And>k'. k' \<noteq> k \<Longrightarrow> ss_vals A' k' = ss_vals A k' \<and> ss_dels A' k' = ss_dels A k'"
  shows "base_rep bt v' A'"
  using assms by (simp add: base_rep_def)

lemma sound_inj: "sound A \<Longrightarrow> inj_on st_TxID (ss_all A)" "sound A \<Longrightarrow> S \<subseteq> ss_all A \<Longrightarrow> inj_on st_TxID S"
  by (auto simp: ss_wf_def intro: inj_on_subset)

lemma sound_fresh: "sound A \<Longrightarrow> fresh_in s (ss_all A) \<Longrightarrow> fresh_in s (ss_dels A k)"
  using ss_all_dels by fast

text \<open>Every allowed call keeps the correspondence, and none panics.\<close>

lemma base_call:
  assumes "btree_ok bt" "base_rep bt v A" "sound A" "call_ok (ids_of A) A c"
  shows "\<exists>v'. bs_call bt c v = Some v' \<and> base_rep bt v' (ss_call c A)"
proof (cases c)
  case (PutValidator s)
  note r = base_repD [OF assms(2)] and e = bs_PutValidator_entry [of bt s v]
  have "holds bt (Some (bs_stakers (bs_PutValidator bt s v))) (ss_all (ss_call c A))"
    using holds_insert [OF assms(1) r(3)] assms(4) PutValidator
    by (simp add: ss_all_PutValidator [simplified] e(2) new_if_nil_def)
  then show ?thesis
    using PutValidator by (auto intro!: base_rep_upd [OF assms(2) e(1)] simp: r)
next
  case (PutDelegator s)
  note r = base_repD [OF assms(2)] and e = bs_PutDelegator_entry [of bt s v]
  have "holds bt (Some (bs_stakers (bs_PutDelegator bt s v))) (ss_all (ss_call c A))"
    using holds_insert [OF assms(1) r(3)] assms(4) PutDelegator
    by (simp add: ss_all_PutDelegator [simplified] e(2) new_if_nil_def)
  moreover have "fresh_in s (ss_dels A (place s))" using sound_fresh [OF assms(3)] assms(4) PutDelegator by simp
  ultimately show ?thesis
    using PutDelegator by (auto intro!: base_rep_upd [OF assms(2) e(1)] holds_insert [OF assms(1)] simp: r)
next
  case (DeleteValidator s)
  note r = base_repD [OF assms(2)]
  from bs_DeleteValidator_entry [OF assms(1), of s v] obtain v' e where e: "bs_DeleteValidator bt s v = Some v'"
    "entry v' = (entry v)(place s := e)" "bs_validator e = None"
    "\<And>S. holds bt (bs_delegators (entry v (place s))) S \<Longrightarrow> holds bt (bs_delegators e) S"
    "bs_stakers v' = bt_Delete bt s (bs_stakers v)" by blast
  have s: "ss_vals A (place s) = Some s" using assms(4) DeleteValidator by simp
  have "insert s (ss_all A) = ss_all A" using ss_all_vals [OF assms(3) s] by blast
  then have "holds bt (Some (bs_stakers v')) (ss_all (ss_call c A))"
    using holds_delete [OF assms(1) r(3), of s] sound_inj(1) [OF assms(3)] ss_all_DeleteValidator [OF assms(3) s] DeleteValidator e(5) by simp
  then show ?thesis
    using DeleteValidator e(1,3) e(4) [OF r(2)] by (auto intro!: base_rep_upd [OF assms(2) e(2)])
next
  case (DeleteDelegator s)
  note r = base_repD [OF assms(2)]
  have s: "s \<in> ss_dels A (place s)" using assms(4) DeleteDelegator by simp
  then obtain t where t: "bs_delegators (entry v (place s)) = Some t" using r(2) [of "place s"] by (cases "bs_delegators (entry v (place s))") auto
  from bs_DeleteDelegator_entry [OF assms(1) t] obtain v' e where e: "bs_DeleteDelegator bt s v = Some v'"
    "entry v' = (entry v)(place s := e)" "bs_validator e = bs_validator (entry v (place s))"
    "\<And>S. holds bt (Some (bt_Delete bt s t)) S \<Longrightarrow> holds bt (bs_delegators e) S"
    "bs_stakers v' = bt_Delete bt s (bs_stakers v)" by blast
  have "insert s (ss_all A) = ss_all A" using ss_all_dels [OF assms(3)] s by blast
  then have "holds bt (Some (bs_stakers v')) (ss_all (ss_call c A))"
    using holds_delete [OF assms(1) r(3), of s] sound_inj(1) [OF assms(3)] ss_all_DeleteDelegator [OF assms(3) s] DeleteDelegator e(5) by simp
  moreover have "holds bt (Some (bt_Delete bt s t)) (ss_dels A (place s) - {s})"
    by (rule holds_delete [OF assms(1) r(2) [of "place s", unfolded t] sound_inj(2) [OF assms(3)]]) (use s ss_all_dels [OF assms(3)] in blast)
  ultimately show ?thesis
    using DeleteDelegator e(1,3,4) r(1) by (auto intro!: base_rep_upd [OF assms(2) e(2)])
qed

lemma sound_call: "sound A \<Longrightarrow> call_ok (ids_of A) A c \<Longrightarrow> sound (ss_call c A)"
  by (rule sound_wf [OF ss_wf_call])

lemma base_run:
  "btree_ok bt \<Longrightarrow> base_rep bt v A \<Longrightarrow> sound A \<Longrightarrow> steps_ok A cs \<Longrightarrow>
   \<exists>v'. bs_run bt cs v = Some v' \<and> base_rep bt v' (ss_run cs A) \<and> sound (ss_run cs A)"
proof (induction cs arbitrary: v A)
  case (Cons c cs)
  then obtain v' where "bs_call bt c v = Some v'" "base_rep bt v' (ss_call c A)" using base_call [of bt v A c] by auto
  with Cons.IH [of v' "ss_call c A"] Cons.prems sound_call [of A c] show ?case by simp
qed simp

lemma base_rep_new: "btree_ok bt \<Longrightarrow> base_rep bt (newBaseStakers bt) no_stakers"
  using holds_New [of bt] by (auto simp: base_rep_def entry_def newBaseStakers_def no_stakers_def ss_all_def)

lemma base_reads:
  assumes "base_rep bt v A"
  shows "reads_as (\<lambda>a b. bs_GetValidator a b v) (\<lambda>a b. Some (bs_GetDelegatorIterator bt a b v)) (Some (bs_GetStakerIterator bt v)) A"
proof -
  have "bs_GetValidator a b v = bs_validator (entry v (a, b))" for a b
    by (simp add: bs_GetValidator_def entry_def lookup2_def split: option.splits)
  moreover have "bs_GetDelegatorIterator bt a b v = NewTreeIterator bt (bs_delegators (entry v (a, b)))" for a b
    by (simp add: bs_GetDelegatorIterator_def NewTreeIterator_def entry_def lookup2_def split: option.splits)
  ultimately show ?thesis using base_repD [OF assms] by (auto simp: reads_as_def bs_GetStakerIterator_def intro: lists_tree)
qed

subsection \<open>A difference over its parent\<close>

definition dv_at :: "('pk, 't) diffStakers \<Rightarrow> staker_at \<Rightarrow> ('pk, 't) diffValidator" where
  "dv_at d k = (case lookup2 (ds_validatorDiffs d) (fst k) (snd k) of None \<Rightarrow> new_diffValidator | Some vd \<Rightarrow> vd)"

abbreviation added_at :: "('pk, 't) btree \<Rightarrow> ('pk, 't) diffStakers \<Rightarrow> staker_at \<Rightarrow> 'pk Staker set" where
  "added_at bt d k \<equiv> set (tree_list bt (dv_addedDelegators (dv_at d k)))"

abbreviation added_all :: "('pk, 't) btree \<Rightarrow> ('pk, 't) diffStakers \<Rightarrow> 'pk Staker set" where
  "added_all bt d \<equiv> set (tree_list bt (ds_addedStakers d))"

text \<open>The validator of a place: what the entry says about it, given the parent and the present set.\<close>

definition validator_rep :: "('pk, 't) diffValidator \<Rightarrow> 'pk Staker option \<Rightarrow> bool \<Rightarrow> 'pk Staker option \<Rightarrow> bool" where
  "validator_rep vd old gone now \<longleftrightarrow>
     (case dv_validatorStatus vd of
        unmodified \<Rightarrow> now = old
      | added \<Rightarrow> old = None \<and> now \<noteq> None \<and> dv_validator vd = now
      | deleted \<Rightarrow> gone \<and> now = None \<and> old \<noteq> None \<and> dv_validator vd = old)"

text \<open>The delegators of a place.\<close>

definition delegators_rep :: "('pk, 't) btree \<Rightarrow> ('pk, 't) diffValidator \<Rightarrow> 'pk Staker set \<Rightarrow> 'pk Staker set \<Rightarrow> bool" where
  "delegators_rep bt vd old now \<longleftrightarrow>
     (\<exists>S. holds bt (dv_addedDelegators vd) S
        \<and> now = {s \<in> old \<union> S. map_of (dv_deletedDelegators vd) (st_TxID s) = None}
        \<and> wf_gomap (dv_deletedDelegators vd) \<and> (\<forall>(i, s) \<in> set (dv_deletedDelegators vd). st_TxID s = i \<and> s \<in> old \<union> S))"

text \<open>The part of the correspondence that concerns all stakers.\<close>

definition all_rep :: "('pk, 't) btree \<Rightarrow> 'pk staker_set \<Rightarrow> ID set \<Rightarrow> ('pk, 't) diffStakers \<Rightarrow> 'pk staker_set \<Rightarrow> bool" where
  "all_rep bt A0 seen d A \<longleftrightarrow> holds bt (ds_addedStakers d) (added_all bt d)
     \<and> ss_all A = {s \<in> ss_all A0 \<union> added_all bt d. map_of (ds_deletedStakers d) (st_TxID s) = None}
     \<and> inj_on st_TxID (ss_all A0 \<union> added_all bt d) \<and> ss_all A0 \<inter> added_all bt d = {}
     \<and> st_TxID ` (ss_all A0 \<union> added_all bt d) \<subseteq> seen \<and> fst ` set (ds_deletedStakers d) \<subseteq> seen"

lemma all_repD:
  assumes "all_rep bt A0 seen d A"
  shows "holds bt (ds_addedStakers d) (added_all bt d)" "inj_on st_TxID (ss_all A0 \<union> added_all bt d)" "ss_all A0 \<inter> added_all bt d = {}"
    "ss_all A = {s \<in> ss_all A0 \<union> added_all bt d. map_of (ds_deletedStakers d) (st_TxID s) = None}"
    "st_TxID ` (ss_all A0 \<union> added_all bt d) \<subseteq> seen" "fst ` set (ds_deletedStakers d) \<subseteq> seen"
  using assms by (simp_all add: all_rep_def)

definition diff_rep :: "('pk, 't) btree \<Rightarrow> 'pk staker_set \<Rightarrow> ID set \<Rightarrow> staker_at set \<Rightarrow> ('pk, 't) diffStakers \<Rightarrow> 'pk staker_set \<Rightarrow> bool" where
  "diff_rep bt A0 seen gone d A \<longleftrightarrow>
     (\<forall>k. validator_rep (dv_at d k) (ss_vals A0 k) (k \<in> gone) (ss_vals A k))
     \<and> (\<forall>k. delegators_rep bt (dv_at d k) (ss_dels A0 k) (ss_dels A k))
     \<and> (\<forall>k. \<forall>s \<in> added_at bt d k. place s = k \<and> s \<in> added_all bt d \<and> ss_vals A k \<noteq> Some s)
     \<and> (\<forall>k s. dv_validatorStatus (dv_at d k) = added \<longrightarrow> ss_vals A k = Some s \<longrightarrow> s \<in> added_all bt d)
     \<and> all_rep bt A0 seen d A \<and> wf_gomap2 (ds_validatorDiffs d) \<and> ss_wf seen A \<and> sound A0"

lemma diff_repD:
  assumes "diff_rep bt A0 seen gone d A"
  shows "validator_rep (dv_at d k) (ss_vals A0 k) (k \<in> gone) (ss_vals A k)"
    "delegators_rep bt (dv_at d k) (ss_dels A0 k) (ss_dels A k)"
    "s \<in> added_at bt d k \<Longrightarrow> place s = k \<and> s \<in> added_all bt d \<and> ss_vals A k \<noteq> Some s"
    "dv_validatorStatus (dv_at d k) = added \<Longrightarrow> ss_vals A k = Some s \<Longrightarrow> s \<in> added_all bt d"
    "all_rep bt A0 seen d A" "wf_gomap2 (ds_validatorDiffs d)" "ss_wf seen A" "sound A0"
  using assms unfolding diff_rep_def by (elim conjE; fast)+

lemma getOrCreateDiff_sel [simp]:
  "fst (getOrCreateDiff (st_SubnetID s) (st_NodeID s) (ds_validatorDiffs d)) = dv_at d (place s)"
  "update2 (st_SubnetID s) (st_NodeID s) vd (snd (getOrCreateDiff (st_SubnetID s) (st_NodeID s) (ds_validatorDiffs d)))
     = update2 (st_SubnetID s) (st_NodeID s) vd (ds_validatorDiffs d)"
  by (simp_all add: getOrCreateDiff_def dv_at_def update2_def split: option.split)

lemma dv_at_update [simp]:
  "dv_at (d\<lparr>ds_validatorDiffs := update2 (st_SubnetID s) (st_NodeID s) vd m, ds_addedStakers := x\<rparr>)
     = (dv_at (d\<lparr>ds_validatorDiffs := m\<rparr>))(place s := vd)"
  "dv_at (d\<lparr>ds_validatorDiffs := update2 (st_SubnetID s) (st_NodeID s) vd m, ds_deletedStakers := y\<rparr>)
     = (dv_at (d\<lparr>ds_validatorDiffs := m\<rparr>))(place s := vd)"
  by (auto simp: dv_at_def fun_eq_iff place_def)

lemma delegators_rep_cong [simp]:
  "delegators_rep bt (vd\<lparr>dv_validatorStatus := x, dv_validator := y\<rparr>) old now = delegators_rep bt vd old now"
  by (simp add: delegators_rep_def)

lemma validator_rep_cong [simp]:
  "validator_rep (vd\<lparr>dv_addedDelegators := x\<rparr>) old g now = validator_rep vd old g now"
  "validator_rep (vd\<lparr>dv_deletedDelegators := y\<rparr>) old g now = validator_rep vd old g now"
  by (simp_all add: validator_rep_def split: diffValidatorStatus.splits)

lemma unmasked: "fst ` set m \<subseteq> seen \<Longrightarrow> i \<notin> seen \<Longrightarrow> map_of m i = None"
  by (auto simp: map_of_eq_None_iff)

lemma holds_set: "holds bt tree S \<Longrightarrow> set (tree_list bt tree) = S"
  by (simp add: holds_def)

lemma all_rep_put:
  assumes "btree_ok bt" "all_rep bt A0 seen d A" "st_TxID s \<notin> seen" "ss_all A' = insert s (ss_all A)"
    "ds_addedStakers d' = Some (bt_ReplaceOrInsert bt s (new_if_nil bt (ds_addedStakers d)))" "ds_deletedStakers d' = ds_deletedStakers d"
  shows "all_rep bt A0 (insert (st_TxID s) seen) d' A'" "added_all bt d' = insert s (added_all bt d)"
proof -
  let ?U = "ss_all A0 \<union> added_all bt d"
  have a: "holds bt (ds_addedStakers d) (added_all bt d)" "ss_all A = {s \<in> ?U. map_of (ds_deletedStakers d) (st_TxID s) = None}"
    "inj_on st_TxID ?U" "ss_all A0 \<inter> added_all bt d = {}" "st_TxID ` ?U \<subseteq> seen" "fst ` set (ds_deletedStakers d) \<subseteq> seen"
    using assms(2) by (simp_all add: all_rep_def)
  have h: "holds bt (ds_addedStakers d') (insert s (added_all bt d))"
    unfolding assms(5) by (rule holds_insert [OF assms(1) a(1)]) (use a(5) assms(3) in auto)
  note e = holds_set [OF h]
  have n: "s \<notin> ?U" "fresh_in s ?U" using a(5) assms(3) by auto
  have "ss_all A' = {x \<in> ss_all A0 \<union> insert s (added_all bt d). map_of (ds_deletedStakers d) (st_TxID x) = None}"
    using a(2) assms(4) unmasked [OF a(6) assms(3)] by auto
  moreover have "inj_on st_TxID (ss_all A0 \<union> insert s (added_all bt d))" using a(3) n by auto
  ultimately show "all_rep bt A0 (insert (st_TxID s) seen) d' A'" using h a(4-6) n by (auto simp: all_rep_def e assms(6))
  show "added_all bt d' = insert s (added_all bt d)" by (rule e)
qed

lemma all_rep_mask:
  assumes "all_rep bt A0 seen d A" "s \<in> ss_all A" "ss_all A' = ss_all A - {s}"
    "ds_addedStakers d' = ds_addedStakers d" "ds_deletedStakers d' = AList.update (st_TxID s) s (ds_deletedStakers d)"
  shows "all_rep bt A0 seen d' A'"
proof -
  let ?U = "ss_all A0 \<union> added_all bt d"
  have a: "ss_all A = {s \<in> ?U. map_of (ds_deletedStakers d) (st_TxID s) = None}" "inj_on st_TxID ?U" "st_TxID ` ?U \<subseteq> seen"
    using assms(1) by (simp_all add: all_rep_def)
  have "x = s" if "x \<in> ?U" "st_TxID x = st_TxID s" for x
    using a(2) that assms(2) a(1) by (auto dest: inj_onD)
  then have "ss_all A' = {x \<in> ?U. map_of (ds_deletedStakers d') (st_TxID x) = None}"
    using a(1) assms(3,5) by (auto split: if_splits)
  moreover have "st_TxID s \<in> seen" using a(1,3) assms(2) by auto
  then have "fst ` set (ds_deletedStakers d') \<subseteq> seen" using assms(1) by (auto simp: assms(5) all_rep_def dom_update)
  ultimately show ?thesis using assms(1,4) by (simp add: all_rep_def)
qed

lemma all_rep_drop:
  assumes "btree_ok bt" "all_rep bt A0 seen d A" "s \<in> added_all bt d" "ss_all A' = ss_all A - {s}" "ds_addedStakers d = Some t"
    "ds_addedStakers d' = Some (bt_Delete bt s t)" "ds_deletedStakers d' = ds_deletedStakers d"
  shows "all_rep bt A0 seen d' A'" "added_all bt d' = added_all bt d - {s}"
proof -
  let ?U = "ss_all A0 \<union> added_all bt d"
  have a: "holds bt (Some t) (added_all bt d)" "ss_all A = {s \<in> ?U. map_of (ds_deletedStakers d) (st_TxID s) = None}"
    "inj_on st_TxID ?U" "ss_all A0 \<inter> added_all bt d = {}" "st_TxID ` ?U \<subseteq> seen" "fst ` set (ds_deletedStakers d) \<subseteq> seen"
    using assms(2,5) by (simp_all add: all_rep_def)
  have h: "holds bt (ds_addedStakers d') (added_all bt d - {s})"
    unfolding assms(6) by (rule holds_delete [OF assms(1) a(1)]) (rule inj_on_subset [OF a(3)], use assms(3) in auto)
  note e = holds_set [OF h]
  have "ss_all A' = {x \<in> ss_all A0 \<union> (added_all bt d - {s}). map_of (ds_deletedStakers d) (st_TxID x) = None}"
    using a(2,4) assms(3,4) by auto
  moreover have "inj_on st_TxID (ss_all A0 \<union> (added_all bt d - {s}))" by (rule inj_on_subset [OF a(3)]) auto
  ultimately show "all_rep bt A0 seen d' A'" using h a(4-6) by (auto simp: all_rep_def e assms(7))
  show "added_all bt d' = added_all bt d - {s}" by (rule e)
qed

lemma diff_repI:
  assumes "diff_rep bt A0 seen gone d A" "all_rep bt A0 seen' d' A'" "ss_wf seen' A'" "gone \<subseteq> gone'"
    and d': "ds_validatorDiffs d' = update2 (st_SubnetID s) (st_NodeID s) vd (ds_validatorDiffs d)" "dv_at d' = (dv_at d)(place s := vd)"
    and same: "\<And>k. k \<noteq> place s \<Longrightarrow> ss_vals A' k = ss_vals A k \<and> ss_dels A' k = ss_dels A k"
    and at: "validator_rep vd (ss_vals A0 (place s)) (place s \<in> gone') (ss_vals A' (place s))"
      "delegators_rep bt vd (ss_dels A0 (place s)) (ss_dels A' (place s))"
    and all: "\<And>x. x \<in> added_all bt d \<Longrightarrow> place x \<noteq> place s \<Longrightarrow> x \<in> added_all bt d'"
    and added: "\<And>x. x \<in> set (tree_list bt (dv_addedDelegators vd)) \<Longrightarrow>
        place x = place s \<and> x \<in> added_all bt d' \<and> ss_vals A' (place s) \<noteq> Some x"
      "\<And>x. dv_validatorStatus vd = added \<Longrightarrow> ss_vals A' (place s) = Some x \<Longrightarrow> x \<in> added_all bt d'"
  shows "diff_rep bt A0 seen' gone' d' A'"
proof -
  note r = diff_repD [OF assms(1)]
  have v: "validator_rep (dv_at d' k) (ss_vals A0 k) (k \<in> gone') (ss_vals A' k)" for k
    using r(1) [of k] at(1) assms(4) same [of k] d'(2) by (cases "k = place s") (auto simp: validator_rep_def split: diffValidatorStatus.splits)
  have w: "delegators_rep bt (dv_at d' k) (ss_dels A0 k) (ss_dels A' k)" for k
    using r(2) [of k] at(2) same [of k] d'(2) by (cases "k = place s") auto
  have x: "place x = k \<and> x \<in> added_all bt d' \<and> ss_vals A' k \<noteq> Some x" if "x \<in> added_at bt d' k" for x k
    using r(3) [of x k] added(1) [of x] same [of k] d'(2) that all [of x] by (cases "k = place s") auto
  have y: "x \<in> added_all bt d'" if "dv_validatorStatus (dv_at d' k) = added" "ss_vals A' k = Some x" for k x
    using r(4) [of k x] added(2) [of x] same [of k] d'(2) that all [of x] ss_wfD(1) [OF assms(3), of k x] by (cases "k = place s") auto
  have z: "wf_gomap2 (ds_validatorDiffs d')" unfolding d'(1) by (rule wf_gomap2_update2) (rule r(6))
  show ?thesis unfolding diff_rep_def using v w x y z assms(2,3) r(8) by (intro conjI allI impI ballI) simp_all
qed

lemma ds_PutValidator_sel:
  fixes s :: "'pk Staker" and d :: "('pk, 't) diffStakers"
  defines "vd \<equiv> (dv_at d (place s))\<lparr>dv_validatorStatus := added, dv_validator := Some s\<rparr>"
  shows "ds_validatorDiffs (ds_PutValidator bt s d) = update2 (st_SubnetID s) (st_NodeID s) vd (ds_validatorDiffs d)"
    "dv_at (ds_PutValidator bt s d) = (dv_at d)(place s := vd)"
    "ds_addedStakers (ds_PutValidator bt s d) = Some (bt_ReplaceOrInsert bt s (new_if_nil bt (ds_addedStakers d)))"
    "ds_deletedStakers (ds_PutValidator bt s d) = ds_deletedStakers d"
  by (simp_all add: vd_def ds_PutValidator_def Let_def case_prod_unfold)

lemma ds_PutDelegator_sel:
  fixes s :: "'pk Staker" and d :: "('pk, 't) diffStakers" and bt :: "('pk, 't) btree"
  defines "vd \<equiv> (dv_at d (place s))\<lparr>dv_addedDelegators :=
    Some (bt_ReplaceOrInsert bt s (new_if_nil bt (dv_addedDelegators (dv_at d (place s)))))\<rparr>"
  shows "ds_validatorDiffs (ds_PutDelegator bt s d) = update2 (st_SubnetID s) (st_NodeID s) vd (ds_validatorDiffs d)"
    "dv_at (ds_PutDelegator bt s d) = (dv_at d)(place s := vd)"
    "ds_addedStakers (ds_PutDelegator bt s d) = Some (bt_ReplaceOrInsert bt s (new_if_nil bt (ds_addedStakers d)))"
    "ds_deletedStakers (ds_PutDelegator bt s d) = ds_deletedStakers d"
  by (simp_all add: vd_def ds_PutDelegator_def Let_def case_prod_unfold)

lemma ds_DeleteDelegator_sel:
  fixes s :: "'pk Staker" and d :: "('pk, 't) diffStakers"
  defines "vd \<equiv> (dv_at d (place s))\<lparr>dv_deletedDelegators := AList.update (st_TxID s) s (dv_deletedDelegators (dv_at d (place s)))\<rparr>"
  shows "ds_validatorDiffs (ds_DeleteDelegator s d) = update2 (st_SubnetID s) (st_NodeID s) vd (ds_validatorDiffs d)"
    "dv_at (ds_DeleteDelegator s d) = (dv_at d)(place s := vd)"
    "ds_addedStakers (ds_DeleteDelegator s d) = ds_addedStakers d"
    "ds_deletedStakers (ds_DeleteDelegator s d) = AList.update (st_TxID s) s (ds_deletedStakers d)"
  by (simp_all add: vd_def ds_DeleteDelegator_def Let_def case_prod_unfold)

lemma diff_PutValidator:
  assumes "btree_ok bt" "diff_rep bt A0 seen gone d A" "call_ok seen A (PutValidator s)" "place s \<notin> gone"
  shows "diff_rep bt A0 (insert (st_TxID s) seen) gone (ds_PutValidator bt s d) (ss_call (PutValidator s) A)"
proof -
  note r = diff_repD [OF assms(2)] and sel = ds_PutValidator_sel [of bt s d]
  let ?d = "ds_PutValidator bt s d" and ?A = "ss_call (PutValidator s) A"
  have ok: "ss_vals A (place s) = None" "st_TxID s \<notin> seen" using assms(3) by simp_all
  note a = all_rep_put [OF assms(1) r(5) ok(2) ss_all_PutValidator [OF ok(1)] sel(3,4)]
  have old: "ss_vals A0 (place s) = None"
    using r(1) [of "place s"] ok(1) assms(4) by (auto simp: validator_rep_def split: diffValidatorStatus.splits)
  have new: "x \<noteq> s" if "x \<in> added_all bt d" for x using that r(5) ok(2) by (auto simp: all_rep_def)
  have wf: "ss_wf (insert (st_TxID s) seen) ?A" using ss_wf_call [OF r(7) assms(3)] by simp
  show ?thesis
    by (rule diff_repI [OF assms(2) a(1) wf subset_refl sel(1,2)]) (use r(2) [of "place s"] r(3) [of _ "place s"] new in \<open>auto simp: a(2) old validator_rep_def\<close>)
qed

lemma diff_PutDelegator:
  assumes "btree_ok bt" "diff_rep bt A0 seen gone d A" "call_ok seen A (PutDelegator s)"
  shows "diff_rep bt A0 (insert (st_TxID s) seen) gone (ds_PutDelegator bt s d) (ss_call (PutDelegator s) A)"
proof -
  note r = diff_repD [OF assms(2)] and sel = ds_PutDelegator_sel [of bt s d]
  let ?d = "ds_PutDelegator bt s d" and ?A = "ss_call (PutDelegator s) A" and ?k = "place s"
  have ok: "st_TxID s \<notin> seen" using assms(3) by simp
  note a = all_rep_put [OF assms(1) r(5) ok ss_all_PutDelegator sel(3,4)]
  have wf: "ss_wf (insert (st_TxID s) seen) ?A" using ss_wf_call [OF r(7) assms(3)] by simp
  from r(2) [of ?k] obtain S where S: "holds bt (dv_addedDelegators (dv_at d ?k)) S"
    "ss_dels A ?k = {x \<in> ss_dels A0 ?k \<union> S. map_of (dv_deletedDelegators (dv_at d ?k)) (st_TxID x) = None}"
    "wf_gomap (dv_deletedDelegators (dv_at d ?k))"
    "\<forall>(i, x) \<in> set (dv_deletedDelegators (dv_at d ?k)). st_TxID x = i \<and> x \<in> ss_dels A0 ?k \<union> S"
    unfolding delegators_rep_def by blast
  have sub: "ss_dels A0 ?k \<union> S \<subseteq> ss_all A0 \<union> added_all bt d"
    using r(3) [of _ ?k] holds_set [OF S(1)] ss_all_dels [OF r(8)] by blast
  have ids: "st_TxID x \<in> seen" if "x \<in> ss_dels A0 ?k \<union> S" for x
    using that sub r(5) unfolding all_rep_def by blast
  have "map_of (dv_deletedDelegators (dv_at d ?k)) (st_TxID s) = None"
    by (rule unmasked [OF _ ok]) (use S(4) ids in fastforce)
  then have now: "ss_dels ?A ?k = {x \<in> ss_dels A0 ?k \<union> insert s S. map_of (dv_deletedDelegators (dv_at d ?k)) (st_TxID x) = None}"
    using S(2) by auto
  have "fresh_in s S" using ids ok by auto
  note h = holds_insert [OF assms(1) S(1) this]
  have v: "ss_vals A ?k \<noteq> Some s" using ss_all_vals [OF r(7), of ?k s] ss_wfD(4) [OF r(7), of s] ok by blast
  have "delegators_rep bt ((dv_at d ?k)\<lparr>dv_addedDelegators := Some (bt_ReplaceOrInsert bt s (new_if_nil bt (dv_addedDelegators (dv_at d ?k))))\<rparr>)
    (ss_dels A0 ?k) (ss_dels ?A ?k)"
    unfolding delegators_rep_def by (rule exI [of _ "insert s S"]) (use h now S(3,4) in auto)
  then show ?thesis
    by (intro diff_repI [OF assms(2) a(1) wf subset_refl sel(1,2)])
      (use r(1) [of ?k] r(3) [of _ ?k] r(4) [of ?k] v holds_set [OF h] holds_set [OF S(1)] in \<open>auto simp: a(2)\<close>)
qed

lemma diff_DeleteDelegator:
  assumes "diff_rep bt A0 seen gone d A" "call_ok seen A (DeleteDelegator s)"
  shows "diff_rep bt A0 seen gone (ds_DeleteDelegator s d) (ss_call (DeleteDelegator s) A)"
proof -
  note r = diff_repD [OF assms(1)] and sel = ds_DeleteDelegator_sel [of s d]
  let ?d = "ds_DeleteDelegator s d" and ?A = "ss_call (DeleteDelegator s) A" and ?k = "place s"
  have ok: "s \<in> ss_dels A ?k" using assms(2) by simp
  note a = all_rep_mask [OF r(5) ss_all_dels [OF r(7) ok] ss_all_DeleteDelegator [OF r(7) ok] sel(3,4)]
  have wf: "ss_wf seen ?A" using ss_wf_call [OF r(7) assms(2)] by simp
  let ?m = "dv_deletedDelegators (dv_at d ?k)"
  from r(2) [of ?k] obtain S where S: "holds bt (dv_addedDelegators (dv_at d ?k)) S"
    "ss_dels A ?k = {x \<in> ss_dels A0 ?k \<union> S. map_of ?m (st_TxID x) = None}" "wf_gomap ?m"
    "\<forall>(i, x) \<in> set ?m. st_TxID x = i \<and> x \<in> ss_dels A0 ?k \<union> S"
    unfolding delegators_rep_def by blast
  have "ss_dels A0 ?k \<union> S \<subseteq> ss_all A0 \<union> added_all bt d"
    using r(3) [of _ ?k] holds_set [OF S(1)] ss_all_dels [OF r(8)] by blast
  then have "inj_on st_TxID (ss_dels A0 ?k \<union> S)" using r(5) unfolding all_rep_def by (blast intro: inj_on_subset)
  then have "x = s" if "x \<in> ss_dels A0 ?k \<union> S" "st_TxID x = st_TxID s" for x
    using that ok S(2) by (auto dest: inj_onD)
  then have now: "ss_dels ?A ?k = {x \<in> ss_dels A0 ?k \<union> S. map_of (AList.update (st_TxID s) s ?m) (st_TxID x) = None}"
    using S(2) by (auto split: if_splits)
  have "st_TxID x = i \<and> x \<in> ss_dels A0 ?k \<union> S" if "(i, x) \<in> set (AList.update (st_TxID s) s ?m)" for i x
    using that set_update_subset [of "st_TxID s" s ?m, THEN subsetD, of "(i, x)"] ok S(2,4) by auto
  then have "\<forall>(i, x) \<in> set (AList.update (st_TxID s) s ?m). st_TxID x = i \<and> x \<in> ss_dels A0 ?k \<union> S" by blast
  then have "delegators_rep bt ((dv_at d ?k)\<lparr>dv_deletedDelegators := AList.update (st_TxID s) s ?m\<rparr>) (ss_dels A0 ?k) (ss_dels ?A ?k)"
    unfolding delegators_rep_def by (intro exI [of _ S]) (use S(1,3) now in \<open>auto intro: wf_gomap_update\<close>)
  then show ?thesis
    by (intro diff_repI [OF assms(1) a wf subset_refl sel(1,2)])
      (use r(1) [of ?k] r(3) [of _ ?k] r(4) [of ?k] in \<open>auto simp: sel(3)\<close>)
qed

lemma diff_DeleteValidator:
  assumes "btree_ok bt" "diff_rep bt A0 seen gone d A" "call_ok seen A (DeleteValidator s)"
  shows "\<exists>d'. ds_DeleteValidator bt s d = Some d' \<and> diff_rep bt A0 seen (insert (place s) gone) d' (ss_call (DeleteValidator s) A)"
proof -
  note r = diff_repD [OF assms(2)]
  let ?A = "ss_call (DeleteValidator s) A" and ?k = "place s" and ?vd = "dv_at d (place s)"
  have ok: "ss_vals A ?k = Some s" using assms(3) by simp
  have wf: "ss_wf seen ?A" using ss_wf_call [OF r(7) assms(3)] by simp
  note all = ss_all_DeleteValidator [OF r(7) ok]
  show ?thesis
  proof (cases "dv_validatorStatus ?vd = added")
    case True
    then have s: "s \<in> added_all bt d" "dv_validator ?vd = Some s" "ss_vals A0 ?k = None"
      using r(4) [of ?k s] r(1) [of ?k] ok by (auto simp: validator_rep_def)
    then obtain t where t: "ds_addedStakers d = Some t" by (cases "ds_addedStakers d") auto
    define vd where "vd = ?vd\<lparr>dv_validatorStatus := unmodified, dv_validator := None\<rparr>"
    define d' where "d' = d\<lparr>ds_validatorDiffs := update2 (st_SubnetID s) (st_NodeID s) vd (ds_validatorDiffs d),
      ds_addedStakers := Some (bt_Delete bt s t)\<rparr>"
    have sel: "ds_validatorDiffs d' = update2 (st_SubnetID s) (st_NodeID s) vd (ds_validatorDiffs d)" "dv_at d' = (dv_at d)(?k := vd)"
      "ds_addedStakers d' = Some (bt_Delete bt s t)" "ds_deletedStakers d' = ds_deletedStakers d" by (simp_all add: d'_def)
    note a = all_rep_drop [OF assms(1) r(5) s(1) all t sel(3,4)]
    have "ds_DeleteValidator bt s d = Some d'" using True s t by (simp add: ds_DeleteValidator_def Let_def case_prod_unfold d'_def vd_def)
    moreover have "diff_rep bt A0 seen (insert ?k gone) d' ?A"
      by (rule diff_repI [OF assms(2) a(1) wf _ sel(1,2)])
        (use r(2) [of ?k] r(3) [of _ ?k] s ok in \<open>auto simp: a(2) vd_def validator_rep_def\<close>)
    ultimately show ?thesis by blast
  next
    case False
    define vd where "vd = ?vd\<lparr>dv_validatorStatus := deleted, dv_validator := Some s\<rparr>"
    define d' where "d' = d\<lparr>ds_validatorDiffs := update2 (st_SubnetID s) (st_NodeID s) vd (ds_validatorDiffs d),
      ds_deletedStakers := AList.update (st_TxID s) s (ds_deletedStakers d)\<rparr>"
    have sel: "ds_validatorDiffs d' = update2 (st_SubnetID s) (st_NodeID s) vd (ds_validatorDiffs d)" "dv_at d' = (dv_at d)(?k := vd)"
      "ds_addedStakers d' = ds_addedStakers d" "ds_deletedStakers d' = AList.update (st_TxID s) s (ds_deletedStakers d)" by (simp_all add: d'_def)
    note a = all_rep_mask [OF r(5) ss_all_vals [OF r(7) ok] all sel(3,4)]
    have old: "ss_vals A0 ?k = Some s"
      using r(1) [of ?k] ok False by (auto simp: validator_rep_def split: diffValidatorStatus.splits)
    have "ds_DeleteValidator bt s d = Some d'" using False by (simp add: ds_DeleteValidator_def Let_def case_prod_unfold d'_def vd_def)
    moreover have "diff_rep bt A0 seen (insert ?k gone) d' ?A"
      by (rule diff_repI [OF assms(2) a wf _ sel(1,2)])
        (use r(2) [of ?k] r(3) [of _ ?k] ok old in \<open>auto simp: sel(3) vd_def validator_rep_def\<close>)
    ultimately show ?thesis by blast
  qed
qed

fun leave :: "'pk staker_call \<Rightarrow> staker_at set \<Rightarrow> staker_at set" where
  "leave (DeleteValidator s) gone = insert (place s) gone"
| "leave _ gone = gone"

lemma diff_call:
  assumes "btree_ok bt" "diff_rep bt A0 seen gone d A" "call_ok seen A c" "never_readded gone (c # cs)"
  shows "never_readded (leave c gone) cs \<and> (\<exists>d'. ds_call bt c d = Some d' \<and> diff_rep bt A0 (see c seen) (leave c gone) d' (ss_call c A))"
  using assms diff_PutValidator [OF assms(1,2)] diff_PutDelegator [OF assms(1,2)] diff_DeleteDelegator [OF assms(2)]
    diff_DeleteValidator [OF assms(1,2)] by (cases c) auto

lemma diff_run:
  "btree_ok bt \<Longrightarrow> diff_rep bt A0 seen gone d A \<Longrightarrow> calls_ok seen A cs \<Longrightarrow> never_readded gone cs \<Longrightarrow>
   \<exists>d' seen' gone'. ds_run bt cs d = Some d' \<and> diff_rep bt A0 seen' gone' d' (ss_run cs A)"
proof (induction cs arbitrary: seen gone d A)
  case (Cons c cs)
  with diff_call [of bt A0 seen gone d A c cs] obtain d' where d': "ds_call bt c d = Some d'" "never_readded (leave c gone) cs"
    "diff_rep bt A0 (see c seen) (leave c gone) d' (ss_call c A)" by auto
  show ?case using Cons.IH [OF Cons.prems(1) d'(3)] Cons.prems(3) d'(1,2) by simp
qed auto

lemma diff_rep_new: "sound A0 \<Longrightarrow> ss_wf seen A0 \<Longrightarrow> diff_rep bt A0 seen gone new_diffStakers A0"
  by (auto simp: diff_rep_def all_rep_def new_diffStakers_def dv_at_def new_diffValidator_def validator_rep_def delegators_rep_def
    ss_wf_def)

text \<open>A difference may be read over any parent: as \<^verbatim>\<open>GetCurrentValidator\<close> and the iterators of \<^verbatim>\<open>diff.go\<close> do.\<close>

definition read_validator :: "(ID \<Rightarrow> NodeID \<Rightarrow> 'pk Staker option) \<Rightarrow> ('pk, 't) diffStakers \<Rightarrow> ID \<Rightarrow> NodeID \<Rightarrow> 'pk Staker option" where
  "read_validator parent d subnetID nodeID =
     (case ds_GetValidator subnetID nodeID d of
        (newValidator, added) \<Rightarrow> newValidator
      | (_, deleted) \<Rightarrow> None
      | (_, unmodified) \<Rightarrow> parent subnetID nodeID)"

lemma diff_reads:
  assumes "diff_rep bt A0 seen gone d A" "reads_as getV getD getS A0"
  shows "reads_as (read_validator getV d) (\<lambda>a b. Option.bind (getD a b) (\<lambda>it. ds_GetDelegatorIterator bt it a b d))
    (Option.bind getS (\<lambda>it. ds_GetStakerIterator bt it d)) A"
proof -
  note r = diff_repD [OF assms(1)]
  note al = all_repD [OF r(5)]
  have "read_validator getV d a b = ss_vals A (a, b)" for a b
    using r(1) [of "(a, b)"] assms(2)
    by (auto simp: read_validator_def ds_GetValidator_def dv_at_def lookup2_def validator_rep_def new_diffValidator_def reads_as_def
      split: option.splits diffValidatorStatus.splits)
  moreover have "\<exists>it. Option.bind (getD a b) (\<lambda>it. ds_GetDelegatorIterator bt it a b d) = Some it \<and> lists it (ss_dels A (a, b))" for a b
  proof -
    let ?vd = "dv_at d (a, b)"
    obtain it where it: "getD a b = Some it" "lists it (ss_dels A0 (a, b))" using assms(2) unfolding reads_as_def by blast
    obtain S where S: "holds bt (dv_addedDelegators ?vd) S"
      "ss_dels A (a, b) = {s \<in> ss_dels A0 (a, b) \<union> S. map_of (dv_deletedDelegators ?vd) (st_TxID s) = None}"
      using r(2) [of "(a, b)"] unfolding delegators_rep_def by blast
    have sub: "ss_dels A0 (a, b) \<subseteq> ss_all A0" "S \<subseteq> added_all bt d"
      using r(3) [of _ "(a, b)"] holds_set [OF S(1)] ss_all_dels [OF r(8)] by blast+
    have "ss_dels A0 (a, b) \<inter> S = {}" using sub al(3) by blast
    moreover have "inj_on st_TxID (ss_dels A0 (a, b) \<union> S)" by (rule inj_on_subset [OF al(2)]) (use sub in blast)
    ultimately obtain m where
      m: "NewMergedIterator [it, NewTreeIterator bt (dv_addedDelegators ?vd)] = Some m" "lists m (ss_dels A0 (a, b) \<union> S)"
      using lists_merged [OF it(2) lists_tree [OF S(1)]] by blast
    have "ds_GetDelegatorIterator bt it a b d = Some (NewMaskedIterator m (map_of (dv_deletedDelegators ?vd)))"
      using m(1) by (auto simp: ds_GetDelegatorIterator_def dv_at_def lookup2_def new_diffValidator_def NewTreeIterator_def split: option.splits)
    with it(1) lists_masked [OF m(2)] S(2) show ?thesis by auto
  qed
  moreover have "\<exists>it. Option.bind getS (\<lambda>it. ds_GetStakerIterator bt it d) = Some it \<and> lists it (ss_all A)"
  proof -
    obtain it where it: "getS = Some it" "lists it (ss_all A0)" using assms(2) unfolding reads_as_def by blast
    from lists_merged [OF it(2) lists_tree [OF al(1)] al(2,3)] obtain m where
      m: "NewMergedIterator [it, NewTreeIterator bt (ds_addedStakers d)] = Some m" "lists m (ss_all A0 \<union> added_all bt d)" by blast
    with it(1) lists_masked [OF m(2), of "map_of (ds_deletedStakers d)"] al(4) show ?thesis by (simp add: ds_GetStakerIterator_def)
  qed
  ultimately show ?thesis unfolding reads_as_def by blast
qed

subsection \<open>Applying a difference\<close>

definition calls_of :: "('pk, 't) btree \<Rightarrow> ('pk, 't) visiting \<Rightarrow> ('pk, 't) diffValidator \<Rightarrow> 'pk staker_call list" where
  "calls_of bt vis vd =
     (case (dv_validatorStatus vd, dv_validator vd) of
        (added, Some s) \<Rightarrow> [PutValidator s]
      | (deleted, Some s) \<Rightarrow> [DeleteValidator s]
      | _ \<Rightarrow> [])
     @ map PutDelegator (tree_list bt (dv_addedDelegators vd))
     @ map (\<lambda>(_, s). DeleteDelegator s) (vis_deleted vis (dv_deletedDelegators vd))"

lemma put_delegators_run: "bs_run bt (map PutDelegator ss) v = Some (put_delegators bt ss v)"
  by (induction ss arbitrary: v) auto

lemma delete_delegators_run: "bs_run bt (map (\<lambda>(_, s). DeleteDelegator s) m) v = delete_delegators bt m v"
  by (induction m arbitrary: v) (auto split: Option.bind_splits)

lemma apply_validatorDiff_run:
  "(dv_validatorStatus vd \<noteq> unmodified \<longrightarrow> dv_validator vd \<noteq> None) \<Longrightarrow> apply_validatorDiff bt vis vd v = bs_run bt (calls_of bt vis vd) v"
  by (cases "dv_validatorStatus vd")
    (auto simp: apply_validatorDiff_def calls_of_def bs_run_append put_delegators_run delete_delegators_run split: Option.bind_splits)

text \<open>The validators that are visited, with their places.\<close>

fun visited :: "('pk, 't) visiting \<Rightarrow> (ID, NodeID, ('pk, 't) diffValidator) gomap2 \<Rightarrow> (staker_at \<times> ('pk, 't) diffValidator) list" where
  "visited vis [] = []"
| "visited vis ((a, nodes) # m) = map (\<lambda>(b, vd). ((a, b), vd)) (vis_nodes vis nodes) @ visited vis m"

lemma apply_nodes_run:
  "(\<forall>(b, vd) \<in> set m. dv_validatorStatus vd \<noteq> unmodified \<longrightarrow> dv_validator vd \<noteq> None) \<Longrightarrow>
   apply_nodes bt vis m v = bs_run bt (concat (map (\<lambda>(b, vd). calls_of bt vis vd) m)) v"
  by (induction m arbitrary: v) (auto simp: apply_validatorDiff_run bs_run_append split: Option.bind_splits)

lemma apply_subnets_run:
  "(\<forall>(k, vd) \<in> set (visited vis m). dv_validatorStatus vd \<noteq> unmodified \<longrightarrow> dv_validator vd \<noteq> None) \<Longrightarrow>
   apply_subnets bt vis m v = bs_run bt (concat (map (\<lambda>(k, vd). calls_of bt vis vd) (visited vis m))) v"
proof (induction m arbitrary: v)
  case (Cons e m)
  obtain a nodes where e: "e = (a, nodes)" by fastforce
  have c: "concat (map (\<lambda>(k, vd). calls_of bt vis vd) (map (\<lambda>(b, vd). ((a, b), vd)) l)) = concat (map (\<lambda>(b, vd). calls_of bt vis vd) l)" for l
    by (induction l) auto
  have "\<forall>(b, vd) \<in> set (vis_nodes vis nodes). dv_validatorStatus vd \<noteq> unmodified \<longrightarrow> dv_validator vd \<noteq> None"
    using Cons.prems by (force simp: e)
  from apply_nodes_run [OF this] Cons show ?case
    by (auto simp: e bs_run_append c simp del: map_map split: Option.bind_splits)
qed simp

lemma visited_set: "visiting_ok vis \<Longrightarrow> ((a, b), vd) \<in> set (visited vis m) \<longleftrightarrow> (\<exists>nodes. (a, nodes) \<in> set m \<and> (b, vd) \<in> set nodes)"
proof (induction m)
  case (Cons e m)
  have "set (vis_nodes vis n) = set n" for n using Cons.prems by (metis mset_eq_setD visiting_ok_def)
  with Cons show ?case by (cases e) auto
qed simp

lemma visited_distinct:
  assumes "visiting_ok vis"
  shows "wf_gomap2 m \<Longrightarrow> distinct (map fst (visited vis m))"
proof (induction m)
  case (Cons e m)
  obtain a nodes where e: "e = (a, nodes)" by fastforce
  have "mset (map fst (vis_nodes vis nodes)) = mset (map fst nodes)" using assms by (simp add: visiting_ok_def)
  from mset_eq_imp_distinct_iff [OF this] have "distinct (map fst (vis_nodes vis nodes))" using Cons.prems by (simp add: e)
  moreover have f: "map fst (map (\<lambda>(b, vd). ((a, b), vd)) l) = map (Pair a) (map fst l)" for l :: "(NodeID \<times> ('a, 'b) diffValidator) list"
    by (induction l) auto
  ultimately have "distinct (map fst (map (\<lambda>(b, vd). ((a, b), vd)) (vis_nodes vis nodes)))"
    unfolding f by (simp only: distinct_map) (simp add: inj_on_def)
  moreover have "((a, b), vd) \<notin> set (visited vis m)" for b vd
    using Cons.prems visited_set [OF assms, of a b vd m] by (force simp: e)
  ultimately show ?case using Cons by (auto simp: e case_prod_unfold)
qed simp

lemma visited_lookup:
  assumes "visiting_ok vis" "wf_gomap2 m"
  shows "(k, vd) \<in> set (visited vis (vis_subnets vis m)) \<longleftrightarrow> lookup2 m (fst k) (snd k) = Some vd"
    "distinct (map fst (visited vis (vis_subnets vis m)))"
proof -
  let ?m = "vis_subnets vis m"
  have p: "mset ?m = mset m" using assms(1) by (simp add: visiting_ok_def)
  have s: "set ?m = set m" by (rule mset_eq_setD [OF p])
  have "mset (map fst ?m) = mset (map fst m)" using p by simp
  then have "wf_gomap2 ?m" using assms(2) s mset_eq_imp_distinct_iff by metis
  then show "distinct (map fst (visited vis ?m))" by (rule visited_distinct [OF assms(1)])
  have "(fst k, nodes) \<in> set m \<longleftrightarrow> map_of m (fst k) = Some nodes" for nodes using assms(2) by simp
  moreover have "(snd k, vd) \<in> set nodes \<longleftrightarrow> map_of nodes (snd k) = Some vd" if "(fst k, nodes) \<in> set m" for nodes
    using that assms(2) by (auto simp: case_prod_unfold)
  ultimately show "(k, vd) \<in> set (visited vis ?m) \<longleftrightarrow> lookup2 m (fst k) (snd k) = Some vd"
    using visited_set [OF assms(1), of "fst k" "snd k" vd ?m] by (auto simp: s lookup2_def split: option.splits)
qed

lemma sound_run: "sound A \<Longrightarrow> steps_ok A cs \<Longrightarrow> sound (ss_run cs A)"
  by (induction cs arbitrary: A) (auto intro: sound_call)

lemma put_list:
  "distinct ss \<Longrightarrow> \<forall>s \<in> set ss. place s = k \<Longrightarrow> inj_on st_TxID (ss_all B \<union> set ss) \<Longrightarrow> ss_all B \<inter> set ss = {} \<Longrightarrow>
   steps_ok B (map PutDelegator ss) \<and> ss_run (map PutDelegator ss) B = B\<lparr>ss_dels := (ss_dels B)(k := ss_dels B k \<union> set ss)\<rparr>"
proof (induction ss arbitrary: B)
  case (Cons s ss)
  let ?B = "ss_call (PutDelegator s) B"
  have all: "ss_all ?B = insert s (ss_all B)" by (rule ss_all_PutDelegator)
  have "st_TxID s \<notin> ids_of B" using Cons.prems(3,4) by (auto simp: inj_on_def)
  moreover have "inj_on st_TxID (ss_all ?B \<union> set ss)" "ss_all ?B \<inter> set ss = {}" using Cons.prems unfolding all by auto
  ultimately show ?case using Cons.IH [of ?B] Cons.prems by (simp cong: if_cong)
qed simp

lemma delete_list:
  "distinct ss \<Longrightarrow> \<forall>s \<in> set ss. place s = k \<and> s \<in> ss_dels B k \<Longrightarrow>
   steps_ok B (map DeleteDelegator ss) \<and> ss_run (map DeleteDelegator ss) B = B\<lparr>ss_dels := (ss_dels B)(k := ss_dels B k - set ss)\<rparr>"
proof (induction ss arbitrary: B)
  case (Cons s ss)
  let ?B = "ss_call (DeleteDelegator s) B"
  have "\<forall>x \<in> set ss. place x = k \<and> x \<in> ss_dels ?B k" using Cons.prems by auto
  moreover have "ss_dels B k - {s} - set ss = ss_dels B k - insert s (set ss)" by blast
  ultimately show ?case using Cons.IH [of ?B] Cons.prems by (simp cong: if_cong)
qed simp

text \<open>Applying the entry of one place brings that place from the parent to the present set, wherever the other places are.\<close>

lemma apply_validator:
  assumes "diff_rep bt A0 seen gone d A" "sound B" "ss_vals B k = ss_vals A0 k" "ss_dels B k = ss_dels A0 k"
    "ss_all B \<subseteq> ss_all A0 \<union> added_all bt d"
  defines "cs \<equiv> (case (dv_validatorStatus (dv_at d k), dv_validator (dv_at d k)) of
      (added, Some s) \<Rightarrow> [PutValidator s] | (deleted, Some s) \<Rightarrow> [DeleteValidator s] | _ \<Rightarrow> [])"
  shows "steps_ok B cs \<and> ss_run cs B = B\<lparr>ss_vals := (ss_vals B)(k := ss_vals A k)\<rparr>"
proof (cases "dv_validatorStatus (dv_at d k)")
  case unmodified
  then have "ss_vals A k = ss_vals B k" using diff_repD(1) [OF assms(1), of k] assms(3) by (simp add: validator_rep_def)
  with unmodified show ?thesis by (simp add: cs_def fun_upd_idem)
next
  case added
  note r = diff_repD [OF assms(1)] and al = all_repD [OF diff_repD(5) [OF assms(1)]]
  obtain s where s: "ss_vals A0 k = None" "dv_validator (dv_at d k) = Some s" "ss_vals A k = Some s"
    using r(1) [of k] added by (auto simp: validator_rep_def)
  have k: "place s = k" using ss_wfD(1) [OF r(7) s(3)] by blast
  have a: "s \<in> added_all bt d" by (rule r(4) [OF added s(3)])
  have "s \<notin> ss_all B" using a al(3) s(1) assms(3,4) k ss_all_dels [OF r(8), of s k] by (auto simp: ss_all_def)
  then have "st_TxID s \<notin> ids_of B" using inj_onD [OF al(2)] a assms(5) by blast
  with s k assms(3) added show ?thesis by (simp add: cs_def)
next
  case deleted
  obtain s where s: "ss_vals A0 k = Some s" "dv_validator (dv_at d k) = Some s" "ss_vals A k = None"
    using diff_repD(1) [OF assms(1), of k] deleted by (auto simp: validator_rep_def)
  have "place s = k" using ss_wfD(1) [OF diff_repD(8) [OF assms(1)] s(1)] by blast
  with s assms(3) deleted show ?thesis by (simp add: cs_def)
qed

lemma masked_left:
  assumes "inj_on st_TxID T" "wf_gomap m" "\<forall>(i, s) \<in> set m. st_TxID s = i \<and> s \<in> T" "visiting_ok vis"
  shows "set (map snd (vis_deleted vis m)) \<subseteq> T" "distinct (map snd (vis_deleted vis m))"
    "T - set (map snd (vis_deleted vis m)) = {s \<in> T. map_of m (st_TxID s) = None}"
proof -
  let ?m = "vis_deleted vis m"
  have p: "mset ?m = mset m" using assms(4) by (simp add: visiting_ok_def)
  have sm: "set ?m = set m" by (rule mset_eq_setD [OF p])
  have "mset (map fst ?m) = mset (map fst m)" using p by simp
  from mset_eq_imp_distinct_iff [OF this] have "distinct (map fst ?m)" using assms(2) by simp
  moreover have "map fst ?m = map st_TxID (map snd ?m)" using assms(3) sm by (auto simp: case_prod_unfold)
  ultimately show "distinct (map snd ?m)" by (metis distinct_map)
  show "set (map snd ?m) \<subseteq> T" using assms(3) sm by auto
  have "s \<in> snd ` set m \<longleftrightarrow> map_of m (st_TxID s) \<noteq> None" if "s \<in> T" for s
  proof
    assume "s \<in> snd ` set m"
    then have "(st_TxID s, s) \<in> set m" using assms(3) by force
    with assms(2) show "map_of m (st_TxID s) \<noteq> None" by simp
  next
    assume "map_of m (st_TxID s) \<noteq> None"
    then obtain x where x: "(st_TxID s, x) \<in> set m" by (auto dest: map_of_SomeD)
    with assms(3) have "st_TxID x = st_TxID s" "x \<in> T" by auto
    with assms(1) that have "x = s" by (auto dest: inj_onD)
    with x show "s \<in> snd ` set m" by force
  qed
  then show "T - set (map snd ?m) = {s \<in> T. map_of m (st_TxID s) = None}" unfolding set_map sm by blast
qed

lemma apply_place:
  assumes "diff_rep bt A0 seen gone d A" "sound B" "ss_vals B k = ss_vals A0 k" "ss_dels B k = ss_dels A0 k"
    "ss_all B \<subseteq> ss_all A0 \<union> added_all bt d" "visiting_ok vis"
  shows "steps_ok B (calls_of bt vis (dv_at d k))
    \<and> ss_run (calls_of bt vis (dv_at d k)) B = B\<lparr>ss_vals := (ss_vals B)(k := ss_vals A k), ss_dels := (ss_dels B)(k := ss_dels A k)\<rparr>"
proof -
  note r = diff_repD [OF assms(1)] and al = all_repD [OF diff_repD(5) [OF assms(1)]]
  let ?vd = "dv_at d k" and ?U = "ss_all A0 \<union> added_all bt d"
  define c1 where "c1 = (case (dv_validatorStatus ?vd, dv_validator ?vd) of
      (added, Some s) \<Rightarrow> [PutValidator s] | (deleted, Some s) \<Rightarrow> [DeleteValidator s] | _ \<Rightarrow> [])"
  define B1 where "B1 = B\<lparr>ss_vals := (ss_vals B)(k := ss_vals A k)\<rparr>"
  have one: "steps_ok B c1" "ss_run c1 B = B1"
    using apply_validator [OF assms(1-5)] unfolding c1_def B1_def by simp_all
  obtain S where S: "holds bt (dv_addedDelegators ?vd) S" "ss_dels A k = {s \<in> ss_dels A0 k \<union> S. map_of (dv_deletedDelegators ?vd) (st_TxID s) = None}"
    "wf_gomap (dv_deletedDelegators ?vd)" "\<forall>(i, s) \<in> set (dv_deletedDelegators ?vd). st_TxID s = i \<and> s \<in> ss_dels A0 k \<union> S"
    using r(2) [of k] unfolding delegators_rep_def by blast
  let ?ss = "tree_list bt (dv_addedDelegators ?vd)" and ?m = "vis_deleted vis (dv_deletedDelegators ?vd)"
  have ss: "distinct ?ss" "set ?ss = S" using S(1) sorted_not_less by (auto simp: holds_def)
  have S_all: "place s = k \<and> s \<in> added_all bt d \<and> ss_vals A k \<noteq> Some s" if "s \<in> S" for s using r(3) [of s k] ss(2) that by simp
  have B1_U: "ss_all B1 \<subseteq> ?U"
  proof
    fix x assume "x \<in> ss_all B1"
    then have "x \<in> ss_all B \<or> ss_vals A k = Some x" by (auto simp: B1_def ss_all_def split: if_splits)
    with assms(5) ss_all_vals [OF r(7), of k x] al(4) show "x \<in> ?U" by blast
  qed
  have dis: "ss_all B1 \<inter> S = {}"
    using S_all assms(4) ss_all_dels [OF r(8), of _ k] al(3) by (fastforce simp: B1_def ss_all_def)
  have "inj_on st_TxID (ss_all B1 \<union> S)" by (rule inj_on_subset [OF al(2)]) (use B1_U S_all in blast)
  with dis ss S_all have two: "steps_ok B1 (map PutDelegator ?ss)"
    "ss_run (map PutDelegator ?ss) B1 = B1\<lparr>ss_dels := (ss_dels B1)(k := ss_dels A0 k \<union> S)\<rparr>"
    using put_list [of ?ss k B1] assms(4) by (simp_all add: B1_def)
  define B2 where "B2 = B1\<lparr>ss_dels := (ss_dels B1)(k := ss_dels A0 k \<union> S)\<rparr>"
  have inj: "inj_on st_TxID (ss_dels A0 k \<union> S)"
    by (rule inj_on_subset [OF al(2)]) (use S_all ss_all_dels [OF r(8), of _ k] in blast)
  note d = masked_left [OF inj S(3,4) assms(6)]
  have in_k: "place s = k \<and> s \<in> ss_dels B2 k" if "s \<in> set (map snd ?m)" for s
    using that d(1) S_all ss_wfD(2) [OF r(8), of s k] by (auto simp: B2_def)
  have three: "steps_ok B2 (map DeleteDelegator (map snd ?m))"
    "ss_run (map DeleteDelegator (map snd ?m)) B2 = B2\<lparr>ss_dels := (ss_dels B2)(k := ss_dels A k)\<rparr>"
    using delete_list [OF d(2), of k B2] in_k d(3) S(2) by (simp_all add: B2_def)
  have "calls_of bt vis ?vd = c1 @ map PutDelegator ?ss @ map DeleteDelegator (map snd ?m)"
    by (simp add: calls_of_def c1_def case_prod_unfold comp_def)
  with one two [folded B2_def] three show ?thesis
    by (simp add: steps_ok_append ss_run_append) (simp add: B1_def B2_def)
qed

lemma apply_places:
  assumes "diff_rep bt A0 seen gone d A" "visiting_ok vis"
  shows "distinct (map fst es) \<Longrightarrow> \<forall>(k, vd) \<in> set es. vd = dv_at d k \<and> ss_vals B k = ss_vals A0 k \<and> ss_dels B k = ss_dels A0 k \<Longrightarrow>
    sound B \<Longrightarrow> ss_all B \<subseteq> ss_all A0 \<union> added_all bt d \<Longrightarrow>
    steps_ok B (concat (map (\<lambda>(k, vd). calls_of bt vis vd) es)) \<and>
    ss_run (concat (map (\<lambda>(k, vd). calls_of bt vis vd) es)) B =
      B\<lparr>ss_vals := (\<lambda>k. if k \<in> fst ` set es then ss_vals A k else ss_vals B k),
        ss_dels := (\<lambda>k. if k \<in> fst ` set es then ss_dels A k else ss_dels B k)\<rparr>"
proof (induction es arbitrary: B)
  case (Cons e es)
  obtain k where e: "e = (k, dv_at d k)" using Cons.prems(2) by (cases e) auto
  define B' where "B' = B\<lparr>ss_vals := (ss_vals B)(k := ss_vals A k), ss_dels := (ss_dels B)(k := ss_dels A k)\<rparr>"
  have one: "steps_ok B (calls_of bt vis (dv_at d k))" "ss_run (calls_of bt vis (dv_at d k)) B = B'"
    using apply_place [OF assms(1) Cons.prems(3), of k vis] Cons.prems(2,4) assms(2) by (auto simp: B'_def e)
  have "x \<in> ss_all B \<or> x \<in> ss_all A" if "x \<in> ss_all B'" for x
    using that by (auto simp: B'_def ss_all_def split: if_splits)
  then have "ss_all B' \<subseteq> ss_all A0 \<union> added_all bt d"
    using Cons.prems(4) all_repD(4) [OF diff_repD(5) [OF assms(1)]] by blast
  moreover have "\<forall>(k, vd) \<in> set es. vd = dv_at d k \<and> ss_vals B' k = ss_vals A0 k \<and> ss_dels B' k = ss_dels A0 k"
    using Cons.prems(1,2) by (force simp: B'_def e)
  moreover have "sound B'" using sound_run [OF Cons.prems(3) one(1)] one(2) by simp
  ultimately have "steps_ok B' (concat (map (\<lambda>(k, vd). calls_of bt vis vd) es)) \<and>
    ss_run (concat (map (\<lambda>(k, vd). calls_of bt vis vd) es)) B' =
      B'\<lparr>ss_vals := (\<lambda>k. if k \<in> fst ` set es then ss_vals A k else ss_vals B' k),
        ss_dels := (\<lambda>k. if k \<in> fst ` set es then ss_dels A k else ss_dels B' k)\<rparr>"
    using Cons.IH [of B'] Cons.prems(1) by simp
  moreover have "B'\<lparr>ss_vals := (\<lambda>k. if k \<in> fst ` set es then ss_vals A k else ss_vals B' k),
        ss_dels := (\<lambda>k. if k \<in> fst ` set es then ss_dels A k else ss_dels B' k)\<rparr>
      = B\<lparr>ss_vals := (\<lambda>k'. if k' \<in> fst ` set (e # es) then ss_vals A k' else ss_vals B k'),
        ss_dels := (\<lambda>k'. if k' \<in> fst ` set (e # es) then ss_dels A k' else ss_dels B k')\<rparr>"
    by (simp add: B'_def e fun_eq_iff)
  ultimately show ?case using one by (simp add: e steps_ok_append ss_run_append)
qed simp

text \<open>The calls that \<^verbatim>\<open>Apply\<close> makes for a difference lead from the set of the parent to the set of the difference.\<close>

definition staker_writes :: "('pk, 't) btree \<Rightarrow> ('pk, 't) visiting \<Rightarrow> ('pk, 't) diffStakers \<Rightarrow> 'pk staker_call list" where
  "staker_writes bt vis ds = concat (map (\<lambda>(_, vd). calls_of bt vis vd) (visited vis (vis_subnets vis (ds_validatorDiffs ds))))"

lemma staker_writes_run:
  assumes "visiting_ok vis" "diff_rep bt A0 seen gone d A"
  shows "steps_ok A0 (staker_writes bt vis d) \<and> ss_run (staker_writes bt vis d) A0 = A"
proof -
  note r = diff_repD [OF assms(2)]
  define es where "es = visited vis (vis_subnets vis (ds_validatorDiffs d))"
  have es: "(k, vd) \<in> set es \<longleftrightarrow> lookup2 (ds_validatorDiffs d) (fst k) (snd k) = Some vd" for k vd
    unfolding es_def by (rule visited_lookup(1) [OF assms(1) r(6)])
  have dis: "distinct (map fst es)" unfolding es_def by (rule visited_lookup(2) [OF assms(1) r(6)])
  have "\<forall>(k, vd) \<in> set es. vd = dv_at d k \<and> ss_vals A0 k = ss_vals A0 k \<and> ss_dels A0 k = ss_dels A0 k" using es by (auto simp: dv_at_def)
  from apply_places [OF assms(2,1) dis this r(8)] have p: "steps_ok A0 (staker_writes bt vis d)"
    "ss_run (staker_writes bt vis d) A0 =
      A0\<lparr>ss_vals := (\<lambda>k. if k \<in> fst ` set es then ss_vals A k else ss_vals A0 k),
        ss_dels := (\<lambda>k. if k \<in> fst ` set es then ss_dels A k else ss_dels A0 k)\<rparr>" by (simp_all add: staker_writes_def es_def)
  have "ss_vals A k = ss_vals A0 k \<and> ss_dels A k = ss_dels A0 k" if "k \<notin> fst ` set es" for k
  proof -
    have "lookup2 (ds_validatorDiffs d) (fst k) (snd k) = None" using that es [of k] by (metis fst_conv image_eqI not_Some_eq)
    then have "dv_at d k = new_diffValidator" by (simp add: dv_at_def)
    with r(1,2) [of k] show ?thesis by (auto simp: validator_rep_def delegators_rep_def new_diffValidator_def)
  qed
  then have "ss_run (staker_writes bt vis d) A0 = A"
    unfolding p(2) by (intro staker_set.equality) (auto simp: fun_eq_iff)
  with p(1) show ?thesis by blast
qed

lemma apply_stakers_run:
  assumes "visiting_ok vis" "diff_rep bt A0 seen gone d A"
  shows "apply_stakers bt vis d v = bs_run bt (staker_writes bt vis d) v"
proof -
  note r = diff_repD [OF assms(2)]
  have "dv_validatorStatus vd \<noteq> unmodified \<longrightarrow> dv_validator vd \<noteq> None" if "(k, vd) \<in> set (visited vis (vis_subnets vis (ds_validatorDiffs d)))" for k vd
    using r(1) [of k] visited_lookup(1) [OF assms(1) r(6), of k vd] that by (auto simp: validator_rep_def dv_at_def split: diffValidatorStatus.splits)
  then show ?thesis unfolding apply_stakers_def staker_writes_def by (intro apply_subnets_run) blast
qed

lemma apply_reads:
  assumes "btree_ok bt" "visiting_ok vis" "diff_rep bt A0 seen gone d A" "base_rep bt v A0"
  shows "\<exists>v'. apply_stakers bt vis d v = Some v' \<and> base_rep bt v' A"
  using base_run [OF assms(1,4) diff_repD(8) [OF assms(3)], of "staker_writes bt vis d"] staker_writes_run [OF assms(2,3)]
    apply_stakers_run [OF assms(2,3)] by auto

subsection \<open>The contract of stakers\<close>

fun see_all :: "'pk staker_call list \<Rightarrow> ID set \<Rightarrow> ID set" where
  "see_all [] seen = seen"
| "see_all (c # cs) seen = see_all cs (see c seen)"

lemma calls_ok_append: "calls_ok seen A (cs @ cs') \<longleftrightarrow> calls_ok seen A cs \<and> calls_ok (see_all cs seen) (ss_run cs A) cs'"
  by (induction cs arbitrary: seen A) auto

lemma ss_wf_run: "ss_wf seen A \<Longrightarrow> calls_ok seen A cs \<Longrightarrow> ss_wf (see_all cs seen) (ss_run cs A)"
  by (induction cs arbitrary: seen A) (auto intro: ss_wf_call)

text \<open>(C12) The stakers of a chain state are what the calls made of them. The callers add stakers under new transactions, a validator only where there is none, delete
  what is there, and within a difference never remove and then add a validator. Then the base stakers after any history are read as the set
  that this history leaves; a difference with further calls, read over any parent that is read as that set, is read as the
  set after these calls; and applying the difference to the base, in whatever order the maps are visited, gives a base that is read as
  this set. Iterators end and give the stakers in order, each once; no call panics.\<close>

theorem stakers_refine:
  assumes "btree_ok bt" "visiting_ok vis" "calls_ok {} no_stakers (history @ cs)" "never_readded {} cs"
    and "A0 = ss_run history no_stakers" "A = ss_run (history @ cs) no_stakers"
  shows "\<exists>v d v'. bs_run bt history (newBaseStakers bt) = Some v \<and> ds_run bt cs new_diffStakers = Some d
    \<and> apply_stakers bt vis d v = Some v'
    \<and> reads_as (\<lambda>a b. bs_GetValidator a b v) (\<lambda>a b. Some (bs_GetDelegatorIterator bt a b v)) (Some (bs_GetStakerIterator bt v)) A0
    \<and> (\<forall>getV getD getS. reads_as getV getD getS A0 \<longrightarrow>
        reads_as (read_validator getV d) (\<lambda>a b. Option.bind (getD a b) (\<lambda>it. ds_GetDelegatorIterator bt it a b d))
          (Option.bind getS (\<lambda>it. ds_GetStakerIterator bt it d)) A)
    \<and> reads_as (\<lambda>a b. bs_GetValidator a b v') (\<lambda>a b. Some (bs_GetDelegatorIterator bt a b v')) (Some (bs_GetStakerIterator bt v')) A"
proof -
  have ok: "calls_ok {} no_stakers history" "calls_ok (see_all history {}) A0 cs" and A: "A = ss_run cs A0"
    using assms(3,5,6) by (simp_all add: calls_ok_append ss_run_append)
  have wf: "ss_wf (see_all history {}) A0" unfolding assms(5) by (rule ss_wf_run [OF ss_wf_none ok(1)])
  obtain v where v: "bs_run bt history (newBaseStakers bt) = Some v" "base_rep bt v A0" "sound A0"
    using base_run [OF assms(1) base_rep_new [OF assms(1)] sound_wf [OF ss_wf_none]] calls_ok_run [OF ss_wf_none ok(1)] assms(5) by blast
  obtain d seen gone where d: "ds_run bt cs new_diffStakers = Some d" "diff_rep bt A0 seen gone d A"
    using diff_run [OF assms(1) diff_rep_new [OF v(3) wf] ok(2) assms(4)] A by blast
  obtain v' where v': "apply_stakers bt vis d v = Some v'" "base_rep bt v' A" using apply_reads [OF assms(1,2) d(2) v(2)] by blast
  show ?thesis using v(1) d(1) v'(1) base_reads [OF v(2)] base_reads [OF v'(2)] diff_reads [OF d(2)] by blast
qed

definition list_btree :: "(unit, unit Staker list) btree" where
  "list_btree = \<lparr>bt_NewG = [], bt_ReplaceOrInsert = (\<lambda>s t. filter (\<lambda>x. Staker_Less x s) t @ s # filter (\<lambda>x. Staker_Less s x) t),
     bt_Delete = (\<lambda>s t. filter (\<lambda>x. Staker_Less x s \<or> Staker_Less s x) t), bt_Len = length, bt_Ascend = id\<rparr>"

definition list_visiting :: "(unit, unit Staker list) visiting" where
  "list_visiting = \<lparr>vis_subnets = rev, vis_nodes = id, vis_deleted = rev\<rparr>"

definition sample_staker :: "u8 \<Rightarrow> Priority \<Rightarrow> unit Staker" where
  "sample_staker n p = \<lparr>st_TxID = [n], st_NodeID = [7], st_PublicKey = None, st_SubnetID = [0], st_Weight = 5, st_StartTime = 0, st_EndTime = 10,
     st_PotentialReward = 0, st_MintRate = 0, st_FeePerWeightPaid = 0, st_NextTime = 10, st_Priority = p\<rparr>"

theorem stakers_refine_witness:
  "\<exists>v d v'. bs_run list_btree [PutValidator (sample_staker 1 PrimaryNetworkValidatorCurrentPriority)] (newBaseStakers list_btree) = Some v
    \<and> ds_run list_btree [PutDelegator (sample_staker 2 PrimaryNetworkDelegatorCurrentPriority),
        DeleteValidator (sample_staker 1 PrimaryNetworkValidatorCurrentPriority)] new_diffStakers = Some d
    \<and> apply_stakers list_btree list_visiting d v = Some v'
    \<and> bs_GetValidator [0] [7] v = Some (sample_staker 1 PrimaryNetworkValidatorCurrentPriority)
    \<and> bs_GetValidator [0] [7] v' = None
    \<and> lists (bs_GetStakerIterator list_btree v') {sample_staker 2 PrimaryNetworkDelegatorCurrentPriority}"
proof -
  let ?v = "sample_staker 1 PrimaryNetworkValidatorCurrentPriority" and ?d = "sample_staker 2 PrimaryNetworkDelegatorCurrentPriority"
  have bt: "btree_ok list_btree" by (simp add: btree_ok_def list_btree_def)
  have vis: "visiting_ok list_visiting" by (simp add: visiting_ok_def list_visiting_def)
  have calls: "calls_ok {} no_stakers ([PutValidator ?v] @ [PutDelegator ?d, DeleteValidator ?v])"
    "never_readded {} [PutDelegator ?d, DeleteValidator ?v]" by (simp_all add: no_stakers_def sample_staker_def place_def)
  define A0 where "A0 = ss_run [PutValidator ?v] no_stakers"
  define A where "A = ss_run ([PutValidator ?v] @ [PutDelegator ?d, DeleteValidator ?v]) no_stakers"
  have all: "ss_all A = {?d}" "ss_vals A0 ([0], [7]) = Some ?v" "ss_vals A ([0], [7]) = None"
    by (auto simp: A_def A0_def ss_all_def no_stakers_def sample_staker_def place_def split: if_splits)
  from stakers_refine [OF bt vis calls A0_def A_def] all show ?thesis unfolding reads_as_def by auto
qed

end
