(* ===== verification/Chain_State.thy ===== *)
theory Chain_State
  imports Stakers_Refine
begin

text \<open>
  The state of the omega chain as its parts see it: the transactions and statuses that it stores, the interface \<^verbatim>\<open>Chain\<close> of \<^verbatim>\<open>vms/omegavm/state/state.go\<close>
  as a record of the answers of its getters, and the contract: a ledger, what the setters do to it, and when the answers of a
  chain show a ledger.

  Times count from the zero time of the language. A big integer is copied whenever it is read or written, so it is a value. An owner and
  a UTXO are type variables; the identifier of a UTXO is an argument.
\<close>

subsection \<open>Transactions\<close>

datatype TxStatus = Unknown | Committed | Aborted | Processing | Dropped

record TransformSubnet =
  ts_Subnet :: ID
  ts_MaximumSupply :: u64
  ts_MinConsumptionRate :: u64
  ts_MaxConsumptionRate :: u64

text \<open>Only the types of transactions that the state looks into are told apart.\<close>

datatype 'o UnsignedTx =
    CreateSubnetTx (cs_Owner: 'o)
  | CreateChainTx (cc_SubnetID: ID)
  | TransformSubnetTx (ts_tx: TransformSubnet)
  | OtherTx

record 'o Tx =
  tx_ID :: ID
  tx_Unsigned :: "'o UnsignedTx"

subsection \<open>The interface of a chain state\<close>

datatype chain_error = ErrMissingParentState | ErrNotFound | ErrCantFindSubnet | ErrIsNotSubnet | ErrDatabase | Hangs | Panics

record ('pk, 'o, 'u) Chain =
  GetTimestamp :: int
  GetStakeSyncTimestamp :: "chain_error + int"
  GetStakerAccumulatedMintRate :: "chain_error + int"
  GetCurrentSupply :: "ID \<Rightarrow> chain_error + u64"
  GetCurrentValidator :: "ID \<Rightarrow> NodeID \<Rightarrow> chain_error + 'pk Staker"
  GetDelegateeReward :: "ID \<Rightarrow> NodeID \<Rightarrow> chain_error + u64"
  GetCurrentDelegatorIterator :: "ID \<Rightarrow> NodeID \<Rightarrow> chain_error + 'pk StakerIterator"
  GetCurrentStakerIterator :: "chain_error + 'pk StakerIterator"
  GetCurrentStakersLen :: "chain_error + u64"
  GetPendingValidator :: "ID \<Rightarrow> NodeID \<Rightarrow> chain_error + 'pk Staker"
  GetPendingDelegatorIterator :: "ID \<Rightarrow> NodeID \<Rightarrow> chain_error + 'pk StakerIterator"
  GetPendingStakerIterator :: "chain_error + 'pk StakerIterator"
  GetPendingStakersLen :: "chain_error + u64"
  GetSubnets :: "chain_error + 'o Tx list"
  GetSubnetOwner :: "ID \<Rightarrow> chain_error + 'o"
  GetSubnetTransformation :: "ID \<Rightarrow> chain_error + 'o Tx"
  GetChains :: "ID \<Rightarrow> chain_error + 'o Tx list"
  GetTx :: "ID \<Rightarrow> chain_error + 'o Tx \<times> TxStatus"
  GetRewardUTXOs :: "ID \<Rightarrow> chain_error + 'u list"
  GetUTXO :: "ID \<Rightarrow> chain_error + 'u"
  GetFeePerWeightStored :: "chain_error + int"
  GetCurrentAccumulatedFee :: "chain_error + u64"
  GetLastAccumulatedFee :: "chain_error + u64"

datatype ('pk, 'o, 'u) chain_write =
    SetTimestamp int
  | SetStakeSyncTimestamp int
  | SetStakerAccumulatedMintRate int
  | SetCurrentSupply ID u64
  | SetDelegateeReward ID NodeID u64
  | CurrentStaker "'pk staker_call"
  | PendingStaker "'pk staker_call"
  | AddSubnet "'o Tx"
  | AddSubnetTransformation "'o Tx"
  | AddChain "'o Tx"
  | AddTx "'o Tx" TxStatus
  | AddRewardUTXO ID 'u
  | AddUTXO 'u
  | DeleteUTXO ID
  | SetFeePerWeightStored int
  | AddCurrentAccumulatedFee u64
  | SetLastAccumulatedFee u64

subsection \<open>The contract\<close>

record ('pk, 'o, 'u) ledger =
  lg_timestamp :: int
  lg_stakeSync :: int
  lg_mintRate :: int
  lg_supply :: "ID \<Rightarrow> u64 option"
  lg_delegatee :: "ID \<Rightarrow> NodeID \<Rightarrow> u64 option"
  lg_current :: "'pk staker_set"
  lg_pending :: "'pk staker_set"
  lg_subnets :: "'o Tx list"
  lg_owner :: "ID \<Rightarrow> 'o option"
  lg_transform :: "ID \<Rightarrow> 'o Tx option"
  lg_chains :: "ID \<Rightarrow> 'o Tx list"
  lg_txs :: "ID \<Rightarrow> ('o Tx \<times> TxStatus) option"
  lg_rewards :: "ID \<Rightarrow> 'u list"
  lg_utxos :: "ID \<Rightarrow> 'u option"
  lg_feePerWeight :: int
  lg_fee :: u64
  lg_lastFee :: u64

fun lg_write :: "('u \<Rightarrow> ID) \<Rightarrow> ('pk, 'o, 'u) chain_write \<Rightarrow> ('pk, 'o, 'u) ledger \<Rightarrow> ('pk, 'o, 'u) ledger" where
  "lg_write inputID (SetTimestamp t) L = L\<lparr>lg_timestamp := t\<rparr>"
| "lg_write inputID (SetStakeSyncTimestamp t) L = L\<lparr>lg_stakeSync := t\<rparr>"
| "lg_write inputID (SetStakerAccumulatedMintRate r) L = L\<lparr>lg_mintRate := r\<rparr>"
| "lg_write inputID (SetCurrentSupply a x) L = L\<lparr>lg_supply := (lg_supply L)(a \<mapsto> x)\<rparr>"
| "lg_write inputID (SetDelegateeReward a b x) L = L\<lparr>lg_delegatee := (lg_delegatee L)(a := (lg_delegatee L a)(b \<mapsto> x))\<rparr>"
| "lg_write inputID (CurrentStaker c) L = L\<lparr>lg_current := ss_call c (lg_current L)\<rparr>"
| "lg_write inputID (PendingStaker c) L = L\<lparr>lg_pending := ss_call c (lg_pending L)\<rparr>"
| "lg_write inputID (AddSubnet tx) L = L\<lparr>lg_subnets := lg_subnets L @ [tx], lg_owner := (lg_owner L)(tx_ID tx \<mapsto> cs_Owner (tx_Unsigned tx))\<rparr>"
| "lg_write inputID (AddSubnetTransformation tx) L = L\<lparr>lg_transform := (lg_transform L)(ts_Subnet (ts_tx (tx_Unsigned tx)) \<mapsto> tx)\<rparr>"
| "lg_write inputID (AddChain tx) L = (let a = cc_SubnetID (tx_Unsigned tx) in L\<lparr>lg_chains := (lg_chains L)(a := lg_chains L a @ [tx])\<rparr>)"
| "lg_write inputID (AddTx tx st) L = L\<lparr>lg_txs := (lg_txs L)(tx_ID tx \<mapsto> (tx, st))\<rparr>"
| "lg_write inputID (AddRewardUTXO i u) L = L\<lparr>lg_rewards := (lg_rewards L)(i := lg_rewards L i @ [u])\<rparr>"
| "lg_write inputID (AddUTXO u) L = L\<lparr>lg_utxos := (lg_utxos L)(inputID u \<mapsto> u)\<rparr>"
| "lg_write inputID (DeleteUTXO i) L = L\<lparr>lg_utxos := (lg_utxos L)(i := None)\<rparr>"
| "lg_write inputID (SetFeePerWeightStored f) L = L\<lparr>lg_feePerWeight := f\<rparr>"
| "lg_write inputID (AddCurrentAccumulatedFee f) L = L\<lparr>lg_fee := lg_fee L + f\<rparr>"
| "lg_write inputID (SetLastAccumulatedFee f) L = L\<lparr>lg_lastFee := f\<rparr>"

fun lg_run :: "('u \<Rightarrow> ID) \<Rightarrow> ('pk, 'o, 'u) chain_write list \<Rightarrow> ('pk, 'o, 'u) ledger \<Rightarrow> ('pk, 'o, 'u) ledger" where
  "lg_run inputID [] L = L"
| "lg_run inputID (w # ws) L = lg_run inputID ws (lg_write inputID w L)"

lemma lg_run_append: "lg_run inputID (ws @ ws') L = lg_run inputID ws' (lg_run inputID ws L)"
  by (induction ws arbitrary: L) auto

text \<open>A lookup finds a value or fails with the error of the database for a missing key.\<close>

fun found :: "'a option \<Rightarrow> chain_error + 'a" where
  "found None = Inl ErrNotFound"
| "found (Some x) = Inr x"

definition stakers_shown ::
  "(ID \<Rightarrow> NodeID \<Rightarrow> chain_error + 'pk Staker) \<Rightarrow> (ID \<Rightarrow> NodeID \<Rightarrow> chain_error + 'pk StakerIterator) \<Rightarrow> chain_error + 'pk StakerIterator
     \<Rightarrow> 'pk staker_set \<Rightarrow> bool" where
  "stakers_shown getV getD getS A \<longleftrightarrow> (\<forall>a b. getV a b = found (ss_vals A (a, b)))
     \<and> (\<forall>a b. \<exists>it. getD a b = Inr it \<and> lists it (ss_dels A (a, b))) \<and> (\<exists>it. getS = Inr it \<and> lists it (ss_all A))"

text \<open>A chain state shows a ledger when every getter answers with it, except the two that count the stakers: a ledger has no such counts, and a difference
  does not compute them.\<close>

definition shows_ledger :: "('pk, 'o, 'u) Chain \<Rightarrow> ('pk, 'o, 'u) ledger \<Rightarrow> bool" where
  "shows_ledger C L \<longleftrightarrow> GetTimestamp C = lg_timestamp L \<and> GetStakeSyncTimestamp C = Inr (lg_stakeSync L)
     \<and> GetStakerAccumulatedMintRate C = Inr (lg_mintRate L) \<and> (\<forall>a. GetCurrentSupply C a = found (lg_supply L a))
     \<and> (\<forall>a b. GetDelegateeReward C a b = found (lg_delegatee L a b))
     \<and> stakers_shown (GetCurrentValidator C) (GetCurrentDelegatorIterator C) (GetCurrentStakerIterator C) (lg_current L)
     \<and> stakers_shown (GetPendingValidator C) (GetPendingDelegatorIterator C) (GetPendingStakerIterator C) (lg_pending L)
     \<and> GetSubnets C = Inr (lg_subnets L)
     \<and> (\<forall>a. case lg_owner L a of None \<Rightarrow> (\<exists>e. GetSubnetOwner C a = Inl e) | Some owner \<Rightarrow> GetSubnetOwner C a = Inr owner)
     \<and> (\<forall>a. GetSubnetTransformation C a = found (lg_transform L a)) \<and> (\<forall>a. GetChains C a = Inr (lg_chains L a))
     \<and> (\<forall>i. GetTx C i = found (lg_txs L i)) \<and> (\<forall>i. GetRewardUTXOs C i = Inr (lg_rewards L i))
     \<and> (\<forall>i. GetUTXO C i = found (lg_utxos L i)) \<and> GetFeePerWeightStored C = Inr (lg_feePerWeight L)
     \<and> GetCurrentAccumulatedFee C = Inr (lg_fee L) \<and> GetLastAccumulatedFee C = Inr (lg_lastFee L)"

end
