(* ===== verification/Chain_Diff.thy ===== *)
theory Chain_Diff
  imports Chain_State
begin

text \<open>
  A difference to a parent state, \<^verbatim>\<open>vms/omegavm/state/diff.go\<close>: the values that a block changes, on top of the state of its parent block. What
  was not changed is asked of the parent, and some of the answers are kept. A nil map and an empty one are the empty list, a nil pointer is
  \<^verbatim>\<open>None\<close>; a nil slice is the empty one, because no empty slice that is not nil occurs. A getter returns its answer and the difference, which may
  have kept something.
\<close>

declare split_paired_All [simp del] split_paired_Ex [simp del]

subsection \<open>The difference\<close>

record ('pk, 't, 'o, 'u) diff =
  d_parentID :: ID
  d_timestamp :: int
  d_stakeSyncTimestamp :: int
  d_currentSupply :: "(ID, u64) gomap"
  d_currentStakerDiffs :: "('pk, 't) diffStakers"
  d_modifiedDelegateeRewards :: "(ID, NodeID, u64) gomap2"
  d_pendingStakerDiffs :: "('pk, 't) diffStakers"
  d_addedSubnets :: "'o Tx list"
  d_subnetOwners :: "ID \<Rightarrow> 'o option"
  d_transformedSubnets :: "(ID, 'o Tx) gomap"
  d_cachedSubnets :: "'o Tx list"
  d_addedChains :: "(ID, 'o Tx list) gomap"
  d_cachedChains :: "ID \<Rightarrow> 'o Tx list option"
  d_addedRewardUTXOs :: "(ID, 'u list) gomap"
  d_addedTxs :: "(ID, 'o Tx \<times> TxStatus) gomap"
  d_modifiedUTXOs :: "(ID, 'u option) gomap"
  d_stakerMintRate :: "int option"
  d_feePerWeightStored :: "int option"
  d_addAccumulatedFee :: u64
  d_currentAccumulatedFeeCache :: "u64 option"
  d_lastAccumulatedFee :: "u64 option"

text \<open>The states of the blocks that are known, by block.\<close>

type_synonym ('pk, 'o, 'u) Versions = "ID \<Rightarrow> ('pk, 'o, 'u) Chain option"

definition NewDiff :: "ID \<Rightarrow> ('pk, 'o, 'u) Versions \<Rightarrow> chain_error + ('pk, 't, 'o, 'u) diff" where
  "NewDiff parentID stateVersions =
     (case stateVersions parentID of
        None \<Rightarrow> Inl ErrMissingParentState
      | Some parentState \<Rightarrow> Inr \<lparr>d_parentID = parentID, d_timestamp = GetTimestamp parentState, d_stakeSyncTimestamp = 0,
          d_currentSupply = [], d_currentStakerDiffs = new_diffStakers, d_modifiedDelegateeRewards = [],
          d_pendingStakerDiffs = new_diffStakers, d_addedSubnets = [], d_subnetOwners = Map.empty, d_transformedSubnets = [],
          d_cachedSubnets = [], d_addedChains = [], d_cachedChains = Map.empty, d_addedRewardUTXOs = [], d_addedTxs = [],
          d_modifiedUTXOs = [], d_stakerMintRate = None, d_feePerWeightStored = None, d_addAccumulatedFee = 0,
          d_currentAccumulatedFeeCache = None, d_lastAccumulatedFee = None\<rparr>)"

text \<open>What is asked of the parent.\<close>

definition ask :: "('pk, 'o, 'u) Versions \<Rightarrow> ('pk, 't, 'o, 'u) diff \<Rightarrow> (('pk, 'o, 'u) Chain \<Rightarrow> chain_error + 'a) \<Rightarrow> chain_error + 'a" where
  "ask vs d f = (case vs (d_parentID d) of None \<Rightarrow> Inl ErrMissingParentState | Some parentState \<Rightarrow> f parentState)"

subsubsection \<open>Getters and setters of numbers\<close>

definition d_GetStakeSyncTimestamp ::
  "('pk, 'o, 'u) Versions \<Rightarrow> ('pk, 't, 'o, 'u) diff \<Rightarrow> (chain_error + int) \<times> ('pk, 't, 'o, 'u) diff" where
  "d_GetStakeSyncTimestamp vs d =
     (if d_stakeSyncTimestamp d = 0 then
        (case vs (d_parentID d) of
           None \<Rightarrow> (Inl ErrMissingParentState, d)
         | Some parentState \<Rightarrow>
             (case GetStakeSyncTimestamp parentState of
                Inl err \<Rightarrow> (Inr 0, d)
              | Inr stakeSyncTimestamp \<Rightarrow> (Inr stakeSyncTimestamp, d\<lparr>d_stakeSyncTimestamp := stakeSyncTimestamp\<rparr>)))
      else (Inr (d_stakeSyncTimestamp d), d))"

definition d_GetStakerAccumulatedMintRate ::
  "('pk, 'o, 'u) Versions \<Rightarrow> ('pk, 't, 'o, 'u) diff \<Rightarrow> (chain_error + int) \<times> ('pk, 't, 'o, 'u) diff" where
  "d_GetStakerAccumulatedMintRate vs d =
     (case d_stakerMintRate d of
        Some stakerMintRate \<Rightarrow> (Inr stakerMintRate, d)
      | None \<Rightarrow>
          (case vs (d_parentID d) of
             None \<Rightarrow> (Inl ErrMissingParentState, d)
           | Some parentState \<Rightarrow>
               (case GetStakerAccumulatedMintRate parentState of
                  Inl err \<Rightarrow> (Inr 0, d)
                | Inr stakerMintRate \<Rightarrow> (Inr stakerMintRate, d\<lparr>d_stakerMintRate := Some stakerMintRate\<rparr>))))"

definition d_GetCurrentSupply :: "('pk, 'o, 'u) Versions \<Rightarrow> ID \<Rightarrow> ('pk, 't, 'o, 'u) diff \<Rightarrow> chain_error + u64" where
  "d_GetCurrentSupply vs subnetID d =
     (case map_of (d_currentSupply d) subnetID of
        Some supply \<Rightarrow> Inr supply
      | None \<Rightarrow> ask vs d (\<lambda>parentState. GetCurrentSupply parentState subnetID))"

definition d_GetDelegateeReward :: "('pk, 'o, 'u) Versions \<Rightarrow> ID \<Rightarrow> NodeID \<Rightarrow> ('pk, 't, 'o, 'u) diff \<Rightarrow> chain_error + u64" where
  "d_GetDelegateeReward vs subnetID nodeID d =
     (case lookup2 (d_modifiedDelegateeRewards d) subnetID nodeID of
        Some amount \<Rightarrow> Inr amount
      | None \<Rightarrow> ask vs d (\<lambda>parentState. GetDelegateeReward parentState subnetID nodeID))"

definition d_SetDelegateeReward :: "ID \<Rightarrow> NodeID \<Rightarrow> u64 \<Rightarrow> ('pk, 't, 'o, 'u) diff \<Rightarrow> ('pk, 't, 'o, 'u) diff" where
  "d_SetDelegateeReward subnetID nodeID amount d =
     (let (nodes, rewards) =
        (case map_of (d_modifiedDelegateeRewards d) subnetID of
           Some nodes \<Rightarrow> (nodes, d_modifiedDelegateeRewards d)
         | None \<Rightarrow> ([], AList.update subnetID [] (d_modifiedDelegateeRewards d)))
      in d\<lparr>d_modifiedDelegateeRewards := AList.update subnetID (AList.update nodeID amount nodes) rewards\<rparr>)"

definition d_GetFeePerWeightStored ::
  "('pk, 'o, 'u) Versions \<Rightarrow> ('pk, 't, 'o, 'u) diff \<Rightarrow> (chain_error + int) \<times> ('pk, 't, 'o, 'u) diff" where
  "d_GetFeePerWeightStored vs d =
     (case d_feePerWeightStored d of
        Some feePerWeightStored \<Rightarrow> (Inr feePerWeightStored, d)
      | None \<Rightarrow>
          (case vs (d_parentID d) of
             None \<Rightarrow> (Inl ErrMissingParentState, d)
           | Some parentState \<Rightarrow>
               (case GetFeePerWeightStored parentState of
                  Inl err \<Rightarrow> (Inr 0, d)
                | Inr feePerWeightStored \<Rightarrow> (Inr feePerWeightStored, d\<lparr>d_feePerWeightStored := Some feePerWeightStored\<rparr>))))"

definition d_GetCurrentAccumulatedFee ::
  "('pk, 'o, 'u) Versions \<Rightarrow> ('pk, 't, 'o, 'u) diff \<Rightarrow> (chain_error + u64) \<times> ('pk, 't, 'o, 'u) diff" where
  "d_GetCurrentAccumulatedFee vs d =
     (case d_currentAccumulatedFeeCache d of
        Some cached \<Rightarrow> (Inr (cached + d_addAccumulatedFee d), d)
      | None \<Rightarrow>
          (case vs (d_parentID d) of
             None \<Rightarrow> (Inl ErrMissingParentState, d)
           | Some parentState \<Rightarrow>
               (case GetCurrentAccumulatedFee parentState of
                  Inl err \<Rightarrow> (Inr 0, d)
                | Inr lastAccumulatedFee \<Rightarrow>
                    (Inr (lastAccumulatedFee + d_addAccumulatedFee d), d\<lparr>d_currentAccumulatedFeeCache := Some lastAccumulatedFee\<rparr>))))"

definition d_GetLastAccumulatedFee ::
  "('pk, 'o, 'u) Versions \<Rightarrow> ('pk, 't, 'o, 'u) diff \<Rightarrow> (chain_error + u64) \<times> ('pk, 't, 'o, 'u) diff" where
  "d_GetLastAccumulatedFee vs d =
     (case d_lastAccumulatedFee d of
        Some lastAccumulatedFee \<Rightarrow> (Inr lastAccumulatedFee, d)
      | None \<Rightarrow>
          (case vs (d_parentID d) of
             None \<Rightarrow> (Inl ErrMissingParentState, d)
           | Some parentState \<Rightarrow>
               (case GetLastAccumulatedFee parentState of
                  Inl err \<Rightarrow> (Inr 0, d)
                | Inr lastAccumulatedFee \<Rightarrow> (Inr lastAccumulatedFee, d\<lparr>d_lastAccumulatedFee := Some lastAccumulatedFee\<rparr>))))"

subsubsection \<open>Stakers\<close>

text \<open>A validator that was added is not nil; that case is never reached.\<close>

definition d_GetValidator ::
  "(('pk, 'o, 'u) Chain \<Rightarrow> chain_error + 'pk Staker) \<Rightarrow> ('pk, 'o, 'u) Versions \<Rightarrow> ID \<Rightarrow> NodeID \<Rightarrow> ('pk, 't) diffStakers
     \<Rightarrow> ('pk, 't, 'o, 'u) diff \<Rightarrow> chain_error + 'pk Staker" where
  "d_GetValidator getParent vs subnetID nodeID stakerDiffs d =
     (case ds_GetValidator subnetID nodeID stakerDiffs of
        (newValidator, added) \<Rightarrow> (case newValidator of None \<Rightarrow> Inl ErrNotFound | Some s \<Rightarrow> Inr s)
      | (_, deleted) \<Rightarrow> Inl ErrNotFound
      | (_, unmodified) \<Rightarrow> ask vs d getParent)"

definition d_GetCurrentValidator :: "('pk, 'o, 'u) Versions \<Rightarrow> ID \<Rightarrow> NodeID \<Rightarrow> ('pk, 't, 'o, 'u) diff \<Rightarrow> chain_error + 'pk Staker" where
  "d_GetCurrentValidator vs subnetID nodeID d =
     d_GetValidator (\<lambda>parentState. GetCurrentValidator parentState subnetID nodeID) vs subnetID nodeID (d_currentStakerDiffs d) d"

definition d_GetPendingValidator :: "('pk, 'o, 'u) Versions \<Rightarrow> ID \<Rightarrow> NodeID \<Rightarrow> ('pk, 't, 'o, 'u) diff \<Rightarrow> chain_error + 'pk Staker" where
  "d_GetPendingValidator vs subnetID nodeID d =
     d_GetValidator (\<lambda>parentState. GetPendingValidator parentState subnetID nodeID) vs subnetID nodeID (d_pendingStakerDiffs d) d"

text \<open>A construction of an iterator that does not return is the error \<^verbatim>\<open>Hangs\<close>.\<close>

definition returned :: "'a option \<Rightarrow> chain_error + 'a" where
  "returned r = (case r of None \<Rightarrow> Inl Hangs | Some x \<Rightarrow> Inr x)"

definition d_GetCurrentDelegatorIterator ::
  "('pk, 't) btree \<Rightarrow> ('pk, 'o, 'u) Versions \<Rightarrow> ID \<Rightarrow> NodeID \<Rightarrow> ('pk, 't, 'o, 'u) diff \<Rightarrow> chain_error + 'pk StakerIterator" where
  "d_GetCurrentDelegatorIterator bt vs subnetID nodeID d =
     res_bind (ask vs d (\<lambda>parentState. GetCurrentDelegatorIterator parentState subnetID nodeID)) (\<lambda>parentIterator.
       returned (ds_GetDelegatorIterator bt parentIterator subnetID nodeID (d_currentStakerDiffs d)))"

definition d_GetPendingDelegatorIterator ::
  "('pk, 't) btree \<Rightarrow> ('pk, 'o, 'u) Versions \<Rightarrow> ID \<Rightarrow> NodeID \<Rightarrow> ('pk, 't, 'o, 'u) diff \<Rightarrow> chain_error + 'pk StakerIterator" where
  "d_GetPendingDelegatorIterator bt vs subnetID nodeID d =
     res_bind (ask vs d (\<lambda>parentState. GetPendingDelegatorIterator parentState subnetID nodeID)) (\<lambda>parentIterator.
       returned (ds_GetDelegatorIterator bt parentIterator subnetID nodeID (d_pendingStakerDiffs d)))"

definition d_GetCurrentStakerIterator ::
  "('pk, 't) btree \<Rightarrow> ('pk, 'o, 'u) Versions \<Rightarrow> ('pk, 't, 'o, 'u) diff \<Rightarrow> chain_error + 'pk StakerIterator" where
  "d_GetCurrentStakerIterator bt vs d =
     res_bind (ask vs d GetCurrentStakerIterator) (\<lambda>parentIterator.
       returned (ds_GetStakerIterator bt parentIterator (d_currentStakerDiffs d)))"

definition d_GetPendingStakerIterator ::
  "('pk, 't) btree \<Rightarrow> ('pk, 'o, 'u) Versions \<Rightarrow> ('pk, 't, 'o, 'u) diff \<Rightarrow> chain_error + 'pk StakerIterator" where
  "d_GetPendingStakerIterator bt vs d =
     res_bind (ask vs d GetPendingStakerIterator) (\<lambda>parentIterator.
       returned (ds_GetStakerIterator bt parentIterator (d_pendingStakerDiffs d)))"

definition d_GetCurrentStakersLen :: "('pk, 'o, 'u) Versions \<Rightarrow> ('pk, 't, 'o, 'u) diff \<Rightarrow> chain_error + u64" where
  "d_GetCurrentStakersLen vs d = ask vs d GetCurrentStakersLen"

definition d_GetPendingStakersLen :: "('pk, 'o, 'u) Versions \<Rightarrow> ('pk, 't, 'o, 'u) diff \<Rightarrow> chain_error + u64" where
  "d_GetPendingStakersLen vs d = ask vs d GetPendingStakersLen"

subsubsection \<open>Subnets, chains and transactions\<close>

definition d_GetSubnets ::
  "('pk, 'o, 'u) Versions \<Rightarrow> ('pk, 't, 'o, 'u) diff \<Rightarrow> (chain_error + 'o Tx list) \<times> ('pk, 't, 'o, 'u) diff" where
  "d_GetSubnets vs d =
     (if d_addedSubnets d = [] then (ask vs d GetSubnets, d)
      else if d_cachedSubnets d \<noteq> [] then (Inr (d_cachedSubnets d), d)
      else
        (case ask vs d GetSubnets of
           Inl err \<Rightarrow> (Inl err, d)
         | Inr subnets \<Rightarrow> let newSubnets = subnets @ d_addedSubnets d in (Inr newSubnets, d\<lparr>d_cachedSubnets := newSubnets\<rparr>)))"

text \<open>The result None is a failed type assertion.\<close>

definition d_AddSubnet :: "'o Tx \<Rightarrow> ('pk, 't, 'o, 'u) diff \<Rightarrow> ('pk, 't, 'o, 'u) diff option" where
  "d_AddSubnet createSubnetTx d =
     (let d = d\<lparr>d_addedSubnets := d_addedSubnets d @ [createSubnetTx]\<rparr>;
          d = (if d_cachedSubnets d \<noteq> [] then d\<lparr>d_cachedSubnets := d_cachedSubnets d @ [createSubnetTx]\<rparr> else d)
      in case tx_Unsigned createSubnetTx of
           CreateSubnetTx owner \<Rightarrow> Some (d\<lparr>d_subnetOwners := (d_subnetOwners d)(tx_ID createSubnetTx \<mapsto> owner)\<rparr>)
         | _ \<Rightarrow> None)"

definition d_GetSubnetOwner :: "('pk, 'o, 'u) Versions \<Rightarrow> ID \<Rightarrow> ('pk, 't, 'o, 'u) diff \<Rightarrow> chain_error + 'o" where
  "d_GetSubnetOwner vs subnetID d =
     (case d_subnetOwners d subnetID of
        Some owner \<Rightarrow> Inr owner
      | None \<Rightarrow> ask vs d (\<lambda>parentState. GetSubnetOwner parentState subnetID))"

definition d_GetSubnetTransformation :: "('pk, 'o, 'u) Versions \<Rightarrow> ID \<Rightarrow> ('pk, 't, 'o, 'u) diff \<Rightarrow> chain_error + 'o Tx" where
  "d_GetSubnetTransformation vs subnetID d =
     (case map_of (d_transformedSubnets d) subnetID of
        Some tx \<Rightarrow> Inr tx
      | None \<Rightarrow> ask vs d (\<lambda>parentState. GetSubnetTransformation parentState subnetID))"

definition d_AddSubnetTransformation :: "'o Tx \<Rightarrow> ('pk, 't, 'o, 'u) diff \<Rightarrow> ('pk, 't, 'o, 'u) diff option" where
  "d_AddSubnetTransformation tx d =
     (case tx_Unsigned tx of
        TransformSubnetTx transform \<Rightarrow> Some (d\<lparr>d_transformedSubnets := AList.update (ts_Subnet transform) tx (d_transformedSubnets d)\<rparr>)
      | _ \<Rightarrow> None)"

definition list_at :: "('k, 'v list) gomap \<Rightarrow> 'k \<Rightarrow> 'v list" where
  "list_at m k = (case map_of m k of None \<Rightarrow> [] | Some vs \<Rightarrow> vs)"

definition d_GetChains ::
  "('pk, 'o, 'u) Versions \<Rightarrow> ID \<Rightarrow> ('pk, 't, 'o, 'u) diff \<Rightarrow> (chain_error + 'o Tx list) \<times> ('pk, 't, 'o, 'u) diff" where
  "d_GetChains vs subnetID d =
     (let addedChains = list_at (d_addedChains d) subnetID
      in if addedChains = [] then (ask vs d (\<lambda>parentState. GetChains parentState subnetID), d)
         else
           (case d_cachedChains d subnetID of
              Some cachedChains \<Rightarrow> (Inr cachedChains, d)
            | None \<Rightarrow>
                (case ask vs d (\<lambda>parentState. GetChains parentState subnetID) of
                   Inl err \<Rightarrow> (Inl err, d)
                 | Inr chainTxs \<Rightarrow> let newChains = chainTxs @ addedChains
                     in (Inr newChains, d\<lparr>d_cachedChains := (d_cachedChains d)(subnetID \<mapsto> newChains)\<rparr>))))"

definition d_AddChain :: "'o Tx \<Rightarrow> ('pk, 't, 'o, 'u) diff \<Rightarrow> ('pk, 't, 'o, 'u) diff option" where
  "d_AddChain createChainTx d =
     (case tx_Unsigned createChainTx of
        CreateChainTx subnetID \<Rightarrow>
          (let d = d\<lparr>d_addedChains := AList.update subnetID (list_at (d_addedChains d) subnetID @ [createChainTx]) (d_addedChains d)\<rparr>
           in case d_cachedChains d subnetID of
                None \<Rightarrow> Some d
              | Some cachedChains \<Rightarrow> Some (d\<lparr>d_cachedChains := (d_cachedChains d)(subnetID \<mapsto> cachedChains @ [createChainTx])\<rparr>))
      | _ \<Rightarrow> None)"

definition d_GetTx :: "('pk, 'o, 'u) Versions \<Rightarrow> ID \<Rightarrow> ('pk, 't, 'o, 'u) diff \<Rightarrow> chain_error + 'o Tx \<times> TxStatus" where
  "d_GetTx vs txID d =
     (case map_of (d_addedTxs d) txID of
        Some tx \<Rightarrow> Inr tx
      | None \<Rightarrow> ask vs d (\<lambda>parentState. GetTx parentState txID))"

definition d_GetRewardUTXOs :: "('pk, 'o, 'u) Versions \<Rightarrow> ID \<Rightarrow> ('pk, 't, 'o, 'u) diff \<Rightarrow> chain_error + 'u list" where
  "d_GetRewardUTXOs vs txID d =
     (case map_of (d_addedRewardUTXOs d) txID of
        Some utxos \<Rightarrow> Inr utxos
      | None \<Rightarrow> ask vs d (\<lambda>parentState. GetRewardUTXOs parentState txID))"

definition d_GetUTXO :: "('pk, 'o, 'u) Versions \<Rightarrow> ID \<Rightarrow> ('pk, 't, 'o, 'u) diff \<Rightarrow> chain_error + 'u" where
  "d_GetUTXO vs utxoID d =
     (case map_of (d_modifiedUTXOs d) utxoID of
        None \<Rightarrow> ask vs d (\<lambda>parentState. GetUTXO parentState utxoID)
      | Some None \<Rightarrow> Inl ErrNotFound
      | Some (Some utxo) \<Rightarrow> Inr utxo)"

subsubsection \<open>Other setters\<close>

definition d_SetTimestamp :: "int \<Rightarrow> ('pk, 't, 'o, 'u) diff \<Rightarrow> ('pk, 't, 'o, 'u) diff" where
  "d_SetTimestamp timestamp d = d\<lparr>d_timestamp := timestamp\<rparr>"

definition d_SetStakeSyncTimestamp :: "int \<Rightarrow> ('pk, 't, 'o, 'u) diff \<Rightarrow> ('pk, 't, 'o, 'u) diff" where
  "d_SetStakeSyncTimestamp timestamp d = d\<lparr>d_stakeSyncTimestamp := timestamp\<rparr>"

definition d_SetStakerAccumulatedMintRate :: "int \<Rightarrow> ('pk, 't, 'o, 'u) diff \<Rightarrow> ('pk, 't, 'o, 'u) diff" where
  "d_SetStakerAccumulatedMintRate mr d = d\<lparr>d_stakerMintRate := Some mr\<rparr>"

definition d_SetCurrentSupply :: "ID \<Rightarrow> u64 \<Rightarrow> ('pk, 't, 'o, 'u) diff \<Rightarrow> ('pk, 't, 'o, 'u) diff" where
  "d_SetCurrentSupply subnetID currentSupply d = d\<lparr>d_currentSupply := AList.update subnetID currentSupply (d_currentSupply d)\<rparr>"

definition d_AddTx :: "'o Tx \<Rightarrow> TxStatus \<Rightarrow> ('pk, 't, 'o, 'u) diff \<Rightarrow> ('pk, 't, 'o, 'u) diff" where
  "d_AddTx tx status d = d\<lparr>d_addedTxs := AList.update (tx_ID tx) (tx, status) (d_addedTxs d)\<rparr>"

definition d_AddRewardUTXO :: "ID \<Rightarrow> 'u \<Rightarrow> ('pk, 't, 'o, 'u) diff \<Rightarrow> ('pk, 't, 'o, 'u) diff" where
  "d_AddRewardUTXO txID utxo d = d\<lparr>d_addedRewardUTXOs := AList.update txID (list_at (d_addedRewardUTXOs d) txID @ [utxo]) (d_addedRewardUTXOs d)\<rparr>"

definition d_AddUTXO :: "('u \<Rightarrow> ID) \<Rightarrow> 'u \<Rightarrow> ('pk, 't, 'o, 'u) diff \<Rightarrow> ('pk, 't, 'o, 'u) diff" where
  "d_AddUTXO inputID utxo d = d\<lparr>d_modifiedUTXOs := AList.update (inputID utxo) (Some utxo) (d_modifiedUTXOs d)\<rparr>"

definition d_DeleteUTXO :: "ID \<Rightarrow> ('pk, 't, 'o, 'u) diff \<Rightarrow> ('pk, 't, 'o, 'u) diff" where
  "d_DeleteUTXO utxoID d = d\<lparr>d_modifiedUTXOs := AList.update utxoID None (d_modifiedUTXOs d)\<rparr>"

definition d_SetFeePerWeightStored :: "int \<Rightarrow> ('pk, 't, 'o, 'u) diff \<Rightarrow> ('pk, 't, 'o, 'u) diff" where
  "d_SetFeePerWeightStored f d = d\<lparr>d_feePerWeightStored := Some f\<rparr>"

definition d_AddCurrentAccumulatedFee :: "u64 \<Rightarrow> ('pk, 't, 'o, 'u) diff \<Rightarrow> ('pk, 't, 'o, 'u) diff" where
  "d_AddCurrentAccumulatedFee f d = d\<lparr>d_addAccumulatedFee := d_addAccumulatedFee d + f\<rparr>"

definition d_SetLastAccumulatedFee :: "u64 \<Rightarrow> ('pk, 't, 'o, 'u) diff \<Rightarrow> ('pk, 't, 'o, 'u) diff" where
  "d_SetLastAccumulatedFee f d = d\<lparr>d_lastAccumulatedFee := Some f\<rparr>"

lemmas d_setters [simp] = d_SetTimestamp_def d_SetStakeSyncTimestamp_def d_SetStakerAccumulatedMintRate_def d_SetCurrentSupply_def d_AddTx_def d_AddRewardUTXO_def d_AddUTXO_def d_DeleteUTXO_def d_SetFeePerWeightStored_def d_AddCurrentAccumulatedFee_def d_SetLastAccumulatedFee_def

subsubsection \<open>All setters\<close>

fun d_write :: "('pk, 't) btree \<Rightarrow> ('u \<Rightarrow> ID) \<Rightarrow> ('pk, 'o, 'u) chain_write \<Rightarrow> ('pk, 't, 'o, 'u) diff \<Rightarrow> ('pk, 't, 'o, 'u) diff option" where
  "d_write bt inputID (SetTimestamp t) d = Some (d_SetTimestamp t d)"
| "d_write bt inputID (SetStakeSyncTimestamp t) d = Some (d_SetStakeSyncTimestamp t d)"
| "d_write bt inputID (SetStakerAccumulatedMintRate mr) d = Some (d_SetStakerAccumulatedMintRate mr d)"
| "d_write bt inputID (SetCurrentSupply subnetID currentSupply) d = Some (d_SetCurrentSupply subnetID currentSupply d)"
| "d_write bt inputID (SetDelegateeReward subnetID nodeID amount) d = Some (d_SetDelegateeReward subnetID nodeID amount d)"
| "d_write bt inputID (CurrentStaker c) d = map_option (\<lambda>s. d\<lparr>d_currentStakerDiffs := s\<rparr>) (ds_call bt c (d_currentStakerDiffs d))"
| "d_write bt inputID (PendingStaker c) d = map_option (\<lambda>s. d\<lparr>d_pendingStakerDiffs := s\<rparr>) (ds_call bt c (d_pendingStakerDiffs d))"
| "d_write bt inputID (AddSubnet tx) d = d_AddSubnet tx d"
| "d_write bt inputID (AddSubnetTransformation tx) d = d_AddSubnetTransformation tx d"
| "d_write bt inputID (AddChain tx) d = d_AddChain tx d"
| "d_write bt inputID (AddTx tx status) d = Some (d_AddTx tx status d)"
| "d_write bt inputID (AddRewardUTXO txID utxo) d = Some (d_AddRewardUTXO txID utxo d)"
| "d_write bt inputID (AddUTXO utxo) d = Some (d_AddUTXO inputID utxo d)"
| "d_write bt inputID (DeleteUTXO utxoID) d = Some (d_DeleteUTXO utxoID d)"
| "d_write bt inputID (SetFeePerWeightStored f) d = Some (d_SetFeePerWeightStored f d)"
| "d_write bt inputID (AddCurrentAccumulatedFee f) d = Some (d_AddCurrentAccumulatedFee f d)"
| "d_write bt inputID (SetLastAccumulatedFee f) d = Some (d_SetLastAccumulatedFee f d)"

text \<open>The getters that keep something, and the difference as a chain state that further blocks build on.\<close>

datatype chain_read = ReadStakeSyncTimestamp | ReadMintRate | ReadSubnets | ReadChains ID | ReadFeePerWeight | ReadAccumulatedFee | ReadLastFee

fun d_read :: "('pk, 'o, 'u) Versions \<Rightarrow> chain_read \<Rightarrow> ('pk, 't, 'o, 'u) diff \<Rightarrow> ('pk, 't, 'o, 'u) diff" where
  "d_read vs ReadStakeSyncTimestamp d = snd (d_GetStakeSyncTimestamp vs d)"
| "d_read vs ReadMintRate d = snd (d_GetStakerAccumulatedMintRate vs d)"
| "d_read vs ReadSubnets d = snd (d_GetSubnets vs d)"
| "d_read vs (ReadChains subnetID) d = snd (d_GetChains vs subnetID d)"
| "d_read vs ReadFeePerWeight d = snd (d_GetFeePerWeightStored vs d)"
| "d_read vs ReadAccumulatedFee d = snd (d_GetCurrentAccumulatedFee vs d)"
| "d_read vs ReadLastFee d = snd (d_GetLastAccumulatedFee vs d)"

definition diff_Chain :: "('pk, 't) btree \<Rightarrow> ('pk, 'o, 'u) Versions \<Rightarrow> ('pk, 't, 'o, 'u) diff \<Rightarrow> ('pk, 'o, 'u) Chain" where
  "diff_Chain bt vs d =
     \<lparr>GetTimestamp = d_timestamp d, GetStakeSyncTimestamp = fst (d_GetStakeSyncTimestamp vs d),
      GetStakerAccumulatedMintRate = fst (d_GetStakerAccumulatedMintRate vs d), GetCurrentSupply = (\<lambda>a. d_GetCurrentSupply vs a d),
      GetCurrentValidator = (\<lambda>a b. d_GetCurrentValidator vs a b d), GetDelegateeReward = (\<lambda>a b. d_GetDelegateeReward vs a b d),
      GetCurrentDelegatorIterator = (\<lambda>a b. d_GetCurrentDelegatorIterator bt vs a b d),
      GetCurrentStakerIterator = d_GetCurrentStakerIterator bt vs d, GetCurrentStakersLen = d_GetCurrentStakersLen vs d,
      GetPendingValidator = (\<lambda>a b. d_GetPendingValidator vs a b d),
      GetPendingDelegatorIterator = (\<lambda>a b. d_GetPendingDelegatorIterator bt vs a b d),
      GetPendingStakerIterator = d_GetPendingStakerIterator bt vs d, GetPendingStakersLen = d_GetPendingStakersLen vs d,
      GetSubnets = fst (d_GetSubnets vs d), GetSubnetOwner = (\<lambda>a. d_GetSubnetOwner vs a d),
      GetSubnetTransformation = (\<lambda>a. d_GetSubnetTransformation vs a d), GetChains = (\<lambda>a. fst (d_GetChains vs a d)),
      GetTx = (\<lambda>i. d_GetTx vs i d), GetRewardUTXOs = (\<lambda>i. d_GetRewardUTXOs vs i d), GetUTXO = (\<lambda>i. d_GetUTXO vs i d),
      GetFeePerWeightStored = fst (d_GetFeePerWeightStored vs d), GetCurrentAccumulatedFee = fst (d_GetCurrentAccumulatedFee vs d),
      GetLastAccumulatedFee = fst (d_GetLastAccumulatedFee vs d)\<rparr>"

subsection \<open>A difference shows the ledger of its writes\<close>

text \<open>What callers may write. The stakers are changed as \<^verbatim>\<open>Stakers_Refine\<close> says, the zero time is not a time to set, transactions have the type
  that their use says, and rewards are added under transactions for which the parent has none.\<close>

record staker_history =
  sh_seen :: "ID set"
  sh_gone :: "staker_at set"

definition sh_call :: "'pk staker_call \<Rightarrow> staker_history \<Rightarrow> staker_history" where
  "sh_call c h = \<lparr>sh_seen = see c (sh_seen h), sh_gone = leave c (sh_gone h)\<rparr>"

definition staker_call_ok :: "staker_history \<Rightarrow> 'pk staker_set \<Rightarrow> 'pk staker_call \<Rightarrow> bool" where
  "staker_call_ok h A c \<longleftrightarrow> call_ok (sh_seen h) A c \<and> never_readded (sh_gone h) [c]"

fun write_ok ::
  "('pk, 'o, 'u) ledger \<Rightarrow> staker_history \<Rightarrow> staker_history \<Rightarrow> ('pk, 'o, 'u) ledger \<Rightarrow> ('pk, 'o, 'u) chain_write \<Rightarrow> bool" where
  "write_ok L0 hc hp L (SetStakeSyncTimestamp t) \<longleftrightarrow> t \<noteq> 0"
| "write_ok L0 hc hp L (CurrentStaker c) \<longleftrightarrow> staker_call_ok hc (lg_current L) c"
| "write_ok L0 hc hp L (PendingStaker c) \<longleftrightarrow> staker_call_ok hp (lg_pending L) c"
| "write_ok L0 hc hp L (AddSubnet tx) \<longleftrightarrow> is_CreateSubnetTx (tx_Unsigned tx)"
| "write_ok L0 hc hp L (AddSubnetTransformation tx) \<longleftrightarrow> is_TransformSubnetTx (tx_Unsigned tx)"
| "write_ok L0 hc hp L (AddChain tx) \<longleftrightarrow> is_CreateChainTx (tx_Unsigned tx)"
| "write_ok L0 hc hp L (AddRewardUTXO i u) \<longleftrightarrow> lg_rewards L0 i = []"
| "write_ok L0 hc hp L _ \<longleftrightarrow> True"

definition over :: "'a option \<Rightarrow> 'a option \<Rightarrow> 'a option" where
  "over x y = (case x of None \<Rightarrow> y | Some _ \<Rightarrow> x)"

lemma over_simps [simp]: "over None y = y" "over (Some a) y = Some a"
  by (simp_all add: over_def)

text \<open>How each part of a difference stands between the value of the parent and the present one.\<close>

definition rep_val :: "'a option \<Rightarrow> 'a \<Rightarrow> 'a \<Rightarrow> bool" where
  "rep_val x old now \<longleftrightarrow> now = (case x of None \<Rightarrow> old | Some v \<Rightarrow> v)"

definition rep_time :: "int \<Rightarrow> int \<Rightarrow> int \<Rightarrow> bool" where
  "rep_time t old now \<longleftrightarrow> now = (if t = 0 then old else t)"

definition rep_fee :: "u64 \<Rightarrow> u64 option \<Rightarrow> u64 \<Rightarrow> u64 \<Rightarrow> bool" where
  "rep_fee extra cached old now \<longleftrightarrow> now = old + extra \<and> (\<forall>f. cached = Some f \<longrightarrow> f = old)"

definition owners_of :: "'o Tx list \<Rightarrow> ID \<Rightarrow> 'o option" where
  "owners_of txs = foldl (\<lambda>m tx. m(tx_ID tx \<mapsto> cs_Owner (tx_Unsigned tx))) Map.empty txs"

definition rep_owners :: "'o Tx list \<Rightarrow> (ID \<Rightarrow> 'o option) \<Rightarrow> (ID \<Rightarrow> 'o option) \<Rightarrow> (ID \<Rightarrow> 'o option) \<Rightarrow> bool" where
  "rep_owners fresh m old now \<longleftrightarrow> m = owners_of fresh \<and> (\<forall>k. now k = over (m k) (old k))"

definition rep_map :: "('k \<Rightarrow> 'v \<Rightarrow> bool) \<Rightarrow> ('k, 'v) gomap \<Rightarrow> ('k \<Rightarrow> 'v option) \<Rightarrow> ('k \<Rightarrow> 'v option) \<Rightarrow> bool" where
  "rep_map fits m old now \<longleftrightarrow> wf_gomap m \<and> (\<forall>(k, v) \<in> set m. fits k v) \<and> (\<forall>k. now k = over (map_of m k) (old k))"

definition rep_map2 :: "('a, 'b, 'v) gomap2 \<Rightarrow> ('a \<Rightarrow> 'b \<Rightarrow> 'v option) \<Rightarrow> ('a \<Rightarrow> 'b \<Rightarrow> 'v option) \<Rightarrow> bool" where
  "rep_map2 m old now \<longleftrightarrow> wf_gomap2 m \<and> (\<forall>a b. now a b = over (lookup2 m a b) (old a b))"

definition rep_utxos :: "('v \<Rightarrow> 'k) \<Rightarrow> ('k, 'v option) gomap \<Rightarrow> ('k \<Rightarrow> 'v option) \<Rightarrow> ('k \<Rightarrow> 'v option) \<Rightarrow> bool" where
  "rep_utxos inputID m old now \<longleftrightarrow> wf_gomap m \<and> (\<forall>k u. (k, Some u) \<in> set m \<longrightarrow> inputID u = k) \<and> (\<forall>k. now k = (case map_of m k of None \<Rightarrow> old k | Some x \<Rightarrow> x))"

definition rep_rewards :: "('k, 'v list) gomap \<Rightarrow> ('k \<Rightarrow> 'v list) \<Rightarrow> ('k \<Rightarrow> 'v list) \<Rightarrow> bool" where
  "rep_rewards m old now \<longleftrightarrow> wf_gomap m \<and> (\<forall>k. now k = old k @ list_at m k) \<and> (\<forall>k. map_of m k \<noteq> None \<longrightarrow> old k = [])"

definition rep_subnets :: "'o Tx list \<Rightarrow> 'o Tx list \<Rightarrow> 'o Tx list \<Rightarrow> 'o Tx list \<Rightarrow> bool" where
  "rep_subnets fresh cached old now \<longleftrightarrow> now = old @ fresh \<and> (cached \<noteq> [] \<longrightarrow> cached = now)
     \<and> (\<forall>tx \<in> set fresh. is_CreateSubnetTx (tx_Unsigned tx))"

definition rep_chains :: "(ID, 'o Tx list) gomap \<Rightarrow> (ID \<Rightarrow> 'o Tx list option) \<Rightarrow> (ID \<Rightarrow> 'o Tx list) \<Rightarrow> (ID \<Rightarrow> 'o Tx list) \<Rightarrow> bool" where
  "rep_chains fresh cached old now \<longleftrightarrow> wf_gomap fresh \<and> (\<forall>a. now a = old a @ list_at fresh a) \<and> (\<forall>a cs. cached a = Some cs \<longrightarrow> cs = now a)
     \<and> (\<forall>a. \<forall>tx \<in> set (list_at fresh a). tx_Unsigned tx = CreateChainTx a)"

definition d_rep ::
  "('pk, 't) btree \<Rightarrow> ('u \<Rightarrow> ID) \<Rightarrow> ('pk, 'o, 'u) ledger \<Rightarrow> staker_history \<Rightarrow> staker_history \<Rightarrow> ('pk, 't, 'o, 'u) diff \<Rightarrow> ('pk, 'o, 'u) ledger \<Rightarrow> bool" where
  "d_rep bt inputID L0 hc hp d L \<longleftrightarrow> lg_timestamp L = d_timestamp d
     \<and> rep_time (d_stakeSyncTimestamp d) (lg_stakeSync L0) (lg_stakeSync L)
     \<and> rep_val (d_stakerMintRate d) (lg_mintRate L0) (lg_mintRate L)
     \<and> rep_map (\<lambda>_ _. True) (d_currentSupply d) (lg_supply L0) (lg_supply L)
     \<and> rep_map2 (d_modifiedDelegateeRewards d) (lg_delegatee L0) (lg_delegatee L)
     \<and> diff_rep bt (lg_current L0) (sh_seen hc) (sh_gone hc) (d_currentStakerDiffs d) (lg_current L)
     \<and> diff_rep bt (lg_pending L0) (sh_seen hp) (sh_gone hp) (d_pendingStakerDiffs d) (lg_pending L)
     \<and> rep_subnets (d_addedSubnets d) (d_cachedSubnets d) (lg_subnets L0) (lg_subnets L)
     \<and> rep_owners (d_addedSubnets d) (d_subnetOwners d) (lg_owner L0) (lg_owner L)
     \<and> rep_map (\<lambda>a tx. is_TransformSubnetTx (tx_Unsigned tx) \<and> ts_Subnet (ts_tx (tx_Unsigned tx)) = a)
         (d_transformedSubnets d) (lg_transform L0) (lg_transform L)
     \<and> rep_chains (d_addedChains d) (d_cachedChains d) (lg_chains L0) (lg_chains L)
     \<and> rep_map (\<lambda>i (tx, st). tx_ID tx = i) (d_addedTxs d) (lg_txs L0) (lg_txs L)
     \<and> rep_rewards (d_addedRewardUTXOs d) (lg_rewards L0) (lg_rewards L)
     \<and> rep_utxos inputID (d_modifiedUTXOs d) (lg_utxos L0) (lg_utxos L)
     \<and> rep_val (d_feePerWeightStored d) (lg_feePerWeight L0) (lg_feePerWeight L)
     \<and> rep_fee (d_addAccumulatedFee d) (d_currentAccumulatedFeeCache d) (lg_fee L0) (lg_fee L)
     \<and> rep_val (d_lastAccumulatedFee d) (lg_lastFee L0) (lg_lastFee L)"

lemma update_twice: "AList.update k v (AList.update k w m) = AList.update k v m"
  by (induction m) auto

lemma SetDelegateeReward_eq:
  "d_SetDelegateeReward a b x d = d\<lparr>d_modifiedDelegateeRewards := update2 a b x (d_modifiedDelegateeRewards d)\<rparr>"
  by (auto simp: d_SetDelegateeReward_def update2_def update_twice split: option.splits)

lemma list_at_update [simp]: "list_at (AList.update k v m) k' = (if k' = k then v else list_at m k')"
  by (simp add: list_at_def)

lemma d_AddSubnet_eq:
  "is_CreateSubnetTx (tx_Unsigned tx) \<Longrightarrow> d_AddSubnet tx d = Some (d\<lparr>d_addedSubnets := d_addedSubnets d @ [tx],
     d_cachedSubnets := (if d_cachedSubnets d = [] then [] else d_cachedSubnets d @ [tx]),
     d_subnetOwners := (d_subnetOwners d)(tx_ID tx \<mapsto> cs_Owner (tx_Unsigned tx))\<rparr>)"
  by (cases "tx_Unsigned tx") (simp_all add: d_AddSubnet_def)

lemma d_AddSubnetTransformation_eq:
  "is_TransformSubnetTx (tx_Unsigned tx) \<Longrightarrow> d_AddSubnetTransformation tx d =
     Some (d\<lparr>d_transformedSubnets := AList.update (ts_Subnet (ts_tx (tx_Unsigned tx))) tx (d_transformedSubnets d)\<rparr>)"
  by (cases "tx_Unsigned tx") (simp_all add: d_AddSubnetTransformation_def)

lemma d_AddChain_eq:
  "is_CreateChainTx (tx_Unsigned tx) \<Longrightarrow> a = cc_SubnetID (tx_Unsigned tx) \<Longrightarrow> d_AddChain tx d =
     Some (d\<lparr>d_addedChains := AList.update a (list_at (d_addedChains d) a @ [tx]) (d_addedChains d),
       d_cachedChains := (d_cachedChains d)(a := map_option (\<lambda>cs. cs @ [tx]) (d_cachedChains d a))\<rparr>)"
  by (cases "tx_Unsigned tx") (simp_all add: d_AddChain_def Let_def fun_upd_idem split: option.split)

lemmas d_write_eqs = SetDelegateeReward_eq d_AddSubnet_eq d_AddSubnetTransformation_eq d_AddChain_eq [OF _ refl]

lemma set_updateD: "(k', v') \<in> set (AList.update k v m) \<Longrightarrow> k' = k \<and> v' = v \<or> (k', v') \<in> set m"
  using set_update_subset [of k v m] by blast

lemma rep_writes:
  "rep_val (Some v) oldv v"
  "t \<noteq> 0 \<Longrightarrow> rep_time t oldt t"
  "rep_fee extra cached old now \<Longrightarrow> rep_fee (extra + f) cached old (now + f)"
  "rep_owners fresh m old0 now0 \<Longrightarrow> rep_owners (fresh @ [tx]) (m(tx_ID tx \<mapsto> cs_Owner (tx_Unsigned tx))) old0 (now0(tx_ID tx \<mapsto> cs_Owner (tx_Unsigned tx)))"
  "rep_map fits s old1 now1 \<Longrightarrow> fits k1 v1 \<Longrightarrow> rep_map fits (AList.update k1 v1 s) old1 (now1(k1 \<mapsto> v1))"
  "rep_utxos inputID us old3 now3 \<Longrightarrow> rep_utxos inputID (AList.update (inputID z) (Some z) us) old3 (now3(inputID z \<mapsto> z))"
  "rep_utxos inputID us old3 now3 \<Longrightarrow> rep_utxos inputID (AList.update i None us) old3 (now3(i := None))"
  "rep_rewards rs old4 now4 \<Longrightarrow> old4 j = [] \<Longrightarrow> rep_rewards (AList.update j (list_at rs j @ [u]) rs) old4 (now4(j := now4 j @ [u]))"
  by (auto simp: rep_val_def rep_time_def rep_fee_def rep_owners_def owners_of_def rep_map_def rep_utxos_def rep_rewards_def
    intro: wf_gomap_update dest: set_updateD)

lemma rep_map2_write: "rep_map2 m old now \<Longrightarrow> rep_map2 (update2 a b v m) old (now(a := (now a)(b \<mapsto> v)))"
  unfolding rep_map2_def using wf_gomap2_update2 [of m a b v] by auto

lemma rep_subnets_write:
  "rep_subnets fresh cached old now \<Longrightarrow> is_CreateSubnetTx (tx_Unsigned tx) \<Longrightarrow>
   rep_subnets (fresh @ [tx]) (if cached = [] then [] else cached @ [tx]) old (now @ [tx])"
  by (auto simp: rep_subnets_def)

lemma rep_chains_write:
  "rep_chains fresh cached old now \<Longrightarrow> tx_Unsigned tx = CreateChainTx a \<Longrightarrow>
   rep_chains (AList.update a (list_at fresh a @ [tx]) fresh) (cached(a := map_option (\<lambda>cs. cs @ [tx]) (cached a))) old (now(a := now a @ [tx]))"
  by (auto simp: rep_chains_def intro: wf_gomap_update)

text \<open>The history of the stakers after a write.\<close>

fun hist_current :: "('pk, 'o, 'u) chain_write \<Rightarrow> staker_history \<Rightarrow> staker_history" where
  "hist_current (CurrentStaker c) h = sh_call c h"
| "hist_current _ h = h"

fun hist_pending :: "('pk, 'o, 'u) chain_write \<Rightarrow> staker_history \<Rightarrow> staker_history" where
  "hist_pending (PendingStaker c) h = sh_call c h"
| "hist_pending _ h = h"

lemma staker_write:
  assumes "btree_ok bt" "diff_rep bt A0 (sh_seen h) (sh_gone h) d A" "staker_call_ok h A c"
  shows "\<exists>d'. ds_call bt c d = Some d' \<and> diff_rep bt A0 (sh_seen (sh_call c h)) (sh_gone (sh_call c h)) d' (ss_call c A)"
  using diff_call [OF assms(1,2), of c "[]"] assms(3) by (simp add: staker_call_ok_def sh_call_def)

lemma d_rep_write:
  assumes "btree_ok bt" "d_rep bt inputID L0 hc hp d L" "write_ok L0 hc hp L w"
  shows "\<exists>d'. d_write bt inputID w d = Some d' \<and> d_rep bt inputID L0 (hist_current w hc) (hist_pending w hp) d' (lg_write inputID w L)
    \<and> d_parentID d' = d_parentID d"
proof (cases w)
  case (CurrentStaker c)
  with assms staker_write [OF assms(1), of "lg_current L0" hc "d_currentStakerDiffs d" "lg_current L" c] show ?thesis
    by (auto simp: d_rep_def)
next
  case (PendingStaker c)
  with assms staker_write [OF assms(1), of "lg_pending L0" hp "d_pendingStakerDiffs d" "lg_pending L" c] show ?thesis
    by (auto simp: d_rep_def)
next
  case (AddChain tx)
  then have "tx_Unsigned tx = CreateChainTx (cc_SubnetID (tx_Unsigned tx))" using assms(3) by simp
  with AddChain assms show ?thesis by (simp add: d_rep_def d_write_eqs rep_chains_write Let_def)
qed (use assms in \<open>simp_all add: d_rep_def d_write_eqs rep_writes rep_map2_write rep_subnets_write\<close>)

lemma ask_parent: "vs (d_parentID d) = Some P \<Longrightarrow> ask vs d f = f P"
  by (simp add: ask_def)

lemma shows_ledgerD:
  assumes "shows_ledger C L"
  shows "GetTimestamp C = lg_timestamp L" "GetStakeSyncTimestamp C = Inr (lg_stakeSync L)"
    "GetStakerAccumulatedMintRate C = Inr (lg_mintRate L)" "GetCurrentSupply C a = found (lg_supply L a)"
    "GetDelegateeReward C a b = found (lg_delegatee L a b)"
    "stakers_shown (GetCurrentValidator C) (GetCurrentDelegatorIterator C) (GetCurrentStakerIterator C) (lg_current L)"
    "stakers_shown (GetPendingValidator C) (GetPendingDelegatorIterator C) (GetPendingStakerIterator C) (lg_pending L)"
    "GetSubnets C = Inr (lg_subnets L)"
    "case lg_owner L a of None \<Rightarrow> (\<exists>e. GetSubnetOwner C a = Inl e) | Some owner \<Rightarrow> GetSubnetOwner C a = Inr owner"
    "GetSubnetTransformation C a = found (lg_transform L a)" "GetChains C a = Inr (lg_chains L a)"
    "GetTx C i = found (lg_txs L i)" "GetRewardUTXOs C i = Inr (lg_rewards L i)" "GetUTXO C i = found (lg_utxos L i)"
    "GetFeePerWeightStored C = Inr (lg_feePerWeight L)" "GetCurrentAccumulatedFee C = Inr (lg_fee L)"
    "GetLastAccumulatedFee C = Inr (lg_lastFee L)"
  using assms unfolding shows_ledger_def by (elim conjE; (assumption | (erule allE, assumption) | fast))+

text \<open>Getters that keep an answer do not change what the difference stands for.\<close>

lemma d_rep_read:
  assumes "d_rep bt inputID L0 hc hp d L" "vs (d_parentID d) = Some P" "shows_ledger P L0"
  shows "d_rep bt inputID L0 hc hp (d_read vs r d) L \<and> d_parentID (d_read vs r d) = d_parentID d"
proof (cases r)
  case ReadStakeSyncTimestamp
  with assms(1,2) shows_ledgerD(2) [OF assms(3)] show ?thesis
    by (simp add: d_GetStakeSyncTimestamp_def d_rep_def rep_time_def)
next
  case ReadMintRate
  with assms(1,2) shows_ledgerD(3) [OF assms(3)] show ?thesis
    by (auto simp: d_GetStakerAccumulatedMintRate_def d_rep_def rep_val_def split: option.split)
next
  case ReadSubnets
  with assms(1,2) shows_ledgerD(8) [OF assms(3)] show ?thesis
    by (auto simp: d_GetSubnets_def d_rep_def rep_subnets_def ask_parent Let_def)
next
  case (ReadChains a)
  with assms(1,2) shows_ledgerD(11) [OF assms(3)] show ?thesis
    by (auto simp: d_GetChains_def d_rep_def rep_chains_def ask_parent Let_def split: option.split)
next
  case ReadFeePerWeight
  with assms(1,2) shows_ledgerD(15) [OF assms(3)] show ?thesis
    by (auto simp: d_GetFeePerWeightStored_def d_rep_def rep_val_def split: option.split)
next
  case ReadAccumulatedFee
  with assms(1,2) shows_ledgerD(16) [OF assms(3)] show ?thesis
    by (auto simp: d_GetCurrentAccumulatedFee_def d_rep_def rep_fee_def split: option.split)
next
  case ReadLastFee
  with assms(1,2) shows_ledgerD(17) [OF assms(3)] show ?thesis
    by (auto simp: d_GetLastAccumulatedFee_def d_rep_def rep_val_def split: option.split)
qed

definition ok :: "chain_error + 'a \<Rightarrow> 'a option" where
  "ok r = (case r of Inl _ \<Rightarrow> None | Inr x \<Rightarrow> Some x)"

lemma ok_simps [simp]: "ok (found x) = x" "ok (Inr y) = Some y"
  by (cases x) (simp_all add: ok_def)

lemma returned_simps [simp]: "returned (Some x) = Inr x" "returned None = Inl Hangs"
  by (simp_all add: returned_def)

text \<open>Stakers, read through the difference.\<close>

lemma stakers_through:
  assumes "diff_rep bt A0 seen gone ds A" "stakers_shown V D S A0"
  shows "stakers_shown
    (\<lambda>a b. case ds_GetValidator a b ds of
        (newValidator, added) \<Rightarrow> (case newValidator of None \<Rightarrow> Inl ErrNotFound | Some s \<Rightarrow> Inr s)
      | (_, deleted) \<Rightarrow> Inl ErrNotFound | (_, unmodified) \<Rightarrow> V a b)
    (\<lambda>a b. res_bind (D a b) (\<lambda>it. returned (ds_GetDelegatorIterator bt it a b ds)))
    (res_bind S (\<lambda>it. returned (ds_GetStakerIterator bt it ds))) A"
proof -
  let ?V = "\<lambda>a b. ok (V a b)" and ?D = "\<lambda>a b. ok (D a b)" and ?S = "ok S"
  have V: "V a b = found (ss_vals A0 (a, b))" for a b using assms(2) by (simp add: stakers_shown_def)
  have D: "\<exists>it. D a b = Inr it \<and> lists it (ss_dels A0 (a, b))" for a b using assms(2) by (simp add: stakers_shown_def)
  obtain it where S: "S = Inr it" "lists it (ss_all A0)" using assms(2) by (auto simp: stakers_shown_def)
  have "\<exists>it. ok (D a b) = Some it \<and> lists it (ss_dels A0 (a, b))" for a b using D [of a b] by force
  with V S have "reads_as ?V ?D ?S A0" by (simp add: reads_as_def)
  note r = diff_reads [OF assms(1) this, unfolded reads_as_def]
  have "(case ds_GetValidator a b ds of
        (newValidator, added) \<Rightarrow> (case newValidator of None \<Rightarrow> Inl ErrNotFound | Some s \<Rightarrow> Inr s)
      | (_, deleted) \<Rightarrow> Inl ErrNotFound | (_, unmodified) \<Rightarrow> V a b) = found (read_validator ?V ds a b)" for a b
    by (auto simp: read_validator_def V split: prod.split diffValidatorStatus.split option.split)
  moreover have "\<exists>it. res_bind (D a b) (\<lambda>it. returned (ds_GetDelegatorIterator bt it a b ds)) = Inr it \<and> lists it (ss_dels A (a, b))" for a b
    using r D [of a b] by (metis bind.bind_lunit ok_simps(2) res_bind_simps(2) returned_simps(1))
  moreover have "\<exists>it. res_bind S (\<lambda>it. returned (ds_GetStakerIterator bt it ds)) = Inr it \<and> lists it (ss_all A)"
    using r S by auto
  ultimately show ?thesis using r by (simp add: stakers_shown_def)
qed

lemma d_shows:
  assumes "d_rep bt inputID L0 hc hp d L" "vs (d_parentID d) = Some P" "shows_ledger P L0"
  shows "shows_ledger (diff_Chain bt vs d) L"
proof -
  note r = assms(1) [unfolded d_rep_def] and g = shows_ledgerD [OF assms(3)] and p = assms(2)
  let ?C = "diff_Chain bt vs d"
  have v: "GetTimestamp ?C = lg_timestamp L" "GetStakeSyncTimestamp ?C = Inr (lg_stakeSync L)" "GetStakerAccumulatedMintRate ?C = Inr (lg_mintRate L)"
    "GetFeePerWeightStored ?C = Inr (lg_feePerWeight L)" "GetCurrentAccumulatedFee ?C = Inr (lg_fee L)" "GetLastAccumulatedFee ?C = Inr (lg_lastFee L)"
    using r g(2,3,15,16,17) p
    by (auto simp: diff_Chain_def d_GetStakeSyncTimestamp_def d_GetStakerAccumulatedMintRate_def d_GetFeePerWeightStored_def
      d_GetCurrentAccumulatedFee_def d_GetLastAccumulatedFee_def rep_time_def rep_val_def rep_fee_def split: option.splits)
  have m: "GetCurrentSupply ?C a = found (lg_supply L a)" "GetDelegateeReward ?C a b = found (lg_delegatee L a b)"
    "GetSubnetTransformation ?C a = found (lg_transform L a)" "GetTx ?C a = found (lg_txs L a)" "GetUTXO ?C a = found (lg_utxos L a)"
    "GetRewardUTXOs ?C a = Inr (lg_rewards L a)" for a b
    using r g(4,5,10,12,13,14) p
    by (auto simp: diff_Chain_def d_GetCurrentSupply_def d_GetDelegateeReward_def d_GetSubnetTransformation_def d_GetTx_def d_GetUTXO_def
      d_GetRewardUTXOs_def rep_map_def rep_map2_def rep_utxos_def rep_rewards_def list_at_def ask_parent split: option.splits)
  have l: "GetSubnets ?C = Inr (lg_subnets L)" "GetChains ?C a = Inr (lg_chains L a)" for a
    using r g(8,11) p
    by (auto simp: diff_Chain_def d_GetSubnets_def d_GetChains_def rep_subnets_def rep_chains_def ask_parent Let_def split: option.splits)
  have o: "case lg_owner L a of None \<Rightarrow> (\<exists>e. GetSubnetOwner ?C a = Inl e) | Some owner \<Rightarrow> GetSubnetOwner ?C a = Inr owner" for a
    using r g(9) [of a] p by (auto simp: diff_Chain_def d_GetSubnetOwner_def rep_owners_def ask_parent split: option.splits)
  have s: "stakers_shown (GetCurrentValidator ?C) (GetCurrentDelegatorIterator ?C) (GetCurrentStakerIterator ?C) (lg_current L)"
    "stakers_shown (GetPendingValidator ?C) (GetPendingDelegatorIterator ?C) (GetPendingStakerIterator ?C) (lg_pending L)"
    unfolding diff_Chain_def Chain.simps d_GetCurrentValidator_def d_GetPendingValidator_def d_GetValidator_def
      d_GetCurrentDelegatorIterator_def d_GetPendingDelegatorIterator_def d_GetCurrentStakerIterator_def d_GetPendingStakerIterator_def
      ask_parent [of vs d, OF p]
    using r by (blast intro: stakers_through [OF _ g(6)] stakers_through [OF _ g(7)])+
  show ?thesis unfolding shows_ledger_def using v m l o s by blast
qed

subsection \<open>Sequences of calls\<close>

datatype ('pk, 'o, 'u) chain_event = Wr "('pk, 'o, 'u) chain_write" | Rd chain_read

fun d_run ::
  "('pk, 't) btree \<Rightarrow> ('u \<Rightarrow> ID) \<Rightarrow> ('pk, 'o, 'u) Versions \<Rightarrow> ('pk, 'o, 'u) chain_event list \<Rightarrow> ('pk, 't, 'o, 'u) diff
     \<Rightarrow> ('pk, 't, 'o, 'u) diff option" where
  "d_run bt inputID vs [] d = Some d"
| "d_run bt inputID vs (Wr w # es) d = Option.bind (d_write bt inputID w d) (d_run bt inputID vs es)"
| "d_run bt inputID vs (Rd r # es) d = d_run bt inputID vs es (d_read vs r d)"

fun writes_in :: "('pk, 'o, 'u) chain_event list \<Rightarrow> ('pk, 'o, 'u) chain_write list" where
  "writes_in [] = []"
| "writes_in (Wr w # es) = w # writes_in es"
| "writes_in (Rd r # es) = writes_in es"

fun writes_ok ::
  "('u \<Rightarrow> ID) \<Rightarrow> ('pk, 'o, 'u) ledger \<Rightarrow> staker_history \<Rightarrow> staker_history \<Rightarrow> ('pk, 'o, 'u) ledger \<Rightarrow> ('pk, 'o, 'u) chain_write list \<Rightarrow> bool" where
  "writes_ok inputID L0 hc hp L [] \<longleftrightarrow> True"
| "writes_ok inputID L0 hc hp L (w # ws) \<longleftrightarrow> write_ok L0 hc hp L w
     \<and> writes_ok inputID L0 (hist_current w hc) (hist_pending w hp) (lg_write inputID w L) ws"

lemma d_rep_run:
  assumes "btree_ok bt" "shows_ledger P L0"
  shows "d_rep bt inputID L0 hc hp d L \<Longrightarrow> vs (d_parentID d) = Some P \<Longrightarrow> writes_ok inputID L0 hc hp L (writes_in es) \<Longrightarrow>
    \<exists>d' hc' hp'. d_run bt inputID vs es d = Some d' \<and> d_rep bt inputID L0 hc' hp' d' (lg_run inputID (writes_in es) L) \<and> vs (d_parentID d') = Some P"
proof (induction es arbitrary: d L hc hp)
  case (Cons e es)
  show ?case
  proof (cases e)
    case (Wr w)
    then obtain d' where "d_write bt inputID w d = Some d'" "d_rep bt inputID L0 (hist_current w hc) (hist_pending w hp) d' (lg_write inputID w L)"
      "d_parentID d' = d_parentID d"
      using d_rep_write [OF assms(1) Cons.prems(1), of w] Cons.prems(3) by auto
    with Wr Cons.IH [of "hist_current w hc" "hist_pending w hp" d'] Cons.prems show ?thesis by simp
  next
    case (Rd r)
    with Cons.IH [of hc hp "d_read vs r d" L] d_rep_read [where vs = vs and r = r, OF Cons.prems(1,2) assms(2)] Cons.prems show ?thesis by simp
  qed
qed auto

text \<open>The history of a difference starts with the stakers of the parent.\<close>

abbreviation start_of :: "'pk staker_set \<Rightarrow> staker_history" where
  "start_of A \<equiv> \<lparr>sh_seen = ids_of A, sh_gone = {}\<rparr>"

definition ledger_sound :: "('pk, 'o, 'u) ledger \<Rightarrow> bool" where
  "ledger_sound L \<longleftrightarrow> sound (lg_current L) \<and> sound (lg_pending L)"

lemma d_rep_New:
  assumes "NewDiff i vs = Inr d" "vs i = Some P" "shows_ledger P L0" "ledger_sound L0"
  shows "d_rep bt inputID L0 (start_of (lg_current L0)) (start_of (lg_pending L0)) d L0 \<and> d_parentID d = i"
proof -
  have d: "d = \<lparr>d_parentID = i, d_timestamp = GetTimestamp P, d_stakeSyncTimestamp = 0,
          d_currentSupply = [], d_currentStakerDiffs = new_diffStakers, d_modifiedDelegateeRewards = [],
          d_pendingStakerDiffs = new_diffStakers, d_addedSubnets = [], d_subnetOwners = Map.empty, d_transformedSubnets = [],
          d_cachedSubnets = [], d_addedChains = [], d_cachedChains = Map.empty, d_addedRewardUTXOs = [], d_addedTxs = [],
          d_modifiedUTXOs = [], d_stakerMintRate = None, d_feePerWeightStored = None, d_addAccumulatedFee = 0,
          d_currentAccumulatedFeeCache = None, d_lastAccumulatedFee = None\<rparr>" using assms(1,2) by (simp add: NewDiff_def)
  show ?thesis
    using shows_ledgerD(1) [OF assms(3)] assms(4) diff_rep_new [of "lg_current L0" "ids_of (lg_current L0)" bt "{}"]
      diff_rep_new [of "lg_pending L0" "ids_of (lg_pending L0)" bt "{}"]
    by (simp add: d d_rep_def rep_time_def rep_val_def rep_map_def rep_map2_def rep_subnets_def rep_owners_def owners_of_def rep_chains_def rep_rewards_def
      rep_utxos_def rep_fee_def list_at_def ledger_sound_def)
qed

lemma d_rep_sound: "d_rep bt inputID L0 hc hp d L \<Longrightarrow> ledger_sound L"
  using diff_repD(7) sound_wf unfolding d_rep_def ledger_sound_def by blast

text \<open>(C11) A difference shows the state of its parent with its own changes. Take any parent whose answers show a ledger, and any sequence of getters and setters
  called on a new difference, where the callers keep to these rules: stakers are added under new transactions, a validator only where there is none and where the difference has
  removed none; only stakers that are there are deleted; the stake sync time is not zero; subnets, transformations and chains are added with transactions of their type; and reward
  UTXOs are added under transactions for which the parent has none. Then no call panics or hangs, and every getter of the difference but two answers with the ledger that the setters make of the ledger of the parent.
  The two are the numbers of current and of pending stakers: the difference answers them with the numbers of the parent, whatever stakers it has added or deleted.
  This holds for differences over differences, since the difference is again a chain state that shows a ledger.\<close>

theorem diff_shows_ledger:
  fixes bt :: "('pk, 't) btree" and P :: "('pk, 'o, 'u) Chain"
  assumes "btree_ok bt" "vs i = Some P" "shows_ledger P L0" "ledger_sound L0"
    and "writes_ok inputID L0 (start_of (lg_current L0)) (start_of (lg_pending L0)) L0 (writes_in es)" "L = lg_run inputID (writes_in es) L0"
  shows "\<exists>d0 d. NewDiff i vs = Inr d0 \<and> d_run bt inputID vs es d0 = Some d \<and> shows_ledger (diff_Chain bt vs d) L \<and> ledger_sound L
    \<and> GetCurrentStakersLen (diff_Chain bt vs d) = GetCurrentStakersLen P \<and> GetPendingStakersLen (diff_Chain bt vs d) = GetPendingStakersLen P"
proof -
  obtain d0 :: "('pk, 't, 'o, 'u) diff" where d0: "NewDiff i vs = Inr d0" using assms(2) by (simp add: NewDiff_def)
  have r0: "d_rep bt inputID L0 (start_of (lg_current L0)) (start_of (lg_pending L0)) d0 L0" "vs (d_parentID d0) = Some P"
    using d_rep_New [OF d0 assms(2-4), of bt inputID] assms(2) by auto
  obtain d hc hp where d: "d_run bt inputID vs es d0 = Some d" "d_rep bt inputID L0 hc hp d L" "vs (d_parentID d) = Some P"
    using d_rep_run [where vs = vs, OF assms(1,3) r0 assms(5)] assms(6) by blast
  have "GetCurrentStakersLen (diff_Chain bt vs d) = GetCurrentStakersLen P" "GetPendingStakersLen (diff_Chain bt vs d) = GetPendingStakersLen P"
    by (simp_all add: diff_Chain_def d_GetCurrentStakersLen_def d_GetPendingStakersLen_def ask_parent d(3))
  with d_shows [where vs = vs, OF d(2,3) assms(3)] d0 d(1) d_rep_sound [OF d(2)] show ?thesis by blast
qed

text \<open>A chain without anything, and a difference that adds a subnet and a validator. Owners are numbers, a UTXO is its identifier.\<close>

definition empty_ledger :: "(unit, nat, ID) ledger" where
  "empty_ledger = \<lparr>lg_timestamp = 1, lg_stakeSync = 1, lg_mintRate = 0, lg_supply = [replicate 32 0 \<mapsto> 7], lg_delegatee = (\<lambda>_ _. None), lg_current = no_stakers, lg_pending = no_stakers,
     lg_subnets = [], lg_owner = Map.empty, lg_transform = Map.empty, lg_chains = (\<lambda>_. []), lg_txs = Map.empty, lg_rewards = (\<lambda>_. []), lg_utxos = Map.empty,
     lg_feePerWeight = 0, lg_fee = 0, lg_lastFee = 0\<rparr>"

definition empty_Chain :: "(unit, nat, ID) Chain" where
  "empty_Chain = \<lparr>GetTimestamp = 1, GetStakeSyncTimestamp = Inr 1, GetStakerAccumulatedMintRate = Inr 0, GetCurrentSupply = (\<lambda>a. found (lg_supply empty_ledger a)),
     GetCurrentValidator = (\<lambda>_ _. Inl ErrNotFound), GetDelegateeReward = (\<lambda>_ _. Inl ErrNotFound), GetCurrentDelegatorIterator = (\<lambda>_ _. Inr EmptyIterator),
     GetCurrentStakerIterator = Inr EmptyIterator, GetCurrentStakersLen = Inr 0, GetPendingValidator = (\<lambda>_ _. Inl ErrNotFound),
     GetPendingDelegatorIterator = (\<lambda>_ _. Inr EmptyIterator), GetPendingStakerIterator = Inr EmptyIterator, GetPendingStakersLen = Inr 0,
     GetSubnets = Inr [], GetSubnetOwner = (\<lambda>_. Inl ErrCantFindSubnet), GetSubnetTransformation = (\<lambda>_. Inl ErrNotFound), GetChains = (\<lambda>_. Inr []),
     GetTx = (\<lambda>_. Inl ErrNotFound), GetRewardUTXOs = (\<lambda>_. Inr []), GetUTXO = (\<lambda>_. Inl ErrNotFound), GetFeePerWeightStored = Inr 0,
     GetCurrentAccumulatedFee = Inr 0, GetLastAccumulatedFee = Inr 0\<rparr>"

definition sample_subnet :: "nat Tx" where
  "sample_subnet = \<lparr>tx_ID = [5], tx_Unsigned = CreateSubnetTx 4\<rparr>"

abbreviation sample_validator :: "unit Staker" where
  "sample_validator \<equiv> sample_staker 1 PrimaryNetworkValidatorCurrentPriority"

definition sample_events :: "(unit, nat, ID) chain_event list" where
  "sample_events = [Wr (SetTimestamp 9), Rd ReadSubnets, Wr (AddSubnet sample_subnet), Wr (AddTx sample_subnet Committed), Rd ReadAccumulatedFee, Wr (AddCurrentAccumulatedFee 3),
     Wr (AddUTXO [3]), Wr (CurrentStaker (PutValidator sample_validator))]"

lemma empty_shown: "shows_ledger empty_Chain empty_ledger"
proof -
  have "stakers_shown (\<lambda>_ _. Inl ErrNotFound) (\<lambda>_ _. Inr EmptyIterator) (Inr EmptyIterator) no_stakers"
    by (simp add: stakers_shown_def no_stakers_def ss_all_def lists_empty)
  then show ?thesis by (simp add: shows_ledger_def empty_Chain_def empty_ledger_def)
qed

lemma sample_writes_ok:
  "writes_ok id empty_ledger (start_of (lg_current empty_ledger)) (start_of (lg_pending empty_ledger)) empty_ledger (writes_in sample_events)"
  by (simp add: sample_events_def empty_ledger_def sample_subnet_def no_stakers_def sample_staker_def place_def staker_call_ok_def ss_all_def)

theorem diff_shows_ledger_witness:
  "\<exists>d0 d. NewDiff [8] [[8] \<mapsto> empty_Chain] = Inr d0 \<and> d_run list_btree id [[8] \<mapsto> empty_Chain] sample_events d0 = Some d
    \<and> GetTimestamp (diff_Chain list_btree [[8] \<mapsto> empty_Chain] d) = 9
    \<and> GetSubnets (diff_Chain list_btree [[8] \<mapsto> empty_Chain] d) = Inr [sample_subnet]
    \<and> GetSubnetOwner (diff_Chain list_btree [[8] \<mapsto> empty_Chain] d) [5] = Inr 4
    \<and> GetCurrentValidator (diff_Chain list_btree [[8] \<mapsto> empty_Chain] d) [0] [7] = Inr sample_validator
    \<and> GetCurrentAccumulatedFee (diff_Chain list_btree [[8] \<mapsto> empty_Chain] d) = Inr 3
    \<and> GetUTXO (diff_Chain list_btree [[8] \<mapsto> empty_Chain] d) [3] = Inr [3]"
proof -
  have bt: "btree_ok list_btree" by (simp add: btree_ok_def list_btree_def)
  have sound: "ledger_sound empty_ledger" using sound_wf [OF ss_wf_none] by (simp add: ledger_sound_def empty_ledger_def)
  define L where "L = lg_run id (writes_in sample_events) empty_ledger"
  have vs: "[[8 :: u8] \<mapsto> empty_Chain] [8] = Some empty_Chain" by simp
  have L: "lg_timestamp L = 9" "lg_subnets L = [sample_subnet]" "lg_owner L [5] = Some 4" "ss_vals (lg_current L) ([0], [7]) = Some sample_validator"
    "lg_fee L = 3" "lg_utxos L [3] = Some [3]"
    by (simp_all add: L_def sample_events_def empty_ledger_def sample_subnet_def no_stakers_def sample_staker_def place_def)
  obtain d0 d where d: "NewDiff [8] [[8] \<mapsto> empty_Chain] = Inr d0" "d_run list_btree id [[8] \<mapsto> empty_Chain] sample_events d0 = Some d"
    "shows_ledger (diff_Chain list_btree [[8] \<mapsto> empty_Chain] d) L"
    using diff_shows_ledger [where vs = "[[8] \<mapsto> empty_Chain]" and i = "[8]", OF bt vs empty_shown sound sample_writes_ok L_def] by blast
  have "GetSubnetOwner (diff_Chain list_btree [[8] \<mapsto> empty_Chain] d) [5] = Inr 4" using shows_ledgerD(9) [OF d(3), of "[5]"] by (simp add: L)
  moreover have "GetCurrentValidator (diff_Chain list_btree [[8] \<mapsto> empty_Chain] d) [0] [7] = Inr sample_validator"
    using shows_ledgerD(6) [OF d(3)] by (simp add: stakers_shown_def L)
  ultimately show ?thesis using d(1,2) shows_ledgerD(1,8,14,16) [OF d(3)] by (auto simp: L)
qed

end
