(* ===== verification/Validator_Metadata.thy ===== *)
theory Validator_Metadata
  imports Stakers
begin

text \<open>
  The uptime and the rewards of the validators, \<^verbatim>\<open>vms/omegavm/state/validator_metadata.go\<close>: what was loaded, by node and subnet, and which of it was
  updated since it was last written. A set of subnets is a map to the unit. The entries are pointers that nothing else keeps, so an entry is a value
  that is updated in place. A database that is written is the list of the writes; writing to it may fail.
  The runs below are those with databases that accept every put; there a setter that is refused, since the validator is not loaded, leaves the state as it is.
\<close>

declare split_paired_All [simp del] split_paired_Ex [simp del]

subsection \<open>Operations\<close>

record validatorMetadata =
  vm_UpDuration :: int
  vm_LastUpdated :: u64
  vm_PotentialReward :: u64
  vm_PotentialDelegateeReward :: u64
  vm_MintRateBytes :: "u8 list"
  vm_FeePerWeightPaidBytes :: "u8 list"
  vm_txID :: ID
  vm_lastUpdated :: int

record validatorState =
  ms_metadata :: "(NodeID, ID, validatorMetadata) gomap2"
  ms_updatedMetadata :: "(NodeID, ID, unit) gomap2"

definition newValidatorState :: validatorState where
  "newValidatorState = \<lparr>ms_metadata = [], ms_updatedMetadata = []\<rparr>"

definition LoadValidatorMetadata :: "NodeID \<Rightarrow> ID \<Rightarrow> validatorMetadata \<Rightarrow> validatorState \<Rightarrow> validatorState" where
  "LoadValidatorMetadata vdrID subnetID uptime m =
     (let subnetMetadata = (case map_of (ms_metadata m) vdrID of None \<Rightarrow> [] | Some n \<Rightarrow> n)
      in m\<lparr>ms_metadata := AList.update vdrID (AList.update subnetID uptime subnetMetadata) (ms_metadata m)\<rparr>)"

definition addUpdatedMetadata :: "NodeID \<Rightarrow> ID \<Rightarrow> validatorState \<Rightarrow> validatorState" where
  "addUpdatedMetadata vdrID subnetID m =
     (let updatedSubnetMetadata = (case map_of (ms_updatedMetadata m) vdrID of None \<Rightarrow> [] | Some n \<Rightarrow> n)
      in m\<lparr>ms_updatedMetadata := AList.update vdrID (AList.update subnetID () updatedSubnetMetadata) (ms_updatedMetadata m)\<rparr>)"

definition GetUptime :: "NodeID \<Rightarrow> ID \<Rightarrow> validatorState \<Rightarrow> (int \<times> int) option" where
  "GetUptime vdrID subnetID m =
     map_option (\<lambda>metadata. (vm_UpDuration metadata, vm_lastUpdated metadata)) (lookup2 (ms_metadata m) vdrID subnetID)"

definition SetUptime :: "NodeID \<Rightarrow> ID \<Rightarrow> int \<Rightarrow> int \<Rightarrow> validatorState \<Rightarrow> validatorState option" where
  "SetUptime vdrID subnetID upDuration lastUpdated m =
     (case lookup2 (ms_metadata m) vdrID subnetID of
        None \<Rightarrow> None
      | Some metadata \<Rightarrow> Some (addUpdatedMetadata vdrID subnetID
          (m\<lparr>ms_metadata := update2 vdrID subnetID (metadata\<lparr>vm_UpDuration := upDuration, vm_lastUpdated := lastUpdated\<rparr>) (ms_metadata m)\<rparr>)))"

definition GetPotentialDelegateeReward :: "ID \<Rightarrow> NodeID \<Rightarrow> validatorState \<Rightarrow> u64 option" where
  "GetPotentialDelegateeReward subnetID vdrID m = map_option vm_PotentialDelegateeReward (lookup2 (ms_metadata m) vdrID subnetID)"

definition SetPotentialDelegateeReward :: "ID \<Rightarrow> NodeID \<Rightarrow> u64 \<Rightarrow> validatorState \<Rightarrow> validatorState option" where
  "SetPotentialDelegateeReward subnetID vdrID amount m =
     (case lookup2 (ms_metadata m) vdrID subnetID of
        None \<Rightarrow> None
      | Some metadata \<Rightarrow> Some (addUpdatedMetadata vdrID subnetID
          (m\<lparr>ms_metadata := update2 vdrID subnetID (metadata\<lparr>vm_PotentialDelegateeReward := amount\<rparr>) (ms_metadata m)\<rparr>)))"

text \<open>Deleting a subnet of a node; deleting from the nil map does nothing.\<close>

definition remove2 :: "'a \<Rightarrow> 'b \<Rightarrow> ('a, 'b, 'c) gomap2 \<Rightarrow> ('a, 'b, 'c) gomap2" where
  "remove2 a b m =
     (let n = AList.delete b (case map_of m a of None \<Rightarrow> [] | Some n \<Rightarrow> n)
      in if n = [] then AList.delete a m else AList.update a n m)"

definition DeleteValidatorMetadata :: "NodeID \<Rightarrow> ID \<Rightarrow> validatorState \<Rightarrow> validatorState" where
  "DeleteValidatorMetadata vdrID subnetID m =
     (let m = m\<lparr>ms_metadata := remove2 vdrID subnetID (ms_metadata m)\<rparr>
      in m\<lparr>ms_updatedMetadata := remove2 vdrID subnetID (ms_updatedMetadata m)\<rparr>)"

text \<open>Times count nanoseconds from the zero time of the language, which is 62135596800 seconds before the start of Unix time.\<close>

definition unix_seconds :: "int \<Rightarrow> u64" where
  "unix_seconds t = word_of_int (t div 1000000000 - 62135596800)"

text \<open>The identifier of the primary network is the empty one, 32 zero bytes (\<^verbatim>\<open>utils/constants/network_ids.go\<close>).\<close>

definition PrimaryNetworkID :: ID where
  "PrimaryNetworkID = replicate 32 0"

text \<open>The writing: for every updated entry, in the order in which the maps are visited, the entry is stamped and put into the database of its network under
  its transaction. A database that refuses a write ends the loop; the entries of the nodes that were done are not updated any more. A missing entry would
  be a nil pointer: the error is None.\<close>

datatype metadata_db = dbPrimary | dbSubnet

type_synonym metadata_put = "metadata_db \<times> ID \<times> validatorMetadata"

fun write_subnets ::
  "(metadata_put \<Rightarrow> bool) \<Rightarrow> NodeID \<Rightarrow> ID list \<Rightarrow> validatorState \<Rightarrow> metadata_put list \<Rightarrow> (validatorState \<times> metadata_put list \<times> bool) option" where
  "write_subnets accepts vdrID [] m puts = Some (m, puts, True)"
| "write_subnets accepts vdrID (subnetID # subnetIDs) m puts =
     (case lookup2 (ms_metadata m) vdrID subnetID of
        None \<Rightarrow> None
      | Some metadata \<Rightarrow>
          (let metadata = metadata\<lparr>vm_LastUpdated := unix_seconds (vm_lastUpdated metadata)\<rparr>;
               m = m\<lparr>ms_metadata := update2 vdrID subnetID metadata (ms_metadata m)\<rparr>;
               db = (if subnetID = PrimaryNetworkID then dbPrimary else dbSubnet);
               put = (db, vm_txID metadata, metadata)
           in if accepts put then write_subnets accepts vdrID subnetIDs m (puts @ [put]) else Some (m, puts, False)))"

fun write_vdrs ::
  "(metadata_put \<Rightarrow> bool) \<Rightarrow> ((ID, unit) gomap \<Rightarrow> (ID, unit) gomap) \<Rightarrow> (NodeID, ID, unit) gomap2 \<Rightarrow> validatorState \<Rightarrow> metadata_put list
     \<Rightarrow> (validatorState \<times> metadata_put list \<times> bool) option" where
  "write_vdrs accepts ord [] m puts = Some (m, puts, True)"
| "write_vdrs accepts ord ((vdrID, updatedSubnets) # rest) m puts =
     (case write_subnets accepts vdrID (map fst (ord updatedSubnets)) m puts of
        None \<Rightarrow> None
      | Some (m, puts, False) \<Rightarrow> Some (m, puts, False)
      | Some (m, puts, True) \<Rightarrow>
          write_vdrs accepts ord rest (m\<lparr>ms_updatedMetadata := AList.delete vdrID (ms_updatedMetadata m)\<rparr>) puts)"

definition WriteValidatorMetadata ::
  "(metadata_put \<Rightarrow> bool) \<Rightarrow> ((NodeID, ID, unit) gomap2 \<Rightarrow> (NodeID, ID, unit) gomap2) \<Rightarrow> ((ID, unit) gomap \<Rightarrow> (ID, unit) gomap)
     \<Rightarrow> validatorState \<Rightarrow> (validatorState \<times> metadata_put list \<times> bool) option" where
  "WriteValidatorMetadata accepts ordv ords m = write_vdrs accepts ords (ordv (ms_updatedMetadata m)) m []"

subsection \<open>The contract\<close>

text \<open>What is loaded, and what of it is staged for the next write.\<close>

record meta_spec =
  sp_loaded :: "NodeID \<Rightarrow> ID \<Rightarrow> validatorMetadata option"
  sp_staged :: "(NodeID \<times> ID) set"

datatype meta_call =
    LoadMetadata NodeID ID validatorMetadata
  | PutUptime NodeID ID int int
  | PutDelegateeReward ID NodeID u64
  | DeleteMetadata NodeID ID
  | WriteMetadata "(NodeID, ID, unit) gomap2 \<Rightarrow> (NodeID, ID, unit) gomap2" "(ID, unit) gomap \<Rightarrow> (ID, unit) gomap"

definition stamp :: "validatorMetadata \<Rightarrow> validatorMetadata" where
  "stamp e = e\<lparr>vm_LastUpdated := unix_seconds (vm_lastUpdated e)\<rparr>"

definition change_at :: "NodeID \<Rightarrow> ID \<Rightarrow> (validatorMetadata \<Rightarrow> validatorMetadata) \<Rightarrow> meta_spec \<Rightarrow> meta_spec" where
  "change_at a b f S = (case sp_loaded S a b of None \<Rightarrow> S
     | Some e \<Rightarrow> \<lparr>sp_loaded = (sp_loaded S)(a := (sp_loaded S a)(b \<mapsto> f e)), sp_staged = insert (a, b) (sp_staged S)\<rparr>)"

fun sp_call :: "meta_call \<Rightarrow> meta_spec \<Rightarrow> meta_spec" where
  "sp_call (LoadMetadata a b e) S = S\<lparr>sp_loaded := (sp_loaded S)(a := (sp_loaded S a)(b \<mapsto> e))\<rparr>"
| "sp_call (PutUptime a b up t) S = change_at a b (\<lambda>e. e\<lparr>vm_UpDuration := up, vm_lastUpdated := t\<rparr>) S"
| "sp_call (PutDelegateeReward b a x) S = change_at a b (\<lambda>e. e\<lparr>vm_PotentialDelegateeReward := x\<rparr>) S"
| "sp_call (DeleteMetadata a b) S = \<lparr>sp_loaded = (sp_loaded S)(a := (sp_loaded S a)(b := None)), sp_staged = sp_staged S - {(a, b)}\<rparr>"
| "sp_call (WriteMetadata _ _) S =
     \<lparr>sp_loaded = (\<lambda>a b. if (a, b) \<in> sp_staged S then map_option stamp (sp_loaded S a b) else sp_loaded S a b), sp_staged = {}\<rparr>"

text \<open>What a write has to put: each staged entry, into the database of its network.\<close>

definition put_of :: "ID \<Rightarrow> validatorMetadata \<Rightarrow> metadata_put" where
  "put_of b e = (if b = PrimaryNetworkID then dbPrimary else dbSubnet, vm_txID e, e)"

fun sp_puts :: "meta_call \<Rightarrow> meta_spec \<Rightarrow> metadata_put multiset" where
  "sp_puts (WriteMetadata _ _) S =
     image_mset (\<lambda>(a, b). put_of b (stamp (the (sp_loaded S a b)))) (mset_set (sp_staged S))"
| "sp_puts _ S = {#}"

text \<open>The calls of the code; None is a panic, and a setter that fails leaves the state as it is.\<close>

fun ms_call :: "meta_call \<Rightarrow> validatorState \<Rightarrow> (validatorState \<times> metadata_put list) option" where
  "ms_call (LoadMetadata a b e) m = Some (LoadValidatorMetadata a b e m, [])"
| "ms_call (PutUptime a b up t) m = Some (case SetUptime a b up t m of None \<Rightarrow> m | Some m' \<Rightarrow> m', [])"
| "ms_call (PutDelegateeReward b a x) m = Some (case SetPotentialDelegateeReward b a x m of None \<Rightarrow> m | Some m' \<Rightarrow> m', [])"
| "ms_call (DeleteMetadata a b) m = Some (DeleteValidatorMetadata a b m, [])"
| "ms_call (WriteMetadata ordv ords) m =
     map_option (\<lambda>(m', puts, _). (m', puts)) (WriteValidatorMetadata (\<lambda>_. True) ordv ords m)"

fun ms_run :: "meta_call list \<Rightarrow> validatorState \<Rightarrow> (validatorState \<times> metadata_put list list) option" where
  "ms_run [] m = Some (m, [])"
| "ms_run (c # cs) m =
     Option.bind (ms_call c m) (\<lambda>(m', puts). map_option (\<lambda>(m'', rest). (m'', puts # rest)) (ms_run cs m'))"

fun sp_run :: "meta_call list \<Rightarrow> meta_spec \<Rightarrow> meta_spec \<times> metadata_put multiset list" where
  "sp_run [] S = (S, [])"
| "sp_run (c # cs) S = (let (S', rest) = sp_run cs (sp_call c S) in (S', sp_puts c S # rest))"

fun call_orders_ok :: "meta_call \<Rightarrow> bool" where
  "call_orders_ok (WriteMetadata ordv ords) \<longleftrightarrow> (\<forall>m. mset (ordv m) = mset m) \<and> (\<forall>m. mset (ords m) = mset m)"
| "call_orders_ok _ \<longleftrightarrow> True"

subsection \<open>The code keeps the contract\<close>

definition staged :: "(NodeID, ID, unit) gomap2 \<Rightarrow> (NodeID \<times> ID) set" where
  "staged m = {(a, b). lookup2 m a b \<noteq> None}"

definition meta_rep :: "validatorState \<Rightarrow> meta_spec \<Rightarrow> bool" where
  "meta_rep m S \<longleftrightarrow> wf_gomap2 (ms_metadata m) \<and> wf_gomap2 (ms_updatedMetadata m) \<and> lookup2 (ms_metadata m) = sp_loaded S
     \<and> staged (ms_updatedMetadata m) = sp_staged S \<and> (\<forall>a b. (a, b) \<in> sp_staged S \<longrightarrow> sp_loaded S a b \<noteq> None)"

lemma Load_eq: "LoadValidatorMetadata a b e m = m\<lparr>ms_metadata := update2 a b e (ms_metadata m)\<rparr>"
  by (simp add: LoadValidatorMetadata_def update2_def)

lemma addUpdated_eq: "addUpdatedMetadata a b m = m\<lparr>ms_updatedMetadata := update2 a b () (ms_updatedMetadata m)\<rparr>"
  by (simp add: addUpdatedMetadata_def update2_def)

lemma lookup2_fun: "lookup2 (update2 a b c m) = (lookup2 m)(a := (lookup2 m a)(b \<mapsto> c))"
  by (simp add: fun_eq_iff)

lemma staged_update [simp]: "staged (update2 a b () m) = insert (a, b) (staged m)"
  by (auto simp: staged_def split: if_splits)

lemma staged_Nil [simp]: "staged [] = {}"
  by (simp add: staged_def)

lemma lookup2_remove2: "lookup2 (remove2 a b m) = (lookup2 m)(a := (lookup2 m a)(b := None))"
proof (intro ext)
  fix a' b'
  have "map_of n b' = None" if "AList.delete b n = []" "b' \<noteq> b" for n :: "('b \<times> 'c) list"
    using delete_conv [of b n b'] that by simp
  then show "lookup2 (remove2 a b m) a' b' = ((lookup2 m)(a := (lookup2 m a)(b := None))) a' b'"
    by (auto simp: remove2_def lookup2_def delete_conv' Let_def split: option.splits)
qed

lemma wf_gomap2_remove2: "wf_gomap2 m \<Longrightarrow> wf_gomap2 (remove2 a b m)"
proof -
  assume m: "wf_gomap2 m"
  define n where "n = AList.delete b (case map_of m a of None \<Rightarrow> [] | Some n \<Rightarrow> n)"
  have n: "wf_gomap n" using m by (auto simp: n_def intro: wf_gomap_delete split: option.splits dest: map_of_SomeD)
  have "set (AList.delete a m) \<subseteq> set m" by (auto simp: AList.delete_eq)
  then show ?thesis using m n set_update_subset [of a n m]
    unfolding remove2_def n_def [symmetric] Let_def by (auto intro!: wf_gomap_update wf_gomap_delete)
qed

lemma staged_remove2: "staged (remove2 a b m) = staged m - {(a, b)}"
  by (auto simp: staged_def lookup2_remove2 split: if_splits)

lemma perm_map:
  assumes "mset m' = mset m" "wf_gomap m"
  shows "wf_gomap m'" "map_of m' = map_of m" "set m' = set m"
proof -
  have "mset (map fst m') = mset (map fst m)" using assms(1) by simp
  from mset_eq_imp_distinct_iff [OF this] show d: "wf_gomap m'" using assms(2) by simp
  show s: "set m' = set m" by (rule mset_eq_setD [OF assms(1)])
  show "map_of m' = map_of m" by (rule map_of_eqI) (use d s assms(2) in \<open>auto intro: map_of_inject_set\<close>)
qed

text \<open>A write visits every staged entry once.\<close>

definition visits :: "((ID, unit) gomap \<Rightarrow> (ID, unit) gomap) \<Rightarrow> (NodeID, ID, unit) gomap2 \<Rightarrow> (NodeID \<times> ID) list" where
  "visits ords es = concat (map (\<lambda>(a, subnets). map (\<lambda>b. (a, b)) (map fst (ords subnets))) es)"

lemma visits_Cons: "visits ords ((a, subnets) # es) = map (\<lambda>b. (a, b)) (map fst (ords subnets)) @ visits ords es"
  by (simp add: visits_def)

lemma visits_set:
  assumes "\<forall>m. mset (ords m) = mset m"
  shows "(a, b) \<in> set (visits ords es) \<longleftrightarrow> (\<exists>subnets. (a, subnets) \<in> set es \<and> b \<in> fst ` set subnets)"
proof -
  have p: "set (ords m) = set m" for m by (rule mset_eq_setD) (use assms in blast)
  show ?thesis by (induction es) (auto simp: visits_def p)
qed

lemma visits_distinct:
  assumes "\<forall>m. mset (ords m) = mset m"
  shows "wf_gomap2 es \<Longrightarrow> distinct (visits ords es)"
proof (induction es)
  case Nil
  show ?case by (simp add: visits_def)
next
  case (Cons e es)
  obtain a subnets where e: "e = (a, subnets)" by fastforce
  have "distinct (map fst (ords subnets))" by (rule perm_map(1) [of _ subnets]) (use Cons.prems assms in \<open>simp_all add: e\<close>)
  then have "distinct (map (\<lambda>b. (a, b)) (map fst (ords subnets)))" by (subst distinct_map) (simp add: inj_on_def)
  moreover have "set (map (\<lambda>b. (a, b)) (map fst (ords subnets))) \<inter> set (visits ords es) = {}"
    using Cons.prems visits_set [OF assms, of a _ es] by (force simp: e)
  moreover have "distinct (visits ords es)" using Cons by simp
  ultimately show ?case unfolding e visits_Cons distinct_append by blast
qed

lemma visits_staged:
  assumes "\<forall>m. mset (ords m) = mset m" "mset es = mset m" "wf_gomap2 m"
  shows "wf_gomap2 es" "set (visits ords es) = staged m"
proof -
  note p = perm_map [OF assms(2) conjunct1 [OF assms(3)]]
  then show "wf_gomap2 es" using assms(3) by simp
  have "(a, b) \<in> set (visits ords es) \<longleftrightarrow> (a, b) \<in> staged m" for a b
  proof (cases "map_of m a")
    case None
    then have "(a, subnets) \<notin> set m" for subnets by (metis map_of_eq_None_iff fst_conv image_eqI)
    then show ?thesis using None by (simp add: visits_set [OF assms(1)] p(3) staged_def lookup2_def)
  next
    case (Some subnets)
    then have "(a, x) \<in> set m \<longleftrightarrow> x = subnets" for x using assms(3) by (metis map_of_SomeD map_of_is_SomeI option.inject)
    moreover have "b \<in> fst ` set subnets \<longleftrightarrow> map_of subnets b \<noteq> None" by (simp add: map_of_eq_None_iff)
    ultimately show ?thesis unfolding visits_set [OF assms(1)] p(3) by (simp add: Some staged_def lookup2_def)
  qed
  then show "set (visits ords es) = staged m" by auto
qed

definition stamped :: "(NodeID \<times> ID) set \<Rightarrow> (NodeID \<Rightarrow> ID \<Rightarrow> validatorMetadata option) \<Rightarrow> NodeID \<Rightarrow> ID \<Rightarrow> validatorMetadata option" where
  "stamped X l = (\<lambda>a b. if (a, b) \<in> X then map_option stamp (l a b) else l a b)"

abbreviation the_put :: "(NodeID \<Rightarrow> ID \<Rightarrow> validatorMetadata option) \<Rightarrow> NodeID \<times> ID \<Rightarrow> metadata_put" where
  "the_put l \<equiv> (\<lambda>(a, b). put_of b (stamp (the (l a b))))"

lemma write_subnets_step:
  "lookup2 (ms_metadata m) a b = Some e \<Longrightarrow> write_subnets (\<lambda>_. True) a (b # bs) m puts =
     write_subnets (\<lambda>_. True) a bs (m\<lparr>ms_metadata := update2 a b (stamp e) (ms_metadata m)\<rparr>) (puts @ [put_of b (stamp e)])"
  by (simp add: stamp_def put_of_def Let_def)

lemma write_subnets_ok:
  "distinct bs \<Longrightarrow> \<forall>b \<in> set bs. lookup2 (ms_metadata m) a b \<noteq> None \<Longrightarrow> wf_gomap2 (ms_metadata m) \<Longrightarrow>
   \<exists>m'. write_subnets (\<lambda>_. True) a bs m puts = Some (m', puts @ map (the_put (lookup2 (ms_metadata m))) (map (\<lambda>b. (a, b)) bs), True)
     \<and> ms_updatedMetadata m' = ms_updatedMetadata m \<and> wf_gomap2 (ms_metadata m')
     \<and> lookup2 (ms_metadata m') = stamped (Pair a ` set bs) (lookup2 (ms_metadata m))"
proof (induction bs arbitrary: m puts)
  case (Cons b bs)
  obtain e where e: "lookup2 (ms_metadata m) a b = Some e" using Cons.prems(2) by auto
  define m1 where "m1 = m\<lparr>ms_metadata := update2 a b (stamp e) (ms_metadata m)\<rparr>"
  have l: "lookup2 (ms_metadata m1) = stamped {(a, b)} (lookup2 (ms_metadata m))" by (auto simp: m1_def stamped_def fun_eq_iff e)
  have "\<forall>b \<in> set bs. lookup2 (ms_metadata m1) a b \<noteq> None" "wf_gomap2 (ms_metadata m1)"
    using Cons.prems wf_gomap2_update2 [of "ms_metadata m"] by (auto simp: m1_def)
  then obtain m' where m': "write_subnets (\<lambda>_. True) a bs m1 (puts @ [put_of b (stamp e)])
      = Some (m', (puts @ [put_of b (stamp e)]) @ map (the_put (lookup2 (ms_metadata m1))) (map (\<lambda>b. (a, b)) bs), True)"
     "ms_updatedMetadata m' = ms_updatedMetadata m1" "wf_gomap2 (ms_metadata m')"
     "lookup2 (ms_metadata m') = stamped (Pair a ` set bs) (lookup2 (ms_metadata m1))"
    using Cons.IH [of m1 "puts @ [put_of b (stamp e)]"] Cons.prems(1) by auto
  have "map (the_put (lookup2 (ms_metadata m1))) (map (\<lambda>b. (a, b)) bs)
      = map (the_put (lookup2 (ms_metadata m))) (map (\<lambda>b. (a, b)) bs)" using Cons.prems(1) by (auto simp: l stamped_def)
  with m'(1) have "write_subnets (\<lambda>_. True) a (b # bs) m puts
      = Some (m', puts @ map (the_put (lookup2 (ms_metadata m))) (map (\<lambda>b. (a, b)) (b # bs)), True)"
    unfolding write_subnets_step [OF e] m1_def [symmetric] by (simp add: e)
  moreover have "lookup2 (ms_metadata m') = stamped (Pair a ` set (b # bs)) (lookup2 (ms_metadata m))"
    using Cons.prems(1) by (auto simp: m'(4) l stamped_def fun_eq_iff)
  moreover have "ms_updatedMetadata m' = ms_updatedMetadata m" by (simp add: m'(2) m1_def)
  ultimately show ?case using m'(3) by blast
qed (simp add: stamped_def)

lemma write_vdrs_ok:
  assumes "\<forall>m. mset (ords m) = mset m"
  shows "wf_gomap2 es \<Longrightarrow> \<forall>(a, b) \<in> set (visits ords es). lookup2 (ms_metadata m) a b \<noteq> None \<Longrightarrow> wf_gomap2 (ms_metadata m) \<Longrightarrow>
   \<exists>m'. write_vdrs (\<lambda>_. True) ords es m puts = Some (m', puts @ map (the_put (lookup2 (ms_metadata m))) (visits ords es), True)
     \<and> ms_updatedMetadata m' = filter (\<lambda>(a, _). a \<notin> fst ` set es) (ms_updatedMetadata m) \<and> wf_gomap2 (ms_metadata m')
     \<and> lookup2 (ms_metadata m') = stamped (set (visits ords es)) (lookup2 (ms_metadata m))"
proof (induction es arbitrary: m puts)
  case (Cons e es)
  obtain a subnets where e: "e = (a, subnets)" by fastforce
  let ?bs = "map fst (ords subnets)"
  have bs: "distinct ?bs" by (rule perm_map(1) [of _ subnets]) (use Cons.prems assms in \<open>simp_all add: e\<close>)
  have loaded: "\<forall>b \<in> set ?bs. lookup2 (ms_metadata m) a b \<noteq> None" using Cons.prems(2) by (simp add: e visits_Cons ball_Un)
  obtain m1 where m1: "write_subnets (\<lambda>_. True) a ?bs m puts
      = Some (m1, puts @ map (the_put (lookup2 (ms_metadata m))) (map (\<lambda>b. (a, b)) ?bs), True)"
     "ms_updatedMetadata m1 = ms_updatedMetadata m" "wf_gomap2 (ms_metadata m1)"
     "lookup2 (ms_metadata m1) = stamped (Pair a ` set ?bs) (lookup2 (ms_metadata m))"
    using write_subnets_ok [OF bs loaded Cons.prems(3), of puts] by blast
  let ?m = "m1\<lparr>ms_updatedMetadata := AList.delete a (ms_updatedMetadata m1)\<rparr>"
  let ?p = "puts @ map (the_put (lookup2 (ms_metadata m))) (map (\<lambda>b. (a, b)) ?bs)"
  have na: "(a, b) \<notin> set (visits ords es)" for b using Cons.prems(1) visits_set [OF assms, of a b es] by (force simp: e)
  have "\<forall>(a, b) \<in> set (visits ords es). lookup2 (ms_metadata ?m) a b \<noteq> None" "wf_gomap2 (ms_metadata ?m)" "wf_gomap2 es"
    using Cons.prems m1(3) by (auto simp: e visits_Cons m1(4) stamped_def)
  then obtain m' where m': "write_vdrs (\<lambda>_. True) ords es ?m ?p = Some (m', ?p @ map (the_put (lookup2 (ms_metadata ?m))) (visits ords es), True)"
     "ms_updatedMetadata m' = filter (\<lambda>(a, _). a \<notin> fst ` set es) (ms_updatedMetadata ?m)" "wf_gomap2 (ms_metadata m')"
     "lookup2 (ms_metadata m') = stamped (set (visits ords es)) (lookup2 (ms_metadata ?m))"
    using Cons.IH [of ?m ?p] by blast
  have "map (the_put (lookup2 (ms_metadata ?m))) (visits ords es) = map (the_put (lookup2 (ms_metadata m))) (visits ords es)"
    using na by (auto simp: m1(4) stamped_def)
  with m'(1) m1(1) have "write_vdrs (\<lambda>_. True) ords (e # es) m puts
      = Some (m', puts @ map (the_put (lookup2 (ms_metadata m))) (visits ords (e # es)), True)" by (simp add: e visits_Cons)
  moreover have "lookup2 (ms_metadata m') = stamped (set (visits ords (e # es))) (lookup2 (ms_metadata m))"
    using na by (auto simp: m'(4) m1(4) stamped_def fun_eq_iff e visits_Cons)
  moreover have "ms_updatedMetadata m' = filter (\<lambda>(a, _). a \<notin> fst ` set (e # es)) (ms_updatedMetadata m)"
    unfolding m'(2) by (auto simp: m1(2) AList.delete_eq e intro: filter_cong)
  ultimately show ?case using m'(3) by blast
qed (simp add: stamped_def visits_def)

lemma Write_rep:
  assumes "meta_rep m S" "\<forall>m. mset (ordv m) = mset m" "\<forall>m. mset (ords m) = mset m"
  shows "\<exists>m' puts. WriteValidatorMetadata (\<lambda>_. True) ordv ords m = Some (m', puts, True)
    \<and> mset puts = sp_puts (WriteMetadata ordv ords) S \<and> meta_rep m' (sp_call (WriteMetadata ordv ords) S)"
proof -
  note r = assms(1) [unfolded meta_rep_def]
  let ?es = "ordv (ms_updatedMetadata m)"
  have es: "wf_gomap2 ?es" "set (visits ords ?es) = staged (ms_updatedMetadata m)"
    using visits_staged [OF assms(3), of ?es "ms_updatedMetadata m"] assms(2) r by blast+
  have "\<forall>(a, b) \<in> set (visits ords ?es). lookup2 (ms_metadata m) a b \<noteq> None" using r unfolding es(2) by auto
  then obtain m' where m': "write_vdrs (\<lambda>_. True) ords ?es m [] = Some (m', [] @ map (the_put (lookup2 (ms_metadata m))) (visits ords ?es), True)"
     "ms_updatedMetadata m' = filter (\<lambda>(a, _). a \<notin> fst ` set ?es) (ms_updatedMetadata m)" "wf_gomap2 (ms_metadata m')"
     "lookup2 (ms_metadata m') = stamped (set (visits ords ?es)) (lookup2 (ms_metadata m))"
    using write_vdrs_ok [OF assms(3) es(1), of m "[]"] r by blast
  have "set ?es = set (ms_updatedMetadata m)" using assms(2) mset_eq_setD by blast
  then have "ms_updatedMetadata m' = []" by (force simp: m'(2) filter_empty_conv)
  moreover have "mset (visits ords ?es) = mset_set (sp_staged S)"
    using mset_set_set [OF visits_distinct [OF assms(3) es(1)]] es(2) r by simp
  ultimately have "meta_rep m' (sp_call (WriteMetadata ordv ords) S)" using m'(3,4) r es(2)
    by (simp add: meta_rep_def stamped_def)
  moreover have "mset (map (the_put (lookup2 (ms_metadata m))) (visits ords ?es)) = sp_puts (WriteMetadata ordv ords) S"
    using \<open>mset (visits ords ?es) = mset_set (sp_staged S)\<close> r by simp
  ultimately show ?thesis using m'(1) by (simp add: WriteValidatorMetadata_def)
qed

lemma change_rep:
  assumes "meta_rep m S"
  shows "meta_rep (case lookup2 (ms_metadata m) a b of None \<Rightarrow> m
      | Some e \<Rightarrow> addUpdatedMetadata a b (m\<lparr>ms_metadata := update2 a b (f e) (ms_metadata m)\<rparr>)) (change_at a b f S)"
proof (cases "lookup2 (ms_metadata m) a b")
  case (Some e)
  then have "sp_loaded S a b = Some e" using assms by (simp add: meta_rep_def)
  with Some assms wf_gomap2_update2 [of "ms_metadata m" a b "f e"] wf_gomap2_update2 [of "ms_updatedMetadata m" a b "()"] show ?thesis
    unfolding meta_rep_def by (simp add: addUpdated_eq lookup2_fun change_at_def)
qed (use assms in \<open>simp add: meta_rep_def change_at_def\<close>)

lemma call_rep:
  assumes "meta_rep m S" "call_orders_ok c"
  shows "\<exists>m' puts. ms_call c m = Some (m', puts) \<and> mset puts = sp_puts c S \<and> meta_rep m' (sp_call c S)"
proof (cases c)
  case (WriteMetadata ordv ords)
  have "\<forall>m. mset (ordv m) = mset m" "\<forall>m. mset (ords m) = mset m" using assms(2) unfolding WriteMetadata by simp_all
  from Write_rep [OF assms(1) this] show ?thesis unfolding WriteMetadata by (elim exE conjE) simp
next
  case (DeleteMetadata a b)
  with assms(1) wf_gomap2_remove2 [of "ms_metadata m" a b] wf_gomap2_remove2 [of "ms_updatedMetadata m" a b] show ?thesis
    unfolding meta_rep_def by (simp add: DeleteValidatorMetadata_def lookup2_remove2 staged_remove2)
next
  case (LoadMetadata a b e)
  with assms(1) wf_gomap2_update2 [of "ms_metadata m" a b e] show ?thesis unfolding meta_rep_def by (simp add: Load_eq lookup2_fun)
next
  case (PutUptime a b up t)
  have "(case SetUptime a b up t m of None \<Rightarrow> m | Some m' \<Rightarrow> m') = (case lookup2 (ms_metadata m) a b of None \<Rightarrow> m
      | Some e \<Rightarrow> addUpdatedMetadata a b (m\<lparr>ms_metadata := update2 a b (e\<lparr>vm_UpDuration := up, vm_lastUpdated := t\<rparr>) (ms_metadata m)\<rparr>))"
    by (simp add: SetUptime_def split: option.split)
  with PutUptime change_rep [OF assms(1), of a b "\<lambda>e. e\<lparr>vm_UpDuration := up, vm_lastUpdated := t\<rparr>"] show ?thesis by simp
next
  case (PutDelegateeReward b a x)
  have "(case SetPotentialDelegateeReward b a x m of None \<Rightarrow> m | Some m' \<Rightarrow> m') = (case lookup2 (ms_metadata m) a b of None \<Rightarrow> m
      | Some e \<Rightarrow> addUpdatedMetadata a b (m\<lparr>ms_metadata := update2 a b (e\<lparr>vm_PotentialDelegateeReward := x\<rparr>) (ms_metadata m)\<rparr>))"
    by (simp add: SetPotentialDelegateeReward_def split: option.split)
  with PutDelegateeReward change_rep [OF assms(1), of a b "\<lambda>e. e\<lparr>vm_PotentialDelegateeReward := x\<rparr>"] show ?thesis by simp
qed

abbreviation no_metadata :: meta_spec where
  "no_metadata \<equiv> \<lparr>sp_loaded = (\<lambda>_ _. None), sp_staged = {}\<rparr>"

lemma new_rep: "meta_rep newValidatorState no_metadata"
  by (simp add: meta_rep_def newValidatorState_def staged_def fun_eq_iff)

lemma run_rep:
  "meta_rep m S \<Longrightarrow> \<forall>c \<in> set cs. call_orders_ok c \<Longrightarrow> \<exists>m' puts. ms_run cs m = Some (m', puts)
     \<and> map mset puts = snd (sp_run cs S) \<and> meta_rep m' (fst (sp_run cs S))"
proof (induction cs arbitrary: m S)
  case (Cons c cs)
  obtain m1 puts where m1: "ms_call c m = Some (m1, puts)" "mset puts = sp_puts c S" "meta_rep m1 (sp_call c S)"
    using call_rep [OF Cons.prems(1)] Cons.prems(2) by (meson list.set_intros(1))
  from Cons.prems(2) have "\<forall>c \<in> set cs. call_orders_ok c" by simp
  from Cons.IH [OF m1(3) this] obtain m' rest where "ms_run cs m1 = Some (m', rest)"
    "map mset rest = snd (sp_run cs (sp_call c S))" "meta_rep m' (fst (sp_run cs (sp_call c S)))" by blast
  with m1(1,2) show ?case by (simp add: case_prod_beta)
qed simp

text \<open>(C32) The metadata of the validators is what the calls made of it, and what is written is what was updated. After any sequence of loads, updates,
  deletions and writes to databases that accept every put, in whatever order the maps are visited, no call has panicked; the entries are those that the calls loaded and updated; every write has put
  each entry that was updated since the write before it, and not deleted, exactly once and with its latest values.\<close>

theorem metadata_written:
  assumes "\<forall>c \<in> set cs. call_orders_ok c"
  shows "\<exists>m puts. ms_run cs newValidatorState = Some (m, puts)
    \<and> map mset puts = snd (sp_run cs no_metadata)
    \<and> (\<forall>a b. GetUptime a b m = map_option (\<lambda>e. (vm_UpDuration e, vm_lastUpdated e)) (sp_loaded (fst (sp_run cs no_metadata)) a b))
    \<and> (\<forall>a b. GetPotentialDelegateeReward b a m = map_option vm_PotentialDelegateeReward (sp_loaded (fst (sp_run cs no_metadata)) a b))"
proof -
  obtain m puts where "ms_run cs newValidatorState = Some (m, puts)" "map mset puts = snd (sp_run cs no_metadata)"
    "lookup2 (ms_metadata m) = sp_loaded (fst (sp_run cs no_metadata))"
    using run_rep [OF new_rep assms] by (auto simp: meta_rep_def)
  then show ?thesis by (simp add: GetUptime_def GetPotentialDelegateeReward_def)
qed

definition sample_metadata :: "u8 \<Rightarrow> validatorMetadata" where
  "sample_metadata n = \<lparr>vm_UpDuration = 0, vm_LastUpdated = 0, vm_PotentialReward = 5, vm_PotentialDelegateeReward = 0, vm_MintRateBytes = [],
     vm_FeePerWeightPaidBytes = [], vm_txID = [n], vm_lastUpdated = 62135596800000000000\<rparr>"

theorem metadata_written_witness:
  "\<exists>m puts. ms_run [LoadMetadata [7] PrimaryNetworkID (sample_metadata 1), LoadMetadata [8] [1] (sample_metadata 2), PutDelegateeReward PrimaryNetworkID [7] 9,
       PutDelegateeReward [1] [8] 4, PutDelegateeReward [2] [8] 3, DeleteMetadata [8] [1], WriteMetadata rev rev] newValidatorState = Some (m, puts)
    \<and> GetPotentialDelegateeReward PrimaryNetworkID [7] m = Some 9 \<and> GetPotentialDelegateeReward [1] [8] m = None
    \<and> last puts = [(dbPrimary, [1], (sample_metadata 1)\<lparr>vm_PotentialDelegateeReward := 9\<rparr>)]"
proof -
  let ?cs = "[LoadMetadata [7] PrimaryNetworkID (sample_metadata 1), LoadMetadata [8] [1] (sample_metadata 2), PutDelegateeReward PrimaryNetworkID [7] 9,
       PutDelegateeReward [1] [8] 4, PutDelegateeReward [2] [8] 3, DeleteMetadata [8] [1], WriteMetadata rev rev]"
  have "\<forall>c \<in> set ?cs. call_orders_ok c" by simp
  from metadata_written [OF this] obtain m puts where m: "ms_run ?cs newValidatorState = Some (m, puts)"
    "map mset puts = snd (sp_run ?cs no_metadata)"
    "GetPotentialDelegateeReward PrimaryNetworkID [7] m = map_option vm_PotentialDelegateeReward (sp_loaded (fst (sp_run ?cs no_metadata)) [7] PrimaryNetworkID)"
    "GetPotentialDelegateeReward [1] [8] m = map_option vm_PotentialDelegateeReward (sp_loaded (fst (sp_run ?cs no_metadata)) [8] [1])" by blast
  have "insert ([8], [1]) {([7], PrimaryNetworkID)} - {([8], [1])} = {([7] :: NodeID, PrimaryNetworkID)}" by auto
  then have "map mset puts = [{#}, {#}, {#}, {#}, {#}, {#}, {#(dbPrimary, [1], (sample_metadata 1)\<lparr>vm_PotentialDelegateeReward := 9\<rparr>)#}]"
    unfolding m(2) by (simp add: change_at_def put_of_def stamp_def sample_metadata_def unix_seconds_def PrimaryNetworkID_def)
  then have "last puts = [(dbPrimary, [1], (sample_metadata 1)\<lparr>vm_PotentialDelegateeReward := 9\<rparr>)]" by (auto simp: map_eq_Cons_conv)
  moreover have "GetPotentialDelegateeReward PrimaryNetworkID [7] m = Some 9" "GetPotentialDelegateeReward [1] [8] m = None"
    unfolding m(3,4) by (simp_all add: change_at_def stamp_def PrimaryNetworkID_def)
  ultimately show ?thesis using m(1) by blast
qed

end
