(* ===== verification/Chain_Apply.thy ===== *)
theory Chain_Apply
  imports Chain_Diff Validator_Metadata
begin

text \<open>
  Writing a difference into the state below it, \<^verbatim>\<open>Apply\<close> of \<^verbatim>\<open>vms/omegavm/state/diff.go\<close>. The state below is used through its interface, so it is a function that
  makes one write; the contract of such a state is a locale. A state that keeps the contract shows, after a difference was applied to it, the ledger that
  the difference showed, in whatever order the maps of the difference are visited.
\<close>

declare split_paired_All [simp del] split_paired_Ex [simp del]

subsection \<open>Apply\<close>

text \<open>The orders in which a run visits the maps.\<close>

record ('pk, 't, 'o, 'u) apply_order =
  ao_current :: "('pk, 't) visiting"
  ao_pending :: "('pk, 't) visiting"
  ao_supplies :: "(ID, u64) gomap \<Rightarrow> (ID, u64) gomap"
  ao_rewarded :: "(ID, NodeID, u64) gomap2 \<Rightarrow> (ID, NodeID, u64) gomap2"
  ao_nodes :: "(NodeID, u64) gomap \<Rightarrow> (NodeID, u64) gomap"
  ao_transforms :: "(ID, 'o Tx) gomap \<Rightarrow> (ID, 'o Tx) gomap"
  ao_chains :: "(ID, 'o Tx list) gomap \<Rightarrow> (ID, 'o Tx list) gomap"
  ao_txs :: "(ID, 'o Tx \<times> TxStatus) gomap \<Rightarrow> (ID, 'o Tx \<times> TxStatus) gomap"
  ao_rewards :: "(ID, 'u list) gomap \<Rightarrow> (ID, 'u list) gomap"
  ao_utxos :: "(ID, 'u option) gomap \<Rightarrow> (ID, 'u option) gomap"

definition order_ok :: "('pk, 't, 'o, 'u) apply_order \<Rightarrow> bool" where
  "order_ok ord \<longleftrightarrow> visiting_ok (ao_current ord) \<and> visiting_ok (ao_pending ord)
     \<and> (\<forall>m. mset (ao_supplies ord m) = mset m) \<and> (\<forall>m. mset (ao_rewarded ord m) = mset m) \<and> (\<forall>m. mset (ao_nodes ord m) = mset m)
     \<and> (\<forall>m. mset (ao_transforms ord m) = mset m) \<and> (\<forall>m. mset (ao_chains ord m) = mset m) \<and> (\<forall>m. mset (ao_txs ord m) = mset m)
     \<and> (\<forall>m. mset (ao_rewards ord m) = mset m) \<and> (\<forall>m. mset (ao_utxos ord m) = mset m)"

definition Apply_writes :: "('pk, 't) btree \<Rightarrow> ('pk, 't, 'o, 'u) apply_order \<Rightarrow> ('pk, 't, 'o, 'u) diff \<Rightarrow> ('pk, 'o, 'u) chain_write list" where
  "Apply_writes bt ord d =
     [SetTimestamp (d_timestamp d)]
     @ (if d_stakeSyncTimestamp d \<noteq> 0 then [SetStakeSyncTimestamp (d_stakeSyncTimestamp d)] else [])
     @ (case d_stakerMintRate d of None \<Rightarrow> [] | Some stakerMintRate \<Rightarrow> [SetStakerAccumulatedMintRate stakerMintRate])
     @ (case d_lastAccumulatedFee d of None \<Rightarrow> [] | Some lastAccumulatedFee \<Rightarrow> [SetLastAccumulatedFee lastAccumulatedFee])
     @ (case d_feePerWeightStored d of None \<Rightarrow> [] | Some feePerWeightStored \<Rightarrow> [SetFeePerWeightStored feePerWeightStored])
     @ (if d_addAccumulatedFee d > 0 then [AddCurrentAccumulatedFee (d_addAccumulatedFee d)] else [])
     @ map (\<lambda>(subnetID, supply). SetCurrentSupply subnetID supply) (ao_supplies ord (d_currentSupply d))
     @ map CurrentStaker (staker_writes bt (ao_current ord) (d_currentStakerDiffs d))
     @ concat (map (\<lambda>(subnetID, nodes). map (\<lambda>(nodeID, amount). SetDelegateeReward subnetID nodeID amount) (ao_nodes ord nodes))
         (ao_rewarded ord (d_modifiedDelegateeRewards d)))
     @ map PendingStaker (staker_writes bt (ao_pending ord) (d_pendingStakerDiffs d))
     @ map AddSubnet (d_addedSubnets d)
     @ map (\<lambda>(_, tx). AddSubnetTransformation tx) (ao_transforms ord (d_transformedSubnets d))
     @ concat (map (\<lambda>(_, chainTxs). map AddChain chainTxs) (ao_chains ord (d_addedChains d)))
     @ map (\<lambda>(_, tx, status). AddTx tx status) (ao_txs ord (d_addedTxs d))
     @ concat (map (\<lambda>(txID, utxos). map (AddRewardUTXO txID) utxos) (ao_rewards ord (d_addedRewardUTXOs d)))
     @ map (\<lambda>(utxoID, utxo). case utxo of Some u \<Rightarrow> AddUTXO u | None \<Rightarrow> DeleteUTXO utxoID) (ao_utxos ord (d_modifiedUTXOs d))"

fun write_all :: "('w \<Rightarrow> 's \<Rightarrow> chain_error + 's) \<Rightarrow> 'w list \<Rightarrow> 's \<Rightarrow> chain_error + 's" where
  "write_all store [] s = Inr s"
| "write_all store (w # ws) s = res_bind (store w s) (write_all store ws)"

definition d_Apply ::
  "(('pk, 'o, 'u) chain_write \<Rightarrow> 's \<Rightarrow> chain_error + 's) \<Rightarrow> ('pk, 't) btree \<Rightarrow> ('pk, 't, 'o, 'u) apply_order \<Rightarrow> ('pk, 't, 'o, 'u) diff \<Rightarrow> 's \<Rightarrow> chain_error + 's" where
  "d_Apply store bt ord d baseState = write_all store (Apply_writes bt ord d) baseState"

subsection \<open>What the writes make of a ledger\<close>

text \<open>What a store may be asked to write: as in \<^verbatim>\<open>write_ok\<close>, and the delegatee reward only of a validator that it has loaded, a transaction only under
  its own identifier, rewards only where the disk has none.\<close>

fun store_ok :: "('pk, 'o, 'u) ledger \<Rightarrow> ('pk, 'o, 'u) ledger \<Rightarrow> ('pk, 'o, 'u) chain_write \<Rightarrow> bool" where
  "store_ok disk L (SetDelegateeReward a b x) \<longleftrightarrow> lg_delegatee L a b \<noteq> None"
| "store_ok disk L (CurrentStaker c) \<longleftrightarrow> call_ok (ids_of (lg_current L)) (lg_current L) c"
| "store_ok disk L (PendingStaker c) \<longleftrightarrow> call_ok (ids_of (lg_pending L)) (lg_pending L) c"
| "store_ok disk L (AddSubnet tx) \<longleftrightarrow> is_CreateSubnetTx (tx_Unsigned tx)"
| "store_ok disk L (AddSubnetTransformation tx) \<longleftrightarrow> is_TransformSubnetTx (tx_Unsigned tx)"
| "store_ok disk L (AddChain tx) \<longleftrightarrow> is_CreateChainTx (tx_Unsigned tx)"
| "store_ok disk L (AddTx tx st) \<longleftrightarrow> (\<forall>tx' st'. lg_txs L (tx_ID tx) = Some (tx', st') \<longrightarrow> tx' = tx)"
| "store_ok disk L (AddRewardUTXO i u) \<longleftrightarrow> lg_rewards disk i = []"
| "store_ok disk L _ \<longleftrightarrow> True"

fun stores_ok :: "('u \<Rightarrow> ID) \<Rightarrow> ('pk, 'o, 'u) ledger \<Rightarrow> ('pk, 'o, 'u) ledger \<Rightarrow> ('pk, 'o, 'u) chain_write list \<Rightarrow> bool" where
  "stores_ok inputID disk L [] \<longleftrightarrow> True"
| "stores_ok inputID disk L (w # ws) \<longleftrightarrow> store_ok disk L w \<and> stores_ok inputID disk (lg_write inputID w L) ws"

lemma stores_ok_append: "stores_ok inputID disk L (ws @ ws') \<longleftrightarrow> stores_ok inputID disk L ws \<and> stores_ok inputID disk (lg_run inputID ws L) ws'"
  by (induction ws arbitrary: L) auto

text \<open>A segment of writes that is allowed and changes the ledger in one place.\<close>

definition moves :: "('u \<Rightarrow> ID) \<Rightarrow> ('pk, 'o, 'u) ledger \<Rightarrow> ('pk, 'o, 'u) chain_write list \<Rightarrow> ('pk, 'o, 'u) ledger \<Rightarrow> ('pk, 'o, 'u) ledger \<Rightarrow> bool" where
  "moves inputID disk ws M M' \<longleftrightarrow> stores_ok inputID disk M ws \<and> lg_run inputID ws M = M'"

lemma moves_append: "moves inputID disk ws M M' \<Longrightarrow> moves inputID disk ws' M' M'' \<Longrightarrow> moves inputID disk (ws @ ws') M M''"
  by (auto simp: moves_def stores_ok_append lg_run_append)

lemma moves_Nil [simp]: "moves inputID disk [] M M' \<longleftrightarrow> M' = M"
  by (auto simp: moves_def)

lemma moves_Cons: "moves inputID disk (w # ws) M M' \<longleftrightarrow> store_ok disk M w \<and> moves inputID disk ws (lg_write inputID w M) M'"
  by (auto simp: moves_def)

lemma moves_ConsI: "store_ok disk M w \<Longrightarrow> lg_write inputID w M = M1 \<Longrightarrow> moves inputID disk ws M1 M' \<Longrightarrow> moves inputID disk (w # ws) M M'"
  by (simp add: moves_Cons)

text \<open>A map is written entry by entry into one field; each entry changes the field at its key only.\<close>

lemma moves_entries:
  assumes get: "\<And>f M. get (upd f M) = f" "\<And>f g M. upd f (upd g M) = upd f M" "\<And>M. upd (get M) M = M"
    and step: "\<And>k v M. (k, v) \<in> S \<Longrightarrow> fits k v (get M k) \<Longrightarrow> moves inputID disk (ws (k, v)) M (upd ((get M)(k := join v (get M k))) M)"
  shows "set m \<subseteq> S \<Longrightarrow> wf_gomap m \<Longrightarrow> \<forall>k v. (k, v) \<in> set m \<longrightarrow> fits k v (get M k) \<Longrightarrow>
    moves inputID disk (concat (map ws m)) M (upd (\<lambda>k. case map_of m k of None \<Rightarrow> get M k | Some v \<Rightarrow> join v (get M k)) M)"
proof (induction m arbitrary: M)
  case (Cons e m)
  obtain k v where e: "e = (k, v)" by fastforce
  let ?M = "upd ((get M)(k := join v (get M k))) M"
  have one: "moves inputID disk (ws (k, v)) M ?M" using Cons.prems by (intro step) (simp_all add: e)
  have k: "k \<notin> fst ` set m" using Cons.prems(2) by (simp add: e)
  then have "fits k' v' (get ?M k')" if "(k', v') \<in> set m" for k' v' using Cons.prems(3) that by (force simp: e get)
  then have "moves inputID disk (concat (map ws m)) ?M (upd (\<lambda>k. case map_of m k of None \<Rightarrow> get ?M k | Some v \<Rightarrow> join v (get ?M k)) ?M)"
    using Cons.prems(1,2) by (intro Cons.IH) simp_all
  moreover have "(\<lambda>k. case map_of m k of None \<Rightarrow> get ?M k | Some v \<Rightarrow> join v (get ?M k))
      = (\<lambda>k. case map_of (e # m) k of None \<Rightarrow> get M k | Some v \<Rightarrow> join v (get M k))"
    using k by (auto simp: e get fun_eq_iff map_of_eq_None_iff [symmetric] split: option.split)
  ultimately show ?case using moves_append [OF one] by (simp add: e get)
qed (simp add: get)

lemma over_case: "over (map_of m k) x = (case map_of m k of None \<Rightarrow> x | Some v \<Rightarrow> Some v)"
  by (simp add: over_def split: option.split)

lemma concat_single: "concat (map (\<lambda>e. [f e]) m) = map f m"
  by (induction m) simp_all

lemma moves_puts:
  assumes "\<And>f M. get (upd f M) = f" "\<And>f g M. upd f (upd g M) = upd f M" "\<And>M. upd (get M) M = M" "wf_gomap m"
    and "\<And>k v. (k, v) \<in> set m \<Longrightarrow> fits k v (get M k)"
    and step: "\<And>k v M. (k, v) \<in> set m \<Longrightarrow> fits k v (get M k) \<Longrightarrow>
      store_ok disk M (wr k v) \<and> lg_write inputID (wr k v) M = upd ((get M)(k := join v)) M"
    and "M' = upd (\<lambda>k. case map_of m k of None \<Rightarrow> get M k | Some v \<Rightarrow> join v) M"
  shows "moves inputID disk (map (\<lambda>(k, v). wr k v) m) M M'"
proof -
  have "moves inputID disk (concat (map (\<lambda>e. [case e of (k, v) \<Rightarrow> wr k v]) m)) M M'" unfolding assms(7)
    by (rule moves_entries [where get = get and upd = upd and S = "set m" and fits = fits and join = "\<lambda>v _. join v"])
      (simp_all add: assms(1-5) step moves_Cons)
  then show ?thesis by (simp only: concat_single)
qed

lemma moves_supplies:
  "wf_gomap m \<Longrightarrow> moves inputID disk (map (\<lambda>(a, x). SetCurrentSupply a x) m) M (M\<lparr>lg_supply := \<lambda>a. over (map_of m a) (lg_supply M a)\<rparr>)"
  by (rule moves_puts [where get = lg_supply and upd = "\<lambda>f. lg_supply_update (\<lambda>_. f)" and fits = "\<lambda>_ _ _. True" and join = Some])
    (simp_all add: over_case)

lemma moves_transforms:
  "wf_gomap m \<Longrightarrow> \<forall>(a, tx) \<in> set m. is_TransformSubnetTx (tx_Unsigned tx) \<and> ts_Subnet (ts_tx (tx_Unsigned tx)) = a \<Longrightarrow>
   moves inputID disk (map (\<lambda>(_, tx). AddSubnetTransformation tx) m) M (M\<lparr>lg_transform := \<lambda>a. over (map_of m a) (lg_transform M a)\<rparr>)"
  by (rule moves_puts [where get = lg_transform and upd = "\<lambda>f. lg_transform_update (\<lambda>_. f)" and fits = "\<lambda>_ _ _. True" and join = Some])
    (auto simp: over_case)

text \<open>No other transaction is stored under the identifier.\<close>

definition same_tx :: "'o Tx \<Rightarrow> ('o Tx \<times> TxStatus) option \<Rightarrow> bool" where
  "same_tx tx x \<longleftrightarrow> (\<forall>tx' st'. x = Some (tx', st') \<longrightarrow> tx' = tx)"

lemma moves_txs:
  "wf_gomap m \<Longrightarrow> \<forall>(i, tx, st) \<in> set m. tx_ID tx = i \<and> same_tx tx (lg_txs M i) \<Longrightarrow>
   moves inputID disk (map (\<lambda>(_, tx, st). AddTx tx st) m) M (M\<lparr>lg_txs := \<lambda>i. over (map_of m i) (lg_txs M i)\<rparr>)"
  by (rule moves_puts [where get = lg_txs and upd = "\<lambda>f. lg_txs_update (\<lambda>_. f)" and fits = "\<lambda>_ (tx, st). same_tx tx" and join = Some])
    (auto simp: over_case same_tx_def)

lemma moves_utxos:
  fixes M :: "('pk, 'o, 'u) ledger"
  assumes "wf_gomap m" "\<forall>k u. (k, Some u) \<in> set m \<longrightarrow> inputID u = k"
  shows "moves inputID disk (map (\<lambda>(i, x). case x of Some u \<Rightarrow> AddUTXO u | None \<Rightarrow> DeleteUTXO i) m) M
     (M\<lparr>lg_utxos := \<lambda>i. case map_of m i of None \<Rightarrow> lg_utxos M i | Some x \<Rightarrow> x\<rparr>)"
proof (rule moves_puts [where get = lg_utxos and upd = "\<lambda>f. lg_utxos_update (\<lambda>_. f)" and fits = "\<lambda>_ _ _. True" and join = "\<lambda>x. x"])
  fix k v and M :: "('pk, 'o, 'u) ledger" assume "(k, v) \<in> set m"
  then show "store_ok disk M (case v of Some u \<Rightarrow> AddUTXO u | None \<Rightarrow> DeleteUTXO k)
      \<and> lg_write inputID (case v of Some u \<Rightarrow> AddUTXO u | None \<Rightarrow> DeleteUTXO k) M = M\<lparr>lg_utxos := (lg_utxos M)(k := v)\<rparr>"
    using assms(2) by (cases v) auto
qed (simp_all add: assms(1))

lemma moves_nodes:
  "wf_gomap m \<Longrightarrow> \<forall>(b, x) \<in> set m. lg_delegatee M a b \<noteq> None \<Longrightarrow>
   moves inputID disk (map (\<lambda>(b, x). SetDelegateeReward a b x) m) M
     (M\<lparr>lg_delegatee := (lg_delegatee M)(a := \<lambda>b. over (map_of m b) (lg_delegatee M a b))\<rparr>)"
  by (rule moves_puts [where get = "\<lambda>M. lg_delegatee M a" and upd = "\<lambda>f M. M\<lparr>lg_delegatee := (lg_delegatee M)(a := f)\<rparr>"
        and fits = "\<lambda>_ _ x. x \<noteq> None" and join = Some])
    (auto simp: over_case)

lemma moves_delegatee:
  fixes M :: "('pk, 'o, 'u) ledger"
  assumes "\<forall>m. mset (f m) = mset m" "wf_gomap2 m" "\<forall>(a, nodes) \<in> set m. \<forall>(b, x) \<in> set nodes. lg_delegatee M a b \<noteq> None"
  shows "moves inputID disk (concat (map (\<lambda>(a, nodes). map (\<lambda>(b, x). SetDelegateeReward a b x) (f nodes)) m)) M
     (M\<lparr>lg_delegatee := \<lambda>a b. over (lookup2 m a b) (lg_delegatee M a b)\<rparr>)"
proof -
  have wf: "wf_gomap nodes" if "(a, nodes) \<in> set m" for a nodes using assms(2) that by auto
  have "moves inputID disk (concat (map (\<lambda>(a, nodes). map (\<lambda>(b, x). SetDelegateeReward a b x) (f nodes)) m)) M
     (lg_delegatee_update (\<lambda>_ a. case map_of m a of None \<Rightarrow> lg_delegatee M a | Some nodes \<Rightarrow> (\<lambda>b. over (map_of nodes b) (lg_delegatee M a b))) M)"
  proof (rule moves_entries [where get = lg_delegatee and upd = "\<lambda>f. lg_delegatee_update (\<lambda>_. f)" and S = "set m"
        and fits = "\<lambda>a nodes old. \<forall>(b, x) \<in> set nodes. old b \<noteq> None" and join = "\<lambda>nodes old b. over (map_of nodes b) (old b)"])
    fix a nodes and M :: "('pk, 'o, 'u) ledger" assume "(a, nodes) \<in> set m" "\<forall>(b, x) \<in> set nodes. lg_delegatee M a b \<noteq> None"
    with perm_map [OF spec [OF assms(1), of nodes] wf] moves_nodes [of "f nodes" M a inputID disk]
    show "moves inputID disk (case (a, nodes) of (a, nodes) \<Rightarrow> map (\<lambda>(b, x). SetDelegateeReward a b x) (f nodes)) M
      (M\<lparr>lg_delegatee := (lg_delegatee M)(a := \<lambda>b. over (map_of nodes b) (lg_delegatee M a b))\<rparr>)" by simp
  qed (use assms(2,3) in auto)
  moreover have "(\<lambda>a. case map_of m a of None \<Rightarrow> lg_delegatee M a | Some nodes \<Rightarrow> (\<lambda>b. over (map_of nodes b) (lg_delegatee M a b)))
      = (\<lambda>a b. over (lookup2 m a b) (lg_delegatee M a b))" by (auto simp: lookup2_def fun_eq_iff split: option.split)
  ultimately show ?thesis by simp
qed

lemma list_at_case: "old @ list_at m k = (case map_of m k of None \<Rightarrow> old | Some l \<Rightarrow> old @ l)"
  by (simp add: list_at_def split: option.split)

lemma moves_chain_txs:
  "\<forall>tx \<in> set cs. tx_Unsigned tx = CreateChainTx a \<Longrightarrow>
   moves inputID disk (map AddChain cs) M (M\<lparr>lg_chains := (lg_chains M)(a := lg_chains M a @ cs)\<rparr>)"
proof (induction cs rule: rev_induct)
  case (snoc tx cs)
  let ?M = "M\<lparr>lg_chains := (lg_chains M)(a := lg_chains M a @ cs)\<rparr>"
  have "moves inputID disk (map AddChain cs) M ?M" using snoc.prems by (intro snoc.IH) simp
  moreover have "moves inputID disk [AddChain tx] ?M (M\<lparr>lg_chains := (lg_chains M)(a := lg_chains M a @ cs @ [tx])\<rparr>)"
    using snoc.prems by (simp add: moves_Cons)
  ultimately show ?case unfolding map_append list.map by (rule moves_append)
qed simp

lemma moves_chains:
  "wf_gomap m \<Longrightarrow> \<forall>(a, cs) \<in> set m. \<forall>tx \<in> set cs. tx_Unsigned tx = CreateChainTx a \<Longrightarrow>
   moves inputID disk (concat (map (\<lambda>(_, cs). map AddChain cs) m)) M (M\<lparr>lg_chains := \<lambda>a. lg_chains M a @ list_at m a\<rparr>)"
  unfolding list_at_case
  by (rule moves_entries [where get = lg_chains and upd = "\<lambda>f. lg_chains_update (\<lambda>_. f)" and S = "set m" and fits = "\<lambda>_ _ _. True"
        and join = "\<lambda>cs old. old @ cs"]) (simp_all, blast intro: moves_chain_txs)

lemma moves_reward_list:
  "lg_rewards disk i = [] \<Longrightarrow> moves inputID disk (map (AddRewardUTXO i) us) M (M\<lparr>lg_rewards := (lg_rewards M)(i := lg_rewards M i @ us)\<rparr>)"
proof (induction us rule: rev_induct)
  case (snoc u us)
  let ?M = "M\<lparr>lg_rewards := (lg_rewards M)(i := lg_rewards M i @ us)\<rparr>"
  have "moves inputID disk (map (AddRewardUTXO i) us) M ?M" using snoc.prems by (intro snoc.IH)
  moreover have "moves inputID disk [AddRewardUTXO i u] ?M (M\<lparr>lg_rewards := (lg_rewards M)(i := lg_rewards M i @ us @ [u])\<rparr>)"
    using snoc.prems by (simp add: moves_Cons)
  ultimately show ?case unfolding map_append list.map by (rule moves_append)
qed simp

lemma moves_rewards:
  "wf_gomap m \<Longrightarrow> \<forall>(i, us) \<in> set m. lg_rewards disk i = [] \<Longrightarrow>
   moves inputID disk (concat (map (\<lambda>(i, us). map (AddRewardUTXO i) us) m)) M (M\<lparr>lg_rewards := \<lambda>i. lg_rewards M i @ list_at m i\<rparr>)"
  unfolding list_at_case
  by (rule moves_entries [where get = lg_rewards and upd = "\<lambda>f. lg_rewards_update (\<lambda>_. f)" and S = "set m" and fits = "\<lambda>_ _ _. True"
        and join = "\<lambda>us old. old @ us"]) (simp_all, blast intro: moves_reward_list)

lemma moves_subnets:
  "\<forall>tx \<in> set txs. is_CreateSubnetTx (tx_Unsigned tx) \<Longrightarrow> moves inputID disk (map AddSubnet txs) M
     (M\<lparr>lg_subnets := lg_subnets M @ txs, lg_owner := \<lambda>a. over (owners_of txs a) (lg_owner M a)\<rparr>)"
proof (induction txs rule: rev_induct)
  case (snoc tx txs)
  then have "moves inputID disk (map AddSubnet txs) M
     (M\<lparr>lg_subnets := lg_subnets M @ txs, lg_owner := \<lambda>a. over (owners_of txs a) (lg_owner M a)\<rparr>)" by simp
  moreover have "(\<lambda>a. over (owners_of (txs @ [tx]) a) (lg_owner M a))
      = (\<lambda>a. over (owners_of txs a) (lg_owner M a))(tx_ID tx \<mapsto> cs_Owner (tx_Unsigned tx))"
    by (simp add: owners_of_def fun_eq_iff)
  ultimately show ?case using snoc.prems by (auto intro: moves_append simp: moves_Cons)
qed (simp add: owners_of_def)

lemma moves_current:
  "steps_ok (lg_current M) cs \<Longrightarrow> moves inputID disk (map CurrentStaker cs) M (M\<lparr>lg_current := ss_run cs (lg_current M)\<rparr>)"
proof (induction cs arbitrary: M)
  case (Cons c cs)
  from Cons.IH [of "M\<lparr>lg_current := ss_call c (lg_current M)\<rparr>"] Cons.prems show ?case by (simp add: moves_Cons)
qed simp

lemma moves_pending:
  "steps_ok (lg_pending M) cs \<Longrightarrow> moves inputID disk (map PendingStaker cs) M (M\<lparr>lg_pending := ss_run cs (lg_pending M)\<rparr>)"
proof (induction cs arbitrary: M)
  case (Cons c cs)
  from Cons.IH [of "M\<lparr>lg_pending := ss_call c (lg_pending M)\<rparr>"] Cons.prems show ?case by (simp add: moves_Cons)
qed simp

text \<open>The same, from how a difference stands between two ledgers.\<close>

lemma segment_scalars:
  "moves inputID disk [SetTimestamp t] M (M\<lparr>lg_timestamp := t\<rparr>)"
  "rep_time t (lg_stakeSync M) t' \<Longrightarrow> moves inputID disk (if t \<noteq> 0 then [SetStakeSyncTimestamp t] else []) M (M\<lparr>lg_stakeSync := t'\<rparr>)"
  "rep_val r (lg_mintRate M) r' \<Longrightarrow> moves inputID disk (case r of None \<Rightarrow> [] | Some x \<Rightarrow> [SetStakerAccumulatedMintRate x]) M (M\<lparr>lg_mintRate := r'\<rparr>)"
  "rep_val f (lg_lastFee M) f' \<Longrightarrow> moves inputID disk (case f of None \<Rightarrow> [] | Some x \<Rightarrow> [SetLastAccumulatedFee x]) M (M\<lparr>lg_lastFee := f'\<rparr>)"
  "rep_val w (lg_feePerWeight M) w' \<Longrightarrow> moves inputID disk (case w of None \<Rightarrow> [] | Some x \<Rightarrow> [SetFeePerWeightStored x]) M (M\<lparr>lg_feePerWeight := w'\<rparr>)"
  "rep_fee a c (lg_fee M) a' \<Longrightarrow> moves inputID disk (if a > 0 then [AddCurrentAccumulatedFee a] else []) M (M\<lparr>lg_fee := a'\<rparr>)"
  by (auto simp: moves_Cons rep_time_def rep_val_def rep_fee_def word_gt_0 split: option.split)

lemma segment_supplies:
  "rep_map fits m (lg_supply M) f \<Longrightarrow> mset m' = mset m \<Longrightarrow> moves inputID disk (map (\<lambda>(a, x). SetCurrentSupply a x) m') M (M\<lparr>lg_supply := f\<rparr>)"
proof -
  assume m: "rep_map fits m (lg_supply M) f" "mset m' = mset m"
  then have "f = (\<lambda>a. over (map_of m a) (lg_supply M a))" by (simp add: rep_map_def fun_eq_iff)
  with moves_supplies [of m' inputID disk M] perm_map [OF m(2)] m(1) show ?thesis by (simp add: rep_map_def)
qed

lemma segment_transforms:
  assumes "rep_map (\<lambda>a tx. is_TransformSubnetTx (tx_Unsigned tx) \<and> ts_Subnet (ts_tx (tx_Unsigned tx)) = a) m (lg_transform M) f" "mset m' = mset m"
  shows "moves inputID disk (map (\<lambda>(_, tx). AddSubnetTransformation tx) m') M (M\<lparr>lg_transform := f\<rparr>)"
proof -
  have "f = (\<lambda>a. over (map_of m a) (lg_transform M a))" using assms(1) by (simp add: rep_map_def fun_eq_iff)
  with moves_transforms [of m' inputID disk M] perm_map [OF assms(2)] assms(1) show ?thesis by (simp add: rep_map_def)
qed

lemma segment_txs:
  assumes "rep_map (\<lambda>i (tx, st). tx_ID tx = i) m (lg_txs M) f" "mset m' = mset m"
    and "\<And>i tx st. f i = Some (tx, st) \<Longrightarrow> same_tx tx (lg_txs M i)"
  shows "moves inputID disk (map (\<lambda>(_, tx, st). AddTx tx st) m') M (M\<lparr>lg_txs := f\<rparr>)"
proof -
  have wf: "wf_gomap m" and f: "f = (\<lambda>i. over (map_of m i) (lg_txs M i))" using assms(1) by (simp_all add: rep_map_def fun_eq_iff)
  have "tx_ID tx = i \<and> same_tx tx (lg_txs M i)" if "(i, tx, st) \<in> set m" for i tx st
    using assms(1) that map_of_is_SomeI [OF wf that] assms(3) [of i tx st] by (auto simp: rep_map_def f)
  then show ?thesis using moves_txs [of m' M inputID disk] perm_map [OF assms(2) wf] by (auto simp: f)
qed

lemma segment_utxos:
  assumes "rep_utxos inputID m (lg_utxos M) f" "mset m' = mset m"
  shows "moves inputID disk (map (\<lambda>(i, x). case x of Some u \<Rightarrow> AddUTXO u | None \<Rightarrow> DeleteUTXO i) m') M (M\<lparr>lg_utxos := f\<rparr>)"
proof -
  have "f = (\<lambda>i. case map_of m i of None \<Rightarrow> lg_utxos M i | Some x \<Rightarrow> x)" using assms(1) by (simp add: rep_utxos_def fun_eq_iff)
  with moves_utxos [of m' inputID disk M] perm_map [OF assms(2)] assms(1) show ?thesis by (simp add: rep_utxos_def)
qed

lemma segment_delegatee:
  assumes "rep_map2 m (lg_delegatee M) f" "mset m' = mset m" "\<forall>x. mset (g x) = mset x"
    and "\<And>a b. f a b \<noteq> None \<Longrightarrow> lg_delegatee M a b \<noteq> None"
  shows "moves inputID disk (concat (map (\<lambda>(a, nodes). map (\<lambda>(b, x). SetDelegateeReward a b x) (g nodes)) m')) M (M\<lparr>lg_delegatee := f\<rparr>)"
proof -
  have wf: "wf_gomap2 m" and f: "f = (\<lambda>a b. over (lookup2 m a b) (lg_delegatee M a b))" using assms(1) by (simp_all add: rep_map2_def fun_eq_iff)
  note p = perm_map [OF assms(2) conjunct1 [OF wf]]
  have "lg_delegatee M a b \<noteq> None" if "(a, nodes) \<in> set m" "(b, x) \<in> set nodes" for a nodes b x
  proof -
    have "lookup2 m a b = Some x" using that wf map_of_is_SomeI [of m a nodes] map_of_is_SomeI [of nodes b x] by (auto simp: lookup2_def)
    then show ?thesis using assms(4) [of a b] by (simp add: f)
  qed
  moreover have "lookup2 m' = lookup2 m" by (simp add: lookup2_def fun_eq_iff p)
  ultimately show ?thesis using moves_delegatee [OF assms(3), of m' M inputID disk] wf p by (fastforce simp: f)
qed

lemma segment_chains:
  assumes "rep_chains m c (lg_chains M) f" "mset m' = mset m"
  shows "moves inputID disk (concat (map (\<lambda>(_, cs). map AddChain cs) m')) M (M\<lparr>lg_chains := f\<rparr>)"
proof -
  have wf: "wf_gomap m" and f: "f = (\<lambda>a. lg_chains M a @ list_at m a)" using assms(1) by (simp_all add: rep_chains_def fun_eq_iff)
  note p = perm_map [OF assms(2) wf]
  have "tx_Unsigned tx = CreateChainTx a" if "(a, cs) \<in> set m" "tx \<in> set cs" for a cs tx
    using assms(1) that map_of_is_SomeI [OF wf that(1)] by (auto simp: rep_chains_def list_at_def)
  moreover have "list_at m' = list_at m" by (simp add: list_at_def fun_eq_iff p)
  ultimately show ?thesis using moves_chains [of m' inputID disk M] p by (auto simp: f)
qed

lemma segment_rewards:
  assumes "rep_rewards m (lg_rewards M) f" "mset m' = mset m" "\<And>i. lg_rewards M i = [] \<Longrightarrow> lg_rewards disk i = []"
  shows "moves inputID disk (concat (map (\<lambda>(i, us). map (AddRewardUTXO i) us) m')) M (M\<lparr>lg_rewards := f\<rparr>)"
proof -
  have wf: "wf_gomap m" and f: "f = (\<lambda>i. lg_rewards M i @ list_at m i)" using assms(1) by (simp_all add: rep_rewards_def fun_eq_iff)
  note p = perm_map [OF assms(2) wf]
  have "lg_rewards disk i = []" if "(i, us) \<in> set m" for i us
    using assms(1,3) map_of_is_SomeI [OF wf that] by (auto simp: rep_rewards_def)
  moreover have "list_at m' = list_at m" by (simp add: list_at_def fun_eq_iff p)
  ultimately show ?thesis using moves_rewards [of m' disk inputID M] p by (auto simp: f)
qed

lemma segment_subnets:
  assumes "rep_subnets txs c (lg_subnets M) l" "rep_owners txs m (lg_owner M) f"
  shows "moves inputID disk (map AddSubnet txs) M (M\<lparr>lg_subnets := l, lg_owner := f\<rparr>)"
proof -
  have "l = lg_subnets M @ txs" "f = (\<lambda>a. over (owners_of txs a) (lg_owner M a))" using assms by (simp_all add: rep_subnets_def rep_owners_def fun_eq_iff)
  with moves_subnets [of txs inputID disk M] assms(1) show ?thesis by (simp add: rep_subnets_def)
qed

lemma segment_current:
  "diff_rep bt (lg_current M) seen gone ds A \<Longrightarrow> visiting_ok vis \<Longrightarrow> moves inputID disk (map CurrentStaker (staker_writes bt vis ds)) M (M\<lparr>lg_current := A\<rparr>)"
  using moves_current [of M "staker_writes bt vis ds" inputID disk] staker_writes_run [of vis bt "lg_current M" seen gone ds A] by simp

lemma segment_pending:
  "diff_rep bt (lg_pending M) seen gone ds A \<Longrightarrow> visiting_ok vis \<Longrightarrow> moves inputID disk (map PendingStaker (staker_writes bt vis ds)) M (M\<lparr>lg_pending := A\<rparr>)"
  using moves_pending [of M "staker_writes bt vis ds" inputID disk] staker_writes_run [of vis bt "lg_pending M" seen gone ds A] by simp

text \<open>When a difference may be applied: the delegatee rewards are those of known validators, and transactions are told apart by their identifiers.\<close>

definition may_apply :: "('pk, 'o, 'u) ledger \<Rightarrow> ('pk, 'o, 'u) ledger \<Rightarrow> bool" where
  "may_apply L0 L \<longleftrightarrow> (\<forall>a b. lg_delegatee L a b \<noteq> None \<longrightarrow> lg_delegatee L0 a b \<noteq> None)
     \<and> (\<forall>i tx st. lg_txs L i = Some (tx, st) \<longrightarrow> same_tx tx (lg_txs L0 i))"

lemma moves_eq: "moves inputID disk ws M M' \<Longrightarrow> M' = M'' \<Longrightarrow> moves inputID disk ws M M''"
  by simp

lemma Apply_moves:
  assumes "order_ok ord" "d_rep bt inputID L0 hc hp d L" "may_apply L0 L" "\<And>i. lg_rewards L0 i = [] \<Longrightarrow> lg_rewards disk i = []"
  shows "moves inputID disk (Apply_writes bt ord d) L0 L"
proof -
  note r = assms(2) [unfolded d_rep_def] and o = assms(1) [unfolded order_ok_def] and a = assms(3) [unfolded may_apply_def]
  show ?thesis unfolding Apply_writes_def
    apply (rule moves_eq)
     apply (rule moves_append [OF segment_scalars(1)])
     apply (rule moves_append [OF segment_scalars(2) [where t' = "lg_stakeSync L"]], simp add: r)
     apply (rule moves_append [OF segment_scalars(3) [where r' = "lg_mintRate L"]], simp add: r)
     apply (rule moves_append [OF segment_scalars(4) [where f' = "lg_lastFee L"]], simp add: r)
     apply (rule moves_append [OF segment_scalars(5) [where w' = "lg_feePerWeight L"]], simp add: r)
     apply (rule moves_append [OF segment_scalars(6) [where a' = "lg_fee L" and c = "d_currentAccumulatedFeeCache d"]], simp add: r)
     apply (rule moves_append [OF segment_supplies [where f = "lg_supply L" and m = "d_currentSupply d" and fits = "\<lambda>_ _. True"]], simp add: r, simp add: o)
     apply (rule moves_append [OF segment_current [where A = "lg_current L" and seen = "sh_seen hc" and gone = "sh_gone hc"]], simp add: r, simp add: o)
     apply (rule moves_append [OF segment_delegatee [where f = "lg_delegatee L" and m = "d_modifiedDelegateeRewards d"]], simp add: r, simp add: o, simp add: o, simp add: a)
     apply (rule moves_append [OF segment_pending [where A = "lg_pending L" and seen = "sh_seen hp" and gone = "sh_gone hp"]], simp add: r, simp add: o)
     apply (rule moves_append [OF segment_subnets [where l = "lg_subnets L" and f = "lg_owner L" and c = "d_cachedSubnets d" and m = "d_subnetOwners d"]], simp add: r, simp add: r)
     apply (rule moves_append [OF segment_transforms [where f = "lg_transform L" and m = "d_transformedSubnets d"]], simp add: r, simp add: o)
     apply (rule moves_append [OF segment_chains [where f = "lg_chains L" and m = "d_addedChains d" and c = "d_cachedChains d"]], simp add: r, simp add: o)
     apply (rule moves_append [OF segment_txs [where f = "lg_txs L" and m = "d_addedTxs d"]], simp add: r, simp add: o, simp add: a)
     apply (rule moves_append [OF segment_rewards [where f = "lg_rewards L" and m = "d_addedRewardUTXOs d"]], simp add: r, simp add: o, simp add: assms(4))
     apply (rule segment_utxos [where f = "lg_utxos L" and m = "d_modifiedUTXOs d"], simp add: r, simp add: o)
    apply (rule ledger.equality; simp add: r)
    done
qed

subsection \<open>The contract of a state that is written to\<close>

text \<open>A state below finds the owner of a subnet in the transaction that created it.\<close>

definition owner_in :: "('o Tx \<times> TxStatus) option \<Rightarrow> 'o option" where
  "owner_in x = (case x of Some (tx, _) \<Rightarrow> (case tx_Unsigned tx of CreateSubnetTx owner \<Rightarrow> Some owner | _ \<Rightarrow> None) | None \<Rightarrow> None)"

definition owners_match :: "('pk, 'o, 'u) ledger \<Rightarrow> bool" where
  "owners_match L \<longleftrightarrow> (\<forall>a. lg_owner L a = owner_in (lg_txs L a))"

locale chain_store =
  fixes inputID :: "'u \<Rightarrow> ID"
    and store :: "('pk, 'o, 'u) chain_write \<Rightarrow> 's \<Rightarrow> chain_error + 's"
    and read :: "'r \<Rightarrow> 's \<Rightarrow> 's"
    and chain :: "'s \<Rightarrow> ('pk, 'o, 'u) Chain"
    and holds_ledger :: "('pk, 'o, 'u) ledger \<Rightarrow> 's \<Rightarrow> ('pk, 'o, 'u) ledger \<Rightarrow> bool"
  assumes write_law: "holds_ledger disk s L \<Longrightarrow> store_ok disk L w \<Longrightarrow> \<exists>s'. store w s = Inr s' \<and> holds_ledger disk s' (lg_write inputID w L)"
    and read_law: "holds_ledger disk s L \<Longrightarrow> holds_ledger disk (read r s) L"
    and rewards_law: "holds_ledger disk s L \<Longrightarrow> lg_rewards L i = [] \<Longrightarrow> lg_rewards disk i = []"
    and shows_law: "holds_ledger disk s L \<Longrightarrow> owners_match L \<Longrightarrow> shows_ledger (chain s) L"
begin

lemma writes_law:
  "holds_ledger disk s L \<Longrightarrow> stores_ok inputID disk L ws \<Longrightarrow> \<exists>s'. write_all store ws s = Inr s' \<and> holds_ledger disk s' (lg_run inputID ws L)"
proof (induction ws arbitrary: s L)
  case (Cons w ws)
  then obtain s1 where "store w s = Inr s1" "holds_ledger disk s1 (lg_write inputID w L)" using write_law by fastforce
  with Cons.IH [of s1 "lg_write inputID w L"] Cons.prems(2) show ?case by simp
qed simp

lemma apply_law:
  assumes "order_ok ord" "d_rep bt inputID L0 hc hp d L" "may_apply L0 L" "holds_ledger disk s L0"
  shows "\<exists>s'. d_Apply store bt ord d s = Inr s' \<and> holds_ledger disk s' L"
  using Apply_moves [OF assms(1-3) rewards_law [OF assms(4)]] writes_law [OF assms(4)] by (fastforce simp: moves_def d_Apply_def)

text \<open>A difference over a store: what it shows, and what the store shows after it was applied.\<close>

lemma diff_over_store:
  assumes "btree_ok bt" "order_ok ord" "holds_ledger disk s L0" "ledger_sound L0" "owners_match L0"
    and "vs i = Some (chain s)" "writes_ok inputID L0 (start_of (lg_current L0)) (start_of (lg_pending L0)) L0 (writes_in es)"
    and "L = lg_run inputID (writes_in es) L0" "may_apply L0 L" "owners_match L"
  shows "\<exists>d0 d s'. NewDiff i vs = Inr d0 \<and> d_run bt inputID vs es d0 = Some d \<and> shows_ledger (diff_Chain bt vs d) L
    \<and> d_Apply store bt ord d s = Inr s' \<and> shows_ledger (chain s') L"
proof -
  obtain d0 :: "('pk, 'a, 'o, 'u) diff" where d0: "NewDiff i vs = Inr d0" using assms(6) by (simp add: NewDiff_def)
  note sh = shows_law [OF assms(3,5)]
  have r0: "d_rep bt inputID L0 (start_of (lg_current L0)) (start_of (lg_pending L0)) d0 L0" "vs (d_parentID d0) = Some (chain s)"
    using d_rep_New [OF d0 assms(6) sh assms(4), of bt inputID] assms(6) by auto
  obtain d hc hp where d: "d_run bt inputID vs es d0 = Some d" "d_rep bt inputID L0 hc hp d L" "vs (d_parentID d) = Some (chain s)"
    using d_rep_run [where vs = vs, OF assms(1) sh r0 assms(7)] assms(8) by blast
  obtain s' where s': "d_Apply store bt ord d s = Inr s'" "holds_ledger disk s' L" using apply_law [OF assms(2) d(2) assms(9,3)] by blast
  from d_shows [where vs = vs, OF d(2,3) sh] d0 d(1) s'(1) shows_law [OF s'(2) assms(10)] show ?thesis by blast
qed

end

end
