(* ===== verification/Chain_Base.thy ===== *)
theory Chain_Base
  imports Chain_Apply
begin

text \<open>
  The state that is stored, \<^verbatim>\<open>vms/omegavm/state/state.go\<close>: what was changed since the last commit, in memory, over caches and a database. The getters that
  load from the database keep what they found in a cache; a cache may drop entries whenever one is put into it. The database is the record of its
  answers, with the stored bytes decoded. Writing the changes to the database is not part of this theory.
\<close>

declare split_paired_All [simp del] split_paired_Ex [simp del]

subsection \<open>The database and the caches\<close>

text \<open>An iteration gives keys and, at its end, possibly an error.\<close>

record ('o, 'u) state_db =
  db_txs :: "ID \<Rightarrow> chain_error + 'o Tx \<times> TxStatus"
  db_subnets :: "ID list \<times> chain_error option"
  db_transformedSubnets :: "ID \<Rightarrow> chain_error + ID"
  db_chains :: "ID \<Rightarrow> ID list \<times> chain_error option"
  db_supplies :: "ID \<Rightarrow> chain_error + u64"
  db_rewardUTXOs :: "ID \<Rightarrow> 'u list \<times> chain_error option"
  db_utxos :: "ID \<Rightarrow> chain_error + 'u"

text \<open>What a cache keeps after an entry was put into it.\<close>

record ('o, 'u) keeps =
  keep_tx :: "(ID \<Rightarrow> ('o Tx \<times> TxStatus) option option) \<Rightarrow> (ID \<Rightarrow> ('o Tx \<times> TxStatus) option option)"
  keep_transform :: "(ID \<Rightarrow> 'o Tx option option) \<Rightarrow> (ID \<Rightarrow> 'o Tx option option)"
  keep_supply :: "(ID \<Rightarrow> u64 option option) \<Rightarrow> (ID \<Rightarrow> u64 option option)"
  keep_chain :: "(ID \<Rightarrow> 'o Tx list option) \<Rightarrow> (ID \<Rightarrow> 'o Tx list option)"
  keep_reward :: "(ID \<Rightarrow> 'u list option) \<Rightarrow> (ID \<Rightarrow> 'u list option)"

definition keeps_ok :: "('o, 'u) keeps \<Rightarrow> bool" where
  "keeps_ok kp \<longleftrightarrow> (\<forall>m. keep_tx kp m \<subseteq>\<^sub>m m) \<and> (\<forall>m. keep_transform kp m \<subseteq>\<^sub>m m) \<and> (\<forall>m. keep_supply kp m \<subseteq>\<^sub>m m)
     \<and> (\<forall>m. keep_chain kp m \<subseteq>\<^sub>m m) \<and> (\<forall>m. keep_reward kp m \<subseteq>\<^sub>m m)"

subsection \<open>The state\<close>

record ('pk, 't, 'o, 'u) state =
  s_validatorState :: validatorState
  s_currentStakers :: "('pk, 't) baseStakers"
  s_pendingStakers :: "('pk, 't) baseStakers"
  s_addedTxs :: "(ID, 'o Tx \<times> TxStatus) gomap"
  s_txCache :: "ID \<Rightarrow> ('o Tx \<times> TxStatus) option option"
  s_addedRewardUTXOs :: "(ID, 'u list) gomap"
  s_rewardUTXOsCache :: "ID \<Rightarrow> 'u list option"
  s_modifiedUTXOs :: "(ID, 'u option) gomap"
  s_cachedSubnets :: "'o Tx list"
  s_addedSubnets :: "'o Tx list"
  s_transformedSubnets :: "(ID, 'o Tx) gomap"
  s_transformedSubnetCache :: "ID \<Rightarrow> 'o Tx option option"
  s_modifiedSupplies :: "(ID, u64) gomap"
  s_supplyCache :: "ID \<Rightarrow> u64 option option"
  s_addedChains :: "(ID, 'o Tx list) gomap"
  s_chainCache :: "ID \<Rightarrow> 'o Tx list option"
  s_timestamp :: int
  s_currentSupply :: u64
  s_lastAccumulatedFee :: u64
  s_currentAccumulatedFee :: u64
  s_feePerWeightStored :: int
  s_stakerAccumulatedMintRate :: int
  s_stakeSyncTimestamp :: int

type_synonym ('pk, 't, 'o, 'u, 'a) getter = "('pk, 't, 'o, 'u) state \<Rightarrow> (chain_error + 'a) \<times> ('pk, 't, 'o, 'u) state"

definition s_GetTx :: "('o, 'u) keeps \<Rightarrow> ('o, 'u) state_db \<Rightarrow> ID \<Rightarrow> ('pk, 't, 'o, 'u, 'o Tx \<times> TxStatus) getter" where
  "s_GetTx kp db txID s =
     (case map_of (s_addedTxs s) txID of
        Some tx \<Rightarrow> (Inr tx, s)
      | None \<Rightarrow>
          (case s_txCache s txID of
             Some None \<Rightarrow> (Inl ErrNotFound, s)
           | Some (Some tx) \<Rightarrow> (Inr tx, s)
           | None \<Rightarrow>
               (case db_txs db txID of
                  Inl err \<Rightarrow> (Inl err, if err = ErrNotFound then s\<lparr>s_txCache := keep_tx kp ((s_txCache s)(txID \<mapsto> None))\<rparr> else s)
                | Inr ptx \<Rightarrow> (Inr ptx, s\<lparr>s_txCache := keep_tx kp ((s_txCache s)(txID \<mapsto> Some ptx))\<rparr>))))"

text \<open>The transactions of a list of identifiers; the error of the iteration comes last.\<close>

fun load_txs :: "('o, 'u) keeps \<Rightarrow> ('o, 'u) state_db \<Rightarrow> ID list \<Rightarrow> chain_error option \<Rightarrow> 'o Tx list \<Rightarrow> ('pk, 't, 'o, 'u, 'o Tx list) getter" where
  "load_txs kp db [] itErr txs s = (case itErr of Some err \<Rightarrow> (Inl err, s) | None \<Rightarrow> (Inr txs, s))"
| "load_txs kp db (txID # txIDs) itErr txs s =
     (case s_GetTx kp db txID s of
        (Inl err, s) \<Rightarrow> (Inl err, s)
      | (Inr (tx, _), s) \<Rightarrow> load_txs kp db txIDs itErr (txs @ [tx]) s)"

definition s_GetSubnets :: "('o, 'u) keeps \<Rightarrow> ('o, 'u) state_db \<Rightarrow> ('pk, 't, 'o, 'u, 'o Tx list) getter" where
  "s_GetSubnets kp db s =
     (if s_cachedSubnets s \<noteq> [] then (Inr (s_cachedSubnets s), s)
      else
        (case load_txs kp db (fst (db_subnets db)) (snd (db_subnets db)) [] s of
           (Inl err, s) \<Rightarrow> (Inl err, s)
         | (Inr txs, s) \<Rightarrow> let txs = txs @ s_addedSubnets s in (Inr txs, s\<lparr>s_cachedSubnets := txs\<rparr>)))"

definition s_AddSubnet :: "'o Tx \<Rightarrow> ('pk, 't, 'o, 'u) state \<Rightarrow> ('pk, 't, 'o, 'u) state" where
  "s_AddSubnet createSubnetTx s =
     (let s = s\<lparr>s_addedSubnets := s_addedSubnets s @ [createSubnetTx]\<rparr>
      in if s_cachedSubnets s \<noteq> [] then s\<lparr>s_cachedSubnets := s_cachedSubnets s @ [createSubnetTx]\<rparr> else s)"

definition s_GetSubnetOwner :: "('o, 'u) keeps \<Rightarrow> ('o, 'u) state_db \<Rightarrow> ID \<Rightarrow> ('pk, 't, 'o, 'u, 'o) getter" where
  "s_GetSubnetOwner kp db subnetID s =
     (case s_GetTx kp db subnetID s of
        (Inl err, s) \<Rightarrow> (Inl ErrCantFindSubnet, s)
      | (Inr (subnetIntf, _), s) \<Rightarrow>
          (case tx_Unsigned subnetIntf of CreateSubnetTx owner \<Rightarrow> (Inr owner, s) | _ \<Rightarrow> (Inl ErrIsNotSubnet, s)))"

definition s_GetSubnetTransformation :: "('o, 'u) keeps \<Rightarrow> ('o, 'u) state_db \<Rightarrow> ID \<Rightarrow> ('pk, 't, 'o, 'u, 'o Tx) getter" where
  "s_GetSubnetTransformation kp db subnetID s =
     (case map_of (s_transformedSubnets s) subnetID of
        Some tx \<Rightarrow> (Inr tx, s)
      | None \<Rightarrow>
          (case s_transformedSubnetCache s subnetID of
             Some None \<Rightarrow> (Inl ErrNotFound, s)
           | Some (Some tx) \<Rightarrow> (Inr tx, s)
           | None \<Rightarrow>
               (case db_transformedSubnets db subnetID of
                  Inl err \<Rightarrow> (Inl err, if err = ErrNotFound
                    then s\<lparr>s_transformedSubnetCache := keep_transform kp ((s_transformedSubnetCache s)(subnetID \<mapsto> None))\<rparr> else s)
                | Inr transformSubnetTxID \<Rightarrow>
                    (case s_GetTx kp db transformSubnetTxID s of
                       (Inl err, s) \<Rightarrow> (Inl err, s)
                     | (Inr (transformSubnetTx, _), s) \<Rightarrow>
                         (Inr transformSubnetTx,
                          s\<lparr>s_transformedSubnetCache := keep_transform kp ((s_transformedSubnetCache s)(subnetID \<mapsto> Some transformSubnetTx))\<rparr>)))))"

text \<open>The result None is a failed type assertion.\<close>

definition s_AddSubnetTransformation :: "'o Tx \<Rightarrow> ('pk, 't, 'o, 'u) state \<Rightarrow> ('pk, 't, 'o, 'u) state option" where
  "s_AddSubnetTransformation transformSubnetTxIntf s =
     (case tx_Unsigned transformSubnetTxIntf of
        TransformSubnetTx transformSubnetTx \<Rightarrow>
          Some (s\<lparr>s_transformedSubnets := AList.update (ts_Subnet transformSubnetTx) transformSubnetTxIntf (s_transformedSubnets s)\<rparr>)
      | _ \<Rightarrow> None)"

definition s_GetChains :: "('o, 'u) keeps \<Rightarrow> ('o, 'u) state_db \<Rightarrow> ID \<Rightarrow> ('pk, 't, 'o, 'u, 'o Tx list) getter" where
  "s_GetChains kp db subnetID s =
     (case s_chainCache s subnetID of
        Some chainTxs \<Rightarrow> (Inr chainTxs, s)
      | None \<Rightarrow>
          (case load_txs kp db (fst (db_chains db subnetID)) (snd (db_chains db subnetID)) [] s of
             (Inl err, s) \<Rightarrow> (Inl err, s)
           | (Inr txs, s) \<Rightarrow> let txs = txs @ list_at (s_addedChains s) subnetID
               in (Inr txs, s\<lparr>s_chainCache := keep_chain kp ((s_chainCache s)(subnetID \<mapsto> txs))\<rparr>)))"

definition s_AddChain :: "('o, 'u) keeps \<Rightarrow> 'o Tx \<Rightarrow> ('pk, 't, 'o, 'u) state \<Rightarrow> ('pk, 't, 'o, 'u) state option" where
  "s_AddChain kp createChainTxIntf s =
     (case tx_Unsigned createChainTxIntf of
        CreateChainTx subnetID \<Rightarrow>
          (let s = s\<lparr>s_addedChains := AList.update subnetID (list_at (s_addedChains s) subnetID @ [createChainTxIntf]) (s_addedChains s)\<rparr>
           in case s_chainCache s subnetID of
                None \<Rightarrow> Some s
              | Some chainTxs \<Rightarrow> Some (s\<lparr>s_chainCache := keep_chain kp ((s_chainCache s)(subnetID \<mapsto> chainTxs @ [createChainTxIntf]))\<rparr>))
      | _ \<Rightarrow> None)"

definition s_GetRewardUTXOs :: "('o, 'u) keeps \<Rightarrow> ('o, 'u) state_db \<Rightarrow> ID \<Rightarrow> ('pk, 't, 'o, 'u, 'u list) getter" where
  "s_GetRewardUTXOs kp db txID s =
     (case map_of (s_addedRewardUTXOs s) txID of
        Some utxos \<Rightarrow> (Inr utxos, s)
      | None \<Rightarrow>
          (case s_rewardUTXOsCache s txID of
             Some utxos \<Rightarrow> (Inr utxos, s)
           | None \<Rightarrow>
               (case db_rewardUTXOs db txID of
                  (utxos, Some err) \<Rightarrow> (Inl err, s)
                | (utxos, None) \<Rightarrow> (Inr utxos, s\<lparr>s_rewardUTXOsCache := keep_reward kp ((s_rewardUTXOsCache s)(txID \<mapsto> utxos))\<rparr>))))"

definition s_GetUTXO :: "('o, 'u) state_db \<Rightarrow> ID \<Rightarrow> ('pk, 't, 'o, 'u) state \<Rightarrow> chain_error + 'u" where
  "s_GetUTXO db utxoID s =
     (case map_of (s_modifiedUTXOs s) utxoID of
        Some None \<Rightarrow> Inl ErrNotFound
      | Some (Some utxo) \<Rightarrow> Inr utxo
      | None \<Rightarrow> db_utxos db utxoID)"

definition s_GetCurrentSupply :: "('o, 'u) keeps \<Rightarrow> ('o, 'u) state_db \<Rightarrow> ID \<Rightarrow> ('pk, 't, 'o, 'u, u64) getter" where
  "s_GetCurrentSupply kp db subnetID s =
     (if subnetID = PrimaryNetworkID then (Inr (s_currentSupply s), s)
      else
        (case map_of (s_modifiedSupplies s) subnetID of
           Some supply \<Rightarrow> (Inr supply, s)
         | None \<Rightarrow>
             (case s_supplyCache s subnetID of
                Some None \<Rightarrow> (Inl ErrNotFound, s)
              | Some (Some supply) \<Rightarrow> (Inr supply, s)
              | None \<Rightarrow>
                  (case db_supplies db subnetID of
                     Inl err \<Rightarrow> (Inl err, if err = ErrNotFound then s\<lparr>s_supplyCache := keep_supply kp ((s_supplyCache s)(subnetID \<mapsto> None))\<rparr> else s)
                   | Inr supply \<Rightarrow> (Inr supply, s\<lparr>s_supplyCache := keep_supply kp ((s_supplyCache s)(subnetID \<mapsto> Some supply))\<rparr>)))))"

definition s_SetCurrentSupply :: "ID \<Rightarrow> u64 \<Rightarrow> ('pk, 't, 'o, 'u) state \<Rightarrow> ('pk, 't, 'o, 'u) state" where
  "s_SetCurrentSupply subnetID cs s =
     (if subnetID = PrimaryNetworkID then s\<lparr>s_currentSupply := cs\<rparr>
      else s\<lparr>s_modifiedSupplies := AList.update subnetID cs (s_modifiedSupplies s)\<rparr>)"

definition s_SetTimestamp :: "int \<Rightarrow> ('pk, 't, 'o, 'u) state \<Rightarrow> ('pk, 't, 'o, 'u) state" where
  "s_SetTimestamp tm s = s\<lparr>s_timestamp := tm\<rparr>"

definition s_SetStakeSyncTimestamp :: "int \<Rightarrow> ('pk, 't, 'o, 'u) state \<Rightarrow> ('pk, 't, 'o, 'u) state" where
  "s_SetStakeSyncTimestamp tm s = s\<lparr>s_stakeSyncTimestamp := tm\<rparr>"

definition s_SetStakerAccumulatedMintRate :: "int \<Rightarrow> ('pk, 't, 'o, 'u) state \<Rightarrow> ('pk, 't, 'o, 'u) state" where
  "s_SetStakerAccumulatedMintRate mr s = s\<lparr>s_stakerAccumulatedMintRate := mr\<rparr>"

definition s_AddTx :: "'o Tx \<Rightarrow> TxStatus \<Rightarrow> ('pk, 't, 'o, 'u) state \<Rightarrow> ('pk, 't, 'o, 'u) state" where
  "s_AddTx tx status s = s\<lparr>s_addedTxs := AList.update (tx_ID tx) (tx, status) (s_addedTxs s)\<rparr>"

definition s_AddRewardUTXO :: "ID \<Rightarrow> 'u \<Rightarrow> ('pk, 't, 'o, 'u) state \<Rightarrow> ('pk, 't, 'o, 'u) state" where
  "s_AddRewardUTXO txID utxo s = s\<lparr>s_addedRewardUTXOs := AList.update txID (list_at (s_addedRewardUTXOs s) txID @ [utxo]) (s_addedRewardUTXOs s)\<rparr>"

definition s_AddUTXO :: "('u \<Rightarrow> ID) \<Rightarrow> 'u \<Rightarrow> ('pk, 't, 'o, 'u) state \<Rightarrow> ('pk, 't, 'o, 'u) state" where
  "s_AddUTXO inputID utxo s = s\<lparr>s_modifiedUTXOs := AList.update (inputID utxo) (Some utxo) (s_modifiedUTXOs s)\<rparr>"

definition s_DeleteUTXO :: "ID \<Rightarrow> ('pk, 't, 'o, 'u) state \<Rightarrow> ('pk, 't, 'o, 'u) state" where
  "s_DeleteUTXO utxoID s = s\<lparr>s_modifiedUTXOs := AList.update utxoID None (s_modifiedUTXOs s)\<rparr>"

definition s_SetFeePerWeightStored :: "int \<Rightarrow> ('pk, 't, 'o, 'u) state \<Rightarrow> ('pk, 't, 'o, 'u) state" where
  "s_SetFeePerWeightStored f s = s\<lparr>s_feePerWeightStored := f\<rparr>"

definition s_AddCurrentAccumulatedFee :: "u64 \<Rightarrow> ('pk, 't, 'o, 'u) state \<Rightarrow> ('pk, 't, 'o, 'u) state" where
  "s_AddCurrentAccumulatedFee f s = s\<lparr>s_currentAccumulatedFee := s_currentAccumulatedFee s + f\<rparr>"

definition s_SetLastAccumulatedFee :: "u64 \<Rightarrow> ('pk, 't, 'o, 'u) state \<Rightarrow> ('pk, 't, 'o, 'u) state" where
  "s_SetLastAccumulatedFee f s = s\<lparr>s_lastAccumulatedFee := f\<rparr>"

lemmas s_setters [simp] = s_SetTimestamp_def s_SetStakeSyncTimestamp_def s_SetStakerAccumulatedMintRate_def s_AddTx_def s_AddRewardUTXO_def s_AddUTXO_def s_DeleteUTXO_def s_SetFeePerWeightStored_def s_AddCurrentAccumulatedFee_def s_SetLastAccumulatedFee_def

text \<open>All setters. A panic is the error \<^verbatim>\<open>Panics\<close>.\<close>

definition unpanicked :: "'a option \<Rightarrow> chain_error + 'a" where
  "unpanicked r = (case r of None \<Rightarrow> Inl Panics | Some x \<Rightarrow> Inr x)"

fun s_write :: "('pk, 't) btree \<Rightarrow> ('u \<Rightarrow> ID) \<Rightarrow> ('o, 'u) keeps \<Rightarrow> ('pk, 'o, 'u) chain_write \<Rightarrow> ('pk, 't, 'o, 'u) state
     \<Rightarrow> chain_error + ('pk, 't, 'o, 'u) state" where
  "s_write bt inputID kp (SetTimestamp tm) s = Inr (s_SetTimestamp tm s)"
| "s_write bt inputID kp (SetStakeSyncTimestamp tm) s = Inr (s_SetStakeSyncTimestamp tm s)"
| "s_write bt inputID kp (SetStakerAccumulatedMintRate mr) s = Inr (s_SetStakerAccumulatedMintRate mr s)"
| "s_write bt inputID kp (SetCurrentSupply subnetID cs) s = Inr (s_SetCurrentSupply subnetID cs s)"
| "s_write bt inputID kp (SetDelegateeReward subnetID vdrID amount) s =
     (case SetPotentialDelegateeReward subnetID vdrID amount (s_validatorState s) of
        None \<Rightarrow> Inl ErrNotFound
      | Some m \<Rightarrow> Inr (s\<lparr>s_validatorState := m\<rparr>))"
| "s_write bt inputID kp (CurrentStaker c) s = res_bind (unpanicked (bs_call bt c (s_currentStakers s))) (\<lambda>v. Inr (s\<lparr>s_currentStakers := v\<rparr>))"
| "s_write bt inputID kp (PendingStaker c) s = res_bind (unpanicked (bs_call bt c (s_pendingStakers s))) (\<lambda>v. Inr (s\<lparr>s_pendingStakers := v\<rparr>))"
| "s_write bt inputID kp (AddSubnet tx) s = Inr (s_AddSubnet tx s)"
| "s_write bt inputID kp (AddSubnetTransformation tx) s = unpanicked (s_AddSubnetTransformation tx s)"
| "s_write bt inputID kp (AddChain tx) s = unpanicked (s_AddChain kp tx s)"
| "s_write bt inputID kp (AddTx tx status) s = Inr (s_AddTx tx status s)"
| "s_write bt inputID kp (AddRewardUTXO txID utxo) s = Inr (s_AddRewardUTXO txID utxo s)"
| "s_write bt inputID kp (AddUTXO utxo) s = Inr (s_AddUTXO inputID utxo s)"
| "s_write bt inputID kp (DeleteUTXO utxoID) s = Inr (s_DeleteUTXO utxoID s)"
| "s_write bt inputID kp (SetFeePerWeightStored f) s = Inr (s_SetFeePerWeightStored f s)"
| "s_write bt inputID kp (AddCurrentAccumulatedFee f) s = Inr (s_AddCurrentAccumulatedFee f s)"
| "s_write bt inputID kp (SetLastAccumulatedFee f) s = Inr (s_SetLastAccumulatedFee f s)"

text \<open>The getters that load something, and the state as a chain state that differences build on.\<close>

datatype state_read = LoadTx ID | LoadSubnets | LoadOwner ID | LoadTransformation ID | LoadChains ID | LoadRewardUTXOs ID | LoadSupply ID

fun s_read :: "('o, 'u) keeps \<Rightarrow> ('o, 'u) state_db \<Rightarrow> state_read \<Rightarrow> ('pk, 't, 'o, 'u) state \<Rightarrow> ('pk, 't, 'o, 'u) state" where
  "s_read kp db (LoadTx i) s = snd (s_GetTx kp db i s)"
| "s_read kp db LoadSubnets s = snd (s_GetSubnets kp db s)"
| "s_read kp db (LoadOwner a) s = snd (s_GetSubnetOwner kp db a s)"
| "s_read kp db (LoadTransformation a) s = snd (s_GetSubnetTransformation kp db a s)"
| "s_read kp db (LoadChains a) s = snd (s_GetChains kp db a s)"
| "s_read kp db (LoadRewardUTXOs i) s = snd (s_GetRewardUTXOs kp db i s)"
| "s_read kp db (LoadSupply a) s = snd (s_GetCurrentSupply kp db a s)"

definition state_Chain :: "('pk, 't) btree \<Rightarrow> ('o, 'u) keeps \<Rightarrow> ('o, 'u) state_db \<Rightarrow> ('pk, 't, 'o, 'u) state \<Rightarrow> ('pk, 'o, 'u) Chain" where
  "state_Chain bt kp db s =
     \<lparr>GetTimestamp = s_timestamp s, GetStakeSyncTimestamp = Inr (s_stakeSyncTimestamp s),
      GetStakerAccumulatedMintRate = Inr (s_stakerAccumulatedMintRate s), GetCurrentSupply = (\<lambda>a. fst (s_GetCurrentSupply kp db a s)),
      GetCurrentValidator = (\<lambda>a b. found (bs_GetValidator a b (s_currentStakers s))),
      GetDelegateeReward = (\<lambda>a b. found (GetPotentialDelegateeReward a b (s_validatorState s))),
      GetCurrentDelegatorIterator = (\<lambda>a b. Inr (bs_GetDelegatorIterator bt a b (s_currentStakers s))),
      GetCurrentStakerIterator = Inr (bs_GetStakerIterator bt (s_currentStakers s)),
      GetCurrentStakersLen = Inr (of_nat (bt_Len bt (bs_stakers (s_currentStakers s)))),
      GetPendingValidator = (\<lambda>a b. found (bs_GetValidator a b (s_pendingStakers s))),
      GetPendingDelegatorIterator = (\<lambda>a b. Inr (bs_GetDelegatorIterator bt a b (s_pendingStakers s))),
      GetPendingStakerIterator = Inr (bs_GetStakerIterator bt (s_pendingStakers s)),
      GetPendingStakersLen = Inr (of_nat (bt_Len bt (bs_stakers (s_pendingStakers s)))),
      GetSubnets = fst (s_GetSubnets kp db s), GetSubnetOwner = (\<lambda>a. fst (s_GetSubnetOwner kp db a s)),
      GetSubnetTransformation = (\<lambda>a. fst (s_GetSubnetTransformation kp db a s)), GetChains = (\<lambda>a. fst (s_GetChains kp db a s)),
      GetTx = (\<lambda>i. fst (s_GetTx kp db i s)), GetRewardUTXOs = (\<lambda>i. fst (s_GetRewardUTXOs kp db i s)), GetUTXO = (\<lambda>i. s_GetUTXO db i s),
      GetFeePerWeightStored = Inr (s_feePerWeightStored s), GetCurrentAccumulatedFee = Inr (s_currentAccumulatedFee s),
      GetLastAccumulatedFee = Inr (s_lastAccumulatedFee s)\<rparr>"

subsection \<open>The state holds a ledger\<close>

text \<open>What the database answers when it holds a ledger: subnets, transformations and chains are stored as identifiers of transactions.\<close>

definition stored :: "('pk, 'o, 'u) ledger \<Rightarrow> 'o Tx \<Rightarrow> bool" where
  "stored L tx \<longleftrightarrow> (\<exists>st. lg_txs L (tx_ID tx) = Some (tx, st))"

definition db_holds :: "('o, 'u) state_db \<Rightarrow> ('pk, 'o, 'u) ledger \<Rightarrow> bool" where
  "db_holds db disk \<longleftrightarrow> (\<forall>i. db_txs db i = found (lg_txs disk i))
     \<and> db_subnets db = (map tx_ID (lg_subnets disk), None) \<and> (\<forall>tx \<in> set (lg_subnets disk). stored disk tx)
     \<and> (\<forall>a. db_transformedSubnets db a = found (map_option tx_ID (lg_transform disk a))) \<and> (\<forall>a tx. lg_transform disk a = Some tx \<longrightarrow> stored disk tx)
     \<and> (\<forall>a. db_chains db a = (map tx_ID (lg_chains disk a), None)) \<and> (\<forall>a. \<forall>tx \<in> set (lg_chains disk a). stored disk tx)
     \<and> (\<forall>a. a \<noteq> PrimaryNetworkID \<longrightarrow> db_supplies db a = found (lg_supply disk a))
     \<and> (\<forall>i. db_rewardUTXOs db i = (lg_rewards disk i, None)) \<and> (\<forall>i. db_utxos db i = found (lg_utxos disk i))"

definition cache_ok :: "('k \<Rightarrow> 'v option) \<Rightarrow> ('k \<Rightarrow> 'v) \<Rightarrow> bool" where
  "cache_ok c f \<longleftrightarrow> (\<forall>k x. c k = Some x \<longrightarrow> x = f k)"

lemma cache_ok_put: "(\<forall>m. kp m \<subseteq>\<^sub>m m) \<Longrightarrow> cache_ok c f \<Longrightarrow> x = f k \<Longrightarrow> cache_ok (kp (c(k \<mapsto> x))) f"
  unfolding cache_ok_def by (metis (no_types, lifting) domI fun_upd_apply map_le_def option.inject)

definition rep_supply :: "(ID, u64) gomap \<Rightarrow> u64 \<Rightarrow> (ID \<Rightarrow> u64 option) \<Rightarrow> (ID \<Rightarrow> u64 option) \<Rightarrow> bool" where
  "rep_supply m primary old now \<longleftrightarrow> wf_gomap m \<and> now PrimaryNetworkID = Some primary
     \<and> (\<forall>a. a \<noteq> PrimaryNetworkID \<longrightarrow> now a = over (map_of m a) (old a))"

definition rep_base :: "('pk, 't) btree \<Rightarrow> ('pk, 't) baseStakers \<Rightarrow> 'pk staker_set \<Rightarrow> bool" where
  "rep_base bt v A \<longleftrightarrow> base_rep bt v A \<and> sound A"

definition rep_txs :: "(ID, 'o Tx \<times> TxStatus) gomap \<Rightarrow> (ID \<Rightarrow> ('o Tx \<times> TxStatus) option) \<Rightarrow> (ID \<Rightarrow> ('o Tx \<times> TxStatus) option) \<Rightarrow> bool" where
  "rep_txs m old now \<longleftrightarrow> rep_map (\<lambda>_ _. True) m old now \<and> (\<forall>i tx st. old i = Some (tx, st) \<longrightarrow> (\<exists>st'. now i = Some (tx, st')))"

definition s_rep :: "('pk, 't) btree \<Rightarrow> ('u \<Rightarrow> ID) \<Rightarrow> ('pk, 'o, 'u) ledger \<Rightarrow> ('pk, 't, 'o, 'u) state \<Rightarrow> ('pk, 'o, 'u) ledger \<Rightarrow> bool" where
  "s_rep bt inputID disk s L \<longleftrightarrow> lg_timestamp L = s_timestamp s \<and> lg_stakeSync L = s_stakeSyncTimestamp s
     \<and> lg_mintRate L = s_stakerAccumulatedMintRate s \<and> rep_supply (s_modifiedSupplies s) (s_currentSupply s) (lg_supply disk) (lg_supply L)
     \<and> (\<forall>a b. lg_delegatee L a b = GetPotentialDelegateeReward a b (s_validatorState s))
     \<and> rep_base bt (s_currentStakers s) (lg_current L) \<and> rep_base bt (s_pendingStakers s) (lg_pending L)
     \<and> rep_subnets (s_addedSubnets s) (s_cachedSubnets s) (lg_subnets disk) (lg_subnets L)
     \<and> rep_map (\<lambda>_ _. True) (s_transformedSubnets s) (lg_transform disk) (lg_transform L)
     \<and> rep_chains (s_addedChains s) (s_chainCache s) (lg_chains disk) (lg_chains L)
     \<and> rep_txs (s_addedTxs s) (lg_txs disk) (lg_txs L)
     \<and> rep_rewards (s_addedRewardUTXOs s) (lg_rewards disk) (lg_rewards L)
     \<and> rep_utxos inputID (s_modifiedUTXOs s) (lg_utxos disk) (lg_utxos L)
     \<and> lg_feePerWeight L = s_feePerWeightStored s \<and> lg_fee L = s_currentAccumulatedFee s \<and> lg_lastFee L = s_lastAccumulatedFee s
     \<and> cache_ok (s_txCache s) (lg_txs disk) \<and> cache_ok (s_transformedSubnetCache s) (lg_transform disk)
     \<and> cache_ok (s_supplyCache s) (lg_supply disk) \<and> cache_ok (s_rewardUTXOsCache s) (lg_rewards disk)"

definition holds_state :: "('pk, 't) btree \<Rightarrow> ('u \<Rightarrow> ID) \<Rightarrow> ('o, 'u) keeps \<Rightarrow> ('o, 'u) state_db \<Rightarrow> ('pk, 'o, 'u) ledger \<Rightarrow> ('pk, 't, 'o, 'u) state
     \<Rightarrow> ('pk, 'o, 'u) ledger \<Rightarrow> bool" where
  "holds_state bt inputID kp db disk s L \<longleftrightarrow> btree_ok bt \<and> keeps_ok kp \<and> db_holds db disk \<and> s_rep bt inputID disk s L"

subsubsection \<open>Writes\<close>

lemma unpanicked_simps [simp]: "unpanicked (Some x) = Inr x" "unpanicked None = Inl Panics"
  by (simp_all add: unpanicked_def)

lemma rep_supply_write:
  "rep_supply m p old now \<Longrightarrow> rep_supply m x old (now(PrimaryNetworkID \<mapsto> x))"
  "rep_supply m p old now \<Longrightarrow> a \<noteq> PrimaryNetworkID \<Longrightarrow> rep_supply (AList.update a x m) p old (now(a \<mapsto> x))"
  by (auto simp: rep_supply_def intro: wf_gomap_update)

lemma rep_base_call:
  assumes "btree_ok bt" "rep_base bt v A" "call_ok (ids_of A) A c"
  shows "\<exists>v'. bs_call bt c v = Some v' \<and> rep_base bt v' (ss_call c A)"
  using base_call [OF assms(1), of v A c] assms(2,3) sound_call [of A c] by (auto simp: rep_base_def)

lemma rep_txs_write: "rep_txs m old now \<Longrightarrow> same_tx tx (now (tx_ID tx)) \<Longrightarrow> rep_txs (AList.update (tx_ID tx) (tx, st) m) old (now(tx_ID tx \<mapsto> (tx, st)))"
  unfolding rep_txs_def by (auto simp: rep_writes same_tx_def) (metis option.inject prod.inject)+

lemma rep_chains_keep:
  assumes "\<forall>m. kp m \<subseteq>\<^sub>m m" "rep_chains fresh cached old now" "tx_Unsigned tx = CreateChainTx a" "cached a = Some cs"
  shows "rep_chains (AList.update a (list_at fresh a @ [tx]) fresh) (kp (cached(a \<mapsto> cs @ [tx]))) old (now(a := now a @ [tx]))"
proof -
  have k: "kp (cached(a \<mapsto> cs @ [tx])) b = Some x \<Longrightarrow> (cached(a \<mapsto> cs @ [tx])) b = Some x" for b x
    using assms(1) by (metis domI map_le_def)
  have "rep_chains (AList.update a (list_at fresh a @ [tx]) fresh) (cached(a \<mapsto> cs @ [tx])) old (now(a := now a @ [tx]))"
    using rep_chains_write [OF assms(2,3)] assms(4) by simp
  then show ?thesis using k unfolding rep_chains_def by blast
qed

lemma delegatee_write:
  assumes "GetPotentialDelegateeReward a b m \<noteq> None"
  shows "\<exists>m'. SetPotentialDelegateeReward a b x m = Some m'
    \<and> (\<forall>a' b'. GetPotentialDelegateeReward a' b' m' = (if a' = a \<and> b' = b then Some x else GetPotentialDelegateeReward a' b' m))"
  using assms by (auto simp: SetPotentialDelegateeReward_def GetPotentialDelegateeReward_def addUpdated_eq)

lemma s_rep_write:
  assumes "holds_state bt inputID kp db disk s L" "store_ok disk L w"
  shows "\<exists>s'. s_write bt inputID kp w s = Inr s' \<and> holds_state bt inputID kp db disk s' (lg_write inputID w L)"
proof -
  note h = assms(1) [unfolded holds_state_def] and r = conjunct2 [OF conjunct2 [OF conjunct2 [OF assms(1) [unfolded holds_state_def]]], unfolded s_rep_def]
  show ?thesis
  proof (cases w)
    case (CurrentStaker c)
    obtain v where "bs_call bt c (s_currentStakers s) = Some v" "rep_base bt v (ss_call c (lg_current L))"
      using rep_base_call [of bt "s_currentStakers s" "lg_current L" c] h r assms(2) by (auto simp: CurrentStaker)
    with h r show ?thesis by (simp add: CurrentStaker holds_state_def s_rep_def)
  next
    case (PendingStaker c)
    obtain v where "bs_call bt c (s_pendingStakers s) = Some v" "rep_base bt v (ss_call c (lg_pending L))"
      using rep_base_call [of bt "s_pendingStakers s" "lg_pending L" c] h r assms(2) by (auto simp: PendingStaker)
    with h r show ?thesis by (simp add: PendingStaker holds_state_def s_rep_def)
  next
    case (SetDelegateeReward a b x)
    obtain m' where "SetPotentialDelegateeReward a b x (s_validatorState s) = Some m'"
      "\<forall>a' b'. GetPotentialDelegateeReward a' b' m' = (if a' = a \<and> b' = b then Some x else GetPotentialDelegateeReward a' b' (s_validatorState s))"
      using delegatee_write [of a b "s_validatorState s" x] r assms(2) by (auto simp: SetDelegateeReward)
    with h r show ?thesis by (simp add: SetDelegateeReward holds_state_def s_rep_def)
  next
    case (SetCurrentSupply a x)
    with h r rep_supply_write [of "s_modifiedSupplies s" "s_currentSupply s" "lg_supply disk" "lg_supply L"] show ?thesis
      by (cases "a = PrimaryNetworkID") (simp_all add: holds_state_def s_rep_def s_SetCurrentSupply_def)
  next
    case (AddSubnet tx)
    with h r assms(2) rep_subnets_write [of "s_addedSubnets s" "s_cachedSubnets s" "lg_subnets disk" "lg_subnets L" tx] show ?thesis
      by (cases "s_cachedSubnets s = []") (simp_all add: holds_state_def s_rep_def s_AddSubnet_def)
  next
    case (AddSubnetTransformation tx)
    with h r assms(2) show ?thesis by (cases "tx_Unsigned tx") (simp_all add: holds_state_def s_rep_def s_AddSubnetTransformation_def rep_writes)
  next
    case (AddChain tx)
    then obtain a where a: "tx_Unsigned tx = CreateChainTx a" using assms(2) by (cases "tx_Unsigned tx") auto
    have k: "\<forall>m. keep_chain kp m \<subseteq>\<^sub>m m" using h by (simp add: keeps_ok_def)
    show ?thesis
    proof (cases "s_chainCache s a")
      case None
      with AddChain a h r rep_chains_write [of "s_addedChains s" "s_chainCache s" "lg_chains disk" "lg_chains L" tx a] show ?thesis
        by (simp add: holds_state_def s_rep_def s_AddChain_def fun_upd_idem)
    next
      case (Some cs)
      with AddChain a h r rep_chains_keep [OF k, of "s_addedChains s" "s_chainCache s" "lg_chains disk" "lg_chains L" tx a cs] show ?thesis
        by (simp add: holds_state_def s_rep_def s_AddChain_def)
    qed
  next
    case (AddTx tx st)
    with h r assms(2) rep_txs_write [of "s_addedTxs s" "lg_txs disk" "lg_txs L" tx st] show ?thesis
      by (simp add: holds_state_def s_rep_def same_tx_def)
  qed (use h r assms(2) in \<open>simp_all add: holds_state_def s_rep_def rep_writes\<close>)
qed

subsubsection \<open>Reads\<close>

text \<open>Reading a transaction gives what the ledger says and only changes the cache.\<close>

lemma GetTx_spec:
  assumes "holds_state bt inputID kp db disk s L"
  shows "\<exists>c. s_GetTx kp db i s = (found (lg_txs L i), s\<lparr>s_txCache := c\<rparr>) \<and> cache_ok c (lg_txs disk)"
proof -
  note h = assms [unfolded holds_state_def s_rep_def rep_txs_def rep_map_def db_holds_def]
  have k: "\<forall>m. keep_tx kp m \<subseteq>\<^sub>m m" and c: "cache_ok (s_txCache s) (lg_txs disk)" using h by (simp_all add: keeps_ok_def)
  have now: "lg_txs L i = over (map_of (s_addedTxs s) i) (lg_txs disk i)" and db: "db_txs db i = found (lg_txs disk i)" using h by blast+
  show ?thesis
  proof (cases "map_of (s_addedTxs s) i")
    case None
    show ?thesis
    proof (cases "s_txCache s i")
      case None2: None
      show ?thesis using cache_ok_put [OF k c, of "lg_txs disk i" i]
        by (cases "lg_txs disk i") (auto simp: s_GetTx_def None None2 now db)
    next
      case (Some x)
      then have "x = lg_txs disk i" using c by (simp add: cache_ok_def)
      with Some None now c show ?thesis by (cases "lg_txs disk i") (auto simp: s_GetTx_def intro!: exI [of _ "s_txCache s"])
    qed
  next
    case (Some tx)
    with now c show ?thesis by (auto simp: s_GetTx_def intro!: exI [of _ "s_txCache s"])
  qed
qed

lemma holds_txCache: "holds_state bt inputID kp db disk s L \<Longrightarrow> cache_ok c (lg_txs disk) \<Longrightarrow> holds_state bt inputID kp db disk (s\<lparr>s_txCache := c\<rparr>) L"
  by (simp add: holds_state_def s_rep_def)

lemma load_txs_spec:
  "holds_state bt inputID kp db disk s L \<Longrightarrow> \<forall>tx \<in> set txs. stored disk tx \<Longrightarrow>
   \<exists>c. load_txs kp db (map tx_ID txs) None acc s = (Inr (acc @ txs), s\<lparr>s_txCache := c\<rparr>) \<and> cache_ok c (lg_txs disk)"
proof (induction txs arbitrary: s acc)
  case Nil
  then have "cache_ok (s_txCache s) (lg_txs disk)" by (simp add: holds_state_def s_rep_def)
  then show ?case by (auto intro!: exI [of _ "s_txCache s"])
next
  case (Cons tx txs)
  obtain c where c: "s_GetTx kp db (tx_ID tx) s = (found (lg_txs L (tx_ID tx)), s\<lparr>s_txCache := c\<rparr>)" "cache_ok c (lg_txs disk)"
    using GetTx_spec [OF Cons.prems(1)] by blast
  obtain st where st: "lg_txs L (tx_ID tx) = Some (tx, st)"
    using Cons.prems by (force simp: stored_def holds_state_def s_rep_def rep_txs_def)
  from Cons.IH [OF holds_txCache [OF Cons.prems(1) c(2)], of "acc @ [tx]"] Cons.prems(2) c(1) show ?case by (simp add: st)
qed

lemma GetSubnets_spec:
  assumes "holds_state bt inputID kp db disk s L"
  shows "fst (s_GetSubnets kp db s) = Inr (lg_subnets L)" "holds_state bt inputID kp db disk (snd (s_GetSubnets kp db s)) L"
proof -
  have d: "db_subnets db = (map tx_ID (lg_subnets disk), None)" "\<forall>tx \<in> set (lg_subnets disk). stored disk tx"
    and r: "rep_subnets (s_addedSubnets s) (s_cachedSubnets s) (lg_subnets disk) (lg_subnets L)"
    using assms by (simp_all add: holds_state_def db_holds_def s_rep_def)
  obtain c where c: "load_txs kp db (map tx_ID (lg_subnets disk)) None [] s = (Inr ([] @ lg_subnets disk), s\<lparr>s_txCache := c\<rparr>)" "cache_ok c (lg_txs disk)"
    using load_txs_spec [OF assms d(2)] by blast
  have h: "holds_state bt inputID kp db disk (s\<lparr>s_txCache := c, s_cachedSubnets := lg_subnets L\<rparr>) L"
    using holds_txCache [OF assms c(2)] by (simp add: holds_state_def s_rep_def rep_subnets_def)
  have now: "lg_subnets L = lg_subnets disk @ s_addedSubnets s" and ca: "s_cachedSubnets s \<noteq> [] \<Longrightarrow> s_cachedSubnets s = lg_subnets L"
    using r by (simp_all add: rep_subnets_def)
  show "fst (s_GetSubnets kp db s) = Inr (lg_subnets L)" using ca by (simp add: s_GetSubnets_def d(1) c(1) now Let_def)
  show "holds_state bt inputID kp db disk (snd (s_GetSubnets kp db s)) L" using ca assms h by (simp add: s_GetSubnets_def d(1) c(1) now Let_def)
qed

lemma GetChains_spec:
  assumes "holds_state bt inputID kp db disk s L"
  shows "fst (s_GetChains kp db a s) = Inr (lg_chains L a)" "holds_state bt inputID kp db disk (snd (s_GetChains kp db a s)) L"
proof -
  have d: "db_chains db a = (map tx_ID (lg_chains disk a), None)" "\<forall>tx \<in> set (lg_chains disk a). stored disk tx"
    and r: "rep_chains (s_addedChains s) (s_chainCache s) (lg_chains disk) (lg_chains L)" and k: "\<forall>m. keep_chain kp m \<subseteq>\<^sub>m m"
    using assms by (simp_all add: holds_state_def db_holds_def s_rep_def keeps_ok_def)
  obtain c where c: "load_txs kp db (map tx_ID (lg_chains disk a)) None [] s = (Inr ([] @ lg_chains disk a), s\<lparr>s_txCache := c\<rparr>)" "cache_ok c (lg_txs disk)"
    using load_txs_spec [OF assms d(2)] by blast
  have ca: "cache_ok (s_chainCache s) (lg_chains L)" and now: "lg_chains L a = lg_chains disk a @ list_at (s_addedChains s) a"
    using r unfolding rep_chains_def cache_ok_def by blast+
  have "cache_ok (keep_chain kp ((s_chainCache s)(a \<mapsto> lg_chains L a))) (lg_chains L)" by (rule cache_ok_put [OF k ca refl])
  then have "rep_chains (s_addedChains s) (keep_chain kp ((s_chainCache s)(a \<mapsto> lg_chains L a))) (lg_chains disk) (lg_chains L)"
    using r by (simp add: rep_chains_def cache_ok_def)
  then have h: "holds_state bt inputID kp db disk (s\<lparr>s_txCache := c, s_chainCache := keep_chain kp ((s_chainCache s)(a \<mapsto> lg_chains L a))\<rparr>) L"
    using holds_txCache [OF assms c(2)] by (simp add: holds_state_def s_rep_def)
  have "s_chainCache s a = Some x \<Longrightarrow> x = lg_chains L a" for x using ca by (simp add: cache_ok_def)
  then show "fst (s_GetChains kp db a s) = Inr (lg_chains L a)"
    by (cases "s_chainCache s a") (simp_all add: s_GetChains_def d(1) c(1) now Let_def)
  show "holds_state bt inputID kp db disk (snd (s_GetChains kp db a s)) L" using assms h
    by (simp add: s_GetChains_def d(1) c(1) now Let_def split: option.split)
qed

lemma GetSubnetTransformation_spec:
  assumes "holds_state bt inputID kp db disk s L"
  shows "fst (s_GetSubnetTransformation kp db a s) = found (lg_transform L a) \<and> holds_state bt inputID kp db disk (snd (s_GetSubnetTransformation kp db a s)) L"
proof -
  have d: "db_transformedSubnets db a = found (map_option tx_ID (lg_transform disk a))" "\<And>tx. lg_transform disk a = Some tx \<Longrightarrow> stored disk tx"
    and now: "lg_transform L a = over (map_of (s_transformedSubnets s) a) (lg_transform disk a)" and k: "\<forall>m. keep_transform kp m \<subseteq>\<^sub>m m"
    and ca: "cache_ok (s_transformedSubnetCache s) (lg_transform disk)"
    using assms by (simp_all add: holds_state_def db_holds_def s_rep_def keeps_ok_def rep_map_def)
  have put: "holds_state bt inputID kp db disk (s'\<lparr>s_transformedSubnetCache := keep_transform kp ((s_transformedSubnetCache s)(a \<mapsto> lg_transform disk a))\<rparr>) L"
    if "holds_state bt inputID kp db disk s' L" for s'
    using that cache_ok_put [OF k ca refl, of a] by (simp add: holds_state_def s_rep_def)
  consider (mem) tx where "map_of (s_transformedSubnets s) a = Some tx"
    | (cached) "map_of (s_transformedSubnets s) a = None" "s_transformedSubnetCache s a = Some (lg_transform disk a)"
    | (none) "map_of (s_transformedSubnets s) a = None" "s_transformedSubnetCache s a = None" "lg_transform disk a = None"
    | (some) tx where "map_of (s_transformedSubnets s) a = None" "s_transformedSubnetCache s a = None" "lg_transform disk a = Some tx"
    using ca by (cases "map_of (s_transformedSubnets s) a"; cases "s_transformedSubnetCache s a"; cases "lg_transform disk a") (auto simp: cache_ok_def)
  then show ?thesis
  proof cases
    case (some tx)
    obtain c where c: "s_GetTx kp db (tx_ID tx) s = (found (lg_txs L (tx_ID tx)), s\<lparr>s_txCache := c\<rparr>)" "cache_ok c (lg_txs disk)"
      using GetTx_spec [OF assms] by blast
    obtain st where "lg_txs L (tx_ID tx) = Some (tx, st)"
      using assms d(2) [OF some(3)] by (force simp: stored_def holds_state_def s_rep_def rep_txs_def)
    then show ?thesis using some d(1) c(1) now put [OF holds_txCache [OF assms c(2)]] by (simp add: s_GetSubnetTransformation_def)
  next
    case cached
    then show ?thesis using now assms by (cases "lg_transform disk a") (simp_all add: s_GetSubnetTransformation_def)
  next
    case none
    then show ?thesis using now assms d(1) put [OF assms] by (simp add: s_GetSubnetTransformation_def)
  qed (use assms now in \<open>simp add: s_GetSubnetTransformation_def\<close>)
qed

lemma GetRewardUTXOs_spec:
  assumes "holds_state bt inputID kp db disk s L"
  shows "fst (s_GetRewardUTXOs kp db i s) = Inr (lg_rewards L i) \<and> holds_state bt inputID kp db disk (snd (s_GetRewardUTXOs kp db i s)) L"
proof -
  have d: "db_rewardUTXOs db i = (lg_rewards disk i, None)" and k: "\<forall>m. keep_reward kp m \<subseteq>\<^sub>m m"
    and r: "rep_rewards (s_addedRewardUTXOs s) (lg_rewards disk) (lg_rewards L)" and ca: "cache_ok (s_rewardUTXOsCache s) (lg_rewards disk)"
    using assms by (simp_all add: holds_state_def db_holds_def s_rep_def keeps_ok_def)
  have put: "holds_state bt inputID kp db disk (s\<lparr>s_rewardUTXOsCache := keep_reward kp ((s_rewardUTXOsCache s)(i \<mapsto> lg_rewards disk i))\<rparr>) L"
    using assms cache_ok_put [OF k ca refl, of i] by (simp add: holds_state_def s_rep_def)
  have now: "lg_rewards L i = lg_rewards disk i @ list_at (s_addedRewardUTXOs s) i" "map_of (s_addedRewardUTXOs s) i \<noteq> None \<Longrightarrow> lg_rewards disk i = []"
    using r by (simp_all add: rep_rewards_def)
  show ?thesis using assms put now d ca
    by (auto simp: s_GetRewardUTXOs_def list_at_def cache_ok_def split: option.splits)
qed

lemma GetCurrentSupply_spec:
  assumes "holds_state bt inputID kp db disk s L"
  shows "fst (s_GetCurrentSupply kp db a s) = found (lg_supply L a) \<and> holds_state bt inputID kp db disk (snd (s_GetCurrentSupply kp db a s)) L"
proof (cases "a = PrimaryNetworkID")
  case True
  then show ?thesis using assms by (simp add: s_GetCurrentSupply_def holds_state_def s_rep_def rep_supply_def)
next
  case False
  have d: "db_supplies db a = found (lg_supply disk a)" and k: "\<forall>m. keep_supply kp m \<subseteq>\<^sub>m m"
    and now: "lg_supply L a = over (map_of (s_modifiedSupplies s) a) (lg_supply disk a)" and ca: "cache_ok (s_supplyCache s) (lg_supply disk)"
    using assms False by (simp_all add: holds_state_def db_holds_def s_rep_def keeps_ok_def rep_supply_def)
  have put: "holds_state bt inputID kp db disk (s\<lparr>s_supplyCache := keep_supply kp ((s_supplyCache s)(a \<mapsto> lg_supply disk a))\<rparr>) L"
    using assms cache_ok_put [OF k ca refl, of a] by (simp add: holds_state_def s_rep_def)
  have c: "s_supplyCache s a = Some x \<Longrightarrow> x = lg_supply disk a" for x using ca by (simp add: cache_ok_def)
  show ?thesis using assms put now d c False
    by (cases "map_of (s_modifiedSupplies s) a"; cases "s_supplyCache s a"; cases "lg_supply disk a") (auto simp: s_GetCurrentSupply_def)
qed

lemma GetUTXO_spec: "holds_state bt inputID kp db disk s L \<Longrightarrow> s_GetUTXO db i s = found (lg_utxos L i)"
  by (auto simp: s_GetUTXO_def holds_state_def s_rep_def rep_utxos_def db_holds_def split: option.split)

lemma GetSubnetOwner_spec:
  assumes "holds_state bt inputID kp db disk s L"
  shows "(case owner_in (lg_txs L a) of None \<Rightarrow> \<exists>e. fst (s_GetSubnetOwner kp db a s) = Inl e | Some owner \<Rightarrow> fst (s_GetSubnetOwner kp db a s) = Inr owner)
    \<and> holds_state bt inputID kp db disk (snd (s_GetSubnetOwner kp db a s)) L"
proof -
  obtain c where c: "s_GetTx kp db a s = (found (lg_txs L a), s\<lparr>s_txCache := c\<rparr>)" "cache_ok c (lg_txs disk)" using GetTx_spec [OF assms] by blast
  show ?thesis using holds_txCache [OF assms c(2)]
    by (cases "lg_txs L a") (auto simp: s_GetSubnetOwner_def c(1) owner_in_def split: UnsignedTx.splits)
qed

lemma s_rep_read:
  assumes "holds_state bt inputID kp db disk s L"
  shows "holds_state bt inputID kp db disk (s_read kp db r s) L"
proof (cases r)
  case (LoadTx i)
  obtain c where "s_GetTx kp db i s = (found (lg_txs L i), s\<lparr>s_txCache := c\<rparr>)" "cache_ok c (lg_txs disk)" using GetTx_spec [OF assms] by blast
  with LoadTx holds_txCache [OF assms] show ?thesis by simp
qed (simp_all add: GetSubnets_spec [OF assms] GetChains_spec [OF assms] GetSubnetTransformation_spec [OF assms] GetRewardUTXOs_spec [OF assms]
  GetCurrentSupply_spec [OF assms] GetSubnetOwner_spec [OF assms])

lemma base_shown:
  "rep_base bt v A \<Longrightarrow> stakers_shown (\<lambda>a b. found (bs_GetValidator a b v)) (\<lambda>a b. Inr (bs_GetDelegatorIterator bt a b v)) (Inr (bs_GetStakerIterator bt v)) A"
  using base_reads [of bt v A] by (simp add: rep_base_def stakers_shown_def reads_as_def)

lemma s_shows:
  assumes "holds_state bt inputID kp db disk s L" "owners_match L"
  shows "shows_ledger (state_Chain bt kp db s) L"
proof -
  let ?C = "state_Chain bt kp db s"
  have v: "GetTimestamp ?C = lg_timestamp L" "GetStakeSyncTimestamp ?C = Inr (lg_stakeSync L)" "GetStakerAccumulatedMintRate ?C = Inr (lg_mintRate L)"
    "GetFeePerWeightStored ?C = Inr (lg_feePerWeight L)" "GetCurrentAccumulatedFee ?C = Inr (lg_fee L)" "GetLastAccumulatedFee ?C = Inr (lg_lastFee L)"
    "GetDelegateeReward ?C a b = found (lg_delegatee L a b)" for a b
    using assms(1) by (simp_all add: state_Chain_def holds_state_def s_rep_def)
  have "\<exists>c. s_GetTx kp db a s = (found (lg_txs L a), s\<lparr>s_txCache := c\<rparr>)" for a using GetTx_spec [OF assms(1)] by blast
  then have m: "GetCurrentSupply ?C a = found (lg_supply L a)" "GetSubnetTransformation ?C a = found (lg_transform L a)" "GetTx ?C a = found (lg_txs L a)"
    "GetUTXO ?C a = found (lg_utxos L a)" "GetRewardUTXOs ?C a = Inr (lg_rewards L a)" "GetSubnets ?C = Inr (lg_subnets L)" "GetChains ?C a = Inr (lg_chains L a)" for a
    by (simp_all add: state_Chain_def GetSubnets_spec [OF assms(1)] GetChains_spec [OF assms(1)] GetSubnetTransformation_spec [OF assms(1)]
      GetRewardUTXOs_spec [OF assms(1)] GetCurrentSupply_spec [OF assms(1)] GetUTXO_spec [OF assms(1)]) (metis fst_conv)
  have o: "case lg_owner L a of None \<Rightarrow> (\<exists>e. GetSubnetOwner ?C a = Inl e) | Some owner \<Rightarrow> GetSubnetOwner ?C a = Inr owner" for a
    using GetSubnetOwner_spec [OF assms(1), of a] assms(2) by (auto simp: state_Chain_def owners_match_def split: option.splits)
  have s: "stakers_shown (GetCurrentValidator ?C) (GetCurrentDelegatorIterator ?C) (GetCurrentStakerIterator ?C) (lg_current L)"
    "stakers_shown (GetPendingValidator ?C) (GetPendingDelegatorIterator ?C) (GetPendingStakerIterator ?C) (lg_pending L)"
    using assms(1) by (simp_all add: state_Chain_def base_shown holds_state_def s_rep_def)
  show ?thesis unfolding shows_ledger_def using v m o s by blast
qed

text \<open>The stored state keeps the contract of a state that differences are written to.\<close>

interpretation stored_state: chain_store inputID "s_write bt inputID kp" "s_read kp db" "state_Chain bt kp db" "holds_state bt inputID kp db"
  for inputID :: "'u \<Rightarrow> ID" and bt :: "('pk, 't) btree" and kp :: "('o, 'u) keeps" and db :: "('o, 'u) state_db"
proof unfold_locales
  fix disk s L i
  assume "holds_state bt inputID kp db disk s L" "lg_rewards L i = []"
  then show "lg_rewards disk i = []" by (simp add: holds_state_def s_rep_def rep_rewards_def)
qed (fact s_rep_write s_rep_read s_shows)+

subsection \<open>From the database to the ledger of the last block\<close>

text \<open>A state as it is loaded: nothing changed, nothing cached, and the values and stakers of the database.\<close>

definition as_loaded :: "('pk, 't) btree \<Rightarrow> ('pk, 'o, 'u) ledger \<Rightarrow> ('pk, 't, 'o, 'u) state \<Rightarrow> bool" where
  "as_loaded bt disk s \<longleftrightarrow> s_addedTxs s = [] \<and> s_addedRewardUTXOs s = [] \<and> s_modifiedUTXOs s = [] \<and> s_addedSubnets s = [] \<and> s_cachedSubnets s = []
     \<and> s_transformedSubnets s = [] \<and> s_modifiedSupplies s = [] \<and> s_addedChains s = []
     \<and> s_txCache s = Map.empty \<and> s_transformedSubnetCache s = Map.empty \<and> s_supplyCache s = Map.empty \<and> s_chainCache s = Map.empty
     \<and> s_rewardUTXOsCache s = Map.empty
     \<and> s_timestamp s = lg_timestamp disk \<and> s_stakeSyncTimestamp s = lg_stakeSync disk \<and> s_stakerAccumulatedMintRate s = lg_mintRate disk
     \<and> Some (s_currentSupply s) = lg_supply disk PrimaryNetworkID \<and> s_feePerWeightStored s = lg_feePerWeight disk
     \<and> s_currentAccumulatedFee s = lg_fee disk \<and> s_lastAccumulatedFee s = lg_lastFee disk
     \<and> (\<forall>a b. GetPotentialDelegateeReward a b (s_validatorState s) = lg_delegatee disk a b)
     \<and> base_rep bt (s_currentStakers s) (lg_current disk) \<and> base_rep bt (s_pendingStakers s) (lg_pending disk)"

lemma loaded_holds:
  assumes "btree_ok bt" "keeps_ok kp" "db_holds db disk" "as_loaded bt disk s" "ledger_sound disk"
  shows "holds_state bt inputID kp db disk s disk"
  using assms by (simp add: holds_state_def as_loaded_def ledger_sound_def s_rep_def rep_supply_def rep_base_def rep_subnets_def rep_map_def rep_chains_def rep_txs_def
    rep_rewards_def rep_utxos_def cache_ok_def list_at_def)

datatype ('pk, 'o, 'u) state_event = SWr "('pk, 'o, 'u) chain_write" | SRd state_read

fun s_run ::
  "('pk, 't) btree \<Rightarrow> ('u \<Rightarrow> ID) \<Rightarrow> ('o, 'u) keeps \<Rightarrow> ('o, 'u) state_db \<Rightarrow> ('pk, 'o, 'u) state_event list \<Rightarrow> ('pk, 't, 'o, 'u) state
     \<Rightarrow> chain_error + ('pk, 't, 'o, 'u) state" where
  "s_run bt inputID kp db [] s = Inr s"
| "s_run bt inputID kp db (SWr w # es) s = res_bind (s_write bt inputID kp w s) (s_run bt inputID kp db es)"
| "s_run bt inputID kp db (SRd r # es) s = s_run bt inputID kp db es (s_read kp db r s)"

fun stores_in :: "('pk, 'o, 'u) state_event list \<Rightarrow> ('pk, 'o, 'u) chain_write list" where
  "stores_in [] = []"
| "stores_in (SWr w # es) = w # stores_in es"
| "stores_in (SRd r # es) = stores_in es"

lemma s_run_holds:
  "holds_state bt inputID kp db disk s L \<Longrightarrow> stores_ok inputID disk L (stores_in es) \<Longrightarrow>
   \<exists>s'. s_run bt inputID kp db es s = Inr s' \<and> holds_state bt inputID kp db disk s' (lg_run inputID (stores_in es) L)"
proof (induction es arbitrary: s L)
  case (Cons e es)
  show ?case
  proof (cases e)
    case (SWr w)
    then obtain s1 where "s_write bt inputID kp w s = Inr s1" "holds_state bt inputID kp db disk s1 (lg_write inputID w L)"
      using stored_state.write_law [OF Cons.prems(1), of w] Cons.prems(2) by auto
    with SWr Cons.IH [of s1 "lg_write inputID w L"] Cons.prems(2) show ?thesis by simp
  next
    case (SRd r)
    with Cons.IH [OF stored_state.read_law [OF Cons.prems(1)]] Cons.prems(2) show ?thesis by simp
  qed
qed simp

text \<open>(C10) What a block sees is what is stored when it is accepted. Take a state that was loaded from a database that holds a ledger, and any sequence of getters and setters on it:
  it shows the ledger of the setters, whatever its caches have kept. Take a new difference over it and any sequence of calls on the difference. The difference
  shows the ledger after its setters, and writing it into the state, in whatever order the maps are visited, succeeds and leaves a state that shows the same
  ledger. All getters are meant, except the numbers of stakers. The conditions are that stakers are added and removed as the callers do, delegatee rewards are those of validators that are loaded,
  identifiers tell transactions apart, and a subnet is added with its transaction.\<close>

theorem applied_shows_ledger:
  assumes "btree_ok bt" "keeps_ok kp" "order_ok ord" "db_holds db disk" "as_loaded bt disk s0" "ledger_sound disk"
    and "stores_ok inputID disk disk (stores_in hs)" "L0 = lg_run inputID (stores_in hs) disk" "owners_match L0"
    and "writes_ok inputID L0 (start_of (lg_current L0)) (start_of (lg_pending L0)) L0 (writes_in es)" "L = lg_run inputID (writes_in es) L0"
    and "may_apply L0 L" "owners_match L"
  shows "\<exists>s. s_run bt inputID kp db hs s0 = Inr s \<and> shows_ledger (state_Chain bt kp db s) L0
    \<and> (\<forall>vs i. vs i = Some (state_Chain bt kp db s) \<longrightarrow>
        (\<exists>d0 d s'. NewDiff i vs = Inr d0 \<and> d_run bt inputID vs es d0 = Some d \<and> shows_ledger (diff_Chain bt vs d) L
          \<and> d_Apply (s_write bt inputID kp) bt ord d s = Inr s' \<and> shows_ledger (state_Chain bt kp db s') L))"
proof -
  obtain s where s: "s_run bt inputID kp db hs s0 = Inr s" "holds_state bt inputID kp db disk s L0"
    using s_run_holds [OF loaded_holds [OF assms(1,2,4,5,6)] assms(7)] assms(8) by blast
  have "ledger_sound L0" using s(2) by (simp add: holds_state_def s_rep_def rep_base_def ledger_sound_def)
  note over = stored_state.diff_over_store [OF assms(1,3) s(2) this assms(9) _ assms(10-13)]
  show ?thesis using s(1) stored_state.shows_law [OF s(2) assms(9)] over by blast
qed

text \<open>A new state over an empty database, a validator added to it, and the difference of the sample.\<close>

definition empty_db :: "(nat, ID) state_db" where
  "empty_db = \<lparr>db_txs = (\<lambda>_. Inl ErrNotFound), db_subnets = ([], None), db_transformedSubnets = (\<lambda>_. Inl ErrNotFound), db_chains = (\<lambda>_. ([], None)),
     db_supplies = (\<lambda>_. Inl ErrNotFound), db_rewardUTXOs = (\<lambda>_. ([], None)), db_utxos = (\<lambda>_. Inl ErrNotFound)\<rparr>"

definition keep_one :: "(ID \<Rightarrow> 'a option) \<Rightarrow> ID \<Rightarrow> 'a option" where
  "keep_one m = m |` {[5]}"

definition sample_keeps :: "(nat, ID) keeps" where
  "sample_keeps = \<lparr>keep_tx = keep_one, keep_transform = keep_one, keep_supply = keep_one, keep_chain = (\<lambda>_. Map.empty), keep_reward = (\<lambda>_. Map.empty)\<rparr>"

definition empty_state :: "(unit, unit Staker list, nat, ID) state" where
  "empty_state = \<lparr>s_validatorState = newValidatorState, s_currentStakers = newBaseStakers list_btree, s_pendingStakers = newBaseStakers list_btree,
     s_addedTxs = [], s_txCache = Map.empty, s_addedRewardUTXOs = [], s_rewardUTXOsCache = Map.empty, s_modifiedUTXOs = [], s_cachedSubnets = [], s_addedSubnets = [],
     s_transformedSubnets = [], s_transformedSubnetCache = Map.empty, s_modifiedSupplies = [], s_supplyCache = Map.empty, s_addedChains = [], s_chainCache = Map.empty,
     s_timestamp = 1, s_currentSupply = 7, s_lastAccumulatedFee = 0, s_currentAccumulatedFee = 0, s_feePerWeightStored = 0, s_stakerAccumulatedMintRate = 0,
     s_stakeSyncTimestamp = 1\<rparr>"

definition sample_order :: "(unit, unit Staker list, nat, ID) apply_order" where
  "sample_order = \<lparr>ao_current = list_visiting, ao_pending = list_visiting, ao_supplies = rev, ao_rewarded = rev, ao_nodes = rev, ao_transforms = rev, ao_chains = rev,
     ao_txs = rev, ao_rewards = rev, ao_utxos = rev\<rparr>"

definition sample_history :: "(unit, nat, ID) state_event list" where
  "sample_history = [SWr (SetTimestamp 2), SRd (LoadOwner [5]), SRd LoadSubnets, SWr (AddUTXO [6])]"

lemma empty_loaded: "as_loaded list_btree empty_ledger empty_state" "db_holds empty_db empty_ledger" "keeps_ok sample_keeps" "order_ok sample_order"
proof -
  have bt: "btree_ok list_btree" by (simp add: btree_ok_def list_btree_def)
  show "as_loaded list_btree empty_ledger empty_state" using base_rep_new [OF bt]
    by (simp add: as_loaded_def empty_ledger_def empty_state_def PrimaryNetworkID_def GetPotentialDelegateeReward_def newValidatorState_def)
  show "db_holds empty_db empty_ledger" by (simp add: db_holds_def empty_db_def empty_ledger_def PrimaryNetworkID_def)
  show "keeps_ok sample_keeps" by (simp add: keeps_ok_def sample_keeps_def keep_one_def map_le_def)
  show "order_ok sample_order" by (simp add: order_ok_def sample_order_def visiting_ok_def list_visiting_def)
qed

theorem applied_shows_ledger_witness:
  "\<exists>s. s_run list_btree id sample_keeps empty_db sample_history empty_state = Inr s
    \<and> (\<exists>d0 d s'. NewDiff [8] [[8] \<mapsto> state_Chain list_btree sample_keeps empty_db s] = Inr d0
        \<and> d_run list_btree id [[8] \<mapsto> state_Chain list_btree sample_keeps empty_db s] sample_events d0 = Some d
        \<and> d_Apply (s_write list_btree id sample_keeps) list_btree sample_order d s = Inr s'
        \<and> GetSubnets (state_Chain list_btree sample_keeps empty_db s') = Inr [sample_subnet]
        \<and> GetSubnetOwner (state_Chain list_btree sample_keeps empty_db s') [5] = Inr 4
        \<and> GetCurrentValidator (state_Chain list_btree sample_keeps empty_db s') [0] [7] = Inr sample_validator
        \<and> GetUTXO (state_Chain list_btree sample_keeps empty_db s') [6] = Inr [6])"
proof -
  have bt: "btree_ok list_btree" by (simp add: btree_ok_def list_btree_def)
  have sound: "ledger_sound empty_ledger" using sound_wf [OF ss_wf_none] by (simp add: ledger_sound_def empty_ledger_def)
  define L0 where "L0 = lg_run id (stores_in sample_history) empty_ledger"
  define L where "L = lg_run id (writes_in sample_events) L0"
  note defs = sample_events_def sample_history_def empty_ledger_def sample_subnet_def no_stakers_def sample_staker_def place_def
  have stores: "stores_ok id empty_ledger empty_ledger (stores_in sample_history)" by (simp add: defs)
  have writes: "writes_ok id L0 (start_of (lg_current L0)) (start_of (lg_pending L0)) L0 (writes_in sample_events)"
    by (simp add: L0_def defs staker_call_ok_def ss_all_def)
  have om: "owners_match L0" "owners_match L" by (auto simp: L_def L0_def defs owners_match_def owner_in_def)
  have ap: "may_apply L0 L" by (simp add: L_def L0_def defs may_apply_def same_tx_def)
  have L: "lg_subnets L = [sample_subnet]" "lg_owner L [5] = Some 4" "ss_vals (lg_current L) ([0], [7]) = Some sample_validator" "lg_utxos L [6] = Some [6]"
    by (simp_all add: L_def L0_def defs)
  obtain s where s: "s_run list_btree id sample_keeps empty_db sample_history empty_state = Inr s"
    "\<And>vs i. vs i = Some (state_Chain list_btree sample_keeps empty_db s) \<Longrightarrow>
        \<exists>d0 d s'. NewDiff i vs = Inr d0 \<and> d_run list_btree id vs sample_events d0 = Some d \<and> shows_ledger (diff_Chain list_btree vs d) L
          \<and> d_Apply (s_write list_btree id sample_keeps) list_btree sample_order d s = Inr s' \<and> shows_ledger (state_Chain list_btree sample_keeps empty_db s') L"
    using applied_shows_ledger [OF bt empty_loaded(3,4,2,1) sound stores L0_def om(1) writes L_def ap om(2)] by blast
  let ?C = "state_Chain list_btree sample_keeps empty_db"
  obtain d0 d s' where d: "NewDiff [8] [[8] \<mapsto> ?C s] = Inr d0" "d_run list_btree id [[8] \<mapsto> ?C s] sample_events d0 = Some d"
    "d_Apply (s_write list_btree id sample_keeps) list_btree sample_order d s = Inr s'" "shows_ledger (?C s') L"
    using s(2) [of "[[8] \<mapsto> ?C s]" "[8]"] by auto
  have "GetSubnetOwner (?C s') [5] = Inr 4" using shows_ledgerD(9) [OF d(4), of "[5]"] by (simp add: L)
  moreover have "GetCurrentValidator (?C s') [0] [7] = Inr sample_validator" using shows_ledgerD(6) [OF d(4)] by (simp add: stakers_shown_def L)
  moreover have "GetSubnets (?C s') = Inr [sample_subnet]" "GetUTXO (?C s') [6] = Inr [6]" using shows_ledgerD(8,14) [OF d(4)] by (simp_all add: L)
  ultimately show ?thesis using s(1) d(1-3) by blast
qed

end
