(* ===== verification/Spec2Isabelle.thy ===== *)
theory Spec2Isabelle
  imports SafeMath Topological_Total Tree_Correct LRU_Cache Poll Validator_Set Packing Deque Utxo_Spend Rewards
    Staker_Changes Chain_Base
begin

text \<open>
  A verification development for a node of the Odyssey network, a blockchain node that is written in Go. It covers the
  consensus of the node, the data structures below it, the sampling of validators, the encoding of data as bytes, and the
  rules for spending on the omega chain.

  \<^bold>\<open>The parts and how they interact.\<close> A node samples validators by their weights (\<^verbatim>\<open>utils/sampler\<close>, \<^verbatim>\<open>snow/validators\<close>) and asks
  them which block they prefer. Each request is a poll, the outstanding polls are a set, and the answers of a poll
  are a bag of votes (\<^verbatim>\<open>snow/consensus/snowman/poll\<close>, \<^verbatim>\<open>utils/bag\<close>). A finished poll goes to the topological consensus
  (\<^verbatim>\<open>snow/consensus/snowman\<close>), which pushes the votes up the tree of blocks and records them in one snowball instance per
  block with children; such an instance is a prefix tree over the bits of block identifiers (\<^verbatim>\<open>snow/consensus/snowball\<close>). The
  transactions in blocks of the omega chain spend UTXOs: the handler (\<^verbatim>\<open>vms/omegavm/utxo\<close>) checks that what a
  transaction consumes covers what it produces (\<^verbatim>\<open>vms/components/dione\<close>) and that the owners have signed
  (\<^verbatim>\<open>vms/secp256k1fx\<close>).

  \<^bold>\<open>Conventions.\<close> A Go map that the code ranges over is an association list with distinct keys, and the order in which a run
  visits it is that of the list or an argument; a map that is only looked up is a HOL map. A \<^verbatim>\<open>uint64\<close> is a
  64 bit word, an \<^verbatim>\<open>int\<close> is an integer where its range cannot be left. An error is the left side of a sum type, a panic as
  well. Pointers that are shared go through an explicit store. Cryptography, hashing, the codec, the database and the virtual machine are
  arguments of the definitions that use them; what a theorem needs of them is a hypothesis, and its
  witness gives a concrete function for it. Random numbers are a list of the raw values of the source.

  \<^bold>\<open>Theories.\<close>

  \<^item> \<^verbatim>\<open>Prelude\<close>: words, the result type, association lists as maps, and the lemmas that the components share.
  \<^item> \<^verbatim>\<open>SafeMath\<close> (\<^verbatim>\<open>utils/math\<close>): checked arithmetic; the result is exact, or an error exactly when it does not fit.
  \<^item> \<^verbatim>\<open>Bits64\<close>, \<^verbatim>\<open>Bags\<close> (\<^verbatim>\<open>utils/set/bits_64.go\<close>, \<^verbatim>\<open>utils/bag\<close>): sets of small numbers and bags of votes; they refine sets
    and multisets over all sequences of calls, except that elements which met the threshold stay listed after they were removed; a unique bag counts voters.
  \<^item> \<^verbatim>\<open>Id_Bits\<close> (\<^verbatim>\<open>ids\<close>): bits of identifiers; the bytewise comparison of bit ranges agrees with the bitwise one.
  \<^item> \<^verbatim>\<open>Snowball\<close> (\<^verbatim>\<open>snow/consensus/snowball\<close>): unary, binary and n-ary instances and the flat instance; an instance
    decides exactly on a streak of successful polls, and the decision is stable.
  \<^item> \<^verbatim>\<open>Snowball_Tree\<close>, \<^verbatim>\<open>Tree_Correct\<close> (\<^verbatim>\<open>tree.go\<close>): the prefix tree; its well-formedness, the equivalence of delayed and immediate
    resets, that decisions are final and among the choices given, and that a constant majority decides.
  \<^item> \<^verbatim>\<open>Topological\<close>, \<^verbatim>\<open>Topological_Safety\<close>, \<^verbatim>\<open>Topological_Total\<close> (\<^verbatim>\<open>snow/consensus/snowman\<close>): the state machine over the tree of blocks; accepted blocks
    form a chain, every block is decided at most once, and none is lost, for all orders of visiting the votes and all
    answers of the virtual machine, with the children of a block visited as they were added; and no run gets stuck, dereferences a block that was removed, or leaves the node with a preference
    for a block that was rejected. One lemma shows that the in-degrees can be counted twice.
  \<^item> \<^verbatim>\<open>Linked_Hashmap\<close>, \<^verbatim>\<open>LRU_Cache\<close> (\<^verbatim>\<open>utils/linkedhashmap\<close>, \<^verbatim>\<open>cache\<close>): the ordered map with its iterator, and the two caches; a cache never
    answers with a stale value, keeps within its size and keeps recent entries. The sized cache keeps its account of the sizes within the limit, and the law of the account says
    when a put subtracts a size twice.
  \<^item> \<^verbatim>\<open>Poll\<close> (\<^verbatim>\<open>snow/consensus/snowman/poll\<close>): polls and the set of polls; a poll counts first answers only, early termination is sound, and
    the results that are handed over are those of the closed queries, first in, first out.
  \<^item> \<^verbatim>\<open>Uniform_Sampler\<close>, \<^verbatim>\<open>Weighted_Sampler\<close> (\<^verbatim>\<open>utils/sampler\<close>): sampling; draws are unbiased, samples are distinct and equally likely, each
    weighted sampler gives every index its weight, and a sample without replacement stays within the weights.
  \<^item> \<^verbatim>\<open>Validator_Set\<close> (\<^verbatim>\<open>snow/validators\<close>): the set of validators, its listeners and the manager of sets; they refine a map from nodes to
    weights with exact totals, also when the manager has one set for several subnets.
  \<^item> \<^verbatim>\<open>Packing\<close> (\<^verbatim>\<open>utils/wrappers\<close>): the packer of bytes; packing and unpacking are inverse to each other, unpacking never panics
    and accepts canonical bytes only.
  \<^item> \<^verbatim>\<open>Deque\<close> (\<^verbatim>\<open>utils/buffer\<close>, \<^verbatim>\<open>utils/window\<close>): the ring buffer, the bounded queue and the time window refine lists.
  \<^item> \<^verbatim>\<open>Secp_Fx\<close> (\<^verbatim>\<open>vms/secp256k1fx\<close>): owners, inputs, outputs, credentials and the keychain; a transfer needs the signatures of the owners
    once the extension is bootstrapped, and before that their number only, as the code replays old blocks without checking signatures; and what the keychain builds is accepted.
  \<^item> \<^verbatim>\<open>Transferables\<close> (\<^verbatim>\<open>vms/components/dione\<close>): the flow check, which accepts exactly the well formed transactions that conserve
    every asset.
  \<^item> \<^verbatim>\<open>Utxo_Verify\<close>, \<^verbatim>\<open>Utxo_Spend\<close> (\<^verbatim>\<open>vms/omegavm/utxo\<close>): the verification of spending, which conserves assets, keeps locked
    funds locked and needs the owners, in the same sense; and the building of inputs and outputs, which is accepted by the verification.
  \<^item> \<^verbatim>\<open>Rewards\<close> (\<^verbatim>\<open>vms/omegavm/reward\<close>): the calculators of rewards; the closed formula with its bounds, and that all stakers together
    never get more than what the configuration mints, the rate of the grown supply up to the maximal amount, while no more is staked than the rate was computed for.
  \<^item> \<^verbatim>\<open>Go_Heap\<close> (the package \<^verbatim>\<open>container/heap\<close> of the language): the heap operations keep the heap order and the elements, and the root is
    least.
  \<^item> \<^verbatim>\<open>Staker_Iterators\<close>, \<^verbatim>\<open>Staker_Changes\<close> (\<^verbatim>\<open>vms/omegavm/state\<close>, \<^verbatim>\<open>vms/omegavm/txs/priorities.go\<close>): stakers and the iterators over them; the merged
    iterator gives the elements of its parts in order, and the iterator over the changes of the set of stakers gives every
    change once and in order.
  \<^item> \<^verbatim>\<open>Stakers\<close>, \<^verbatim>\<open>Stakers_Refine\<close> (\<^verbatim>\<open>vms/omegavm/state/stakers.go\<close>, \<^verbatim>\<open>diff.go\<close>): the sets of stakers of a chain state and the differences on top of them; both refine a
    set of stakers, and applying a difference gives what reading through it gave.
  \<^item> \<^verbatim>\<open>Validator_Metadata\<close> (\<^verbatim>\<open>validator_metadata.go\<close>): uptimes and rewards of validators; a write to a database that accepts it puts exactly what was updated.
  \<^item> \<^verbatim>\<open>Chain_State\<close>, \<^verbatim>\<open>Chain_Diff\<close>, \<^verbatim>\<open>Chain_Apply\<close>, \<^verbatim>\<open>Chain_Base\<close> (\<^verbatim>\<open>vms/omegavm/state/diff.go\<close>, \<^verbatim>\<open>state.go\<close>): the state of the omega chain. \<^verbatim>\<open>Chain_State\<close> has its interface and the
    ledger that is its contract, \<^verbatim>\<open>Chain_Diff\<close> the changes of a block over the state of its parent, \<^verbatim>\<open>Chain_Apply\<close> the writing of a difference into a state, and \<^verbatim>\<open>Chain_Base\<close> the
    stored state with its caches over the database. Differences and the stored state show the ledger of their setters, and applying a difference leaves the
    ledger that it showed. The ledger has no numbers of stakers: a difference answers those with the numbers of its parent.

  \<^bold>\<open>Interfaces.\<close> What one component relies on in another is a locale, interpreted on the definitions of the provider in its own
  theory: sets of small numbers, bags of votes, snowflake counters, consensus instances, ordered maps, caches, polls, uniform and
  weighted samplers, sets of validators, codecs, deques, and chain states that differences are written to.

  \<^bold>\<open>Loops.\<close> Loops over lists are recursive functions. The loops that may run for ever (the rejection loops of the samplers, the
  eviction loops of the caches, the processing of finished polls) are partial functions with result \<^verbatim>\<open>None\<close> for a run that does not
  return, and the theorems about them show that they return, for the samplers as long as the source gives fitting numbers. The
  four loops of the topological consensus that walk the tree of blocks have fuel, the number of blocks and one more (for the loop that
  pushes votes, the number of nodes with votes); running out is the error \<^verbatim>\<open>Diverges\<close>, and \<^verbatim>\<open>Topological_Total\<close> shows that it never
  happens, because ranks grow from parent to child and every node with votes is visited at most once.

  \<^bold>\<open>Not modelled.\<close> Engines, networking, databases, codecs by reflection, the commit of the chain state to the database and the execution of the transactions of the
  virtual machines, APIs, wallets, logging and metrics: they consist of concurrency, I/O, reflection or calls of libraries. Locks are left out,
  every exported operation is one step. Printing and JSON forms are left out. The sampler that computes with floats and the one that
  measures times are left out.
\<close>

end
